(* ===== verification/Prelude.thy ===== *)
theory Prelude
  imports Main "HOL-Library.Word"
begin

section \<open>Prelude: C integers, arrays and shared lemmas\<close>

text \<open>
  The C semantics the components share. The code is fixed-point C for two's-complement
  machines: \<open>int16_t\<close>, \<open>int32_t\<close> and friends are modelled as mathematical
  integers, with the conversion to the width written out wherever the source stores into a
  variable of that width or computes in \<open>int\<close>: \<open>s16\<close>, \<open>s32\<close> (signed) and
  \<open>u8\<close>, \<open>u16\<close>, \<open>u32\<close>, \<open>u64\<close> (unsigned). \<open>add32\<close>, \<open>sub32\<close>,
  \<open>mul32\<close> are the operations on 32-bit \<open>int\<close> with the wrap-around the compiled code
  has (the sources mark the overflowing places with \<open>RTC_NO_SANITIZE\<close>). \<open>shr\<close> is the
  arithmetic right shift, \<open>cdiv\<close> the C division that truncates towards zero. Sizes
  (\<open>size_t\<close>) are natural numbers with the 64-bit wrap-around written out by
  \<open>size_sub\<close>, \<open>size_add\<close> and \<open>size_mul\<close>. \<open>memcpy\<close> is total in C only inside
  its arrays, so \<open>memcpy_to\<close> returns \<open>None\<close> outside them.
\<close>

named_theorems c_int \<open>definitions of the C conversions and operators\<close>
named_theorems c_id \<open>a conversion of a value that fits is the value\<close>
named_theorems c_range \<open>ranges of the C conversions\<close>

subsection \<open>Conversions\<close>

definition s16 :: "int \<Rightarrow> int" where
  "s16 x = (x + 32768) mod 65536 - 32768"

definition s32 :: "int \<Rightarrow> int" where
  "s32 x = (x + 2147483648) mod 4294967296 - 2147483648"

definition s64 :: "int \<Rightarrow> int" where
  "s64 x = (x + 9223372036854775808) mod 18446744073709551616 - 9223372036854775808"

definition u8 :: "int \<Rightarrow> int" where
  "u8 x = x mod 256"

definition u16 :: "int \<Rightarrow> int" where
  "u16 x = x mod 65536"

definition u32 :: "int \<Rightarrow> int" where
  "u32 x = x mod 4294967296"

definition u64 :: "int \<Rightarrow> int" where
  "u64 x = x mod 18446744073709551616"

definition in_s16 :: "int \<Rightarrow> bool" where
  "in_s16 x \<longleftrightarrow> -32768 \<le> x \<and> x \<le> 32767"

definition in_s32 :: "int \<Rightarrow> bool" where
  "in_s32 x \<longleftrightarrow> -2147483648 \<le> x \<and> x \<le> 2147483647"

subsection \<open>Operators on int\<close>

definition add32 :: "int \<Rightarrow> int \<Rightarrow> int" where
  "add32 a b = s32 (a + b)"

definition sub32 :: "int \<Rightarrow> int \<Rightarrow> int" where
  "sub32 a b = s32 (a - b)"

definition mul32 :: "int \<Rightarrow> int \<Rightarrow> int" where
  "mul32 a b = s32 (a * b)"

definition shl32 :: "int \<Rightarrow> nat \<Rightarrow> int" where
  "shl32 a n = s32 (a * 2 ^ n)"

definition shr :: "int \<Rightarrow> nat \<Rightarrow> int" where
  "shr a n = a div 2 ^ n"

definition cdiv :: "int \<Rightarrow> int \<Rightarrow> int" where
  "cdiv a b = sgn a * sgn b * (\<bar>a\<bar> div \<bar>b\<bar>)"

lemmas c_conv_defs = s16_def s32_def s64_def u8_def u16_def u32_def u64_def
lemmas c_op_defs = add32_def sub32_def mul32_def shl32_def shr_def

declare c_conv_defs [c_int] c_op_defs [c_int]

lemma s16_range [c_range]: "-32768 \<le> s16 x" "s16 x \<le> 32767"
  by (simp_all add: s16_def)

lemma s32_range [c_range]: "-2147483648 \<le> s32 x" "s32 x \<le> 2147483647"
  by (simp_all add: s32_def)

lemma in_s16_s16 [simp]: "in_s16 (s16 x)"
  using s16_range[of x] by (simp add: in_s16_def)

lemma in_s32_s32 [simp]: "in_s32 (s32 x)"
  using s32_range[of x] by (simp add: in_s32_def)

lemma in_s16_in_s32: "in_s16 x \<Longrightarrow> in_s32 x"
  by (simp add: in_s16_def in_s32_def)

lemma s16_id [c_id]: "in_s16 x \<Longrightarrow> s16 x = x"
  by (simp add: s16_def in_s16_def)

lemma s32_id [c_id]: "in_s32 x \<Longrightarrow> s32 x = x"
  by (simp add: s32_def in_s32_def)

lemma s16_idI: "-32768 \<le> x \<Longrightarrow> x \<le> 32767 \<Longrightarrow> s16 x = x"
  by (simp add: s16_def)

lemma s32_idI: "-2147483648 \<le> x \<Longrightarrow> x \<le> 2147483647 \<Longrightarrow> s32 x = x"
  by (simp add: s32_def)

lemma u32_idI: "0 \<le> x \<Longrightarrow> x < 4294967296 \<Longrightarrow> u32 x = x"
  by (simp add: u32_def)

lemma s16_0 [simp]: "s16 0 = 0"
  by (simp add: s16_def)

lemma s32_0 [simp]: "s32 0 = 0"
  by (simp add: s32_def)

text \<open>The two readings of a wrapped value agree with the library's machine words.\<close>

lemma s16_eq_sint: "s16 x = sint (word_of_int x :: 16 word)"
  by (simp add: s16_def sint_sbintrunc' signed_take_bit_eq_take_bit_shift take_bit_eq_mod)

lemma s32_eq_sint: "s32 x = sint (word_of_int x :: 32 word)"
  by (simp add: s32_def sint_sbintrunc' signed_take_bit_eq_take_bit_shift take_bit_eq_mod)

lemma u32_eq_uint: "u32 x = uint (word_of_int x :: 32 word)"
  by (simp add: u32_def uint_word_of_int)

text \<open>Wrapping early or late makes no difference to sums.\<close>

lemma s32_mod: "s32 x mod 4294967296 = x mod 4294967296"
  by (simp add: s32_def mod_diff_left_eq)

lemma s32_cong: "x mod 4294967296 = y mod 4294967296 \<Longrightarrow> s32 x = s32 y"
  unfolding s32_def by (metis mod_add_left_eq)

lemma s32_add_left [simp]: "s32 (s32 a + b) = s32 (a + b)"
  by (rule s32_cong) (metis mod_add_left_eq s32_mod)

lemma s32_add_right [simp]: "s32 (a + s32 b) = s32 (a + b)"
  by (rule s32_cong) (metis mod_add_right_eq s32_mod)

lemma s32_s32 [simp]: "s32 (s32 x) = s32 x"
  by (simp add: s32_id)

lemma s16_s16 [simp]: "s16 (s16 x) = s16 x"
  by (simp add: s16_id)

lemma u32_mod: "u32 x mod 4294967296 = x mod 4294967296"
  by (simp add: u32_def)

lemma s32_u32 [simp]: "s32 (u32 x) = s32 x"
  by (rule s32_cong) (simp add: u32_mod)

lemma s32_u32_add: "s32 (u32 a + u32 b) = s32 (a + b)"
  by (rule s32_cong) (simp add: u32_def mod_add_eq)

lemma s32_u32_diff: "s32 (u32 a - u32 b) = s32 (a - b)"
  by (rule s32_cong) (simp add: u32_def mod_diff_eq)

lemma s32_over: "2147483647 < x \<Longrightarrow> x < 6442450944 \<Longrightarrow> s32 x = x - 4294967296"
  using s32_cong [of x "x - 4294967296"] s32_idI [of "x - 4294967296"] by simp

lemma s32_under: "x < -2147483648 \<Longrightarrow> -6442450944 \<le> x \<Longrightarrow> s32 x = x + 4294967296"
  using s32_cong [of x "x + 4294967296"] s32_idI [of "x + 4294967296"] by simp

lemma int_div_less: "0 < k \<Longrightarrow> m < q * k \<Longrightarrow> m div k < (q::int)"
proof (rule ccontr)
  assume k: "0 < k" and m: "m < q * k" and "\<not> m div k < q"
  then have "q * k \<le> (m div k) * k" by (simp add: mult_right_mono)
  also have "\<dots> \<le> m" using k by (simp add: minus_mod_eq_div_mult [symmetric])
  finally show False using m by simp
qed

lemma shr_mono: "a \<le> b \<Longrightarrow> shr a n \<le> shr b n"
  by (simp add: shr_def zdiv_mono1)

lemma shr_nonneg [simp]: "0 \<le> shr a n \<longleftrightarrow> 0 \<le> a"
  by (simp add: shr_def pos_imp_zdiv_nonneg_iff)

lemma shr_le_self: "0 \<le> a \<Longrightarrow> shr a n \<le> a"
  by (metis shr_def div_by_1 one_le_power zdiv_mono2
      zero_less_one one_le_numeral)

lemma shr_0 [simp]: "shr 0 n = 0"
  by (simp add: shr_def)

lemma cdiv_pos: "0 \<le> a \<Longrightarrow> 0 < b \<Longrightarrow> cdiv a b = a div b"
  by (cases "a = 0") (simp_all add: cdiv_def)

lemma cdiv_neg: "0 \<le> a \<Longrightarrow> 0 < b \<Longrightarrow> cdiv (- a) b = - (a div b)"
  by (cases "a = 0") (simp_all add: cdiv_def)

lemma abs_cdiv_le: "\<bar>cdiv a b\<bar> \<le> \<bar>a\<bar>"
proof -
  have "\<bar>a\<bar> div \<bar>b\<bar> \<le> \<bar>a\<bar>"
    by (cases "b = 0") (auto intro: order_trans [OF zdiv_mono2 [of _ 1]])
  moreover have "0 \<le> \<bar>a\<bar> div \<bar>b\<bar>"
    by (simp add: div_int_pos_iff)
  ultimately show ?thesis
    by (auto simp: cdiv_def abs_mult abs_sgn_eq)
qed

subsection \<open>Sizes and memory copies\<close>

definition size_sub :: "nat \<Rightarrow> nat \<Rightarrow> nat" where
  "size_sub a b = nat (u64 (int a - int b))"

definition size_add :: "nat \<Rightarrow> nat \<Rightarrow> nat" where
  "size_add a b = (a + b) mod 18446744073709551616"

definition size_mul :: "nat \<Rightarrow> nat \<Rightarrow> nat" where
  "size_mul a b = (a * b) mod 18446744073709551616"

lemma size_sub_le: "b \<le> a \<Longrightarrow> a < 18446744073709551616 \<Longrightarrow> size_sub a b = a - b"
  by (simp add: size_sub_def u64_def nat_diff_distrib flip: of_nat_diff)

lemma size_add_fits: "a + b < 18446744073709551616 \<Longrightarrow> size_add a b = a + b"
  by (simp add: size_add_def)

lemma size_mul_fits: "a * b < 18446744073709551616 \<Longrightarrow> size_mul a b = a * b"
  by (simp add: size_mul_def)

lemma nth_upd: "j < length xs \<Longrightarrow> xs[i := x] ! j = (if i = j then x else xs ! j)"
  by auto

definition memcpy_to :: "'a list \<Rightarrow> nat \<Rightarrow> 'a list \<Rightarrow> nat \<Rightarrow> nat \<Rightarrow> 'a list option" where
  "memcpy_to dst off src soff n =
     (if off + n \<le> length dst \<and> soff + n \<le> length src
      then Some (take off dst @ take n (drop soff src) @ drop (off + n) dst) else None)"

lemma memcpy_to_Some:
  "off + n \<le> length dst \<Longrightarrow> soff + n \<le> length src \<Longrightarrow>
   memcpy_to dst off src soff n =
     Some (take off dst @ take n (drop soff src) @ drop (off + n) dst)"
  by (simp add: memcpy_to_def)

lemma memcpy_to_length: "memcpy_to dst off src soff n = Some d \<Longrightarrow> length d = length dst"
  by (auto simp: memcpy_to_def split: if_splits)

end
