(* ===== verification/Ring_Buffer.thy ===== *)
theory Ring_Buffer
  imports Prelude
begin

section \<open>The ring buffer (\<open>common_audio/ring_buffer.c\<close>)\<close>

text \<open>
  A ring of \<open>element_count\<close> elements of \<open>element_size\<close> bytes. The record mirrors the
  C struct; \<open>data\<close> is the byte array. A handle is \<open>None\<close> for the null pointer. Copies go
  through \<open>memcpy_to\<close>, so an operation that would leave its arrays is \<open>None\<close> here, and
  the theorems that an operation returns \<open>Some\<close> are memory-safety theorems. The contract
  is the list \<open>contents\<close> of readable bytes: writing appends, reading takes from the
  front, moving the read pointer forwards flushes and backwards un-reads.
\<close>

type_synonym byte = "8 word"

datatype Wrap = SAME_WRAP | DIFF_WRAP

record RingBuffer =
  read_pos :: nat
  write_pos :: nat
  element_count :: nat
  element_size :: nat
  rw_wrap :: Wrap
  data :: "byte list"

subsection \<open>Operations\<close>

definition WebRtc_available_read_rb :: "RingBuffer \<Rightarrow> nat" where
  "WebRtc_available_read_rb self =
     (if rw_wrap self = SAME_WRAP then size_sub (write_pos self) (read_pos self)
      else size_add (size_sub (element_count self) (read_pos self)) (write_pos self))"

definition WebRtc_available_read :: "RingBuffer option \<Rightarrow> nat" where
  "WebRtc_available_read self =
     (case self of None \<Rightarrow> 0 | Some rb \<Rightarrow> WebRtc_available_read_rb rb)"

definition WebRtc_available_write :: "RingBuffer option \<Rightarrow> nat" where
  "WebRtc_available_write self =
     (case self of None \<Rightarrow> 0
      | Some rb \<Rightarrow> size_sub (element_count rb) (WebRtc_available_read (Some rb)))"

text \<open>
  \<open>GetBufferReadRegions\<close> returns the number of readable elements and the two regions as
  (offset into \<open>data\<close>, bytes); the second region is \<open>None\<close> when the pointer is null.
\<close>

definition GetBufferReadRegions ::
    "RingBuffer \<Rightarrow> nat \<Rightarrow> nat \<times> (nat \<times> nat) \<times> (nat option \<times> nat)" where
  "GetBufferReadRegions buf n =
     (let readable_elements = WebRtc_available_read (Some buf);
          read_elements = (if readable_elements < n then readable_elements else n);
          margin = size_sub (element_count buf) (read_pos buf);
          start = size_mul (read_pos buf) (element_size buf)
      in if read_elements > margin
         then (read_elements, (start, size_mul margin (element_size buf)),
               (Some 0, size_mul (size_sub read_elements margin) (element_size buf)))
         else (read_elements, (start, size_mul read_elements (element_size buf)), (None, 0)))"

definition WebRtc_InitBuffer :: "RingBuffer \<Rightarrow> RingBuffer" where
  "WebRtc_InitBuffer self =
     self\<lparr>read_pos := 0, write_pos := 0, rw_wrap := SAME_WRAP,
          data := replicate (size_mul (element_count self) (element_size self)) 0 @
                  drop (size_mul (element_count self) (element_size self)) (data self)\<rparr>"

text \<open>
  \<open>malloc\<close> is an argument: whether the struct can be allocated, and the block (of unknown
  content) returned for the data or \<open>None\<close>.
\<close>

definition WebRtc_CreateBuffer ::
    "bool \<Rightarrow> (nat \<Rightarrow> byte list option) \<Rightarrow> nat \<Rightarrow> nat \<Rightarrow> RingBuffer option" where
  "WebRtc_CreateBuffer struct_ok malloc cnt sz =
     (if cnt = 0 \<or> sz = 0 then None
      else if \<not> struct_ok then None
      else case malloc (size_mul cnt sz) of
             None \<Rightarrow> None
           | Some block \<Rightarrow>
               Some (WebRtc_InitBuffer
                 \<lparr>read_pos = 0, write_pos = 0, element_count = cnt, element_size = sz,
                  rw_wrap = SAME_WRAP, data = block\<rparr>))"

definition WebRtc_FreeBuffer :: "RingBuffer option \<Rightarrow> RingBuffer option" where
  "WebRtc_FreeBuffer handle = None"

definition WebRtc_MoveReadPtr_rb :: "RingBuffer \<Rightarrow> int \<Rightarrow> int \<times> RingBuffer" where
  "WebRtc_MoveReadPtr_rb self n =
     (let free_elements = s32 (int (WebRtc_available_write (Some self)));
          readable_elements = s32 (int (WebRtc_available_read (Some self)));
          n1 = (if n > readable_elements then readable_elements else n);
          n2 = (if n1 < - free_elements then - free_elements else n1);
          pos1 = add32 (s32 (int (read_pos self))) n2;
          cnt = s32 (int (element_count self));
          (pos2, wrap2) = (if pos1 > cnt then (sub32 pos1 cnt, SAME_WRAP)
                           else (pos1, rw_wrap self));
          (pos3, wrap3) = (if pos2 < 0 then (add32 pos2 cnt, DIFF_WRAP) else (pos2, wrap2))
      in (n2, self\<lparr>read_pos := nat (u64 pos3), rw_wrap := wrap3\<rparr>))"

definition WebRtc_MoveReadPtr :: "RingBuffer option \<Rightarrow> int \<Rightarrow> int \<times> RingBuffer option" where
  "WebRtc_MoveReadPtr self n =
     (case self of None \<Rightarrow> (0, None)
      | Some rb \<Rightarrow> (let (m, rb') = WebRtc_MoveReadPtr_rb rb n in (m, Some rb')))"

text \<open>
  Where \<open>*data_ptr\<close> points after a read: nowhere, at a byte of the ring, or at the
  caller's \<open>data\<close>.
\<close>

datatype data_ref = NullRef | RingRef nat | DataRef

record read_result =
  r_count :: nat
  r_data :: "byte list"
  r_ptr :: "data_ref option"
  r_self :: RingBuffer

definition WebRtc_ReadBuffer_rb ::
    "RingBuffer \<Rightarrow> bool \<Rightarrow> byte list \<Rightarrow> nat \<Rightarrow> read_result option" where
  "WebRtc_ReadBuffer_rb self has_ptr buf n =
     (let (read_count, (p1, b1), (p2, b2)) = GetBufferReadRegions self n;
          copied = (if b2 > 0
                    then (case memcpy_to buf 0 (data self) p1 b1 of None \<Rightarrow> None
                          | Some d \<Rightarrow> map_option (\<lambda>d'. (d', DataRef))
                                        (memcpy_to d b1 (data self) 0 b2))
                    else if \<not> has_ptr
                    then map_option (\<lambda>d. (d, RingRef p1)) (memcpy_to buf 0 (data self) p1 b1)
                    else Some (buf, RingRef p1))
      in case copied of None \<Rightarrow> None
         | Some (d, ref) \<Rightarrow>
             Some \<lparr>r_count = read_count, r_data = d,
                   r_ptr = (if has_ptr then Some (if read_count = 0 then NullRef else ref)
                            else None),
                   r_self = snd (WebRtc_MoveReadPtr_rb self (s32 (int read_count)))\<rparr>)"

definition WebRtc_ReadBuffer ::
    "RingBuffer option \<Rightarrow> bool \<Rightarrow> byte list option \<Rightarrow> nat \<Rightarrow>
     (nat \<times> read_result option) option" where
  "WebRtc_ReadBuffer self has_ptr buf n =
     (case (self, buf) of
        (Some rb, Some d) \<Rightarrow>
          map_option (\<lambda>r. (r_count r, Some r)) (WebRtc_ReadBuffer_rb rb has_ptr d n)
      | _ \<Rightarrow> Some (0, None))"

definition WebRtc_WriteBuffer_rb ::
    "RingBuffer \<Rightarrow> byte list \<Rightarrow> nat \<Rightarrow> (nat \<times> RingBuffer) option" where
  "WebRtc_WriteBuffer_rb self src cnt =
     (let free_elements = WebRtc_available_write (Some self);
          write_elements = (if free_elements < cnt then free_elements else cnt);
          margin = size_sub (element_count self) (write_pos self);
          es = element_size self;
          wrapped = (if write_elements > margin
                     then map_option
                            (\<lambda>d. (self\<lparr>data := d, write_pos := 0, rw_wrap := DIFF_WRAP\<rparr>,
                                  size_sub write_elements margin))
                            (memcpy_to (data self) (size_mul (write_pos self) es) src 0
                               (size_mul margin es))
                     else Some (self, write_elements))
      in case wrapped of None \<Rightarrow> None
         | Some (self1, n) \<Rightarrow>
             map_option
               (\<lambda>d. (write_elements,
                     self1\<lparr>data := d, write_pos := size_add (write_pos self1) n\<rparr>))
               (memcpy_to (data self1) (size_mul (write_pos self1) es) src
                  (size_mul (size_sub write_elements n) es) (size_mul n es)))"

definition WebRtc_WriteBuffer ::
    "RingBuffer option \<Rightarrow> byte list option \<Rightarrow> nat \<Rightarrow> (nat \<times> RingBuffer option) option" where
  "WebRtc_WriteBuffer self src cnt =
     (case (self, src) of
        (Some rb, Some d) \<Rightarrow>
          map_option (\<lambda>(n, rb'). (n, Some rb')) (WebRtc_WriteBuffer_rb rb d cnt)
      | _ \<Rightarrow> Some (0, self))"

subsection \<open>Invariant and abstraction\<close>

definition rb_inv :: "RingBuffer \<Rightarrow> bool" where
  "rb_inv rb \<longleftrightarrow>
     0 < element_size rb \<and> 0 < element_count rb \<and> element_count rb < 1073741824 \<and>
     element_count rb * element_size rb < 18446744073709551616 \<and>
     length (data rb) = element_count rb * element_size rb \<and>
     read_pos rb \<le> element_count rb \<and> write_pos rb \<le> element_count rb \<and>
     (if rw_wrap rb = SAME_WRAP then read_pos rb \<le> write_pos rb
      else write_pos rb \<le> read_pos rb)"

definition contents :: "RingBuffer \<Rightarrow> byte list" where
  "contents rb =
     (let r = read_pos rb * element_size rb; w = write_pos rb * element_size rb
      in if rw_wrap rb = SAME_WRAP then take (w - r) (drop r (data rb))
         else drop r (data rb) @ take w (data rb))"

definition avail :: "RingBuffer \<Rightarrow> nat" where
  "avail rb = (if rw_wrap rb = SAME_WRAP then write_pos rb - read_pos rb
               else element_count rb - read_pos rb + write_pos rb)"

definition free_count :: "RingBuffer \<Rightarrow> nat" where
  "free_count rb = element_count rb - avail rb"


lemma rb_inv_fits:
  assumes "rb_inv rb" "k \<le> element_count rb"
  shows "k < 18446744073709551616" "size_mul k (element_size rb) = k * element_size rb"
    "k * element_size rb \<le> length (data rb)"
proof -
  from assms have le: "k * element_size rb \<le> element_count rb * element_size rb"
    by (simp add: rb_inv_def)
  with assms show "k * element_size rb \<le> length (data rb)"
    by (simp add: rb_inv_def)
  show "size_mul k (element_size rb) = k * element_size rb"
    by (rule size_mul_fits, rule le_less_trans [OF le]) (use assms(1) in \<open>simp add: rb_inv_def\<close>)
  show "k < 18446744073709551616"
    using assms by (auto simp: rb_inv_def)
qed

lemma avail_le: "rb_inv rb \<Longrightarrow> avail rb \<le> element_count rb"
  by (auto simp: rb_inv_def avail_def)

lemma available_read_eq [simp]:
  "rb_inv rb \<Longrightarrow> WebRtc_available_read (Some rb) = avail rb"
  by (auto simp: WebRtc_available_read_def WebRtc_available_read_rb_def avail_def rb_inv_def
      size_sub_le size_add_fits split: if_splits)

lemma available_write_eq [simp]:
  "rb_inv rb \<Longrightarrow> WebRtc_available_write (Some rb) = free_count rb"
  using avail_le[of rb] rb_inv_fits(1)[of rb "element_count rb"]
  by (simp add: WebRtc_available_write_def free_count_def size_sub_le)

lemma length_contents: "rb_inv rb \<Longrightarrow> length (contents rb) = avail rb * element_size rb"
  by (auto simp: contents_def avail_def rb_inv_def Let_def diff_mult_distrib add_mult_distrib
      split: if_splits)
    (simp add: mult_le_mono1 diff_le_mono min_absorb1)

text \<open>The four shapes a transfer can have, on byte positions.\<close>

lemma bytes_write_flat:
  assumes "R \<le> W" "W + M \<le> length d" "M \<le> length src"
  shows "take (W + M - R) (drop R (take W d @ take M src @ drop (W + M) d)) =
         take (W - R) (drop R d) @ take M src"
  using assms by (simp add: drop_take)

lemma bytes_write_wrap:
  assumes "R \<le> W" "W + k = length d" "k \<le> M" "M - k \<le> R" "M \<le> length src"
  shows "drop R (take (M - k) (drop k src) @ drop (M - k) (take W d @ take k src)) @
           take (M - k) (take (M - k) (drop k src) @ drop (M - k) (take W d @ take k src)) =
         take (W - R) (drop R d) @ take M src"
proof -
  let ?x = "take (M - k) (drop k src)"
  have len: "length ?x = M - k"
    using assms by simp
  have "drop R (?x @ drop (M - k) (take W d @ take k src)) = drop R (take W d @ take k src)"
    using len assms(4) by (metis drop_append drop_drop drop_eq_Nil append_Nil le_add_diff_inverse2)
  also have "\<dots> = drop R (take W d) @ take k src"
    using assms by simp
  finally have "drop R (?x @ drop (M - k) (take W d @ take k src)) =
      take (W - R) (drop R d) @ take k src"
    by (simp add: drop_take)
  moreover have "take (M - k) (?x @ drop (M - k) (take W d @ take k src)) = ?x"
    using len by (metis append_eq_conv_conj)
  moreover have "take M src = take k src @ ?x"
    using assms by (metis take_add le_add_diff_inverse)
  ultimately show ?thesis
    by (metis append_assoc)
qed

lemma bytes_write_diff:
  assumes "W \<le> R" "W + M \<le> R" "R \<le> length d" "M \<le> length src"
  shows "drop R (take W d @ take M src @ drop (W + M) d) @
           take (W + M) (take W d @ take M src @ drop (W + M) d) =
         (drop R d @ take W d) @ take M src"
  using assms by simp

lemma mult_diff_es: "(a - b) * es = a * es - b * (es::nat)"
  by (rule diff_mult_distrib)

subsection \<open>Writing\<close>

lemma write_flat_correct:
  assumes inv: "rb_inv rb" and m: "m \<le> free_count rb" and fit: "m \<le> element_count rb - write_pos rb"
    and src: "m * element_size rb \<le> length src"
  shows "memcpy_to (data rb) (write_pos rb * element_size rb) src 0 (m * element_size rb) =
           Some (take (write_pos rb * element_size rb) (data rb) @ take (m * element_size rb) src @
                 drop (write_pos rb * element_size rb + m * element_size rb) (data rb))"
    and "rb_inv (rb\<lparr>data := take (write_pos rb * element_size rb) (data rb) @
              take (m * element_size rb) src @
              drop (write_pos rb * element_size rb + m * element_size rb) (data rb),
            write_pos := write_pos rb + m\<rparr>)"
    and "contents (rb\<lparr>data := take (write_pos rb * element_size rb) (data rb) @
              take (m * element_size rb) src @
              drop (write_pos rb * element_size rb + m * element_size rb) (data rb),
            write_pos := write_pos rb + m\<rparr>) = contents rb @ take (m * element_size rb) src"
proof -
  let ?es = "element_size rb" and ?W = "write_pos rb * element_size rb"
    and ?R = "read_pos rb * element_size rb"
  have "(write_pos rb + m) * ?es \<le> length (data rb)"
    using inv fit by (intro rb_inv_fits(3)) (auto simp: rb_inv_def)
  then have WM: "?W + m * ?es \<le> length (data rb)"
    by (simp add: add_mult_distrib)
  with src show "memcpy_to (data rb) ?W src 0 (m * ?es) =
      Some (take ?W (data rb) @ take (m * ?es) src @ drop (?W + m * ?es) (data rb))"
    by (simp add: memcpy_to_def)
  have pos: "rw_wrap rb \<noteq> SAME_WRAP \<Longrightarrow> write_pos rb + m \<le> read_pos rb"
    using inv m by (cases "rw_wrap rb") (auto simp: rb_inv_def free_count_def avail_def)
  show "rb_inv (rb\<lparr>data := take ?W (data rb) @ take (m * ?es) src @ drop (?W + m * ?es) (data rb),
            write_pos := write_pos rb + m\<rparr>)"
    using inv fit src WM pos by (auto simp: rb_inv_def split: if_splits)
  show "contents (rb\<lparr>data := take ?W (data rb) @ take (m * ?es) src @ drop (?W + m * ?es) (data rb),
            write_pos := write_pos rb + m\<rparr>) = contents rb @ take (m * ?es) src"
  proof (cases "rw_wrap rb = SAME_WRAP")
    case True
    then have "?R \<le> ?W" using inv by (simp add: rb_inv_def)
    with True WM src show ?thesis
      by (simp add: contents_def Let_def add_mult_distrib bytes_write_flat drop_take)
  next
    case False
    have le: "?W + m * ?es \<le> ?R"
      using mult_le_mono1[OF pos[OF False], of ?es] by (simp add: add_mult_distrib)
    have "?R \<le> length (data rb)"
      using inv by (intro rb_inv_fits(3)) (auto simp: rb_inv_def)
    from bytes_write_diff [OF add_leD1 [OF le] le this src] False show ?thesis
      by (simp add: contents_def Let_def add_mult_distrib)
  qed
qed

lemma write_wrap_correct:
  assumes inv: "rb_inv rb" and m: "m \<le> free_count rb" and wrap: "element_count rb - write_pos rb < m"
    and src: "m * element_size rb \<le> length src"
  defines "es \<equiv> element_size rb"
  defines "k \<equiv> element_count rb - write_pos rb"
  defines "d1 \<equiv> take (write_pos rb * es) (data rb) @ take (k * es) src"
  defines "d2 \<equiv> take ((m - k) * es) (drop (k * es) src) @ drop ((m - k) * es) d1"
  shows "memcpy_to (data rb) (write_pos rb * es) src 0 (k * es) = Some d1"
    and "memcpy_to d1 0 src (k * es) ((m - k) * es) = Some d2"
    and "rb_inv (rb\<lparr>rw_wrap := DIFF_WRAP, data := d2, write_pos := m - k\<rparr>)"
    and "contents (rb\<lparr>rw_wrap := DIFF_WRAP, data := d2, write_pos := m - k\<rparr>) =
         contents rb @ take (m * es) src"
proof -
  let ?W = "write_pos rb * es" and ?R = "read_pos rb * es"
  have pos: "rw_wrap rb = SAME_WRAP" "read_pos rb \<le> write_pos rb" "m - k \<le> read_pos rb"
    using inv m wrap by (auto simp: rb_inv_def free_count_def avail_def k_def split: if_splits)
  have C: "?W + k * es = length (data rb)"
    using inv by (simp add: rb_inv_def k_def es_def flip: add_mult_distrib)
  have split: "k * es + (m - k) * es = m * es"
    using wrap by (simp add: k_def flip: add_mult_distrib)
  have k_src: "k * es \<le> length src" and rest: "(m - k) * es \<le> length src - k * es"
    using src split by (simp_all add: es_def)
  have R: "(m - k) * es \<le> ?R" "?R \<le> ?W" "m * es - k * es = (m - k) * es"
    using mult_le_mono1 [OF pos(3), of es] mult_le_mono1 [OF pos(2), of es]
    by (simp_all add: diff_mult_distrib)
  show first: "memcpy_to (data rb) ?W src 0 (k * es) = Some d1"
    using C k_src by (simp add: memcpy_to_def d1_def)
  have d1: "length d1 = length (data rb)"
    using memcpy_to_length [OF first] .
  show second: "memcpy_to d1 0 src (k * es) ((m - k) * es) = Some d2"
  proof -
    have "(m - k) * es \<le> length d1"
      using C d1 order_trans [OF R(1) R(2)] by linarith
    then show ?thesis
      using split src by (simp add: memcpy_to_def d2_def es_def)
  qed
  have d2: "length d2 = length (data rb)"
    using memcpy_to_length [OF second] d1 by simp
  show "rb_inv (rb\<lparr>rw_wrap := DIFF_WRAP, data := d2, write_pos := m - k\<rparr>)"
    using inv d2 pos by (simp add: rb_inv_def)
  have "drop ?R d2 @ take ((m - k) * es) d2 = take (?W - ?R) (drop ?R (data rb)) @ take (m * es) src"
    unfolding d2_def d1_def
    by (rule bytes_write_wrap [OF R(2) C, of "m * es" src, unfolded R(3)])
      (use R(1) wrap src in \<open>simp_all add: es_def k_def\<close>)
  then show "contents (rb\<lparr>rw_wrap := DIFF_WRAP, data := d2, write_pos := m - k\<rparr>) =
      contents rb @ take (m * es) src"
    using pos(1) by (simp add: contents_def Let_def es_def)
qed

lemma WriteBuffer_rb_correct:
  assumes inv: "rb_inv rb" and src: "n * element_size rb \<le> length src"
  shows "\<exists>rb'. WebRtc_WriteBuffer_rb rb src n = Some (min n (free_count rb), rb') \<and> rb_inv rb' \<and>
           contents rb' = contents rb @ take (min n (free_count rb) * element_size rb) src \<and>
           element_count rb' = element_count rb \<and> element_size rb' = element_size rb"
proof -
  define m where "m = min n (free_count rb)"
  have m: "m \<le> free_count rb" "m \<le> n" "m \<le> element_count rb"
    by (simp_all add: m_def free_count_def)
  have src': "m * element_size rb \<le> length src"
    using src m(2) by (meson le_trans mult_le_mono1)
  have w: "(if free_count rb < n then free_count rb else n) = m"
    by (simp add: m_def min_def)
  have marg: "size_sub (element_count rb) (write_pos rb) = element_count rb - write_pos rb"
    and bnd: "element_count rb < 18446744073709551616" "write_pos rb \<le> element_count rb"
    using inv by (auto simp: rb_inv_def size_sub_le)
  note sizes = rb_inv_fits(2) [OF inv]
  show ?thesis
  proof (cases "m > element_count rb - write_pos rb")
    case True
    define k where "k = element_count rb - write_pos rb"
    obtain d1 d2 where c:
        "memcpy_to (data rb) (write_pos rb * element_size rb) src 0 (k * element_size rb) = Some d1"
        "memcpy_to d1 0 src (k * element_size rb) ((m - k) * element_size rb) = Some d2"
        "rb_inv (rb\<lparr>rw_wrap := DIFF_WRAP, data := d2, write_pos := m - k\<rparr>)"
        "contents (rb\<lparr>rw_wrap := DIFF_WRAP, data := d2, write_pos := m - k\<rparr>) =
         contents rb @ take (m * element_size rb) src"
      using write_wrap_correct [OF inv m(1) True src'] unfolding k_def by blast
    have k: "k < m" "k \<le> element_count rb"
      using True by (simp_all add: k_def)
    have "size_sub m k = m - k" "size_sub m (m - k) = k" "size_add 0 (m - k) = m - k"
      "size_mul 0 (element_size rb) = 0"
      using m bnd k by (simp_all add: size_sub_le size_add_def size_mul_def)
    with c k m bnd sizes [of k] sizes [of "m - k"] sizes [of "write_pos rb"] show ?thesis
      by (simp add: WebRtc_WriteBuffer_rb_def Let_def inv w marg flip: m_def k_def)
  next
    case False
    have add: "size_add (write_pos rb) m = write_pos rb + m"
      using False bnd by (intro size_add_fits) simp
    have z: "size_sub m m = 0" "size_mul 0 (element_size rb) = 0"
      using m bnd by (simp_all add: size_sub_le size_mul_def)
    from False m bnd write_flat_correct [OF inv m(1) _ src'] show ?thesis
      by (simp add: WebRtc_WriteBuffer_rb_def Let_def inv w marg sizes add z flip: m_def)
  qed
qed


subsection \<open>Moving the read pointer and reading\<close>

lemma contents_drop:
  assumes inv: "rb_inv rb" and m: "m \<le> avail rb"
  defines "p \<equiv> read_pos rb + m"
  defines "rb' \<equiv> (if p > element_count rb
                   then rb\<lparr>read_pos := p - element_count rb, rw_wrap := SAME_WRAP\<rparr>
                   else rb\<lparr>read_pos := p\<rparr>)"
  shows "rb_inv rb' \<and> contents rb' = drop (m * element_size rb) (contents rb)"
proof (cases "p > element_count rb")
  case True
  then have diff: "rw_wrap rb \<noteq> SAME_WRAP" "p - element_count rb \<le> write_pos rb"
    using inv m by (auto simp: rb_inv_def avail_def p_def split: if_splits)
  have k: "length (drop (read_pos rb * element_size rb) (data rb)) =
      (element_count rb - read_pos rb) * element_size rb"
    using inv by (simp add: rb_inv_def diff_mult_distrib)
  have le: "(element_count rb - read_pos rb) * element_size rb \<le> m * element_size rb"
    using True by (intro mult_le_mono1) (simp add: p_def)
  have eq: "m * element_size rb - (element_count rb - read_pos rb) * element_size rb =
      (p - element_count rb) * element_size rb"
    using inv by (simp add: p_def rb_inv_def flip: diff_mult_distrib)
  have "drop (m * element_size rb) (contents rb) =
      drop ((p - element_count rb) * element_size rb) (take (write_pos rb * element_size rb) (data rb))"
    using diff(1) le k eq by (simp add: contents_def Let_def drop_append del: length_drop drop_drop)
  then have "contents rb' = drop (m * element_size rb) (contents rb)"
    using True by (simp add: rb'_def contents_def Let_def drop_take)
  then show ?thesis
    using True inv diff by (auto simp: rb'_def rb_inv_def split: if_splits)
next
  case False
  have "contents rb' = drop (m * element_size rb) (contents rb)"
  proof (cases "rw_wrap rb = SAME_WRAP")
    case True
    with False show ?thesis
      by (simp add: rb'_def contents_def Let_def p_def drop_take add_mult_distrib add.commute)
  next
    case diff: False
    have "m * element_size rb \<le> length (data rb) - read_pos rb * element_size rb"
    proof -
      have "(read_pos rb + m) * element_size rb \<le> length (data rb)"
        using inv False by (intro rb_inv_fits(3)) (simp_all add: p_def)
      then show ?thesis by (simp add: add_mult_distrib)
    qed
    with False diff show ?thesis
      by (simp add: rb'_def contents_def Let_def p_def add_mult_distrib add.commute)
  qed
  then show ?thesis
    using False inv m by (auto simp: rb'_def rb_inv_def p_def avail_def split: if_splits)
qed

text \<open>The C code of the pointer move, with its \<open>int\<close> casts, for a valid ring.\<close>

lemma MoveReadPtr_rb_eq:
  fixes n :: int
  assumes inv: "rb_inv rb"
  defines "m \<equiv> max (- int (free_count rb)) (min n (int (avail rb)))"
  defines "p \<equiv> int (read_pos rb) + m"
  shows "WebRtc_MoveReadPtr_rb rb n =
    (m, if p > int (element_count rb)
        then rb\<lparr>read_pos := nat (p - int (element_count rb)), rw_wrap := SAME_WRAP\<rparr>
        else if p < 0 then rb\<lparr>read_pos := nat (p + int (element_count rb)), rw_wrap := DIFF_WRAP\<rparr>
        else rb\<lparr>read_pos := nat p\<rparr>)"
proof -
  have b: "int (avail rb) \<le> int (element_count rb)" "int (free_count rb) \<le> int (element_count rb)"
    "int (element_count rb) < 1073741824" "int (read_pos rb) \<le> int (element_count rb)"
    using inv avail_le [OF inv] by (auto simp: rb_inv_def free_count_def)
  have casts: "s32 (int (avail rb)) = int (avail rb)" "s32 (int (free_count rb)) = int (free_count rb)"
    "s32 (int (element_count rb)) = int (element_count rb)" "s32 (int (read_pos rb)) = int (read_pos rb)"
    using b by (auto intro!: s32_idI)
  have m: "(if (if n > int (avail rb) then int (avail rb) else n) < - int (free_count rb)
            then - int (free_count rb) else (if n > int (avail rb) then int (avail rb) else n)) = m"
    using b by (auto simp: m_def)
  have p: "add32 (int (read_pos rb)) m = p" "p - int (element_count rb) \<le> int (element_count rb)"
    "- int (element_count rb) \<le> p"
    using b by (auto simp: add32_def p_def m_def intro!: s32_idI)
  have "add32 p (int (element_count rb)) = p + int (element_count rb)" if "p < 0"
    using that b p by (auto simp: add32_def intro!: s32_idI)
  moreover have "sub32 p (int (element_count rb)) = p - int (element_count rb)"
    if "p > int (element_count rb)"
    using that b p by (auto simp: sub32_def intro!: s32_idI)
  moreover have "u64 q = q" if "0 \<le> q" "q \<le> int (element_count rb)" for q
    using that b by (simp add: u64_def)
  ultimately show ?thesis
    using p b by (auto simp: WebRtc_MoveReadPtr_rb_def Let_def inv casts m)
qed

lemma MoveReadPtr_rb_forward:
  assumes inv: "rb_inv rb" and n: "0 \<le> n"
  defines "m \<equiv> min (nat n) (avail rb)"
  shows "fst (WebRtc_MoveReadPtr_rb rb n) = int m" (is ?ret)
    and "rb_inv (snd (WebRtc_MoveReadPtr_rb rb n))" (is ?inv)
    and "contents (snd (WebRtc_MoveReadPtr_rb rb n)) = drop (m * element_size rb) (contents rb)" (is ?cont)
proof -
  have mm: "max (- int (free_count rb)) (min n (int (avail rb))) = int m"
    using n by (simp add: m_def min_def max_def nat_le_iff)
  have eq: "WebRtc_MoveReadPtr_rb rb n =
     (int m, if read_pos rb + m > element_count rb
        then rb\<lparr>read_pos := read_pos rb + m - element_count rb, rw_wrap := SAME_WRAP\<rparr>
        else rb\<lparr>read_pos := read_pos rb + m\<rparr>)"
    unfolding MoveReadPtr_rb_eq [OF inv] mm by (auto simp: nat_add_distrib nat_diff_distrib)
  have "m \<le> avail rb" by (simp add: m_def)
  from contents_drop [OF inv this] show ?inv ?cont
    unfolding eq by simp_all
  show ?ret unfolding eq by simp
qed


lemma MoveReadPtr_rb_backward:
  assumes inv: "rb_inv rb" and n: "n \<le> 0"
  defines "m \<equiv> min (nat (- n)) (free_count rb)"
  defines "rb' \<equiv> snd (WebRtc_MoveReadPtr_rb rb n)"
  shows "fst (WebRtc_MoveReadPtr_rb rb n) = - int m" (is ?ret)
    and "rb_inv rb'" (is ?inv)
    and "avail rb' = avail rb + m" (is ?av)
    and "contents rb = drop (m * element_size rb) (contents rb')" (is ?cont)
    and "data rb' = data rb" (is ?dat)
proof -
  have mm: "max (- int (free_count rb)) (min n (int (avail rb))) = - int m"
    using n by (simp add: m_def min_def max_def nat_le_iff)
  have eq: "WebRtc_MoveReadPtr_rb rb n =
     (- int m, if read_pos rb < m
        then rb\<lparr>read_pos := read_pos rb + element_count rb - m, rw_wrap := DIFF_WRAP\<rparr>
        else rb\<lparr>read_pos := read_pos rb - m\<rparr>)"
    unfolding MoveReadPtr_rb_eq [OF inv] mm
    using inv by (auto simp: rb_inv_def nat_diff_distrib nat_add_distrib m_def free_count_def)
  then have rb': "rb' = (if read_pos rb < m
        then rb\<lparr>read_pos := read_pos rb + element_count rb - m, rw_wrap := DIFF_WRAP\<rparr>
        else rb\<lparr>read_pos := read_pos rb - m\<rparr>)"
    by (simp add: rb'_def)
  show ?ret unfolding eq by simp
  show ?dat unfolding rb' by simp
  have free: "m \<le> element_count rb - avail rb"
    by (simp add: m_def free_count_def)
  show inv': ?inv
    using inv free unfolding rb' by (cases "rw_wrap rb") (auto simp: rb_inv_def avail_def)
  show av: ?av
    using inv free unfolding rb' by (cases "rw_wrap rb") (auto simp: rb_inv_def avail_def)
  have fwd: "contents rb'' = drop (m * element_size rb) (contents rb')"
    if "rb'' = (if read_pos rb' + m > element_count rb'
              then rb'\<lparr>read_pos := read_pos rb' + m - element_count rb', rw_wrap := SAME_WRAP\<rparr>
              else rb'\<lparr>read_pos := read_pos rb' + m\<rparr>)" for rb''
    using contents_drop [OF inv', of m] av that by (auto simp: rb')
  show ?cont
  proof (cases "read_pos rb < m")
    case False
    then have "rb = rb'\<lparr>read_pos := read_pos rb' + m\<rparr>" "\<not> read_pos rb' + m > element_count rb'"
      using inv by (auto simp: rb' rb_inv_def)
    then show ?thesis using fwd [of rb] by simp
  next
    case True
    then have same: "rw_wrap rb = SAME_WRAP"
      using inv free by (cases "rw_wrap rb") (auto simp: rb_inv_def avail_def)
    have pos: "read_pos rb' + m = read_pos rb + element_count rb" "m \<le> element_count rb"
      using True free by (auto simp: rb')
    show ?thesis
    proof (cases "read_pos rb = 0")
      case zero: True
      have "contents (rb'\<lparr>read_pos := read_pos rb' + m\<rparr>) = contents rb"
        using True zero same inv pos by (simp add: rb' contents_def Let_def rb_inv_def)
      moreover have "\<not> read_pos rb' + m > element_count rb'"
        using zero pos True by (simp add: rb')
      ultimately show ?thesis using fwd by simp
    next
      case False
      then have "rb = rb'\<lparr>read_pos := read_pos rb' + m - element_count rb', rw_wrap := SAME_WRAP\<rparr>"
        "read_pos rb' + m > element_count rb'"
        using True pos same by (auto simp: rb')
      then show ?thesis using fwd [of rb] by simp
    qed
  qed
qed

text \<open>What the caller sees after a read: the bytes at \<open>*data_ptr\<close>, or those copied to
  \<open>data\<close> when no \<open>data_ptr\<close> was passed.\<close>

definition delivered :: "read_result \<Rightarrow> byte list" where
  "delivered r =
     (let bytes = r_count r * element_size (r_self r)
      in case r_ptr r of
           None \<Rightarrow> take bytes (r_data r)
         | Some NullRef \<Rightarrow> []
         | Some (RingRef off) \<Rightarrow> take bytes (drop off (data (r_self r)))
         | Some DataRef \<Rightarrow> take bytes (r_data r))"

lemma MoveReadPtr_rb_frame [simp]:
  "data (snd (WebRtc_MoveReadPtr_rb rb n)) = data rb"
  "element_size (snd (WebRtc_MoveReadPtr_rb rb n)) = element_size rb"
  "element_count (snd (WebRtc_MoveReadPtr_rb rb n)) = element_count rb"
  "write_pos (snd (WebRtc_MoveReadPtr_rb rb n)) = write_pos rb"
  by (simp_all add: WebRtc_MoveReadPtr_rb_def Let_def split_def)

lemma read_regions:
  fixes n :: nat
  assumes inv: "rb_inv rb"
  defines "k \<equiv> min n (avail rb)" and "es \<equiv> element_size rb"
    and "g \<equiv> element_count rb - read_pos rb"
  shows "GetBufferReadRegions rb n =
     (if k > g then (k, (read_pos rb * es, g * es), (Some 0, (k - g) * es))
      else (k, (read_pos rb * es, k * es), (None, 0)))" (is ?regs)
    and "k > g \<Longrightarrow> take (k * es) (contents rb) =
           drop (read_pos rb * es) (data rb) @ take ((k - g) * es) (data rb)" (is "_ \<Longrightarrow> ?two")
    and "\<not> k > g \<Longrightarrow> take (k * es) (contents rb) =
           take (k * es) (drop (read_pos rb * es) (data rb))" (is "_ \<Longrightarrow> ?one")
proof -
  have bnd: "element_count rb < 18446744073709551616" "read_pos rb \<le> element_count rb"
    and k: "k \<le> element_count rb" "k \<le> avail rb"
    using inv avail_le [OF inv] by (auto simp: rb_inv_def k_def)
  have sel: "(if avail rb < n then avail rb else n) = k"
    by (simp add: k_def min_def)
  note sizes = rb_inv_fits(2) [OF inv]
  have sub: "size_sub (element_count rb) (read_pos rb) = g" "g \<le> element_count rb"
    using bnd by (simp_all add: g_def size_sub_le)
  have sub2: "size_sub k g = k - g" if "g < k"
    using that k bnd by (simp add: size_sub_le)
  show ?regs
    using k sub sub2 bnd
    by (auto simp: GetBufferReadRegions_def Let_def inv sel es_def sizes)
  have len: "length (drop (read_pos rb * es) (data rb)) = g * es"
    using inv by (simp add: rb_inv_def g_def es_def diff_mult_distrib)
  show ?two if "k > g"
  proof -
    have diff: "rw_wrap rb \<noteq> SAME_WRAP" "k - g \<le> write_pos rb"
      using that k inv by (auto simp: avail_def g_def rb_inv_def split: if_splits)
    have "(k - g) * es \<le> write_pos rb * es" "g * es \<le> k * es" "k * es - g * es = (k - g) * es"
      using mult_le_mono1 [OF diff(2), of es] that by (simp_all add: diff_mult_distrib)
    with diff len show ?thesis
      by (simp add: contents_def Let_def es_def [symmetric] min_absorb1 del: length_drop)
  qed
  show ?one if "\<not> k > g"
  proof (cases "rw_wrap rb = SAME_WRAP")
    case True
    have "k * es \<le> (write_pos rb - read_pos rb) * es"
      using k True by (intro mult_le_mono1) (simp add: avail_def)
    with True show ?thesis
      by (simp add: contents_def Let_def es_def [symmetric] diff_mult_distrib min_absorb1)
  next
    case False
    have "k * es \<le> g * es" using that by (intro mult_le_mono1) simp
    with False len show ?thesis
      by (simp add: contents_def Let_def es_def [symmetric] del: length_drop)
  qed
qed


lemma ReadBuffer_rb_correct:
  assumes inv: "rb_inv rb" and buf: "min n (avail rb) * element_size rb \<le> length buf"
  shows "\<exists>r. WebRtc_ReadBuffer_rb rb has_ptr buf n = Some r \<and>
           r_count r = min n (avail rb) \<and>
           delivered r = take (min n (avail rb) * element_size rb) (contents rb) \<and>
           rb_inv (r_self r) \<and>
           contents (r_self r) = drop (min n (avail rb) * element_size rb) (contents rb) \<and>
           data (r_self r) = data rb \<and> element_size (r_self r) = element_size rb \<and>
           element_count (r_self r) = element_count rb"
proof -
  define k es g R where "k = min n (avail rb)" and "es = element_size rb"
    and "g = element_count rb - read_pos rb" and "R = read_pos rb * es"
  note regs = read_regions [OF inv, of n, folded k_def es_def g_def, folded R_def]
  have k: "k \<le> element_count rb" "int k < 1073741824" "0 < es"
    using inv avail_le [OF inv] by (auto simp: rb_inv_def k_def es_def)
  have cast: "s32 (int k) = int k" using k by (intro s32_idI) simp_all
  define rb' where "rb' = snd (WebRtc_MoveReadPtr_rb rb (int k))"
  have rb': "rb_inv rb'" "contents rb' = drop (k * es) (contents rb)" "data rb' = data rb"
    "element_size rb' = es" "element_count rb' = element_count rb"
    using MoveReadPtr_rb_forward [OF inv, of "int k"] by (simp_all add: rb'_def k_def es_def)
  have buf': "k * es \<le> length buf" using buf by (simp add: k_def es_def)
  have R: "length (data rb) = R + g * es"
    using inv by (simp add: rb_inv_def R_def g_def es_def flip: add_mult_distrib)
  show ?thesis
  proof (cases "k > g")
    case True
    have split: "g * es + (k - g) * es = k * es"
      using True by (simp flip: add_mult_distrib)
    have b2: "0 < (k - g) * es" using True k by simp
    have le: "(k - g) * es \<le> length (data rb)"
      using k inv by (simp add: rb_inv_def es_def)
    define x where "x = drop R (data rb)"
    define y where "y = take ((k - g) * es) (data rb)"
    have xy: "length x = g * es" "length y = (k - g) * es"
      using R le by (simp_all add: x_def y_def)
    have c1: "memcpy_to buf 0 (data rb) R (g * es) = Some (x @ drop (g * es) buf)"
      using R buf' split by (simp add: memcpy_to_def x_def)
    have c2: "memcpy_to (x @ drop (g * es) buf) (g * es) (data rb) 0 ((k - g) * es) =
        Some (x @ y @ drop (k * es) buf)"
    proof -
      have "drop (g * es + (k - g) * es) (x @ drop (g * es) buf) = drop (k * es) buf"
        unfolding split by (subst drop_append) (simp add: xy split [symmetric] add.commute)
      then show ?thesis
        using buf' split le xy by (simp add: memcpy_to_def y_def del: drop_append)
    qed
    have tk: "take (k * es) (x @ y @ drop (k * es) buf) = x @ y"
      using xy split True by (simp flip: append_assoc)
    show ?thesis
      using regs(1,2) True b2 c1 c2 tk rb' k
      by (simp add: WebRtc_ReadBuffer_rb_def cast delivered_def Let_def flip: rb'_def k_def es_def)
        (simp add: x_def y_def)
  next
    case False
    have le: "R + k * es \<le> length (data rb)"
      using False R by simp
    have c1: "memcpy_to buf 0 (data rb) R (k * es) =
        Some (take (k * es) (drop R (data rb)) @ drop (k * es) buf)"
      using le buf' by (simp add: memcpy_to_def)
    have len: "length (take (k * es) (drop R (data rb))) = k * es"
      using le by simp
    show ?thesis
      using regs(1,3) False c1 len rb' k
      by (simp add: WebRtc_ReadBuffer_rb_def cast delivered_def Let_def flip: rb'_def k_def es_def)
  qed
qed

lemma CreateBuffer_correct:
  assumes "cnt * sz < 18446744073709551616" "0 < cnt" "cnt < 1073741824" "0 < sz"
    and "malloc (cnt * sz) = Some block" "length block = cnt * sz"
  shows "\<exists>rb. WebRtc_CreateBuffer True malloc cnt sz = Some rb \<and> rb_inv rb \<and> contents rb = [] \<and>
           element_count rb = cnt \<and> element_size rb = sz \<and> free_count rb = cnt"
  using assms
  by (simp add: WebRtc_CreateBuffer_def WebRtc_InitBuffer_def size_mul_fits rb_inv_def contents_def
      Let_def free_count_def avail_def)

lemma InitBuffer_correct:
  "rb_inv rb \<Longrightarrow> rb_inv (WebRtc_InitBuffer rb) \<and> contents (WebRtc_InitBuffer rb) = []"
  by (simp add: WebRtc_InitBuffer_def size_mul_fits rb_inv_def contents_def Let_def)


subsection \<open>The interface: a bounded FIFO of elements\<close>

text \<open>A client's run, collecting for every operation the number of elements it returned and the bytes
  it delivered (\<open>None\<close> when an operation would leave its arrays). \<open>Get\<close> says whether the read asks for a pointer,
  \<open>Skip\<close> moves the read pointer forwards and \<open>Clear\<close> initialises the buffer again.\<close>

datatype 'b fifo_op = Put "'b list" nat | Get bool nat | Skip nat | Clear

fun fifo_run ::
    "('q \<Rightarrow> 'b list \<Rightarrow> nat \<Rightarrow> (nat \<times> 'q) option) \<Rightarrow> (bool \<Rightarrow> 'q \<Rightarrow> nat \<Rightarrow> (nat \<times> 'b list \<times> 'q) option) \<Rightarrow>
     ('q \<Rightarrow> nat \<Rightarrow> int \<times> 'q) \<Rightarrow> ('q \<Rightarrow> 'q) \<Rightarrow> 'q \<Rightarrow> 'b fifo_op list \<Rightarrow> ((int \<times> 'b list) list \<times> 'q) option" where
  "fifo_run put get skip clear q [] = Some ([], q)"
| "fifo_run put get skip clear q (Put xs n # ops) =
     (case put q xs n of None \<Rightarrow> None
      | Some (k, q1) \<Rightarrow> map_option (\<lambda>(rs, q'). ((int k, []) # rs, q')) (fifo_run put get skip clear q1 ops))"
| "fifo_run put get skip clear q (Get p n # ops) =
     (case get p q n of None \<Rightarrow> None
      | Some (k, ys, q1) \<Rightarrow> map_option (\<lambda>(rs, q'). ((int k, ys) # rs, q')) (fifo_run put get skip clear q1 ops))"
| "fifo_run put get skip clear q (Skip n # ops) =
     (case skip q n of (k, q1) \<Rightarrow> map_option (\<lambda>(rs, q'). ((k, []) # rs, q')) (fifo_run put get skip clear q1 ops))"
| "fifo_run put get skip clear q (Clear # ops) =
     map_option (\<lambda>(rs, q'). ((0, []) # rs, q')) (fifo_run put get skip clear (clear q) ops)"

fun op_ok :: "nat \<Rightarrow> 'b fifo_op \<Rightarrow> bool" where
  "op_ok es (Put xs n) \<longleftrightarrow> n * es \<le> length xs"
| "op_ok es (Skip n) \<longleftrightarrow> n \<le> 2147483647"
| "op_ok es _ \<longleftrightarrow> True"

text \<open>The specification: a queue of at most \<open>cap\<close> elements of \<open>es\<close> bytes each, as the list of its bytes. It
  takes as many of the offered elements as there is room for and gives out or drops as many of the
  requested ones as it holds, the oldest first.\<close>

fun fifo_spec :: "nat \<Rightarrow> nat \<Rightarrow> 'b list \<Rightarrow> 'b fifo_op list \<Rightarrow> (int \<times> 'b list) list \<times> 'b list" where
  "fifo_spec cap es q [] = ([], q)"
| "fifo_spec cap es q (Put xs n # ops) =
     (let k = min n (cap - length q div es); (rs, q') = fifo_spec cap es (q @ take (k * es) xs) ops
      in ((int k, []) # rs, q'))"
| "fifo_spec cap es q (Get p n # ops) =
     (let k = min n (length q div es); (rs, q') = fifo_spec cap es (drop (k * es) q) ops
      in ((int k, take (k * es) q) # rs, q'))"
| "fifo_spec cap es q (Skip n # ops) =
     (let k = min n (length q div es); (rs, q') = fifo_spec cap es (drop (k * es) q) ops
      in ((int k, []) # rs, q'))"
| "fifo_spec cap es q (Clear # ops) = (let (rs, q') = fifo_spec cap es [] ops in ((0, []) # rs, q'))"

text \<open>
  What a client may rely on. \<open>view q\<close> is the queue as a byte list, \<open>esz q\<close> the size of an
  element, \<open>cap q\<close> the number of elements it can hold and \<open>used q\<close> the readable elements. A transfer moves as many
  whole elements as fit. The traces below are proved from these laws alone.
\<close>

locale bounded_fifo =
  fixes invar :: "'q \<Rightarrow> bool"
    and view :: "'q \<Rightarrow> 'b list"
    and esz :: "'q \<Rightarrow> nat"
    and cap :: "'q \<Rightarrow> nat"
    and used :: "'q \<Rightarrow> nat"
    and put :: "'q \<Rightarrow> 'b list \<Rightarrow> nat \<Rightarrow> (nat \<times> 'q) option"
    and get :: "bool \<Rightarrow> 'q \<Rightarrow> nat \<Rightarrow> (nat \<times> 'b list \<times> 'q) option"
    and skip :: "'q \<Rightarrow> nat \<Rightarrow> int \<times> 'q"
    and clear :: "'q \<Rightarrow> 'q"
  assumes view_length: "invar q \<Longrightarrow> length (view q) = used q * esz q"
    and esz_pos: "invar q \<Longrightarrow> 0 < esz q"
    and put_law: "invar q \<Longrightarrow> n * esz q \<le> length xs \<Longrightarrow>
      \<exists>q'. put q xs n = Some (min n (cap q - used q), q') \<and> invar q' \<and> esz q' = esz q \<and> cap q' = cap q \<and>
           view q' = view q @ take (min n (cap q - used q) * esz q) xs"
    and get_law: "invar q \<Longrightarrow>
      \<exists>q'. get p q n = Some (min n (used q), take (min n (used q) * esz q) (view q), q') \<and>
           invar q' \<and> esz q' = esz q \<and> cap q' = cap q \<and> view q' = drop (min n (used q) * esz q) (view q)"
    and skip_law: "invar q \<Longrightarrow>
      \<exists>q'. skip q n = (int (min n (used q)), q') \<and>
           invar q' \<and> esz q' = esz q \<and> cap q' = cap q \<and> view q' = drop (min n (used q) * esz q) (view q)"
    and clear_law: "invar q \<Longrightarrow>
      invar (clear q) \<and> esz (clear q) = esz q \<and> cap (clear q) = cap q \<and> view (clear q) = []"
begin

lemma view_elements: "invar q \<Longrightarrow> length (view q) div esz q = used q"
  using esz_pos by (simp add: view_length)

lemma run_refines_spec:
  assumes "invar q" "list_all (op_ok (esz q)) ops"
  shows "\<exists>q'. fifo_run put get skip clear q ops = Some (fst (fifo_spec (cap q) (esz q) (view q) ops), q') \<and>
           view q' = snd (fifo_spec (cap q) (esz q) (view q) ops) \<and>
           invar q' \<and> esz q' = esz q \<and> cap q' = cap q"
  using assms
proof (induction ops arbitrary: q)
  case Nil
  then show ?case by simp
next
  case (Cons x ops)
  note elems = view_elements [OF Cons.prems(1)]
  show ?case
  proof (cases x)
    case (Put xs n)
    with Cons.prems have "n * esz q \<le> length xs" by simp
    from put_law [OF Cons.prems(1) this] obtain q1 where q1:
      "put q xs n = Some (min n (cap q - used q), q1)" "invar q1" "esz q1 = esz q" "cap q1 = cap q"
      "view q1 = view q @ take (min n (cap q - used q) * esz q) xs"
      by blast
    from Cons.IH [OF q1(2)] Cons.prems q1 show ?thesis
      by (auto simp: Put elems Let_def split_def)
  next
    case (Get p n)
    from get_law [OF Cons.prems(1), of p n] obtain q1 where q1:
      "get p q n = Some (min n (used q), take (min n (used q) * esz q) (view q), q1)"
      "invar q1" "esz q1 = esz q" "cap q1 = cap q" "view q1 = drop (min n (used q) * esz q) (view q)"
      by blast
    from Cons.IH [OF q1(2)] Cons.prems q1 show ?thesis
      by (auto simp: Get elems Let_def split_def)
  next
    case (Skip n)
    from skip_law [OF Cons.prems(1), of n] obtain q1 where q1:
      "skip q n = (int (min n (used q)), q1)"
      "invar q1" "esz q1 = esz q" "cap q1 = cap q" "view q1 = drop (min n (used q) * esz q) (view q)"
      by blast
    from Cons.IH [OF q1(2)] Cons.prems q1 show ?thesis
      by (auto simp: Skip elems Let_def split_def)
  next
    case Clear
    from clear_law [OF Cons.prems(1)] Cons.IH [of "clear q"] Cons.prems show ?thesis
      by (auto simp: Clear Let_def split_def)
  qed
qed

end

text \<open>The operations of the ring buffer in the shape of the interface.\<close>

definition rb_put :: "RingBuffer \<Rightarrow> byte list \<Rightarrow> nat \<Rightarrow> (nat \<times> RingBuffer) option" where
  "rb_put rb xs n = WebRtc_WriteBuffer_rb rb xs n"

definition rb_get :: "bool \<Rightarrow> RingBuffer \<Rightarrow> nat \<Rightarrow> (nat \<times> byte list \<times> RingBuffer) option" where
  "rb_get p rb n =
     map_option (\<lambda>r. (r_count r, delivered r, r_self r))
       (WebRtc_ReadBuffer_rb rb p (replicate (min n (avail rb) * element_size rb) 0) n)"

definition rb_skip :: "RingBuffer \<Rightarrow> nat \<Rightarrow> int \<times> RingBuffer" where
  "rb_skip rb n = WebRtc_MoveReadPtr_rb rb (int n)"

interpretation rb: bounded_fifo rb_inv contents element_size element_count avail rb_put rb_get rb_skip
  WebRtc_InitBuffer
proof unfold_locales
  fix q n xs p assume inv: "rb_inv q"
  show "length (contents q) = avail q * element_size q"
    by (rule length_contents [OF inv])
  show "0 < element_size q" using inv by (simp add: rb_inv_def)
  show "\<exists>q'. rb_put q xs n = Some (min n (element_count q - avail q), q') \<and> rb_inv q' \<and>
      element_size q' = element_size q \<and> element_count q' = element_count q \<and>
      contents q' = contents q @ take (min n (element_count q - avail q) * element_size q) xs"
    if "n * element_size q \<le> length xs"
    using WriteBuffer_rb_correct [OF inv that] by (auto simp: rb_put_def free_count_def)
  show "\<exists>q'. rb_get p q n =
        Some (min n (avail q), take (min n (avail q) * element_size q) (contents q), q') \<and>
      rb_inv q' \<and> element_size q' = element_size q \<and> element_count q' = element_count q \<and>
      contents q' = drop (min n (avail q) * element_size q) (contents q)"
    using ReadBuffer_rb_correct [OF inv, of n "replicate (min n (avail q) * element_size q) 0" p]
    by (auto simp: rb_get_def)
  show "\<exists>q'. rb_skip q n = (int (min n (avail q)), q') \<and>
      rb_inv q' \<and> element_size q' = element_size q \<and> element_count q' = element_count q \<and>
      contents q' = drop (min n (avail q) * element_size q) (contents q)"
    using MoveReadPtr_rb_forward [OF inv, of "int n"]
    by (intro exI [of _ "snd (WebRtc_MoveReadPtr_rb q (int n))"]) (simp add: rb_skip_def prod_eq_iff)
  show "rb_inv (WebRtc_InitBuffer q) \<and> element_size (WebRtc_InitBuffer q) = element_size q \<and>
      element_count (WebRtc_InitBuffer q) = element_count q \<and> contents (WebRtc_InitBuffer q) = []"
    using InitBuffer_correct [OF inv] by (simp add: WebRtc_InitBuffer_def)
qed

subsection \<open>Properties\<close>

text \<open>A ring of three two-byte elements, for the witnesses.\<close>

definition demo_ring :: RingBuffer where
  "demo_ring = \<lparr>read_pos = 2, write_pos = 2, element_count = 3, element_size = 2,
     rw_wrap = SAME_WRAP, data = [1, 2, 3, 4, 5, 6]\<rparr>"

lemma demo_ring_inv: "rb_inv demo_ring"
  by (simp add: rb_inv_def demo_ring_def)

text \<open>C9: the ring buffer implements a FIFO of \<open>element_count\<close> elements. For any sequence of writes (whose
  source arrays are as long as announced), reads (copying or handing out a pointer), forward moves of the
  read pointer by a C \<open>int\<close> and initialisations, no access leaves the arrays, every operation returns the number of elements
  that the bounded queue accepts, gives out or drops, every read delivers exactly the bytes the queue gives
  out, and at the end the readable bytes and their number are those of the queue and the invariant holds.\<close>

theorem ring_buffer_fifo:
  assumes "rb_inv rb" "list_all (op_ok (element_size rb)) ops"
    and "fifo_spec (element_count rb) (element_size rb) (contents rb) ops = (rs, q)"
  shows "\<exists>rb'. fifo_run rb_put rb_get rb_skip WebRtc_InitBuffer rb ops = Some (rs, rb') \<and>
           contents rb' = q \<and> WebRtc_available_read (Some rb') = length q div element_size rb \<and>
           WebRtc_available_write (Some rb') = element_count rb - length q div element_size rb \<and> rb_inv rb'"
proof -
  from rb.run_refines_spec [OF assms(1,2)] assms(3) obtain rb' where rb':
    "fifo_run rb_put rb_get rb_skip WebRtc_InitBuffer rb ops = Some (rs, rb')" "contents rb' = q" "rb_inv rb'"
    "element_size rb' = element_size rb" "element_count rb' = element_count rb"
    by auto
  from rb.view_elements [OF rb'(3)] rb' show ?thesis
    by (intro exI [of _ rb']) (simp add: free_count_def)
qed

theorem ring_buffer_fifo_witness:
  "\<exists>rb'. fifo_run rb_put rb_get rb_skip WebRtc_InitBuffer demo_ring
       [Put [10, 11, 12, 13] 2, Get False 1, Put [14, 15, 16, 17, 18, 19] 3, Skip 1, Get True 5] =
     Some ([(2, []), (1, [10, 11]), (2, []), (1, []), (2, [14, 15, 16, 17])], rb') \<and> contents rb' = []"
proof -
  have "fifo_spec (element_count demo_ring) (element_size demo_ring) (contents demo_ring)
      [Put [10, 11, 12, 13] 2, Get False 1, Put [14, 15, 16, 17, 18, 19] 3, Skip 1, Get True 5] =
    ([(2, []), (1, [10, 11]), (2, []), (1, []), (2, [14, 15, 16, 17])], [])"
    by code_simp
  from ring_buffer_fifo [OF demo_ring_inv _ this] show ?thesis by (auto simp: demo_ring_def)
qed

text \<open>\<open>WebRtc_WriteBuffer\<close> writes as many whole elements as are free, reports that number,
  appends exactly those bytes to the readable contents and stays inside both arrays.\<close>

theorem write_buffer_correct:
  assumes "rb_inv rb" "n * element_size rb \<le> length src"
  shows "\<exists>rb'. WebRtc_WriteBuffer (Some rb) (Some src) n =
             Some (min n (WebRtc_available_write (Some rb)), Some rb') \<and> rb_inv rb' \<and>
           contents rb' = contents rb @
             take (min n (WebRtc_available_write (Some rb)) * element_size rb) src"
  using WriteBuffer_rb_correct [OF assms] assms(1) by (auto simp: WebRtc_WriteBuffer_def)

theorem write_buffer_correct_witness:
  "\<exists>rb'. WebRtc_WriteBuffer (Some demo_ring) (Some [7, 8, 9, 10]) 2 =
       Some (min 2 (WebRtc_available_write (Some demo_ring)), Some rb') \<and> rb_inv rb' \<and>
     contents rb' = contents demo_ring @
       take (min 2 (WebRtc_available_write (Some demo_ring)) * element_size demo_ring) [7, 8, 9, 10]"
  by (rule write_buffer_correct [OF demo_ring_inv]) (simp add: demo_ring_def)

text \<open>\<open>WebRtc_ReadBuffer\<close> delivers the oldest readable elements (as many as asked for
  and available), through the pointer or the copy, and removes exactly those; the region it
  points into is still intact in the buffer it leaves.\<close>

theorem read_buffer_correct:
  assumes "rb_inv rb" "min n (avail rb) * element_size rb \<le> length buf"
  shows "\<exists>r. WebRtc_ReadBuffer (Some rb) has_ptr (Some buf) n =
             Some (min n (WebRtc_available_read (Some rb)), Some r) \<and>
           delivered r = take (min n (avail rb) * element_size rb) (contents rb) \<and>
           rb_inv (r_self r) \<and>
           contents (r_self r) = drop (min n (avail rb) * element_size rb) (contents rb)"
  using ReadBuffer_rb_correct [OF assms, of has_ptr] assms(1)
  by (auto simp: WebRtc_ReadBuffer_def)

theorem read_buffer_correct_witness:
  "\<exists>r. WebRtc_ReadBuffer (Some demo_ring) True (Some [0, 0]) 1 =
       Some (min 1 (WebRtc_available_read (Some demo_ring)), Some r) \<and>
     delivered r = take (min 1 (avail demo_ring) * element_size demo_ring) (contents demo_ring) \<and>
     rb_inv (r_self r) \<and>
     contents (r_self r) = drop (min 1 (avail demo_ring) * element_size demo_ring) (contents demo_ring)"
  by (rule read_buffer_correct [OF demo_ring_inv]) (simp add: demo_ring_def avail_def)

text \<open>\<open>WebRtc_MoveReadPtr\<close> moves by the requested number of elements cut to what can be
  read (forwards) or is free (backwards); forwards it discards the oldest elements, backwards
  it makes older bytes readable again in front of the contents, without touching the data.\<close>

theorem move_read_ptr_correct:
  assumes "rb_inv rb" "WebRtc_MoveReadPtr (Some rb) n = (m, Some rb')"
  shows "m = max (- int (free_count rb)) (min n (int (avail rb))) \<and> rb_inv rb' \<and>
         data rb' = data rb \<and>
         (if 0 \<le> n then contents rb' = drop (nat m * element_size rb) (contents rb)
          else contents rb = drop (nat (- m) * element_size rb) (contents rb'))"
proof -
  have eq: "m = fst (WebRtc_MoveReadPtr_rb rb n)" "rb' = snd (WebRtc_MoveReadPtr_rb rb n)"
    using assms(2) by (auto simp: WebRtc_MoveReadPtr_def Let_def split_def)
  have "m = max (- int (free_count rb)) (min n (int (avail rb)))"
    using MoveReadPtr_rb_eq [OF assms(1), of n] by (simp add: eq)
  moreover have "rb_inv rb' \<and> contents rb' = drop (nat m * element_size rb) (contents rb)" if "0 \<le> n"
    using MoveReadPtr_rb_forward [OF assms(1) that] by (simp add: eq)
  moreover have "rb_inv rb' \<and> contents rb = drop (nat (- m) * element_size rb) (contents rb')"
    if "\<not> 0 \<le> n"
    using MoveReadPtr_rb_backward [OF assms(1), of n] that by (simp add: eq)
  ultimately show ?thesis by (auto simp: eq)
qed

theorem move_read_ptr_correct_witness:
  "rb_inv demo_ring \<and>
   WebRtc_MoveReadPtr (Some demo_ring) (-5) =
     (-3, Some (demo_ring\<lparr>read_pos := 2, rw_wrap := DIFF_WRAP\<rparr>)) \<and>
   contents demo_ring =
     drop (nat 3 * element_size demo_ring) (contents (demo_ring\<lparr>read_pos := 2, rw_wrap := DIFF_WRAP\<rparr>))"
proof -
  have call: "WebRtc_MoveReadPtr (Some demo_ring) (-5) =
      (-3, Some (demo_ring\<lparr>read_pos := 2, rw_wrap := DIFF_WRAP\<rparr>))"
    by (simp add: WebRtc_MoveReadPtr_def MoveReadPtr_rb_eq [OF demo_ring_inv])
      (simp add: demo_ring_def free_count_def avail_def)
  show ?thesis
    using move_read_ptr_correct [OF demo_ring_inv call] demo_ring_inv call by simp
qed

end
