(* ===== verification/Spl_Basic.thy ===== *)
theory Spl_Basic
  imports Prelude
begin

section \<open>Signal processing library: scalar routines\<close>

text \<open>
  \<open>include/spl_inl.h\<close> with its table in \<open>spl_inl.c\<close> (leading zeros, normalisation,
  saturation), \<open>division_operations.c\<close>, \<open>spl_sqrt_floor.c\<close>, and the two routines the
  energy computations rest on, \<open>get_scaling_square.c\<close> and \<open>energy.c\<close>. The lemmas give each
  routine its mathematical meaning: the number of leading zeros, the largest shift without
  overflow, the clamped sum, the quotient in Q31, the integer square root, and the exact sum of
  shifted squares.
\<close>

unbundle bit_operations_syntax

subsection \<open>Leading zeros (\<open>spl_inl.h\<close>, \<open>spl_inl.c\<close>)\<close>

definition kWebRtcSpl_CountLeadingZeros32_Table :: "int list" where
  "kWebRtcSpl_CountLeadingZeros32_Table = [
    32, 8,  17, -1, -1, 14, -1, -1, -1, 20, -1, -1, -1, 28, -1, 18,
    -1, -1, -1, -1, -1, -1, -1, -1, -1, -1, -1, -1, 0,  26, 25, 24,
    4,  11, 23, 31, 3,  7,  10, 16, 22, 30, -1, -1, 2,  6,  13, 9,
    -1, 15, -1, 21, -1, 29, 19, -1, -1, -1, -1, -1, 1,  27, 5,  12]"

definition WebRtcSpl_CountLeadingZeros32_NotBuiltin :: "32 word \<Rightarrow> int" where
  "WebRtcSpl_CountLeadingZeros32_NotBuiltin n =
     (let n = n OR drop_bit 1 n;
          n = n OR drop_bit 2 n;
          n = n OR drop_bit 4 n;
          n = n OR drop_bit 8 n;
          n = n OR drop_bit 16 n
      in kWebRtcSpl_CountLeadingZeros32_Table ! unat (drop_bit 26 (n * 0x8c0b2891)))"

definition WebRtcSpl_CountLeadingZeros64_NotBuiltin :: "64 word \<Rightarrow> int" where
  "WebRtcSpl_CountLeadingZeros64_NotBuiltin n =
     (let leading_zeros = (if drop_bit 32 n = 0 then 32 else 0)
      in int leading_zeros +
         WebRtcSpl_CountLeadingZeros32_NotBuiltin (ucast (drop_bit (32 - leading_zeros) n)))"

definition WebRtcSpl_CountLeadingZeros32 :: "int \<Rightarrow> int" where
  "WebRtcSpl_CountLeadingZeros32 n =
     WebRtcSpl_CountLeadingZeros32_NotBuiltin (word_of_int n)"

definition WebRtcSpl_GetSizeInBits :: "int \<Rightarrow> int" where
  "WebRtcSpl_GetSizeInBits n = s16 (32 - WebRtcSpl_CountLeadingZeros32 n)"

definition WebRtcSpl_NormW32 :: "int \<Rightarrow> int" where
  "WebRtcSpl_NormW32 a =
     (if a = 0 then 0
      else s16 (WebRtcSpl_CountLeadingZeros32 (u32 (if a < 0 then - a - 1 else a)) - 1))"

definition WebRtcSpl_NormU32 :: "int \<Rightarrow> int" where
  "WebRtcSpl_NormU32 a = (if a = 0 then 0 else s16 (WebRtcSpl_CountLeadingZeros32 a))"

definition WebRtcSpl_NormW16 :: "int \<Rightarrow> int" where
  "WebRtcSpl_NormW16 a =
     (if a = 0 then 0
      else s16 (WebRtcSpl_CountLeadingZeros32 (u32 (if a < 0 then - a - 1 else a)) - 17))"

subsection \<open>Saturation (\<open>spl_inl.h\<close>)\<close>

definition WebRtcSpl_SatW32ToW16 :: "int \<Rightarrow> int" where
  "WebRtcSpl_SatW32ToW16 value32 =
     (if value32 > 32767 then 32767 else if value32 < -32768 then -32768 else s16 value32)"

definition WebRtcSpl_AddSatW32 :: "int \<Rightarrow> int \<Rightarrow> int" where
  "WebRtcSpl_AddSatW32 a b =
     (let sum = s32 (u32 (u32 a + u32 b))
      in if (a < 0) = (b < 0) \<and> (a < 0) \<noteq> (sum < 0)
         then (if sum < 0 then 2147483647 else -2147483648) else sum)"

definition WebRtcSpl_SubSatW32 :: "int \<Rightarrow> int \<Rightarrow> int" where
  "WebRtcSpl_SubSatW32 a b =
     (let diff = s32 (u32 (u32 a - u32 b))
      in if (a < 0) \<noteq> (b < 0) \<and> (a < 0) \<noteq> (diff < 0)
         then (if diff < 0 then 2147483647 else -2147483648) else diff)"

definition WebRtcSpl_AddSatW16 :: "int \<Rightarrow> int \<Rightarrow> int" where
  "WebRtcSpl_AddSatW16 a b = WebRtcSpl_SatW32ToW16 (a + b)"

definition WebRtcSpl_SubSatW16 :: "int \<Rightarrow> int \<Rightarrow> int" where
  "WebRtcSpl_SubSatW16 a b = WebRtcSpl_SatW32ToW16 (a - b)"

definition WebRtc_MulAccumW16 :: "int \<Rightarrow> int \<Rightarrow> int \<Rightarrow> int" where
  "WebRtc_MulAccumW16 a b c = add32 (a * b) c"

subsection \<open>Divisions (\<open>division_operations.c\<close>)\<close>

definition WebRtcSpl_DivU32U16 :: "int \<Rightarrow> int \<Rightarrow> int" where
  "WebRtcSpl_DivU32U16 num den = (if den \<noteq> 0 then u32 (num div den) else 0xFFFFFFFF)"

definition WebRtcSpl_DivW32W16 :: "int \<Rightarrow> int \<Rightarrow> int" where
  "WebRtcSpl_DivW32W16 num den = (if den \<noteq> 0 then s32 (cdiv num den) else 0x7FFFFFFF)"

definition WebRtcSpl_DivW32W16ResW16 :: "int \<Rightarrow> int \<Rightarrow> int" where
  "WebRtcSpl_DivW32W16ResW16 num den = (if den \<noteq> 0 then s16 (cdiv num den) else 0x7FFF)"

fun DivResultInQ31_loop :: "nat \<Rightarrow> int \<Rightarrow> int \<Rightarrow> int \<Rightarrow> int" where
  "DivResultInQ31_loop 0 quo L_num L_den = quo"
| "DivResultInQ31_loop (Suc k) quo L_num L_den =
     (let quo = shl32 quo 1; L_num = shl32 L_num 1
      in if L_num \<ge> L_den then DivResultInQ31_loop k (add32 quo 1) (sub32 L_num L_den) L_den
         else DivResultInQ31_loop k quo L_num L_den)"

definition WebRtcSpl_DivResultInQ31 :: "int \<Rightarrow> int \<Rightarrow> int" where
  "WebRtcSpl_DivResultInQ31 num den =
     (if num = 0 then 0
      else let L_num = (if num < 0 then s32 (- num) else num);
               L_den = (if den < 0 then s32 (- den) else den);
               change_sign = (if num < 0 then 1 else 0) + (if den < 0 then 1 else 0 :: nat);
               quo = DivResultInQ31_loop 31 0 L_num L_den
           in if change_sign = 1 then s32 (- quo) else quo)"

definition WebRtcSpl_DivW32HiLow :: "int \<Rightarrow> int \<Rightarrow> int \<Rightarrow> int" where
  "WebRtcSpl_DivW32HiLow num den_hi den_low =
     (let approx = s16 (WebRtcSpl_DivW32W16 0x1FFFFFFF den_hi);
          tmpW32 = add32 (shl32 (mul32 den_hi approx) 1) (shl32 (shr (mul32 den_low approx) 15) 1);
          tmpW32 = sub32 0x7fffffff tmpW32;
          tmp_hi = s16 (shr tmpW32 16);
          tmp_low = s16 (shr (sub32 tmpW32 (shl32 tmp_hi 16)) 1);
          tmpW32 = shl32 (add32 (mul32 tmp_hi approx) (shr (mul32 tmp_low approx) 15)) 1;
          tmp_hi = s16 (shr tmpW32 16);
          tmp_low = s16 (shr (sub32 tmpW32 (shl32 tmp_hi 16)) 1);
          num_hi = s16 (shr num 16);
          num_low = s16 (shr (sub32 num (shl32 num_hi 16)) 1);
          tmpW32 = add32 (add32 (mul32 num_hi tmp_hi) (shr (mul32 num_hi tmp_low) 15))
                     (shr (mul32 num_low tmp_hi) 15)
      in shl32 tmpW32 3)"

subsection \<open>Integer square root (\<open>spl_sqrt_floor.c\<close>)\<close>

definition WEBRTC_SPL_SQRT_ITER :: "nat \<Rightarrow> int \<times> int \<Rightarrow> int \<times> int" where
  "WEBRTC_SPL_SQRT_ITER N = (\<lambda>(val, root).
     (let try1 = add32 root (shl32 1 N)
      in if val \<ge> shl32 try1 N then (sub32 val (shl32 try1 N), root OR shl32 2 N)
         else (val, root)))"

definition WebRtcSpl_SqrtFloor :: "int \<Rightarrow> int" where
  "WebRtcSpl_SqrtFloor val =
     (let (val, root) = fold WEBRTC_SPL_SQRT_ITER
            [15, 14, 13, 12, 11, 10, 9, 8, 7, 6, 5, 4, 3, 2, 1, 0] (val, 0)
      in shr root 1)"

subsection \<open>Scaling and energy (\<open>get_scaling_square.c\<close>, \<open>energy.c\<close>)\<close>

fun smax_loop :: "int \<Rightarrow> int list \<Rightarrow> int" where
  "smax_loop smax [] = smax"
| "smax_loop smax (x # xs) =
     (let sabs = s16 (if x > 0 then x else - x)
      in smax_loop (if sabs > smax then sabs else smax) xs)"

definition WebRtcSpl_GetScalingSquare :: "int list \<Rightarrow> nat \<Rightarrow> nat \<Rightarrow> int" where
  "WebRtcSpl_GetScalingSquare in_vector in_vector_length num_times =
     (let nbits = WebRtcSpl_GetSizeInBits (u32 (int num_times));
          smax = smax_loop (-1) (take in_vector_length in_vector);
          t = WebRtcSpl_NormW32 (mul32 smax smax)
      in if smax = 0 then 0 else if t > nbits then 0 else s16 (nbits - t))"

fun energy_loop :: "int \<Rightarrow> int \<Rightarrow> int list \<Rightarrow> int" where
  "energy_loop scaling en [] = en"
| "energy_loop scaling en (x # xs) =
     energy_loop scaling (add32 en (shr (mul32 x x) (nat scaling))) xs"

definition WebRtcSpl_Energy :: "int list \<Rightarrow> nat \<Rightarrow> int \<times> int" where
  "WebRtcSpl_Energy vector vector_length =
     (let scaling = WebRtcSpl_GetScalingSquare vector vector_length vector_length
      in (energy_loop scaling 0 (take vector_length vector), scaling))"

subsection \<open>Leading zeros are counted correctly\<close>

lemma smear_step:
  assumes "\<And>i. bit m i \<longleftrightarrow> (\<exists>j<d. bit n (i + j))" and e: "e = d + d"
  shows "bit (m OR drop_bit d m) i \<longleftrightarrow> (\<exists>j<e. bit (n :: 32 word) (i + j))"
proof -
  have "bit (m OR drop_bit d m) i \<longleftrightarrow> (\<exists>j<d. bit n (i + j)) \<or> (\<exists>j<d. bit n (i + d + j))"
    by (simp add: bit_or_iff bit_drop_bit_eq assms ac_simps)
  also have "\<dots> \<longleftrightarrow> (\<exists>j<e. bit n (i + j))"
  proof
    assume "(\<exists>j<d. bit n (i + j)) \<or> (\<exists>j<d. bit n (i + d + j))"
    then show "\<exists>j<e. bit n (i + j)"
    proof (elim disjE exE conjE)
      fix j assume "j < d" "bit n (i + d + j)"
      then show ?thesis unfolding e by (intro exI [of _ "d + j"]) (simp add: add.assoc)
    next
      fix j assume "j < d" "bit n (i + j)"
      then show ?thesis by (intro exI [of _ j]) (simp add: e)
    qed
  next
    assume "\<exists>j<e. bit n (i + j)"
    then obtain j where j: "j < e" "bit n (i + j)" by blast
    show "(\<exists>j<d. bit n (i + j)) \<or> (\<exists>j<d. bit n (i + d + j))"
    proof (cases "j < d")
      case False
      with j have "j - d < d \<and> bit n (i + d + (j - d))" by (simp add: e)
      then show ?thesis by blast
    qed (use j in blast)
  qed
  finally show ?thesis .
qed

definition smear :: "32 word \<Rightarrow> 32 word" where
  "smear n =
     (let n = n OR drop_bit 1 n;
          n = n OR drop_bit 2 n;
          n = n OR drop_bit 4 n;
          n = n OR drop_bit 8 n
      in n OR drop_bit 16 n)"

lemma bit_smear: "bit (smear n) i \<longleftrightarrow> (\<exists>j<32. bit n (i + j))"
proof -
  let ?a = "n OR drop_bit 1 n"
  let ?b = "?a OR drop_bit 2 ?a"
  let ?c = "?b OR drop_bit 4 ?b"
  let ?d = "?c OR drop_bit 8 ?c"
  have "bit n i \<longleftrightarrow> (\<exists>j<1. bit n (i + j))" for i
    by simp
  then have "bit ?a i \<longleftrightarrow> (\<exists>j<2. bit n (i + j))" for i
    by (rule smear_step) simp
  then have "bit ?b i \<longleftrightarrow> (\<exists>j<4. bit n (i + j))" for i
    by (rule smear_step) simp
  then have "bit ?c i \<longleftrightarrow> (\<exists>j<8. bit n (i + j))" for i
    by (rule smear_step) simp
  then have "bit ?d i \<longleftrightarrow> (\<exists>j<16. bit n (i + j))" for i
    by (rule smear_step) simp
  then show ?thesis
    unfolding smear_def Let_def by (rule smear_step) simp
qed

lemma bit_word_unat: "bit (w :: 32 word) k \<longleftrightarrow> odd (unat w div 2 ^ k)"
  by (simp add: bit_unsigned_iff flip: bit_iff_odd)

lemma smear_eq_mask:
  assumes "2 ^ k \<le> unat n" "unat n < 2 ^ Suc k" "k < 32"
  shows "smear n = mask (Suc k)"
proof (rule bit_eqI)
  fix i
  have top: "bit n k"
  proof -
    have "unat n div 2 ^ k = 1"
      using assms by (intro div_nat_eqI) simp_all
    then show ?thesis by (simp add: bit_word_unat)
  qed
  have above: "\<not> bit n j" if "k < j" for j
  proof -
    have "unat n < 2 ^ j"
      using assms(2) that by (meson Suc_leI less_le_trans one_le_numeral power_increasing)
    then show ?thesis by (simp add: bit_word_unat)
  qed
  show "bit (smear n) i \<longleftrightarrow> bit (mask (Suc k) :: 32 word) i"
  proof (cases "i \<le> k")
    case True
    then have "bit n (i + (k - i))" "k - i < 32" using top assms(3) by auto
    then show ?thesis
      using True assms(3) by (auto simp: bit_smear bit_mask_iff)
  next
    case False
    then show ?thesis
      using above by (simp add: bit_smear bit_mask_iff)
  qed
qed

lemma clz_table:
  "\<forall>k \<in> set [0..<32]. kWebRtcSpl_CountLeadingZeros32_Table !
     unat (drop_bit 26 ((mask (Suc k) :: 32 word) * 0x8c0b2891)) = 31 - int k"
  by code_simp

lemma CountLeadingZeros32_NotBuiltin_eq:
  assumes "2 ^ k \<le> unat n" "unat n < 2 ^ Suc k"
  shows "WebRtcSpl_CountLeadingZeros32_NotBuiltin n = 31 - int k"
proof -
  have "unat n < 2 ^ 32"
    using unsigned_less [of n] by simp
  with assms(1) have "(2::nat) ^ k < 2 ^ 32" by linarith
  then have k: "k < 32" by (rule power_less_imp_less_exp [rotated]) simp
  have "WebRtcSpl_CountLeadingZeros32_NotBuiltin n =
      kWebRtcSpl_CountLeadingZeros32_Table ! unat (drop_bit 26 (smear n * 0x8c0b2891))"
    by (simp only: WebRtcSpl_CountLeadingZeros32_NotBuiltin_def smear_def Let_def)
  with clz_table k smear_eq_mask [OF assms k] show ?thesis by simp
qed

lemma CountLeadingZeros32_0: "WebRtcSpl_CountLeadingZeros32 0 = 32"
  by code_simp


lemma CountLeadingZeros32_eq:
  assumes "2 ^ k \<le> n" "n < 2 ^ Suc k" "k < 32"
  shows "WebRtcSpl_CountLeadingZeros32 n = 31 - int k"
proof -
  have "(2::int) ^ Suc k \<le> 2 ^ 32"
    using assms(3) by (intro power_increasing) auto
  moreover have "0 \<le> n"
    using assms(1) by (rule order_trans [rotated]) simp
  ultimately have "uint (word_of_int n :: 32 word) = n"
    using assms by (simp flip: u32_eq_uint add: u32_idI)
  then have n: "int (unat (word_of_int n :: 32 word)) = n"
    by simp
  then have "2 ^ k \<le> unat (word_of_int n :: 32 word)" "unat (word_of_int n :: 32 word) < 2 ^ Suc k"
    using assms(1,2) by (metis of_nat_le_iff of_nat_less_iff of_nat_numeral of_nat_power)+
  then show ?thesis
    unfolding WebRtcSpl_CountLeadingZeros32_def by (rule CountLeadingZeros32_NotBuiltin_eq)
qed

lemma pow2_bracket:
  fixes n :: int
  assumes "0 < n" "n < 2 ^ m"
  shows "\<exists>k<m. 2 ^ k \<le> n \<and> n < 2 ^ Suc k"
  using assms
proof (induction m)
  case 0
  then show ?case by simp
next
  case (Suc m)
  show ?case
  proof (cases "n < 2 ^ m")
    case True
    then show ?thesis using Suc by (meson less_SucI)
  next
    case False
    then show ?thesis using Suc.prems by (intro exI [of _ m]) auto
  qed
qed

lemma CountLeadingZeros32_correct:
  assumes "0 < n" "n < 4294967296"
  defines "z \<equiv> WebRtcSpl_CountLeadingZeros32 n"
  shows "0 \<le> z" "z \<le> 31" "2 ^ nat (31 - z) \<le> n" "n < 2 ^ nat (32 - z)"
proof -
  obtain k where k: "k < 32" "2 ^ k \<le> n" "n < 2 ^ Suc k"
    using pow2_bracket [of n 32] assms by auto
  have "z = 31 - int k"
    unfolding z_def by (rule CountLeadingZeros32_eq [OF k(2,3,1)])
  moreover have "nat (1 + int k) = Suc k" by simp
  ultimately show "0 \<le> z" "z \<le> 31" "2 ^ nat (31 - z) \<le> n" "n < 2 ^ nat (32 - z)"
    using k by simp_all
qed

lemma GetSizeInBits_correct:
  assumes "0 < n" "n < 4294967296"
  shows "0 < WebRtcSpl_GetSizeInBits n" "WebRtcSpl_GetSizeInBits n \<le> 32"
    "n < 2 ^ nat (WebRtcSpl_GetSizeInBits n)"
  using CountLeadingZeros32_correct [OF assms]
  by (simp_all add: WebRtcSpl_GetSizeInBits_def s16_idI)

lemma NormW32_pos:
  assumes "0 < a" "a \<le> 2147483647"
  shows "0 \<le> WebRtcSpl_NormW32 a" "WebRtcSpl_NormW32 a \<le> 30"
    "a < 2 ^ nat (31 - WebRtcSpl_NormW32 a)" "2 ^ nat (30 - WebRtcSpl_NormW32 a) \<le> a"
proof -
  obtain k where k: "k < 31" "2 ^ k \<le> a" "a < 2 ^ Suc k"
    using pow2_bracket [of a 31] assms by auto
  have "WebRtcSpl_NormW32 a = 30 - int k"
    using CountLeadingZeros32_eq [OF k(2,3)] assms k
    by (simp add: WebRtcSpl_NormW32_def u32_idI s16_idI)
  moreover have "nat (1 + int k) = Suc k" by simp
  ultimately show "0 \<le> WebRtcSpl_NormW32 a" "WebRtcSpl_NormW32 a \<le> 30"
    "a < 2 ^ nat (31 - WebRtcSpl_NormW32 a)" "2 ^ nat (30 - WebRtcSpl_NormW32 a) \<le> a"
    using k by simp_all
qed

lemma NormW32_neg:
  assumes "-2147483648 \<le> a" "a < -1"
  shows "WebRtcSpl_NormW32 a = WebRtcSpl_NormW32 (- a - 1)"
  using assms by (simp add: WebRtcSpl_NormW32_def)

lemma NormW32_minus_one: "WebRtcSpl_NormW32 (-1) = 31"
  by (simp add: WebRtcSpl_NormW32_def u32_def CountLeadingZeros32_0 s16_def)

lemma shift_fits_pos:
  assumes "0 < a" "a \<le> 2147483647"
  defines "t \<equiv> nat (WebRtcSpl_NormW32 a)"
  shows "a * 2 ^ t < 2147483648 \<and> 2147483648 \<le> a * 2 ^ Suc t"
proof -
  note n = NormW32_pos [OF assms(1,2)]
  define k where "k = nat (30 - WebRtcSpl_NormW32 a)"
  have t: "t \<le> 30" "k = 30 - t" "nat (31 - WebRtcSpl_NormW32 a) = 31 - t"
    using n(1,2) by (auto simp: t_def k_def)
  have "a * 2 ^ t < 2 ^ (31 - t) * 2 ^ t"
    using n(3) t by simp
  also have "\<dots> = 2147483648"
    using t(1) by (simp flip: power_add)
  finally have "a * 2 ^ t < 2147483648" .
  moreover have "2147483648 = (2::int) ^ (30 - t) * 2 ^ Suc t"
    using t(1) by (simp flip: power_add del: power_Suc)
  moreover have "2 ^ (30 - t) * 2 ^ Suc t \<le> a * 2 ^ Suc t"
    using n(4) t unfolding k_def [symmetric] by (intro mult_right_mono) simp_all
  ultimately show ?thesis by linarith
qed

text \<open>\<open>WebRtcSpl_NormW32\<close> (through the table-driven leading-zero count) returns the largest
  left shift of a non-zero 32-bit value that does not overflow: shifting by it stays in range,
  shifting by one more leaves the range.\<close>

theorem NormW32_is_largest_shift:
  assumes "in_s32 a" "a \<noteq> 0"
  shows "0 \<le> WebRtcSpl_NormW32 a \<and> WebRtcSpl_NormW32 a \<le> 31 \<and>
         in_s32 (a * 2 ^ nat (WebRtcSpl_NormW32 a)) \<and>
         \<not> in_s32 (a * 2 ^ Suc (nat (WebRtcSpl_NormW32 a)))"
proof -
  consider "0 < a" | "a = -1" | "a < -1" using assms(2) by linarith
  then show ?thesis
  proof cases
    case 1
    then have "a \<le> 2147483647" using assms(1) by (simp add: in_s32_def)
    from NormW32_pos [OF 1 this] shift_fits_pos [OF 1 this] 1 show ?thesis
      by (simp add: in_s32_def)
  next
    case 2
    then show ?thesis by (simp add: NormW32_minus_one in_s32_def)
  next
    case 3
    then have b: "0 < - a - 1" "- a - 1 \<le> 2147483647" using assms(1) by (simp_all add: in_s32_def)
    define t where "t = nat (WebRtcSpl_NormW32 a)"
    have eq: "WebRtcSpl_NormW32 a = WebRtcSpl_NormW32 (- a - 1)"
      using NormW32_neg 3 assms(1) by (simp add: in_s32_def)
    have up: "(- a - 1) * 2 ^ t < 2147483648" "2147483648 \<le> (- a - 1) * 2 ^ Suc t"
      using shift_fits_pos [OF b] by (simp_all add: t_def eq)
    have "- a * 2 ^ t \<le> 2147483648"
    proof -
      have "t \<le> 30" using NormW32_pos(1,2) [OF b] by (simp add: t_def eq)
      then have "(2147483648 :: int) = 2 ^ (31 - t) * 2 ^ t" by (simp flip: power_add)
      with up(1) have "- a - 1 < 2 ^ (31 - t)" by (simp add: mult_less_cancel_right)
      then have "- a \<le> 2 ^ (31 - t)" by simp
      then have "- a * 2 ^ t \<le> 2 ^ (31 - t) * 2 ^ t" by (rule mult_right_mono) simp
      with \<open>2147483648 = 2 ^ (31 - t) * 2 ^ t\<close> show ?thesis by simp
    qed
    moreover have "2147483648 < - a * 2 ^ Suc t"
      using up(2) by (simp add: algebra_simps) (smt (verit) zero_less_power)
    moreover have "a * 2 ^ t < 0" using 3 by (simp add: mult_neg_pos)
    ultimately have "in_s32 (a * 2 ^ t)" "\<not> in_s32 (a * 2 ^ Suc t)"
      by (simp_all add: in_s32_def)
    then show ?thesis
      using NormW32_pos(1,2) [OF b] by (simp add: t_def eq)
  qed
qed

theorem NormW32_is_largest_shift_witness:
  "in_s32 (-5) \<and> 0 \<le> WebRtcSpl_NormW32 (-5) \<and> in_s32 (-5 * 2 ^ nat (WebRtcSpl_NormW32 (-5)))"
  using NormW32_is_largest_shift [of "-5"] by (simp add: in_s32_def)


subsection \<open>Saturating arithmetic\<close>

lemma AddSatW32_wraps:
  "in_s32 a \<Longrightarrow> in_s32 b \<Longrightarrow> s32 (u32 (u32 a + u32 b)) =
     (if a + b > 2147483647 then a + b - 4294967296
      else if a + b < -2147483648 then a + b + 4294967296 else a + b)"
  by (auto simp: in_s32_def s32_u32_add s32_over s32_under s32_idI)

lemma SubSatW32_wraps:
  "in_s32 a \<Longrightarrow> in_s32 b \<Longrightarrow> s32 (u32 (u32 a - u32 b)) =
     (if a - b > 2147483647 then a - b - 4294967296
      else if a - b < -2147483648 then a - b + 4294967296 else a - b)"
  by (auto simp: in_s32_def s32_u32_diff s32_over s32_under s32_idI)

lemma SatW32ToW16_eq: "WebRtcSpl_SatW32ToW16 x = max (-32768) (min 32767 x)"
  by (auto simp: WebRtcSpl_SatW32ToW16_def intro: s16_idI)

text \<open>The saturating additions and subtractions return the exact sum or difference clamped
  to the range of the type, although the 32-bit ones compute it in wrapping unsigned
  arithmetic.\<close>

theorem saturating_ops_clamp:
  assumes "in_s32 a" "in_s32 b"
  shows "WebRtcSpl_AddSatW32 a b = max (-2147483648) (min 2147483647 (a + b)) \<and>
         WebRtcSpl_SubSatW32 a b = max (-2147483648) (min 2147483647 (a - b)) \<and>
         WebRtcSpl_AddSatW16 (s16 a) (s16 b) = max (-32768) (min 32767 (s16 a + s16 b)) \<and>
         WebRtcSpl_SubSatW16 (s16 a) (s16 b) = max (-32768) (min 32767 (s16 a - s16 b))"
proof -
  have "WebRtcSpl_AddSatW32 a b = max (-2147483648) (min 2147483647 (a + b))"
    using assms unfolding WebRtcSpl_AddSatW32_def AddSatW32_wraps [OF assms]
    by (auto simp: in_s32_def Let_def)
  moreover have "WebRtcSpl_SubSatW32 a b = max (-2147483648) (min 2147483647 (a - b))"
    using assms unfolding WebRtcSpl_SubSatW32_def SubSatW32_wraps [OF assms]
    by (auto simp: in_s32_def Let_def)
  ultimately show ?thesis
    by (simp add: WebRtcSpl_AddSatW16_def WebRtcSpl_SubSatW16_def SatW32ToW16_eq)
qed

theorem saturating_ops_clamp_witness:
  "WebRtcSpl_AddSatW32 2147483647 5 = 2147483647 \<and> WebRtcSpl_SubSatW32 (-2147483648) 1 = -2147483648"
  using saturating_ops_clamp [of 2147483647 5] saturating_ops_clamp [of "-2147483648" 1]
  by (simp add: in_s32_def)

subsection \<open>Division in Q31\<close>

lemma DivResultInQ31_loop_correct:
  assumes "0 \<le> r" "r < d" "d \<le> 1073741824" "0 \<le> q" "q < 2 ^ (31 - k)" "k \<le> 31"
  shows "DivResultInQ31_loop k q r d = q * 2 ^ k + (r * 2 ^ k) div d"
  using assms
proof (induction k arbitrary: q r)
  case 0
  then show ?case by simp
next
  case (Suc k)
  have pw: "(2::int) ^ (31 - k) = 2 * 2 ^ (31 - Suc k)"
    using Suc.prems(6) by (metis Suc_diff_Suc Suc_le_lessD power_Suc)
  also have "\<dots> \<le> 2 * 2 ^ 30"
    using Suc.prems(6) by (intro mult_left_mono power_increasing) auto
  finally have top: "(2::int) ^ (31 - k) \<le> 2147483648" by simp
  have "q * 2 < 2147483647" using Suc.prems pw top by linarith
  then have ops: "shl32 q 1 = 2 * q" "shl32 r 1 = 2 * r" "add32 (2 * q) 1 = 2 * q + 1"
      "2 * r \<ge> d \<Longrightarrow> sub32 (2 * r) d = 2 * r - d"
    using Suc.prems by (simp_all add: shl32_def add32_def sub32_def s32_idI)
  have step: "DivResultInQ31_loop (Suc k) q r d =
      (if 2 * r \<ge> d then DivResultInQ31_loop k (2 * q + 1) (sub32 (2 * r) d) d
       else DivResultInQ31_loop k (2 * q) (2 * r) d)"
    by (simp only: DivResultInQ31_loop.simps Let_def ops(1-3))
  show ?case
  proof (cases "2 * r \<ge> d")
    case True
    then have "DivResultInQ31_loop (Suc k) q r d =
        (2 * q + 1) * 2 ^ k + ((2 * r - d) * 2 ^ k) div d"
      unfolding step using Suc.prems pw by (simp only: ops(4) if_True) (subst Suc.IH, auto)
    also have "((2 * r - d) * 2 ^ k) div d = (2 * r * 2 ^ k - d * 2 ^ k) div d"
      by (simp add: algebra_simps)
    also have "\<dots> = (2 * r * 2 ^ k) div d - 2 ^ k"
      using Suc.prems div_mult_self2 [of d "2 * r * 2 ^ k" "- (2 ^ k)"] by (simp add: algebra_simps)
    finally show ?thesis by (simp add: algebra_simps)
  next
    case False
    then have "DivResultInQ31_loop (Suc k) q r d = (2 * q) * 2 ^ k + ((2 * r) * 2 ^ k) div d"
      unfolding step using Suc.prems pw by (simp only: if_False) (subst Suc.IH, auto)
    then show ?thesis by (simp add: algebra_simps)
  qed
qed

text \<open>For a numerator smaller in magnitude than the denominator (of at most 31 bits),
  \<open>WebRtcSpl_DivResultInQ31\<close>, a restoring long division of 31 steps, returns the quotient in Q31
  truncated towards zero, with the right sign.\<close>

theorem DivResultInQ31_correct:
  assumes "\<bar>num\<bar> < \<bar>den\<bar>" "\<bar>den\<bar> \<le> 1073741824"
  shows "WebRtcSpl_DivResultInQ31 num den = cdiv (num * 2 ^ 31) den"
proof (cases "num = 0")
  case True
  then show ?thesis by (simp add: WebRtcSpl_DivResultInQ31_def cdiv_def)
next
  case False
  have "(if x < 0 then s32 (- x) else x) = \<bar>x\<bar>" if "\<bar>x\<bar> \<le> 1073741824" for x :: int
    using that by (simp add: s32_idI)
  then have abs: "(if num < 0 then s32 (- num) else num) = \<bar>num\<bar>"
      "(if den < 0 then s32 (- den) else den) = \<bar>den\<bar>"
    using assms by auto
  define v where "v = (\<bar>num\<bar> * 2 ^ 31) div \<bar>den\<bar>"
  have loop: "DivResultInQ31_loop 31 0 \<bar>num\<bar> \<bar>den\<bar> = v"
    using DivResultInQ31_loop_correct [of "\<bar>num\<bar>" "\<bar>den\<bar>" 0 31] assms by (simp add: v_def)
  have "\<bar>num\<bar> * 2 ^ 31 < \<bar>den\<bar> * 2 ^ 31" using assms by simp
  then have "v < 2 ^ 31" unfolding v_def
    using assms by (intro int_div_less) (auto simp: mult.commute)
  moreover have "0 \<le> v" 
    using order.strict_trans1 [OF abs_ge_zero assms(1)] by (simp add: v_def pos_imp_zdiv_nonneg_iff)
  ultimately have neg: "s32 (- v) = - v" by (intro s32_idI) simp_all
  have "\<bar>num * 2147483648\<bar> = \<bar>num\<bar> * 2147483648" by (simp add: abs_mult)
  then have "cdiv (num * 2 ^ 31) den = sgn num * sgn den * v"
    by (simp add: cdiv_def v_def sgn_mult)
  then show ?thesis
    unfolding WebRtcSpl_DivResultInQ31_def Let_def abs loop neg
    using False assms by (auto simp: sgn_if)
qed

theorem DivResultInQ31_correct_witness:
  "WebRtcSpl_DivResultInQ31 (-1) 3 = cdiv (-1 * 2 ^ 31) 3"
  using DivResultInQ31_correct [of "-1" 3] by simp


subsection \<open>The integer square root\<close>

text \<open>
  Before bit \<open>N\<close> is decided, \<open>root\<close> is twice a multiple \<open>R\<close> of \<open>2 ^ (N + 1)\<close> with
  \<open>R\<^sup>2 \<le> v < (R + 2 ^ (N + 1))\<^sup>2\<close>, and \<open>value\<close> is the remainder \<open>v - R\<^sup>2\<close>.
\<close>

definition sqrt_inv :: "int \<Rightarrow> nat \<Rightarrow> int \<times> int \<Rightarrow> bool" where
  "sqrt_inv v N st \<longleftrightarrow>
     (\<exists>m\<ge>0. let R = m * 2 ^ N in
        st = (v - R ^ 2, 2 * R) \<and> R ^ 2 \<le> v \<and> v < (R + 2 ^ N) ^ 2)"

lemma or_disjoint_pow:
  fixes m :: int
  shows "(m * 2 ^ Suc k) OR 2 ^ k = m * 2 ^ Suc k + 2 ^ k"
proof -
  have "\<not> bit (push_bit (Suc k) m) n \<or> \<not> bit ((2::int) ^ k) n" for n
    by (simp add: bit_exp_iff bit_push_bit_iff del: push_bit_Suc)
  then have "push_bit (Suc k) m OR 2 ^ k = push_bit (Suc k) m + 2 ^ k"
    by (metis disjunctive_add)
  then show ?thesis by (simp only: push_bit_eq_mult)
qed

lemma sqrt_root_bound:
  fixes R v :: int
  assumes "0 \<le> R" "R ^ 2 \<le> v" "v < 2147483648"
  shows "R \<le> 46340"
proof (rule ccontr)
  assume "\<not> R \<le> 46340"
  then have "46341 ^ 2 \<le> R ^ 2" by (intro power_mono) auto
  then show False using assms by simp
qed

lemma sqrt_iter_inv:
  assumes inv: "sqrt_inv v (Suc N) st" and v: "0 \<le> v" "v < 2147483648" and N: "N \<le> 15"
  shows "sqrt_inv v N (WEBRTC_SPL_SQRT_ITER N st)"
proof -
  from inv obtain m where m: "0 \<le> m" and st: "st = (v - (m * 2 ^ Suc N) ^ 2, 2 * (m * 2 ^ Suc N))"
    and lo: "(m * 2 ^ Suc N) ^ 2 \<le> v" and hi: "v < (m * 2 ^ Suc N + 2 ^ Suc N) ^ 2"
    by (auto simp: sqrt_inv_def Let_def)
  define R where "R = m * 2 ^ Suc N"
  have R: "0 \<le> R" "R \<le> 46340"
    using m lo v sqrt_root_bound [of R v] by (simp_all add: R_def)
  have N15: "R = 0" if "N = 15"
  proof -
    have "m < 1" using R that by (simp add: R_def)
    then show ?thesis using m by (simp add: R_def)
  qed
  define t where "t = (2 * R + 2 ^ N) * 2 ^ N"
  have pw: "(2::int) ^ N \<le> 32768" "N \<noteq> 15 \<Longrightarrow> (2::int) ^ N \<le> 16384"
    using power_increasing [of N 15 "2::int"] power_increasing [of N 14 "2::int"] N by auto
  have t: "0 \<le> t" "t \<le> 2147483647"
  proof -
    show "0 \<le> t" using R by (simp add: t_def)
    show "t \<le> 2147483647"
    proof (cases "N = 15")
      case True
      then show ?thesis using N15 by (simp add: t_def)
    next
      case False
      have "t \<le> (2 * 46340 + 16384) * 16384"
        unfolding t_def using R pw(2) [OF False] by (intro mult_mono) auto
      then show ?thesis by simp
    qed
  qed
  have sq: "(R + 2 ^ N) ^ 2 = R ^ 2 + t"
    by (simp add: t_def power2_eq_square algebra_simps)
  have c: "shl32 1 N = 2 ^ N" "add32 (2 * R) (2 ^ N) = 2 * R + 2 ^ N" "shl32 (2 * R + 2 ^ N) N = t"
      "shl32 2 N = 2 ^ Suc N"
  proof -
    have pos: "(0::int) < 2 ^ N" by simp
    show "shl32 1 N = 2 ^ N" "shl32 2 N = 2 ^ Suc N"
      using pos pw(1) unfolding shl32_def by (subst s32_idI; linarith | simp)+
    show "add32 (2 * R) (2 ^ N) = 2 * R + 2 ^ N"
      using pos pw(1) R unfolding add32_def by (intro s32_idI) linarith+
    show "shl32 (2 * R + 2 ^ N) N = t"
      using t unfolding shl32_def t_def [symmetric] by (intro s32_idI) linarith+
  qed
  have or: "(2 * R) OR 2 ^ Suc N = 2 * (R + 2 ^ N)"
    using or_disjoint_pow [of m "Suc N"] by (simp add: R_def algebra_simps)
  show ?thesis
  proof (cases "v - R ^ 2 \<ge> t")
    case True
    have "sub32 (v - R ^ 2) t = v - (R + 2 ^ N) ^ 2"
      using True t v sq s32_idI [of "v - R ^ 2 - t"] zero_le_power2 [of R] by (simp add: sub32_def)
    with True have "WEBRTC_SPL_SQRT_ITER N st = (v - (R + 2 ^ N) ^ 2, 2 * (R + 2 ^ N))"
      by (simp add: WEBRTC_SPL_SQRT_ITER_def st c or del: power_Suc flip: R_def)
    moreover have "R + 2 ^ N = (2 * m + 1) * 2 ^ N" by (simp add: R_def algebra_simps)
    moreover have "v < (R + 2 ^ N + 2 ^ N) ^ 2" using hi by (simp add: R_def add.commute)
    ultimately show ?thesis
      unfolding sqrt_inv_def using m True sq by (intro exI [of _ "2 * m + 1"]) (simp add: Let_def)
  next
    case False
    then have "WEBRTC_SPL_SQRT_ITER N st = (v - R ^ 2, 2 * R)"
      by (simp add: WEBRTC_SPL_SQRT_ITER_def st c del: power_Suc flip: R_def)
    moreover have "(2 * m) * 2 ^ N = R" by (simp add: R_def)
    moreover have "R ^ 2 \<le> v" using lo by (simp only: R_def)
    ultimately show ?thesis
      unfolding sqrt_inv_def Let_def using m False sq by (intro exI [of _ "2 * m"]) simp
  qed
qed

lemma sqrt_iters_inv:
  assumes "sqrt_inv v n st" "0 \<le> v" "v < 2147483648" "n \<le> 16"
  shows "sqrt_inv v 0 (fold WEBRTC_SPL_SQRT_ITER (rev [0..<n]) st)"
  using assms
proof (induction n arbitrary: st)
  case (Suc n)
  then have "sqrt_inv v n (WEBRTC_SPL_SQRT_ITER n st)" by (intro sqrt_iter_inv) auto
  from Suc.IH [OF this] Suc.prems show ?case by simp
qed simp

text \<open>\<open>WebRtcSpl_SqrtFloor\<close> is the integer square root: its result squared does not exceed
  the argument and the next integer's square does, for every non-negative 32-bit value, with no
  overflow in the sixteen steps.\<close>

theorem SqrtFloor_correct:
  assumes "0 \<le> v" "v \<le> 2147483647"
  shows "0 \<le> WebRtcSpl_SqrtFloor v \<and> (WebRtcSpl_SqrtFloor v) ^ 2 \<le> v \<and>
         v < (WebRtcSpl_SqrtFloor v + 1) ^ 2"
proof -
  have start: "sqrt_inv v 16 (v, 0)"
    using assms by (auto simp: sqrt_inv_def intro!: exI [of _ 0])
  have "rev [0..<16] = [15, 14, 13, 12, 11, 10, 9, 8, 7, 6, 5, 4, 3, 2, 1, 0]"
    by (simp add: upt_rec)
  then have "sqrt_inv v 0 (fold WEBRTC_SPL_SQRT_ITER [15, 14, 13, 12, 11, 10, 9, 8, 7, 6, 5, 4, 3, 2, 1, 0] (v, 0))"
    (is "sqrt_inv v 0 ?st")
    using sqrt_iters_inv [OF start] assms by simp
  then obtain R where "?st = (v - R ^ 2, 2 * R)" "R ^ 2 \<le> v" "v < (R + 1) ^ 2" "0 \<le> R"
    by (auto simp: sqrt_inv_def Let_def)
  then show ?thesis by (simp add: WebRtcSpl_SqrtFloor_def shr_def)
qed

theorem SqrtFloor_correct_witness:
  "(0::int) \<le> 2147483647 \<and> (WebRtcSpl_SqrtFloor 2147483647) ^ 2 \<le> 2147483647"
  using SqrtFloor_correct [of 2147483647] by simp


subsection \<open>Scaling and energy\<close>

lemma smax_loop_bounds:
  assumes "list_all (\<lambda>x. \<bar>x\<bar> \<le> 32767) xs" "-1 \<le> m" "m \<le> 32767"
  shows "m \<le> smax_loop m xs" "smax_loop m xs \<le> 32767" "\<forall>x\<in>set xs. \<bar>x\<bar> \<le> smax_loop m xs"
proof -
  have "m \<le> smax_loop m xs \<and> smax_loop m xs \<le> 32767 \<and> (\<forall>x\<in>set xs. \<bar>x\<bar> \<le> smax_loop m xs)"
    using assms
  proof (induction xs arbitrary: m)
    case (Cons x xs)
    have abs: "s16 (if x > 0 then x else - x) = \<bar>x\<bar>"
      using Cons.prems by (auto intro: s16_idI)
    let ?m = "max m \<bar>x\<bar>"
    have "smax_loop m (x # xs) = smax_loop ?m xs"
      by (simp add: abs Let_def max_def)
    moreover have "?m \<le> smax_loop ?m xs \<and> smax_loop ?m xs \<le> 32767 \<and>
        (\<forall>y\<in>set xs. \<bar>y\<bar> \<le> smax_loop ?m xs)"
      using Cons.prems by (intro Cons.IH) auto
    ultimately show ?case by auto
  qed simp
  then show "m \<le> smax_loop m xs" "smax_loop m xs \<le> 32767" "\<forall>x\<in>set xs. \<bar>x\<bar> \<le> smax_loop m xs"
    by blast+
qed

text \<open>The scaling makes room for the sum: the shifted square of the largest sample is below
  \<open>2 ^ (31 - nbits)\<close>, and the number of samples is below \<open>2 ^ nbits\<close>.\<close>

lemma scaled_sum_bound:
  assumes s: "0 < m" "m \<le> 32767" and b: "0 < nbits" "nbits \<le> 31" and n: "int n < 2 ^ nat nbits"
  defines "t \<equiv> WebRtcSpl_NormW32 (m * m)"
  defines "sc \<equiv> (if t > nbits then 0 else nbits - t)"
  shows "int n * shr (m * m) (nat sc) \<le> 2147483647"
proof -
  have m2: "0 < m * m" "m * m \<le> 2147483647"
    using s mult_mono [of m 32767 m 32767] by auto
  note t = NormW32_pos [OF m2, folded t_def]
  have "shr (m * m) (nat sc) < 2 ^ nat (31 - nbits)"
  proof -
    have "m * m < 2 ^ nat (31 - nbits) * 2 ^ nat sc"
    proof (rule less_le_trans [OF t(3)])
      have "nat (31 - t) \<le> nat (31 - nbits) + nat sc"
        using t(1,2) b by (auto simp: sc_def)
      then show "(2::int) ^ nat (31 - t) \<le> 2 ^ nat (31 - nbits) * 2 ^ nat sc"
        by (simp flip: power_add)
    qed
    then show ?thesis unfolding shr_def by (intro int_div_less) auto
  qed
  then have "shr (m * m) (nat sc) \<le> 2 ^ nat (31 - nbits) - 1" by simp
  then have "int n * shr (m * m) (nat sc) \<le> 2 ^ nat nbits * (2 ^ nat (31 - nbits) - 1)"
    using n m2 by (intro mult_mono) auto
  also have "\<dots> = 2 ^ (nat nbits + nat (31 - nbits)) - 2 ^ nat nbits"
    by (simp add: algebra_simps power_add)
  also have "nat nbits + nat (31 - nbits) = 31" using b by simp
  finally have "int n * shr (m * m) (nat sc) \<le> 2147483648 - 2 ^ nat nbits" by simp
  with one_le_power [of "2::int" "nat nbits"] show ?thesis by linarith
qed

lemma energy_loop_exact:
  assumes "\<forall>x\<in>set xs. \<bar>x\<bar> \<le> m" "m \<le> 32767" "0 \<le> en"
    and "en + int (length xs) * shr (m * m) (nat sc) \<le> 2147483647"
  shows "energy_loop sc en xs = en + (\<Sum>x\<leftarrow>xs. shr (x * x) (nat sc))"
    and "en + (\<Sum>x\<leftarrow>xs. shr (x * x) (nat sc)) \<le> 2147483647"
proof -
  have "energy_loop sc en xs = en + (\<Sum>x\<leftarrow>xs. shr (x * x) (nat sc)) \<and>
      en + (\<Sum>x\<leftarrow>xs. shr (x * x) (nat sc)) \<le> 2147483647"
    using assms
  proof (induction xs arbitrary: en)
    case (Cons x xs)
    have x: "\<bar>x\<bar> \<le> m" using Cons.prems by simp
    then have x2: "x * x \<le> m * m" "0 \<le> x * x"
      using abs_le_square_iff [of x m] by (auto simp: power2_eq_square)
    have "m * m \<le> 32767 * 32767" using x Cons.prems(2) by (intro mult_mono) auto
    then have mul: "mul32 x x = x * x"
      unfolding mul32_def using x2 by (intro s32_idI) linarith+
    have sh: "0 \<le> shr (x * x) (nat sc)" "shr (x * x) (nat sc) \<le> shr (m * m) (nat sc)"
      using x2 by (auto intro: shr_mono)
    have rest: "0 \<le> int (length xs) * shr (m * m) (nat sc)"
      using sh by simp
    have bnd: "en + shr (x * x) (nat sc) + int (length xs) * shr (m * m) (nat sc) \<le> 2147483647"
      using Cons.prems(4) sh by (simp add: algebra_simps)
    then have add: "add32 en (shr (x * x) (nat sc)) = en + shr (x * x) (nat sc)"
      unfolding add32_def using Cons.prems(3) sh rest by (intro s32_idI) linarith+
    have "energy_loop sc (en + shr (x * x) (nat sc)) xs =
        en + shr (x * x) (nat sc) + (\<Sum>x\<leftarrow>xs. shr (x * x) (nat sc)) \<and>
        en + shr (x * x) (nat sc) + (\<Sum>x\<leftarrow>xs. shr (x * x) (nat sc)) \<le> 2147483647"
      using Cons.prems sh bnd by (intro Cons.IH) auto
    then show ?case by (simp add: mul add)
  qed simp
  then show "energy_loop sc en xs = en + (\<Sum>x\<leftarrow>xs. shr (x * x) (nat sc))"
    and "en + (\<Sum>x\<leftarrow>xs. shr (x * x) (nat sc)) \<le> 2147483647" by blast+
qed

lemma GetScalingSquare_room:
  assumes v: "list_all (\<lambda>x. \<bar>x\<bar> \<le> 32767) (take n xs)" and n: "0 < n" "n < 2147483648" "n \<le> length xs"
  defines "sc \<equiv> WebRtcSpl_GetScalingSquare xs n n"
  shows "\<exists>m. 0 \<le> m \<and> m \<le> 32767 \<and> (\<forall>x\<in>set (take n xs). \<bar>x\<bar> \<le> m) \<and>
           int n * shr (m * m) (nat sc) \<le> 2147483647 \<and> 0 \<le> sc \<and> sc \<le> 31"
proof -
  define m where "m = smax_loop (-1) (take n xs)"
  have b: "m \<le> 32767" "\<forall>x\<in>set (take n xs). \<bar>x\<bar> \<le> m"
    using smax_loop_bounds [OF v, of "-1"] by (auto simp: m_def)
  obtain y where "y \<in> set (take n xs)"
    using n by (metis length_greater_0_conv length_take list.set_intros(1) min_absorb2 neq_Nil_conv)
  with b(2) have m0: "0 \<le> m" by fastforce
  have mm: "mul32 m m = m * m"
    unfolding mul32_def using b(1) m0 mult_mono [of m 32767 m 32767] zero_le_square [of m]
    by (intro s32_idI) linarith+
  define nb where "nb = WebRtcSpl_GetSizeInBits (int n)"
  have nb: "0 < nb" "int n < 2 ^ nat nb" "nb \<le> 31"
  proof -
    show "0 < nb" "int n < 2 ^ nat nb"
      using GetSizeInBits_correct [of "int n"] n by (auto simp: nb_def)
    obtain k where k: "k < 31" "2 ^ k \<le> int n" "int n < 2 ^ Suc k"
      using pow2_bracket [of "int n" 31] n by auto
    have "nb = int k + 1"
      using CountLeadingZeros32_eq [OF k(2,3)] k(1) by (simp add: nb_def WebRtcSpl_GetSizeInBits_def s16_idI)
    then show "nb \<le> 31" using k(1) by simp
  qed
  have u: "u32 (int n) = int n" using n by (intro u32_idI) simp_all
  show ?thesis
  proof (cases "m = 0")
    case True
    then have "sc = 0" by (simp add: sc_def WebRtcSpl_GetScalingSquare_def Let_def flip: m_def)
    with True b show ?thesis by (intro exI [of _ 0]) simp
  next
    case False
    with m0 have "0 < m" by simp
    define t where "t = WebRtcSpl_NormW32 (m * m)"
    have "0 < m * m" "m * m \<le> 2147483647"
      using \<open>0 < m\<close> b(1) mult_mono [of m 32767 m 32767] by auto
    note t = NormW32_pos [OF this, folded t_def]
    have sc: "sc = (if t > nb then 0 else nb - t)"
      using False nb t(1,2)
      by (simp add: sc_def WebRtcSpl_GetScalingSquare_def Let_def mm u s16_idI flip: m_def t_def nb_def)
    have "int n * shr (m * m) (nat sc) \<le> 2147483647"
      unfolding sc t_def by (rule scaled_sum_bound [OF \<open>0 < m\<close> b(1) nb(1,3,2)])
    with b m0 sc t nb show ?thesis by (intro exI [of _ m]) auto
  qed
qed

text \<open>\<open>WebRtcSpl_Energy\<close> does not overflow: for any vector of up to \<open>2 ^ 31 - 1\<close> samples
  none of which is \<open>-32768\<close>, the wrapping accumulation equals the exact sum of the squares
  shifted down by the reported scale factor, and that sum is a non-negative \<open>int32_t\<close>.\<close>

theorem energy_exact:
  assumes "list_all (\<lambda>x. \<bar>x\<bar> \<le> 32767) (take n xs)" "0 < n" "n < 2147483648" "n \<le> length xs"
    and "WebRtcSpl_Energy xs n = (en, sc)"
  shows "en = (\<Sum>x\<leftarrow>take n xs. shr (x * x) (nat sc)) \<and> 0 \<le> en \<and> en \<le> 2147483647 \<and>
         0 \<le> sc \<and> sc \<le> 31"
proof -
  have sc: "sc = WebRtcSpl_GetScalingSquare xs n n" and en: "en = energy_loop sc 0 (take n xs)"
    using assms(5) by (auto simp: WebRtcSpl_Energy_def Let_def)
  from GetScalingSquare_room [OF assms(1-4), folded sc] obtain m where m:
    "0 \<le> m" "m \<le> 32767" "\<forall>x\<in>set (take n xs). \<bar>x\<bar> \<le> m" "int n * shr (m * m) (nat sc) \<le> 2147483647"
    "0 \<le> sc" "sc \<le> 31"
    by blast
  have "0 \<le> (\<Sum>x\<leftarrow>take n xs. shr (x * x) (nat sc))"
    by (rule sum_list_nonneg) auto
  with energy_loop_exact [OF m(3,2), of 0 sc] m assms(4) show ?thesis
    by (simp add: en)
qed

theorem energy_exact_witness:
  "WebRtcSpl_Energy [32767, -32767, 5, 0] 4 = (536838150, 2) \<and>
   536838150 = (\<Sum>x\<leftarrow>take 4 [32767, -32767, 5, 0 :: int]. shr (x * x) (nat 2))"
proof -
  have call: "WebRtcSpl_Energy [32767, -32767, 5, 0] 4 = (536838150, 2)"
    by code_simp
  show ?thesis
    using energy_exact [OF _ _ _ _ call] call by simp
qed


lemma smax_loop_min: "smax_loop (-1) (replicate n (-32768)) = -1"
  by (induction n) (simp_all add: s16_def)

lemma energy_loop_min: "energy_loop 0 en (replicate n (-32768)) = (if n = 0 then en else s32 (en + int n * 1073741824))"
proof (induction n arbitrary: en)
  case (Suc n)
  have "mul32 (-32768) (-32768) = 1073741824" by (simp add: mul32_def s32_def)
  then show ?case by (simp add: Suc add32_def shr_def algebra_simps)
qed simp

text \<open>C34: the guard against overflow in \<open>WebRtcSpl_Energy\<close> does not see the sample \<open>-32768\<close>:
  its absolute value is taken in \<open>int16_t\<close> and stays negative. A vector of \<open>n\<close> such samples is
  not scaled at all and its energy is \<open>n * 2 ^ 30\<close> wrapped to 32 bits, so the energy of any
  multiple of four full-scale negative samples is reported as 0.\<close>

theorem energy_of_min_samples_wraps:
  assumes "0 < n" "n < 1073741824"
  shows "WebRtcSpl_Energy (replicate n (-32768)) n = (s32 (int n * 1073741824), 0) \<and>
         (n mod 4 = 0 \<longrightarrow> fst (WebRtcSpl_Energy (replicate n (-32768)) n) = 0)"
proof -
  obtain k where k: "k < 30" "2 ^ k \<le> int n" "int n < 2 ^ Suc k"
    using pow2_bracket [of "int n" 30] assms by auto
  have "WebRtcSpl_GetSizeInBits (u32 (int n)) = int k + 1"
    using CountLeadingZeros32_eq [OF k(2,3)] k(1) assms
    by (simp add: WebRtcSpl_GetSizeInBits_def s16_idI u32_idI)
  moreover have "WebRtcSpl_NormW32 (mul32 (-1) (-1)) = 30"
    using CountLeadingZeros32_eq [of 0 1] by (simp add: WebRtcSpl_NormW32_def mul32_def s32_def u32_def s16_def)
  ultimately have "WebRtcSpl_GetScalingSquare (replicate n (-32768)) n n = 0"
    using k(1) by (simp add: WebRtcSpl_GetScalingSquare_def smax_loop_min Let_def s16_idI)
  then have eq: "WebRtcSpl_Energy (replicate n (-32768)) n = (s32 (int n * 1073741824), 0)"
    using assms(1) by (simp add: WebRtcSpl_Energy_def energy_loop_min)
  have "s32 (int n * 1073741824) = 0" if "n mod 4 = 0"
  proof -
    from that obtain j where "n = 4 * j" by (auto simp: mod_eq_0_iff_dvd)
    then have "int n * 1073741824 = int j * 4294967296" by simp
    then show ?thesis using s32_cong [of "int n * 1073741824" 0] by simp
  qed
  with eq show ?thesis by simp
qed

theorem energy_of_min_samples_wraps_witness:
  "fst (WebRtcSpl_Energy (replicate 60 (-32768)) 60) = 0"
  using energy_of_min_samples_wraps [of 60] by (simp add: s32_def)

end
