(* ===== verification/Spl_Resample.thy ===== *)
theory Spl_Resample
  imports Spl_Basic
begin

section \<open>Resampling (\<open>resample_by_2_internal.c\<close>, \<open>resample_fractional.c\<close>, \<open>resample_48khz.c\<close>)\<close>

text \<open>
  The polyphase resamplers. Every loop of \<open>resample_by_2_internal.c\<close> runs the same three-section
  allpass filter over four consecutive entries of a state array: \<open>allpass_step\<close> is one pass of
  that code, \<open>allpass_run\<close> the loop (its inputs are the successive values of \<open>tmp0\<close>, its
  outputs the successive values of the fourth state entry), and \<open>get4\<close>/\<open>put4\<close> select the four
  entries. The 48 kHz pipelines work in one scratch array \<open>tmpmem\<close>, in place; the model keeps
  that array explicit. The lemmas show that the filters are streaming (a signal can be cut into
  frames anywhere the code allows), that outputs are saturated, and that the in-place pipeline
  does not depend on what the scratch array held before.
\<close>

subsection \<open>The allpass loop\<close>

definition kResampleAllpass :: "int list list" where
  "kResampleAllpass = [[821, 6110, 12382], [3050, 9368, 15063]]"

type_synonym quad = "int \<times> int \<times> int \<times> int"

definition allpass_step :: "int list \<Rightarrow> int \<Rightarrow> quad \<Rightarrow> quad" where
  "allpass_step k tmp0 = (\<lambda>(s0, s1, s2, s3).
     (let diff = sub32 tmp0 s1;
          diff = shr (add32 diff (2 ^ 13)) 14;
          tmp1 = add32 s0 (mul32 diff (k ! 0));
          diff = sub32 tmp1 s2;
          diff = shr diff 14;
          diff = (if diff < 0 then diff + 1 else diff);
          tmp0' = add32 s1 (mul32 diff (k ! 1));
          diff = sub32 tmp0' s3;
          diff = shr diff 14;
          diff = (if diff < 0 then diff + 1 else diff);
          s3' = add32 s2 (mul32 diff (k ! 2))
      in (tmp0, tmp1, tmp0', s3')))"

fun allpass_run :: "int list \<Rightarrow> int list \<Rightarrow> quad \<Rightarrow> int list \<times> quad" where
  "allpass_run k [] q = ([], q)"
| "allpass_run k (x # xs) q =
     (let q1 = allpass_step k x q; (ys, q2) = allpass_run k xs q1
      in (snd (snd (snd q1)) # ys, q2))"

definition get4 :: "nat \<Rightarrow> int list \<Rightarrow> quad" where
  "get4 b st = (st ! b, st ! (b + 1), st ! (b + 2), st ! (b + 3))"

definition put4 :: "nat \<Rightarrow> quad \<Rightarrow> int list \<Rightarrow> int list" where
  "put4 b = (\<lambda>(s0, s1, s2, s3) st. st[b := s0, b + 1 := s1, b + 2 := s2, b + 3 := s3])"

definition allpass_at :: "nat \<Rightarrow> int list \<Rightarrow> int list \<Rightarrow> int list \<Rightarrow> int list \<times> int list" where
  "allpass_at b k xs st = (let (ys, q) = allpass_run k xs (get4 b st) in (ys, put4 b q st))"

text \<open>The input conversions of the \<open>ShortTo\<close> and \<open>IntTo\<close> variants, and the even and odd
  samples of the first \<open>2 * len\<close>.\<close>

definition from_short :: "int \<Rightarrow> int" where
  "from_short x = add32 (shl32 x 15) (2 ^ 14)"

definition evens :: "nat \<Rightarrow> int list \<Rightarrow> int list" where
  "evens len xs = map (\<lambda>i. xs ! (2 * i)) [0..<len]"

definition odds :: "nat \<Rightarrow> int list \<Rightarrow> int list" where
  "odds len xs = map (\<lambda>i. xs ! (2 * i + 1)) [0..<len]"

fun interleave :: "'a list \<Rightarrow> 'a list \<Rightarrow> 'a list" where
  "interleave (x # xs) (y # ys) = x # y # interleave xs ys"
| "interleave _ _ = []"

definition sat16 :: "int \<Rightarrow> int" where
  "sat16 x = (let x = (if x > 0x7FFF then 0x7FFF else x);
                  x = (if x < -0x8000 then -0x8000 else x) in s16 x)"

subsection \<open>\<open>resample_by_2_internal.c\<close>\<close>

text \<open>Returns the overwritten input array, the output and the new state.\<close>

definition WebRtcSpl_DownBy2IntToShort ::
    "int list \<Rightarrow> nat \<Rightarrow> int list \<Rightarrow> int list \<times> int list \<times> int list" where
  "WebRtcSpl_DownBy2IntToShort inp len state =
     (let half = len div 2;
          (lo, state) = allpass_at 0 (kResampleAllpass ! 1) (evens half inp) state;
          (hi, state) = allpass_at 4 (kResampleAllpass ! 0) (odds half inp) state;
          inp' = interleave (map (\<lambda>y. shr y 1) lo) (map (\<lambda>y. shr y 1) hi) @ drop (2 * half) inp;
          out = concat (map (\<lambda>j. let i = 2 * j in
                  [sat16 (shr (add32 (inp' ! (2 * i)) (inp' ! (2 * i + 1))) 15),
                   sat16 (shr (add32 (inp' ! (2 * i + 2)) (inp' ! (2 * i + 3))) 15)])
                  [0..<(half + 1) div 2])
      in (inp', out, state))"

definition WebRtcSpl_DownBy2ShortToInt ::
    "int list \<Rightarrow> nat \<Rightarrow> int list \<Rightarrow> int list \<times> int list" where
  "WebRtcSpl_DownBy2ShortToInt inp len state =
     (let half = len div 2;
          (lo, state) = allpass_at 0 (kResampleAllpass ! 1) (map from_short (evens half inp)) state;
          (hi, state) = allpass_at 4 (kResampleAllpass ! 0) (map from_short (odds half inp)) state
      in (map2 (\<lambda>a b. add32 (shr a 1) (shr b 1)) lo hi, state))"

definition WebRtcSpl_UpBy2ShortToInt ::
    "int list \<Rightarrow> nat \<Rightarrow> int list \<Rightarrow> int list \<times> int list" where
  "WebRtcSpl_UpBy2ShortToInt inp len state =
     (let xs = map from_short (take len inp);
          (up, state) = allpass_at 4 (kResampleAllpass ! 0) xs state;
          (lo, state) = allpass_at 0 (kResampleAllpass ! 1) xs state
      in (interleave (map (\<lambda>y. shr y 15) up) (map (\<lambda>y. shr y 15) lo), state))"

definition WebRtcSpl_UpBy2IntToInt ::
    "int list \<Rightarrow> nat \<Rightarrow> int list \<Rightarrow> int list \<times> int list" where
  "WebRtcSpl_UpBy2IntToInt inp len state =
     (let xs = take len inp;
          (up, state) = allpass_at 4 (kResampleAllpass ! 0) xs state;
          (lo, state) = allpass_at 0 (kResampleAllpass ! 1) xs state
      in (interleave up lo, state))"

definition WebRtcSpl_UpBy2IntToShort ::
    "int list \<Rightarrow> nat \<Rightarrow> int list \<Rightarrow> int list \<times> int list" where
  "WebRtcSpl_UpBy2IntToShort inp len state =
     (let xs = take len inp;
          (up, state) = allpass_at 4 (kResampleAllpass ! 0) xs state;
          (lo, state) = allpass_at 0 (kResampleAllpass ! 1) xs state
      in (interleave (map (\<lambda>y. sat16 (shr y 15)) up) (map (\<lambda>y. sat16 (shr y 15)) lo), state))"

text \<open>The lowpass filters use sixteen state entries. Their first loop filters the odd samples
  delayed by one: it starts from \<open>state[12]\<close>, where the last loop left the last odd sample of the
  previous call.\<close>

definition delayed :: "nat \<Rightarrow> int \<Rightarrow> int list \<Rightarrow> int list" where
  "delayed half d xs = take half (d # xs)"

definition lowpass_by_2 :: "(int \<Rightarrow> int) \<Rightarrow> int list \<Rightarrow> nat \<Rightarrow> int list \<Rightarrow> int list \<times> int list" where
  "lowpass_by_2 conv inp len state =
     (let half = len div 2;
          ev = map conv (evens half inp);
          od = map conv (odds half inp);
          (a, state) = allpass_at 0 (kResampleAllpass ! 1) (delayed half (state ! 12) od) state;
          (b, state) = allpass_at 4 (kResampleAllpass ! 0) ev state;
          (c, state) = allpass_at 8 (kResampleAllpass ! 1) ev state;
          (d, state) = allpass_at 12 (kResampleAllpass ! 0) od state;
          avg = (\<lambda>x y. shr (add32 (shr x 1) (shr y 1)) 15)
      in (interleave (map2 avg a b) (map2 avg c d), state))"

definition WebRtcSpl_LPBy2ShortToInt :: "int list \<Rightarrow> nat \<Rightarrow> int list \<Rightarrow> int list \<times> int list" where
  "WebRtcSpl_LPBy2ShortToInt inp len state = lowpass_by_2 from_short inp len state"

definition WebRtcSpl_LPBy2IntToInt :: "int list \<Rightarrow> nat \<Rightarrow> int list \<Rightarrow> int list \<times> int list" where
  "WebRtcSpl_LPBy2IntToInt inp len state = lowpass_by_2 (\<lambda>x. x) inp len state"

subsection \<open>\<open>resample_fractional.c\<close>\<close>

definition kCoefficients48To32 :: "int list list" where
  "kCoefficients48To32 =
     [[778, -2050, 1087, 23285, 12903, -3783, 441, 222],
      [222, 441, -3783, 12903, 23285, 1087, -2050, 778]]"

definition kCoefficients32To24 :: "int list list" where
  "kCoefficients32To24 =
     [[767, -2362, 2434, 24406, 10620, -3838, 721, 90],
      [386, -381, -2646, 19062, 19062, -2646, -381, 386],
      [90, 721, -3838, 10620, 24406, 2434, -2362, 767]]"

definition kCoefficients44To32 :: "int list list" where
  "kCoefficients44To32 =
     [[117, -669, 2245, -6183, 26267, 13529, -3245, 845, -138],
      [-101, 612, -2283, 8532, 29790, -5138, 1789, -524, 91],
      [50, -292, 1016, -3064, 32010, 3933, -1147, 315, -53],
      [-156, 974, -3863, 18603, 21691, -6246, 2353, -712, 126]]"

text \<open>\<open>tmp = t0; tmp += coef[0] * mem[off]; tmp += coef[1] * mem[off + 1]; ...\<close>\<close>

fun mac :: "int \<Rightarrow> int list \<Rightarrow> int list \<Rightarrow> int" where
  "mac t (c # cs) (x # xs) = mac (add32 t (mul32 c x)) cs xs"
| "mac t _ _ = t"

text \<open>The loops run on one array: \<open>i\<close> and \<open>j\<close> are the positions of \<open>In\<close> and \<open>Out\<close> in it.\<close>

fun WebRtcSpl_Resample48khzTo32khz :: "int list \<Rightarrow> nat \<Rightarrow> nat \<Rightarrow> nat \<Rightarrow> int list" where
  "WebRtcSpl_Resample48khzTo32khz mem i j 0 = mem"
| "WebRtcSpl_Resample48khzTo32khz mem i j (Suc K) =
     (let mem = mem[j := mac (2 ^ 14) (kCoefficients48To32 ! 0) (drop i mem)];
          mem = mem[j + 1 := mac (2 ^ 14) (kCoefficients48To32 ! 1) (drop (i + 1) mem)]
      in WebRtcSpl_Resample48khzTo32khz mem (i + 3) (j + 2) K)"

fun WebRtcSpl_Resample32khzTo24khz :: "int list \<Rightarrow> nat \<Rightarrow> nat \<Rightarrow> nat \<Rightarrow> int list" where
  "WebRtcSpl_Resample32khzTo24khz mem i j 0 = mem"
| "WebRtcSpl_Resample32khzTo24khz mem i j (Suc K) =
     (let mem = mem[j := mac (2 ^ 14) (kCoefficients32To24 ! 0) (drop i mem)];
          mem = mem[j + 1 := mac (2 ^ 14) (kCoefficients32To24 ! 1) (drop (i + 1) mem)];
          mem = mem[j + 2 := mac (2 ^ 14) (kCoefficients32To24 ! 2) (drop (i + 2) mem)]
      in WebRtcSpl_Resample32khzTo24khz mem (i + 4) (j + 3) K)"

definition WebRtcSpl_ResampDotProduct :: "int list \<Rightarrow> nat \<Rightarrow> nat \<Rightarrow> int list \<Rightarrow> int \<times> int" where
  "WebRtcSpl_ResampDotProduct xs i1 i2 coef =
     (mac 16384 coef (drop i1 xs),
      mac 16384 coef (map (\<lambda>k. xs ! (i2 - k)) [0..<9]))"

fun WebRtcSpl_Resample44khzTo32khz :: "int list \<Rightarrow> nat \<Rightarrow> int list" where
  "WebRtcSpl_Resample44khzTo32khz xs 0 = []"
| "WebRtcSpl_Resample44khzTo32khz xs (Suc K) =
     (let out0 = add32 (shl32 (xs ! 3) 15) (2 ^ 14);
          out4 = mac (2 ^ 14) (kCoefficients44To32 ! 3) (drop 5 xs);
          (out1, out7) = WebRtcSpl_ResampDotProduct xs 0 17 (kCoefficients44To32 ! 0);
          (out2, out6) = WebRtcSpl_ResampDotProduct xs 2 15 (kCoefficients44To32 ! 1);
          (out3, out5) = WebRtcSpl_ResampDotProduct xs 3 14 (kCoefficients44To32 ! 2)
      in [out0, out1, out2, out3, out4, out5, out6, out7] @
         WebRtcSpl_Resample44khzTo32khz (drop 11 xs) K)"


subsection \<open>\<open>resample_48khz.c\<close>\<close>

record State48khzTo16khz =
  S_48_48 :: "int list"
  S_48_32 :: "int list"
  S_32_16 :: "int list"

record State16khzTo48khz =
  S_16_32 :: "int list"
  S_32_24 :: "int list"
  S_24_48 :: "int list"

record State48khzTo8khz =
  S_48_24 :: "int list"
  S_24_24 :: "int list"
  S_24_16 :: "int list"
  S_16_8 :: "int list"

record State8khzTo48khz =
  S_8_16 :: "int list"
  S_16_12 :: "int list"
  S_12_24 :: "int list"
  S8_24_48 :: "int list"

definition slice :: "nat \<Rightarrow> nat \<Rightarrow> 'a list \<Rightarrow> 'a list" where
  "slice off n mem = take n (drop off mem)"

definition write_at :: "nat \<Rightarrow> 'a list \<Rightarrow> 'a list \<Rightarrow> 'a list" where
  "write_at off xs mem = take off mem @ xs @ drop (off + length xs) mem"

text \<open>Each pipeline takes the input frame, the state and the scratch array and returns the
  output, the state and the scratch array.\<close>

definition WebRtcSpl_Resample48khzTo16khz ::
    "int list \<Rightarrow> State48khzTo16khz \<Rightarrow> int list \<Rightarrow> int list \<times> State48khzTo16khz \<times> int list" where
  "WebRtcSpl_Resample48khzTo16khz inp state tmpmem =
     (let (lp, s4848) = WebRtcSpl_LPBy2ShortToInt inp 480 (S_48_48 state);
          mem = write_at 16 lp tmpmem;
          mem = write_at 8 (S_48_32 state) mem;
          s4832 = slice 488 8 mem;
          mem = WebRtcSpl_Resample48khzTo32khz mem 8 0 160;
          (mem', out, s3216) = WebRtcSpl_DownBy2IntToShort (slice 0 320 mem) 320 (S_32_16 state)
      in (out, \<lparr>S_48_48 = s4848, S_48_32 = s4832, S_32_16 = s3216\<rparr>, write_at 0 mem' mem))"

definition WebRtcSpl_ResetResample48khzTo16khz :: "State48khzTo16khz" where
  "WebRtcSpl_ResetResample48khzTo16khz =
     \<lparr>S_48_48 = replicate 16 0, S_48_32 = replicate 8 0, S_32_16 = replicate 8 0\<rparr>"

definition WebRtcSpl_Resample16khzTo48khz ::
    "int list \<Rightarrow> State16khzTo48khz \<Rightarrow> int list \<Rightarrow> int list \<times> State16khzTo48khz \<times> int list" where
  "WebRtcSpl_Resample16khzTo48khz inp state tmpmem =
     (let (up, s1632) = WebRtcSpl_UpBy2ShortToInt inp 160 (S_16_32 state);
          mem = write_at 16 up tmpmem;
          mem = write_at 8 (S_32_24 state) mem;
          s3224 = slice 328 8 mem;
          mem = WebRtcSpl_Resample32khzTo24khz mem 8 0 80;
          (out, s2448) = WebRtcSpl_UpBy2IntToShort (slice 0 240 mem) 240 (S_24_48 state)
      in (out, \<lparr>S_16_32 = s1632, S_32_24 = s3224, S_24_48 = s2448\<rparr>, mem))"

definition WebRtcSpl_ResetResample16khzTo48khz :: "State16khzTo48khz" where
  "WebRtcSpl_ResetResample16khzTo48khz =
     \<lparr>S_16_32 = replicate 8 0, S_32_24 = replicate 8 0, S_24_48 = replicate 8 0\<rparr>"

definition WebRtcSpl_Resample48khzTo8khz ::
    "int list \<Rightarrow> State48khzTo8khz \<Rightarrow> int list \<Rightarrow> int list \<times> State48khzTo8khz \<times> int list" where
  "WebRtcSpl_Resample48khzTo8khz inp state tmpmem =
     (let (d, s4824) = WebRtcSpl_DownBy2ShortToInt inp 480 (S_48_24 state);
          mem = write_at 256 d tmpmem;
          (lp, s2424) = WebRtcSpl_LPBy2IntToInt (slice 256 240 mem) 240 (S_24_24 state);
          mem = write_at 16 lp mem;
          mem = write_at 8 (S_24_16 state) mem;
          s2416 = slice 248 8 mem;
          mem = WebRtcSpl_Resample48khzTo32khz mem 8 0 80;
          (mem', out, s168) = WebRtcSpl_DownBy2IntToShort (slice 0 160 mem) 160 (S_16_8 state)
      in (out, \<lparr>S_48_24 = s4824, S_24_24 = s2424, S_24_16 = s2416, S_16_8 = s168\<rparr>,
          write_at 0 mem' mem))"

definition WebRtcSpl_ResetResample48khzTo8khz :: "State48khzTo8khz" where
  "WebRtcSpl_ResetResample48khzTo8khz =
     \<lparr>S_48_24 = replicate 8 0, S_24_24 = replicate 16 0, S_24_16 = replicate 8 0,
      S_16_8 = replicate 8 0\<rparr>"

definition WebRtcSpl_Resample8khzTo48khz ::
    "int list \<Rightarrow> State8khzTo48khz \<Rightarrow> int list \<Rightarrow> int list \<times> State8khzTo48khz \<times> int list" where
  "WebRtcSpl_Resample8khzTo48khz inp state tmpmem =
     (let (up, s816) = WebRtcSpl_UpBy2ShortToInt inp 80 (S_8_16 state);
          mem = write_at 264 up tmpmem;
          mem = write_at 256 (S_16_12 state) mem;
          s1612 = slice 416 8 mem;
          mem = WebRtcSpl_Resample32khzTo24khz mem 256 240 40;
          (up2, s1224) = WebRtcSpl_UpBy2IntToInt (slice 240 120 mem) 120 (S_12_24 state);
          mem = write_at 0 up2 mem;
          (out, s2448) = WebRtcSpl_UpBy2IntToShort (slice 0 240 mem) 240 (S8_24_48 state)
      in (out, \<lparr>S_8_16 = s816, S_16_12 = s1612, S_12_24 = s1224, S8_24_48 = s2448\<rparr>, mem))"

definition WebRtcSpl_ResetResample8khzTo48khz :: "State8khzTo48khz" where
  "WebRtcSpl_ResetResample8khzTo48khz =
     \<lparr>S_8_16 = replicate 8 0, S_16_12 = replicate 8 0, S_12_24 = replicate 8 0,
      S8_24_48 = replicate 8 0\<rparr>"

subsection \<open>The allpass loop is streaming\<close>

lemma allpass_run_append:
  "allpass_run k (xs @ ys) q =
     (let (us, q1) = allpass_run k xs q; (vs, q2) = allpass_run k ys q1 in (us @ vs, q2))"
  by (induction xs arbitrary: q) (auto simp: Let_def split_def)

lemma length_allpass_run [simp]: "length (fst (allpass_run k xs q)) = length xs"
  by (induction xs arbitrary: q) (auto simp: Let_def split_def)

lemma length_put4 [simp]: "length (put4 b q st) = length st"
  by (auto simp: put4_def split: prod.splits)

lemma get4_put4_same [simp]: "b + 3 < length st \<Longrightarrow> get4 b (put4 b q st) = q"
  by (auto simp: get4_def put4_def nth_list_update split: prod.splits)

lemma get4_put4_other [simp]: "b + 4 \<le> c \<or> c + 4 \<le> b \<Longrightarrow> get4 c (put4 b q st) = get4 c st"
  by (auto simp: get4_def put4_def nth_list_update split: prod.splits)

lemma put4_put4_same [simp]: "put4 b q (put4 b q' st) = put4 b q st"
  by (auto simp: put4_def list_eq_iff_nth_eq nth_upd split: prod.splits)

lemma put4_put4_swap: "b + 4 \<le> c \<Longrightarrow> put4 b q (put4 c q' st) = put4 c q' (put4 b q st)"
  by (auto simp: put4_def list_eq_iff_nth_eq nth_upd split: prod.splits)

lemma length_allpass_at [simp]:
  "length (fst (allpass_at b k xs st)) = length xs" "length (snd (allpass_at b k xs st)) = length st"
  by (simp_all add: allpass_at_def split_def Let_def)

lemma length_evens [simp]: "length (evens n xs) = n"
  by (simp add: evens_def)

lemma length_odds [simp]: "length (odds n xs) = n"
  by (simp add: odds_def)

lemma evens_append:
  "length xs = 2 * m \<Longrightarrow> evens (m + n) (xs @ ys) = evens m xs @ evens n ys"
  by (rule nth_equalityI) (auto simp: evens_def nth_append not_less diff_mult_distrib2)

lemma odds_append:
  "length xs = 2 * m \<Longrightarrow> odds (m + n) (xs @ ys) = odds m xs @ odds n ys"
  by (rule nth_equalityI) (auto simp: odds_def nth_append not_less diff_mult_distrib2 Suc_diff_le)

lemma length_interleave [simp]:
  "length xs = length ys \<Longrightarrow> length (interleave xs ys) = 2 * length xs"
  by (induction xs ys rule: list_induct2) auto

lemma interleave_append:
  "length xs = length ys \<Longrightarrow> interleave (xs @ us) (ys @ vs) = interleave xs ys @ interleave us vs"
  by (induction xs ys rule: list_induct2) auto

lemma interleave_nth:
  "length xs = length ys \<Longrightarrow> i < length xs \<Longrightarrow>
     interleave xs ys ! (2 * i) = xs ! i \<and> interleave xs ys ! Suc (2 * i) = ys ! i"
proof (induction xs ys arbitrary: i rule: list_induct2)
  case (Cons x xs y ys)
  then show ?case by (cases i) auto
qed simp


lemma allpass_at_eq:
  "allpass_at b k xs st = (fst (allpass_run k xs (get4 b st)), put4 b (snd (allpass_run k xs (get4 b st))) st)"
  by (simp add: allpass_at_def split_def Let_def)

lemma allpass_run_append_fst:
  "fst (allpass_run k (xs @ ys) q) =
     fst (allpass_run k xs q) @ fst (allpass_run k ys (snd (allpass_run k xs q)))"
  and allpass_run_append_snd:
  "snd (allpass_run k (xs @ ys) q) = snd (allpass_run k ys (snd (allpass_run k xs q)))"
  by (simp_all add: allpass_run_append split_def Let_def)

lemmas put4_order =
  put4_put4_swap [of 0 4, simplified] put4_put4_swap [of 0 8, simplified]
  put4_put4_swap [of 0 12, simplified] put4_put4_swap [of 4 8, simplified]
  put4_put4_swap [of 4 12, simplified] put4_put4_swap [of 8 12, simplified]

lemmas allpass_simps = allpass_at_eq allpass_run_append_fst allpass_run_append_snd put4_order

subsection \<open>The interface: filters that process a signal frame by frame\<close>

fun run_frames :: "('x list \<Rightarrow> 's \<Rightarrow> 'y list \<times> 's) \<Rightarrow> 'x list list \<Rightarrow> 's \<Rightarrow> 'y list \<times> 's" where
  "run_frames f [] st = ([], st)"
| "run_frames f (x # xs) st =
     (let (y, st1) = f x st; (ys, st2) = run_frames f xs st1 in (y @ ys, st2))"

locale frame_filter =
  fixes run :: "'x list \<Rightarrow> 's \<Rightarrow> 'y list \<times> 's"
    and grain :: nat
    and good :: "'s \<Rightarrow> bool"
  assumes run_Nil: "good st \<Longrightarrow> run [] st = ([], st)"
    and run_good: "good st \<Longrightarrow> grain dvd length xs \<Longrightarrow> good (snd (run xs st))"
    and run_append: "good st \<Longrightarrow> grain dvd length xs \<Longrightarrow> grain dvd length ys \<Longrightarrow>
      run (xs @ ys) st =
        (fst (run xs st) @ fst (run ys (snd (run xs st))), snd (run ys (snd (run xs st))))"
begin

lemma run_concat:
  assumes "good st" "\<forall>f\<in>set fs. grain dvd length f"
  shows "run (concat fs) st = run_frames run fs st"
  using assms
proof (induction fs arbitrary: st)
  case Nil
  then show ?case by (simp add: run_Nil)
next
  case (Cons f fs)
  have "grain dvd length (concat fs)"
    using Cons.prems by (induction fs) auto
  with Cons show ?case
    by (simp add: run_append run_good split_def Let_def)
qed

end

definition down_short :: "int list \<Rightarrow> int list \<Rightarrow> int list \<times> int list" where
  "down_short xs st = WebRtcSpl_DownBy2ShortToInt xs (length xs) st"

definition down_int :: "int list \<Rightarrow> int list \<Rightarrow> int list \<times> int list" where
  "down_int xs st = snd (WebRtcSpl_DownBy2IntToShort xs (length xs) st)"

definition up_short :: "int list \<Rightarrow> int list \<Rightarrow> int list \<times> int list" where
  "up_short xs st = WebRtcSpl_UpBy2ShortToInt xs (length xs) st"

definition up_int :: "int list \<Rightarrow> int list \<Rightarrow> int list \<times> int list" where
  "up_int xs st = WebRtcSpl_UpBy2IntToInt xs (length xs) st"

definition up_int_short :: "int list \<Rightarrow> int list \<Rightarrow> int list \<times> int list" where
  "up_int_short xs st = WebRtcSpl_UpBy2IntToShort xs (length xs) st"

definition lp_short :: "int list \<Rightarrow> int list \<Rightarrow> int list \<times> int list" where
  "lp_short xs st = WebRtcSpl_LPBy2ShortToInt xs (length xs) st"

definition lp_int :: "int list \<Rightarrow> int list \<Rightarrow> int list \<times> int list" where
  "lp_int xs st = WebRtcSpl_LPBy2IntToInt xs (length xs) st"

lemma even_length_cases: "(2::nat) dvd length xs \<Longrightarrow> \<exists>m. length xs = 2 * m"
  by (auto elim: dvdE)

interpretation down_short: frame_filter down_short 2 "\<lambda>st. length st = 8"
proof unfold_locales
  fix xs ys st :: "int list" assume len: "length st = 8"
  show "down_short [] st = ([], st)"
    using len by (simp add: down_short_def WebRtcSpl_DownBy2ShortToInt_def allpass_simps evens_def odds_def
        get4_def put4_def)
  show "length (snd (down_short xs st)) = 8"
    using len by (simp add: down_short_def WebRtcSpl_DownBy2ShortToInt_def allpass_simps Let_def)
  assume "2 dvd length xs" "2 dvd length ys"
  then obtain m n where mn: "length xs = 2 * m" "length ys = 2 * n"
    using even_length_cases by metis
  then have "evens (m + n) (xs @ ys) = evens m xs @ evens n ys"
    "odds (m + n) (xs @ ys) = odds m xs @ odds n ys" "(2 * m + 2 * n) div 2 = m + n"
    by (simp_all add: evens_append odds_append)
  with len mn show "down_short (xs @ ys) st =
      (fst (down_short xs st) @ fst (down_short ys (snd (down_short xs st))),
       snd (down_short ys (snd (down_short xs st))))"
    by (simp add: down_short_def WebRtcSpl_DownBy2ShortToInt_def Let_def allpass_simps)
qed

interpretation up_short: frame_filter up_short 1 "\<lambda>st. length st = 8"
  by unfold_locales
    (simp_all add: up_short_def WebRtcSpl_UpBy2ShortToInt_def Let_def allpass_simps interleave_append,
     simp add: get4_def put4_def)

interpretation up_int: frame_filter up_int 1 "\<lambda>st. length st = 8"
  by unfold_locales
    (simp_all add: up_int_def WebRtcSpl_UpBy2IntToInt_def Let_def allpass_simps interleave_append,
     simp add: get4_def put4_def)

interpretation up_int_short: frame_filter up_int_short 1 "\<lambda>st. length st = 8"
  by unfold_locales
    (simp_all add: up_int_short_def WebRtcSpl_UpBy2IntToShort_def Let_def allpass_simps interleave_append,
     simp add: get4_def put4_def)


lemma allpass_run_first: "fst (snd (allpass_run k xs q)) = last (fst q # xs)"
proof (induction xs arbitrary: q)
  case (Cons x xs)
  have "fst (allpass_step k x q) = x"
    by (simp add: allpass_step_def Let_def split_def)
  with Cons show ?case by (auto simp: Let_def split_def)
qed simp

lemma put4_nth: "b + 3 < length st \<Longrightarrow> put4 b q st ! b = fst q"
  by (auto simp: put4_def nth_upd split: prod.splits)

lemma nth_12: "st ! 12 = fst (get4 12 st)"
  by (simp add: get4_def)

lemma delayed_append:
  assumes "length xs = m"
  shows "delayed (m + n) d (xs @ ys) = delayed m d xs @ delayed n (last (d # xs)) ys"
proof -
  define T L where "T = take m (d # xs)" and "L = last (d # xs)"
  have TL: "d # xs = T @ [L]"
    unfolding T_def L_def using assms
    by (metis append_butlast_last_id butlast_conv_take diff_Suc_1 length_Cons list.discI)
  have len: "length T = m" using assms by (simp add: T_def)
  have "delayed (m + n) d (xs @ ys) = take (m + n) ((d # xs) @ ys)"
    by (simp add: delayed_def)
  also have "\<dots> = T @ take n (L # ys)"
    unfolding TL using len by simp
  also have "T = delayed m d xs" by (simp add: T_def delayed_def)
  finally show ?thesis by (simp add: delayed_def L_def)
qed

lemma length_delayed [simp]: "n \<le> Suc (length xs) \<Longrightarrow> length (delayed n d xs) = n"
  by (simp add: delayed_def)

lemma lowpass_by_2_append:
  fixes conv :: "int \<Rightarrow> int"
  assumes len: "length st = 16" and mn: "length xs = 2 * m" "length ys = 2 * n"
  defines "r1 \<equiv> lowpass_by_2 conv xs (2 * m) st"
  defines "r2 \<equiv> lowpass_by_2 conv ys (2 * n) (snd r1)"
  shows "lowpass_by_2 conv (xs @ ys) (2 * m + 2 * n) st = (fst r1 @ fst r2, snd r2)"
proof -
  have "evens (m + n) (xs @ ys) = evens m xs @ evens n ys"
    "odds (m + n) (xs @ ys) = odds m xs @ odds n ys" "(2 * m + 2 * n) div 2 = m + n"
    using mn by (simp_all add: evens_append odds_append)
  moreover have "delayed (m + n) d (map conv (odds m xs) @ map conv (odds n ys)) =
      delayed m d (map conv (odds m xs)) @ delayed n (last (d # map conv (odds m xs))) (map conv (odds n ys))"
    for d by (rule delayed_append) simp
  ultimately show ?thesis
    unfolding r1_def r2_def lowpass_by_2_def Let_def nth_12 using len
    by (simp add: allpass_simps interleave_append allpass_run_first split_def)
qed

lemma lowpass_by_2_Nil: "length st = 16 \<Longrightarrow> lowpass_by_2 conv [] 0 st = ([], st)"
  by (simp add: lowpass_by_2_def allpass_simps evens_def odds_def delayed_def)
    (simp add: get4_def put4_def)

lemma lowpass_by_2_length: "length (snd (lowpass_by_2 conv xs len st)) = length st"
  by (simp add: lowpass_by_2_def Let_def allpass_simps split_def)

interpretation lp_short: frame_filter lp_short 2 "\<lambda>st. length st = 16"
  by unfold_locales
    (auto simp: lp_short_def WebRtcSpl_LPBy2ShortToInt_def lowpass_by_2_Nil lowpass_by_2_length
      lowpass_by_2_append elim!: dvdE)

interpretation lp_int: frame_filter lp_int 2 "\<lambda>st. length st = 16"
  by unfold_locales
    (auto simp: lp_int_def WebRtcSpl_LPBy2IntToInt_def lowpass_by_2_Nil lowpass_by_2_length
      lowpass_by_2_append elim!: dvdE)

text \<open>The decimator to 16 bits combines its outputs in pairs, so its frames are multiples of
  four samples.\<close>

definition combine16 :: "int \<Rightarrow> int \<Rightarrow> int" where
  "combine16 a b = sat16 (shr (add32 (shr a 1) (shr b 1)) 15)"

lemma concat_pairs:
  "concat (map (\<lambda>j. [f (2 * j), f (Suc (2 * j))]) [0..<n]) = map f [0..<2 * n]"
  by (induction n) auto

lemma DownBy2IntToShort_eq:
  fixes st :: "int list"
  assumes "length inp = 4 * n"
  defines "A \<equiv> allpass_run (kResampleAllpass ! 1) (evens (2 * n) inp) (get4 0 st)"
  defines "B \<equiv> allpass_run (kResampleAllpass ! 0) (odds (2 * n) inp) (get4 4 st)"
  shows "snd (WebRtcSpl_DownBy2IntToShort inp (4 * n) st) =
    (map2 combine16 (fst A) (fst B), put4 4 (snd B) (put4 0 (snd A) st))"
proof -
  let ?xs = "map (\<lambda>y. shr y 1) (fst A)" and ?ys = "map (\<lambda>y. shr y 1) (fst B)"
  let ?inp = "interleave ?xs ?ys"
  let ?f = "\<lambda>i. sat16 (shr (add32 (?inp ! (2 * i)) (?inp ! Suc (2 * i))) 15)"
  have len: "length (fst A) = 2 * n" "length (fst B) = 2 * n"
    by (simp_all add: A_def B_def)
  have "snd (WebRtcSpl_DownBy2IntToShort inp (4 * n) st) =
      (concat (map (\<lambda>j. [?f (2 * j), ?f (Suc (2 * j))]) [0..<n]), put4 4 (snd B) (put4 0 (snd A) st))"
    using assms(1) by (simp add: WebRtcSpl_DownBy2IntToShort_def Let_def allpass_simps A_def B_def
        split_def numeral_3_eq_3)
  also have "concat (map (\<lambda>j. [?f (2 * j), ?f (Suc (2 * j))]) [0..<n]) = map ?f [0..<2 * n]"
    by (rule concat_pairs)
  also have "\<dots> = map2 combine16 (fst A) (fst B)"
    using len interleave_nth [of ?xs ?ys] by (intro nth_equalityI) (auto simp: combine16_def)
  finally show ?thesis .
qed

interpretation down_int: frame_filter down_int 4 "\<lambda>st. length st = 8"
proof unfold_locales
  fix xs ys st :: "int list" assume len: "length st = 8"
  show "down_int [] st = ([], st)"
    using len DownBy2IntToShort_eq [of "[]" 0 st]
    by (simp add: down_int_def evens_def odds_def) (simp add: get4_def put4_def)
  assume "4 dvd length xs"
  then obtain m where m: "length xs = 4 * m" by (auto elim: dvdE)
  show "length (snd (down_int xs st)) = 8"
    using len by (simp add: down_int_def m DownBy2IntToShort_eq)
  assume "4 dvd length ys"
  then obtain n where n: "length ys = 4 * n" by (auto elim: dvdE)
  have "evens (2 * (m + n)) (xs @ ys) = evens (2 * m) xs @ evens (2 * n) ys"
    "odds (2 * (m + n)) (xs @ ys) = odds (2 * m) xs @ odds (2 * n) ys"
    using m evens_append [of xs "2 * m" "2 * n" ys] odds_append [of xs "2 * m" "2 * n" ys]
    by (simp_all add: add_mult_distrib2)
  moreover note DownBy2IntToShort_eq [of "xs @ ys" "m + n" st]
  ultimately show "down_int (xs @ ys) st =
      (fst (down_int xs st) @ fst (down_int ys (snd (down_int xs st))),
       snd (down_int ys (snd (down_int xs st))))"
    using len by (simp add: down_int_def m n DownBy2IntToShort_eq allpass_simps add_mult_distrib2)
qed


subsection \<open>The in-place fractional resampler\<close>

text \<open>The loop on separate arrays, as a function of its input.\<close>

fun resample_2_3 :: "int list \<Rightarrow> nat \<Rightarrow> int list" where
  "resample_2_3 xs 0 = []"
| "resample_2_3 xs (Suc K) =
     mac (2 ^ 14) (kCoefficients48To32 ! 0) xs #
     mac (2 ^ 14) (kCoefficients48To32 ! 1) (drop 1 xs) # resample_2_3 (drop 3 xs) K"

lemma length_resample_2_3 [simp]: "length (resample_2_3 xs K) = 2 * K"
  by (induction K arbitrary: xs) auto

lemma mac_append: "length cs \<le> length xs \<Longrightarrow> mac t cs (xs @ ys) = mac t cs xs"
  by (induction t cs xs rule: mac.induct) auto

lemma coefficients48To32_length [simp]:
  "length (kCoefficients48To32 ! 0) = 8" "length (kCoefficients48To32 ! Suc 0) = 8"
  by (simp_all add: kCoefficients48To32_def)

lemma resample_2_3_prefix:
  "3 * K + 6 \<le> length xs \<Longrightarrow> resample_2_3 (xs @ ys) K = resample_2_3 xs K"
proof (induction K arbitrary: xs)
  case (Suc K)
  have "drop 3 (xs @ ys) = drop 3 xs @ ys" "drop 1 (xs @ ys) = drop 1 xs @ ys"
    using Suc.prems by simp_all
  then show ?case
    using Suc by (simp add: mac_append del: drop_append)
qed simp

lemma take_two_updates:
  "Suc j < length mem \<Longrightarrow> take (Suc (Suc j)) (mem[j := a, Suc j := b]) = take j mem @ [a, b]"
  by (simp add: take_Suc_conv_app_nth)

text \<open>Writing never overtakes reading when \<open>Out\<close> starts at or before \<open>In\<close>: the in-place loop
  leaves the same output as the loop on separate arrays.\<close>

lemma Resample48khzTo32khz_in_place:
  assumes "j \<le> i" "j + 2 * K \<le> length mem"
  shows "WebRtcSpl_Resample48khzTo32khz mem i j K = write_at j (resample_2_3 (drop i mem) K) mem"
  using assms
proof (induction K arbitrary: mem i j)
  case 0
  then show ?case by (simp add: write_at_def)
next
  case (Suc K)
  let ?a = "mac (2 ^ 14) (kCoefficients48To32 ! 0) (drop i mem)"
  let ?b = "mac (2 ^ 14) (kCoefficients48To32 ! 1) (drop (i + 1) mem)"
  let ?mem = "mem[j := ?a, Suc j := ?b]"
  have "WebRtcSpl_Resample48khzTo32khz mem i j (Suc K) =
      WebRtcSpl_Resample48khzTo32khz ?mem (i + 3) (j + 2) K"
    using Suc.prems by (simp add: drop_update_cancel)
  also have "\<dots> = write_at (j + 2) (resample_2_3 (drop (i + 3) ?mem) K) ?mem"
    using Suc.prems by (intro Suc.IH) auto
  also have "drop (i + 3) ?mem = drop (i + 3) mem"
    using Suc.prems by (simp add: drop_update_cancel)
  also have "write_at (j + 2) (resample_2_3 (drop (i + 3) mem) K) ?mem =
      write_at j (resample_2_3 (drop i mem) (Suc K)) mem"
    using Suc.prems
    by (simp add: write_at_def take_two_updates drop_update_cancel add.commute del: take_update_swap)
  finally show ?case .
qed

lemma slice_write_same: "off \<le> length mem \<Longrightarrow> slice off (length xs) (write_at off xs mem) = xs"
  by (simp add: slice_def write_at_def)

lemma length_write_at [simp]: "off + length xs \<le> length mem \<Longrightarrow> length (write_at off xs mem) = length mem"
  by (simp add: write_at_def)

definition state48to8_ok :: "State48khzTo8khz \<Rightarrow> bool" where
  "state48to8_ok st \<longleftrightarrow> length (S_48_24 st) = 8 \<and> length (S_24_24 st) = 16 \<and>
     length (S_24_16 st) = 8 \<and> length (S_16_8 st) = 8"

text \<open>The pipeline on separate arrays.\<close>

definition pipeline48to8 :: "int list \<Rightarrow> State48khzTo8khz \<Rightarrow> int list \<times> State48khzTo8khz" where
  "pipeline48to8 inp st =
     (let (d, s4824) = down_short inp (S_48_24 st);
          (lp, s2424) = lp_int d (S_24_24 st);
          (out, s168) = down_int (resample_2_3 (S_24_16 st @ lp) 80) (S_16_8 st)
      in (out, \<lparr>S_48_24 = s4824, S_24_24 = s2424, S_24_16 = drop 232 lp, S_16_8 = s168\<rparr>))"

lemma length_down_short: "length (fst (down_short xs st)) = length xs div 2"
  by (simp add: down_short_def WebRtcSpl_DownBy2ShortToInt_def Let_def allpass_simps)

lemma length_lp_int: "length (fst (lp_int xs st)) = 2 * (length xs div 2)"
  by (simp add: lp_int_def WebRtcSpl_LPBy2IntToInt_def lowpass_by_2_def Let_def allpass_simps split_def)

lemma length_down_int: "4 dvd length xs \<Longrightarrow> length (fst (down_int xs st)) = length xs div 2"
  by (auto simp: down_int_def DownBy2IntToShort_eq elim!: dvdE)

lemma sat16_range: "in_s16 (sat16 x)"
  by (simp add: sat16_def Let_def)

lemma down_int_range: "4 dvd length xs \<Longrightarrow> \<forall>y\<in>set (fst (down_int xs st)). in_s16 y"
  by (auto simp: down_int_def DownBy2IntToShort_eq combine16_def sat16_range elim!: dvdE
      dest!: set_zip_leftD)

lemma Resample48khzTo8khz_eq:
  assumes st: "state48to8_ok st" and inp: "length inp = 480" and tmp: "496 \<le> length tmpmem"
  shows "\<exists>mem. WebRtcSpl_Resample48khzTo8khz inp st tmpmem =
           (fst (pipeline48to8 inp st), snd (pipeline48to8 inp st), mem) \<and> length mem = length tmpmem"
proof -
  define d s1 where "d = fst (down_short inp (S_48_24 st))" and "s1 = snd (down_short inp (S_48_24 st))"
  define lp s2 where "lp = fst (lp_int d (S_24_24 st))" and "s2 = snd (lp_int d (S_24_24 st))"
  have len: "length d = 240" "length lp = 240" "length (S_24_16 st) = 8"
    using inp st by (simp_all add: d_def lp_def length_down_short length_lp_int state48to8_ok_def)
  define m1 where "m1 = write_at 256 d tmpmem"
  define m2 where "m2 = write_at 16 lp m1"
  define m3 where "m3 = write_at 8 (S_24_16 st) m2"
  have lm: "length m1 = length tmpmem" "length m2 = length tmpmem" "length m3 = length tmpmem"
    using tmp len by (simp_all add: m1_def m2_def m3_def)
  have "slice 256 240 m1 = d"
    using slice_write_same [of 256 tmpmem d] tmp len by (simp add: m1_def)
  then have lp_eq: "WebRtcSpl_LPBy2IntToInt (slice 256 240 m1) 240 (S_24_24 st) = (lp, s2)"
    by (simp add: lp_def s2_def lp_int_def len)
  have d_eq: "WebRtcSpl_DownBy2ShortToInt inp 480 (S_48_24 st) = (d, s1)"
    using inp by (simp add: d_def s1_def down_short_def)
  have "drop 16 m2 = lp @ drop 256 m1"
    using lm tmp len by (simp add: m2_def write_at_def)
  then have d3: "drop 8 m3 = (S_24_16 st @ lp) @ drop 256 m1"
    using lm tmp len by (simp add: m3_def write_at_def)
  have s2416: "slice 248 8 m3 = drop 232 lp"
  proof -
    have "slice 248 8 m3 = take 8 (drop 240 (drop 8 m3))" by (simp add: slice_def)
    then show ?thesis unfolding d3 using len by simp
  qed
  define r where "r = resample_2_3 (S_24_16 st @ lp) 80"
  have "resample_2_3 (drop 8 m3) 80 = r"
    unfolding d3 r_def by (rule resample_2_3_prefix) (simp add: len)
  then have m4: "WebRtcSpl_Resample48khzTo32khz m3 8 0 80 = write_at 0 r m3"
    using Resample48khzTo32khz_in_place [of 0 8 80 m3] lm tmp by simp
  have "slice 0 160 (write_at 0 r m3) = r"
    using slice_write_same [of 0 m3 r] by (simp add: r_def)
  moreover obtain mem' out s4 where dn: "WebRtcSpl_DownBy2IntToShort r 160 (S_16_8 st) = (mem', out, s4)"
    by (metis prod_cases3)
  moreover have "length mem' = 160"
    using dn by (auto simp: WebRtcSpl_DownBy2IntToShort_def Let_def allpass_simps r_def split: prod.splits)
  moreover have "down_int r (S_16_8 st) = (out, s4)"
    using dn by (simp add: down_int_def r_def)
  ultimately show ?thesis
    using lm tmp
    by (simp add: WebRtcSpl_Resample48khzTo8khz_def d_eq lp_eq s2416 m4 pipeline48to8_def r_def
        flip: m1_def m2_def m3_def) (simp add: d_def s1_def lp_def s2_def split_def)
qed

lemma pipeline48to8_props:
  assumes "state48to8_ok st" "length inp = 480"
  shows "length (fst (pipeline48to8 inp st)) = 80" "\<forall>y\<in>set (fst (pipeline48to8 inp st)). in_s16 y"
    "state48to8_ok (snd (pipeline48to8 inp st))"
proof -
  let ?r = "\<lambda>lp. resample_2_3 (S_24_16 st @ lp) 80"
  have "y \<in> set (fst (down_int (?r lp) s)) \<Longrightarrow> in_s16 y" for y lp s
    using down_int_range [of "?r lp" s] by simp
  then show "\<forall>y\<in>set (fst (pipeline48to8 inp st)). in_s16 y"
    unfolding pipeline48to8_def split_def Let_def by auto
  from assms show "length (fst (pipeline48to8 inp st)) = 80"
    and "state48to8_ok (snd (pipeline48to8 inp st))"
    using down_int.run_good lp_int.run_good down_short.run_good
    by (auto simp: pipeline48to8_def split_def Let_def length_down_int state48to8_ok_def
        length_lp_int length_down_short)
qed


subsection \<open>Properties\<close>

text \<open>C35: the polyphase filters are streaming. Cutting a signal into frames (\<open>f4\<close>, of a multiple of four
  samples, for the saturating decimator, \<open>f2\<close>, of even length, for the other decimator and the lowpass filters,
  \<open>f1\<close>, of any length, for the three interpolators) and filtering the frames one after the other
  with the state carried along gives exactly the output and the final state of filtering the
  whole signal at once; for the lowpass filters this includes the one-sample polyphase delay kept
  in \<open>state[12]\<close>. Every call in \<open>resample.c\<close> and \<open>resample_48khz.c\<close> has a length of this form.\<close>

theorem polyphase_filters_streaming:
  assumes "length sf = 8" "length sl = 16" "\<forall>f\<in>set f4. 4 dvd length f" "\<forall>f\<in>set f2. 2 dvd length f"
  shows "down_int (concat f4) sf = run_frames down_int f4 sf \<and>
         down_short (concat f2) sf = run_frames down_short f2 sf \<and>
         lp_short (concat f2) sl = run_frames lp_short f2 sl \<and>
         lp_int (concat f2) sl = run_frames lp_int f2 sl \<and>
         up_short (concat f1) sf = run_frames up_short f1 sf \<and>
         up_int (concat f1) sf = run_frames up_int f1 sf \<and>
         up_int_short (concat f1) sf = run_frames up_int_short f1 sf"
  using down_short.run_concat down_int.run_concat up_short.run_concat up_int.run_concat
    up_int_short.run_concat lp_short.run_concat lp_int.run_concat assms by simp

theorem polyphase_filters_streaming_witness:
  "down_int (concat [[1, 2, 3, 4], [5, 6, 7, 8]]) (replicate 8 0) =
     run_frames down_int [[1, 2, 3, 4], [5, 6, 7, 8]] (replicate 8 0) \<and>
   lp_short (concat [replicate 110 1, replicate 110 2]) (replicate 16 0) =
     run_frames lp_short [replicate 110 1, replicate 110 2] (replicate 16 0) \<and>
   up_int_short (concat [replicate 55 1, replicate 55 2]) (replicate 8 0) =
     run_frames up_int_short [replicate 55 1, replicate 55 2] (replicate 8 0)"
proof -
  have "\<forall>f\<in>set [[1::int, 2, 3, 4], [5, 6, 7, 8]]. 4 dvd length f"
    "\<forall>f\<in>set [replicate 110 (1::int), replicate 110 2]. 2 dvd length f"
    by (code_simp, simp)
  from polyphase_filters_streaming [OF _ _ this, of "replicate 8 0" "replicate 16 0" "[replicate 55 1, replicate 55 2]"]
  show ?thesis by (simp del: concat.simps run_frames.simps)
qed

text \<open>C37: \<open>WebRtcSpl_Resample48khzTo8khz\<close> turns 480 samples into 80 samples of 16 bits. Although it
  runs its four stages in place in one scratch array, output and new state are those of the
  stages on separate arrays, so they do not depend on what the scratch array held.\<close>

theorem resample48to8_in_place:
  assumes "state48to8_ok st" "length inp = 480" "496 \<le> length tmpmem"
    and "WebRtcSpl_Resample48khzTo8khz inp st tmpmem = (out, st', mem)"
  shows "(out, st') = pipeline48to8 inp st \<and> length out = 80 \<and> (\<forall>y\<in>set out. in_s16 y) \<and>
         state48to8_ok st' \<and> length mem = length tmpmem"
  using Resample48khzTo8khz_eq [OF assms(1-3)] pipeline48to8_props [OF assms(1,2)] assms(4)
  by auto

theorem resample48to8_in_place_witness:
  "\<exists>out st' mem. WebRtcSpl_Resample48khzTo8khz (replicate 480 7) WebRtcSpl_ResetResample48khzTo8khz
       (replicate 736 1) = (out, st', mem) \<and> length out = 80 \<and> state48to8_ok st'"
proof -
  obtain out st' mem where call: "WebRtcSpl_Resample48khzTo8khz (replicate 480 7)
      WebRtcSpl_ResetResample48khzTo8khz (replicate 736 1) = (out, st', mem)"
    by (metis prod_cases3)
  have "state48to8_ok WebRtcSpl_ResetResample48khzTo8khz"
    by (simp add: state48to8_ok_def WebRtcSpl_ResetResample48khzTo8khz_def)
  from resample48to8_in_place [OF this _ _ call] call show ?thesis by simp
qed

end
