(* ===== verification/Spl_Resample22.thy ===== *)
theory Spl_Resample22
  imports Spl_Resample
begin

section \<open>Resampling to and from 22 kHz (\<open>resample.c\<close>)\<close>

text \<open>
  The 22 kHz pipelines of \<open>resample.c\<close>. A 10 ms frame is processed in sub blocks to keep the
  scratch array small; in every sub block a polyphase filter, a fractional resampler that works
  in place in the scratch array with eight samples of history, and a second polyphase filter are
  run one after the other. The model keeps the scratch array explicit. The fractional resamplers
  are instances of the locales \<open>block_resampler\<close>, which makes them filters of the interface
  \<open>frame_filter\<close>, and \<open>in_place_resampler\<close>, which lets them overwrite their input; a pipeline is a
  row of such filters (\<open>filter_pair\<close>), and its loop over sub blocks an instance of
  \<open>sub_block_loop\<close>, so cutting the frame into sub blocks makes no difference.
\<close>

subsection \<open>The fractional resamplers\<close>

definition kCoefficients32To22 :: "int list list" where
  "kCoefficients32To22 =
     [[127, -712, 2359, -6333, 23456, 16775, -3695, 945, -154],
      [-39, 230, -830, 2785, 32366, -2324, 760, -218, 38],
      [117, -663, 2222, -6133, 26634, 13070, -3174, 831, -137],
      [-77, 457, -1677, 5958, 31175, -4136, 1405, -408, 71],
      [98, -560, 1900, -5406, 29240, 9423, -2480, 663, -110]]"

text \<open>The two inner products: \<open>in1\<close> runs forwards from position \<open>i1\<close>, \<open>in2\<close> backwards from \<open>i2\<close>.
  The source stores \<open>out1\<close> just before the last read of \<open>in2\<close>, but \<open>out1\<close> (one of \<open>Out[1]\<close> to
  \<open>Out[5]\<close>) lies at least five positions before \<open>In[0]\<close>, so that the pair of results can be
  formed first and stored afterwards (\<open>store2\<close>).\<close>

definition WebRtcSpl_DotProdIntToInt :: "int list \<Rightarrow> nat \<Rightarrow> nat \<Rightarrow> int list \<Rightarrow> int \<times> int" where
  "WebRtcSpl_DotProdIntToInt xs i1 i2 coef =
     (mac 16384 coef (drop i1 xs),
      mac 16384 coef (map (\<lambda>k. xs ! (i2 - k)) [0..<9]))"

definition WebRtcSpl_DotProdIntToShort :: "int list \<Rightarrow> nat \<Rightarrow> nat \<Rightarrow> int list \<Rightarrow> int \<times> int" where
  "WebRtcSpl_DotProdIntToShort xs i1 i2 coef =
     (sat16 (shr (mac 16384 coef (drop i1 xs)) 15),
      sat16 (shr (mac 16384 coef (map (\<lambda>k. xs ! (i2 - k)) [0..<9])) 15))"

text \<open>The loops on one array: \<open>i\<close> and \<open>j\<close> are the positions of \<open>In\<close> and \<open>Out\<close>.\<close>

definition store2 :: "nat \<Rightarrow> nat \<Rightarrow> int \<times> int \<Rightarrow> int list \<Rightarrow> int list" where
  "store2 o1 o2 = (\<lambda>(y1, y2) mem. mem[o1 := y1, o2 := y2])"

fun WebRtcSpl_32khzTo22khzIntToInt :: "int list \<Rightarrow> nat \<Rightarrow> nat \<Rightarrow> nat \<Rightarrow> int list" where
  "WebRtcSpl_32khzTo22khzIntToInt mem i j 0 = mem"
| "WebRtcSpl_32khzTo22khzIntToInt mem i j (Suc K) =
     (let mem = mem[j := add32 (shl32 (mem ! (i + 3)) 15) (2 ^ 14)];
          mem = store2 (j + 1) (j + 10) (WebRtcSpl_DotProdIntToInt (drop i mem) 0 22 (kCoefficients32To22 ! 0)) mem;
          mem = store2 (j + 2) (j + 9) (WebRtcSpl_DotProdIntToInt (drop i mem) 2 20 (kCoefficients32To22 ! 1)) mem;
          mem = store2 (j + 3) (j + 8) (WebRtcSpl_DotProdIntToInt (drop i mem) 3 19 (kCoefficients32To22 ! 2)) mem;
          mem = store2 (j + 4) (j + 7) (WebRtcSpl_DotProdIntToInt (drop i mem) 5 17 (kCoefficients32To22 ! 3)) mem;
          mem = store2 (j + 5) (j + 6) (WebRtcSpl_DotProdIntToInt (drop i mem) 6 16 (kCoefficients32To22 ! 4)) mem
      in WebRtcSpl_32khzTo22khzIntToInt mem (i + 16) (j + 11) K)"

text \<open>The saturating variant writes to another array: its result is the samples written.\<close>

fun WebRtcSpl_32khzTo22khzIntToShort :: "int list \<Rightarrow> nat \<Rightarrow> int list" where
  "WebRtcSpl_32khzTo22khzIntToShort xs 0 = []"
| "WebRtcSpl_32khzTo22khzIntToShort xs (Suc K) =
     (let out0 = sat16 (xs ! 3);
          (out1, out10) = WebRtcSpl_DotProdIntToShort xs 0 22 (kCoefficients32To22 ! 0);
          (out2, out9) = WebRtcSpl_DotProdIntToShort xs 2 20 (kCoefficients32To22 ! 1);
          (out3, out8) = WebRtcSpl_DotProdIntToShort xs 3 19 (kCoefficients32To22 ! 2);
          (out4, out7) = WebRtcSpl_DotProdIntToShort xs 5 17 (kCoefficients32To22 ! 3);
          (out5, out6) = WebRtcSpl_DotProdIntToShort xs 6 16 (kCoefficients32To22 ! 4)
      in [out0, out1, out2, out3, out4, out5, out6, out7, out8, out9, out10] @
         WebRtcSpl_32khzTo22khzIntToShort (drop 16 xs) K)"

text \<open>\<open>WebRtcSpl_Resample44khzTo32khz\<close> is called in place by these pipelines; this is its loop on
  one array, with the stores in the order of the source.\<close>

fun Resample44khzTo32khz_mem :: "int list \<Rightarrow> nat \<Rightarrow> nat \<Rightarrow> nat \<Rightarrow> int list" where
  "Resample44khzTo32khz_mem mem i j 0 = mem"
| "Resample44khzTo32khz_mem mem i j (Suc K) =
     (let mem = mem[j := add32 (shl32 (mem ! (i + 3)) 15) (2 ^ 14)];
          mem = mem[j + 4 := mac (2 ^ 14) (kCoefficients44To32 ! 3) (drop 5 (drop i mem))];
          mem = store2 (j + 1) (j + 7) (WebRtcSpl_ResampDotProduct (drop i mem) 0 17 (kCoefficients44To32 ! 0)) mem;
          mem = store2 (j + 2) (j + 6) (WebRtcSpl_ResampDotProduct (drop i mem) 2 15 (kCoefficients44To32 ! 1)) mem;
          mem = store2 (j + 3) (j + 5) (WebRtcSpl_ResampDotProduct (drop i mem) 3 14 (kCoefficients44To32 ! 2)) mem
      in Resample44khzTo32khz_mem mem (i + 11) (j + 8) K)"

subsection \<open>The pipelines\<close>

record State22khzTo16khz =
  S_22_44 :: "int list"
  S_44_32 :: "int list"
  S22_32_16 :: "int list"

record State16khzTo22khz =
  S22_16_32 :: "int list"
  S_32_22 :: "int list"

record State22khzTo8khz =
  S_22_22 :: "int list"
  S_22_16 :: "int list"
  S22_16_8 :: "int list"

record State8khzTo22khz =
  S22_8_16 :: "int list"
  S_16_11 :: "int list"
  S_11_22 :: "int list"

text \<open>Each loop takes the number of sub blocks left, the rest of the input, the state and the
  scratch array, and returns the output, the state and the scratch array.\<close>

fun loop22To16 :: "nat \<Rightarrow> int list \<Rightarrow> State22khzTo16khz \<Rightarrow> int list \<Rightarrow> int list \<times> State22khzTo16khz \<times> int list" where
  "loop22To16 0 inp state tmpmem = ([], state, tmpmem)"
| "loop22To16 (Suc k) inp state tmpmem =
     (let (up, s2244) = WebRtcSpl_UpBy2ShortToInt inp (220 div 5) (S_22_44 state);
          mem = write_at 16 up tmpmem;
          mem = write_at 8 (S_44_32 state) mem;
          s4432 = slice (440 div 5 + 8) 8 mem;
          mem = Resample44khzTo32khz_mem mem 8 0 (40 div 5);
          (mem', out, s3216) = WebRtcSpl_DownBy2IntToShort (slice 0 (320 div 5) mem) (320 div 5) (S22_32_16 state);
          (outs, state, mem) = loop22To16 k (drop (220 div 5) inp)
             \<lparr>S_22_44 = s2244, S_44_32 = s4432, S22_32_16 = s3216\<rparr> (write_at 0 mem' mem)
      in (out @ outs, state, mem))"

definition WebRtcSpl_Resample22khzTo16khz ::
    "int list \<Rightarrow> State22khzTo16khz \<Rightarrow> int list \<Rightarrow> int list \<times> State22khzTo16khz \<times> int list" where
  "WebRtcSpl_Resample22khzTo16khz inp state tmpmem = loop22To16 5 inp state tmpmem"

definition WebRtcSpl_ResetResample22khzTo16khz :: "State22khzTo16khz" where
  "WebRtcSpl_ResetResample22khzTo16khz =
     \<lparr>S_22_44 = replicate 8 0, S_44_32 = replicate 8 0, S22_32_16 = replicate 8 0\<rparr>"

fun loop16To22 :: "nat \<Rightarrow> int list \<Rightarrow> State16khzTo22khz \<Rightarrow> int list \<Rightarrow> int list \<times> State16khzTo22khz \<times> int list" where
  "loop16To22 0 inp state tmpmem = ([], state, tmpmem)"
| "loop16To22 (Suc k) inp state tmpmem =
     (let (up, s1632) = WebRtcSpl_UpBy2ShortToInt inp (160 div 4) (S22_16_32 state);
          mem = write_at 8 up tmpmem;
          mem = write_at 0 (S_32_22 state) mem;
          s3222 = slice (320 div 4) 8 mem;
          out = WebRtcSpl_32khzTo22khzIntToShort mem (20 div 4);
          (outs, state, mem) = loop16To22 k (drop (160 div 4) inp)
             \<lparr>S22_16_32 = s1632, S_32_22 = s3222\<rparr> mem
      in (out @ outs, state, mem))"

definition WebRtcSpl_Resample16khzTo22khz ::
    "int list \<Rightarrow> State16khzTo22khz \<Rightarrow> int list \<Rightarrow> int list \<times> State16khzTo22khz \<times> int list" where
  "WebRtcSpl_Resample16khzTo22khz inp state tmpmem = loop16To22 4 inp state tmpmem"

definition WebRtcSpl_ResetResample16khzTo22khz :: "State16khzTo22khz" where
  "WebRtcSpl_ResetResample16khzTo22khz = \<lparr>S22_16_32 = replicate 8 0, S_32_22 = replicate 8 0\<rparr>"

fun loop22To8 :: "nat \<Rightarrow> int list \<Rightarrow> State22khzTo8khz \<Rightarrow> int list \<Rightarrow> int list \<times> State22khzTo8khz \<times> int list" where
  "loop22To8 0 inp state tmpmem = ([], state, tmpmem)"
| "loop22To8 (Suc k) inp state tmpmem =
     (let (lp, s2222) = WebRtcSpl_LPBy2ShortToInt inp (220 div 2) (S_22_22 state);
          mem = write_at 16 lp tmpmem;
          mem = write_at 8 (S_22_16 state) mem;
          s2216 = slice (220 div 2 + 8) 8 mem;
          mem = Resample44khzTo32khz_mem mem 8 0 (20 div 2);
          (mem', out, s168) = WebRtcSpl_DownBy2IntToShort (slice 0 (160 div 2) mem) (160 div 2) (S22_16_8 state);
          (outs, state, mem) = loop22To8 k (drop (220 div 2) inp)
             \<lparr>S_22_22 = s2222, S_22_16 = s2216, S22_16_8 = s168\<rparr> (write_at 0 mem' mem)
      in (out @ outs, state, mem))"

definition WebRtcSpl_Resample22khzTo8khz ::
    "int list \<Rightarrow> State22khzTo8khz \<Rightarrow> int list \<Rightarrow> int list \<times> State22khzTo8khz \<times> int list" where
  "WebRtcSpl_Resample22khzTo8khz inp state tmpmem = loop22To8 2 inp state tmpmem"

definition WebRtcSpl_ResetResample22khzTo8khz :: "State22khzTo8khz" where
  "WebRtcSpl_ResetResample22khzTo8khz =
     \<lparr>S_22_22 = replicate 16 0, S_22_16 = replicate 8 0, S22_16_8 = replicate 8 0\<rparr>"

fun loop8To22 :: "nat \<Rightarrow> int list \<Rightarrow> State8khzTo22khz \<Rightarrow> int list \<Rightarrow> int list \<times> State8khzTo22khz \<times> int list" where
  "loop8To22 0 inp state tmpmem = ([], state, tmpmem)"
| "loop8To22 (Suc k) inp state tmpmem =
     (let (up, s816) = WebRtcSpl_UpBy2ShortToInt inp (80 div 2) (S22_8_16 state);
          mem = write_at 18 up tmpmem;
          mem = write_at 10 (S_16_11 state) mem;
          s1611 = slice (160 div 2 + 10) 8 mem;
          mem = WebRtcSpl_32khzTo22khzIntToInt mem 10 0 (10 div 2);
          (out, s1122) = WebRtcSpl_UpBy2IntToShort (slice 0 (110 div 2) mem) (110 div 2) (S_11_22 state);
          (outs, state, mem) = loop8To22 k (drop (80 div 2) inp)
             \<lparr>S22_8_16 = s816, S_16_11 = s1611, S_11_22 = s1122\<rparr> mem
      in (out @ outs, state, mem))"

definition WebRtcSpl_Resample8khzTo22khz ::
    "int list \<Rightarrow> State8khzTo22khz \<Rightarrow> int list \<Rightarrow> int list \<times> State8khzTo22khz \<times> int list" where
  "WebRtcSpl_Resample8khzTo22khz inp state tmpmem = loop8To22 2 inp state tmpmem"

definition WebRtcSpl_ResetResample8khzTo22khz :: "State8khzTo22khz" where
  "WebRtcSpl_ResetResample8khzTo22khz =
     \<lparr>S22_8_16 = replicate 8 0, S_16_11 = replicate 8 0, S_11_22 = replicate 8 0\<rparr>"

subsection \<open>The interface: resampling in blocks with eight samples of history\<close>

text \<open>The result of a fractional resampler on separate arrays, as a function of one block of
  \<open>n\<close> new samples and the seven after them, and the filter it makes with its history.\<close>

fun blocks :: "(int list \<Rightarrow> int list) \<Rightarrow> nat \<Rightarrow> int list \<Rightarrow> nat \<Rightarrow> int list" where
  "blocks f n xs 0 = []"
| "blocks f n xs (Suc K) = f xs @ blocks f n (drop n xs) K"

definition fractional :: "(int list \<Rightarrow> int list) \<Rightarrow> nat \<Rightarrow> int list \<Rightarrow> int list \<Rightarrow> int list \<times> int list" where
  "fractional f n xs st = (blocks f n (st @ xs) (length xs div n), drop (length xs) (st @ xs))"

lemma blocks_add: "blocks f n xs (a + b) = blocks f n xs a @ blocks f n (drop (n * a) xs) b"
  by (induction a arbitrary: xs) (simp_all add: add.commute)

locale block_resampler =
  fixes f :: "int list \<Rightarrow> int list" and n p :: nat
  assumes block_pos: "0 < n"
    and block_length: "length (f xs) = p"
    and block_prefix: "n + 7 \<le> length xs \<Longrightarrow> f (xs @ ys) = f xs"
begin

lemma length_blocks: "length (blocks f n xs K) = p * K"
  by (induction K arbitrary: xs) (simp_all add: block_length)

lemma blocks_prefix: "n * K + 7 \<le> length xs \<Longrightarrow> blocks f n (xs @ ys) K = blocks f n xs K"
proof (induction K arbitrary: xs)
  case (Suc K)
  then have "drop n (xs @ ys) = drop n xs @ ys" by simp
  with Suc show ?case by (simp add: block_prefix del: drop_append)
qed simp

lemma length_fractional: "length (fst (fractional f n xs st)) = p * (length xs div n)"
  by (simp add: fractional_def length_blocks)

end

sublocale block_resampler < frame_filter "fractional f n" n "\<lambda>st. length st = 8"
proof unfold_locales
  fix st xs ys :: "int list"
  assume st: "length st = 8"
  show "fractional f n [] st = ([], st)" by (simp add: fractional_def)
  show "length (snd (fractional f n xs st)) = 8" using st by (simp add: fractional_def)
  assume "n dvd length xs" "n dvd length ys"
  then obtain a b where ab: "length xs = n * a" "length ys = n * b" by (auto elim!: dvdE)
  have history: "drop (n * a) (st @ xs) @ ys = drop (n * a) (st @ xs @ ys)"
    using st ab drop_append [of "n * a" "st @ xs" ys] by simp
  have "blocks f n (st @ xs @ ys) (a + b) =
      blocks f n (st @ xs) a @ blocks f n (drop (n * a) (st @ xs @ ys)) b"
    using st ab blocks_prefix [of a "st @ xs" ys] by (simp add: blocks_add del: drop_append)
  moreover have "drop (n * (a + b)) (st @ xs @ ys) = drop (n * b) (drop (n * a) (st @ xs @ ys))"
    by (simp add: distrib_left add.commute del: drop_append)
  ultimately show "fractional f n (xs @ ys) st =
      (fst (fractional f n xs st) @ fst (fractional f n ys (snd (fractional f n xs st))),
       snd (fractional f n ys (snd (fractional f n xs st))))"
    using ab block_pos
    by (simp add: fractional_def history del: drop_append drop_drop flip: distrib_left)
qed

subsection \<open>Filters in a row\<close>

definition in_row ::
    "('x list \<Rightarrow> 's \<Rightarrow> 'y list \<times> 's) \<Rightarrow> ('y list \<Rightarrow> 't \<Rightarrow> 'z list \<times> 't) \<Rightarrow>
     'x list \<Rightarrow> 's \<times> 't \<Rightarrow> 'z list \<times> ('s \<times> 't)" where
  "in_row F G xs = (\<lambda>(s, t). let (ys, s') = F xs s; (zs, t') = G ys t in (zs, (s', t')))"

locale filter_pair =
  first: frame_filter F m good1 + second: frame_filter G n good2
  for F :: "'x list \<Rightarrow> 's \<Rightarrow> 'y list \<times> 's" and m good1
    and G :: "'y list \<Rightarrow> 't \<Rightarrow> 'z list \<times> 't" and n good2 +
  fixes grain :: nat
  assumes grain_first: "m dvd grain"
    and grain_second: "good1 s \<Longrightarrow> grain dvd length xs \<Longrightarrow> n dvd length (fst (F xs s))"

sublocale filter_pair < frame_filter "in_row F G" grain "\<lambda>(s, t). good1 s \<and> good2 t"
proof unfold_locales
  fix st and xs ys :: "'x list"
  assume "case st of (s, t) \<Rightarrow> good1 s \<and> good2 t"
  then obtain s t where st: "st = (s, t)" "good1 s" "good2 t" by auto
  show "in_row F G [] st = ([], st)"
    using st by (simp add: in_row_def first.run_Nil second.run_Nil)
  assume xs: "grain dvd length xs"
  then have mx: "m dvd length xs" using grain_first by (rule dvd_trans [rotated])
  with xs st show "case snd (in_row F G xs st) of (s, t) \<Rightarrow> good1 s \<and> good2 t"
    by (simp add: in_row_def split_def Let_def first.run_good second.run_good grain_second)
  assume ys: "grain dvd length ys"
  then have "m dvd length ys" using grain_first by (rule dvd_trans [rotated])
  with mx xs ys st show "in_row F G (xs @ ys) st =
      (fst (in_row F G xs st) @ fst (in_row F G ys (snd (in_row F G xs st))),
       snd (in_row F G ys (snd (in_row F G xs st))))"
    by (simp add: in_row_def split_def Let_def first.run_append second.run_append first.run_good
        grain_second)
qed

subsection \<open>The fractional resamplers are block resamplers\<close>

definition block44To32 :: "int list \<Rightarrow> int list" where
  "block44To32 xs =
     (let (y1, y7) = WebRtcSpl_ResampDotProduct xs 0 17 (kCoefficients44To32 ! 0);
          (y2, y6) = WebRtcSpl_ResampDotProduct xs 2 15 (kCoefficients44To32 ! 1);
          (y3, y5) = WebRtcSpl_ResampDotProduct xs 3 14 (kCoefficients44To32 ! 2)
      in [from_short (xs ! 3), y1, y2, y3, mac (2 ^ 14) (kCoefficients44To32 ! 3) (drop 5 xs),
          y5, y6, y7])"

definition block32To22 ::
    "(int \<Rightarrow> int) \<Rightarrow> (int list \<Rightarrow> nat \<Rightarrow> nat \<Rightarrow> int list \<Rightarrow> int \<times> int) \<Rightarrow> int list \<Rightarrow> int list" where
  "block32To22 conv dot xs =
     (let (y1, y10) = dot xs 0 22 (kCoefficients32To22 ! 0);
          (y2, y9) = dot xs 2 20 (kCoefficients32To22 ! 1);
          (y3, y8) = dot xs 3 19 (kCoefficients32To22 ! 2);
          (y4, y7) = dot xs 5 17 (kCoefficients32To22 ! 3);
          (y5, y6) = dot xs 6 16 (kCoefficients32To22 ! 4)
      in [conv (xs ! 3), y1, y2, y3, y4, y5, y6, y7, y8, y9, y10])"

abbreviation block32To22_int :: "int list \<Rightarrow> int list" where
  "block32To22_int \<equiv> block32To22 from_short WebRtcSpl_DotProdIntToInt"

abbreviation block32To22_short :: "int list \<Rightarrow> int list" where
  "block32To22_short \<equiv> block32To22 sat16 WebRtcSpl_DotProdIntToShort"

lemma coefficients44To32_length: "k < 4 \<Longrightarrow> length (kCoefficients44To32 ! k) = 9"
  by (auto simp: kCoefficients44To32_def less_Suc_eq numeral_eq_Suc)

lemma coefficients32To22_length: "k < 5 \<Longrightarrow> length (kCoefficients32To22 ! k) = 9"
  by (auto simp: kCoefficients32To22_def less_Suc_eq numeral_eq_Suc)

lemma DotProd_is_ResampDotProduct:
  "WebRtcSpl_DotProdIntToInt xs i1 i2 c = WebRtcSpl_ResampDotProduct xs i1 i2 c"
  "WebRtcSpl_DotProdIntToShort xs i1 i2 c =
     map_prod (\<lambda>y. sat16 (shr y 15)) (\<lambda>y. sat16 (shr y 15)) (WebRtcSpl_ResampDotProduct xs i1 i2 c)"
  by (simp_all add: WebRtcSpl_DotProdIntToInt_def WebRtcSpl_DotProdIntToShort_def
      WebRtcSpl_ResampDotProduct_def)

lemma dot_append:
  assumes "length c = 9" "i1 + 9 \<le> length xs" "i2 < length xs"
  shows "WebRtcSpl_ResampDotProduct (xs @ ys) i1 i2 c = WebRtcSpl_ResampDotProduct xs i1 i2 c"
proof -
  have "drop i1 (xs @ ys) = drop i1 xs @ ys" using assms by simp
  then show ?thesis
    using assms by (simp add: WebRtcSpl_ResampDotProduct_def mac_append nth_append less_imp_diff_less
        del: drop_append)
qed

lemma dot_tail:
  assumes "drop 1 xs = drop 1 ys" "length xs = length ys" "0 < i1" "9 \<le> i2" "i2 < length ys"
  shows "WebRtcSpl_ResampDotProduct xs i1 i2 c = WebRtcSpl_ResampDotProduct ys i1 i2 c"
proof -
  have eq: "xs ! (i2 - k) = ys ! (i2 - k)" if "k < 9" for k
    using arg_cong [OF assms(1), of "\<lambda>zs. zs ! (i2 - k - 1)"] assms that
    by (simp add: Suc_diff_Suc)
  have "drop i1 xs = drop i1 ys"
    using arg_cong [OF assms(1), of "drop (i1 - 1)"] assms(3) by simp
  moreover have "map (\<lambda>k. xs ! (i2 - k)) [0..<9] = map (\<lambda>k. ys ! (i2 - k)) [0..<9]"
    by (intro map_cong) (simp_all add: eq)
  ultimately show ?thesis
    by (simp only: WebRtcSpl_ResampDotProduct_def)
qed

lemma Resample44khzTo32khz_blocks:
  "WebRtcSpl_Resample44khzTo32khz xs K = blocks block44To32 11 xs K"
  by (induction K arbitrary: xs) (simp_all add: block44To32_def from_short_def Let_def split_def)

lemma Resample32khzTo22khzIntToShort_blocks:
  "WebRtcSpl_32khzTo22khzIntToShort xs K = blocks block32To22_short 16 xs K"
  by (induction K arbitrary: xs) (simp_all add: block32To22_def Let_def split_def)

interpretation to32: block_resampler block44To32 11 8
proof unfold_locales
  fix xs ys :: "int list"
  show "length (block44To32 xs) = 8" by (simp add: block44To32_def Let_def split_def)
  assume len: "11 + 7 \<le> length xs"
  then have "drop 5 (xs @ ys) = drop 5 xs @ ys" by simp
  with len show "block44To32 (xs @ ys) = block44To32 xs"
    by (simp add: block44To32_def dot_append mac_append coefficients44To32_length nth_append
        del: drop_append)
qed simp

lemma block32To22_prefix:
  assumes "16 + 7 \<le> length xs"
  shows "block32To22_int (xs @ ys) = block32To22_int xs"
    "block32To22_short (xs @ ys) = block32To22_short xs"
  using assms
  by (simp_all add: block32To22_def DotProd_is_ResampDotProduct dot_append coefficients32To22_length
      nth_append)

interpretation to22: block_resampler block32To22_int 16 11
  by unfold_locales (simp_all add: block32To22_prefix, simp add: block32To22_def Let_def split_def)

interpretation to22_short: block_resampler block32To22_short 16 11
  by unfold_locales (simp_all add: block32To22_prefix, simp add: block32To22_def Let_def split_def)

subsection \<open>Working in place\<close>

lemma write_at_Nil [simp]: "write_at j [] mem = mem"
  by (simp add: write_at_def)

lemma write_at_Cons: "j < length mem \<Longrightarrow> write_at j (x # xs) mem = write_at (Suc j) xs (mem[j := x])"
  by (simp add: write_at_def take_Suc_conv_app_nth)

lemma write_at_append:
  "j + length xs + length ys \<le> length mem \<Longrightarrow>
     write_at (j + length xs) ys (write_at j xs mem) = write_at j (xs @ ys) mem"
  by (simp add: write_at_def ac_simps)

lemma drop_write_at:
  "j + length xs \<le> i \<Longrightarrow> i \<le> length mem \<Longrightarrow> drop i (write_at j xs mem) = drop i mem"
  by (simp add: write_at_def)

text \<open>A loop \<open>loop mem i j K\<close> works in place when each round has the effect of writing the next
  \<open>p\<close> samples at \<open>j\<close>, as long as \<open>j\<close> stays \<open>gap\<close> positions behind \<open>i\<close>.\<close>

locale in_place_resampler = block_resampler +
  fixes gap :: nat and loop :: "int list \<Rightarrow> nat \<Rightarrow> nat \<Rightarrow> nat \<Rightarrow> int list"
  assumes shrinks: "p \<le> n"
    and loop_0: "loop mem i j 0 = mem"
    and loop_Suc: "j + gap \<le> i \<Longrightarrow> i + n + 7 \<le> length mem \<Longrightarrow>
      loop mem i j (Suc K) = loop (write_at j (f (drop i mem)) mem) (i + n) (j + p) K"
begin

lemma in_place:
  "j + gap \<le> i \<Longrightarrow> i + n * K + 7 \<le> length mem \<Longrightarrow>
     loop mem i j K = write_at j (blocks f n (drop i mem) K) mem"
proof (induction K arbitrary: mem i j)
  case 0
  then show ?case by (simp add: loop_0)
next
  case (Suc K)
  let ?mem = "write_at j (f (drop i mem)) mem"
  have len: "length ?mem = length mem"
    using Suc.prems shrinks by (simp add: block_length)
  have "loop mem i j (Suc K) = loop ?mem (i + n) (j + p) K"
    using Suc.prems by (intro loop_Suc) auto
  also have "\<dots> = write_at (j + p) (blocks f n (drop (i + n) ?mem) K) ?mem"
    using Suc.prems shrinks len by (intro Suc.IH) auto
  also have "drop (i + n) ?mem = drop n (drop i mem)"
    using Suc.prems shrinks by (subst drop_write_at) (auto simp: block_length add.commute)
  also have "write_at (j + p) (blocks f n (drop n (drop i mem)) K) ?mem =
      write_at j (blocks f n (drop i mem) (Suc K)) mem"
  proof -
    have "p * Suc K \<le> n * Suc K" using shrinks by (rule mult_le_mono1)
    then have "j + p + p * K \<le> length mem" using Suc.prems by simp
    then show ?thesis
      using write_at_append [of j "f (drop i mem)" "blocks f n (drop n (drop i mem)) K" mem]
      by (simp add: block_length length_blocks)
  qed
  finally show ?case .
qed

text \<open>A stage of a pipeline: history and new samples are put side by side at \<open>pos\<close>, the last eight
  of them become the new history, and the loop leaves its output at the start of the array.\<close>

lemma stage:
  assumes st: "length st = 8" and xs: "length xs = n * K" and "gap \<le> pos" "p * K \<le> pos + n * K"
    and tmp: "pos + 8 + length xs \<le> length tmp"
  defines "mem \<equiv> write_at pos st (write_at (pos + 8) xs tmp)"
  shows "slice (length xs + pos) 8 mem = snd (fractional f n xs st)"
    and "slice 0 (p * K) (loop mem pos 0 K) = fst (fractional f n xs st)"
    and "length (loop mem pos 0 K) = length tmp"
proof -
  have len: "length mem = length tmp" using st tmp by (simp add: mem_def)
  have dropm: "drop pos mem = (st @ xs) @ drop (pos + 8 + length xs) tmp"
    using st tmp by (simp add: mem_def write_at_def add.commute)
  have "slice (length xs + pos) 8 mem = take 8 (drop (length xs) (drop pos mem))"
    by (simp add: slice_def)
  then show "slice (length xs + pos) 8 mem = snd (fractional f n xs st)"
    unfolding dropm using st by (simp add: fractional_def)
  have "blocks f n (drop pos mem) K = fst (fractional f n xs st)"
    unfolding dropm using st xs block_pos
    by (subst blocks_prefix) (simp_all add: fractional_def)
  moreover have "loop mem pos 0 K = write_at 0 (blocks f n (drop pos mem) K) mem"
    using assms len by (intro in_place) auto
  ultimately have L: "loop mem pos 0 K = write_at 0 (fst (fractional f n xs st)) mem"
    by simp
  have F: "length (fst (fractional f n xs st)) = p * K"
    using xs block_pos by (simp add: length_fractional)
  show "slice 0 (p * K) (loop mem pos 0 K) = fst (fractional f n xs st)"
    unfolding L using slice_write_same [of 0 mem "fst (fractional f n xs st)"] F by simp
  show "length (loop mem pos 0 K) = length tmp"
    unfolding L using F len assms by simp
qed

end

lemma update_write_order:
  assumes "j + 8 \<le> length mem"
  shows "mem[j := a0, j + 4 := a4, j + 1 := a1, j + 7 := a7, j + 2 := a2, j + 6 := a6, j + 3 := a3, j + 5 := a5] =
    write_at j [a0, a1, a2, a3, a4, a5, a6, a7] mem"
  using assms by (simp add: write_at_Cons list_update_swap numeral_eq_Suc)

lemma update_write_order22:
  assumes "j + 11 \<le> length mem"
  shows "mem[j := a0, j + 1 := a1, j + 10 := a10, j + 2 := a2, j + 9 := a9, j + 3 := a3, j + 8 := a8,
      j + 4 := a4, j + 7 := a7, j + 5 := a5, j + 6 := a6] =
    write_at j [a0, a1, a2, a3, a4, a5, a6, a7, a8, a9, a10] mem"
  using assms by (simp add: write_at_Cons list_update_swap numeral_eq_Suc)

interpretation to32_mem: in_place_resampler block44To32 11 8 8 Resample44khzTo32khz_mem
proof unfold_locales
  fix mem :: "int list" and i j K :: nat
  assume "j + 8 \<le> i" "i + 11 + 7 \<le> length mem"
  then show "Resample44khzTo32khz_mem mem i j (Suc K) =
      Resample44khzTo32khz_mem (write_at j (block44To32 (drop i mem)) mem) (i + 11) (j + 8) K"
    using update_write_order [of j mem]
    by (simp add: block44To32_def from_short_def store2_def Let_def split_def nth_append)
qed simp_all

interpretation to22_mem: in_place_resampler block32To22_int 16 11 10 WebRtcSpl_32khzTo22khzIntToInt
proof unfold_locales
  fix mem :: "int list" and i j K :: nat
  assume len: "j + 10 \<le> i" "i + 16 + 7 \<le> length mem"
  have "WebRtcSpl_ResampDotProduct (drop i (mem'[j + 10 := y])) i1 i2 c =
      WebRtcSpl_ResampDotProduct (drop i mem') i1 i2 c"
    if "length mem' = length mem" "0 < i1" "9 \<le> i2" "i2 < 23" for mem' y i1 i2 c
    using len that by (intro dot_tail) auto
  then show "WebRtcSpl_32khzTo22khzIntToInt mem i j (Suc K) =
      WebRtcSpl_32khzTo22khzIntToInt (write_at j (block32To22_int (drop i mem)) mem) (i + 16) (j + 11) K"
    using len update_write_order22 [of j mem]
    by (simp add: block32To22_def from_short_def store2_def Let_def split_def
        DotProd_is_ResampDotProduct)
qed simp_all

subsection \<open>The interface: a frame processed in sub blocks with a scratch array\<close>

text \<open>A loop over sub blocks of \<open>len\<close> samples, in a scratch array of at least \<open>scratch\<close> words, refines
  a filter when one round has the effect of the filter on the next sub block. A caller passes one
  frame after the other, each with a scratch array of its own (\<open>call_frames\<close>).\<close>

fun call_frames ::
    "(int list \<Rightarrow> 'r \<Rightarrow> int list \<Rightarrow> int list \<times> 'r \<times> int list) \<Rightarrow> (int list \<times> int list) list \<Rightarrow> 'r \<Rightarrow>
     int list \<times> 'r" where
  "call_frames f [] st = ([], st)"
| "call_frames f ((inp, tmp) # calls) st =
     (let (out, st, _) = f inp st tmp; (outs, st) = call_frames f calls st in (out @ outs, st))"

locale sub_block_loop = frame_filter run grain good
  for run :: "int list \<Rightarrow> 's \<Rightarrow> int list \<times> 's" and grain good +
  fixes loop :: "nat \<Rightarrow> int list \<Rightarrow> 'r \<Rightarrow> int list \<Rightarrow> int list \<times> 'r \<times> int list"
    and state :: "'s \<Rightarrow> 'r" and len scratch :: nat
  assumes grain_len: "grain dvd len"
    and loop_0: "loop 0 inp st tmp = ([], st, tmp)"
    and loop_Suc: "good s \<Longrightarrow> len \<le> length inp \<Longrightarrow> scratch \<le> length tmp \<Longrightarrow>
      \<exists>tmp'. length tmp' = length tmp \<and> loop (Suc k) inp (state s) tmp =
        (let (out, s1) = run (take len inp) s;
             (outs, st, mem) = loop k (drop len inp) (state s1) tmp'
         in (out @ outs, st, mem))"
begin

lemma loop_run:
  assumes "good s" "length inp = len * k" "scratch \<le> length tmp"
  shows "\<exists>mem. length mem = length tmp \<and>
    loop k inp (state s) tmp = (fst (run inp s), state (snd (run inp s)), mem)"
  using assms
proof (induction k arbitrary: inp s tmp)
  case 0
  then show ?case by (simp add: loop_0 run_Nil)
next
  case (Suc k)
  define s1 where "s1 = snd (run (take len inp) s)"
  have grains: "grain dvd length (take len inp)" "grain dvd length (drop len inp)"
    using Suc.prems grain_len by auto
  have "len \<le> length inp" using Suc.prems by simp
  from loop_Suc [OF Suc.prems(1) this Suc.prems(3)]
  obtain tmp' where tmp': "length tmp' = length tmp" "loop (Suc k) inp (state s) tmp =
      (let (outs, st, mem) = loop k (drop len inp) (state s1) tmp'
       in (fst (run (take len inp) s) @ outs, st, mem))"
    by (auto simp: s1_def split_def Let_def)
  have "good s1" unfolding s1_def using Suc.prems(1) grains(1) by (rule run_good)
  moreover have "length (drop len inp) = len * k" "scratch \<le> length tmp'"
    using Suc.prems tmp'(1) by auto
  ultimately obtain mem where "length mem = length tmp" "loop k (drop len inp) (state s1) tmp' =
      (fst (run (drop len inp) s1), state (snd (run (drop len inp) s1)), mem)"
    using Suc.IH [of s1 "drop len inp" tmp'] tmp'(1) by auto
  moreover have "run inp s = (fst (run (take len inp) s) @ fst (run (drop len inp) s1),
      snd (run (drop len inp) s1))"
    using run_append [OF Suc.prems(1) grains] by (simp add: s1_def)
  ultimately show ?case using tmp'(2) by simp
qed

lemma call_frames_run:
  assumes "good s" "\<forall>(inp, tmp)\<in>set calls. length inp = len * k \<and> scratch \<le> length tmp"
  shows "call_frames (loop k) calls (state s) =
    map_prod id state (run (concat (map fst calls)) s)"
  using assms
proof (induction calls arbitrary: s)
  case Nil
  then show ?case by (simp add: run_Nil)
next
  case (Cons call calls)
  obtain inp tmp where call: "call = (inp, tmp)" by (cases call)
  have inp: "length inp = len * k" "scratch \<le> length tmp" using Cons.prems call by auto
  then obtain mem where "loop k inp (state s) tmp = (fst (run inp s), state (snd (run inp s)), mem)"
    using loop_run [OF Cons.prems(1)] by blast
  moreover have "grain dvd length inp" using inp(1) grain_len by simp
  moreover have "grain dvd length (concat (map fst calls))"
    using Cons.prems(2) grain_len by (induction calls) auto
  moreover have "good (snd (run inp s))"
    using Cons.prems(1) \<open>grain dvd length inp\<close> by (rule run_good)
  ultimately show ?case
    using Cons by (simp add: call run_append split_def map_prod_def)
qed

end

subsection \<open>The pipelines refine their filters in a row\<close>

lemma length_up_short: "length (fst (up_short xs st)) = 2 * length xs"
  by (simp add: up_short_def WebRtcSpl_UpBy2ShortToInt_def Let_def allpass_simps)

lemma length_up_int_short: "length (fst (up_int_short xs st)) = 2 * length xs"
  by (simp add: up_int_short_def WebRtcSpl_UpBy2IntToShort_def Let_def allpass_simps)

lemma length_lp_short: "length (fst (lp_short xs st)) = 2 * (length xs div 2)"
  by (simp add: lp_short_def WebRtcSpl_LPBy2ShortToInt_def lowpass_by_2_def Let_def allpass_simps
      split_def)

lemma UpBy2ShortToInt_take:
  "n \<le> length inp \<Longrightarrow> WebRtcSpl_UpBy2ShortToInt inp n st = up_short (take n inp) st"
  by (simp add: up_short_def WebRtcSpl_UpBy2ShortToInt_def)

lemma LPBy2ShortToInt_take:
  assumes "n \<le> length inp"
  shows "WebRtcSpl_LPBy2ShortToInt inp n st = lp_short (take n inp) st"
proof -
  have "evens (n div 2) (take n inp) = evens (n div 2) inp"
    "odds (n div 2) (take n inp) = odds (n div 2) inp"
    by (auto simp: evens_def odds_def)
  then show ?thesis
    using assms by (simp add: lp_short_def WebRtcSpl_LPBy2ShortToInt_def lowpass_by_2_def)
qed

definition filter22To16 :: "int list \<Rightarrow> int list \<times> int list \<times> int list \<Rightarrow> int list \<times> int list \<times> int list \<times> int list" where
  "filter22To16 = in_row up_short (in_row (fractional block44To32 11) down_int)"

definition filter16To22 :: "int list \<Rightarrow> int list \<times> int list \<Rightarrow> int list \<times> int list \<times> int list" where
  "filter16To22 = in_row up_short (fractional block32To22_short 16)"

definition filter22To8 :: "int list \<Rightarrow> int list \<times> int list \<times> int list \<Rightarrow> int list \<times> int list \<times> int list \<times> int list" where
  "filter22To8 = in_row lp_short (in_row (fractional block44To32 11) down_int)"

definition filter8To22 :: "int list \<Rightarrow> int list \<times> int list \<times> int list \<Rightarrow> int list \<times> int list \<times> int list \<times> int list" where
  "filter8To22 = in_row up_short (in_row (fractional block32To22_int 16) up_int_short)"

interpretation to32_down: filter_pair "fractional block44To32 11" 11 "\<lambda>st. length st = 8"
    down_int 4 "\<lambda>st. length st = 8" 11
  by unfold_locales (auto simp: to32.length_fractional)

interpretation to22_up: filter_pair "fractional block32To22_int 16" 16 "\<lambda>st. length st = 8"
    up_int_short 1 "\<lambda>st. length st = 8" 16
  by unfold_locales auto

interpretation chain22To16: filter_pair up_short 1 "\<lambda>st. length st = 8"
    "in_row (fractional block44To32 11) down_int" 11 "\<lambda>(s, t). length s = 8 \<and> length t = 8" 11
  by unfold_locales (auto simp: length_up_short)

interpretation chain16To22: filter_pair up_short 1 "\<lambda>st. length st = 8"
    "fractional block32To22_short 16" 16 "\<lambda>st. length st = 8" 8
  by unfold_locales (auto simp: length_up_short elim!: dvdE)

interpretation chain22To8: filter_pair lp_short 2 "\<lambda>st. length st = 16"
    "in_row (fractional block44To32 11) down_int" 11 "\<lambda>(s, t). length s = 8 \<and> length t = 8" 22
  by unfold_locales (auto simp: length_lp_short elim!: dvdE)

interpretation chain8To22: filter_pair up_short 1 "\<lambda>st. length st = 8"
    "in_row (fractional block32To22_int 16) up_int_short" 16 "\<lambda>(s, t). length s = 8 \<and> length t = 8" 8
  by unfold_locales (auto simp: length_up_short elim!: dvdE)

definition state22To16 :: "int list \<times> int list \<times> int list \<Rightarrow> State22khzTo16khz" where
  "state22To16 = (\<lambda>(a, b, c). \<lparr>S_22_44 = a, S_44_32 = b, S22_32_16 = c\<rparr>)"

definition state16To22 :: "int list \<times> int list \<Rightarrow> State16khzTo22khz" where
  "state16To22 = (\<lambda>(a, b). \<lparr>S22_16_32 = a, S_32_22 = b\<rparr>)"

definition state22To8 :: "int list \<times> int list \<times> int list \<Rightarrow> State22khzTo8khz" where
  "state22To8 = (\<lambda>(a, b, c). \<lparr>S_22_22 = a, S_22_16 = b, S22_16_8 = c\<rparr>)"

definition state8To22 :: "int list \<times> int list \<times> int list \<Rightarrow> State8khzTo22khz" where
  "state8To22 = (\<lambda>(a, b, c). \<lparr>S22_8_16 = a, S_16_11 = b, S_11_22 = c\<rparr>)"

abbreviation lengths2 :: "nat \<Rightarrow> int list \<times> int list \<Rightarrow> bool" where
  "lengths2 n \<equiv> (\<lambda>(a, b). length a = n \<and> length b = 8)"

abbreviation lengths3 :: "nat \<Rightarrow> int list \<times> int list \<times> int list \<Rightarrow> bool" where
  "lengths3 n \<equiv> (\<lambda>(a, bc). length a = n \<and> (case bc of (b, c) \<Rightarrow> length b = 8 \<and> length c = 8))"

lemma length_DownBy2IntToShort:
  "length inp = len \<Longrightarrow> even len \<Longrightarrow> length (fst (WebRtcSpl_DownBy2IntToShort inp len st)) = len"
  by (auto simp: WebRtcSpl_DownBy2IntToShort_def Let_def allpass_simps elim!: evenE)

text \<open>The second half of the two decimating pipelines: 44 to 32 and decimation by two.\<close>

lemma to32_down_stage:
  fixes up :: "int list"
  assumes "length b = 8" "length up = 11 * K" "16 + length up \<le> length tmp"
  defines "mem \<equiv> write_at 8 b (write_at 16 up tmp)"
  defines "r \<equiv> slice 0 (8 * K) (Resample44khzTo32khz_mem mem 8 0 K)"
  shows "slice (length up + 8) 8 mem = snd (fractional block44To32 11 up b)"
    and "snd (WebRtcSpl_DownBy2IntToShort r (8 * K) c) =
      down_int (fst (fractional block44To32 11 up b)) c"
    and "length (write_at 0 (fst (WebRtcSpl_DownBy2IntToShort r (8 * K) c))
      (Resample44khzTo32khz_mem mem 8 0 K)) = length tmp"
proof -
  have mem: "write_at 8 b (write_at (8 + 8) up tmp) = mem" by (simp add: mem_def)
  note stage = to32_mem.stage [of b up K 8 tmp, unfolded mem]
  show "slice (length up + 8) 8 mem = snd (fractional block44To32 11 up b)"
    using stage(1) assms by simp
  have r: "r = fst (fractional block44To32 11 up b)"
    using stage(2) assms by simp
  then have len: "length r = 8 * K"
    using assms by (simp add: to32.length_fractional)
  then show "snd (WebRtcSpl_DownBy2IntToShort r (8 * K) c) =
      down_int (fst (fractional block44To32 11 up b)) c"
    by (simp add: down_int_def flip: r)
  show "length (write_at 0 (fst (WebRtcSpl_DownBy2IntToShort r (8 * K) c))
      (Resample44khzTo32khz_mem mem 8 0 K)) = length tmp"
    using stage(3) assms len by (simp add: length_DownBy2IntToShort)
qed

interpretation sub22To16: sub_block_loop filter22To16 11 "lengths3 8" loop22To16 state22To16 44 104
  unfolding filter22To16_def
proof unfold_locales
  fix s and inp tmp :: "int list" and k
  assume "lengths3 8 s" and len: "44 \<le> length inp" "104 \<le> length tmp"
  then obtain a b c where s: "s = (a, b, c)" "length a = 8" "length b = 8" "length c = 8" by auto
  define up where "up = fst (up_short (take 44 inp) a)"
  have up: "length up = 88" using len by (simp add: up_def length_up_short)
  show "\<exists>tmp'. length tmp' = length tmp \<and> loop22To16 (Suc k) inp (state22To16 s) tmp =
      (let (out, s1) = in_row up_short (in_row (fractional block44To32 11) down_int) (take 44 inp) s;
           (outs, st, mem) = loop22To16 k (drop 44 inp) (state22To16 s1) tmp'
       in (out @ outs, st, mem))"
    using to32_down_stage [of b up 8 tmp, folded up_def] s len up
    by (simp add: UpBy2ShortToInt_take in_row_def state22To16_def Let_def split_def flip: up_def) blast
qed simp_all

interpretation sub22To8: sub_block_loop filter22To8 22 "lengths3 16" loop22To8 state22To8 110 126
  unfolding filter22To8_def
proof unfold_locales
  fix s and inp tmp :: "int list" and k
  assume "lengths3 16 s" and len: "110 \<le> length inp" "126 \<le> length tmp"
  then obtain a b c where s: "s = (a, b, c)" "length a = 16" "length b = 8" "length c = 8" by auto
  define lp where "lp = fst (lp_short (take 110 inp) a)"
  have lp: "length lp = 110" using len by (simp add: lp_def length_lp_short)
  show "\<exists>tmp'. length tmp' = length tmp \<and> loop22To8 (Suc k) inp (state22To8 s) tmp =
      (let (out, s1) = in_row lp_short (in_row (fractional block44To32 11) down_int) (take 110 inp) s;
           (outs, st, mem) = loop22To8 k (drop 110 inp) (state22To8 s1) tmp'
       in (out @ outs, st, mem))"
    using to32_down_stage [of b lp 10 tmp] s len lp
    by (simp add: LPBy2ShortToInt_take in_row_def state22To8_def Let_def split_def flip: lp_def) blast
qed simp_all

interpretation sub8To22: sub_block_loop filter8To22 8 "lengths3 8" loop8To22 state8To22 40 98
  unfolding filter8To22_def
proof unfold_locales
  fix s and inp tmp :: "int list" and k
  assume "lengths3 8 s" and len: "40 \<le> length inp" "98 \<le> length tmp"
  then obtain a b c where s: "s = (a, b, c)" "length a = 8" "length b = 8" "length c = 8" by auto
  define up where "up = fst (up_short (take 40 inp) a)"
  have up: "length up = 80" using len by (simp add: up_def length_up_short)
  have "WebRtcSpl_UpBy2IntToShort (fst (fractional block32To22_int 16 up b)) 55 c =
      up_int_short (fst (fractional block32To22_int 16 up b)) c"
    using up by (simp add: up_int_short_def to22.length_fractional)
  then show "\<exists>tmp'. length tmp' = length tmp \<and> loop8To22 (Suc k) inp (state8To22 s) tmp =
      (let (out, s1) = in_row up_short (in_row (fractional block32To22_int 16) up_int_short) (take 40 inp) s;
           (outs, st, mem) = loop8To22 k (drop 40 inp) (state8To22 s1) tmp'
       in (out @ outs, st, mem))"
    using to22_mem.stage [of b up 5 10 tmp] s len up
    by (simp add: UpBy2ShortToInt_take in_row_def state8To22_def Let_def split_def flip: up_def) blast
qed simp_all

interpretation sub16To22: sub_block_loop filter16To22 8 "lengths2 8" loop16To22 state16To22 40 88
  unfolding filter16To22_def
proof unfold_locales
  fix s and inp tmp :: "int list" and k
  assume "lengths2 8 s" and len: "40 \<le> length inp" "88 \<le> length tmp"
  then obtain a b where s: "s = (a, b)" "length a = 8" "length b = 8" by auto
  define up where "up = fst (up_short (take 40 inp) a)"
  have up: "length up = 80" using len by (simp add: up_def length_up_short)
  define mem where "mem = write_at 0 b (write_at 8 up tmp)"
  have mem: "mem = (b @ up) @ drop 88 tmp" "length mem = length tmp"
    using s up len by (simp_all add: mem_def write_at_def)
  have "WebRtcSpl_32khzTo22khzIntToShort mem 5 = fst (fractional block32To22_short 16 up b)"
    unfolding Resample32khzTo22khzIntToShort_blocks mem(1) using s up
    by (subst to22_short.blocks_prefix) (simp_all add: fractional_def)
  moreover have "slice 80 8 mem = snd (fractional block32To22_short 16 up b)"
    unfolding mem(1) using s up by (simp add: slice_def fractional_def)
  ultimately show "\<exists>tmp'. length tmp' = length tmp \<and> loop16To22 (Suc k) inp (state16To22 s) tmp =
      (let (out, s1) = in_row up_short (fractional block32To22_short 16) (take 40 inp) s;
           (outs, st, mem) = loop16To22 k (drop 40 inp) (state16To22 s1) tmp'
       in (out @ outs, st, mem))"
    using s len mem(2)
    by (simp add: UpBy2ShortToInt_take in_row_def state16To22_def Let_def split_def
        flip: up_def mem_def) blast
qed simp_all

subsection \<open>Size and range of the output\<close>

lemma length_filter22To16:
  "11 dvd length xs \<Longrightarrow> 11 * length (fst (filter22To16 xs s)) = 8 * length xs"
  by (auto simp: filter22To16_def in_row_def split_def Let_def length_up_short to32.length_fractional
      length_down_int elim!: dvdE)

lemma length_filter22To8:
  "22 dvd length xs \<Longrightarrow> 11 * length (fst (filter22To8 xs s)) = 4 * length xs"
  by (auto simp: filter22To8_def in_row_def split_def Let_def length_lp_short to32.length_fractional
      length_down_int elim!: dvdE)

lemma length_filter16To22:
  "8 dvd length xs \<Longrightarrow> 8 * length (fst (filter16To22 xs s)) = 11 * length xs"
  by (auto simp: filter16To22_def in_row_def split_def Let_def length_up_short
      to22_short.length_fractional elim!: dvdE)

lemma length_filter8To22:
  "8 dvd length xs \<Longrightarrow> 8 * length (fst (filter8To22 xs s)) = 22 * length xs"
  by (auto simp: filter8To22_def in_row_def split_def Let_def length_up_short
      to22.length_fractional length_up_int_short elim!: dvdE)

lemma set_interleave: "set (interleave xs ys) \<subseteq> set xs \<union> set ys"
  by (induction xs ys rule: interleave.induct) auto

lemma up_int_short_range: "y \<in> set (fst (up_int_short xs st)) \<Longrightarrow> in_s16 y"
  using set_interleave
  by (fastforce simp: up_int_short_def WebRtcSpl_UpBy2IntToShort_def Let_def allpass_simps sat16_range)

lemma to22_short_range: "y \<in> set (blocks block32To22_short 16 xs K) \<Longrightarrow> in_s16 y"
  by (induction K arbitrary: xs)
    (auto simp: block32To22_def Let_def split_def DotProd_is_ResampDotProduct sat16_range)

lemma to32_down_range: "y \<in> set (fst (down_int (blocks block44To32 11 xs K) st)) \<Longrightarrow> in_s16 y"
  using down_int_range [of "blocks block44To32 11 xs K" st] by (auto simp: to32.length_blocks)

lemma filter_range:
  "y \<in> set (fst (filter22To16 xs s3)) \<Longrightarrow> in_s16 y"
  "y \<in> set (fst (filter22To8 xs s3)) \<Longrightarrow> in_s16 y"
  "y \<in> set (fst (filter16To22 xs s2)) \<Longrightarrow> in_s16 y"
  "y \<in> set (fst (filter8To22 xs s3)) \<Longrightarrow> in_s16 y"
  using to32_down_range to22_short_range up_int_short_range
  by (auto simp: filter22To16_def filter22To8_def filter16To22_def filter8To22_def in_row_def
      split_def Let_def fractional_def)

subsection \<open>Property\<close>

text \<open>The number of samples of a sequence of frames.\<close>

lemma length_frames:
  "\<forall>(inp, tmp)\<in>set calls. length inp = m \<and> P tmp \<Longrightarrow> length (concat (map fst calls)) = m * length calls"
  by (induction calls) auto

lemma Resample22khz_loops:
  "WebRtcSpl_Resample22khzTo16khz = loop22To16 5" "WebRtcSpl_Resample16khzTo22khz = loop16To22 4"
  "WebRtcSpl_Resample22khzTo8khz = loop22To8 2" "WebRtcSpl_Resample8khzTo22khz = loop8To22 2"
  by (simp_all add: fun_eq_iff WebRtcSpl_Resample22khzTo16khz_def WebRtcSpl_Resample16khzTo22khz_def
      WebRtcSpl_Resample22khzTo8khz_def WebRtcSpl_Resample8khzTo22khz_def)

lemma reset_states:
  "WebRtcSpl_ResetResample22khzTo16khz = state22To16 (replicate 8 0, replicate 8 0, replicate 8 0)"
  "WebRtcSpl_ResetResample16khzTo22khz = state16To22 (replicate 8 0, replicate 8 0)"
  "WebRtcSpl_ResetResample22khzTo8khz = state22To8 (replicate 16 0, replicate 8 0, replicate 8 0)"
  "WebRtcSpl_ResetResample8khzTo22khz = state8To22 (replicate 8 0, replicate 8 0, replicate 8 0)"
  by (simp_all add: WebRtcSpl_ResetResample22khzTo16khz_def WebRtcSpl_ResetResample16khzTo22khz_def
      WebRtcSpl_ResetResample22khzTo8khz_def WebRtcSpl_ResetResample8khzTo22khz_def
      state22To16_def state16To22_def state22To8_def state8To22_def)

text \<open>C36: the 22 kHz pipelines, started from their reset states and called for one 10 ms frame
  after the other, compute their stages in a row on the whole signal, saturated to 16 bits: although
  every call cuts its frame into sub blocks and runs the fractional resampler in place, over its
  own input, the output does not depend on the sub blocks, on the frames or on what the scratch
  arrays held, which have at least the 104, 88, 126 and 98 words \<open>resampler.cc\<close> allocates for 22 to 16, 16 to 22,
  22 to 8 and 8 to 22 kHz; a frame of 220, 160, 220 and 80 samples gives 160, 220, 80 and 220 samples.\<close>

theorem resample22_pipelines:
  assumes "\<forall>(inp, tmp)\<in>set c22. length inp = 220 \<and> 104 \<le> length tmp"
    and "\<forall>(inp, tmp)\<in>set c16. length inp = 160 \<and> 88 \<le> length tmp"
    and "\<forall>(inp, tmp)\<in>set c8. length inp = 80 \<and> 98 \<le> length tmp"
    and "\<forall>(inp, tmp)\<in>set c22'. length inp = 220 \<and> 126 \<le> length tmp"
  defines "y22To16 \<equiv> fst (call_frames WebRtcSpl_Resample22khzTo16khz c22 WebRtcSpl_ResetResample22khzTo16khz)"
    and "y22To8 \<equiv> fst (call_frames WebRtcSpl_Resample22khzTo8khz c22' WebRtcSpl_ResetResample22khzTo8khz)"
    and "y16To22 \<equiv> fst (call_frames WebRtcSpl_Resample16khzTo22khz c16 WebRtcSpl_ResetResample16khzTo22khz)"
    and "y8To22 \<equiv> fst (call_frames WebRtcSpl_Resample8khzTo22khz c8 WebRtcSpl_ResetResample8khzTo22khz)"
    and "z \<equiv> replicate 8 0"
  shows "y22To16 = fst (filter22To16 (concat (map fst c22)) (z, z, z)) \<and>
         y22To8 = fst (filter22To8 (concat (map fst c22')) (z @ z, z, z)) \<and>
         y16To22 = fst (filter16To22 (concat (map fst c16)) (z, z)) \<and>
         y8To22 = fst (filter8To22 (concat (map fst c8)) (z, z, z)) \<and>
         length y22To16 = 160 * length c22 \<and> length y22To8 = 80 * length c22' \<and>
         length y16To22 = 220 * length c16 \<and> length y8To22 = 220 * length c8 \<and>
         (\<forall>y\<in>set (y22To16 @ y22To8 @ y16To22 @ y8To22). in_s16 y)"
proof -
  have z16: "z @ z = replicate 16 0" by (simp add: z_def flip: replicate_add)
  have c22: "\<forall>(inp, tmp)\<in>set c22. length inp = 44 * 5 \<and> 104 \<le> length tmp"
    "\<forall>(inp, tmp)\<in>set c22'. length inp = 110 * 2 \<and> 126 \<le> length tmp"
    and c16: "\<forall>(inp, tmp)\<in>set c16. length inp = 40 * 4 \<and> 88 \<le> length tmp"
    and c8: "\<forall>(inp, tmp)\<in>set c8. length inp = 40 * 2 \<and> 98 \<le> length tmp"
    using assms(1-4) by auto
  have run: "y22To16 = fst (filter22To16 (concat (map fst c22)) (z, z, z))"
    "y22To8 = fst (filter22To8 (concat (map fst c22')) (z @ z, z, z))"
    "y16To22 = fst (filter16To22 (concat (map fst c16)) (z, z))"
    "y8To22 = fst (filter8To22 (concat (map fst c8)) (z, z, z))"
    unfolding y22To16_def y22To8_def y16To22_def y8To22_def Resample22khz_loops reset_states z16
    by (subst sub22To16.call_frames_run [OF _ c22(1)] sub22To8.call_frames_run [OF _ c22(2)]
        sub16To22.call_frames_run [OF _ c16] sub8To22.call_frames_run [OF _ c8]; simp add: z_def)+
  note lens = length_frames [OF assms(1)] length_frames [OF assms(2)] length_frames [OF assms(3)] length_frames [OF assms(4)]
  have "length y22To16 = 160 * length c22" "length y22To8 = 80 * length c22'"
    "length y16To22 = 220 * length c16" "length y8To22 = 220 * length c8"
    using length_filter22To16 [of "concat (map fst c22)" "(z, z, z)"]
      length_filter22To8 [of "concat (map fst c22')" "(z @ z, z, z)"]
      length_filter16To22 [of "concat (map fst c16)" "(z, z)"]
      length_filter8To22 [of "concat (map fst c8)" "(z, z, z)"]
    unfolding lens run by (simp_all add: dvd_mult2)
  moreover have "\<forall>y\<in>set (y22To16 @ y22To8 @ y16To22 @ y8To22). in_s16 y"
    unfolding run using filter_range by auto
  ultimately show ?thesis using run by blast
qed

theorem resample22_pipelines_witness:
  "length (fst (call_frames WebRtcSpl_Resample22khzTo16khz
       [(replicate 220 7, replicate 104 1), (replicate 220 9, replicate 104 2)]
       WebRtcSpl_ResetResample22khzTo16khz)) = 320 \<and>
   length (fst (call_frames WebRtcSpl_Resample22khzTo8khz [(replicate 220 6, replicate 126 4)]
       WebRtcSpl_ResetResample22khzTo8khz)) = 80 \<and>
   length (fst (call_frames WebRtcSpl_Resample8khzTo22khz [(replicate 80 5, replicate 98 3)]
       WebRtcSpl_ResetResample8khzTo22khz)) = 220"
proof -
  define c22 :: "(int list \<times> int list) list" where
    "c22 = [(replicate 220 7, replicate 104 1), (replicate 220 9, replicate 104 2)]"
  define c16 :: "(int list \<times> int list) list" where "c16 = [(replicate 160 4, replicate 88 1)]"
  define c8 :: "(int list \<times> int list) list" where "c8 = [(replicate 80 5, replicate 98 3)]"
  define c22' :: "(int list \<times> int list) list" where "c22' = [(replicate 220 6, replicate 126 4)]"
  have "\<forall>(inp, tmp)\<in>set c22. length inp = 220 \<and> 104 \<le> length tmp"
    "\<forall>(inp, tmp)\<in>set c16. length inp = 160 \<and> 88 \<le> length tmp"
    "\<forall>(inp, tmp)\<in>set c8. length inp = 80 \<and> 98 \<le> length tmp"
    "\<forall>(inp, tmp)\<in>set c22'. length inp = 220 \<and> 126 \<le> length tmp"
    by (simp_all add: c22_def c16_def c8_def c22'_def)
  note resample22_pipelines [OF this]
  moreover have "length c22 = 2" "length c8 = 1" "length c22' = 1" by (simp_all add: c22_def c8_def c22'_def)
  ultimately show ?thesis unfolding c22_def [symmetric] c8_def [symmetric] c22'_def [symmetric] by auto
qed

end
