(* ===== verification/Spl_Vector.thy ===== *)
theory Spl_Vector
  imports Spl_Basic
begin

section \<open>Signal processing library: vector routines\<close>

text \<open>
  \<open>min_max_operations.c\<close>, \<open>copy_set_operations.c\<close>, \<open>vector_scaling_operations.c\<close>,
  \<open>auto_correlation.c\<close>, \<open>cross_correlation.c\<close> and \<open>downsample_fast.c\<close>, in their C versions for
  generic platforms. A pointer with a length is a list and the number of elements the routine
  visits. The searches for an extremum and its first index share one loop shape, whose
  correctness is proved once in the locale \<open>extremum\<close> for an arbitrary strict linear order and
  interpreted for \<open>>\<close> and \<open><\<close>.
\<close>

subsection \<open>Minimum and maximum (\<open>min_max_operations.c\<close>)\<close>

fun value_loop :: "(int \<Rightarrow> int \<Rightarrow> bool) \<Rightarrow> int list \<Rightarrow> int \<Rightarrow> int" where
  "value_loop better [] best = best"
| "value_loop better (x # xs) best =
     (if better x best then value_loop better xs x else value_loop better xs best)"

fun index_loop :: "(int \<Rightarrow> int \<Rightarrow> bool) \<Rightarrow> int list \<Rightarrow> nat \<Rightarrow> nat \<Rightarrow> int \<Rightarrow> nat" where
  "index_loop better [] i index best = index"
| "index_loop better (x # xs) i index best =
     (if better x best then index_loop better xs (Suc i) i x
      else index_loop better xs (Suc i) index best)"

definition WebRtcSpl_MaxAbsValueW16C :: "int list \<Rightarrow> nat \<Rightarrow> int" where
  "WebRtcSpl_MaxAbsValueW16C vector n =
     (let maximum = value_loop (>) (map abs (take n vector)) 0;
          maximum = (if maximum > 32767 then 32767 else maximum)
      in s16 maximum)"

definition WebRtcSpl_MaxAbsValueW32C :: "int list \<Rightarrow> nat \<Rightarrow> int" where
  "WebRtcSpl_MaxAbsValueW32C vector n =
     (let maximum = value_loop (>) (map (\<lambda>v. u32 (s32 \<bar>v\<bar>)) (take n vector)) 0
      in s32 (min maximum 2147483647))"

definition WebRtcSpl_MaxValueW16C :: "int list \<Rightarrow> nat \<Rightarrow> int" where
  "WebRtcSpl_MaxValueW16C vector n = value_loop (>) (take n vector) (-32768)"

definition WebRtcSpl_MaxValueW32C :: "int list \<Rightarrow> nat \<Rightarrow> int" where
  "WebRtcSpl_MaxValueW32C vector n = value_loop (>) (take n vector) (-2147483648)"

definition WebRtcSpl_MinValueW16C :: "int list \<Rightarrow> nat \<Rightarrow> int" where
  "WebRtcSpl_MinValueW16C vector n = value_loop (<) (take n vector) 32767"

definition WebRtcSpl_MinValueW32C :: "int list \<Rightarrow> nat \<Rightarrow> int" where
  "WebRtcSpl_MinValueW32C vector n = value_loop (<) (take n vector) 2147483647"

definition WebRtcSpl_MaxAbsIndexW16 :: "int list \<Rightarrow> nat \<Rightarrow> nat" where
  "WebRtcSpl_MaxAbsIndexW16 vector n = index_loop (>) (map abs (take n vector)) 0 0 0"

definition WebRtcSpl_MaxIndexW16 :: "int list \<Rightarrow> nat \<Rightarrow> nat" where
  "WebRtcSpl_MaxIndexW16 vector n = index_loop (>) (take n vector) 0 0 (-32768)"

definition WebRtcSpl_MaxIndexW32 :: "int list \<Rightarrow> nat \<Rightarrow> nat" where
  "WebRtcSpl_MaxIndexW32 vector n = index_loop (>) (take n vector) 0 0 (-2147483648)"

definition WebRtcSpl_MinIndexW16 :: "int list \<Rightarrow> nat \<Rightarrow> nat" where
  "WebRtcSpl_MinIndexW16 vector n = index_loop (<) (take n vector) 0 0 32767"

definition WebRtcSpl_MinIndexW32 :: "int list \<Rightarrow> nat \<Rightarrow> nat" where
  "WebRtcSpl_MinIndexW32 vector n = index_loop (<) (take n vector) 0 0 2147483647"

subsection \<open>Copying and setting (\<open>copy_set_operations.c\<close>)\<close>

text \<open>Writes outside the array are undefined behaviour: \<open>None\<close>.\<close>

fun memset_loop :: "nat \<Rightarrow> nat \<Rightarrow> int \<Rightarrow> int list \<Rightarrow> int list option" where
  "memset_loop 0 pos set_value arr = Some arr"
| "memset_loop (Suc j) pos set_value arr =
     (if pos < length arr then memset_loop j (Suc pos) set_value (arr[pos := set_value]) else None)"

definition WebRtcSpl_MemSetW16 :: "int list \<Rightarrow> int \<Rightarrow> nat \<Rightarrow> int list option" where
  "WebRtcSpl_MemSetW16 ptr set_value n = memset_loop n 0 set_value ptr"

definition WebRtcSpl_MemSetW32 :: "int list \<Rightarrow> int \<Rightarrow> nat \<Rightarrow> int list option" where
  "WebRtcSpl_MemSetW32 ptr set_value n = memset_loop n 0 set_value ptr"

text \<open>\<open>dest\<close> points into an array \<open>arr\<close> and moves down from position \<open>pos\<close>.\<close>

fun reversed_loop :: "int list \<Rightarrow> int \<Rightarrow> int list \<Rightarrow> int list option" where
  "reversed_loop arr pos [] = Some arr"
| "reversed_loop arr pos (x # source) =
     (if 0 \<le> pos \<and> nat pos < length arr then reversed_loop (arr[nat pos := x]) (pos - 1) source
      else None)"

definition WebRtcSpl_MemCpyReversedOrder ::
    "int list \<Rightarrow> int \<Rightarrow> int list \<Rightarrow> nat \<Rightarrow> int list option" where
  "WebRtcSpl_MemCpyReversedOrder arr dest source n =
     (if n \<le> length source then reversed_loop arr dest (take n source) else None)"

definition WebRtcSpl_CopyFromEndW16 ::
    "int list \<Rightarrow> nat \<Rightarrow> nat \<Rightarrow> int list \<Rightarrow> int list option" where
  "WebRtcSpl_CopyFromEndW16 vector_in n samples vector_out =
     memcpy_to vector_out 0 vector_in (size_sub n samples) samples"

definition WebRtcSpl_ZerosArrayW16 :: "int list \<Rightarrow> nat \<Rightarrow> int list option" where
  "WebRtcSpl_ZerosArrayW16 vector n = WebRtcSpl_MemSetW16 vector 0 n"

definition WebRtcSpl_ZerosArrayW32 :: "int list \<Rightarrow> nat \<Rightarrow> int list option" where
  "WebRtcSpl_ZerosArrayW32 vector n = WebRtcSpl_MemSetW32 vector 0 n"

subsection \<open>Scaling (\<open>vector_scaling_operations.c\<close>)\<close>

text \<open>The results are the elements written, in order; every output element depends on the inputs
  at its own position only, so the result array may be the input array.\<close>

definition WebRtcSpl_VectorBitShiftW16 :: "nat \<Rightarrow> int list \<Rightarrow> int \<Rightarrow> int list" where
  "WebRtcSpl_VectorBitShiftW16 n xs right_shifts =
     (if right_shifts > 0 then map (\<lambda>x. s16 (shr x (nat right_shifts))) (take n xs)
      else map (\<lambda>x. s16 (mul32 x (shl32 1 (nat (- right_shifts))))) (take n xs))"

definition WebRtcSpl_VectorBitShiftW32 :: "nat \<Rightarrow> int list \<Rightarrow> int \<Rightarrow> int list" where
  "WebRtcSpl_VectorBitShiftW32 n xs right_shifts =
     (if right_shifts > 0 then map (\<lambda>x. shr x (nat right_shifts)) (take n xs)
      else map (\<lambda>x. shl32 x (nat (- right_shifts))) (take n xs))"

definition WebRtcSpl_VectorBitShiftW32ToW16 :: "nat \<Rightarrow> int list \<Rightarrow> int \<Rightarrow> int list" where
  "WebRtcSpl_VectorBitShiftW32ToW16 n xs right_shifts =
     (if right_shifts \<ge> 0
      then map (\<lambda>x. WebRtcSpl_SatW32ToW16 (shr x (nat right_shifts))) (take n xs)
      else map (\<lambda>x. WebRtcSpl_SatW32ToW16 (shl32 x (nat (- right_shifts)))) (take n xs))"

definition WebRtcSpl_ScaleVector :: "int list \<Rightarrow> int \<Rightarrow> nat \<Rightarrow> nat \<Rightarrow> int list" where
  "WebRtcSpl_ScaleVector in_vector gain n right_shifts =
     map (\<lambda>x. s16 (shr (mul32 x gain) right_shifts)) (take n in_vector)"

definition WebRtcSpl_ScaleVectorWithSat :: "int list \<Rightarrow> int \<Rightarrow> nat \<Rightarrow> nat \<Rightarrow> int list" where
  "WebRtcSpl_ScaleVectorWithSat in_vector gain n right_shifts =
     map (\<lambda>x. WebRtcSpl_SatW32ToW16 (shr (mul32 x gain) right_shifts)) (take n in_vector)"

definition WebRtcSpl_ScaleAndAddVectors ::
    "int list \<Rightarrow> int \<Rightarrow> nat \<Rightarrow> int list \<Rightarrow> int \<Rightarrow> nat \<Rightarrow> nat \<Rightarrow> int list" where
  "WebRtcSpl_ScaleAndAddVectors in1 gain1 shift1 in2 gain2 shift2 n =
     map2 (\<lambda>x y. s16 (s16 (shr (mul32 gain1 x) shift1) + s16 (shr (mul32 gain2 y) shift2)))
       (take n in1) (take n in2)"

text \<open>A null pointer is \<open>None\<close>; the result is the return value and the elements written.\<close>

definition WebRtcSpl_ScaleAndAddVectorsWithRoundC ::
    "int list option \<Rightarrow> int \<Rightarrow> int list option \<Rightarrow> int \<Rightarrow> int \<Rightarrow> bool \<Rightarrow> nat \<Rightarrow> int \<times> int list" where
  "WebRtcSpl_ScaleAndAddVectorsWithRoundC in_vector1 scale1 in_vector2 scale2 right_shifts
     out_is_null n =
     (case (in_vector1, in_vector2) of
        (Some xs, Some ys) \<Rightarrow>
          if out_is_null \<or> n = 0 \<or> right_shifts < 0 then (-1, [])
          else let round_value = shr (shl32 1 (nat right_shifts)) 1
               in (0, map2 (\<lambda>x y. s16 (shr (add32 (add32 (mul32 x scale1) (mul32 y scale2))
                                      round_value) (nat right_shifts))) (take n xs) (take n ys))
      | _ \<Rightarrow> (-1, []))"

subsection \<open>Correlations (\<open>auto_correlation.c\<close>, \<open>cross_correlation.c\<close>)\<close>

definition corr_add :: "int list \<Rightarrow> nat \<Rightarrow> nat \<Rightarrow> nat \<Rightarrow> int \<Rightarrow> int" where
  "corr_add xs i scaling j acc = add32 acc (shr (mul32 (xs ! j) (xs ! (i + j))) scaling)"

function corr_unrolled :: "int list \<Rightarrow> nat \<Rightarrow> nat \<Rightarrow> nat \<Rightarrow> nat \<Rightarrow> int \<Rightarrow> nat \<times> int" where
  "corr_unrolled xs n i scaling j acc =
     (if i + j + 3 < n
      then corr_unrolled xs n i scaling (j + 4)
             (corr_add xs i scaling (j + 3) (corr_add xs i scaling (j + 2)
               (corr_add xs i scaling (j + 1) (corr_add xs i scaling j acc))))
      else (j, acc))"
  by pat_completeness auto
termination
  by (relation "measure (\<lambda>(xs, n, i, scaling, j, acc). n - j)") auto

declare corr_unrolled.simps [simp del]

function corr_rest :: "int list \<Rightarrow> nat \<Rightarrow> nat \<Rightarrow> nat \<Rightarrow> nat \<Rightarrow> int \<Rightarrow> int" where
  "corr_rest xs n i scaling j acc =
     (if j < n - i then corr_rest xs n i scaling (Suc j) (corr_add xs i scaling j acc) else acc)"
  by pat_completeness auto
termination
  by (relation "measure (\<lambda>(xs, n, i, scaling, j, acc). n - j)") auto

declare corr_rest.simps [simp del]

definition corr_lag :: "int list \<Rightarrow> nat \<Rightarrow> nat \<Rightarrow> nat \<Rightarrow> int" where
  "corr_lag xs n scaling i =
     (let (j, acc) = corr_unrolled xs n i scaling 0 0 in corr_rest xs n i scaling j acc)"

definition corr_scaling :: "int list \<Rightarrow> nat \<Rightarrow> int" where
  "corr_scaling xs n =
     (let smax = WebRtcSpl_MaxAbsValueW16C xs n
      in if smax = 0 then 0
         else let nbits = WebRtcSpl_GetSizeInBits (u32 (int n));
                  t = WebRtcSpl_NormW32 (mul32 smax smax)
              in if t > nbits then 0 else nbits - t)"

text \<open>The result is the correlations written, the scale factor and the return value. A lag or
  length outside the vector is undefined (the source has a debug check): \<open>None\<close>.\<close>

definition WebRtcSpl_AutoCorrelation ::
    "int list \<Rightarrow> nat \<Rightarrow> nat \<Rightarrow> (int list \<times> int \<times> nat) option" where
  "WebRtcSpl_AutoCorrelation in_vector n order =
     (if order \<le> n \<and> n \<le> length in_vector
      then let scaling = corr_scaling in_vector n
           in Some (map (corr_lag in_vector n (nat scaling)) [0..<order + 1], scaling, order + 1)
      else None)"

text \<open>\<open>seq2\<close> points to position \<open>pos\<close> of the array \<open>arr\<close>, and is moved by \<open>step_seq2\<close> after each
  lag; a read outside the arrays is undefined: \<open>None\<close>.\<close>

fun cross_loop :: "nat \<Rightarrow> int list \<Rightarrow> int list \<Rightarrow> int \<Rightarrow> nat \<Rightarrow> nat \<Rightarrow> int \<Rightarrow> int option" where
  "cross_loop 0 seq1 arr pos j right_shifts corr = Some corr"
| "cross_loop (Suc k) seq1 arr pos j right_shifts corr =
     (if j < length seq1 \<and> 0 \<le> pos + int j \<and> pos + int j < int (length arr)
      then cross_loop k seq1 arr pos (Suc j) right_shifts
             (add32 corr (shr (mul32 (seq1 ! j) (arr ! nat (pos + int j))) right_shifts))
      else None)"

fun WebRtcSpl_CrossCorrelationC ::
    "int list \<Rightarrow> int list \<Rightarrow> int \<Rightarrow> nat \<Rightarrow> nat \<Rightarrow> nat \<Rightarrow> int \<Rightarrow> int list option" where
  "WebRtcSpl_CrossCorrelationC seq1 arr pos dim_seq 0 right_shifts step_seq2 = Some []"
| "WebRtcSpl_CrossCorrelationC seq1 arr pos dim_seq (Suc k) right_shifts step_seq2 =
     (case cross_loop dim_seq seq1 arr pos 0 right_shifts 0 of
        None \<Rightarrow> None
      | Some corr \<Rightarrow>
          map_option ((#) corr)
            (WebRtcSpl_CrossCorrelationC seq1 arr (pos + step_seq2) dim_seq k right_shifts step_seq2))"

subsection \<open>Filtering with decimation (\<open>downsample_fast.c\<close>)\<close>

text \<open>\<open>data_in\<close> points to position \<open>base\<close> of the array \<open>arr\<close>: the filter state lies before it.
  A read outside the array is undefined: \<open>None\<close>.\<close>

fun downsample_tap :: "int list \<Rightarrow> nat \<Rightarrow> int list \<Rightarrow> nat \<Rightarrow> nat \<Rightarrow> int \<Rightarrow> int option" where
  "downsample_tap arr base [] i j out_s32 = Some out_s32"
| "downsample_tap arr base (c # coefficients) i j out_s32 =
     (let k = int base + int i - int j
      in if 0 \<le> k \<and> k < int (length arr)
         then downsample_tap arr base coefficients i (Suc j) (add32 out_s32 (mul32 c (arr ! nat k)))
         else None)"

text \<open>The loop ends when \<open>i\<close> reaches \<open>endpos\<close>; with the factor 0 it would never end, so it is a
  partial function, and \<open>None\<close> is also the value of a loop that does not end.\<close>

partial_function (option) downsample_loop ::
    "int list \<Rightarrow> nat \<Rightarrow> int list \<Rightarrow> nat \<Rightarrow> nat \<Rightarrow> nat \<Rightarrow> int list option" where
  "downsample_loop arr base coefficients factor endpos i =
     (if i < endpos then
        Option.bind (downsample_tap arr base coefficients i 0 2048) (\<lambda>out_s32.
          Option.bind (downsample_loop arr base coefficients factor endpos (size_add i factor))
            (\<lambda>out. Some (WebRtcSpl_SatW32ToW16 (shr out_s32 12) # out)))
      else Some [])"

declare downsample_loop.simps [code]

definition downsample_endpos :: "nat \<Rightarrow> int \<Rightarrow> nat \<Rightarrow> nat" where
  "downsample_endpos data_out_length factor delay =
     size_add (size_add delay (size_mul (nat (u64 factor)) (size_sub data_out_length 1))) 1"

definition WebRtcSpl_DownsampleFastC ::
    "int list \<Rightarrow> nat \<Rightarrow> nat \<Rightarrow> nat \<Rightarrow> int list \<Rightarrow> int \<Rightarrow> nat \<Rightarrow> (int \<times> int list) option" where
  "WebRtcSpl_DownsampleFastC arr base data_in_length data_out_length coefficients factor delay =
     (let endpos = downsample_endpos data_out_length factor delay
      in if data_out_length = 0 \<or> coefficients = [] \<or> data_in_length < endpos then Some (-1, [])
         else map_option (Pair 0)
                (downsample_loop arr base coefficients (nat (u64 factor)) endpos delay))"

subsection \<open>Extrema\<close>

definition is_first :: "nat \<Rightarrow> int list \<Rightarrow> int \<Rightarrow> bool" where
  "is_first k xs b \<longleftrightarrow> k < length xs \<and> xs ! k = b \<and> (\<forall>j<k. xs ! j \<noteq> b)"

lemma is_first_Cons:
  "is_first 0 (x # xs) b \<longleftrightarrow> x = b"
  "is_first (Suc k) (x # xs) b \<longleftrightarrow> x \<noteq> b \<and> is_first k xs b"
  by (auto simp: is_first_def nth_Cons split: nat.splits)

locale extremum =
  fixes better :: "int \<Rightarrow> int \<Rightarrow> bool"
  assumes irrefl: "\<not> better x x"
    and better_trans: "better x y \<Longrightarrow> better y z \<Longrightarrow> better x z"
    and linear: "x = y \<or> better x y \<or> better y x"
begin

definition is_best :: "int \<Rightarrow> int set \<Rightarrow> bool" where
  "is_best b S \<longleftrightarrow> b \<in> S \<and> (\<forall>y\<in>S. \<not> better y b)"

lemma value_loop_best: "is_best (value_loop better xs b) (insert b (set xs))"
proof (induction xs arbitrary: b)
  case (Cons x xs)
  show ?case
  proof (cases "better x b")
    case True
    then have "\<not> better b (value_loop better xs x)"
      using Cons.IH [of x] irrefl better_trans linear unfolding is_best_def by (metis insertI1)
    with True Cons.IH [of x] show ?thesis by (auto simp: is_best_def)
  next
    case False
    then have "\<not> better x (value_loop better xs b)"
      using Cons.IH [of b] irrefl better_trans linear unfolding is_best_def by (metis insertI1)
    with False Cons.IH [of b] show ?thesis by (auto simp: is_best_def)
  qed
qed (simp add: is_best_def irrefl)

lemma value_loop_init:
  assumes "xs \<noteq> []" and "\<And>x. x \<in> set xs \<Longrightarrow> \<not> better b x"
  shows "is_best (value_loop better xs b) (set xs)"
proof -
  have best: "is_best (value_loop better xs b) (insert b (set xs))" by (rule value_loop_best)
  obtain x where x: "x \<in> set xs" using assms(1) by (cases xs) auto
  show ?thesis
  proof (cases "value_loop better xs b = b")
    case True
    then have "x = b" using best assms(2) [OF x] x linear [of x b] by (auto simp: is_best_def)
    with best x show ?thesis by (auto simp: is_best_def)
  next
    case False
    with best show ?thesis by (auto simp: is_best_def)
  qed
qed

lemma best_unique: "is_best a S \<Longrightarrow> is_best b S \<Longrightarrow> a = b"
  using linear unfolding is_best_def by metis

lemma index_loop_value:
  "index_loop better xs i index b = index \<and> value_loop better xs b = b \<or>
   (\<exists>k. index_loop better xs i index b = i + k \<and> value_loop better xs b \<noteq> b \<and>
        is_first k xs (value_loop better xs b))"
proof (induction xs arbitrary: i index b)
  case (Cons x xs)
  show ?case
  proof (cases "better x b")
    case True
    let ?v = "value_loop better xs x"
    have "\<not> better x ?v" using value_loop_best [of xs x] by (simp add: is_best_def)
    then have "?v \<noteq> b" using True by auto
    from Cons.IH [of "Suc i" i x] consider
        "index_loop better xs (Suc i) i x = i" "?v = x"
      | k where "index_loop better xs (Suc i) i x = Suc i + k" "?v \<noteq> x" "is_first k xs ?v"
      by blast
    then show ?thesis
    proof cases
      case 1
      with True \<open>?v \<noteq> b\<close> show ?thesis by (auto simp: is_first_Cons intro!: exI [of _ 0])
    next
      case 2
      with True \<open>?v \<noteq> b\<close> show ?thesis by (auto simp: is_first_Cons intro!: exI [of _ "Suc k"])
    qed
  next
    case False
    let ?v = "value_loop better xs b"
    from Cons.IH [of "Suc i" index b] consider
        "index_loop better xs (Suc i) index b = index" "?v = b"
      | k where "index_loop better xs (Suc i) index b = Suc i + k" "?v \<noteq> b" "is_first k xs ?v"
      by blast
    then show ?thesis
    proof cases
      case 2
      have "better ?v b"
        using value_loop_best [of xs b] 2(2) linear by (auto simp: is_best_def)
      with False have "x \<noteq> ?v" by auto
      with 2 False show ?thesis by (auto simp: is_first_Cons intro!: exI [of _ "Suc k"])
    qed (use False in simp)
  qed
qed simp

lemma index_loop_first:
  assumes "xs \<noteq> []" and "\<And>x. x \<in> set xs \<Longrightarrow> \<not> better b x"
  shows "is_first (index_loop better xs 0 0 b) xs (value_loop better xs b)"
proof -
  have best: "is_best (value_loop better xs b) (set xs)"
    using assms by (rule value_loop_init)
  from index_loop_value [of xs 0 0 b] show ?thesis
  proof
    assume z: "index_loop better xs 0 0 b = 0 \<and> value_loop better xs b = b"
    have "hd xs \<in> set xs" using assms(1) by simp
    with best z assms(2) [OF this] have "hd xs = b"
      using linear [of "hd xs" b] by (auto simp: is_best_def)
    with z assms(1) show ?thesis by (cases xs) (auto simp: is_first_Cons)
  qed auto
qed

end

lemma extremum_greater: "extremum (>)"
  by unfold_locales auto

lemma extremum_less: "extremum (<)"
  by unfold_locales auto

interpretation greatest: extremum "(>)"
  by (rule extremum_greater)

interpretation least: extremum "(<)"
  by (rule extremum_less)

lemma greatest_is_best: "finite S \<Longrightarrow> greatest.is_best b S \<Longrightarrow> b = Max S"
  by (auto simp: greatest.is_best_def not_less intro!: Max_eqI [symmetric])

lemma least_is_best: "finite S \<Longrightarrow> least.is_best b S \<Longrightarrow> b = Min S"
  by (auto simp: least.is_best_def not_less intro!: Min_eqI [symmetric])

lemma greatest_scan:
  assumes "xs \<noteq> []" and "\<And>x. x \<in> set xs \<Longrightarrow> b \<le> x"
  shows "value_loop (>) xs b = Max (set xs)" "is_first (index_loop (>) xs 0 0 b) xs (Max (set xs))"
proof -
  have init: "\<not> b > x" if "x \<in> set xs" for x using assms(2) [OF that] by simp
  show v: "value_loop (>) xs b = Max (set xs)"
    using greatest.value_loop_init [OF assms(1) init] by (intro greatest_is_best) auto
  show "is_first (index_loop (>) xs 0 0 b) xs (Max (set xs))"
    using greatest.index_loop_first [OF assms(1) init] by (simp add: v)
qed

lemma least_scan:
  assumes "xs \<noteq> []" and "\<And>x. x \<in> set xs \<Longrightarrow> x \<le> b"
  shows "value_loop (<) xs b = Min (set xs)" "is_first (index_loop (<) xs 0 0 b) xs (Min (set xs))"
proof -
  have init: "\<not> b < x" if "x \<in> set xs" for x using assms(2) [OF that] by simp
  show v: "value_loop (<) xs b = Min (set xs)"
    using least.value_loop_init [OF assms(1) init] by (intro least_is_best) auto
  show "is_first (index_loop (<) xs 0 0 b) xs (Min (set xs))"
    using least.index_loop_first [OF assms(1) init] by (simp add: v)
qed

lemma MaxAbs_bounds:
  assumes "S \<noteq> {}" "finite S"
  shows "0 \<le> Max (abs ` S :: int set)"
proof -
  obtain x where "x \<in> S" using assms(1) by blast
  then have "\<bar>x\<bar> \<le> Max (abs ` S)" using assms(2) by (intro Max_ge) auto
  then show ?thesis by linarith
qed

lemma MaxAbsValueW16_eq:
  assumes "take n xs \<noteq> []"
  shows "WebRtcSpl_MaxAbsValueW16C xs n = min 32767 (Max (abs ` set (take n xs)))"
proof -
  have m: "value_loop (>) (map abs (take n xs)) 0 = Max (abs ` set (take n xs))"
    using assms by (subst greatest_scan) auto
  have "0 \<le> Max (abs ` set (take n xs))" using assms by (intro MaxAbs_bounds) auto
  then show ?thesis
    by (simp only: WebRtcSpl_MaxAbsValueW16C_def Let_def m) (auto simp: min_def s16_idI)
qed

lemma MaxAbsValueW32_eq:
  assumes ne: "take n xs \<noteq> []" and in32: "list_all in_s32 (take n xs)"
  shows "WebRtcSpl_MaxAbsValueW32C xs n = min 2147483647 (Max (abs ` set (take n xs)))"
proof -
  have abs: "u32 (s32 \<bar>v\<bar>) = \<bar>v\<bar>" if "v \<in> set (take n xs)" for v
  proof -
    have "in_s32 v" using that in32 by (simp add: list_all_iff)
    then have "0 \<le> \<bar>v\<bar>" "\<bar>v\<bar> < 4294967296" by (auto simp: in_s32_def)
    then show ?thesis
      by (simp add: u32_def s32_mod)
  qed
  then have "map (\<lambda>v. u32 (s32 \<bar>v\<bar>)) (take n xs) = map abs (take n xs)" by simp
  moreover have "value_loop (>) (map abs (take n xs)) 0 = Max (abs ` set (take n xs))"
    using ne by (subst greatest_scan) auto
  moreover have "0 \<le> Max (abs ` set (take n xs))" using ne by (intro MaxAbs_bounds) auto
  ultimately show ?thesis
    by (simp only: WebRtcSpl_MaxAbsValueW32C_def Let_def min.commute [of _ 2147483647])
      (simp add: s32_idI)
qed

text \<open>The searches of \<open>min_max_operations.c\<close> return the maximum, the minimum and the maximum
  absolute value of the vector (limited to what the result type can hold, so that the absolute
  value of the most negative sample is reported as the largest positive one), and the index
  versions return the first position at which that extremum occurs, for 16-bit and 32-bit
  vectors of any positive length.\<close>

theorem min_max_correct:
  assumes "0 < n" "n \<le> length xs"
  shows "let v = take n xs in
    (list_all in_s16 v \<longrightarrow>
       WebRtcSpl_MaxValueW16C xs n = Max (set v) \<and> WebRtcSpl_MinValueW16C xs n = Min (set v) \<and>
       WebRtcSpl_MaxAbsValueW16C xs n = min 32767 (Max (abs ` set v)) \<and>
       is_first (WebRtcSpl_MaxIndexW16 xs n) v (Max (set v)) \<and>
       is_first (WebRtcSpl_MinIndexW16 xs n) v (Min (set v)) \<and>
       is_first (WebRtcSpl_MaxAbsIndexW16 xs n) (map abs v) (Max (abs ` set v))) \<and>
    (list_all in_s32 v \<longrightarrow>
       WebRtcSpl_MaxValueW32C xs n = Max (set v) \<and> WebRtcSpl_MinValueW32C xs n = Min (set v) \<and>
       WebRtcSpl_MaxAbsValueW32C xs n = min 2147483647 (Max (abs ` set v)) \<and>
       is_first (WebRtcSpl_MaxIndexW32 xs n) v (Max (set v)) \<and>
       is_first (WebRtcSpl_MinIndexW32 xs n) v (Min (set v)))"
proof -
  define v where "v = take n xs"
  have ne: "v \<noteq> []" using assms by (auto simp: v_def)
  note scans = greatest_scan [OF ne] least_scan [OF ne]
  have absx: "is_first (WebRtcSpl_MaxAbsIndexW16 xs n) (map abs v) (Max (abs ` set v))"
    using greatest_scan(2) [of "map abs v" 0] ne
    by (force simp: WebRtcSpl_MaxAbsIndexW16_def v_def [symmetric])
  note defs = WebRtcSpl_MaxValueW16C_def WebRtcSpl_MinValueW16C_def WebRtcSpl_MaxIndexW16_def
    WebRtcSpl_MinIndexW16_def WebRtcSpl_MaxValueW32C_def WebRtcSpl_MinValueW32C_def
    WebRtcSpl_MaxIndexW32_def WebRtcSpl_MinIndexW32_def v_def [symmetric]
  have w16: "-32768 \<le> x" "x \<le> 32767" if "list_all in_s16 v" "x \<in> set v" for x
    using that by (auto simp: list_all_iff in_s16_def)
  have w32: "-2147483648 \<le> x" "x \<le> 2147483647" if "list_all in_s32 v" "x \<in> set v" for x
    using that by (auto simp: list_all_iff in_s32_def)
  show ?thesis
    unfolding Let_def v_def [symmetric]
    using absx MaxAbsValueW16_eq [of n xs, folded v_def, OF ne]
      MaxAbsValueW32_eq [of n xs, folded v_def, OF ne]
    by (simp only: defs) (simp add: scans w16 w32)
qed

theorem min_max_correct_witness:
  "WebRtcSpl_MaxAbsValueW16C [3, -32768, 7, -32768, 9] 4 = 32767 \<and>
   is_first (WebRtcSpl_MinIndexW16 [3, -32768, 7, -32768, 9] 4) [3, -32768, 7, -32768] (-32768)"
  using min_max_correct [of 4 "[3, -32768, 7, -32768, 9]"] by (simp add: in_s16_def Let_def)

subsection \<open>Correlations\<close>

abbreviation (input) corr_term :: "int list \<Rightarrow> nat \<Rightarrow> nat \<Rightarrow> nat \<Rightarrow> int" where
  "corr_term xs i scaling j \<equiv> shr (mul32 (xs ! j) (xs ! (i + j))) scaling"

lemma fold_add32:
  assumes "in_s32 a"
  shows "fold (\<lambda>j a. add32 a (f j)) js a = s32 (a + (\<Sum>j\<leftarrow>js. f j))"
  using assms
proof (induction js arbitrary: a)
  case (Cons j js)
  then show ?case by (simp add: add32_def add.assoc)
qed (simp add: s32_id)

lemma fold_corr_add:
  "in_s32 a \<Longrightarrow> fold (corr_add xs i scaling) js a = s32 (a + (\<Sum>j\<leftarrow>js. corr_term xs i scaling j))"
  using fold_add32 [of a "corr_term xs i scaling"] by (simp add: corr_add_def [abs_def])

lemma corr_rest_fold: "corr_rest xs n i scaling j acc = fold (corr_add xs i scaling) [j..<n - i] acc"
proof (induction xs n i scaling j acc rule: corr_rest.induct)
  case (1 xs n i scaling j acc)
  then show ?case
    by (subst corr_rest.simps) (simp add: upt_conv_Cons)
qed

lemma upt_split: "i \<le> j \<Longrightarrow> j \<le> m \<Longrightarrow> [i..<m] = [i..<j] @ [j..<m]"
  using upt_add_eq_append [of i j "m - j"] by simp

lemma upt_4: "[j..<j + 4] = [j, j + 1, j + 2, j + 3]"
  by (simp add: upt_conv_Cons numeral_eq_Suc)

lemma corr_unrolled_fold:
  "\<exists>j'. corr_unrolled xs n i scaling j acc = (j', fold (corr_add xs i scaling) [j..<j'] acc) \<and>
        j \<le> j' \<and> (j' \<le> j \<or> j' \<le> n - i)"
proof (induction xs n i scaling j acc rule: corr_unrolled.induct)
  case (1 xs n i scaling j acc)
  show ?case
  proof (cases "i + j + 3 < n")
    case True
    let ?acc = "fold (corr_add xs i scaling) [j..<j + 4] acc"
    have acc: "?acc = corr_add xs i scaling (j + 3) (corr_add xs i scaling (j + 2)
               (corr_add xs i scaling (j + 1) (corr_add xs i scaling j acc)))"
      by (simp only: upt_4 fold_simps)
    from "1.IH" [OF True, folded acc] obtain j' where j':
      "corr_unrolled xs n i scaling (j + 4) ?acc
        = (j', fold (corr_add xs i scaling) [j + 4..<j'] ?acc)"
      "j + 4 \<le> j'" "j' \<le> j + 4 \<or> j' \<le> n - i"
      by blast
    have "[j..<j'] = [j..<j + 4] @ [j + 4..<j']"
      using j'(2) by (intro upt_split) simp_all
    moreover have "corr_unrolled xs n i scaling j acc = corr_unrolled xs n i scaling (j + 4) ?acc"
      unfolding acc using True by (subst corr_unrolled.simps) (simp only: if_True)
    ultimately have "corr_unrolled xs n i scaling j acc = (j', fold (corr_add xs i scaling) [j..<j'] acc)"
      by (simp only: j'(1) fold_append o_apply)
    with True j'(2,3) show ?thesis by (intro exI [of _ j']) auto
  next
    case False
    then show ?thesis by (subst corr_unrolled.simps) auto
  qed
qed

lemma corr_lag_eq: "corr_lag xs n scaling i = s32 (\<Sum>j\<leftarrow>[0..<n - i]. corr_term xs i scaling j)"
proof -
  obtain j where j: "corr_unrolled xs n i scaling 0 0 = (j, fold (corr_add xs i scaling) [0..<j] 0)"
    and "j \<le> n - i"
    using corr_unrolled_fold [of xs n i scaling 0 0] by auto
  then have "[0..<n - i] = [0..<j] @ [j..<n - i]" by (intro upt_split) simp_all
  then have "corr_lag xs n scaling i = fold (corr_add xs i scaling) [0..<n - i] 0"
    by (simp only: corr_lag_def j prod.case Let_def corr_rest_fold fold_append o_apply)
  then show ?thesis by (simp add: fold_corr_add in_s32_def)
qed

text \<open>The scale factor makes room for the sum of \<open>n\<close> products even when a sample is \<open>-32768\<close>.\<close>

lemma GetSizeInBits_31:
  assumes "0 < n" "n < 2147483648"
  shows "0 < WebRtcSpl_GetSizeInBits n" "WebRtcSpl_GetSizeInBits n \<le> 31"
    "n < 2 ^ nat (WebRtcSpl_GetSizeInBits n)"
proof -
  obtain k where k: "k < 31" "2 ^ k \<le> n" "n < 2 ^ Suc k"
    using pow2_bracket [of n 31] assms by auto
  have "WebRtcSpl_GetSizeInBits n = int k + 1"
    using CountLeadingZeros32_eq [OF k(2,3)] k(1)
    by (simp add: WebRtcSpl_GetSizeInBits_def s16_idI)
  with k show "0 < WebRtcSpl_GetSizeInBits n" "WebRtcSpl_GetSizeInBits n \<le> 31"
    "n < 2 ^ nat (WebRtcSpl_GetSizeInBits n)" by (simp_all add: nat_add_distrib)
qed

lemma NormW32_1073676289: "WebRtcSpl_NormW32 1073676289 = 1"
  using CountLeadingZeros32_eq [of 29 1073676289]
  by (simp add: WebRtcSpl_NormW32_def u32_def s16_def)

lemma product_bound:
  assumes "\<bar>x\<bar> \<le> M" "\<bar>y\<bar> \<le> M" "M \<le> 32768" "0 < M"
  shows "\<bar>x * y\<bar> \<le> 2 ^ nat (31 - WebRtcSpl_NormW32 (min 32767 M * min 32767 M))"
proof (cases "M = 32768")
  case True
  have "\<bar>x * y\<bar> \<le> M * M"
    unfolding abs_mult using assms by (intro mult_mono) auto
  with True show ?thesis by (simp add: NormW32_1073676289)
next
  case False
  have "M * M \<le> 32767 * 32767" using False assms by (intro mult_mono) auto
  then have "M * M < 2 ^ nat (31 - WebRtcSpl_NormW32 (M * M))"
    using assms by (intro NormW32_pos) auto
  moreover have "\<bar>x * y\<bar> \<le> M * M"
    unfolding abs_mult using assms by (intro mult_mono) auto
  ultimately show ?thesis using False assms by (simp add: min_absorb2)
qed

lemma shr_bounds:
  assumes "\<bar>p\<bar> \<le> K * 2 ^ sc"
  shows "\<bar>shr p sc\<bar> \<le> K"
proof -
  have "p \<le> K * 2 ^ sc" "(- K) * 2 ^ sc \<le> p" using assms by auto
  from this [THEN zdiv_mono1, of "2 ^ sc"]
  have "shr p sc \<le> K" "- K \<le> shr p sc" by (simp_all add: shr_def del: mult_minus_left)
  then show ?thesis by simp
qed

lemma abs_sum_list_le:
  fixes f :: "'a \<Rightarrow> int"
  assumes "\<And>x. x \<in> set xs \<Longrightarrow> \<bar>f x\<bar> \<le> K"
  shows "\<bar>\<Sum>x\<leftarrow>xs. f x\<bar> \<le> int (length xs) * K"
  using assms
proof (induction xs)
  case (Cons a xs)
  have "\<bar>f a\<bar> \<le> K" "\<bar>\<Sum>x\<leftarrow>xs. f x\<bar> \<le> int (length xs) * K" using Cons by auto
  then show ?case by (simp add: algebra_simps)
qed simp

lemma corr_scaling_room:
  assumes s: "list_all in_s16 (take n xs)" and n: "0 < n" "n < 2147483648" "n \<le> length xs"
  shows "0 \<le> corr_scaling xs n \<and> corr_scaling xs n \<le> 31 \<and>
    (\<exists>K. (\<forall>j<n. \<forall>k<n. \<bar>shr (xs ! j * xs ! k) (nat (corr_scaling xs n))\<bar> \<le> K) \<and>
         0 \<le> K \<and> int n * K \<le> 2147483647)"
proof -
  define M where "M = Max (abs ` set (take n xs))"
  have ne: "take n xs \<noteq> []" using n by auto
  have el: "\<bar>xs ! j\<bar> \<le> M" if "j < n" for j
    unfolding M_def using that n(3) by (intro Max_ge) (auto simp: in_set_conv_nth intro!: imageI exI [of _ j])
  have M: "0 \<le> M" "M \<le> 32768"
  proof -
    show "0 \<le> M" unfolding M_def using ne by (intro MaxAbs_bounds) auto
    have "M \<in> abs ` set (take n xs)" unfolding M_def using ne by (intro Max_in) auto
    then show "M \<le> 32768" using s by (auto simp: list_all_iff in_s16_def)
  qed
  let ?m = "min 32767 M"
  define nb where "nb = WebRtcSpl_GetSizeInBits (int n)"
  note nb = GetSizeInBits_31 [of "int n", folded nb_def, simplified, OF n(1,2)]
  show ?thesis
  proof (cases "M = 0")
    case True
    then have "corr_scaling xs n = 0"
      by (simp add: corr_scaling_def MaxAbsValueW16_eq [OF ne] flip: M_def)
    moreover have "xs ! j = 0" if "j < n" for j using el [OF that] True by simp
    ultimately show ?thesis by (intro conjI exI [of _ 0]) auto
  next
    case False
    define t where "t = WebRtcSpl_NormW32 (?m * ?m)"
    have mpos: "0 < ?m * ?m" "?m * ?m \<le> 2147483647"
      using False M mult_mono [of ?m 32767 ?m 32767] by auto
    note t = NormW32_pos [OF mpos, folded t_def]
    have "mul32 ?m ?m = ?m * ?m" "?m \<noteq> 0"
      unfolding mul32_def using mpos by (auto intro!: s32_idI)
    then have sc: "corr_scaling xs n = (if t > nb then 0 else nb - t)"
      using False M n nb by (simp add: corr_scaling_def MaxAbsValueW16_eq [OF ne] Let_def u32_idI
          flip: M_def t_def nb_def)
    let ?K = "2 ^ nat (31 - nb) :: int"
    let ?s = "nat (corr_scaling xs n)"
    have "nat (31 - t) \<le> nat (31 - nb) + ?s" using t(1,2) nb by (auto simp: sc)
    then have room: "(2::int) ^ nat (31 - t) \<le> ?K * 2 ^ ?s" by (simp flip: power_add)
    have "\<bar>shr (xs ! j * xs ! k) ?s\<bar> \<le> ?K" if "j < n" "k < n" for j k
      using product_bound [OF el [OF that(1)] el [OF that(2)] M(2)] False M(1) room
      by (intro shr_bounds) (simp add: t_def)
    moreover have "int n * ?K \<le> 2147483647"
    proof -
      have "int n * ?K \<le> (2 ^ nat nb - 1) * ?K" using nb(3) by (intro mult_right_mono) auto
      also have "\<dots> = 2 ^ (nat nb + nat (31 - nb)) - ?K" by (simp add: algebra_simps power_add)
      also have "nat nb + nat (31 - nb) = 31" using nb by simp
      finally have "int n * ?K \<le> 2147483648 - ?K" by simp
      with one_le_power [of "2::int" "nat (31 - nb)"] show ?thesis by linarith
    qed
    ultimately show ?thesis using t nb by (intro conjI exI [of _ ?K]) (auto simp: sc)
  qed
qed

lemma cross_loop_eq:
  assumes "in_s32 a" "j + k \<le> length seq1" "0 \<le> pos + int j" "pos + int (j + k) \<le> int (length arr)"
  shows "cross_loop k seq1 arr pos j sh a =
    Some (s32 (a + (\<Sum>j\<leftarrow>[j..<j + k]. shr (mul32 (seq1 ! j) (arr ! nat (pos + int j))) sh)))"
  using assms
proof (induction k arbitrary: j a)
  case (Suc k)
  have "[j..<j + Suc k] = j # [Suc j..<Suc j + k]" by (simp add: upt_conv_Cons)
  with Suc.IH [of "add32 a (shr (mul32 (seq1 ! j) (arr ! nat (pos + int j))) sh)" "Suc j"] Suc.prems
  show ?case by (simp add: add32_def add.assoc)
qed (simp add: s32_id)

lemma CrossCorrelation_eq:
  assumes "dim_seq \<le> length seq1"
    and "\<And>i. i < k \<Longrightarrow> 0 \<le> pos + int i * step \<and> pos + int i * step + int dim_seq \<le> int (length arr)"
  shows "WebRtcSpl_CrossCorrelationC seq1 arr pos dim_seq k sh step =
    Some (map (\<lambda>i. s32 (\<Sum>j\<leftarrow>[0..<dim_seq].
      shr (mul32 (seq1 ! j) (arr ! nat (pos + int i * step + int j))) sh)) [0..<k])"
  using assms(2)
proof (induction k arbitrary: pos)
  case (Suc k)
  have "WebRtcSpl_CrossCorrelationC seq1 arr (pos + step) dim_seq k sh step =
    Some (map (\<lambda>i. s32 (\<Sum>j\<leftarrow>[0..<dim_seq].
      shr (mul32 (seq1 ! j) (arr ! nat (pos + step + int i * step + int j))) sh)) [0..<k])"
    using Suc.prems [of "Suc i" for i] by (intro Suc.IH) (simp add: algebra_simps)
  then show ?case
    using Suc.prems [of 0] assms(1) cross_loop_eq [of 0 0 dim_seq seq1 pos arr sh]
    by (simp add: in_s32_def upt_conv_Cons map_Suc_upt [symmetric] algebra_simps del: upt_Suc)
qed simp

lemma corr_product:
  assumes "list_all in_s16 (take n xs)" "n \<le> length xs" "j < n" "k < n"
  shows "mul32 (xs ! j) (xs ! k) = xs ! j * xs ! k"
proof -
  have "in_s16 (xs ! j)" "in_s16 (xs ! k)"
    using assms by (auto simp: list_all_length)
  then have "\<bar>xs ! j * xs ! k\<bar> \<le> 32768 * 32768"
    unfolding abs_mult by (intro mult_mono) (auto simp: in_s16_def)
  then show ?thesis unfolding mul32_def by (intro s32_idI) linarith+
qed

abbreviation (input) exact_lag :: "int list \<Rightarrow> nat \<Rightarrow> nat \<Rightarrow> nat \<Rightarrow> int" where
  "exact_lag xs n sc i \<equiv> \<Sum>j\<leftarrow>[0..<n - i]. shr (xs ! j * xs ! (i + j)) sc"

lemma corr_lag_exact:
  assumes "list_all in_s16 (take n xs)" "0 < n" "n < 2147483648" "n \<le> length xs"
  defines "sc \<equiv> nat (corr_scaling xs n)"
  shows "in_s32 (exact_lag xs n sc i)" "corr_lag xs n sc i = exact_lag xs n sc i"
proof -
  obtain K where K: "\<And>j k. j < n \<Longrightarrow> k < n \<Longrightarrow> \<bar>shr (xs ! j * xs ! k) sc\<bar> \<le> K"
      "0 \<le> K" "int n * K \<le> 2147483647"
    using corr_scaling_room [OF assms(1-4)] unfolding sc_def [symmetric] by blast
  have "\<bar>exact_lag xs n sc i\<bar> \<le> int (length [0..<n - i]) * K"
    by (rule abs_sum_list_le) (auto intro!: K(1))
  also have "\<dots> \<le> int n * K" using K(2) by (intro mult_right_mono) auto
  finally show b: "in_s32 (exact_lag xs n sc i)" unfolding in_s32_def using K(3) by linarith
  have "(\<Sum>j\<leftarrow>[0..<n - i]. corr_term xs i sc j) = exact_lag xs n sc i"
    by (rule arg_cong [of _ _ sum_list]) (simp add: corr_product [OF assms(1,4)])
  with b show "corr_lag xs n sc i = exact_lag xs n sc i" by (simp add: corr_lag_eq s32_id)
qed

lemma padded_lag:
  assumes "list_all in_s16 (take n xs)" "n \<le> length xs" "i \<le> order" "order \<le> n"
  shows "(\<Sum>j\<leftarrow>[0..<n]. shr (mul32 (take n xs ! j)
           ((take n xs @ replicate order 0) ! nat (int i + int j))) sc) = exact_lag xs n sc i"
    (is "(\<Sum>j\<leftarrow>_. ?f j) = _")
proof -
  have z: "?f j = 0" if "n - i \<le> j" "j < n" for j
  proof -
    have "\<not> i + j < n" "i + j - n < order" using that assms(3,4) by linarith+
    then show ?thesis using that assms(2) by (simp add: nth_append mul32_def nat_int_add)
  qed
  have e: "?f j = shr (xs ! j * xs ! (i + j)) sc" if "j < n - i" for j
  proof -
    have "i + j < n" using that by linarith
    then show ?thesis
      using that assms(2) by (simp add: nth_append nat_int_add corr_product [OF assms(1,2)])
  qed
  have "map ?f [0..<n] = map (\<lambda>j. shr (xs ! j * xs ! (i + j)) sc) [0..<n - i] @ map (\<lambda>_. 0) [n - i..<n]"
    using z e by (subst upt_split [of 0 "n - i" n]) simp_all
  then show ?thesis by simp
qed

text \<open>C30: \<open>WebRtcSpl_AutoCorrelation\<close> does not overflow: for every vector of 16-bit samples
  (full-scale negative ones included) the wrapping, unrolled accumulation of each lag equals the
  exact sum of the products shifted down by the reported scale factor, which is a 32-bit value.
  It also equals what \<open>WebRtcSpl_CrossCorrelationC\<close> computes for the vector against itself
  extended by zeros.\<close>

theorem autocorrelation_exact:
  assumes "list_all in_s16 (take n xs)" "0 < n" "n < 2147483648" "n \<le> length xs" "order \<le> n"
  shows "\<exists>r sc. WebRtcSpl_AutoCorrelation xs n order = Some (r, sc, order + 1) \<and>
    0 \<le> sc \<and> sc \<le> 31 \<and>
    r = map (\<lambda>i. \<Sum>j\<leftarrow>[0..<n - i]. shr (xs ! j * xs ! (i + j)) (nat sc)) [0..<order + 1] \<and>
    list_all in_s32 r \<and>
    WebRtcSpl_CrossCorrelationC (take n xs) (take n xs @ replicate order 0) 0 n (order + 1)
      (nat sc) 1 = Some r"
proof -
  define sc where "sc = corr_scaling xs n"
  define r where "r = map (exact_lag xs n (nat sc)) [0..<order + 1]"
  have sc: "0 \<le> sc" "sc \<le> 31"
    using corr_scaling_room [OF assms(1-4)] unfolding sc_def [symmetric] by blast+
  note lag = corr_lag_exact [OF assms(1-4), folded sc_def]
  have "WebRtcSpl_AutoCorrelation xs n order = Some (r, sc, order + 1)"
    using assms(4,5)
    by (simp add: WebRtcSpl_AutoCorrelation_def Let_def r_def lag(2) flip: sc_def del: upt_Suc)
  moreover have "list_all in_s32 r" by (simp add: r_def list_all_iff lag(1) del: upt_Suc)
  moreover have "WebRtcSpl_CrossCorrelationC (take n xs) (take n xs @ replicate order 0) 0 n (order + 1)
      (nat sc) 1 = Some r"
    using assms(4,5) padded_lag [OF assms(1,4) _ assms(5), of _ "nat sc"]
    by (subst CrossCorrelation_eq) (auto simp: r_def s32_id [OF lag(1)] simp del: upt_Suc)
  ultimately show ?thesis using sc r_def by blast
qed

theorem autocorrelation_exact_witness:
  "WebRtcSpl_AutoCorrelation [-32768, -32768, -32768, 32767, 5] 5 2
   = Some ([1073725446, 268484606, -32768], 2, 3)"
proof -
  have "list_all in_s16 (take 5 [-32768, -32768, -32768, 32767, 5])" by (simp add: in_s16_def)
  from autocorrelation_exact [OF this, of 2]
  have "WebRtcSpl_AutoCorrelation [-32768, -32768, -32768, 32767, 5] 5 2 \<noteq> None" by auto
  moreover have "WebRtcSpl_AutoCorrelation [-32768, -32768, -32768, 32767, 5] 5 2
     = Some ([1073725446, 268484606, -32768], 2, 3)" by code_simp
  ultimately show ?thesis by simp
qed

subsection \<open>Filtering with decimation\<close>

lemma s32_add_mul32: "s32 (a + mul32 b c + d) = s32 (a + b * c + d)"
  unfolding mul32_def by (metis (no_types, lifting) add.assoc add.commute s32_add_right)

lemma downsample_tap_eq:
  assumes "in_s32 a" "base + i < length arr" "j + length cs \<le> base + i + 1"
  shows "downsample_tap arr base cs i j a
    = Some (s32 (a + (\<Sum>k\<leftarrow>[0..<length cs]. cs ! k * arr ! (base + i - j - k))))"
  using assms
proof (induction cs arbitrary: a j)
  case (Cons c cs)
  have k: "0 \<le> int base + int i - int j" "int base + int i - int j < int (length arr)"
    "nat (int base + int i - int j) = base + i - j"
    using Cons.prems by auto
  have "downsample_tap arr base (c # cs) i j a
      = downsample_tap arr base cs i (Suc j) (add32 a (mul32 c (arr ! (base + i - j))))"
    using k by simp
  also have "\<dots> = Some (s32 (add32 a (mul32 c (arr ! (base + i - j)))
      + (\<Sum>k\<leftarrow>[0..<length cs]. cs ! k * arr ! (base + i - Suc j - k))))"
    using Cons.prems by (intro Cons.IH) (auto simp: add32_def)
  also have "\<dots> = Some (s32 (a + c * arr ! (base + i - j)
      + (\<Sum>k\<leftarrow>[0..<length cs]. cs ! k * arr ! (base + i - Suc j - k))))"
    by (simp add: add32_def s32_add_mul32)
  finally show ?case
    by (simp add: upt_conv_Cons map_Suc_upt [symmetric] o_def add.assoc del: upt_Suc)
qed (simp add: s32_id)

definition fir_output :: "int list \<Rightarrow> nat \<Rightarrow> int list \<Rightarrow> int" where
  "fir_output arr p coefficients =
     WebRtcSpl_SatW32ToW16 (shr (s32 (2048 +
       (\<Sum>k\<leftarrow>[0..<length coefficients]. coefficients ! k * arr ! (p - k)))) 12)"

lemma downsample_loop_eq:
  assumes "0 < f" "m \<le> n" "0 < n" "endpos = delay + f * (n - 1) + 1"
    and "base + endpos \<le> length arr" "endpos + f < 18446744073709551616"
    and "length cs \<le> base + delay + 1"
  shows "downsample_loop arr base cs f endpos (delay + f * (n - m))
    = Some (map (\<lambda>k. fir_output arr (base + delay + f * k) cs) [n - m..<n])"
  using assms(2)
proof (induction m)
  case 0
  have "\<not> delay + f * n < endpos"
    using assms(1,3,4) by (cases n) auto
  then show ?case by (subst downsample_loop.simps) simp
next
  case (Suc m)
  let ?i = "delay + f * (n - Suc m)"
  have "f * (n - Suc m) \<le> f * (n - 1)" by (intro mult_left_mono) auto
  then have lt: "?i < endpos" using assms(4) by linarith
  have nxt: "?i + f = delay + f * (n - m)"
  proof -
    have "n - m = Suc (n - Suc m)" using Suc.prems by simp
    then show ?thesis by simp
  qed
  have tap: "downsample_tap arr base cs ?i 0 2048
      = Some (s32 (2048 + (\<Sum>k\<leftarrow>[0..<length cs]. cs ! k * arr ! (base + ?i - 0 - k))))"
    using lt assms(5,7) by (intro downsample_tap_eq) (auto simp: in_s32_def)
  have "size_add ?i f = delay + f * (n - m)"
    using lt assms(6) nxt by (simp add: size_add_fits)
  moreover have "[n - Suc m..<n] = (n - Suc m) # [n - m..<n]"
    using Suc.prems by (simp add: upt_conv_Cons Suc_diff_Suc)
  ultimately show ?case
    using lt tap Suc.IH Suc.prems
    by (subst downsample_loop.simps) (simp add: fir_output_def add.assoc)
qed

text \<open>The exact output: the sum over unbounded integers, rounded to the nearest multiple of \<open>2^12\<close> and clamped to 16
  bits. The code accumulates in 32 bits; the sum cannot leave them when the absolute values of the
  coefficients add up to at most 65535 (a gain below 16).\<close>

definition fir_sum :: "int list \<Rightarrow> nat \<Rightarrow> int list \<Rightarrow> int" where
  "fir_sum arr p coefficients = (\<Sum>k\<leftarrow>[0..<length coefficients]. coefficients ! k * arr ! (p - k))"

definition fir_exact :: "int list \<Rightarrow> nat \<Rightarrow> int list \<Rightarrow> int" where
  "fir_exact arr p coefficients = max (-32768) (min 32767 ((2048 + fir_sum arr p coefficients) div 4096))"

lemma fir_output_exact:
  assumes "in_s32 (2048 + fir_sum arr p cs)"
  shows "fir_output arr p cs = fir_exact arr p cs"
  using assms by (simp add: fir_output_def fir_exact_def fir_sum_def s32_id SatW32ToW16_eq shr_def)

lemma fir_sum_le:
  assumes "list_all in_s16 arr" "p < length arr"
  shows "\<bar>fir_sum arr p cs\<bar> \<le> (\<Sum>c\<leftarrow>cs. \<bar>c\<bar>) * 32768"
proof -
  have "\<bar>cs ! k * arr ! (p - k)\<bar> \<le> \<bar>cs ! k\<bar> * 32768" for k
  proof -
    have "in_s16 (arr ! (p - k))" using assms by (simp add: list_all_length)
    then have "\<bar>arr ! (p - k)\<bar> \<le> 32768" by (auto simp: in_s16_def)
    then show ?thesis unfolding abs_mult by (rule mult_left_mono) simp
  qed
  then have "(\<Sum>k\<leftarrow>[0..<length cs]. \<bar>cs ! k * arr ! (p - k)\<bar>) \<le> (\<Sum>k\<leftarrow>[0..<length cs]. \<bar>cs ! k\<bar> * 32768)"
    by (intro sum_list_mono) simp
  moreover have "\<bar>fir_sum arr p cs\<bar> \<le> (\<Sum>k\<leftarrow>[0..<length cs]. \<bar>cs ! k * arr ! (p - k)\<bar>)"
    using sum_list_abs [of "map (\<lambda>k. cs ! k * arr ! (p - k)) [0..<length cs]"] by (simp add: fir_sum_def comp_def)
  moreover have "(\<Sum>k\<leftarrow>[0..<length cs]. \<bar>cs ! k\<bar> * 32768) = (\<Sum>c\<leftarrow>cs. \<bar>c\<bar>) * 32768"
  proof -
    have "map (\<lambda>k. \<bar>cs ! k\<bar>) [0..<length cs] = map abs cs" by (rule nth_equalityI) auto
    then show ?thesis by (simp add: sum_list_mult_const)
  qed
  ultimately show ?thesis by linarith
qed

text \<open>C31: \<open>WebRtcSpl_DownsampleFastC\<close> with a positive factor (and positions that fit in \<open>size_t\<close>) refuses an empty
  output, an empty filter and an input too short for the requested output with -1. Otherwise, when the filter
  finds its history in the array, it ends, returns 0 and writes exactly the requested number of samples, the
  \<open>k\<close>-th being the exact FIR filter output at input position \<open>delay + factor * k\<close>, rounded and saturated,
  wherever the 32-bit sum of the code does not overflow. It never does for 16-bit samples and a
  filter whose coefficients have absolute values adding up to at most 65535. The filter may reach back before
  the start of \<open>data_in\<close> into the saved state.\<close>

theorem downsample_fast_correct:
  fixes factor :: int
  assumes "0 < factor" "delay + nat factor * (n - 1) + 1 + nat factor < 18446744073709551616"
  shows "(n = 0 \<or> coefficients = [] \<or> data_in_length < delay + nat factor * (n - 1) + 1 \<longrightarrow>
      WebRtcSpl_DownsampleFastC arr base data_in_length n coefficients factor delay = Some (-1, [])) \<and>
    (0 < n \<and> coefficients \<noteq> [] \<and> delay + nat factor * (n - 1) + 1 \<le> data_in_length \<and>
     base + data_in_length \<le> length arr \<and> length coefficients \<le> base + delay + 1 \<longrightarrow>
      (\<exists>out. WebRtcSpl_DownsampleFastC arr base data_in_length n coefficients factor delay = Some (0, out) \<and>
        length out = n \<and>
        (\<forall>k<n. in_s32 (2048 + fir_sum arr (base + delay + nat factor * k) coefficients) \<longrightarrow>
           out ! k = fir_exact arr (base + delay + nat factor * k) coefficients) \<and>
        (list_all in_s16 arr \<and> (\<Sum>c\<leftarrow>coefficients. \<bar>c\<bar>) \<le> 65535 \<longrightarrow>
           out = map (\<lambda>k. fir_exact arr (base + delay + nat factor * k) coefficients) [0..<n])))"
proof -
  let ?f = "nat factor"
  have f: "?f < 18446744073709551616" using assms(2) by linarith
  have u: "nat (u64 factor) = ?f"
    using assms(1) f by (simp add: u64_def)
  have endpos: "downsample_endpos n factor delay = delay + ?f * (n - 1) + 1" if "0 < n"
  proof -
    have "1 * (n - 1) \<le> ?f * (n - 1)" using assms(1) by (intro mult_right_mono) auto
    then have le: "n - 1 \<le> ?f * (n - 1)" by simp
    have "size_sub n 1 = n - 1" using that le assms(2) by (intro size_sub_le) linarith+
    then show ?thesis
      using assms(2) by (simp add: downsample_endpos_def u size_mul_fits size_add_fits)
  qed
  define out where "out = map (\<lambda>k. fir_output arr (base + delay + ?f * k) coefficients) [0..<n]"
  have run: "WebRtcSpl_DownsampleFastC arr base data_in_length n coefficients factor delay = Some (0, out)"
    if "0 < n" "coefficients \<noteq> []" "delay + ?f * (n - 1) + 1 \<le> data_in_length"
      "base + data_in_length \<le> length arr" "length coefficients \<le> base + delay + 1"
    using that assms downsample_loop_eq [of ?f n n "delay + ?f * (n - 1) + 1" delay base arr coefficients]
    by (simp add: WebRtcSpl_DownsampleFastC_def Let_def endpos u out_def)
  have small: "in_s32 (2048 + fir_sum arr (base + delay + ?f * k) coefficients)"
    if "list_all in_s16 arr" "(\<Sum>c\<leftarrow>coefficients. \<bar>c\<bar>) \<le> 65535" "k < n"
      "delay + ?f * (n - 1) + 1 \<le> data_in_length" "base + data_in_length \<le> length arr" for k
  proof -
    have "?f * k \<le> ?f * (n - 1)" using that(3) by (intro mult_left_mono) auto
    then have "base + delay + ?f * k < length arr" using that(4,5) by linarith
    from fir_sum_le [OF that(1) this, of coefficients] that(2) show ?thesis by (auto simp: in_s32_def)
  qed
  show ?thesis
    using run small fir_output_exact
    by (cases "n = 0") (auto simp: WebRtcSpl_DownsampleFastC_def Let_def endpos out_def)
qed

theorem downsample_fast_correct_witness:
  "WebRtcSpl_DownsampleFastC [1000, 2000, 3000, 4000, 5000, 6000] 1 5 2 [2048, 2048] 2 1
   = Some (0, [2500, 4500]) \<and>
   WebRtcSpl_DownsampleFastC [1000, 2000, 3000, 4000, 5000, 6000] 1 3 2 [2048, 2048] 2 1
   = Some (-1, [])"
proof -
  have "map (\<lambda>k. fir_exact [1000, 2000, 3000, 4000, 5000, 6000] (1 + 1 + nat 2 * k) [2048, 2048]) [0..<2]
    = [2500, 4500]" by code_simp
  then show ?thesis
    using downsample_fast_correct [of 2 1 2 "[2048, 2048]" 5 "[1000, 2000, 3000, 4000, 5000, 6000]" 1]
      downsample_fast_correct [of 2 1 2 "[2048, 2048]" 3 "[1000, 2000, 3000, 4000, 5000, 6000]" 1]
    by (simp add: in_s16_def)
qed

subsection \<open>Copying and setting\<close>

lemma memset_loop_eq:
  "pos + j \<le> length arr \<Longrightarrow>
   memset_loop j pos v arr = Some (take pos arr @ replicate j v @ drop (pos + j) arr)"
proof (induction j arbitrary: pos arr)
  case (Suc j)
  have "take (Suc pos) (arr[pos := v]) = take pos arr @ [v]"
    using Suc.prems by (simp add: take_Suc_conv_app_nth)
  moreover have "drop (Suc pos + j) (arr[pos := v]) = drop (pos + Suc j) arr"
    by simp
  ultimately show ?case
    using Suc.IH [of "Suc pos" "arr[pos := v]"] Suc.prems by simp
qed simp

lemma reversed_loop_eq:
  "length source \<le> Suc pos \<Longrightarrow> pos < length arr \<Longrightarrow>
   reversed_loop arr (int pos) source
   = Some (take (Suc pos - length source) arr @ rev source @ drop (Suc pos) arr)"
proof (induction source arbitrary: pos arr)
  case Nil
  then show ?case by simp
next
  case (Cons x source)
  show ?case
  proof (cases pos)
    case 0
    then have "source = []" using Cons.prems(1) by simp
    with 0 Cons.prems show ?thesis by (cases arr) auto
  next
    case (Suc p)
    have "drop (Suc p) (arr[pos := x]) = x # drop (Suc pos) arr"
      using Suc Cons.prems(2) by (simp add: drop_update_swap Cons_nth_drop_Suc [symmetric])
    moreover have "nat (1 + int p) = Suc p" by simp
    ultimately show ?thesis
      using Cons.IH [of p "arr[pos := x]"] Cons.prems Suc by simp
  qed
qed

lemma copy_and_set_ops:
  "n \<le> length arr \<Longrightarrow> WebRtcSpl_MemSetW16 arr v n = Some (replicate n v @ drop n arr)"
  "n \<le> length arr \<Longrightarrow> WebRtcSpl_MemSetW32 arr v n = Some (replicate n v @ drop n arr)"
  "n \<le> length arr \<Longrightarrow> WebRtcSpl_ZerosArrayW16 arr n = Some (replicate n 0 @ drop n arr)"
  "n \<le> length arr \<Longrightarrow> WebRtcSpl_ZerosArrayW32 arr n = Some (replicate n 0 @ drop n arr)"
  "n \<le> length source \<Longrightarrow> n \<le> Suc pos \<Longrightarrow> pos < length arr \<Longrightarrow>
     WebRtcSpl_MemCpyReversedOrder arr (int pos) source n
     = Some (take (Suc pos - n) arr @ rev (take n source) @ drop (Suc pos) arr)"
  "samples \<le> n \<Longrightarrow> n \<le> length xs \<Longrightarrow> n < 18446744073709551616 \<Longrightarrow> samples \<le> length out \<Longrightarrow>
     WebRtcSpl_CopyFromEndW16 xs n samples out
     = Some (take samples (drop (n - samples) xs) @ drop samples out)"
  by (simp_all add: WebRtcSpl_MemSetW16_def WebRtcSpl_MemSetW32_def WebRtcSpl_ZerosArrayW16_def
      WebRtcSpl_ZerosArrayW32_def memset_loop_eq WebRtcSpl_MemCpyReversedOrder_def reversed_loop_eq
      WebRtcSpl_CopyFromEndW16_def size_sub_le memcpy_to_Some)

subsection \<open>Normalising a vector\<close>

lemma NormW16_shift:
  assumes "0 < m" "m \<le> 32767"
  shows "0 \<le> WebRtcSpl_NormW16 m" "WebRtcSpl_NormW16 m \<le> 14"
    "m * 2 ^ nat (WebRtcSpl_NormW16 m) \<le> 32767" "16384 \<le> m * 2 ^ nat (WebRtcSpl_NormW16 m)"
proof -
  obtain k where k: "k < 15" "2 ^ k \<le> m" "m < 2 ^ Suc k"
    using pow2_bracket [of m 15] assms by auto
  have nw: "WebRtcSpl_NormW16 m = 14 - int k"
    using CountLeadingZeros32_eq [OF k(2,3)] assms k
    by (simp add: WebRtcSpl_NormW16_def u32_idI s16_idI)
  then have e: "nat (WebRtcSpl_NormW16 m) = 14 - k" using k(1) by simp
  have p: "2 ^ k * 2 ^ (14 - k) = (16384 :: int)" "2 ^ Suc k * 2 ^ (14 - k) = (32768 :: int)"
    using k(1) by (simp_all flip: power_add)
  have "m * 2 ^ (14 - k) < 2 ^ Suc k * 2 ^ (14 - k)" "2 ^ k * 2 ^ (14 - k) \<le> m * 2 ^ (14 - k)"
    using k(2,3) by (auto intro: mult_strict_right_mono mult_right_mono)
  then have "m * 2 ^ (14 - k) \<le> 32767" "16384 \<le> m * 2 ^ (14 - k)"
    unfolding p by simp_all
  then show "0 \<le> WebRtcSpl_NormW16 m" "WebRtcSpl_NormW16 m \<le> 14"
    "m * 2 ^ nat (WebRtcSpl_NormW16 m) \<le> 32767" "16384 \<le> m * 2 ^ nat (WebRtcSpl_NormW16 m)"
    using nw e k(1) by auto
qed

lemma VectorBitShiftW16_left:
  assumes "k \<le> 14" "\<And>x. x \<in> set (take n xs) \<Longrightarrow> in_s16 (x * 2 ^ k)"
  shows "WebRtcSpl_VectorBitShiftW16 n xs (- int k) = map (\<lambda>x. x * 2 ^ k) (take n xs)"
proof -
  have "(2::int) ^ k \<le> 2 ^ 14" using assms(1) by (intro power_increasing) auto
  moreover have "- 2147483648 \<le> (2::int) ^ k" by (rule order_trans [of _ 0]) simp_all
  ultimately have "in_s32 (2 ^ k)" unfolding in_s32_def by auto
  then have "shl32 1 k = 2 ^ k" by (simp add: shl32_def s32_id)
  moreover have "mul32 x (2 ^ k) = x * 2 ^ k" if "x \<in> set (take n xs)" for x
    unfolding mul32_def using assms(2) [OF that] by (intro s32_id in_s16_in_s32)
  ultimately show ?thesis
    using assms(2) by (auto simp: WebRtcSpl_VectorBitShiftW16_def s16_id)
qed

lemma NormW16_0: "WebRtcSpl_NormW16 0 = 0"
  by (simp add: WebRtcSpl_NormW16_def)

lemma norm_shift_fits:
  assumes "list_all in_s16 (take n xs)" "take n xs \<noteq> []" "x \<in> set (take n xs)"
  defines "m \<equiv> WebRtcSpl_MaxAbsValueW16C xs n"
  shows "in_s16 (x * 2 ^ nat (WebRtcSpl_NormW16 m))"
proof -
  define M where "M = Max (abs ` set (take n xs))"
  have m: "m = min 32767 M" unfolding m_def M_def by (rule MaxAbsValueW16_eq [OF assms(2)])
  have x: "\<bar>x\<bar> \<le> M" unfolding M_def using assms(3) by (intro Max_ge) auto
  have sx: "in_s16 x" using assms(1,3) by (simp add: list_all_iff)
  let ?k = "nat (WebRtcSpl_NormW16 m)"
  consider "M = 0" | "0 < M" "M \<le> 32767" | "32767 < M" using x by linarith
  then show ?thesis
  proof cases
    case 1
    then show ?thesis using x by (simp add: in_s16_def)
  next
    case 2
    then have "m = M" by (simp add: m)
    with 2 NormW16_shift [of m] have "m * 2 ^ ?k \<le> 32767" by simp
    moreover have "\<bar>x * 2 ^ ?k\<bar> \<le> m * 2 ^ ?k"
      unfolding abs_mult using x \<open>m = M\<close> by (intro mult_mono) auto
    ultimately show ?thesis unfolding in_s16_def by linarith
  next
    case 3
    then have "m = 32767" by (simp add: m)
    with NormW16_shift [of m] have "32767 * 2 ^ ?k \<le> (32767 :: int)" by simp
    moreover have "(2::int) \<le> 2 ^ ?k" if "0 < ?k" using that by (cases ?k) auto
    ultimately have "?k = 0" by (cases "?k = 0") auto
    with sx show ?thesis by simp
  qed
qed

text \<open>Normalising a vector loses nothing: shifting 16-bit samples left by the
  \<open>WebRtcSpl_NormW16\<close> of their \<open>WebRtcSpl_MaxAbsValueW16\<close> multiplies every sample exactly, without
  wrap-around, brings a non-zero vector's largest magnitude to at least half of full scale, and
  shifting right by the same amount gives the original vector back.\<close>

theorem normalise_roundtrip:
  assumes "list_all in_s16 (take n xs)" "0 < n" "n \<le> length xs"
  shows "let m = WebRtcSpl_MaxAbsValueW16C xs n; k = WebRtcSpl_NormW16 m;
             ys = WebRtcSpl_VectorBitShiftW16 n xs (- k)
         in ys = map (\<lambda>x. x * 2 ^ nat k) (take n xs) \<and> list_all in_s16 ys \<and>
            (0 < m \<longrightarrow> 16384 \<le> WebRtcSpl_MaxAbsValueW16C ys n) \<and>
            WebRtcSpl_VectorBitShiftW16 n ys k = take n xs"
proof -
  define m where "m = WebRtcSpl_MaxAbsValueW16C xs n"
  define k where "k = nat (WebRtcSpl_NormW16 m)"
  define ys where "ys = map (\<lambda>x. x * 2 ^ k) (take n xs)"
  have ne: "take n xs \<noteq> []" using assms by auto
  define M where "M = Max (abs ` set (take n xs))"
  have M: "M \<in> abs ` set (take n xs)" unfolding M_def using ne by (intro Max_in) auto
  have mM: "m = min 32767 M" unfolding m_def M_def by (rule MaxAbsValueW16_eq [OF ne])
  then have m: "0 \<le> m" "m \<le> 32767" using M by auto
  have nw: "WebRtcSpl_NormW16 m = int k" "k \<le> 14"
    using NormW16_shift [of m] NormW16_0 m unfolding k_def by (cases "m = 0"; simp)+
  have fits: "in_s16 (x * 2 ^ k)" if "x \<in> set (take n xs)" for x
    unfolding k_def m_def by (rule norm_shift_fits [OF assms(1) ne that])
  have left: "WebRtcSpl_VectorBitShiftW16 n xs (- int k) = ys"
    unfolding ys_def by (rule VectorBitShiftW16_left [OF nw(2) fits])
  have ly: "take n ys = ys" by (simp add: ys_def)
  have right: "WebRtcSpl_VectorBitShiftW16 n ys (int k) = take n xs"
  proof (cases "k = 0")
    case True
    then show ?thesis using VectorBitShiftW16_left [of 0 n ys] fits ly by (simp add: ys_def)
  next
    case False
    then show ?thesis
      using assms(1) by (simp add: WebRtcSpl_VectorBitShiftW16_def ly)
        (simp add: ys_def o_def shr_def s16_id list_all_iff map_idI)
  qed
  have big: "16384 \<le> WebRtcSpl_MaxAbsValueW16C ys n" if "0 < m"
  proof -
    obtain x where x: "x \<in> set (take n xs)" "M = \<bar>x\<bar>" using M by blast
    have "m * 2 ^ k \<le> \<bar>x * 2 ^ k\<bar>" unfolding abs_mult using x mM by (simp add: mult_right_mono)
    also have "\<dots> \<le> Max (abs ` set ys)" using x by (intro Max_ge) (auto simp: ys_def)
    finally have "16384 \<le> Max (abs ` set ys)"
      using NormW16_shift(4) [OF that m(2)] unfolding k_def by linarith
    then show ?thesis using MaxAbsValueW16_eq [of n ys] ne ly by (simp add: ys_def)
  qed
  show ?thesis
    unfolding Let_def m_def [symmetric] nw(1) left nat_int
    using right big fits by (auto simp: ys_def list_all_iff)
qed

theorem normalise_roundtrip_witness:
  "WebRtcSpl_VectorBitShiftW16 3
     (WebRtcSpl_VectorBitShiftW16 3 [-300, 5, 7] (- WebRtcSpl_NormW16 (WebRtcSpl_MaxAbsValueW16C [-300, 5, 7] 3)))
     (WebRtcSpl_NormW16 (WebRtcSpl_MaxAbsValueW16C [-300, 5, 7] 3)) = [-300, 5, 7]"
proof -
  have "list_all in_s16 (take 3 [-300, 5, 7])" by (simp add: in_s16_def)
  moreover have "(0::nat) < 3" "3 \<le> length [-300, 5, 7 :: int]" by simp_all
  ultimately have
    "WebRtcSpl_VectorBitShiftW16 3
     (WebRtcSpl_VectorBitShiftW16 3 [-300, 5, 7] (- WebRtcSpl_NormW16 (WebRtcSpl_MaxAbsValueW16C [-300, 5, 7] 3)))
     (WebRtcSpl_NormW16 (WebRtcSpl_MaxAbsValueW16C [-300, 5, 7] 3)) = take 3 [-300, 5, 7]"
    using normalise_roundtrip [of 3 "[-300, 5, 7]"] unfolding Let_def by blast
  then show ?thesis by simp
qed

end
