(* ===== verification/Spl_Bit_Reverse.thy ===== *)
theory Spl_Bit_Reverse
  imports Prelude
begin

section \<open>Signal processing library: bit-reversed reordering (\<open>complex_bit_reverse.c\<close>)\<close>

text \<open>
  \<open>WebRtcSpl_ComplexBitReverse\<close> reorders the \<open>2 ^ stages\<close> complex values of an FFT buffer. The
  values are moved as 32-bit words that hold the real and the imaginary part, so the buffer is a
  list of elements that are never looked into. For 7 and 8 stages the code swaps along a table of
  index pairs; otherwise it enumerates the bit-reversed counter with a carry that runs from the
  top bit down. Both are shown to be the permutation that reverses the bits of the index.
\<close>

unbundle bit_operations_syntax

subsection \<open>The code\<close>

definition index_7 :: "nat list" where
  "index_7 = [
    1, 64, 2, 32, 3, 96, 4, 16, 5, 80, 6, 48, 7, 112, 9, 72, 10, 40, 11, 104,
    12, 24, 13, 88, 14, 56, 15, 120, 17, 68, 18, 36, 19, 100, 21, 84, 22, 52, 23, 116,
    25, 76, 26, 44, 27, 108, 29, 92, 30, 60, 31, 124, 33, 66, 35, 98, 37, 82, 38, 50,
    39, 114, 41, 74, 43, 106, 45, 90, 46, 58, 47, 122, 49, 70, 51, 102, 53, 86, 55, 118,
    57, 78, 59, 110, 61, 94, 63, 126, 67, 97, 69, 81, 71, 113, 75, 105, 77, 89, 79, 121,
    83, 101, 87, 117, 91, 109, 95, 125, 103, 115, 111, 123]"

definition index_8 :: "nat list" where
  "index_8 = [
    1, 128, 2, 64, 3, 192, 4, 32, 5, 160, 6, 96, 7, 224, 8, 16, 9, 144, 10, 80,
    11, 208, 12, 48, 13, 176, 14, 112, 15, 240, 17, 136, 18, 72, 19, 200, 20, 40, 21, 168,
    22, 104, 23, 232, 25, 152, 26, 88, 27, 216, 28, 56, 29, 184, 30, 120, 31, 248, 33, 132,
    34, 68, 35, 196, 37, 164, 38, 100, 39, 228, 41, 148, 42, 84, 43, 212, 44, 52, 45, 180,
    46, 116, 47, 244, 49, 140, 50, 76, 51, 204, 53, 172, 54, 108, 55, 236, 57, 156, 58, 92,
    59, 220, 61, 188, 62, 124, 63, 252, 65, 130, 67, 194, 69, 162, 70, 98, 71, 226, 73, 146,
    74, 82, 75, 210, 77, 178, 78, 114, 79, 242, 81, 138, 83, 202, 85, 170, 86, 106, 87, 234,
    89, 154, 91, 218, 93, 186, 94, 122, 95, 250, 97, 134, 99, 198, 101, 166, 103, 230, 105, 150,
    107, 214, 109, 182, 110, 118, 111, 246, 113, 142, 115, 206, 117, 174, 119, 238, 121, 158, 123, 222,
    125, 190, 127, 254, 131, 193, 133, 161, 135, 225, 137, 145, 139, 209, 141, 177, 143, 241, 147, 201,
    149, 169, 151, 233, 155, 217, 157, 185, 159, 249, 163, 197, 167, 229, 171, 213, 173, 181, 175, 245,
    179, 205, 183, 237, 187, 221, 191, 253, 199, 227, 203, 211, 207, 243, 215, 235, 223, 251, 239, 247]"

definition swap_elems :: "nat \<Rightarrow> nat \<Rightarrow> 'a list \<Rightarrow> 'a list" where
  "swap_elems i j xs = (let temp = xs ! i in xs[i := xs ! j, j := temp])"

fun table_loop :: "nat list \<Rightarrow> 'a list \<Rightarrow> 'a list" where
  "table_loop (i # j # index) xs = table_loop index (swap_elems i j xs)"
| "table_loop _ xs = xs"

function find_l :: "nat \<Rightarrow> nat \<Rightarrow> nat \<Rightarrow> nat" where
  "find_l nn mr l = (let l = l div 2 in if l > nn - mr then find_l nn mr l else l)"
  by pat_completeness auto
termination
  by (relation "measure (\<lambda>(nn, mr, l). l)") auto

declare find_l.simps [simp del]

definition next_reversed :: "nat \<Rightarrow> nat \<Rightarrow> nat" where
  "next_reversed n mr = (let l = find_l (n - 1) mr n in (mr AND (l - 1)) + l)"

fun reverse_loop :: "nat \<Rightarrow> nat \<Rightarrow> nat \<Rightarrow> nat \<Rightarrow> 'a list \<Rightarrow> 'a list" where
  "reverse_loop 0 n m mr xs = xs"
| "reverse_loop (Suc k) n m mr xs =
     (let mr = next_reversed n mr
      in reverse_loop k n (Suc m) mr (if mr \<le> m then xs else swap_elems m mr xs))"

definition WebRtcSpl_ComplexBitReverse :: "'a list \<Rightarrow> nat \<Rightarrow> 'a list" where
  "WebRtcSpl_ComplexBitReverse complex_data stages =
     (if stages = 7 then table_loop index_7 complex_data
      else if stages = 8 then table_loop index_8 complex_data
      else let n = 2 ^ stages in reverse_loop (n - 1) n 1 0 complex_data)"

subsection \<open>The reversed index\<close>

fun brev :: "nat \<Rightarrow> nat \<Rightarrow> nat" where
  "brev 0 i = 0"
| "brev (Suc s) i = (i mod 2) * 2 ^ s + brev s (i div 2)"

lemma brev_less: "brev s i < 2 ^ s"
proof (induction s arbitrary: i)
  case (Suc s)
  have "(i mod 2) * 2 ^ s \<le> 1 * 2 ^ s" by (intro mult_right_mono) auto
  with Suc [of "i div 2"] show ?case unfolding brev.simps power_Suc by linarith
qed simp

lemma brev_0 [simp]: "brev s 0 = 0"
  by (induction s) auto

lemma bit_top_or_low:
  fixes r :: nat
  assumes "r < 2 ^ s" "b \<le> 1"
  shows "bit (b * 2 ^ s + r) j \<longleftrightarrow> (if j = s then b = 1 else bit r j)"
proof -
  consider "j < s" | "j = s" | "s < j" by linarith
  then show ?thesis
  proof cases
    case 1
    then have "b * 2 ^ s = 2 ^ j * (b * 2 ^ (s - j))" by (simp flip: power_add)
    moreover have "(2 ^ j * (b * 2 ^ (s - j)) + r) div 2 ^ j = b * 2 ^ (s - j) + r div 2 ^ j"
      by simp
    ultimately have "(b * 2 ^ s + r) div 2 ^ j = b * 2 ^ (s - j) + r div 2 ^ j" by (simp only:)
    with 1 show ?thesis by (simp add: bit_iff_odd)
  next
    case 2
    with assms show ?thesis by (auto simp: bit_iff_odd div_mult_self3 le_Suc_eq)
  next
    case 3
    then have "(2::nat) ^ Suc s \<le> 2 ^ j" by (intro power_increasing) auto
    moreover have "b * 2 ^ s \<le> 2 ^ s" using assms(2) by simp
    ultimately have "b * 2 ^ s + r < 2 ^ j" "r < 2 ^ j"
      using assms(1) unfolding power_Suc by linarith+
    with 3 show ?thesis by (simp add: bit_iff_odd)
  qed
qed

lemma bit_brev: "bit (brev s i) j \<longleftrightarrow> j < s \<and> bit i (s - 1 - j)"
proof (induction s arbitrary: i j)
  case (Suc s)
  have low: "bit (brev (Suc s) i) j \<longleftrightarrow> (if j = s then i mod 2 = 1 else bit (brev s (i div 2)) j)"
    unfolding brev.simps by (rule bit_top_or_low [OF brev_less]) auto
  show ?case
  proof (cases "j < s")
    case True
    then have "s - j = Suc (s - 1 - j)" by simp
    with True show ?thesis unfolding low Suc.IH by (simp add: bit_Suc)
  next
    case False
    then show ?thesis unfolding low Suc.IH by (auto simp: bit_0 odd_iff_mod_2_eq_one)
  qed
qed simp

lemma brev_brev: "i < 2 ^ s \<Longrightarrow> brev s (brev s i) = i"
proof (rule bit_eqI)
  fix j assume "i < 2 ^ s"
  then have "\<not> bit i j" if "s \<le> j" using that
    by (metis bit_take_bit_iff leD take_bit_nat_eq_self)
  then show "bit (brev s (brev s i)) j = bit i j"
    by (cases "j < s") (auto simp: bit_brev)
qed

subsection \<open>The carry runs from the top bit down\<close>

lemma and_pow_minus_1: "(m :: nat) AND (2 ^ j - 1) = m mod 2 ^ j"
  using take_bit_eq_mask [of j m] by (simp add: take_bit_eq_mod mask_eq_exp_minus_1)

lemma find_l_diff: "nn - mr = nn' - mr' \<Longrightarrow> find_l nn mr l = find_l nn' mr' l"
proof (induction nn mr l arbitrary: nn' mr' rule: find_l.induct)
  case (1 nn mr l)
  show ?case
  proof (cases "l div 2 > nn - mr")
    case True
    have "find_l nn mr (l div 2) = find_l nn' mr' (l div 2)"
      by (rule "1.IH" [OF refl True "1.prems"])
    moreover have "find_l nn mr l = find_l nn mr (l div 2)"
      using True by (simp only: find_l.simps [of nn mr l] Let_def if_True)
    moreover have "find_l nn' mr' l = find_l nn' mr' (l div 2)"
      using True "1.prems" by (simp only: find_l.simps [of nn' mr' l] Let_def if_True)
    ultimately show ?thesis by (simp only:)
  next
    case False
    then have "find_l nn mr l = l div 2"
      by (simp only: find_l.simps [of nn mr l] Let_def if_False)
    moreover have "find_l nn' mr' l = l div 2"
      using False "1.prems" by (simp only: find_l.simps [of nn' mr' l] Let_def if_False)
    ultimately show ?thesis by (simp only:)
  qed
qed

lemma find_l_Suc:
  assumes "mr < 2 ^ Suc s" "2 ^ s \<le> mr"
  shows "find_l (2 ^ Suc s - 1) mr (2 ^ Suc s) = find_l (2 ^ s - 1) (mr - 2 ^ s) (2 ^ s)"
proof -
  have "find_l (2 ^ Suc s - 1) mr (2 ^ Suc s) = find_l (2 ^ Suc s - 1) mr (2 ^ s)"
    using assms by (subst find_l.simps) (auto simp: Let_def)
  also have "\<dots> = find_l (2 ^ s - 1) (mr - 2 ^ s) (2 ^ s)"
    using assms by (intro find_l_diff) simp
  finally show ?thesis .
qed

lemma find_l_bound: "0 < s \<Longrightarrow> mr < 2 ^ s - 1 \<Longrightarrow> find_l (2 ^ s - 1) mr (2 ^ s) \<in> (\<lambda>j. 2 ^ j) ` {..<s}"
proof (induction s arbitrary: mr)
  case (Suc s)
  show ?case
  proof (cases "2 ^ s \<le> mr")
    case True
    have "0 < s" using True Suc.prems by (cases s) auto
    then have "find_l (2 ^ s - 1) (mr - 2 ^ s) (2 ^ s) \<in> (\<lambda>j. 2 ^ j) ` {..<s}"
      using True Suc.prems by (intro Suc.IH) auto
    then show ?thesis using find_l_Suc [of mr s] True Suc.prems by auto
  next
    case False
    then have "\<not> 2 ^ s > 2 ^ Suc s - 1 - mr" by simp
    then show ?thesis by (subst find_l.simps) (auto simp: Let_def)
  qed
qed simp

lemma next_reversed_step:
  assumes "mr < 2 ^ Suc s - 1"
  shows "next_reversed (2 ^ Suc s) mr
    = (if mr < 2 ^ s then mr + 2 ^ s else next_reversed (2 ^ s) (mr - 2 ^ s))"
proof (cases "mr < 2 ^ s")
  case True
  then have "\<not> 2 ^ s > 2 ^ Suc s - 1 - mr" by simp
  then have "find_l (2 ^ Suc s - 1) mr (2 ^ Suc s) = 2 ^ s"
    by (subst find_l.simps) (simp add: Let_def)
  then have "next_reversed (2 ^ Suc s) mr = mr mod 2 ^ s + 2 ^ s"
    by (simp only: next_reversed_def Let_def and_pow_minus_1)
  with True show ?thesis by simp
next
  case False
  have "0 < s" using False assms by (cases s) auto
  moreover have "mr - 2 ^ s < 2 ^ s - 1" using False assms by simp
  ultimately obtain j where j: "j < s" "find_l (2 ^ s - 1) (mr - 2 ^ s) (2 ^ s) = 2 ^ j"
    using find_l_bound [of s "mr - 2 ^ s"] by auto
  have "(2::nat) ^ s = 2 ^ j * 2 ^ (s - j)" using j(1) by (simp flip: power_add)
  then have "(mr - 2 ^ s) mod 2 ^ j = mr mod 2 ^ j"
    using False by (metis le_add_diff_inverse mod_mult_self2 not_less add.commute)
  moreover have "find_l (2 ^ Suc s - 1) mr (2 ^ Suc s) = 2 ^ j"
    using find_l_Suc [of mr s] j(2) False assms by simp
  ultimately have "next_reversed (2 ^ Suc s) mr = next_reversed (2 ^ s) (mr - 2 ^ s)"
    by (simp only: next_reversed_def Let_def and_pow_minus_1 j(2))
  with False show ?thesis by simp
qed

lemma next_reversed_brev: "Suc i < 2 ^ s \<Longrightarrow> next_reversed (2 ^ s) (brev s i) = brev s (Suc i)"
proof (induction s arbitrary: i)
  case (Suc s)
  have b: "brev s (i div 2) < 2 ^ s" by (rule brev_less)
  show ?case
  proof (cases "even i")
    case True
    then have "brev (Suc s) i = brev s (i div 2)" by (simp add: even_iff_mod_2_eq_zero)
    moreover have "brev (Suc s) (Suc i) = 2 ^ s + brev s (i div 2)"
      using True by (simp add: mod_Suc_eq_mod_add3 mod2_eq_if)
    moreover have "brev s (i div 2) < 2 ^ Suc s - 1" using b Suc.prems True by auto
    ultimately show ?thesis using b by (simp add: next_reversed_step del: power_Suc)
  next
    case False
    then have i: "brev (Suc s) i = 2 ^ s + brev s (i div 2)" by (simp add: odd_iff_mod_2_eq_one)
    have "Suc i mod 2 = 0" "Suc i div 2 = Suc (i div 2)" using False by presburger+
    then have suc: "brev (Suc s) (Suc i) = brev s (Suc (i div 2))" by simp
    have d: "Suc (i div 2) < 2 ^ s" using Suc.prems False by (auto elim!: oddE)
    have ih: "next_reversed (2 ^ s) (brev s (i div 2)) = brev s (Suc (i div 2))"
      by (rule Suc.IH [OF d])
    have "brev (Suc s) i \<noteq> 2 ^ Suc s - 1"
    proof
      assume eq: "brev (Suc s) i = 2 ^ Suc s - 1"
      have "brev (Suc s) (2 ^ Suc s - 1) = brev (Suc s) (brev (Suc s) i)" by (simp only: eq)
      also have "\<dots> = i" using Suc.prems by (intro brev_brev) simp
      finally have "i = brev (Suc s) (2 ^ Suc s - 1)" by simp
      moreover have "brev t (mask t) = mask t" for t
        by (rule bit_eqI) (auto simp: bit_brev bit_mask_iff)
      then have "brev (Suc s) (2 ^ Suc s - 1) = 2 ^ Suc s - 1" by (simp only: mask_eq_exp_minus_1)
      ultimately show False using Suc.prems by simp
    qed
    then have "brev (Suc s) i < 2 ^ Suc s - 1" using brev_less [of "Suc s" i] by linarith
    then show ?thesis
      unfolding suc ih [symmetric] by (subst next_reversed_step) (auto simp only: i, simp)
  qed
qed simp

subsection \<open>Both loops make the same swaps\<close>

definition swap_indices :: "nat \<Rightarrow> nat \<Rightarrow> nat \<Rightarrow> nat list" where
  "swap_indices s a b = concat (map (\<lambda>m. if brev s m \<le> m then [] else [m, brev s m]) [a..<b])"

lemma swap_indices_Cons:
  "a < b \<Longrightarrow> swap_indices s a b = (if brev s a \<le> a then [] else [a, brev s a]) @ swap_indices s (Suc a) b"
  by (simp add: swap_indices_def upt_conv_Cons)

lemma reverse_loop_table:
  "m + k = 2 ^ s \<Longrightarrow> 0 < m \<Longrightarrow>
   reverse_loop k (2 ^ s) m (brev s (m - 1)) xs = table_loop (swap_indices s m (2 ^ s)) xs"
proof (induction k arbitrary: m xs)
  case 0
  then show ?case by (simp add: swap_indices_def)
next
  case (Suc k)
  have "next_reversed (2 ^ s) (brev s (m - 1)) = brev s m"
    using next_reversed_brev [of "m - 1" s] Suc.prems by simp
  then show ?case
    using Suc.IH [of "Suc m"] Suc.prems by (simp add: swap_indices_Cons Let_def)
qed

lemma brev_numeral:
  "brev (numeral k) i = (i mod 2) * 2 ^ pred_numeral k + brev (pred_numeral k) (i div 2)"
  by (simp add: numeral_eq_Suc)

lemma upt_from_1: "[1..<numeral k] = (if 1 < (numeral k :: nat) then 1 # [2..<numeral k] else [])"
  by (simp add: upt_conv_Cons numeral_2_eq_2)

lemma index_7_eq: "index_7 = swap_indices 7 1 128"
  unfolding index_7_def swap_indices_def upt_from_1 by (simp add: brev_numeral)

lemma index_8_eq: "index_8 = swap_indices 8 1 256"
  unfolding index_8_def swap_indices_def upt_from_1 by (simp add: brev_numeral)

lemma BitReverse_table:
  "WebRtcSpl_ComplexBitReverse xs s = table_loop (swap_indices s 1 (2 ^ s)) xs"
  using reverse_loop_table [of 1 "2 ^ s - 1" s xs]
  by (auto simp: WebRtcSpl_ComplexBitReverse_def Let_def index_7_eq index_8_eq)

subsection \<open>The swaps are the bit-reversal permutation\<close>

lemma length_swap_elems [simp]: "length (swap_elems i j xs) = length xs"
  by (simp add: swap_elems_def Let_def)

lemma nth_swap_elems:
  "i < length xs \<Longrightarrow> j < length xs \<Longrightarrow> k < length xs \<Longrightarrow>
   swap_elems i j xs ! k = xs ! (if k = i then j else if k = j then i else k)"
  by (simp add: swap_elems_def Let_def nth_list_update)

lemma swaps_correct:
  assumes "length xs = 2 ^ s" "length ys = 2 ^ s" "m \<le> 2 ^ s"
    and "\<And>i. i < 2 ^ s \<Longrightarrow> ys ! i = xs ! (if i < m \<or> brev s i < m then brev s i else i)"
  shows "length (table_loop (swap_indices s m (2 ^ s)) ys) = 2 ^ s \<and>
    (\<forall>i < 2 ^ s. table_loop (swap_indices s m (2 ^ s)) ys ! i = xs ! brev s i)"
  using assms
proof (induction "2 ^ s - m" arbitrary: m ys)
  case 0
  then show ?case by (simp add: swap_indices_def)
next
  case (Suc k)
  then have m: "m < 2 ^ s" by simp
  have bm: "brev s m < 2 ^ s" by (rule brev_less)
  have inj: "brev s i = m \<longleftrightarrow> i = brev s m" "brev s i = brev s m \<longleftrightarrow> i = m" if "i < 2 ^ s" for i
    using brev_brev [OF that] brev_brev [OF m] by metis+
  let ?ys = "if brev s m \<le> m then ys else swap_elems m (brev s m) ys"
  have "?ys ! i = xs ! (if i < Suc m \<or> brev s i < Suc m then brev s i else i)" if i: "i < 2 ^ s" for i
    using Suc.prems(4) [OF i] Suc.prems(4) [OF m] Suc.prems(4) [OF bm] Suc.prems(2) m bm i
      inj [OF i] brev_brev [OF m]
    by (cases "i = m"; cases "i = brev s m") (auto simp: nth_swap_elems less_Suc_eq)
  then have "length (table_loop (swap_indices s (Suc m) (2 ^ s)) ?ys) = 2 ^ s \<and>
      (\<forall>i < 2 ^ s. table_loop (swap_indices s (Suc m) (2 ^ s)) ?ys ! i = xs ! brev s i)"
    using Suc m by (intro Suc.hyps(1)) auto
  then show ?case using m by (cases "brev s m \<le> m") (simp_all add: swap_indices_Cons)
qed

lemma BitReverse_correct:
  assumes "length xs = 2 ^ s"
  shows "length (WebRtcSpl_ComplexBitReverse xs s) = 2 ^ s"
    and "\<And>i. i < 2 ^ s \<Longrightarrow> WebRtcSpl_ComplexBitReverse xs s ! i = xs ! brev s i"
proof -
  have "i = 0" if "brev s i = 0" "i < 2 ^ s" for i
    using brev_brev [of i s] that by simp
  then have start: "xs ! i = xs ! (if i < 1 \<or> brev s i < 1 then brev s i else i)" if "i < 2 ^ s" for i
    using that by auto
  have "length (table_loop (swap_indices s 1 (2 ^ s)) xs) = 2 ^ s \<and>
      (\<forall>i < 2 ^ s. table_loop (swap_indices s 1 (2 ^ s)) xs ! i = xs ! brev s i)"
    by (rule swaps_correct [OF assms assms _ start]) simp_all
  then show "length (WebRtcSpl_ComplexBitReverse xs s) = 2 ^ s"
    and "\<And>i. i < 2 ^ s \<Longrightarrow> WebRtcSpl_ComplexBitReverse xs s ! i = xs ! brev s i"
    by (simp_all add: BitReverse_table)
qed

text \<open>C25: \<open>WebRtcSpl_ComplexBitReverse\<close> is the bit-reversal permutation for any number of
  stages, through the tables for 7 and 8 stages and through the generic loop otherwise: position
  \<open>i\<close> receives the value at the index whose \<open>s\<close> bits are those of \<open>i\<close> in reverse order, and
  applying it a second time restores the buffer.\<close>

theorem complex_bit_reverse_correct:
  assumes "length xs = 2 ^ s"
  shows "(\<forall>i j. i < 2 ^ s \<longrightarrow> j < 2 ^ s \<longrightarrow> (\<forall>k < s. bit j k = bit i (s - 1 - k)) \<longrightarrow>
            WebRtcSpl_ComplexBitReverse xs s ! i = xs ! j) \<and>
         WebRtcSpl_ComplexBitReverse (WebRtcSpl_ComplexBitReverse xs s) s = xs"
proof (intro conjI allI impI)
  fix i j :: nat
  assume i: "i < 2 ^ s" and j: "j < 2 ^ s" and rev: "\<forall>k < s. bit j k = bit i (s - 1 - k)"
  have "\<not> bit j k" if "s \<le> k" for k
    using that j by (metis bit_take_bit_iff leD take_bit_nat_eq_self)
  then have "j = brev s i"
    using rev by (intro bit_eqI) (metis bit_brev not_le)
  then show "WebRtcSpl_ComplexBitReverse xs s ! i = xs ! j"
    using BitReverse_correct(2) [OF assms i] by simp
next
  note once = BitReverse_correct [OF assms]
  note twice = BitReverse_correct [OF once(1)]
  show "WebRtcSpl_ComplexBitReverse (WebRtcSpl_ComplexBitReverse xs s) s = xs"
    using twice once assms by (intro nth_equalityI) (simp_all add: brev_less brev_brev)
qed

theorem complex_bit_reverse_correct_witness:
  "WebRtcSpl_ComplexBitReverse [0, 1, 2, 3, 4, 5, 6, 7 :: nat] 3 ! 1 = 4 \<and>
   WebRtcSpl_ComplexBitReverse (WebRtcSpl_ComplexBitReverse [0, 1, 2, 3, 4, 5, 6, 7 :: nat] 3) 3
   = [0, 1, 2, 3, 4, 5, 6, 7]"
proof -
  have "\<forall>k < 3. bit (4 :: nat) k = bit (1 :: nat) (3 - 1 - k)"
  proof (intro allI impI)
    fix k :: nat
    assume "k < 3"
    then have "k = 0 \<or> k = 1 \<or> k = 2" by linarith
    then show "bit (4 :: nat) k = bit (1 :: nat) (3 - 1 - k)" by (auto simp: bit_iff_odd)
  qed
  moreover have len: "length [0, 1, 2, 3, 4, 5, 6, 7 :: nat] = 2 ^ 3" by simp
  moreover have "(1::nat) < 2 ^ 3" "(4::nat) < 2 ^ 3" by simp_all
  ultimately have "WebRtcSpl_ComplexBitReverse [0, 1, 2, 3, 4, 5, 6, 7 :: nat] 3 ! 1
      = [0, 1, 2, 3, 4, 5, 6, 7] ! 4"
    using complex_bit_reverse_correct [OF len] by blast
  with complex_bit_reverse_correct [OF len] show ?thesis by simp
qed

end
