(* ===== verification/Spl_Random.thy ===== *)
theory Spl_Random
  imports Prelude
begin

section \<open>Random numbers (\<open>randomization_functions.c\<close>)\<close>

text \<open>
  The generator of the comfort noise: a linear congruential generator on 31 bits, whose upper bits
  are the uniform samples and index a table of normally distributed samples. The functions take
  the seed and return the value and the new seed. The lemmas show that the generator has full
  period (every 31-bit seed occurs exactly once in \<open>2 ^ 31\<close> steps, whatever the start), so that its
  samples are equidistributed, and which samples occur at all.
\<close>

unbundle bit_operations_syntax

subsection \<open>The code\<close>

definition kMaxSeedUsed :: int where
  "kMaxSeedUsed = 0x80000000"

definition kRandNTable :: "int list" where
  "kRandNTable =
     [9178, -7260, 40, 10189, 4894, -3531, -13779, 14764,
      -4008, -8884, -8990, 1008, 7368, 5184, 3251, -5817,
      -9786, 5963, 1770, 8066, -7135, 10772, -2298, 1361,
      6484, 2241, -8633, 792, 199, -3344, 6553, -10079,
      -15040, 95, 11608, -12469, 14161, -4176, 2476, 6403,
      13685, -16005, 6646, 2239, 10916, -3004, -602, -3141,
      2142, 14144, -5829, 5305, 8209, 4713, 2697, -5112,
      16092, -1210, -2891, -6631, -5360, -11878, -6781, -2739,
      -6392, 536, 10923, 10872, 5059, -4748, -7770, 5477,
      38, -1025, -2892, 1638, 6304, 14375, -11028, 1553,
      -1565, 10762, -393, 4040, 5257, 12310, 6554, -4799,
      4899, -6354, 1603, -1048, -2220, 8247, -186, -8944,
      -12004, 2332, 4801, -4933, 6371, 131, 8614, -5927,
      -8287, -22760, 4033, -15162, 3385, 3246, 3153, -5250,
      3766, 784, 6494, -62, 3531, -1582, 15572, 662,
      -3952, -330, -3196, 669, 7236, -2678, -6569, 23319,
      -8645, -741, 14830, -15976, 4903, 315, -11342, 10311,
      1858, -7777, 2145, 5436, 5677, -113, -10033, 826,
      -1353, 17210, 7768, 986, -1471, 8291, -4982, 8207,
      -14911, -6255, -2449, -11881, -7059, -11703, -4338, 8025,
      7538, -2823, -12490, 9470, -1613, -2529, -10092, -7807,
      9480, 6970, -12844, 5123, 3532, 4816, 4803, -8455,
      -5045, 14032, -4378, -1643, 5756, -11041, -2732, -16618,
      -6430, -18375, -3320, 6098, 5131, -4269, -8840, 2482,
      -7048, 1547, -21890, -6505, -7414, -424, -11722, 7955,
      1653, -17299, 1823, 473, -9232, 3337, 1111, 873,
      4018, -8982, 9889, 3531, -11763, -3799, 7373, -4539,
      3231, 7054, -8537, 7616, 6244, 16635, 447, -2915,
      13967, 705, -2669, -1520, -1771, -16188, 5956, 5117,
      6371, -9936, -1448, 2480, 5128, 7550, -8130, 5236,
      8213, -6443, 7707, -1950, -13811, 7218, 7031, -3883,
      67, 5731, -2874, 13480, -3743, 9298, -3280, 3552,
      -4425, -18, -3785, -9988, -5357, 5477, -11794, 2117,
      1416, -9935, 3376, 802, -5079, -8243, 12652, 66,
      3653, -2368, 6781, -21895, -7227, 2487, 7839, -385,
      6646, -7016, -4658, 5531, -1705, 834, 129, 3694,
      -1343, 2238, -22640, -6417, -11139, 11301, -2945, -3494,
      -5626, 185, -3615, -2041, -7972, -3106, -60, -23497,
      -1566, 17064, 3519, 2518, 304, -6805, -10269, 2105,
      1936, -426, -736, -8122, -1467, 4238, -6939, -13309,
      360, 7402, -7970, 12576, 3287, 12194, -6289, -16006,
      9171, 4042, -9193, 9123, -2512, 6388, -4734, -8739,
      1028, -5406, -1696, 5889, -666, -4736, 4971, 3565,
      9362, -6292, 3876, -3652, -19666, 7523, -4061, 391,
      -11773, 7502, -3763, 4929, -9478, 13278, 2805, 4496,
      7814, 16419, 12455, -14773, 2127, -2746, 3763, 4847,
      3698, 6978, 4751, -6957, -3581, -45, 6252, 1513,
      -4797, -7925, 11270, 16188, -2359, -5269, 9376, -10777,
      7262, 20031, -6515, -2208, -5353, 8085, -1341, -1303,
      7333, 5576, 3625, 5763, -7931, 9833, -3371, -10305,
      6534, -13539, -9971, 997, 8464, -4064, -1495, 1857,
      13624, 5458, 9490, -11086, -4524, 12022, -550, -198,
      408, -8455, -7068, 10289, 9712, -3366, 9028, -7621,
      -5243, 2362, 6909, 4672, -4933, -1799, 4709, -4563,
      -62, -566, 1624, -7010, 14730, -17791, -3697, -2344,
      -1741, 7099, -9509, -6855, -1989, 3495, -2289, 2031,
      12784, 891, 14189, -3963, -5683, 421, -12575, 1724,
      -12682, -5970, -8169, 3143, -1824, -5488, -5130, 8536,
      12799, 794, 5738, 3459, -11689, -258, -3738, -3775,
      -8742, 2333, 8312, -9383, 10331, 13119, 8398, 10644,
      -19433, -6446, -16277, -11793, 16284, 9345, 15222, 15834,
      2009, -7349, 130, -14547, 338, -5998, 3337, 21492,
      2406, 7703, -951, 11196, -564, 3406, 2217, 4806,
      2374, -5797, 11839, 8940, -11874, 18213, 2855, 10492]"

definition IncreaseSeed :: "int \<Rightarrow> int" where
  "IncreaseSeed seed = u32 (u32 (seed * 69069) + 1) AND u32 (kMaxSeedUsed - 1)"

definition WebRtcSpl_RandU :: "int \<Rightarrow> int \<times> int" where
  "WebRtcSpl_RandU seed = (let seed = IncreaseSeed seed in (s16 (shr seed 16), seed))"

definition WebRtcSpl_RandN :: "int \<Rightarrow> int \<times> int" where
  "WebRtcSpl_RandN seed = (let seed = IncreaseSeed seed in (kRandNTable ! nat (shr seed 23), seed))"

fun randu_loop :: "nat \<Rightarrow> int \<Rightarrow> int list \<times> int" where
  "randu_loop 0 seed = ([], seed)"
| "randu_loop (Suc n) seed =
     (let (v, seed) = WebRtcSpl_RandU seed; (vs, seed) = randu_loop n seed in (v # vs, seed))"

text \<open>Returns the samples written, the return value and the seed.\<close>

definition WebRtcSpl_RandUArray :: "int \<Rightarrow> int \<Rightarrow> int list \<times> int \<times> int" where
  "WebRtcSpl_RandUArray vector_length seed =
     (let (vs, seed) = randu_loop (nat vector_length) seed in (vs, vector_length, seed))"

subsection \<open>Powers of two in sums of powers\<close>

text \<open>A geometric sum with a ratio of the form \<open>4 q + 1\<close> contains the factor two as often as its
  number of summands.\<close>

fun powers_sum :: "int \<Rightarrow> nat \<Rightarrow> int" where
  "powers_sum a 0 = 0"
| "powers_sum a (Suc n) = a * powers_sum a n + 1"

lemma powers_sum_add: "powers_sum a (m + n) = a ^ m * powers_sum a n + powers_sum a m"
  by (induction m) (simp_all add: algebra_simps)

lemma powers_sum_double: "powers_sum a (2 * m) = powers_sum a m * (a ^ m + 1)"
  using powers_sum_add [of a m m] by (simp only: mult_2) (simp add: algebra_simps)

lemma powers_sum_geometric: "a ^ n - 1 = (a - 1) * powers_sum a n"
proof (induction n)
  case (Suc n)
  have "a ^ Suc n - 1 = a * (a ^ n - 1) + (a - 1)" by (simp add: algebra_simps)
  also have "\<dots> = (a - 1) * powers_sum a (Suc n)" unfolding Suc by (simp add: algebra_simps)
  finally show ?case .
qed simp

lemma powers_sum_odd: "odd a \<Longrightarrow> odd (powers_sum a n) = odd n"
  by (induction n) auto

lemma dvd_powers_sum_iff:
  assumes a: "a mod 4 = 1"
  shows "2 ^ k dvd powers_sum a n \<longleftrightarrow> 2 ^ k dvd n"
proof (induction k arbitrary: n)
  case (Suc k)
  have "odd a" using a by presburger
  show ?case
  proof (cases "even n")
    case False
    then have "odd (powers_sum a n)" using \<open>odd a\<close> by (simp add: powers_sum_odd)
    then show ?thesis using False by auto
  next
    case True
    then obtain m where n: "n = 2 * m" by (elim evenE)
    have "a ^ m mod 4 = 1" using power_mod [of a 4 m] a by simp
    then have c: "a ^ m + 1 = 2 * (2 * (a ^ m div 4) + 1)" by presburger
    have "powers_sum a n = 2 * (powers_sum a m * (2 * (a ^ m div 4) + 1))"
      unfolding n powers_sum_double c by simp
    moreover have "coprime (2 ^ k) (2 * (a ^ m div 4) + 1)" by simp
    ultimately have "2 ^ Suc k dvd powers_sum a n \<longleftrightarrow> 2 ^ k dvd powers_sum a m"
      by (simp add: coprime_dvd_mult_left_iff)
    then show ?thesis using Suc.IH by (simp add: n)
  qed
qed simp

subsection \<open>The generator has full period\<close>

lemma IncreaseSeed_eq: "IncreaseSeed seed = (69069 * seed + 1) mod 2 ^ 31"
proof -
  have "u32 (kMaxSeedUsed - 1) = mask 31"
    by (simp add: u32_def kMaxSeedUsed_def mask_eq_exp_minus_1)
  then have "IncreaseSeed seed = (u32 (u32 (seed * 69069) + 1)) mod 2 ^ 31"
    by (simp add: IncreaseSeed_def take_bit_eq_mod flip: take_bit_eq_mask)
  also have "u32 (u32 (seed * 69069) + 1) = (69069 * seed + 1) mod 2 ^ 32"
    by (simp add: u32_def mod_simps mult.commute)
  also have "\<dots> mod 2 ^ 31 = (69069 * seed + 1) mod 2 ^ 31"
    by (rule mod_mod_cancel) simp
  finally show ?thesis .
qed

definition seed_after :: "int \<Rightarrow> nat \<Rightarrow> int" where
  "seed_after seed n = (IncreaseSeed ^^ n) seed"

lemma seed_after_Suc: "seed_after seed (Suc n) = IncreaseSeed (seed_after seed n)"
  by (simp add: seed_after_def)

lemma seed_after_add: "seed_after seed (m + n) = seed_after (seed_after seed m) n"
  by (simp add: seed_after_def add.commute [of m n] funpow_add)

lemma seed_after_range: "0 < n \<Longrightarrow> seed_after seed n \<in> {0..<2 ^ 31}"
  by (cases n) (simp_all add: seed_after_Suc IncreaseSeed_eq)

lemma seed_after_mod:
  "seed_after seed n mod 2 ^ 31 = (69069 ^ n * seed + powers_sum 69069 n) mod 2 ^ 31"
proof (induction n)
  case (Suc n)
  have "seed_after seed (Suc n) mod 2 ^ 31 = (69069 * (seed_after seed n mod 2 ^ 31) + 1) mod 2 ^ 31"
    unfolding seed_after_Suc IncreaseSeed_eq by (metis mod_add_left_eq mod_mod_trivial mod_mult_right_eq)
  also have "\<dots> = (69069 * (69069 ^ n * seed + powers_sum 69069 n) + 1) mod 2 ^ 31"
    unfolding Suc by (metis mod_add_left_eq mod_mult_right_eq)
  finally show ?case by (simp add: algebra_simps)
qed (simp add: seed_after_def)

lemma seed_after_returns:
  "seed_after seed n mod 2 ^ 31 = seed mod 2 ^ 31 \<longleftrightarrow> 2 ^ 31 dvd n"
proof -
  let ?S = "powers_sum 69069 n"
  have "69069 ^ n * seed + ?S - seed = ?S * (69068 * seed + 1)"
    using powers_sum_geometric [of 69069 n] by (simp add: algebra_simps)
  moreover have "coprime (2 ^ 31) (69068 * seed + 1)"
    by (simp only: coprime_power_left_iff) simp
  ultimately have "seed_after seed n mod 2 ^ 31 = seed mod 2 ^ 31 \<longleftrightarrow> 2 ^ 31 dvd ?S"
    by (simp only: seed_after_mod mod_eq_dvd_iff coprime_dvd_mult_left_iff)
  then show ?thesis
    using dvd_powers_sum_iff [of 69069 31 n] by simp
qed

lemma seed_after_inj:
  "inj_on (seed_after seed) {1..2 ^ 31}"
proof (rule linorder_inj_onI)
  fix i j :: nat
  assume ij: "i < j" "i \<in> {1..2 ^ 31}" "j \<in> {1..2 ^ 31}"
  have "\<not> 2 ^ 31 dvd j - i" using ij by (auto dest: dvd_imp_le)
  then have "seed_after (seed_after seed i) (j - i) \<noteq> seed_after seed i"
    using seed_after_returns by metis
  then show "seed_after seed i \<noteq> seed_after seed j"
    using seed_after_add [of seed i "j - i"] ij by simp
qed auto

lemma seed_after_bij: "bij_betw (seed_after seed) {1..2 ^ 31} {0..<2 ^ 31}"
proof -
  have "seed_after seed ` {1..2 ^ 31} = {0..<2 ^ 31}"
  proof (rule card_subset_eq)
    show "seed_after seed ` {1..2 ^ 31} \<subseteq> {0..<2 ^ 31}"
      using seed_after_range by force
    show "card (seed_after seed ` {1..2 ^ 31}) = card {0..<2 ^ 31 :: int}"
      by (simp only: card_image [OF seed_after_inj] card_atLeastAtMost card_atLeastLessThan_int) simp
  qed simp
  with seed_after_inj show ?thesis by (simp add: bij_betw_def)
qed

subsection \<open>The samples\<close>

lemma card_bij_filter:
  assumes "bij_betw f A B"
  shows "card {a \<in> A. P (f a)} = card {b \<in> B. P b}"
proof (rule bij_betw_same_card)
  show "bij_betw f {a \<in> A. P (f a)} {b \<in> B. P b}"
    using assms by (auto simp: bij_betw_def intro: inj_on_subset)
qed

lemma RandU_eq: "WebRtcSpl_RandU seed = (IncreaseSeed seed div 2 ^ 16, IncreaseSeed seed)"
proof -
  have "0 \<le> IncreaseSeed seed" "IncreaseSeed seed < 2 ^ 31"
    by (simp_all add: IncreaseSeed_eq)
  then have "0 \<le> IncreaseSeed seed div 2 ^ 16" "IncreaseSeed seed div 2 ^ 16 \<le> 32767"
    by auto
  then show ?thesis by (simp add: WebRtcSpl_RandU_def Let_def shr_def s16_def)
qed

lemma RandU_loop_eq:
  "randu_loop n seed = (map (\<lambda>i. fst (WebRtcSpl_RandU (seed_after seed i))) [0..<n], seed_after seed n)"
proof (induction n arbitrary: seed)
  case (Suc n)
  have "seed_after (IncreaseSeed seed) i = seed_after seed (Suc i)" for i
    by (simp add: seed_after_def funpow_swap1)
  then show ?case
    using Suc [of "IncreaseSeed seed"]
    by (simp add: RandU_eq Let_def upt_conv_Cons map_Suc_upt [symmetric] del: upt_Suc)
      (simp add: seed_after_def)
qed (simp add: seed_after_def)

lemma upper_bits:
  fixes v :: int
  shows "card {s \<in> {0..<2 ^ 31}. s div 2 ^ 16 = v} = (if 0 \<le> v \<and> v \<le> 32767 then 2 ^ 16 else 0)"
proof (cases "0 \<le> v \<and> v \<le> 32767")
  case True
  have "{s \<in> {0..<2 ^ 31}. s div 2 ^ 16 = v} = {v * 2 ^ 16..<(v + 1) * 2 ^ 16}"
    using True by auto
  then show ?thesis using True by simp
next
  case False
  then have "{s \<in> {0..<2 ^ 31}. s div 2 ^ 16 = v} = {}" by auto
  then show ?thesis by (simp only: card.empty if_not_P [OF False])
qed

lemma RandN_index: "nat (shr (IncreaseSeed seed) 23) < 256"
proof -
  have "0 \<le> IncreaseSeed seed" "IncreaseSeed seed < 2 ^ 31"
    by (simp_all add: IncreaseSeed_eq)
  then show ?thesis by (simp add: shr_def)
qed

lemma length_kRandNTable: "length kRandNTable = 512"
  by (simp add: kRandNTable_def)

lemma RandU_count:
  "card {n \<in> {0..<2 ^ 31}. fst (WebRtcSpl_RandU (seed_after seed n)) = v} =
     (if 0 \<le> v \<and> v \<le> 32767 then 2 ^ 16 else 0)"
proof -
  define A where "A = {n \<in> {0..<2 ^ 31}. fst (WebRtcSpl_RandU (seed_after seed n)) = v}"
  have "Suc ` A = {n \<in> {1..2 ^ 31}. seed_after seed n div 2 ^ 16 = v}"
  proof (intro equalityI subsetI)
    fix m assume "m \<in> {n \<in> {1..2 ^ 31}. seed_after seed n div 2 ^ 16 = v}"
    moreover from this obtain n where "m = Suc n" by (cases m) auto
    ultimately show "m \<in> Suc ` A"
      by (auto simp: A_def RandU_eq seed_after_Suc)
  qed (auto simp: A_def RandU_eq seed_after_Suc)
  moreover have "card (Suc ` A) = card A" by (rule card_image) simp
  ultimately have "card A = card {n \<in> {1..2 ^ 31}. seed_after seed n div 2 ^ 16 = v}"
    by simp
  also have "\<dots> = card {s \<in> {0..<2 ^ 31}. s div 2 ^ 16 = v}"
    by (rule card_bij_filter [OF seed_after_bij])
  finally show ?thesis unfolding A_def by (simp only: upper_bits)
qed

lemma seed_after_periodic: "seed_after seed (2 ^ 31 + Suc n) = seed_after seed (Suc n)"
proof -
  have "seed_after seed (Suc n + 2 ^ 31) mod 2 ^ 31 = seed_after seed (Suc n) mod 2 ^ 31"
    unfolding seed_after_add [of seed "Suc n"] by (simp only: seed_after_returns dvd_refl)
  then show ?thesis
    using seed_after_range [of "Suc n" seed] seed_after_range [of "Suc n + 2 ^ 31" seed]
    by (simp only: add.commute) simp
qed

subsection \<open>Property\<close>

text \<open>C26: the generator has full period. From any seed, \<open>2 ^ 31\<close> steps visit every 31-bit seed
  exactly once and the sequence then repeats. Hence in a period \<open>WebRtcSpl_RandU\<close> returns each of
  the values 0 to 32767 exactly \<open>2 ^ 16\<close> times, but it never returns a negative value, and
  \<open>WebRtcSpl_RandN\<close> only ever reads the first 256 of the 512 entries of its table.
  \<open>WebRtcSpl_RandUArray\<close> delivers consecutive samples and advances the seed as often.\<close>

theorem random_full_period:
  fixes seed v :: int and n :: nat
  shows "bij_betw (\<lambda>n. (IncreaseSeed ^^ n) seed) {1..2 ^ 31} {0..<2 ^ 31} \<and>
    (IncreaseSeed ^^ (2 ^ 31 + Suc n)) seed = (IncreaseSeed ^^ Suc n) seed \<and>
    card {n \<in> {0..<2 ^ 31}. fst (WebRtcSpl_RandU ((IncreaseSeed ^^ n) seed)) = v} =
      (if 0 \<le> v \<and> v \<le> 32767 then 2 ^ 16 else 0) \<and>
    length kRandNTable = 512 \<and> fst (WebRtcSpl_RandN seed) \<in> set (take 256 kRandNTable) \<and>
    snd (WebRtcSpl_RandU seed) = IncreaseSeed seed \<and> snd (WebRtcSpl_RandN seed) = IncreaseSeed seed \<and>
    WebRtcSpl_RandUArray k seed =
      (map (\<lambda>i. fst (WebRtcSpl_RandU ((IncreaseSeed ^^ i) seed))) [0..<nat k], k,
       (IncreaseSeed ^^ nat k) seed)"
proof (intro conjI)
  show "bij_betw (\<lambda>n. (IncreaseSeed ^^ n) seed) {1..2 ^ 31} {0..<2 ^ 31}"
    using seed_after_bij [of seed] unfolding seed_after_def [abs_def] .
  show "(IncreaseSeed ^^ (2 ^ 31 + Suc n)) seed = (IncreaseSeed ^^ Suc n) seed"
    using seed_after_periodic [of seed n] by (simp only: seed_after_def)
  show "card {n \<in> {0..<2 ^ 31}. fst (WebRtcSpl_RandU ((IncreaseSeed ^^ n) seed)) = v} =
      (if 0 \<le> v \<and> v \<le> 32767 then 2 ^ 16 else 0)"
    using RandU_count [of seed v] by (simp only: seed_after_def)
  have "nat (shr (IncreaseSeed seed) 23) < length (take 256 kRandNTable)"
    using RandN_index [of seed] by (simp add: length_kRandNTable)
  then have "take 256 kRandNTable ! nat (shr (IncreaseSeed seed) 23) \<in> set (take 256 kRandNTable)"
    by (rule nth_mem)
  then show "fst (WebRtcSpl_RandN seed) \<in> set (take 256 kRandNTable)"
    using RandN_index [of seed] by (simp add: WebRtcSpl_RandN_def Let_def)
  show "WebRtcSpl_RandUArray k seed =
      (map (\<lambda>i. fst (WebRtcSpl_RandU ((IncreaseSeed ^^ i) seed))) [0..<nat k], k,
       (IncreaseSeed ^^ nat k) seed)"
    by (simp add: WebRtcSpl_RandUArray_def RandU_loop_eq seed_after_def)
qed (simp_all add: RandU_eq WebRtcSpl_RandN_def Let_def length_kRandNTable)

end
