(* ===== verification/Spl_Filters.thy ===== *)
theory Spl_Filters
  imports Spl_Resample Spl_Vector
begin

section \<open>Signal processing library: recursive filters and the two-band filter bank\<close>

text \<open>
  \<open>filter_ar.c\<close>, \<open>filter_ar_fast_q12.c\<close>, \<open>filter_ma_fast_q12.c\<close>, \<open>resample_by_2.c\<close> (generic C variant) and
  \<open>splitting_filter_imp.c\<close>. The filters keep their past in different ways: in state arrays
  (\<open>WebRtcSpl_FilterAR\<close>, the resamplers, the filter bank) or in the samples in front of the pointer
  they are given (the two fast filters), where the model keeps the whole array with the position of
  the pointer. Arrays that are uninitialised in C are arguments of the model. The lemmas show that
  all of them are streaming in the sense of the interface \<open>frame_filter\<close>, and that the rounding and
  saturation are those of the exact convolution where the accumulators are wide enough.
\<close>

unbundle bit_operations_syntax

subsection \<open>Scaled differences\<close>

definition scalediff32 :: "int \<Rightarrow> int \<Rightarrow> int \<Rightarrow> int" where
  "scalediff32 A B C = s32 (u32 (add32 C (shr B 16 * A) + shr (u32 ((B AND 0x0000FFFF) * A)) 16))"

lemma scalediff32_eq:
  assumes "0 \<le> A" "A \<le> 65535"
  shows "scalediff32 A B C = s32 (C + B * A div 65536)"
proof -
  have m: "B AND 0xFFFF = B mod 65536"
    using take_bit_eq_mask [of 16 B] by (simp add: mask_eq_exp_minus_1 take_bit_eq_mod)
  have r: "0 \<le> B mod 65536" "B mod 65536 \<le> 65535" using pos_mod_bound [of 65536 B] by simp_all
  then have "(B mod 65536) * A \<le> 65535 * 65535" using assms by (intro mult_mono) auto
  moreover have "0 \<le> (B mod 65536) * A" using assms by simp
  ultimately have u: "u32 ((B mod 65536) * A) = (B mod 65536) * A" by (intro u32_idI) auto
  have "B * A = (B div 65536 * A) * 65536 + (B mod 65536) * A"
    using div_mult_mod_eq [of B 65536] by (metis distrib_right mult.assoc mult.commute)
  then have "B * A div 65536 = B div 65536 * A + (B mod 65536) * A div 65536" by simp
  then show ?thesis by (simp add: scalediff32_def m u shr_def add32_def add.assoc)
qed

subsection \<open>Resampling by two (\<open>resample_by_2.c\<close>)\<close>

definition kResampleAllpass1 :: "int list" where
  "kResampleAllpass1 = [3284, 24441, 49528]"

definition kResampleAllpass2 :: "int list" where
  "kResampleAllpass2 = [12199, 37471, 60255]"

text \<open>One allpass branch: the four registers before and after.\<close>

definition by2_allpass :: "int list \<Rightarrow> int \<Rightarrow> quad \<Rightarrow> quad" where
  "by2_allpass k in32 = (\<lambda>(state0, state1, state2, state3).
     (let diff = sub32 in32 state1;
          tmp1 = scalediff32 (k ! 0) diff state0;
          state0 = in32;
          diff = sub32 tmp1 state2;
          tmp2 = scalediff32 (k ! 1) diff state1;
          state1 = tmp1;
          diff = sub32 tmp2 state3;
          state3 = scalediff32 (k ! 2) diff state2;
          state2 = tmp2
      in (state0, state1, state2, state3)))"

definition fourth :: "quad \<Rightarrow> int" where
  "fourth q = snd (snd (snd q))"

fun down_by2_loop :: "nat \<Rightarrow> int list \<Rightarrow> quad \<Rightarrow> quad \<Rightarrow> int list \<times> quad \<times> quad" where
  "down_by2_loop 0 inp lo up = ([], lo, up)"
| "down_by2_loop (Suc i) inp lo up =
     (let lo = by2_allpass kResampleAllpass2 (mul32 (inp ! 0) (2 ^ 10)) lo;
          up = by2_allpass kResampleAllpass1 (mul32 (inp ! 1) (2 ^ 10)) up;
          out32 = shr (add32 (add32 (fourth lo) (fourth up)) 1024) 11;
          (out, lo, up) = down_by2_loop i (drop 2 inp) lo up
      in (WebRtcSpl_SatW32ToW16 out32 # out, lo, up))"

definition WebRtcSpl_DownsampleBy2 :: "int list \<Rightarrow> nat \<Rightarrow> int list \<Rightarrow> int list \<times> int list" where
  "WebRtcSpl_DownsampleBy2 inp len filtState =
     (let (out, lo, up) = down_by2_loop (len div 2) inp (get4 0 filtState) (get4 4 filtState)
      in (out, put4 4 up (put4 0 lo filtState)))"

fun up_by2_loop :: "nat \<Rightarrow> int list \<Rightarrow> quad \<Rightarrow> quad \<Rightarrow> int list \<times> quad \<times> quad" where
  "up_by2_loop 0 inp lo up = ([], lo, up)"
| "up_by2_loop (Suc i) inp lo up =
     (let in32 = mul32 (inp ! 0) (2 ^ 10);
          lo = by2_allpass kResampleAllpass1 in32 lo;
          out0 = shr (add32 (fourth lo) 512) 10;
          up = by2_allpass kResampleAllpass2 in32 up;
          out1 = shr (add32 (fourth up) 512) 10;
          (out, lo, up) = up_by2_loop i (drop 1 inp) lo up
      in (WebRtcSpl_SatW32ToW16 out0 # WebRtcSpl_SatW32ToW16 out1 # out, lo, up))"

definition WebRtcSpl_UpsampleBy2 :: "int list \<Rightarrow> nat \<Rightarrow> int list \<Rightarrow> int list \<times> int list" where
  "WebRtcSpl_UpsampleBy2 inp len filtState =
     (let (out, lo, up) = up_by2_loop len inp (get4 0 filtState) (get4 4 filtState)
      in (out, put4 4 up (put4 0 lo filtState)))"

subsection \<open>The filter bank (\<open>splitting_filter_imp.c\<close>)\<close>

definition kMaxBandFrameLength :: nat where
  "kMaxBandFrameLength = 320"

definition WebRtcSpl_kAllPassFilter1 :: "int list" where
  "WebRtcSpl_kAllPassFilter1 = [6418, 36982, 57261]"

definition WebRtcSpl_kAllPassFilter2 :: "int list" where
  "WebRtcSpl_kAllPassFilter2 = [21333, 49062, 63010]"

text \<open>The loop of one cascade, from \<open>src\<close> to \<open>dst\<close>, \<open>n\<close> rounds from index \<open>k\<close>; and the cascade with its
  first round, which uses the state.\<close>

fun qmf_loop :: "nat \<Rightarrow> nat \<Rightarrow> int \<Rightarrow> int list \<Rightarrow> int list \<Rightarrow> int list" where
  "qmf_loop 0 k a src dst = dst"
| "qmf_loop (Suc n) k a src dst =
     (let diff = WebRtcSpl_SubSatW32 (src ! k) (dst ! (k - 1))
      in qmf_loop n (k + 1) a src (dst[k := scalediff32 a diff (src ! (k - 1))]))"

definition qmf_cascade :: "nat \<Rightarrow> int \<Rightarrow> int \<Rightarrow> int \<Rightarrow> int list \<Rightarrow> int list \<Rightarrow> int list" where
  "qmf_cascade data_length a x_state y_state src dst =
     (let diff = WebRtcSpl_SubSatW32 (src ! 0) y_state;
          dst = dst[0 := scalediff32 a diff x_state]
      in qmf_loop (data_length - 1) 1 a src dst)"

text \<open>Returns \<open>in_data\<close>, \<open>out_data\<close> and the state.\<close>

definition WebRtcSpl_AllPassQMF ::
    "int list \<Rightarrow> nat \<Rightarrow> int list \<Rightarrow> int list \<Rightarrow> int list \<Rightarrow> (int list \<times> int list \<times> int list) option" where
  "WebRtcSpl_AllPassQMF in_data data_length out_data filter_coefficients filter_state =
     (if data_length = 0 \<or> length in_data < data_length \<or> length out_data < data_length then None
      else let
        l = data_length - 1;
        out_data = qmf_cascade data_length (filter_coefficients ! 0) (filter_state ! 0) (filter_state ! 1) in_data out_data;
        filter_state = filter_state[0 := in_data ! l];
        filter_state = filter_state[1 := out_data ! l];
        in_data = qmf_cascade data_length (filter_coefficients ! 1) (filter_state ! 2) (filter_state ! 3) out_data in_data;
        filter_state = filter_state[2 := out_data ! l];
        filter_state = filter_state[3 := in_data ! l];
        out_data = qmf_cascade data_length (filter_coefficients ! 2) (filter_state ! 4) (filter_state ! 5) in_data out_data;
        filter_state = filter_state[4 := in_data ! l];
        filter_state = filter_state[5 := out_data ! l]
      in Some (in_data, out_data, filter_state))"

text \<open>\<open>junk\<close> is what the uninitialised arrays \<open>filter1\<close> and \<open>filter2\<close> hold. Returns both bands and both
  states.\<close>

definition WebRtcSpl_AnalysisQMF ::
    "int list \<Rightarrow> nat \<Rightarrow> int list \<times> int list \<Rightarrow> int list \<times> int list \<Rightarrow>
     ((int list \<times> int list) \<times> int list \<times> int list) option" where
  "WebRtcSpl_AnalysisQMF in_data in_data_length junk = (\<lambda>(filter_state1, filter_state2).
     (let band_length = in_data_length div 2 in
      if kMaxBandFrameLength < band_length \<or> length in_data < 2 * band_length then None
      else let
        half_in2 = map (\<lambda>i. mul32 (in_data ! (2 * i)) (2 ^ 10)) [0..<band_length];
        half_in1 = map (\<lambda>i. mul32 (in_data ! (2 * i + 1)) (2 ^ 10)) [0..<band_length]
      in case WebRtcSpl_AllPassQMF half_in1 band_length (fst junk) WebRtcSpl_kAllPassFilter1 filter_state1 of
           None \<Rightarrow> None
         | Some (_, filter1, filter_state1) \<Rightarrow>
             (case WebRtcSpl_AllPassQMF half_in2 band_length (snd junk) WebRtcSpl_kAllPassFilter2 filter_state2 of
                None \<Rightarrow> None
              | Some (_, filter2, filter_state2) \<Rightarrow>
                  Some ((map (\<lambda>i. WebRtcSpl_SatW32ToW16 (shr (add32 (add32 (filter1 ! i) (filter2 ! i)) 1024) 11)) [0..<band_length],
                         map (\<lambda>i. WebRtcSpl_SatW32ToW16 (shr (add32 (sub32 (filter1 ! i) (filter2 ! i)) 1024) 11)) [0..<band_length]),
                        filter_state1, filter_state2))))"

definition WebRtcSpl_SynthesisQMF ::
    "int list \<Rightarrow> int list \<Rightarrow> nat \<Rightarrow> int list \<times> int list \<Rightarrow> int list \<times> int list \<Rightarrow>
     (int list \<times> int list \<times> int list) option" where
  "WebRtcSpl_SynthesisQMF low_band high_band band_length junk = (\<lambda>(filter_state1, filter_state2).
     (if kMaxBandFrameLength < band_length \<or> length low_band < band_length \<or> length high_band < band_length then None
      else let
        half_in1 = map (\<lambda>i. mul32 (low_band ! i + high_band ! i) (2 ^ 10)) [0..<band_length];
        half_in2 = map (\<lambda>i. mul32 (low_band ! i - high_band ! i) (2 ^ 10)) [0..<band_length]
      in case WebRtcSpl_AllPassQMF half_in1 band_length (fst junk) WebRtcSpl_kAllPassFilter2 filter_state1 of
           None \<Rightarrow> None
         | Some (_, filter1, filter_state1) \<Rightarrow>
             (case WebRtcSpl_AllPassQMF half_in2 band_length (snd junk) WebRtcSpl_kAllPassFilter1 filter_state2 of
                None \<Rightarrow> None
              | Some (_, filter2, filter_state2) \<Rightarrow>
                  Some (concat (map (\<lambda>i. [WebRtcSpl_SatW32ToW16 (shr (add32 (filter2 ! i) 512) 10),
                                          WebRtcSpl_SatW32ToW16 (shr (add32 (filter1 ! i) 512) 10)]) [0..<band_length]),
                        filter_state1, filter_state2))))"

subsection \<open>Recursive and transversal filters\<close>







text \<open>The fast filters. \<open>mem\<close> is the array with the past, \<open>off\<close> the position of the pointer in it.\<close>

fun ar_fast_sum :: "nat \<Rightarrow> int list \<Rightarrow> int list \<Rightarrow> nat \<Rightarrow> int \<Rightarrow> int" where
  "ar_fast_sum 0 c mem pos acc = acc"
| "ar_fast_sum (Suc j) c mem pos acc =
     ar_fast_sum j c mem pos (s64 (acc + mul32 (c ! Suc j) (mem ! (pos - Suc j))))"

definition sat_q12 :: "int \<Rightarrow> int" where
  "sat_q12 out = (if out > 134215679 then 134215679 else if out < -134217728 then -134217728 else out)"

fun ar_fast_loop :: "nat \<Rightarrow> nat \<Rightarrow> int list \<Rightarrow> int list \<Rightarrow> nat \<Rightarrow> nat \<Rightarrow> int list \<Rightarrow> int list" where
  "ar_fast_loop 0 i data_in c c_length off mem = mem"
| "ar_fast_loop (Suc n) i data_in c c_length off mem =
     (let acc = ar_fast_sum (c_length - 1) c mem (off + i) 0;
          output = mul32 (c ! 0) (data_in ! i);
          output = s64 (output - acc);
          output = sat_q12 output
      in ar_fast_loop n (i + 1) data_in c c_length off (mem[off + i := s16 (shr (output + 2048) 12)]))"

definition WebRtcSpl_FilterARFastQ12 ::
    "int list \<Rightarrow> int list \<Rightarrow> nat \<Rightarrow> int list \<Rightarrow> nat \<Rightarrow> nat \<Rightarrow> int list option" where
  "WebRtcSpl_FilterARFastQ12 data_in mem off coefficients coefficients_length data_length =
     (if 0 < data_length \<and>
         (coefficients_length = 0 \<or> length coefficients < coefficients_length \<or> length data_in < data_length \<or>
          length mem < off + data_length \<or> off < coefficients_length - 1) then None
      else Some (ar_fast_loop data_length 0 data_in coefficients coefficients_length off mem))"

fun ma_fast_sum :: "nat \<Rightarrow> nat \<Rightarrow> int list \<Rightarrow> int list \<Rightarrow> nat \<Rightarrow> int \<Rightarrow> int" where
  "ma_fast_sum 0 j B mem pos acc = acc"
| "ma_fast_sum (Suc n) j B mem pos acc =
     ma_fast_sum n (j + 1) B mem pos (add32 acc (mul32 (B ! j) (mem ! (pos - j))))"

definition ma_fast_sample :: "int list \<Rightarrow> nat \<Rightarrow> int list \<Rightarrow> nat \<Rightarrow> int" where
  "ma_fast_sample B B_length mem pos = s16 (shr (sat_q12 (ma_fast_sum B_length 0 B mem pos 0) + 2048) 12)"

definition WebRtcSpl_FilterMAFastQ12 :: "int list \<Rightarrow> nat \<Rightarrow> int list \<Rightarrow> nat \<Rightarrow> nat \<Rightarrow> int list option" where
  "WebRtcSpl_FilterMAFastQ12 mem off B B_length len =
     (if 0 < len \<and> (length B < B_length \<or> length mem < off + len \<or> off < B_length - 1) then None
      else Some (map (\<lambda>i. ma_fast_sample B B_length mem (off + i)) [0..<len]))"

subsection \<open>Resampling by two is streaming\<close>

lemma down_by2_loop_append:
  "length xs = 2 * m \<Longrightarrow> down_by2_loop (m + n) (xs @ ys) lo up =
     (let (us, lo1, up1) = down_by2_loop m xs lo up; (vs, lo2, up2) = down_by2_loop n ys lo1 up1
      in (us @ vs, lo2, up2))"
proof (induction m arbitrary: xs lo up)
  case 0
  then show ?case by simp
next
  case (Suc m)
  then obtain a b xs' where xs: "xs = a # b # xs'" by (cases xs; cases "tl xs") auto
  have l: "length xs' = 2 * m" using Suc.prems xs by simp
  show ?case by (simp add: xs Let_def Suc.IH [OF l] split_def)
qed

lemma up_by2_loop_append:
  "length xs = m \<Longrightarrow> up_by2_loop (m + n) (xs @ ys) lo up =
     (let (us, lo1, up1) = up_by2_loop m xs lo up; (vs, lo2, up2) = up_by2_loop n ys lo1 up1
      in (us @ vs, lo2, up2))"
proof (induction m arbitrary: xs lo up)
  case 0
  then show ?case by simp
next
  case (Suc m)
  then obtain a xs' where xs: "xs = a # xs'" "length xs' = m" by (cases xs) auto
  show ?case by (simp add: xs(1) Let_def Suc.IH [OF xs(2)] split_def)
qed

definition down_by2 :: "int list \<Rightarrow> int list \<Rightarrow> int list \<times> int list" where
  "down_by2 xs st = WebRtcSpl_DownsampleBy2 xs (length xs) st"

definition up_by2 :: "int list \<Rightarrow> int list \<Rightarrow> int list \<times> int list" where
  "up_by2 xs st = WebRtcSpl_UpsampleBy2 xs (length xs) st"

interpretation down_by2: frame_filter down_by2 2 "\<lambda>st. length st = 8"
proof unfold_locales
  fix xs ys st :: "int list" assume len: "length st = 8"
  show "down_by2 [] st = ([], st)"
    using len by (simp add: down_by2_def WebRtcSpl_DownsampleBy2_def get4_def put4_def)
  show "length (snd (down_by2 xs st)) = 8"
    using len by (simp add: down_by2_def WebRtcSpl_DownsampleBy2_def split_def Let_def)
  assume "2 dvd length xs" "2 dvd length ys"
  then obtain m n where mn: "length xs = 2 * m" "length ys = 2 * n" using even_length_cases by metis
  then have h: "(2 * m + 2 * n) div 2 = m + n" by simp
  show "down_by2 (xs @ ys) st =
      (fst (down_by2 xs st) @ fst (down_by2 ys (snd (down_by2 xs st))), snd (down_by2 ys (snd (down_by2 xs st))))"
    using len by (simp add: down_by2_def WebRtcSpl_DownsampleBy2_def mn h down_by2_loop_append [OF mn(1)]
        split_def Let_def put4_order)
qed

interpretation up_by2: frame_filter up_by2 1 "\<lambda>st. length st = 8"
proof unfold_locales
  fix xs ys st :: "int list" assume len: "length st = 8"
  show "up_by2 [] st = ([], st)"
    using len by (simp add: up_by2_def WebRtcSpl_UpsampleBy2_def get4_def put4_def)
  show "length (snd (up_by2 xs st)) = 8"
    using len by (simp add: up_by2_def WebRtcSpl_UpsampleBy2_def split_def Let_def)
  show "up_by2 (xs @ ys) st =
      (fst (up_by2 xs st) @ fst (up_by2 ys (snd (up_by2 xs st))), snd (up_by2 ys (snd (up_by2 xs st))))"
    using len by (simp add: up_by2_def WebRtcSpl_UpsampleBy2_def up_by2_loop_append [OF refl]
        split_def Let_def put4_order)
qed

subsection \<open>The filter bank in place and as a stream\<close>

text \<open>One cascade as a function on sequences: \<open>xp\<close> and \<open>yp\<close> are the previous input and output.\<close>

fun qmf_pass :: "int \<Rightarrow> int list \<Rightarrow> int \<Rightarrow> int \<Rightarrow> int list" where
  "qmf_pass a [] xp yp = []"
| "qmf_pass a (x # xs) xp yp =
     (let y = scalediff32 a (WebRtcSpl_SubSatW32 x yp) xp in y # qmf_pass a xs x y)"

lemma length_qmf_pass [simp]: "length (qmf_pass a xs xp yp) = length xs"
  by (induction xs arbitrary: xp yp) (simp_all add: Let_def)

lemma qmf_pass_Nil [simp]: "qmf_pass a xs xp yp = [] \<longleftrightarrow> xs = []"
  by (cases xs) (simp_all add: Let_def)

lemma qmf_pass_append:
  "qmf_pass a (xs @ ys) xp yp = qmf_pass a xs xp yp @ qmf_pass a ys (last (xp # xs)) (last (yp # qmf_pass a xs xp yp))"
  by (induction xs arbitrary: xp yp) (simp_all add: Let_def)

lemma qmf_loop_eq:
  assumes "length ps = k" "0 < k" "k + n \<le> length src" "n \<le> length rest"
  shows "qmf_loop n k a src (ps @ rest) =
    ps @ qmf_pass a (take n (drop k src)) (src ! (k - 1)) (last ps) @ drop n rest"
  using assms
proof (induction n arbitrary: k ps rest)
  case 0
  then show ?case by simp
next
  case (Suc n)
  obtain r rest' where rest: "rest = r # rest'" using Suc.prems(4) by (cases rest) auto
  let ?y = "scalediff32 a (WebRtcSpl_SubSatW32 (src ! k) (last ps)) (src ! (k - 1))"
  have d: "drop k src = src ! k # drop (Suc k) src" using Suc.prems(3) by (simp add: Cons_nth_drop_Suc)
  have p: "(ps @ r # rest') ! (k - Suc 0) = last ps" using Suc.prems(1,2) by (auto simp: nth_append last_conv_nth)
  have "qmf_loop (Suc n) k a src (ps @ rest) = qmf_loop n (Suc k) a src ((ps @ [?y]) @ rest')"
    using Suc.prems(1) by (simp add: p Let_def rest list_update_append)
  also have "\<dots> = (ps @ [?y]) @ qmf_pass a (take n (drop (Suc k) src)) (src ! k) ?y @ drop n rest'"
    using Suc.prems rest by (subst Suc.IH) auto
  finally show ?case by (simp add: d rest Let_def)
qed

lemma qmf_cascade_eq:
  assumes "0 < n" "n \<le> length src" "n \<le> length dst"
  shows "qmf_cascade n a sx sy src dst = qmf_pass a (take n src) sx sy @ drop n dst"
proof -
  obtain d rest where dst: "dst = d # rest" using assms by (cases dst) auto
  obtain x xs where src: "src = x # xs" using assms by (cases src) auto
  let ?y = "scalediff32 a (WebRtcSpl_SubSatW32 x sy) sx"
  have "qmf_cascade n a sx sy src dst = qmf_loop (n - 1) 1 a src ([?y] @ rest)"
    by (simp add: qmf_cascade_def dst src)
  also have "\<dots> = [?y] @ qmf_pass a (take (n - 1) (drop 1 src)) (src ! (1 - 1)) (last [?y]) @ drop (n - 1) rest"
    using assms dst by (intro qmf_loop_eq) auto
  finally show ?thesis using assms(1) by (cases n) (simp_all add: dst src Let_def)
qed

definition qmf_run :: "int list \<Rightarrow> int list \<Rightarrow> int list \<Rightarrow> int list \<times> int list" where
  "qmf_run c xs st =
     (let y1 = qmf_pass (c ! 0) xs (st ! 0) (st ! 1);
          y2 = qmf_pass (c ! 1) y1 (st ! 2) (st ! 3);
          y3 = qmf_pass (c ! 2) y2 (st ! 4) (st ! 5)
      in (y3, [last (st ! 0 # xs), last (st ! 1 # y1), last (st ! 2 # y1), last (st ! 3 # y2),
               last (st ! 4 # y2), last (st ! 5 # y3)]))"

lemma list6: "length st = 6 \<longleftrightarrow> (\<exists>a b c d e f. st = [a, b, c, d, e, f])"
  by (auto simp: eval_nat_numeral length_Suc_conv)

lemma last_Cons_take:
  assumes "0 < n" "n \<le> length xs"
  shows "last (x # take n xs) = xs ! (n - 1)"
proof -
  have "take n xs \<noteq> []" using assms by (cases xs) auto
  then show ?thesis using assms by (simp add: last_conv_nth min_def)
qed

lemma AllPassQMF_eq:
  assumes "0 < n" "n \<le> length xs" "n \<le> length junk" "length st = 6"
  shows "\<exists>xs'. WebRtcSpl_AllPassQMF xs n junk c st =
    Some (xs', fst (qmf_run c (take n xs) st) @ drop n junk, snd (qmf_run c (take n xs) st))"
proof -
  obtain s0 s1 s2 s3 s4 s5 where st: "st = [s0, s1, s2, s3, s4, s5]" using assms(4) by (auto simp: list6)
  define y1 where "y1 = qmf_pass (c ! 0) (take n xs) s0 s1"
  define y2 where "y2 = qmf_pass (c ! 1) y1 s2 s3"
  define y3 where "y3 = qmf_pass (c ! 2) y2 s4 s5"
  have l: "length y1 = n" "length y2 = n" "length y3 = n"
    using assms(2) by (simp_all add: y1_def y2_def y3_def)
  have e: "qmf_cascade n (c ! 0) s0 s1 xs junk = y1 @ drop n junk"
    "qmf_cascade n (c ! 1) s2 s3 (y1 @ drop n junk) xs = y2 @ drop n xs"
    "qmf_cascade n (c ! 2) s4 s5 (y2 @ drop n xs) (y1 @ drop n junk) = y3 @ drop n junk"
    using assms l by (subst qmf_cascade_eq; simp add: y1_def y2_def y3_def)+
  have ne: "y1 \<noteq> []" "y2 \<noteq> []" "y3 \<noteq> []" using l assms(1) by auto
  have ly: "(y @ r) ! (n - 1) = last y" if "length y = n" for y r :: "int list"
    using that assms(1) by (cases y) (auto simp: nth_append last_conv_nth)
  have "last (s0 # take n xs) = xs ! (n - 1)" by (rule last_Cons_take [OF assms(1,2)])
  then have run: "qmf_run c (take n xs) st =
      (y3, [xs ! (n - 1), last (s1 # y1), last (s2 # y1), last (s3 # y2), last (s4 # y2), last (s5 # y3)])"
    by (simp add: qmf_run_def st Let_def y1_def y2_def y3_def)
  show ?thesis
    unfolding run using assms(1-3) ne
    by (simp add: WebRtcSpl_AllPassQMF_def Let_def st e [simplified] ly [OF l(1), simplified] ly [OF l(2), simplified]
        ly [OF l(3), simplified])
qed

interpretation qmf_run: frame_filter "qmf_run c" 1 "\<lambda>st. length st = 6"
proof unfold_locales
  fix xs ys st :: "int list" assume len: "length st = 6"
  then obtain s0 s1 s2 s3 s4 s5 where st: "st = [s0, s1, s2, s3, s4, s5]" by (auto simp: list6)
  show "qmf_run c [] st = ([], st)" by (simp add: qmf_run_def st)
  show "length (snd (qmf_run c xs st)) = 6" by (simp add: qmf_run_def Let_def)
  show "qmf_run c (xs @ ys) st =
      (fst (qmf_run c xs st) @ fst (qmf_run c ys (snd (qmf_run c xs st))), snd (qmf_run c ys (snd (qmf_run c xs st))))"
    by (simp add: qmf_run_def Let_def st qmf_pass_append)
qed

text \<open>A routine applied frame by frame with its state carried along, as long as it succeeds.\<close>

fun run_frames_opt :: "('x list \<Rightarrow> 's \<Rightarrow> ('y list \<times> 's) option) \<Rightarrow> 'x list list \<Rightarrow> 's \<Rightarrow> ('y list \<times> 's) option" where
  "run_frames_opt f [] st = Some ([], st)"
| "run_frames_opt f (x # xs) st =
     (case f x st of None \<Rightarrow> None
      | Some (y, st1) \<Rightarrow> (case run_frames_opt f xs st1 of None \<Rightarrow> None | Some (ys, st2) \<Rightarrow> Some (y @ ys, st2)))"

context frame_filter
begin

lemma run_frames_opt_concat:
  assumes "good st" "\<forall>f\<in>set fs. grain dvd length f \<and> ok f"
    and step: "\<And>f st. good st \<Longrightarrow> grain dvd length f \<Longrightarrow> ok f \<Longrightarrow> code f st = Some (run f st)"
  shows "run_frames_opt code fs st = Some (run (concat fs) st)"
proof -
  have "run_frames_opt code fs st = Some (run_frames run fs st)"
    using assms(1,2)
  proof (induction fs arbitrary: st)
    case (Cons f fs)
    obtain y st1 where r: "run f st = (y, st1)" by (cases "run f st")
    have "good st1" using run_good [OF Cons.prems(1), of f] Cons.prems(2) r by simp
    from Cons.IH [OF this] Cons.prems(2) show ?case
      using step [OF Cons.prems(1), of f] r by (simp add: split_def Let_def)
  qed simp
  then show ?thesis using run_concat [OF assms(1), of fs] assms(2) by simp
qed

end

text \<open>The bands as a sequence of pairs, on the whole signal.\<close>

definition split_sample :: "int \<Rightarrow> int \<Rightarrow> int \<times> int" where
  "split_sample f1 f2 = (WebRtcSpl_SatW32ToW16 (shr (add32 (add32 f1 f2) 1024) 11),
     WebRtcSpl_SatW32ToW16 (shr (add32 (sub32 f1 f2) 1024) 11))"

definition analysis_bank :: "int list \<Rightarrow> int list \<times> int list \<Rightarrow> (int \<times> int) list \<times> int list \<times> int list" where
  "analysis_bank xs = (\<lambda>(s1, s2).
     (let n = length xs div 2;
          (f1, s1) = qmf_run WebRtcSpl_kAllPassFilter1 (map (\<lambda>x. mul32 x 1024) (odds n xs)) s1;
          (f2, s2) = qmf_run WebRtcSpl_kAllPassFilter2 (map (\<lambda>x. mul32 x 1024) (evens n xs)) s2
      in (map2 split_sample f1 f2, s1, s2)))"

definition join_sample :: "int \<Rightarrow> int" where
  "join_sample f = WebRtcSpl_SatW32ToW16 (shr (add32 f 512) 10)"

definition synthesis_bank :: "(int \<times> int) list \<Rightarrow> int list \<times> int list \<Rightarrow> int list \<times> int list \<times> int list" where
  "synthesis_bank bs = (\<lambda>(s1, s2).
     (let (f1, s1) = qmf_run WebRtcSpl_kAllPassFilter2 (map (\<lambda>(l, h). mul32 (l + h) 1024) bs) s1;
          (f2, s2) = qmf_run WebRtcSpl_kAllPassFilter1 (map (\<lambda>(l, h). mul32 (l - h) 1024) bs) s2
      in (interleave (map join_sample f2) (map join_sample f1), s1, s2)))"

abbreviation bank_state :: "int list \<times> int list \<Rightarrow> bool" where
  "bank_state st \<equiv> length (fst st) = 6 \<and> length (snd st) = 6"

lemma length_qmf_run [simp]: "length (fst (qmf_run c xs st)) = length xs" "length (snd (qmf_run c xs st)) = 6"
  by (simp_all add: qmf_run_def Let_def)

lemma qmf_run_Nil: "length st = 6 \<Longrightarrow> qmf_run c [] st = ([], st)"
  by (rule qmf_run.run_Nil)

lemma qmf_run_append: "length st = 6 \<Longrightarrow> qmf_run c (xs @ ys) st =
    (fst (qmf_run c xs st) @ fst (qmf_run c ys (snd (qmf_run c xs st))), snd (qmf_run c ys (snd (qmf_run c xs st))))"
  by (rule qmf_run.run_append) simp_all

interpretation analysis_bank: frame_filter analysis_bank 2 bank_state
proof unfold_locales
  fix xs ys :: "int list" and st :: "int list \<times> int list" assume st: "bank_state st"
  show "analysis_bank [] st = ([], st)"
    using st by (simp add: analysis_bank_def split_def evens_def odds_def qmf_run_Nil)
  show "bank_state (snd (analysis_bank xs st))" by (simp add: analysis_bank_def split_def Let_def)
  assume "2 dvd length xs" "2 dvd length ys"
  then obtain m n where mn: "length xs = 2 * m" "length ys = 2 * n" using even_length_cases by metis
  then have h: "(2 * m + 2 * n) div 2 = m + n" by simp
  show "analysis_bank (xs @ ys) st = (fst (analysis_bank xs st) @ fst (analysis_bank ys (snd (analysis_bank xs st))),
      snd (analysis_bank ys (snd (analysis_bank xs st))))"
    using st by (simp add: analysis_bank_def split_def Let_def mn h evens_append odds_append qmf_run_append)
qed

interpretation synthesis_bank: frame_filter synthesis_bank 1 bank_state
proof unfold_locales
  fix xs ys :: "(int \<times> int) list" and st :: "int list \<times> int list" assume st: "bank_state st"
  show "synthesis_bank [] st = ([], st)" using st by (simp add: synthesis_bank_def split_def qmf_run_Nil)
  show "bank_state (snd (synthesis_bank xs st))" by (simp add: synthesis_bank_def split_def Let_def)
  show "synthesis_bank (xs @ ys) st = (fst (synthesis_bank xs st) @ fst (synthesis_bank ys (snd (synthesis_bank xs st))),
      snd (synthesis_bank ys (snd (synthesis_bank xs st))))"
    using st by (simp add: synthesis_bank_def split_def Let_def qmf_run_append interleave_append)
qed

definition analysis_frame ::
    "int list \<times> int list \<Rightarrow> int list \<Rightarrow> int list \<times> int list \<Rightarrow> ((int \<times> int) list \<times> int list \<times> int list) option" where
  "analysis_frame junk xs st =
     map_option (\<lambda>((low, high), st). (zip low high, st)) (WebRtcSpl_AnalysisQMF xs (length xs) junk st)"

definition synthesis_frame ::
    "int list \<times> int list \<Rightarrow> (int \<times> int) list \<Rightarrow> int list \<times> int list \<Rightarrow> (int list \<times> int list \<times> int list) option" where
  "synthesis_frame junk bs st = WebRtcSpl_SynthesisQMF (map fst bs) (map snd bs) (length bs) junk st"

lemma map_upt_eq: "length fs = n \<Longrightarrow> length gs = n \<Longrightarrow> map (\<lambda>i. h (fs ! i) (gs ! i)) [0..<n] = map2 h fs gs"
  by (rule nth_equalityI) simp_all

lemma concat_pairs_interleave:
  "length fs = n \<Longrightarrow> length gs = n \<Longrightarrow> concat (map (\<lambda>i. [u (fs ! i), v (gs ! i)]) [0..<n]) = interleave (map u fs) (map v gs)"
proof (induction fs arbitrary: gs n)
  case (Cons f fs)
  then obtain g gs' where gs: "gs = g # gs'" by (cases gs) auto
  have n: "n = Suc (length fs)" using Cons.prems by simp
  have up: "[0..<Suc (length fs)] = 0 # map Suc [0..<length fs]"
    by (subst upt_conv_Cons) (simp_all add: map_Suc_upt del: upt_Suc)
  show ?case using Cons.IH [OF refl, of gs'] Cons.prems gs n by (simp add: up comp_def del: upt_Suc)
qed simp

lemma analysis_frame_eq:
  assumes "0 < length xs" "length xs \<le> 2 * kMaxBandFrameLength" "even (length xs)" "bank_state st"
    and "kMaxBandFrameLength \<le> length (fst junk)" "kMaxBandFrameLength \<le> length (snd junk)"
  shows "analysis_frame junk xs st = Some (analysis_bank xs st)"
proof -
  obtain s1 s2 where st: "st = (s1, s2)" by (cases st)
  define n where "n = length xs div 2"
  have n: "0 < n" "n \<le> kMaxBandFrameLength" "length xs = 2 * n" using assms(1-3) by (auto simp: n_def elim!: evenE intro: Nat.gr0I)
  let ?o = "map (\<lambda>x. mul32 x 1024) (odds n xs)" and ?e = "map (\<lambda>x. mul32 x 1024) (evens n xs)"
  have h: "map (\<lambda>i. mul32 (xs ! (2 * i)) (2 ^ 10)) [0..<n] = ?e" "map (\<lambda>i. mul32 (xs ! (2 * i + 1)) (2 ^ 10)) [0..<n] = ?o"
    by (simp_all add: evens_def odds_def)
  obtain x1 where a1: "WebRtcSpl_AllPassQMF ?o n (fst junk) WebRtcSpl_kAllPassFilter1 s1 =
      Some (x1, fst (qmf_run WebRtcSpl_kAllPassFilter1 ?o s1) @ drop n (fst junk), snd (qmf_run WebRtcSpl_kAllPassFilter1 ?o s1))"
    using AllPassQMF_eq [OF n(1), of ?o "fst junk" s1 WebRtcSpl_kAllPassFilter1] n assms(4,5) st by auto
  obtain x2 where a2: "WebRtcSpl_AllPassQMF ?e n (snd junk) WebRtcSpl_kAllPassFilter2 s2 =
      Some (x2, fst (qmf_run WebRtcSpl_kAllPassFilter2 ?e s2) @ drop n (snd junk), snd (qmf_run WebRtcSpl_kAllPassFilter2 ?e s2))"
    using AllPassQMF_eq [OF n(1), of ?e "snd junk" s2 WebRtcSpl_kAllPassFilter2] n assms(4,6) st by auto
  define f1 f2 where "f1 = fst (qmf_run WebRtcSpl_kAllPassFilter1 ?o s1)" and "f2 = fst (qmf_run WebRtcSpl_kAllPassFilter2 ?e s2)"
  have l: "length f1 = n" "length f2 = n" by (simp_all add: f1_def f2_def)
  have up: "map (\<lambda>i. g ((f1 @ r1) ! i) ((f2 @ r2) ! i)) [0..<n] = map2 g f1 f2" for g :: "int \<Rightarrow> int \<Rightarrow> int" and r1 r2
  proof -
    have "map (\<lambda>i. g ((f1 @ r1) ! i) ((f2 @ r2) ! i)) [0..<n] = map (\<lambda>i. g (f1 ! i) (f2 ! i)) [0..<n]"
      using l by (intro map_cong) (auto simp: nth_append)
    then show ?thesis using map_upt_eq [OF l] by (simp only:)
  qed
  have "zip (map2 (\<lambda>a b. fst (split_sample a b)) f1 f2) (map2 (\<lambda>a b. snd (split_sample a b)) f1 f2) = map2 split_sample f1 f2"
    by (rule nth_equalityI) (simp_all add: l)
  then show ?thesis
    unfolding analysis_frame_def WebRtcSpl_AnalysisQMF_def analysis_bank_def split_conv st Let_def n_def [symmetric] h a1 a2
    using n l up [of "\<lambda>a b. fst (split_sample a b)"] up [of "\<lambda>a b. snd (split_sample a b)"]
    by (simp add: f1_def [symmetric] f2_def [symmetric] split_sample_def split_def)
qed

lemma synthesis_frame_eq:
  assumes "0 < length bs" "length bs \<le> kMaxBandFrameLength" "bank_state st"
    and "kMaxBandFrameLength \<le> length (fst junk)" "kMaxBandFrameLength \<le> length (snd junk)"
  shows "synthesis_frame junk bs st = Some (synthesis_bank bs st)"
proof -
  obtain s1 s2 where st: "st = (s1, s2)" by (cases st)
  define n where "n = length bs"
  let ?p = "map (\<lambda>(l, h). mul32 (l + h) 1024) bs" and ?m = "map (\<lambda>(l, h). mul32 (l - h) 1024) bs"
  have h: "map (\<lambda>i. mul32 (map fst bs ! i + map snd bs ! i) (2 ^ 10)) [0..<n] = ?p"
    "map (\<lambda>i. mul32 (map fst bs ! i - map snd bs ! i) (2 ^ 10)) [0..<n] = ?m"
    by (rule nth_equalityI; simp add: n_def split_def)+
  obtain x1 where a1: "WebRtcSpl_AllPassQMF ?p n (fst junk) WebRtcSpl_kAllPassFilter2 s1 =
      Some (x1, fst (qmf_run WebRtcSpl_kAllPassFilter2 ?p s1) @ drop n (fst junk), snd (qmf_run WebRtcSpl_kAllPassFilter2 ?p s1))"
    using AllPassQMF_eq [of n ?p "fst junk" s1 WebRtcSpl_kAllPassFilter2] assms st by (auto simp: n_def)
  obtain x2 where a2: "WebRtcSpl_AllPassQMF ?m n (snd junk) WebRtcSpl_kAllPassFilter1 s2 =
      Some (x2, fst (qmf_run WebRtcSpl_kAllPassFilter1 ?m s2) @ drop n (snd junk), snd (qmf_run WebRtcSpl_kAllPassFilter1 ?m s2))"
    using AllPassQMF_eq [of n ?m "snd junk" s2 WebRtcSpl_kAllPassFilter1] assms st by (auto simp: n_def)
  obtain f1 t1 f2 t2 where q: "qmf_run WebRtcSpl_kAllPassFilter2 ?p s1 = (f1, t1)" "qmf_run WebRtcSpl_kAllPassFilter1 ?m s2 = (f2, t2)"
    by (metis surj_pair)
  have l: "length f1 = n" "length f2 = n"
    using length_qmf_run(1) [of WebRtcSpl_kAllPassFilter2 ?p s1] length_qmf_run(1) [of WebRtcSpl_kAllPassFilter1 ?m s2]
    by (simp_all add: q n_def)
  have up: "concat (map (\<lambda>i. [join_sample ((f2 @ r2) ! i), join_sample ((f1 @ r1) ! i)]) [0..<n]) =
      interleave (map join_sample f2) (map join_sample f1)" for r1 r2
  proof -
    have "map (\<lambda>i. [join_sample ((f2 @ r2) ! i), join_sample ((f1 @ r1) ! i)]) [0..<n] =
        map (\<lambda>i. [join_sample (f2 ! i), join_sample (f1 ! i)]) [0..<n]"
      using l by (intro map_cong) (auto simp: nth_append)
    then show ?thesis using concat_pairs_interleave [OF l(2,1)] by (simp only:)
  qed
  show ?thesis
    unfolding synthesis_frame_def WebRtcSpl_SynthesisQMF_def synthesis_bank_def split_conv st Let_def n_def [symmetric] h a1 a2
    using assms(2) n_def up by (simp add: q join_sample_def [symmetric])
qed

subsection \<open>The recursive filter as a stream\<close>

text \<open>The reference filter keeps its past outputs, each with its low part, newest first.\<close>

definition ar_tap :: "int \<times> int \<Rightarrow> int \<times> int \<times> int \<Rightarrow> int \<times> int" where
  "ar_tap = (\<lambda>(out, oLOW) (c, h, l). (s64 (out - mul32 c h), sub32 oLOW (mul32 c l)))"


definition ar_finish :: "int \<times> int \<Rightarrow> int \<times> int" where
  "ar_finish = (\<lambda>(out, oLOW). (let out = s64 (out + shr oLOW 12); f = s16 (shr (s64 (out + 2048)) 12)
      in (f, s16 (s64 (out - mul32 f 4096)))))"

definition ar_sample :: "int list \<Rightarrow> (int \<times> int) list \<Rightarrow> int \<Rightarrow> int \<times> int" where
  "ar_sample cs hist x = ar_finish (foldl ar_tap (mul32 x 4096, 0) (zip cs hist))"

fun ar_run :: "int list \<Rightarrow> int list \<Rightarrow> (int \<times> int) list \<Rightarrow> (int \<times> int) list" where
  "ar_run cs [] hist = []"
| "ar_run cs (x # xs) hist = (let y = ar_sample cs hist x in y # ar_run cs xs (take (length cs) (y # hist)))"

lemma length_ar_run [simp]: "length (ar_run cs xs h) = length xs"
  by (induction xs arbitrary: h) (simp_all add: Let_def)

lemma ar_run_append:
  "length h = length cs \<Longrightarrow> ar_run cs (xs @ ys) h = ar_run cs xs h @ ar_run cs ys (take (length cs) (rev (ar_run cs xs h) @ h))"
proof (induction xs arbitrary: h)
  case (Cons x xs)
  let ?y = "ar_sample cs h x"
  have "take (length cs) (rev zs @ take (length cs) (?y # h)) = take (length cs) (rev zs @ ?y # h)" for zs :: "(int \<times> int) list"
    by (simp add: take_append)
  moreover have "length (take (length cs) (?y # h)) = length cs" using Cons.prems by simp
  ultimately show ?case using Cons.IH by (simp add: Let_def)
qed simp








text \<open>The state as the code keeps it: both parts oldest first.\<close>

definition ar_stream :: "int list \<Rightarrow> int list \<Rightarrow> int list \<times> int list \<Rightarrow> (int \<times> int) list \<times> int list \<times> int list" where
  "ar_stream a xs = (\<lambda>(s, sl). (let ys = ar_run (tl a) xs (rev (zip s sl))
     in (ys, drop (length xs) (s @ map fst ys), drop (length xs) (sl @ map snd ys))))"


abbreviation ar_state :: "int list \<Rightarrow> int list \<times> int list \<Rightarrow> bool" where
  "ar_state a st \<equiv> length (fst st) = length a - 1 \<and> length (snd st) = length a - 1"


lemma ar_stream_frame_filter: "frame_filter (ar_stream a) 1 (ar_state a)"
proof unfold_locales
  fix xs ys :: "int list" and st :: "int list \<times> int list" assume good: "ar_state a st"
  obtain s sl where st: "st = (s, sl)" by (cases st)
  show "ar_stream a [] st = ([], st)" by (simp add: ar_stream_def st)
  show "ar_state a (snd (ar_stream a xs st))" using good by (simp add: ar_stream_def st Let_def)
  define us where "us = ar_run (tl a) xs (rev (zip s sl))"
  have l: "length s = length (tl a)" "length sl = length (tl a)" "length us = length xs"
    using good by (simp_all add: st us_def)
  have z: "zip s sl @ us = zip (s @ map fst us) (sl @ map snd us)" using l by (simp add: zip_map_fst_snd)
  have "take (length (tl a)) (rev us @ rev (zip s sl)) = rev (drop (length xs) (zip s sl @ us))"
    using l by (cases "length (tl a) \<le> length xs") (simp_all add: rev_drop del: length_tl)
  also have "\<dots> = rev (zip (drop (length xs) (s @ map fst us)) (drop (length xs) (sl @ map snd us)))"
    by (simp only: z drop_zip)
  finally have h: "ar_run (tl a) (xs @ ys) (rev (zip s sl)) = us @ ar_run (tl a) ys
      (rev (zip (drop (length xs) (s @ map fst us)) (drop (length xs) (sl @ map snd us))))"
    using ar_run_append [of "rev (zip s sl)" "tl a" xs ys] l by (simp add: us_def)
  have d: "drop (length xs + length ys) (t @ map f us @ zs) = drop (length ys) (drop (length xs) (t @ map f us) @ zs)"
    for t zs and f :: "int \<times> int \<Rightarrow> int"
  proof -
    have "drop (length xs) ((t @ map f us) @ zs) = drop (length xs) (t @ map f us) @ zs"
      using l(3) by (subst drop_append) simp
    then show ?thesis by (metis append.assoc drop_drop add.commute)
  qed
  show "ar_stream a (xs @ ys) st = (fst (ar_stream a xs st) @ fst (ar_stream a ys (snd (ar_stream a xs st))),
      snd (ar_stream a ys (snd (ar_stream a xs st))))"
    unfolding ar_stream_def st split_conv Let_def h us_def [symmetric] fst_conv snd_conv map_append length_append d ..
qed

interpretation ar_stream: frame_filter "ar_stream a" 1 "ar_state a"
  by (rule ar_stream_frame_filter)

subsection \<open>The recursive filter is exact\<close>





lemma s16_prod_bound:
  assumes "in_s16 c" "\<bar>h\<bar> \<le> b"
  shows "\<bar>c * h\<bar> \<le> 32768 * b"
proof -
  have "\<bar>c\<bar> \<le> 32768" using assms(1) by (auto simp: in_s16_def)
  then show ?thesis using assms(2) by (simp add: abs_mult mult_mono)
qed

lemma s64_idI: "-9223372036854775808 \<le> x \<Longrightarrow> x \<le> 9223372036854775807 \<Longrightarrow> s64 x = x"
  by (simp add: s64_def)







subsection \<open>The fast filters are exact\<close>

definition clamp16 :: "int \<Rightarrow> int" where
  "clamp16 v = max (-32768) (min 32767 v)"

lemma sat_q12_round: "s16 (shr (sat_q12 v + 2048) 12) = clamp16 ((v + 2048) div 4096)"
proof -
  consider "v > 134215679" | "v < -134217728" | "-134217728 \<le> v" "v \<le> 134215679" by linarith
  then show ?thesis
  proof cases
    case 1
    then have "32767 \<le> (v + 2048) div 4096" by (simp add: zdiv_mono1)
    then show ?thesis using 1 by (simp add: sat_q12_def clamp16_def shr_def s16_def)
  next
    case 2
    then have "(v + 2048) div 4096 \<le> -32768" by linarith
    then show ?thesis using 2 by (simp add: sat_q12_def clamp16_def shr_def s16_def)
  next
    case 3
    then have "-32768 \<le> (v + 2048) div 4096" "(v + 2048) div 4096 \<le> 32767" by linarith+
    then show ?thesis using 3 by (simp add: sat_q12_def clamp16_def shr_def s16_idI)
  qed
qed

lemma ar_fast_sum_exact:
  assumes "\<forall>k\<in>{1..j}. \<bar>c ! k * mem ! (pos - k)\<bar> \<le> 1073741824"
    and "\<bar>acc\<bar> + int j * 1073741824 < 9223372036854775808"
  shows "ar_fast_sum j c mem pos acc = acc + (\<Sum>k = 1..j. c ! k * mem ! (pos - k))"
  using assms
proof (induction j arbitrary: acc)
  case (Suc j)
  let ?p = "c ! Suc j * mem ! (pos - Suc j)"
  have b: "\<bar>?p\<bar> \<le> 1073741824" using Suc.prems(1) by auto
  then have m: "mul32 (c ! Suc j) (mem ! (pos - Suc j)) = ?p" by (auto simp: mul32_def intro!: s32_idI)
  have "s64 (acc + ?p) = acc + ?p" using b Suc.prems(2) by (intro s64_idI) auto
  moreover have "\<bar>acc + ?p\<bar> + int j * 1073741824 < 9223372036854775808"
    using b Suc.prems(2) abs_triangle_ineq [of acc ?p] by (simp add: distrib_right)
  then have "ar_fast_sum j c mem pos (acc + ?p) = acc + ?p + (\<Sum>k = 1..j. c ! k * mem ! (pos - k))"
    using Suc.prems(1) by (intro Suc.IH) auto
  ultimately show ?case by (simp add: m)
qed simp

lemma in_s16_prod: "in_s16 c \<Longrightarrow> in_s16 h \<Longrightarrow> \<bar>c * h\<bar> \<le> 1073741824"
  using s16_prod_bound [of c h 32768] by (simp add: in_s16_def abs_le_iff)

text \<open>The output equation at position \<open>p\<close> of the memory, in exact arithmetic.\<close>

definition ar_fast_value :: "int list \<Rightarrow> nat \<Rightarrow> int \<Rightarrow> int list \<Rightarrow> nat \<Rightarrow> int" where
  "ar_fast_value c m x mem p = clamp16 ((c ! 0 * x - (\<Sum>k = 1..m. c ! k * mem ! (p - k)) + 2048) div 4096)"

lemma ar_fast_step:
  assumes "\<forall>v\<in>set c. in_s16 v" "\<forall>v\<in>set mem. in_s16 v" "in_s16 x" "Suc m \<le> length c" "m \<le> p" "p < length mem" "m < 4294967296"
  shows "s16 (shr (sat_q12 (s64 (mul32 (c ! 0) x - ar_fast_sum m c mem p 0)) + 2048) 12) = ar_fast_value c m x mem p"
proof -
  let ?S = "\<Sum>k = 1..m. c ! k * mem ! (p - k)"
  have el: "\<bar>c ! k * mem ! (p - k)\<bar> \<le> 1073741824" if "k \<in> {1..m}" for k
    using that assms by (intro in_s16_prod) (auto intro!: bspec [OF assms(1)] bspec [OF assms(2)])
  have "in_s16 (c ! 0)" using assms(1,4) by (cases c) auto
  then have x: "\<bar>c ! 0 * x\<bar> \<le> 1073741824" using assms(3) by (rule in_s16_prod)
  have "\<bar>?S\<bar> \<le> (\<Sum>k = 1..m. \<bar>c ! k * mem ! (p - k)\<bar>)" by (rule sum_abs)
  also have "\<dots> \<le> int m * 1073741824" using sum_bounded_above [of "{1..m}" "\<lambda>k. \<bar>c ! k * mem ! (p - k)\<bar>" 1073741824] el by simp
  finally have s: "\<bar>?S\<bar> \<le> int m * 1073741824" .
  have "ar_fast_sum m c mem p 0 = ?S" using ar_fast_sum_exact [of m c mem p 0] el assms(7) by simp
  moreover have "mul32 (c ! 0) x = c ! 0 * x" using x by (auto simp: mul32_def intro!: s32_idI)
  moreover have "s64 (c ! 0 * x - ?S) = c ! 0 * x - ?S" using x s assms(7) by (intro s64_idI) linarith+
  ultimately show ?thesis by (simp add: sat_q12_round ar_fast_value_def)
qed

lemma clamp16_s16 [simp]: "in_s16 (clamp16 v)"
  by (simp add: clamp16_def in_s16_def)

lemma ar_fast_loop_exact:
  assumes "\<forall>v\<in>set c. in_s16 v" "\<forall>v\<in>set mem. in_s16 v" "\<forall>v\<in>set x. in_s16 v"
    and "Suc m \<le> length c" "m \<le> off" "off + i + n \<le> length mem" "i + n \<le> length x" "m < 4294967296"
  shows "\<exists>mem'. ar_fast_loop n i x c (Suc m) off mem = mem' \<and> length mem' = length mem
    \<and> (\<forall>p. p < off + i \<or> off + i + n \<le> p \<longrightarrow> mem' ! p = mem ! p)
    \<and> (\<forall>k\<in>{i..<i + n}. mem' ! (off + k) = ar_fast_value c m (x ! k) mem' (off + k))"
  using assms(2,6,7)
proof (induction n arbitrary: i mem)
  case (Suc n)
  let ?y = "ar_fast_value c m (x ! i) mem (off + i)"
  have y: "in_s16 ?y" by (simp add: ar_fast_value_def)
  have step: "ar_fast_loop (Suc n) i x c (Suc m) off mem = ar_fast_loop n (i + 1) x c (Suc m) off (mem[off + i := ?y])"
    using ar_fast_step [OF assms(1) Suc.prems(1), of "x ! i" m "off + i"] Suc.prems assms(3,4,5,8) by (simp add: Let_def)
  define upd where "upd = mem[off + i := ?y]"
  have "\<forall>v\<in>set upd. in_s16 v" using Suc.prems(1) y set_update_subset_insert unfolding upd_def by fastforce
  moreover have "off + (i + 1) + n \<le> length upd" "i + 1 + n \<le> length x" using Suc.prems(2,3) by (simp_all add: upd_def)
  ultimately obtain mem' where
    m': "ar_fast_loop n (i + 1) x c (Suc m) off upd = mem'" "length mem' = length upd"
    and keep: "\<And>p. p < off + (i + 1) \<or> off + (i + 1) + n \<le> p \<Longrightarrow> mem' ! p = upd ! p"
    and eqs: "\<And>k. k \<in> {i + 1..<i + 1 + n} \<Longrightarrow> mem' ! (off + k) = ar_fast_value c m (x ! k) mem' (off + k)"
    using Suc.IH [of upd "i + 1"] by metis
  have "(\<Sum>k = 1..m. c ! k * mem' ! (off + i - k)) = (\<Sum>k = 1..m. c ! k * mem ! (off + i - k))"
  proof (intro sum.cong refl arg_cong2 [where f = "(*)"])
    fix k assume "k \<in> {1..m}"
    then have "off + i - k < off + i" using assms(5) by auto
    then show "mem' ! (off + i - k) = mem ! (off + i - k)" using keep [of "off + i - k"] by (simp add: upd_def)
  qed
  then have "ar_fast_value c m (x ! i) mem' (off + i) = ?y" by (simp add: ar_fast_value_def)
  moreover have "mem' ! (off + i) = ?y" using keep [of "off + i"] Suc.prems(2) by (simp add: upd_def)
  ultimately have "mem' ! (off + k) = ar_fast_value c m (x ! k) mem' (off + k)" if "k \<in> {i..<i + Suc n}" for k
    using eqs [of k] that by (cases "k = i") auto
  moreover have "mem' ! p = mem ! p" if "p < off + i \<or> off + i + Suc n \<le> p" for p
    using keep [of p] that by (auto simp: upd_def)
  ultimately show ?case using step m' by (auto simp: upd_def)
qed simp

definition ma_fast_value :: "int list \<Rightarrow> nat \<Rightarrow> int list \<Rightarrow> nat \<Rightarrow> int" where
  "ma_fast_value B n mem p = clamp16 (((\<Sum>j<n. B ! j * mem ! (p - j)) + 2048) div 4096)"

lemma ma_fast_sum_exact:
  assumes "\<forall>v\<in>set mem. in_s16 v" "\<bar>acc\<bar> + 32768 * (\<Sum>k = j..<j + n. \<bar>B ! k\<bar>) < 2147483648" "p < length mem"
  shows "ma_fast_sum n j B mem p acc = acc + (\<Sum>k = j..<j + n. B ! k * mem ! (p - k))"
  using assms(2)
proof (induction n arbitrary: j acc)
  case (Suc n)
  let ?p = "B ! j * mem ! (p - j)"
  have "in_s16 (mem ! (p - j))" using assms(1,3) by auto
  then have "\<bar>mem ! (p - j)\<bar> \<le> 32768" by (auto simp: in_s16_def)
  then have b: "\<bar>?p\<bar> \<le> 32768 * \<bar>B ! j\<bar>" using mult_left_mono [of "\<bar>mem ! (p - j)\<bar>" 32768 "\<bar>B ! j\<bar>"] by (simp add: abs_mult mult.commute)
  have sp: "(\<Sum>k = j..<j + Suc n. f k) = f j + (\<Sum>k = Suc j..<Suc j + n. f k)" for f :: "nat \<Rightarrow> int"
    by (simp add: sum.atLeast_Suc_lessThan)
  have nn: "0 \<le> (\<Sum>k = Suc j..<Suc j + n. \<bar>B ! k\<bar>)" by (rule sum_nonneg) simp
  have lt: "\<bar>acc\<bar> + 32768 * \<bar>B ! j\<bar> + 32768 * (\<Sum>k = Suc j..<Suc j + n. \<bar>B ! k\<bar>) < 2147483648"
    using Suc.prems by (simp only: sp) (simp add: algebra_simps)
  have m: "mul32 (B ! j) (mem ! (p - j)) = ?p" using b lt nn by (auto simp: mul32_def abs_le_iff intro!: s32_idI)
  have a: "add32 acc ?p = acc + ?p" using b lt nn unfolding add32_def by (intro s32_idI) linarith+
  have "ma_fast_sum n (Suc j) B mem p (acc + ?p) = acc + ?p + (\<Sum>k = Suc j..<Suc j + n. B ! k * mem ! (p - k))"
    using b lt by (intro Suc.IH) linarith
  then show ?case using sp [of "\<lambda>k. B ! k * mem ! (p - k)"] by (simp add: m a)
qed simp

section \<open>Properties\<close>

text \<open>C27: the two-band filter bank and the resamplers by two may be fed any frames: frame by frame, with the
  state carried along and whatever the uninitialised scratch arrays hold, \<open>WebRtcSpl_AnalysisQMF\<close> and
  \<open>WebRtcSpl_SynthesisQMF\<close> never leave their arrays and give the bands (the signal) that the filter
  cascade gives on the whole signal, and so do \<open>WebRtcSpl_DownsampleBy2\<close> and \<open>WebRtcSpl_UpsampleBy2\<close>.
  A frame has at least two and at most 640 samples, an even number (1 to 320 in each band).\<close>

theorem filter_bank_streaming:
  assumes "bank_state st" "kMaxBandFrameLength \<le> length (fst junk)" "kMaxBandFrameLength \<le> length (snd junk)"
    and "\<forall>f\<in>set fs. even (length f) \<and> f \<noteq> [] \<and> length f \<le> 2 * kMaxBandFrameLength"
    and "\<forall>b\<in>set bs. b \<noteq> [] \<and> length b \<le> kMaxBandFrameLength"
    and "length r = 8"
  shows "run_frames_opt (analysis_frame junk) fs st = Some (analysis_bank (concat fs) st)
    \<and> run_frames_opt (synthesis_frame junk) bs st = Some (synthesis_bank (concat bs) st)
    \<and> run_frames down_by2 fs r = WebRtcSpl_DownsampleBy2 (concat fs) (length (concat fs)) r
    \<and> run_frames up_by2 fs r = WebRtcSpl_UpsampleBy2 (concat fs) (length (concat fs)) r"
proof (intro conjI)
  show "run_frames_opt (analysis_frame junk) fs st = Some (analysis_bank (concat fs) st)"
    using assms by (intro analysis_bank.run_frames_opt_concat
        [where ok = "\<lambda>f. f \<noteq> [] \<and> length f \<le> 2 * kMaxBandFrameLength"] analysis_frame_eq) auto
  show "run_frames_opt (synthesis_frame junk) bs st = Some (synthesis_bank (concat bs) st)"
    using assms by (intro synthesis_bank.run_frames_opt_concat
        [where ok = "\<lambda>b. b \<noteq> [] \<and> length b \<le> kMaxBandFrameLength"] synthesis_frame_eq) auto
  show "run_frames down_by2 fs r = WebRtcSpl_DownsampleBy2 (concat fs) (length (concat fs)) r"
    using down_by2.run_concat [of r fs] assms(4,6) by (simp add: down_by2_def)
  show "run_frames up_by2 fs r = WebRtcSpl_UpsampleBy2 (concat fs) (length (concat fs)) r"
    using up_by2.run_concat [of r fs] assms(6) by (simp add: up_by2_def)
qed

theorem filter_bank_streaming_witness:
  "run_frames_opt (analysis_frame (replicate 320 7, replicate 320 9)) [[100, -3], [5, 6, 7, 8]] (replicate 6 0, replicate 6 0) =
     Some (analysis_bank [100, -3, 5, 6, 7, 8] (replicate 6 0, replicate 6 0))"
  using filter_bank_streaming [of "(replicate 6 0, replicate 6 0)" "(replicate 320 7, replicate 320 9)"
      "[[100, -3], [5, 6, 7, 8]]" "[]" "replicate 8 0"]
  by (simp add: kMaxBandFrameLength_def)



text \<open>C29: the fast filters. \<open>WebRtcSpl_FilterARFastQ12\<close> changes only the output samples, and each of them is
  the exact feedback sum over the outputs before it (those in front of the pointer included), rounded to Q0 and
  clamped to 16 bits; \<open>WebRtcSpl_FilterMAFastQ12\<close> gives the exact convolution, rounded and clamped, when the
  magnitudes of its coefficients add up to at most 65535, which keeps its 32-bit accumulator from wrapping.\<close>

theorem fast_filters_exact:
  assumes "\<forall>v\<in>set c. in_s16 v" "\<forall>v\<in>set mem. in_s16 v" "\<forall>v\<in>set x. in_s16 v"
    and "length c = Suc m" "m < 2 ^ 32" "m \<le> off" "off + n \<le> length mem" "n \<le> length x"
    and "length B \<le> Suc off" "(\<Sum>j<length B. \<bar>B ! j\<bar>) \<le> 65535"
  shows "(\<exists>mem'. WebRtcSpl_FilterARFastQ12 x mem off c (length c) n = Some mem' \<and> length mem' = length mem
      \<and> (\<forall>p. p < off \<or> off + n \<le> p \<longrightarrow> mem' ! p = mem ! p)
      \<and> (\<forall>k<n. mem' ! (off + k) = ar_fast_value c m (x ! k) mem' (off + k)))
    \<and> WebRtcSpl_FilterMAFastQ12 mem off B (length B) n =
      Some (map (\<lambda>k. ma_fast_value B (length B) mem (off + k)) [0..<n])"
proof (intro conjI)
  show "\<exists>mem'. WebRtcSpl_FilterARFastQ12 x mem off c (length c) n = Some mem' \<and> length mem' = length mem
      \<and> (\<forall>p. p < off \<or> off + n \<le> p \<longrightarrow> mem' ! p = mem ! p)
      \<and> (\<forall>k<n. mem' ! (off + k) = ar_fast_value c m (x ! k) mem' (off + k))"
    using ar_fast_loop_exact [OF assms(1-3), of m off 0 n] assms(4-8) by (simp add: WebRtcSpl_FilterARFastQ12_def)
  have "ma_fast_sample B (length B) mem (off + k) = ma_fast_value B (length B) mem (off + k)" if "k < n" for k
    using ma_fast_sum_exact [OF assms(2), where acc = 0 and j = 0 and n = "length B" and B = B and p = "off + k"] assms(7,10) that
    by (simp add: ma_fast_sample_def ma_fast_value_def sat_q12_round lessThan_atLeast0)
  then show "WebRtcSpl_FilterMAFastQ12 mem off B (length B) n =
      Some (map (\<lambda>k. ma_fast_value B (length B) mem (off + k)) [0..<n])"
    using assms(7,9) by (auto simp: WebRtcSpl_FilterMAFastQ12_def)
qed

theorem fast_filters_exact_witness:
  "WebRtcSpl_FilterMAFastQ12 [10, -20, 3000, 40, 50] 2 [4096, -2048] 2 3 =
     Some (map (\<lambda>k. ma_fast_value [4096, -2048] 2 [10, -20, 3000, 40, 50] (2 + k)) [0..<3])"
proof -
  have "(\<Sum>j<2. \<bar>[4096, -2048 :: int] ! j\<bar>) \<le> 65535" by (simp add: numeral_2_eq_2 lessThan_Suc)
  then show ?thesis using fast_filters_exact [of "[4096, 100, 7]" "[10, -20, 3000, 40, 50]" "[1, 2, 3]" 2 2 3 "[4096, -2048]"]
    by (simp add: in_s16_def flip: numeral_2_eq_2)
qed
end
