(* ===== verification/Spl_Sqrt.thy ===== *)
theory Spl_Sqrt
  imports Spl_Filters
begin

section \<open>Signal processing library: square root by a Taylor series, scaled dot product\<close>

text \<open>
  \<open>spl_sqrt.c\<close> and \<open>dot_product_with_scale.cc\<close>. \<open>WebRtcSpl_Sqrt\<close> normalises its argument, evaluates the
  series of the square root around 1 in 16-bit factors and shifts back; the dot product accumulates in 64
  bits and saturates once at the end. The lemmas give the range of the root and that the unrolled dot
  product is the saturated exact sum.
\<close>

unbundle bit_operations_syntax

definition WebRtcSpl_SqrtLocal :: "int \<Rightarrow> int" where
  "WebRtcSpl_SqrtLocal in32 =
     (let B = cdiv in32 2;
          B = sub32 B 0x40000000;
          x_half = s16 (shr B 16);
          B = add32 B 0x40000000;
          B = add32 B 0x40000000;
          x2 = mul32 (mul32 x_half x_half) 2;
          A = s32 (- x2);
          B = add32 B (shr A 1);
          A = shr A 16;
          A = mul32 (mul32 A A) 2;
          t16 = s16 (shr A 16);
          B = add32 B (mul32 (mul32 (-20480) t16) 2);
          A = mul32 (mul32 x_half t16) 2;
          t16 = s16 (shr A 16);
          B = add32 B (mul32 (mul32 28672 t16) 2);
          t16 = s16 (shr x2 16);
          A = mul32 (mul32 x_half t16) 2;
          B = add32 B (shr A 1)
      in add32 B 32768)"

definition WebRtcSpl_Sqrt :: "int \<Rightarrow> int" where
  "WebRtcSpl_Sqrt value32 =
     (if value32 = 0 then 0
      else let
        k_sqrt_2 = 23170;
        A = (if value32 < 0 then (if value32 = -2147483648 then 2147483647 else s32 (- value32)) else value32);
        sh = WebRtcSpl_NormW32 A;
        A = shl32 A (nat sh);
        A = (if A < 2147483647 - 32767 then add32 A 32768 else 2147483647);
        x_norm = s16 (shr A 16);
        nshift = s16 (cdiv sh 2);
        A = shl32 x_norm 16;
        A = (if A \<ge> 0 then A else s32 (- A));
        A = WebRtcSpl_SqrtLocal A;
        A = (if 2 * nshift = sh
             then (let t16 = s16 (shr A 16);
                       A = mul32 (mul32 k_sqrt_2 t16) 2;
                       A = add32 A 32768;
                       A = A AND 0x7fff0000
                   in shr A 15)
             else shr A 16);
        A = A AND 0x0000ffff
      in shr A (nat nshift))"

definition saturated_cast32 :: "int \<Rightarrow> int" where
  "saturated_cast32 v = (if v > 2147483647 then 2147483647 else if v < -2147483648 then -2147483648 else v)"

definition dot_scale :: "int list \<Rightarrow> int list \<Rightarrow> nat \<Rightarrow> nat \<Rightarrow> int" where
  "dot_scale v w s i = shr (mul32 (v ! i) (w ! i)) s"

fun dot_unrolled :: "nat \<Rightarrow> nat \<Rightarrow> int list \<Rightarrow> int list \<Rightarrow> nat \<Rightarrow> int \<Rightarrow> int" where
  "dot_unrolled 0 i v w s acc = acc"
| "dot_unrolled (Suc n) i v w s acc =
     (let acc = s64 (acc + dot_scale v w s i);
          acc = s64 (acc + dot_scale v w s (i + 1));
          acc = s64 (acc + dot_scale v w s (i + 2));
          acc = s64 (acc + dot_scale v w s (i + 3))
      in dot_unrolled n (i + 4) v w s acc)"

fun dot_rest :: "nat \<Rightarrow> nat \<Rightarrow> int list \<Rightarrow> int list \<Rightarrow> nat \<Rightarrow> int \<Rightarrow> int" where
  "dot_rest 0 i v w s acc = acc"
| "dot_rest (Suc n) i v w s acc = dot_rest n (i + 1) v w s (s64 (acc + dot_scale v w s i))"

definition WebRtcSpl_DotProductWithScale :: "int list \<Rightarrow> int list \<Rightarrow> nat \<Rightarrow> nat \<Rightarrow> int option" where
  "WebRtcSpl_DotProductWithScale vector1 vector2 len scaling =
     (if length vector1 < len \<or> length vector2 < len then None
      else Some (saturated_cast32 (dot_rest (len mod 4) (4 * (len div 4)) vector1 vector2 scaling
        (dot_unrolled (len div 4) 0 vector1 vector2 scaling 0))))"

subsection \<open>Correctness\<close>

lemma Sqrt_range: "0 \<le> WebRtcSpl_Sqrt v" "WebRtcSpl_Sqrt v \<le> 65535"
proof -
  have "0 \<le> (A AND 0x0000ffff) div 2 ^ n \<and> (A AND 0x0000ffff) div 2 ^ n \<le> 65535" for A :: int and n
  proof -
    have m: "A AND 0x0000ffff = A mod 65536" using take_bit_eq_mask [of 16 A] by (simp add: take_bit_eq_mod mask_eq_exp_minus_1)
    have "A mod 65536 div 2 ^ n \<le> A mod 65536" using zdiv_mono2 [of "A mod 65536" 1 "2 ^ n"] by simp
    moreover have "A mod 65536 < 65536" by simp
    ultimately show ?thesis unfolding m by (simp add: pos_imp_zdiv_nonneg_iff)
  qed
  moreover have "\<exists>A n. WebRtcSpl_Sqrt v = shr (A AND 0x0000ffff) n" if "v \<noteq> 0"
    unfolding WebRtcSpl_Sqrt_def Let_def if_not_P [OF that] by (intro exI, rule refl)
  moreover have "WebRtcSpl_Sqrt 0 = 0" by (simp add: WebRtcSpl_Sqrt_def)
  ultimately show "0 \<le> WebRtcSpl_Sqrt v" "WebRtcSpl_Sqrt v \<le> 65535" unfolding shr_def by (cases "v = 0"; force)+
qed

text \<open>The accumulator of the dot product is exact: \<open>n\<close> terms of at most \<open>2 ^ 30\<close> each.\<close>

lemma dot_scale_exact:
  assumes "in_s16 (v ! i)" "in_s16 (w ! i)"
  shows "dot_scale v w s i = v ! i * w ! i div 2 ^ s" "\<bar>dot_scale v w s i\<bar> \<le> 1073741824"
proof -
  have b: "\<bar>v ! i * w ! i\<bar> \<le> 32768 * 32768" unfolding abs_mult using assms by (intro mult_mono) (auto simp: in_s16_def)
  then have "mul32 (v ! i) (w ! i) = v ! i * w ! i" unfolding mul32_def by (intro s32_idI) auto
  then show e: "dot_scale v w s i = v ! i * w ! i div 2 ^ s" by (simp add: dot_scale_def shr_def)
  have "-1073741824 div 1 \<le> -1073741824 div (2 :: int) ^ s" by (rule zdiv_mono2_neg) auto
  also have "\<dots> \<le> v ! i * w ! i div 2 ^ s" using b by (intro zdiv_mono1) auto
  finally have "-1073741824 \<le> v ! i * w ! i div 2 ^ s" by simp
  moreover have "v ! i * w ! i div 2 ^ s \<le> 1073741824 div 2 ^ s" using b by (intro zdiv_mono1) auto
  moreover have "1073741824 div (2 :: int) ^ s \<le> 1073741824" using zdiv_mono2 [of 1073741824 1 "(2 :: int) ^ s"] by simp
  ultimately show "\<bar>dot_scale v w s i\<bar> \<le> 1073741824" using e by linarith
qed

lemma dot_rest_exact:
  assumes "\<forall>x\<in>set v. in_s16 x" "\<forall>x\<in>set w. in_s16 x"
  shows "i + n \<le> length v \<Longrightarrow> i + n \<le> length w \<Longrightarrow> \<bar>acc\<bar> \<le> 1073741824 * int i \<Longrightarrow> i + n \<le> 4294967296 \<Longrightarrow>
    dot_rest n i v w s acc = acc + (\<Sum>k = i..<i + n. dot_scale v w s k)"
proof (induction n arbitrary: i acc)
  case (Suc n)
  have d: "\<bar>dot_scale v w s i\<bar> \<le> 1073741824" using dot_scale_exact(2) [of v i w s] assms Suc.prems by simp
  have "\<bar>acc + dot_scale v w s i\<bar> \<le> 1073741824 * int (i + 1)" using d Suc.prems(3) by auto
  moreover have "s64 (acc + dot_scale v w s i) = acc + dot_scale v w s i"
    using d Suc.prems(3,4) by (intro s64_idI) auto
  ultimately show ?case using Suc.IH [of "i + 1" "acc + dot_scale v w s i"] Suc.prems by (simp add: sum.atLeast_Suc_lessThan)
qed simp

lemma dot_unrolled_rest: "dot_unrolled n i v w s acc = dot_rest (4 * n) i v w s acc"
proof (induction n arbitrary: i acc)
  case (Suc n)
  have "dot_rest (4 * Suc n) i v w s acc = dot_rest (Suc (Suc (Suc (Suc (4 * n))))) i v w s acc" by (simp add: numeral_eq_Suc)
  also have "\<dots> = dot_unrolled (Suc n) i v w s acc" using Suc.IH by (simp add: Let_def numeral_eq_Suc)
  finally show ?case by simp
qed simp

lemma dot_rest_append: "dot_rest (m + n) i v w s acc = dot_rest n (i + m) v w s (dot_rest m i v w s acc)"
  by (induction m arbitrary: i acc) simp_all

lemma DotProductWithScale_exact:
  assumes "\<forall>x\<in>set v. in_s16 x" "\<forall>x\<in>set w. in_s16 x" "n \<le> length v" "n \<le> length w" "n \<le> 4294967296"
  shows "WebRtcSpl_DotProductWithScale v w n s = Some (saturated_cast32 (\<Sum>k<n. v ! k * w ! k div 2 ^ s))"
proof -
  have n: "4 * (n div 4) + n mod 4 = n" by simp
  have "dot_rest (n mod 4) (4 * (n div 4)) v w s (dot_unrolled (n div 4) 0 v w s 0) = dot_rest n 0 v w s 0"
    using dot_rest_append [of "4 * (n div 4)" "n mod 4" 0 v w s 0] n by (simp add: dot_unrolled_rest)
  also have "\<dots> = (\<Sum>k = 0..<n. dot_scale v w s k)" using dot_rest_exact [OF assms(1,2), of 0 n 0 s] assms(3-5) by simp
  also have "\<dots> = (\<Sum>k<n. v ! k * w ! k div 2 ^ s)"
    using assms by (intro sum.cong) (auto intro!: dot_scale_exact(1))
  finally show ?thesis using assms(3,4) by (simp add: WebRtcSpl_DotProductWithScale_def)
qed

end
