(* ===== verification/Vad_Sp.thy ===== *)
theory Vad_Sp
  imports Spl_Basic Spl_Resample "HOL-Library.Multiset"
begin

section \<open>Voice activity detection: state, downsampling and minimum tracking\<close>

text \<open>
  The instance record of \<open>vad_core.h\<close>, the routines of \<open>vad_sp.c\<close> (the half-band
  \<open>WebRtcVad_Downsampling\<close> and \<open>WebRtcVad_FindMinimum\<close>, which keeps per channel the 16
  smallest feature values of the recent frames with their ages and smooths a median of them) and
  \<open>vad_gmm.c\<close> (\<open>WebRtcVad_GaussianProbability\<close>). A product of two 16-bit values fits an
  \<open>int\<close>, so it is written without a conversion; every store into an \<open>int16_t\<close> is an
  \<open>s16\<close>, every sum or product that could leave \<open>int\<close> an \<open>add32\<close>, \<open>sub32\<close> or
  \<open>mul32\<close>. The lemmas show that downsampling is streaming, that the tracked window stays
  sorted and is changed by a sorted insertion, that the smoothed minimum stays between its old
  value and the median, and what the Gaussian approximation computes.
\<close>

unbundle bit_operations_syntax

subsection \<open>The instance (\<open>vad_core.h\<close>)\<close>

abbreviation (input) kNumChannels :: nat where "kNumChannels \<equiv> 6"
abbreviation (input) kNumGaussians :: nat where "kNumGaussians \<equiv> 2"
abbreviation (input) kTableSize :: nat where "kTableSize \<equiv> 12"
abbreviation (input) kMinEnergy :: int where "kMinEnergy \<equiv> 10"

record VadInstT =
  vad :: int
  downsampling_filter_states :: "int list"
  state_48_to_8 :: State48khzTo8khz
  noise_means :: "int list"
  speech_means :: "int list"
  noise_stds :: "int list"
  speech_stds :: "int list"
  frame_counter :: int
  over_hang :: int
  num_of_speech :: int
  index_vector :: "int list"
  low_value_vector :: "int list"
  mean_value :: "int list"
  upper_state :: "int list"
  lower_state :: "int list"
  hp_filter_state :: "int list"
  over_hang_max_1 :: "int list"
  over_hang_max_2 :: "int list"
  individual :: "int list"
  total :: "int list"
  init_flag :: int

subsection \<open>Downsampling by two (\<open>vad_sp.c\<close>)\<close>

definition kAllPassCoefsQ13 :: "int list" where
  "kAllPassCoefsQ13 = [5243, 1392]"

definition kSmoothingDown :: int where "kSmoothingDown = 6553"
definition kSmoothingUp :: int where "kSmoothingUp = 32439"

definition downsampling_step :: "int \<Rightarrow> int \<Rightarrow> int \<times> int \<Rightarrow> int \<times> int \<times> int" where
  "downsampling_step in0 in1 = (\<lambda>(tmp32_1, tmp32_2).
     (let tmp16_1 = s16 (shr tmp32_1 1 + shr (kAllPassCoefsQ13 ! 0 * in0) 14);
          out = tmp16_1;
          tmp32_1 = sub32 in0 (shr (kAllPassCoefsQ13 ! 0 * tmp16_1) 12);
          tmp16_2 = s16 (shr tmp32_2 1 + shr (kAllPassCoefsQ13 ! 1 * in1) 14);
          out = s16 (out + tmp16_2);
          tmp32_2 = sub32 in1 (shr (kAllPassCoefsQ13 ! 1 * tmp16_2) 12)
      in (out, tmp32_1, tmp32_2)))"

fun downsampling_loop :: "nat \<Rightarrow> int list \<Rightarrow> int \<times> int \<Rightarrow> int list \<times> int \<times> int" where
  "downsampling_loop 0 signal_in st = ([], st)"
| "downsampling_loop (Suc n) signal_in st =
     (let (y, st) = downsampling_step (signal_in ! 0) (signal_in ! 1) st;
          (ys, st) = downsampling_loop n (drop 2 signal_in) st
      in (y # ys, st))"

text \<open>The filter state is passed as the list whose first two cells are the state.\<close>

definition WebRtcVad_Downsampling :: "int list \<Rightarrow> int list \<Rightarrow> nat \<Rightarrow> int list \<times> int list" where
  "WebRtcVad_Downsampling signal_in filter_state in_length =
     (let half_length = in_length div 2;
          (out, tmp32_1, tmp32_2) =
            downsampling_loop half_length signal_in (filter_state ! 0, filter_state ! 1)
      in (out, filter_state[0 := tmp32_1, 1 := tmp32_2]))"

subsection \<open>Tracking the minimum (\<open>vad_sp.c\<close>)\<close>

text \<open>A channel's window is the pair of its 16 ages and its 16 smallest values.\<close>

type_synonym window = "int list \<times> int list"

definition shift_down :: "nat \<Rightarrow> window \<Rightarrow> window" where
  "shift_down i = fold (\<lambda>j (age, smallest_values).
     (age[j := age ! (j + 1)], smallest_values[j := smallest_values ! (j + 1)])) [i..<15]"

definition age_slot :: "nat \<Rightarrow> window \<Rightarrow> window" where
  "age_slot i = (\<lambda>(age, smallest_values).
     if age ! i \<noteq> 100 then (age[i := s16 (age ! i + 1)], smallest_values)
     else let (age, smallest_values) = shift_down i (age, smallest_values)
          in (age[15 := 101], smallest_values[15 := 10000]))"

definition age_values :: "window \<Rightarrow> window" where
  "age_values = fold age_slot [0..<16]"

definition find_position :: "int \<Rightarrow> int list \<Rightarrow> int" where
  "find_position feature_value smallest_values =
     (if feature_value < smallest_values ! 7 then
        (if feature_value < smallest_values ! 3 then
           (if feature_value < smallest_values ! 1 then
              (if feature_value < smallest_values ! 0 then 0 else 1)
            else if feature_value < smallest_values ! 2 then 2 else 3)
         else if feature_value < smallest_values ! 5 then
           (if feature_value < smallest_values ! 4 then 4 else 5)
         else if feature_value < smallest_values ! 6 then 6 else 7)
      else if feature_value < smallest_values ! 15 then
        (if feature_value < smallest_values ! 11 then
           (if feature_value < smallest_values ! 9 then
              (if feature_value < smallest_values ! 8 then 8 else 9)
            else if feature_value < smallest_values ! 10 then 10 else 11)
         else if feature_value < smallest_values ! 13 then
           (if feature_value < smallest_values ! 12 then 12 else 13)
         else if feature_value < smallest_values ! 14 then 14 else 15)
      else -1)"

definition insert_at :: "int \<Rightarrow> nat \<Rightarrow> window \<Rightarrow> window" where
  "insert_at feature_value position w =
     (let (age, smallest_values) = fold (\<lambda>i (age, smallest_values).
            (age[i := age ! (i - 1)], smallest_values[i := smallest_values ! (i - 1)]))
          (rev [position + 1..<16]) w
      in (age[position := 1], smallest_values[position := feature_value]))"

definition insert_value :: "int \<Rightarrow> window \<Rightarrow> window" where
  "insert_value feature_value w =
     (let position = find_position feature_value (snd w)
      in if position > -1 then insert_at feature_value (nat position) w else w)"

definition current_median :: "int \<Rightarrow> int list \<Rightarrow> int" where
  "current_median fc smallest_values =
     (if fc > 2 then smallest_values ! 2
      else if fc > 0 then smallest_values ! 0 else 1600)"

definition smooth_median :: "int \<Rightarrow> int \<Rightarrow> int \<Rightarrow> int" where
  "smooth_median fc median mean =
     (let alpha = (if fc > 0
                   then (if median < mean then kSmoothingDown else kSmoothingUp) else 0);
          tmp32 = mul32 (alpha + 1) mean;
          tmp32 = add32 tmp32 (mul32 (32767 - alpha) median);
          tmp32 = add32 tmp32 16384
      in s16 (shr tmp32 15))"

definition WebRtcVad_FindMinimum :: "VadInstT \<Rightarrow> int \<Rightarrow> nat \<Rightarrow> int \<times> VadInstT" where
  "WebRtcVad_FindMinimum self feature_value channel =
     (let offset = channel * 16;
          w = age_values (slice offset 16 (index_vector self), slice offset 16 (low_value_vector self));
          (age, smallest_values) = insert_value feature_value w;
          median = current_median (frame_counter self) smallest_values;
          mean = smooth_median (frame_counter self) median (mean_value self ! channel)
      in (mean, self\<lparr>index_vector := write_at offset age (index_vector self),
                     low_value_vector := write_at offset smallest_values (low_value_vector self),
                     mean_value := (mean_value self)[channel := mean]\<rparr>))"

subsection \<open>Gaussian probability (\<open>vad_gmm.c\<close>)\<close>

definition kCompVar :: int where "kCompVar = 22005"
definition kLog2Exp :: int where "kLog2Exp = 5909"

definition exp_approx :: "int \<Rightarrow> int" where
  "exp_approx tmp32 =
     (let tmp16 = s16 (shr (mul32 kLog2Exp tmp32) 12);
          tmp16 = s16 (- tmp16);
          exp_value = s16 (0x0400 OR (tmp16 AND 0x03FF));
          tmp16 = s16 (tmp16 XOR 0xFFFF);
          tmp16 = shr tmp16 10;
          tmp16 = s16 (tmp16 + 1)
      in shr exp_value (nat tmp16))"

text \<open>Returns the probability (Q20) and \<open>delta\<close> (Q11).\<close>

definition WebRtcVad_GaussianProbability :: "int \<Rightarrow> int \<Rightarrow> int \<Rightarrow> int \<times> int" where
  "WebRtcVad_GaussianProbability input mean std =
     (let tmp32 = 131072 + shr std 1;
          inv_std = s16 (WebRtcSpl_DivW32W16 tmp32 std);
          tmp16 = shr inv_std 2;
          inv_std2 = s16 (shr (tmp16 * tmp16) 2);
          tmp16 = s16 (input * 2 ^ 3);
          tmp16 = s16 (tmp16 - mean);
          delta = s16 (shr (inv_std2 * tmp16) 10);
          tmp32 = shr (delta * tmp16) 9;
          exp_value = (if tmp32 < kCompVar then exp_approx tmp32 else 0)
      in (inv_std * exp_value, delta))"

subsection \<open>Downsampling is streaming\<close>

lemma downsampling_loop_append:
  "length xs = 2 * m \<Longrightarrow> downsampling_loop (m + n) (xs @ ys) st =
     (fst (downsampling_loop m xs st) @ fst (downsampling_loop n ys (snd (downsampling_loop m xs st))),
      snd (downsampling_loop n ys (snd (downsampling_loop m xs st))))"
proof (induction m arbitrary: xs st)
  case 0
  then show ?case by simp
next
  case (Suc m)
  then obtain a b zs where xs: "xs = a # b # zs" "length zs = 2 * m"
    by (cases xs; cases "tl xs") auto
  then show ?case
    by (simp add: Suc.IH split_def Let_def)
qed

definition vad_down :: "int list \<Rightarrow> int list \<Rightarrow> int list \<times> int list" where
  "vad_down xs st = WebRtcVad_Downsampling xs st (length xs)"

lemma length_downsampling_loop: "length (fst (downsampling_loop n xs st)) = n"
  by (induction n arbitrary: xs st) (simp_all add: split_def Let_def)

lemma downsampling_loop_range: "\<forall>y\<in>set (fst (downsampling_loop n xs st)). in_s16 y"
  by (induction n arbitrary: xs st) (auto simp: split_def Let_def downsampling_step_def)

interpretation vad_down: frame_filter vad_down 2 "\<lambda>st. 2 \<le> length st"
proof
  fix st xs ys :: "int list"
  assume len: "2 \<le> length st"
  show "vad_down [] st = ([], st)"
    by (simp add: vad_down_def WebRtcVad_Downsampling_def)
  show "2 \<le> length (snd (vad_down xs st))"
    using len by (simp add: vad_down_def WebRtcVad_Downsampling_def split_def Let_def)
  assume "2 dvd length xs" "2 dvd length ys"
  then obtain m n where "length xs = 2 * m" "length ys = 2 * n"
    by (auto elim!: dvdE)
  moreover have "(2 * m + 2 * n) div 2 = m + n" by simp
  moreover from len obtain a b r where "st = a # b # r"
    by (cases st; cases "tl st") auto
  ultimately show "vad_down (xs @ ys) st =
      (fst (vad_down xs st) @ fst (vad_down ys (snd (vad_down xs st))),
       snd (vad_down ys (snd (vad_down xs st))))"
    by (simp add: vad_down_def WebRtcVad_Downsampling_def split_def Let_def
        downsampling_loop_append)
qed

subsection \<open>The window of smallest values\<close>

lemma fold_pair:
  "fold (\<lambda>j (a, s). (f j a, g j s)) js (a, s) = (fold f js a, fold g js s)"
  by (induction js arbitrary: a s) simp_all

lemma length_fold_update: "length (fold (\<lambda>j xs. xs[j := F j xs]) js xs) = length xs"
  by (induction js arbitrary: xs) simp_all

lemma fold_shift_down_nth:
  "i \<le> n \<Longrightarrow> n < length xs \<Longrightarrow> k < length xs \<Longrightarrow>
   fold (\<lambda>j xs. xs[j := xs ! Suc j]) [i..<n] xs ! k =
     (if i \<le> k \<and> k < n then xs ! Suc k else xs ! k)"
  by (induction n arbitrary: k)
    (auto simp: length_fold_update nth_list_update le_Suc_eq)

lemma shift_down_eq:
  assumes "length xs = 16" "i < 16"
  shows "(fold (\<lambda>j xs. xs[j := xs ! Suc j]) [i..<15] xs)[15 := v] =
         take i xs @ drop (Suc i) xs @ [v]"
  using assms
  by (intro nth_equalityI)
    (auto simp: length_fold_update nth_list_update fold_shift_down_nth nth_append)

lemma fold_shift_up_nth:
  "n < length xs \<Longrightarrow> k < length xs \<Longrightarrow>
   fold (\<lambda>i xs. xs[i := xs ! (i - Suc 0)]) (rev [Suc p..<Suc n]) xs ! k =
     (if Suc p \<le> k \<and> k \<le> n then xs ! (k - 1) else xs ! k)"
proof (induction n arbitrary: k xs)
  case 0
  then show ?case by simp
next
  case (Suc n)
  show ?case
  proof (cases "p \<le> n")
    case True
    then have split: "[Suc p..<Suc (Suc n)] = [Suc p..<Suc n] @ [Suc n]" by simp
    have "fold (\<lambda>i xs. xs[i := xs ! (i - Suc 0)]) (rev [Suc p..<Suc (Suc n)]) xs ! k =
        (if Suc p \<le> k \<and> k \<le> n then xs[Suc n := xs ! n] ! (k - 1) else xs[Suc n := xs ! n] ! k)"
      unfolding split using Suc.IH [of "xs[Suc n := xs ! n]" k] Suc.prems
      by (simp del: upt_Suc)
    then show ?thesis using Suc.prems True by (auto simp: nth_list_update)
  next
    case False
    then show ?thesis by auto
  qed
qed

lemma shift_up_eq:
  assumes "length xs = 16" "p < 16"
  shows "(fold (\<lambda>i xs. xs[i := xs ! (i - Suc 0)]) (rev [Suc p..<16]) xs)[p := v] =
         take 16 (take p xs @ v # drop p xs)" (is "?l = ?r")
proof (rule nth_equalityI)
  show "length ?l = length ?r" using assms by (simp add: length_fold_update)
  fix k
  assume "k < length ?l"
  then have k: "k < 16" by (simp add: length_fold_update assms)
  have n: "[Suc p..<16] = [Suc p..<Suc 15]" by simp
  show "?l ! k = ?r ! k"
    unfolding n using fold_shift_up_nth [of 15 xs k p] k assms
    by (auto simp: nth_list_update length_fold_update nth_append nth_Cons' simp del: upt_Suc)
qed

definition window_ok :: "window \<Rightarrow> bool" where
  "window_ok w \<longleftrightarrow> length (fst w) = 16 \<and> length (snd w) = 16 \<and> sorted (snd w) \<and>
     (\<forall>x\<in>set (snd w). in_s16 x \<and> x \<le> 10000)"

lemma age_slot_expired:
  assumes "length age = 16" "length vals = 16" "i < 16" "age ! i = 100"
  shows "age_slot i (age, vals) =
    (take i age @ drop (Suc i) age @ [101], take i vals @ drop (Suc i) vals @ [10000])"
  using assms by (simp add: age_slot_def shift_down_def fold_pair shift_down_eq)

lemma age_slot_young:
  "age ! i \<noteq> 100 \<Longrightarrow> age_slot i (age, vals) = (age[i := s16 (age ! i + 1)], vals)"
  by (simp add: age_slot_def)

lemma sorted_remove_append:
  "sorted v \<Longrightarrow> \<forall>x\<in>set v. x \<le> m \<Longrightarrow> sorted (take i v @ drop (Suc i) v @ [m])"
proof -
  assume s: "sorted v" and m: "\<forall>x\<in>set v. x \<le> m"
  have "sorted (take i v @ drop i v)" using s by simp
  then have "sorted (take i v)" "\<forall>x\<in>set (take i v). \<forall>y\<in>set (drop i v). x \<le> y"
    unfolding sorted_append by blast+
  moreover have "sorted (drop (Suc i) v)" using s by (rule sorted_wrt_drop)
  moreover have "set (drop (Suc i) v) \<subseteq> set (drop i v)" by (simp add: set_drop_subset_set_drop)
  ultimately show ?thesis
    using m by (auto simp: sorted_append dest: in_set_takeD in_set_dropD)
qed

lemma age_slot_ok:
  assumes "window_ok w" "i < 16"
  shows "window_ok (age_slot i w)"
proof (cases w)
  case (Pair age vals)
  show ?thesis
  proof (cases "age ! i = 100")
    case True
    with assms Pair show ?thesis
      by (auto simp: window_ok_def age_slot_expired sorted_remove_append in_s16_def
          dest!: in_set_takeD in_set_dropD)
  qed (use assms Pair in \<open>simp add: age_slot_young window_ok_def\<close>)
qed

lemma age_values_ok: "window_ok w \<Longrightarrow> window_ok (age_values w)"
proof -
  have "window_ok w \<Longrightarrow> \<forall>i\<in>set is. i < 16 \<Longrightarrow> window_ok (fold age_slot is w)" for "is"
    by (induction "is" arbitrary: w) (simp_all add: age_slot_ok)
  from this [of "[0..<16]"] show "window_ok w \<Longrightarrow> window_ok (age_values w)"
    by (simp add: age_values_def)
qed

text \<open>The search tree of comparisons finds the insertion point, or \<open>-1\<close> when there is none.\<close>

definition insertion_point :: "int \<Rightarrow> int list \<Rightarrow> int \<Rightarrow> bool" where
  "insertion_point x v p \<longleftrightarrow> p = -1 \<and> v ! 15 \<le> x \<or>
     0 \<le> p \<and> p < 16 \<and> x < v ! nat p \<and> (p > 0 \<longrightarrow> v ! nat (p - 1) \<le> x)"

lemma insertion_point_if:
  "(c \<Longrightarrow> insertion_point x v p) \<Longrightarrow> (\<not> c \<Longrightarrow> insertion_point x v q) \<Longrightarrow>
   insertion_point x v (if c then p else q)"
  by simp

lemma find_position_correct: "insertion_point x v (find_position x v)"
  unfolding find_position_def
  by (intro insertion_point_if) (simp_all add: insertion_point_def)

lemma insort_at:
  assumes "sorted v" "p < length v" "x < v ! p" "p > 0 \<longrightarrow> v ! (p - 1) \<le> (x::int)"
  shows "insort x v = take p v @ x # drop p v"
proof -
  have "y \<le> x" if "y \<in> set (take p v)" for y
  proof -
    from that obtain i where i: "i < p" "i < length v" "y = v ! i"
      by (auto simp: in_set_conv_nth)
    then have "v ! i \<le> v ! (p - 1)" using assms(1,2) by (intro sorted_nth_mono) auto
    with i assms(4) show ?thesis by auto
  qed
  moreover have "x \<le> y" if "y \<in> set (drop p v)" for y
  proof -
    from that obtain i where "p \<le> i" "i < length v" "y = v ! i"
      by (auto simp: in_set_conv_nth) (metis add.commute le_add1 less_diff_conv nth_drop)
    then show ?thesis using assms(1,3) sorted_nth_mono [of v p i] by auto
  qed
  moreover have "sorted (take p v @ drop p v)" using assms(1) by simp
  ultimately have "sorted (take p v @ x # drop p v)"
    unfolding sorted_append by auto
  moreover have "mset (take p v @ x # drop p v) = mset (insort x v)"
    by (metis append_take_drop_id mset_append mset_insort union_mset_add_mset_right mset.simps(2))
  ultimately show ?thesis
    by (metis assms(1) properties_for_sort sorted_insort sorted_sort_id)
qed

lemma insort_end: "\<forall>y\<in>set v. y \<le> (x::int) \<Longrightarrow> sorted v \<Longrightarrow> insort x v = v @ [x]"
proof -
  assume le: "\<forall>y\<in>set v. y \<le> x" and s: "sorted v"
  have "sorted (v @ [x])" "mset (v @ [x]) = mset (insort x v)"
    using le s by (auto simp: sorted_append)
  then show ?thesis by (metis s properties_for_sort sorted_insort sorted_sort_id)
qed

lemma insert_value_eq:
  assumes "window_ok w"
  shows "snd (insert_value x w) = take 16 (insort x (snd w))" "length (fst (insert_value x w)) = 16"
proof -
  obtain age v where w: "w = (age, v)" by (cases w)
  with assms have v: "length age = 16" "length v = 16" "sorted v"
    by (auto simp: window_ok_def)
  have "snd (insert_value x w) = take 16 (insort x v) \<and> length (fst (insert_value x w)) = 16"
    using find_position_correct [of x v] unfolding insertion_point_def
  proof (elim disjE conjE)
    assume p: "find_position x v = -1" and le: "v ! 15 \<le> x"
    have "y \<le> x" if "y \<in> set v" for y
    proof -
      from that obtain i where "i < 16" "y = v ! i" using v by (auto simp: in_set_conv_nth)
      then show ?thesis using sorted_nth_mono [of v i 15] v le by auto
    qed
    then have "insort x v = v @ [x]" using v by (simp add: insort_end)
    then show ?thesis using p w v by (simp add: insert_value_def)
  next
    let ?p = "find_position x v"
    assume p: "0 \<le> ?p" "?p < 16" "x < v ! nat ?p" "0 < ?p \<longrightarrow> v ! nat (?p - 1) \<le> x"
    then have "insort x v = take (nat ?p) v @ x # drop (nat ?p) v"
      using v by (intro insort_at) (auto simp: nat_diff_distrib)
    moreover have "nat ?p < 16" using p by simp
    ultimately show ?thesis
      using p w v
      by (simp add: insert_value_def insert_at_def fold_pair shift_up_eq length_fold_update Let_def)
  qed
  then show "snd (insert_value x w) = take 16 (insort x (snd w))"
    "length (fst (insert_value x w)) = 16" using w by simp_all
qed

lemma insert_value_ok:
  assumes "window_ok w" "in_s16 x"
  shows "window_ok (insert_value x w)"
proof -
  have w: "length (snd w) = 16" "sorted (snd w)" "\<forall>y\<in>set (snd w). in_s16 y \<and> y \<le> 10000"
    using assms by (auto simp: window_ok_def)
  have srt: "sorted (insort x (snd w))" by (simp add: w sorted_insort)
  have "y \<le> 10000" if y: "y \<in> set (take 16 (insort x (snd w)))" for y
  proof (cases "x \<le> 10000")
    case True
    with w in_set_takeD [OF y] show ?thesis by (auto simp: set_insort_key)
  next
    case False
    with w have "insort x (snd w) = snd w @ [x]" by (intro insort_end) force+
    with y w show ?thesis by auto
  qed
  moreover have "in_s16 y" if y: "y \<in> set (take 16 (insort x (snd w)))" for y
    using w assms(2) in_set_takeD [OF y] by (auto simp: set_insort_key)
  ultimately show ?thesis
    using srt w by (simp add: window_ok_def insert_value_eq [OF assms(1)] sorted_wrt_take)
qed

subsection \<open>Smoothing and the whole minimum tracker\<close>

lemma smooth_median_between:
  assumes "in_s16 median" "in_s16 mean"
  shows "min mean median \<le> smooth_median fc median mean"
    "smooth_median fc median mean \<le> max mean median"
proof -
  define a where "a = (if fc > 0 then (if median < mean then kSmoothingDown else kSmoothingUp) else 0)"
  have a: "0 \<le> a" "a \<le> 32767"
    by (auto simp: a_def kSmoothingDown_def kSmoothingUp_def)
  define t where "t = (a + 1) * mean + (32767 - a) * median + 16384"
  have weights: "(a + 1) * m + (32767 - a) * m = 32768 * m" for m by (simp add: algebra_simps)
  have "(a + 1) * min mean median \<le> (a + 1) * mean" "(32767 - a) * min mean median \<le> (32767 - a) * median"
    "(a + 1) * mean \<le> (a + 1) * max mean median" "(32767 - a) * median \<le> (32767 - a) * max mean median"
    using a by (auto intro!: mult_left_mono)
  then have lo: "32768 * min mean median + 16384 \<le> t" and hi: "t \<le> 32768 * max mean median + 16384"
    using weights [of "min mean median"] weights [of "max mean median"] unfolding t_def by linarith+
  have mm: "-32768 \<le> min mean median" "max mean median \<le> 32767"
    using assms by (auto simp: in_s16_def)
  then have t: "in_s32 t" using lo hi unfolding in_s32_def by linarith
  have "smooth_median fc median mean = s16 (shr t 15)"
    using t by (simp add: smooth_median_def Let_def add32_def mul32_def t_def add.assoc s32_id
        flip: a_def)
  moreover have "min mean median \<le> shr t 15"
    using zdiv_mono1 [OF lo, of 32768] by (simp add: shr_def)
  moreover have "shr t 15 \<le> max mean median"
    using zdiv_mono1 [OF hi, of 32768] by (simp add: shr_def)
  ultimately show "min mean median \<le> smooth_median fc median mean"
    "smooth_median fc median mean \<le> max mean median"
    using mm by (simp_all add: s16_idI)
qed

lemma current_median_in:
  "length v = 16 \<Longrightarrow> \<forall>x\<in>set v. in_s16 x \<Longrightarrow> in_s16 (current_median fc v)"
  by (auto simp: current_median_def in_s16_def)

lemma slice_write_at_same:
  "off + length xs \<le> length mem \<Longrightarrow> slice off (length xs) (write_at off xs mem) = xs"
  by (simp add: slice_def write_at_def)

lemma slice_write_at_other:
  assumes "off + length xs \<le> length mem" "o2 + n \<le> off \<or> off + length xs \<le> o2"
  shows "slice o2 n (write_at off xs mem) = slice o2 n mem"
  using assms
proof (elim disjE)
  assume le: "off + length xs \<le> o2" and fit: "off + length xs \<le> length mem"
  have "drop o2 (write_at off xs mem) = drop o2 mem"
    using le fit by (simp add: write_at_def)
  then show ?thesis by (simp add: slice_def)
next
  assume le: "o2 + n \<le> off" and fit: "off + length xs \<le> length mem"
  have "slice o2 n (write_at off xs mem) = drop o2 (take (o2 + n) (write_at off xs mem))"
    by (simp add: slice_def drop_take)
  also have "take (o2 + n) (write_at off xs mem) = take (o2 + n) mem"
    using le fit by (simp add: write_at_def min_def)
  finally show ?thesis by (simp add: slice_def drop_take)
qed

definition channel_window :: "VadInstT \<Rightarrow> nat \<Rightarrow> window" where
  "channel_window self c = (slice (c * 16) 16 (index_vector self), slice (c * 16) 16 (low_value_vector self))"

definition minima_ok :: "VadInstT \<Rightarrow> bool" where
  "minima_ok self \<longleftrightarrow> length (index_vector self) = 96 \<and> length (low_value_vector self) = 96 \<and>
     length (mean_value self) = 6 \<and> (\<forall>c<6. window_ok (channel_window self c)) \<and>
     (\<forall>m\<in>set (mean_value self). in_s16 m)"

lemma FindMinimum_eq:
  assumes "minima_ok self" "channel < 6" "in_s16 x"
    and call: "WebRtcVad_FindMinimum self x channel = (m, self')"
  defines "w \<equiv> insert_value x (age_values (channel_window self channel))"
    and "median \<equiv> current_median (frame_counter self) (snd (insert_value x (age_values (channel_window self channel))))"
  shows "m = smooth_median (frame_counter self) median (mean_value self ! channel)"
    "channel_window self' channel = w" "window_ok w"
    "\<forall>c<6. c \<noteq> channel \<longrightarrow> channel_window self' c = channel_window self c"
    "mean_value self' = (mean_value self)[channel := m]"
    "in_s16 median" "minima_ok self'"
    "self' = self\<lparr>index_vector := index_vector self', low_value_vector := low_value_vector self',
                 mean_value := mean_value self'\<rparr>"
proof -
  have win: "window_ok (channel_window self channel)" and len: "length (index_vector self) = 96"
    "length (low_value_vector self) = 96" "length (mean_value self) = 6"
    using assms by (auto simp: minima_ok_def)
  from win show w: "window_ok w"
    unfolding w_def by (intro insert_value_ok age_values_ok assms)
  then have lw: "length (fst w) = 16" "length (snd w) = 16" "\<forall>y\<in>set (snd w). in_s16 y"
    by (auto simp: window_ok_def)
  have eqs: "index_vector self' = write_at (channel * 16) (fst w) (index_vector self)"
    "low_value_vector self' = write_at (channel * 16) (snd w) (low_value_vector self)"
    "mean_value self' = (mean_value self)[channel := m]"
    "m = smooth_median (frame_counter self) median (mean_value self ! channel)"
    "self' = self\<lparr>index_vector := index_vector self', low_value_vector := low_value_vector self',
                 mean_value := mean_value self'\<rparr>"
    using call by (auto simp: WebRtcVad_FindMinimum_def w_def median_def channel_window_def split_def Let_def)
  then show "mean_value self' = (mean_value self)[channel := m]"
    "m = smooth_median (frame_counter self) median (mean_value self ! channel)"
    "self' = self\<lparr>index_vector := index_vector self', low_value_vector := low_value_vector self',
                 mean_value := mean_value self'\<rparr>" by simp_all
  have fit: "channel * 16 + 16 \<le> 96" using assms(2) by linarith
  show own: "channel_window self' channel = w"
    using slice_write_at_same [of "channel * 16" "fst w" "index_vector self"]
      slice_write_at_same [of "channel * 16" "snd w" "low_value_vector self"] lw len fit
    by (simp add: channel_window_def eqs(1,2))
  show other: "\<forall>c<6. c \<noteq> channel \<longrightarrow> channel_window self' c = channel_window self c"
  proof (intro allI impI)
    fix c :: nat
    assume "c < 6" "c \<noteq> channel"
    then have "c * 16 + 16 \<le> channel * 16 \<or> channel * 16 + 16 \<le> c * 16" by arith
    then show "channel_window self' c = channel_window self c"
      using slice_write_at_other [of "channel * 16" "fst w" "index_vector self" "c * 16" 16]
        slice_write_at_other [of "channel * 16" "snd w" "low_value_vector self" "c * 16" 16] lw len fit
      by (simp add: channel_window_def eqs(1,2))
  qed
  show med: "in_s16 median"
    unfolding median_def using lw by (intro current_median_in) (simp_all add: w_def)
  have "in_s16 (mean_value self ! channel)"
    using assms(1,2) len by (auto simp: minima_ok_def)
  then have "in_s16 m"
    using smooth_median_between [OF med, of "mean_value self ! channel" "frame_counter self"] eqs(4) med
    by (auto simp: in_s16_def)
  then have "\<forall>y\<in>set (mean_value self'). in_s16 y"
    using assms(1) unfolding eqs(3) by (auto simp: minima_ok_def dest!: set_update_subset_insert [THEN subsetD])
  then show "minima_ok self'"
    using own w other assms(1) lw len fit
    by (auto simp: minima_ok_def eqs(1-3) write_at_def)
qed

subsection \<open>Ageing\<close>

lemma fold_age_slot_young:
  assumes "\<forall>j\<in>set js. age ! j \<noteq> 100" "distinct js"
  shows "\<exists>age'. fold age_slot js (age, vals) = (age', vals) \<and> length age' = length age \<and>
     (\<forall>k. k \<notin> set js \<longrightarrow> age' ! k = age ! k) \<and> (\<forall>k\<in>set js. k < length age \<longrightarrow> age' ! k = s16 (age ! k + 1))"
  using assms
proof (induction js arbitrary: age)
  case Nil
  then show ?case by simp
next
  case (Cons j js)
  let ?a = "age[j := s16 (age ! j + 1)]"
  have "\<forall>i\<in>set js. ?a ! i \<noteq> 100"
    using Cons.prems by (metis distinct.simps(2) list.set_intros(2) nth_list_update_neq)
  with Cons.IH [of ?a] Cons.prems obtain age' where
    "fold age_slot js (?a, vals) = (age', vals)" "length age' = length age"
    "\<forall>k. k \<notin> set js \<longrightarrow> age' ! k = ?a ! k"
    "\<forall>k\<in>set js. k < length age \<longrightarrow> age' ! k = s16 (?a ! k + 1)"
    by auto
  moreover have "\<forall>k\<in>set js. ?a ! k = age ! k"
    using Cons.prems by (metis distinct.simps(2) nth_list_update_neq)
  ultimately show ?case
    using Cons.prems by (auto simp: age_slot_young nth_list_update)
qed

lemma age_values_one_expired:
  assumes len: "length age = 16" "length vals = 16" and i: "i < 15" and old: "age ! i = 100"
    and young: "\<forall>j<16. j \<noteq> i \<longrightarrow> age ! j \<noteq> 100"
  shows "snd (age_values (age, vals)) = take i vals @ drop (Suc i) vals @ [10000]"
    "\<forall>k<i. fst (age_values (age, vals)) ! k = s16 (age ! k + 1)"
    "fst (age_values (age, vals)) ! i = age ! Suc i"
    "\<forall>k. i < k \<and> k < 15 \<longrightarrow> fst (age_values (age, vals)) ! k = s16 (age ! Suc k + 1)"
proof -
  have split: "[0..<16] = [0..<i] @ i # [Suc i..<16]"
    using i upt_add_eq_append [of 0 i "16 - i"] by (simp add: upt_conv_Cons)
  obtain a1 where a1: "fold age_slot [0..<i] (age, vals) = (a1, vals)" "length a1 = 16"
    "\<forall>k\<ge>i. a1 ! k = age ! k" "\<forall>k<i. a1 ! k = s16 (age ! k + 1)"
    using fold_age_slot_young [of "[0..<i]" age vals] young i len by auto
  let ?a2 = "take i a1 @ drop (Suc i) a1 @ [101]" and ?v2 = "take i vals @ drop (Suc i) vals @ [10000]"
  have slot: "age_slot i (a1, vals) = (?a2, ?v2)"
    using a1 old i len by (intro age_slot_expired) auto
  have l2: "length ?a2 = 16" using a1 i by simp
  have nth2: "?a2 ! k = (if k < i then a1 ! k else if k < 15 then age ! Suc k else 101)" if k: "k < 16" for k
  proof -
    consider "k < i" | "i \<le> k" "k < 15" | "k = 15" using k by linarith
    then show ?thesis
    proof cases
      case 2
      then have "k - i < 15 - i" by simp
      then have "?a2 ! k = a1 ! Suc k" using 2 a1(2) i by (simp add: nth_append)
      then show ?thesis using a1(3) 2 by simp
    qed (use a1(2) i in \<open>simp_all add: nth_append\<close>)
  qed
  have "?a2 ! j \<noteq> 100" if "Suc i \<le> j" "j < 16" for j
    using nth2 [OF that(2)] young [rule_format, of "Suc j"] that i by (simp split: if_splits)
  then have "\<forall>j\<in>set [Suc i..<16]. ?a2 ! j \<noteq> 100" by simp
  then obtain a3 where a3: "fold age_slot [Suc i..<16] (?a2, ?v2) = (a3, ?v2)"
    "\<forall>k\<le>i. a3 ! k = ?a2 ! k" "\<forall>k. i < k \<and> k < 16 \<longrightarrow> a3 ! k = s16 (?a2 ! k + 1)"
    using fold_age_slot_young [of "[Suc i..<16]" ?a2 ?v2] l2 by auto
  have run: "age_values (age, vals) = (a3, ?v2)"
    unfolding age_values_def split using a1(1) slot a3(1) by simp
  show "snd (age_values (age, vals)) = ?v2" by (simp add: run)
  show "\<forall>k<i. fst (age_values (age, vals)) ! k = s16 (age ! k + 1)"
    using a3(2) nth2 a1(4) i by (simp add: run)
  show "fst (age_values (age, vals)) ! i = age ! Suc i"
    using a3(2) nth2 [of i] i by (simp add: run)
  show "\<forall>k. i < k \<and> k < 15 \<longrightarrow> fst (age_values (age, vals)) ! k = s16 (age ! Suc k + 1)"
    using a3(3) nth2 i by (simp add: run)
qed

subsection \<open>The Gaussian approximation\<close>

lemma and_low_bits: "(x::int) AND 1023 = x mod 1024"
  using take_bit_eq_mask [of 10 x] by (simp add: mask_eq_exp_minus_1 take_bit_eq_mod)

lemma or_1024: "0 \<le> y \<Longrightarrow> y < 1024 \<Longrightarrow> 1024 OR y = 1024 + (y::int)"
proof -
  assume y: "0 \<le> y" "y < 1024"
  then have "take_bit 10 y = y" by (simp add: take_bit_eq_mod)
  then have "bit y n \<Longrightarrow> n < 10" for n by (metis bit_take_bit_iff)
  then have "\<not> bit ((2::int) ^ 10) n \<or> \<not> bit y n" for n
    by (metis bit_exp_iff less_irrefl)
  then have "2 ^ 10 OR y = 2 ^ 10 + y" by (metis disjunctive_add)
  then show ?thesis by simp
qed

lemma s16_xor_ffff: "s16 (x XOR 65535) = s16 (- x - 1)"
proof -
  have "take_bit 16 (x XOR mask 16) = take_bit 16 (NOT x)"
    by (auto simp: bit_eq_iff bit_take_bit_iff bit_xor_iff bit_mask_iff bit_not_iff)
  then have "(x XOR 65535) mod 65536 = (- x - 1) mod 65536"
    by (simp add: take_bit_eq_mod mask_eq_exp_minus_1 not_int_def)
  then show ?thesis
    unfolding s16_def by (metis mod_add_left_eq)
qed

lemma exp_approx_eq:
  assumes "0 \<le> e" "e < kCompVar"
  defines "v \<equiv> (5909 * e) div 4096"
  defines "q \<equiv> (v + 1023) div 1024"
  shows "exp_approx e = (1024 + (1024 * q - v)) div 2 ^ nat q" "0 \<le> 1024 * q - v" "1024 * q - v < 1024"
proof -
  have e: "0 \<le> e" "e \<le> 22004" using assms(1,2) by (simp_all add: kCompVar_def)
  have v: "0 \<le> v" "v \<le> 31743"
    using e zdiv_mono1 [of "5909 * e" "5909 * 22004" 4096] unfolding v_def
    by (simp_all add: pos_imp_zdiv_nonneg_iff)
  define m where "m = (v + 1023) mod 1024"
  have m: "0 \<le> m" "m \<le> 1023" "1024 * q = v + 1023 - m"
    using pos_mod_bound [of 1024 "v + 1023"] unfolding m_def q_def by (simp_all add: minus_mod_eq_mult_div)
  then show r_range: "0 \<le> 1024 * q - v" "1024 * q - v < 1024" by simp_all
  have "(- v) mod 1024 = (1024 * q - v) mod 1024"
    using mod_mult_self2 [of "- v" 1024 q] by (simp add: algebra_simps)
  then have r: "(- v) mod 1024 = 1024 * q - v" using r_range by simp
  have q: "0 \<le> q" "q \<le> 32" using v m by simp_all
  have "shr (mul32 kLog2Exp e) 12 = v"
    using e by (simp add: mul32_def kLog2Exp_def s32_idI shr_def v_def)
  moreover have "s16 v = v" "s16 (- v) = - v" using v by (simp_all add: s16_idI)
  moreover have "s16 (1024 OR ((- v) AND 1023)) = 1024 + (1024 * q - v)"
    using r_range by (simp add: and_low_bits r or_1024 s16_idI)
  moreover have "s16 ((- v) XOR 65535) = v - 1"
    using v by (simp add: s16_xor_ffff s16_idI)
  moreover have "shr (v - 1) 10 + 1 = q" unfolding q_def shr_def by simp
  moreover have "s16 q = q" using q by (simp add: s16_idI)
  ultimately show "exp_approx e = (1024 + (1024 * q - v)) div 2 ^ nat q"
    by (simp add: exp_approx_def Let_def shr_def)
qed

lemma exp_approx_range:
  assumes "0 \<le> e" "e < kCompVar"
  shows "0 \<le> exp_approx e" "exp_approx e \<le> 1024"
proof -
  let ?v = "(5909 * e) div 4096"
  let ?q = "(?v + 1023) div 1024"
  let ?r = "1024 * ?q - ?v"
  note eq = exp_approx_eq [OF assms]
  show "0 \<le> exp_approx e" unfolding eq(1) using eq(2) by (simp add: pos_imp_zdiv_nonneg_iff)
  have v: "0 \<le> ?v" using assms by (simp add: pos_imp_zdiv_nonneg_iff)
  show "exp_approx e \<le> 1024"
  proof (cases "?q \<le> 0")
    case True
    then have "?q = 0" using v eq(2) by linarith
    then show ?thesis unfolding eq(1) using v eq(2) by simp
  next
    case False
    then have "(2::int) ^ 1 \<le> 2 ^ nat ?q" by (intro power_increasing) auto
    then have "(1024 + ?r) div 2 ^ nat ?q \<le> (1024 + ?r) div 2"
      using eq(2) by (intro zdiv_mono2) auto
    also have "\<dots> \<le> 2047 div 2" using eq(3) by (intro zdiv_mono1) auto
    finally show ?thesis unfolding eq(1) by simp
  qed
qed

lemma shr_abs_bound: "\<bar>x\<bar> \<le> m * 2 ^ n \<Longrightarrow> \<bar>shr x n\<bar> \<le> m"
proof -
  assume a: "\<bar>x\<bar> \<le> m * 2 ^ n"
  then have "- (m * 2 ^ n) div 2 ^ n \<le> x div 2 ^ n" "x div 2 ^ n \<le> m * 2 ^ n div 2 ^ n"
    by (intro zdiv_mono1; simp)+
  moreover have "- (m * 2 ^ n) div 2 ^ n = - m"
    by (metis mult_minus_left nonzero_mult_div_cancel_right power_not_zero zero_neq_numeral)
  ultimately show ?thesis by (simp add: shr_def abs_le_iff)
qed

lemma inv_std_range:
  assumes "378 \<le> std"
  shows "0 \<le> (131072 + std div 2) div std" "(131072 + std div 2) div std \<le> (347::int)"
proof -
  show "0 \<le> (131072 + std div 2) div std"
    using assms by (intro pos_imp_zdiv_nonneg_iff [THEN iffD2]) auto
  have "131072 + std div 2 < 348 * std" using assms by linarith
  then have "(131072 + std div 2) div std < 348" using assms by (intro int_div_less) auto
  then show "(131072 + std div 2) div std \<le> 347" by simp
qed

lemma GaussianProbability_inv:
  assumes "378 \<le> std" "std \<le> 32767"
  shows "s16 (WebRtcSpl_DivW32W16 (131072 + shr std 1) std) = (131072 + std div 2) div std"
proof -
  have "cdiv (131072 + shr std 1) std = (131072 + std div 2) div std"
    using assms by (simp add: cdiv_pos shr_def)
  then show ?thesis
    using inv_std_range [OF assms(1)] assms by (simp add: WebRtcSpl_DivW32W16_def s32_idI s16_idI)
qed

lemma GaussianProbability_eq:
  fixes input mean std inv isq d delta e :: int
  assumes std: "378 \<le> std" "std \<le> 32767" and inp: "in_s16 (8 * input)"
    and dist: "\<bar>8 * input - mean\<bar> \<le> 18000"
  defines "inv \<equiv> (131072 + std div 2) div std"
    and "d \<equiv> 8 * input - mean"
  defines "isq \<equiv> (inv div 4) * (inv div 4) div 4"
  defines "delta \<equiv> isq * d div 1024"
  defines "e \<equiv> delta * d div 512"
  shows "WebRtcVad_GaussianProbability input mean std =
           (inv * (if e < kCompVar then exp_approx e else 0), delta)"
    "0 \<le> e" "0 \<le> inv" "inv \<le> 347" "\<bar>delta\<bar> \<le> 32502"
proof -
  show inv: "0 \<le> inv" "inv \<le> 347"
    using inv_std_range [OF std(1)] by (simp_all add: inv_def)
  define t where "t = inv div 4"
  have t: "0 \<le> t" "t \<le> 86" using inv unfolding t_def by linarith+
  have "t * t \<le> 86 * 86" using t by (intro mult_mono) auto
  then have isq: "0 \<le> isq" "isq \<le> 1849"
    using t zdiv_mono1 [of "t * t" "86 * 86" 4] unfolding isq_def t_def [symmetric]
    by (simp_all add: pos_imp_zdiv_nonneg_iff)
  have "\<bar>isq * d\<bar> \<le> 1849 * 18000"
    unfolding abs_mult using isq dist by (intro mult_mono) (auto simp: d_def)
  then show delta: "\<bar>delta\<bar> \<le> 32502"
    using shr_abs_bound [of "isq * d" 32502 10] by (simp add: delta_def shr_def)
  have "0 \<le> delta * d"
  proof (cases "0 \<le> d")
    case True
    then show ?thesis using isq by (simp add: delta_def pos_imp_zdiv_nonneg_iff)
  next
    case False
    then have "isq * d div 1024 \<le> 0" using isq zdiv_mono1 [of "isq * d" 0 1024]
      by (simp add: mult_nonneg_nonpos)
    then show ?thesis using False by (simp add: delta_def mult_nonpos_nonpos)
  qed
  then show "0 \<le> e" by (simp add: e_def pos_imp_zdiv_nonneg_iff)
  have "input * 2 ^ 3 = 8 * input" by simp
  then have w1: "s16 (input * 2 ^ 3) = 8 * input" using inp by (simp only: s16_id)
  have w2: "s16 (8 * input - mean) = d"
    unfolding d_def using dist by (intro s16_idI) linarith+
  have w3: "s16 (isq * d div 1024) = delta"
    unfolding delta_def [symmetric] using delta by (intro s16_idI) linarith+
  have w4: "s16 (t * t div 4) = isq"
    unfolding t_def isq_def [symmetric] using isq by (intro s16_idI) linarith+
  show "WebRtcVad_GaussianProbability input mean std =
      (inv * (if e < kCompVar then exp_approx e else 0), delta)"
    unfolding WebRtcVad_GaussianProbability_def Let_def GaussianProbability_inv [OF std]
      inv_def [symmetric] w1 w2
    by (simp add: shr_def w3 w4 e_def flip: t_def)
qed

lemma probability_range:
  assumes "0 \<le> e" "0 \<le> k" "k \<le> 347"
  shows "0 \<le> k * (if e < kCompVar then exp_approx e else 0) \<and>
         k * (if e < kCompVar then exp_approx e else 0) \<le> 347 * 1024"
proof (cases "e < kCompVar")
  case True
  note x = exp_approx_range [OF assms(1) this]
  then have "k * exp_approx e \<le> 347 * 1024" using assms by (intro mult_mono) auto
  with True x assms show ?thesis by simp
qed (use assms in simp)

lemma exp_value_eq:
  assumes "0 \<le> e"
  shows "(if e < kCompVar then exp_approx e else 0) =
     (if e < 22005 then (1024 + (1024 * ((5909 * e div 4096 + 1023) div 1024) - 5909 * e div 4096))
        div 2 ^ nat ((5909 * e div 4096 + 1023) div 1024) else 0)"
  using exp_approx_eq(1) [OF assms] by (simp add: kCompVar_def)

subsection \<open>Properties\<close>

text \<open>C38: \<open>WebRtcVad_FindMinimum\<close> keeps the window of every channel sorted. It inserts the
  feature value into the channel's window (after ageing) and keeps the 16 smallest, leaves the
  windows of the other channels alone, and returns the new smoothed minimum, which lies between
  the previous one and the tracked median and so never wraps around.\<close>

theorem FindMinimum_correct:
  assumes "minima_ok self" "channel < 6" "in_s16 x"
    and "WebRtcVad_FindMinimum self x channel = (m, self')"
  shows "minima_ok self' \<and>
    snd (channel_window self' channel) =
      take 16 (insort x (snd (age_values (channel_window self channel)))) \<and>
    sorted (snd (channel_window self' channel)) \<and>
    (\<forall>c<6. c \<noteq> channel \<longrightarrow> channel_window self' c = channel_window self c) \<and>
    mean_value self' = (mean_value self)[channel := m] \<and>
    (let median = current_median (frame_counter self) (snd (channel_window self' channel));
         mean = mean_value self ! channel
     in min mean median \<le> m \<and> m \<le> max mean median)"
proof -
  note fm = FindMinimum_eq [OF assms]
  have win: "window_ok (age_values (channel_window self channel))"
    using assms by (auto simp: minima_ok_def intro: age_values_ok)
  have "in_s16 (mean_value self ! channel)"
    using assms(1,2) by (auto simp: minima_ok_def)
  with smooth_median_between [OF fm(6) this] fm insert_value_eq(1) [OF win, of x] show ?thesis
    by (simp add: window_ok_def Let_def)
qed

definition demo_minima :: VadInstT where
  "demo_minima = \<lparr>vad = 1, downsampling_filter_states = replicate 4 0,
     state_48_to_8 = WebRtcSpl_ResetResample48khzTo8khz, noise_means = [], speech_means = [],
     noise_stds = [], speech_stds = [], frame_counter = 7, over_hang = 0, num_of_speech = 0,
     index_vector = replicate 96 0, low_value_vector = replicate 96 10000,
     mean_value = replicate 6 1600, upper_state = [], lower_state = [], hp_filter_state = [],
     over_hang_max_1 = [], over_hang_max_2 = [], individual = [], total = [], init_flag = 42\<rparr>"

lemma slice_replicate: "slice off n (replicate m x) = replicate (min n (m - off)) x"
  by (simp add: slice_def min_def)

lemma minima_ok_initial:
  assumes "index_vector self = replicate 96 0" "low_value_vector self = replicate 96 10000"
    "mean_value self = replicate 6 1600"
  shows "minima_ok self"
proof -
  have "min 16 (96 - c * 16) = 16" if "c < (6::nat)" for c
    using that by linarith
  then show ?thesis
    by (simp add: minima_ok_def assms channel_window_def window_ok_def slice_replicate in_s16_def)
qed

theorem FindMinimum_correct_witness:
  "\<exists>m self'. WebRtcVad_FindMinimum demo_minima 500 2 = (m, self') \<and> minima_ok self' \<and>
     sorted (snd (channel_window self' 2)) \<and> mean_value self' = (mean_value demo_minima)[2 := m]"
proof -
  obtain m self' where call: "WebRtcVad_FindMinimum demo_minima 500 2 = (m, self')" by fastforce
  have "minima_ok demo_minima" by (intro minima_ok_initial) (simp_all add: demo_minima_def)
  moreover have "(2::nat) < 6" "in_s16 500" by (simp_all add: in_s16_def)
  ultimately show ?thesis
    using FindMinimum_correct [OF _ _ _ call] call by blast
qed

text \<open>C40: ageing skips a value. When the value in slot \<open>i\<close> is too old, the larger values move
  down by one and the loop goes on with slot \<open>i + 1\<close>: the value that moved into slot \<open>i\<close> keeps its
  age in this frame, while the values before and after it get one frame older. It therefore stays
  longer than the 100 frames the description of the function names.\<close>

theorem FindMinimum_skips_ageing:
  assumes "length age = 16" "length vals = 16" "i < 15" "age ! i = 100"
    and "\<forall>j<16. j \<noteq> i \<longrightarrow> age ! j \<noteq> 100"
  shows "snd (age_values (age, vals)) = take i vals @ drop (Suc i) vals @ [10000] \<and>
    fst (age_values (age, vals)) ! i = age ! Suc i \<and>
    (\<forall>k<i. fst (age_values (age, vals)) ! k = s16 (age ! k + 1)) \<and>
    (\<forall>k. i < k \<and> k < 15 \<longrightarrow> fst (age_values (age, vals)) ! k = s16 (age ! Suc k + 1))"
  using age_values_one_expired [OF assms] by simp

theorem FindMinimum_skips_ageing_witness:
  "fst (age_values (100 # replicate 15 5, [1, 2, 3, 4, 5, 6, 7, 8, 9, 10, 11, 12, 13, 14, 15, 16])) ! 0 = 5"
proof -
  have "\<forall>j<16. j \<noteq> 0 \<longrightarrow> (100 # replicate 15 (5::int)) ! j \<noteq> 100"
    by (simp add: nth_Cons')
  with FindMinimum_skips_ageing [of "100 # replicate 15 5"
      "[1, 2, 3, 4, 5, 6, 7, 8, 9, 10, 11, 12, 13, 14, 15, 16]" 0]
  show ?thesis by simp
qed

text \<open>\<open>WebRtcVad_GaussianProbability\<close> computes \<open>1/s exp(-(x-m)^2 / 2 s^2)\<close> by its
  fixed-point formula without any wrap-around, for the standard deviations the detector keeps and
  features within 18000 (Q7) of the mean: \<open>2^-u\<close> is interpolated linearly between the powers of
  two, and the result is between 0 and 347 * 1024.\<close>

theorem gaussian_probability_correct:
  fixes input mean std :: int
  assumes "378 \<le> std" "std \<le> 32767" "in_s16 (8 * input)" "\<bar>8 * input - mean\<bar> \<le> 18000"
  shows "let inv = (131072 + std div 2) div std; d = 8 * input - mean;
             delta = ((inv div 4) * (inv div 4) div 4) * d div 1024;
             e = delta * d div 512; u = 5909 * e div 4096; q = (u + 1023) div 1024;
             p = inv * (if e < 22005 then (1024 + (1024 * q - u)) div 2 ^ nat q else 0)
         in WebRtcVad_GaussianProbability input mean std = (p, delta) \<and>
            0 \<le> 1024 * q - u \<and> 1024 * q - u < 1024 \<and> 0 \<le> p \<and> p \<le> 347 * 1024"
proof -
  note g = GaussianProbability_eq [OF assms]
  let ?inv = "(131072 + std div 2) div std" and ?d = "8 * input - mean"
  let ?delta = "((?inv div 4) * (?inv div 4) div 4) * ?d div 1024"
  let ?e = "?delta * ?d div 512"
  have r: "0 \<le> 1024 * ((u + 1023) div 1024) - u" "1024 * ((u + 1023) div 1024) - u < 1024" for u :: int
    by linarith+
  show ?thesis
    unfolding Let_def g(1) exp_value_eq [OF g(2), symmetric]
    using probability_range [OF g(2-4)] r by blast
qed

theorem gaussian_probability_correct_witness:
  "0 \<le> fst (WebRtcVad_GaussianProbability 400 3200 400)"
  using gaussian_probability_correct [of 400 400 3200] by (simp add: in_s16_def Let_def)

text \<open>\<open>WebRtcVad_Downsampling\<close> is streaming: a signal cut into frames of even length and
  downsampled frame by frame with the filter state carried along gives the samples and the state
  of downsampling it at once.\<close>

theorem vad_downsampling_streaming:
  assumes "2 \<le> length st" "\<forall>f\<in>set fs. even (length f)"
  shows "WebRtcVad_Downsampling (concat fs) st (length (concat fs)) =
         run_frames (\<lambda>xs st. WebRtcVad_Downsampling xs st (length xs)) fs st"
  using vad_down.run_concat [of st fs] assms
  by (simp add: vad_down_def [abs_def])

theorem vad_downsampling_streaming_witness:
  "WebRtcVad_Downsampling (concat [[1, 2], [3, 4]]) [0, 0] (length (concat [[1, 2], [3, 4 :: int]])) =
     run_frames (\<lambda>xs st. WebRtcVad_Downsampling xs st (length xs)) [[1, 2], [3, 4]] [0, 0]"
  by (rule vad_downsampling_streaming) simp_all

end
