(* ===== verification/Vad_Filterbank.thy ===== *)
theory Vad_Filterbank
  imports Vad_Sp
begin

section \<open>Voice activity detection: filter bank and features\<close>

text \<open>
  \<open>vad_filterbank.c\<close>: the high pass filter, the all pass and splitting filters, the logarithm
  of the energy and \<open>WebRtcVad_CalculateFeatures\<close>, which splits a frame at 8 kHz into six
  bands and returns a feature per band and an indicator of the total energy. Output arrays are
  returned lists; the scratch arrays of the caller are those lists, because every filter reads
  exactly the samples the previous one wrote. The lemmas show that the normalisation to 15 bits is
  right, give the logarithm its closed formula, and bound every feature and the energy indicator.
\<close>

unbundle bit_operations_syntax

subsection \<open>Filters\<close>

definition kLogConst :: int where "kLogConst = 24660"
definition kLogEnergyIntPart :: int where "kLogEnergyIntPart = 14336"
definition kHpZeroCoefs :: "int list" where "kHpZeroCoefs = [6631, -13262, 6631]"
definition kHpPoleCoefs :: "int list" where "kHpPoleCoefs = [16384, -7756, 5620]"
definition kAllPassCoefsQ15 :: "int list" where "kAllPassCoefsQ15 = [20972, 5571]"
definition kOffsetVector :: "int list" where "kOffsetVector = [368, 368, 272, 176, 176, 176]"

definition HighPassFilter_step :: "int \<Rightarrow> int list \<Rightarrow> int list" where
  "HighPassFilter_step x filter_state =
     (let tmp32 = kHpZeroCoefs ! 0 * x;
          tmp32 = add32 tmp32 (kHpZeroCoefs ! 1 * filter_state ! 0);
          tmp32 = add32 tmp32 (kHpZeroCoefs ! 2 * filter_state ! 1);
          filter_state = filter_state[1 := filter_state ! 0];
          filter_state = filter_state[0 := x];
          tmp32 = sub32 tmp32 (kHpPoleCoefs ! 1 * filter_state ! 2);
          tmp32 = sub32 tmp32 (kHpPoleCoefs ! 2 * filter_state ! 3);
          filter_state = filter_state[3 := filter_state ! 2];
          filter_state = filter_state[2 := s16 (shr tmp32 14)]
      in filter_state)"

fun HighPassFilter :: "int list \<Rightarrow> nat \<Rightarrow> int list \<Rightarrow> int list \<times> int list" where
  "HighPassFilter data_in 0 filter_state = ([], filter_state)"
| "HighPassFilter data_in (Suc data_length) filter_state =
     (let filter_state = HighPassFilter_step (data_in ! 0) filter_state;
          (ys, filter_state') = HighPassFilter (drop 1 data_in) data_length filter_state
      in (filter_state ! 2 # ys, filter_state'))"

fun AllPassFilter_loop :: "int list \<Rightarrow> nat \<Rightarrow> int \<Rightarrow> int \<Rightarrow> int list \<times> int" where
  "AllPassFilter_loop data_in 0 filter_coefficient state32 = ([], state32)"
| "AllPassFilter_loop data_in (Suc n) filter_coefficient state32 =
     (let x = data_in ! 0;
          tmp32 = add32 state32 (filter_coefficient * x);
          tmp16 = s16 (shr tmp32 16);
          state32 = sub32 (x * 2 ^ 14) (filter_coefficient * tmp16);
          state32 = mul32 state32 2;
          (ys, state32) = AllPassFilter_loop (drop 2 data_in) n filter_coefficient state32
      in (tmp16 # ys, state32))"

definition AllPassFilter :: "int list \<Rightarrow> nat \<Rightarrow> int \<Rightarrow> int \<Rightarrow> int list \<times> int" where
  "AllPassFilter data_in data_length filter_coefficient filter_state =
     (let state32 = filter_state * 2 ^ 16;
          (data_out, state32) = AllPassFilter_loop data_in data_length filter_coefficient state32
      in (data_out, s16 (shr state32 16)))"

text \<open>Returns the upper band, the lower band and the two states.\<close>

definition SplitFilter :: "int list \<Rightarrow> nat \<Rightarrow> int \<Rightarrow> int \<Rightarrow> int list \<times> int list \<times> int \<times> int" where
  "SplitFilter data_in data_length us ls =
     (let half_length = data_length div 2;
          (hp, us) = AllPassFilter data_in half_length (kAllPassCoefsQ15 ! 0) us;
          (lp, ls) = AllPassFilter (drop 1 data_in) half_length (kAllPassCoefsQ15 ! 1) ls
      in (map2 (\<lambda>h l. s16 (h - l)) hp lp, map2 (\<lambda>h l. s16 (l + h)) hp lp, us, ls))"

subsection \<open>Energy in decibel\<close>

text \<open>Returns \<open>total_energy\<close> and \<open>log_energy\<close>.\<close>

definition LogOfEnergy :: "int list \<Rightarrow> nat \<Rightarrow> int \<Rightarrow> int \<Rightarrow> int \<times> int" where
  "LogOfEnergy data_in data_length offset total_energy =
     (let (en, tot_rshifts) = WebRtcSpl_Energy data_in data_length;
          energy = u32 en
      in if energy \<noteq> 0 then
           (let normalizing_rshifts = 17 - WebRtcSpl_NormU32 energy;
                log2_energy = kLogEnergyIntPart;
                tot_rshifts = tot_rshifts + normalizing_rshifts;
                energy = (if normalizing_rshifts < 0 then u32 (energy * 2 ^ nat (- normalizing_rshifts))
                          else shr energy (nat normalizing_rshifts));
                log2_energy = s16 (log2_energy + s16 (shr (energy AND 0x3FFF) 4));
                log_energy = s16 (shr (kLogConst * log2_energy) 19 + shr (tot_rshifts * kLogConst) 9);
                log_energy = (if log_energy < 0 then 0 else log_energy);
                log_energy = s16 (log_energy + offset);
                total_energy =
                  (if total_energy \<le> kMinEnergy
                   then (if tot_rshifts \<ge> 0 then s16 (total_energy + (kMinEnergy + 1))
                         else s16 (total_energy + s16 (shr energy (nat (- tot_rshifts)))))
                   else total_energy)
            in (total_energy, log_energy))
         else (total_energy, offset))"

subsection \<open>The six features\<close>

text \<open>One splitting stage of the tree, with the states of its frequency band.\<close>

definition split_band :: "nat \<Rightarrow> int list \<Rightarrow> nat \<Rightarrow> VadInstT \<Rightarrow> int list \<times> int list \<times> VadInstT" where
  "split_band frequency_band in_ptr n self =
     (let (hp, lp, us, ls) =
            SplitFilter in_ptr n (upper_state self ! frequency_band) (lower_state self ! frequency_band)
      in (hp, lp, self\<lparr>upper_state := (upper_state self)[frequency_band := us],
                       lower_state := (lower_state self)[frequency_band := ls]\<rparr>))"

definition WebRtcVad_CalculateFeatures ::
    "VadInstT \<Rightarrow> int list \<Rightarrow> nat \<Rightarrow> int \<times> int list \<times> VadInstT" where
  "WebRtcVad_CalculateFeatures self data_in data_length =
     (let total_energy = 0;
          half_data_length = data_length div 2;
          length = half_data_length;
          (hp_120, lp_120, self) = split_band 0 data_in data_length self;
          (hp_60, lp_60, self) = split_band 1 hp_120 length self;
          length = length div 2;
          (total_energy, feature5) = LogOfEnergy hp_60 length (kOffsetVector ! 5) total_energy;
          (total_energy, feature4) = LogOfEnergy lp_60 length (kOffsetVector ! 4) total_energy;
          length = half_data_length;
          (hp_60, lp_60, self) = split_band 2 lp_120 length self;
          length = length div 2;
          (total_energy, feature3) = LogOfEnergy hp_60 length (kOffsetVector ! 3) total_energy;
          (hp_120, lp_120, self) = split_band 3 lp_60 length self;
          length = length div 2;
          (total_energy, feature2) = LogOfEnergy hp_120 length (kOffsetVector ! 2) total_energy;
          (hp_60, lp_60, self) = split_band 4 lp_120 length self;
          length = length div 2;
          (total_energy, feature1) = LogOfEnergy hp_60 length (kOffsetVector ! 1) total_energy;
          (hp_120, hp_state) = HighPassFilter lp_60 length (hp_filter_state self);
          self = self\<lparr>hp_filter_state := hp_state\<rparr>;
          (total_energy, feature0) = LogOfEnergy hp_120 length (kOffsetVector ! 0) total_energy
      in (total_energy, [feature0, feature1, feature2, feature3, feature4, feature5], self))"

subsection \<open>Normalisation\<close>

lemma smax_loop_range: "-1 \<le> m \<Longrightarrow> m \<le> 32767 \<Longrightarrow> -1 \<le> smax_loop m xs \<and> smax_loop m xs \<le> 32767"
  by (induction xs arbitrary: m) (auto simp: Let_def s16_range)

lemma GetScalingSquare_range:
  assumes "0 < n" "n < 128"
  shows "0 \<le> WebRtcSpl_GetScalingSquare xs k n" "WebRtcSpl_GetScalingSquare xs k n \<le> 7"
proof -
  define m where "m = smax_loop (-1) (take k xs)"
  have m: "-1 \<le> m" "m \<le> 32767" using smax_loop_range [of "-1"] by (auto simp: m_def)
  have "\<bar>m\<bar> * \<bar>m\<bar> \<le> 32767 * 32767" using m by (intro mult_mono) auto
  then have mm: "m * m \<le> 1073676289" "mul32 m m = m * m"
    by (auto simp: mul32_def abs_mult_self_eq intro!: s32_idI order_trans [OF _ zero_le_square])
  obtain j where j: "j < 7" "2 ^ j \<le> int n" "int n < 2 ^ Suc j"
    using pow2_bracket [of "int n" 7] assms by auto
  then have nb: "WebRtcSpl_GetSizeInBits (u32 (int n)) = int j + 1"
    using CountLeadingZeros32_eq [OF j(2,3)] assms
    by (simp add: WebRtcSpl_GetSizeInBits_def s16_idI u32_idI)
  have t: "m \<noteq> 0 \<Longrightarrow> 0 \<le> WebRtcSpl_NormW32 (m * m) \<and> WebRtcSpl_NormW32 (m * m) \<le> 30"
    using NormW32_pos(1,2) [of "m * m"] mm(1) by (auto simp: zero_less_mult_iff linorder_neq_iff)
  show "0 \<le> WebRtcSpl_GetScalingSquare xs k n" "WebRtcSpl_GetScalingSquare xs k n \<le> 7"
    using t j(1) by (auto simp: WebRtcSpl_GetScalingSquare_def Let_def nb mm(2) s16_idI simp flip: m_def)
qed

lemma normalize15:
  assumes "0 < E" "E < 4294967296"
  defines "k \<equiv> 17 - WebRtcSpl_NormU32 E"
  defines "m \<equiv> if k < 0 then u32 (E * 2 ^ nat (- k)) else shr E (nat k)"
  shows "16384 \<le> m" "m < 32768" "-14 \<le> k" "k \<le> 17"
    "m = (if k < 0 then E * 2 ^ nat (- k) else E div 2 ^ nat k)"
proof -
  obtain j where j: "j < 32" "2 ^ j \<le> E" "E < 2 ^ Suc j"
    using pow2_bracket [of E 32] assms by auto
  have k: "k = int j - 14"
    using CountLeadingZeros32_eq [OF j(2,3,1)] assms(1) j(1)
    by (simp add: k_def WebRtcSpl_NormU32_def s16_idI)
  then show "-14 \<le> k" "k \<le> 17" using j(1) by simp_all
  have "16384 \<le> m \<and> m < 32768 \<and> m = (if k < 0 then E * 2 ^ nat (- k) else E div 2 ^ nat k)"
  proof (cases "k < 0")
    case True
    then have nk: "j + nat (- k) = 14" using k by simp
    define P :: int where "P = 2 ^ nat (- k)"
    have "0 < P" "2 ^ j * P = 16384" by (simp_all add: P_def nk flip: power_add)
    moreover have "2 ^ j * P \<le> E * P" "E * P < 2 ^ Suc j * P"
      using j(2,3) \<open>0 < P\<close> by simp_all
    moreover have "2 ^ Suc j * P = 2 * (2 ^ j * P)" by simp
    ultimately have "16384 \<le> E * 2 ^ nat (- k)" "E * 2 ^ nat (- k) < 32768"
      unfolding P_def by linarith+
    then show ?thesis using True by (simp add: m_def u32_idI)
  next
    case False
    then have nk: "j = 14 + nat k" using k by simp
    have "2 ^ j div 2 ^ nat k \<le> E div 2 ^ nat k" using j by (intro zdiv_mono1) simp_all
    moreover have "E div 2 ^ nat k < 32768"
      using j(3) unfolding nk by (intro int_div_less) (simp_all add: power_add)
    ultimately show ?thesis using False by (simp add: m_def shr_def nk power_add)
  qed
  then show "16384 \<le> m" "m < 32768" "m = (if k < 0 then E * 2 ^ nat (- k) else E div 2 ^ nat k)"
    by blast+
qed

lemma and_3fff: "(x::int) AND 0x3FFF = x mod 16384"
  using take_bit_eq_mask [of 14 x] by (simp add: mask_eq_exp_minus_1 take_bit_eq_mod)

text \<open>The logarithm of the energy in closed form, for a non-zero energy word \<open>E\<close> with scale
  \<open>sc\<close>: \<open>m\<close> is the mantissa of 15 bits and \<open>k + sc\<close> the exponent.\<close>

lemma LogOfEnergy_formula:
  assumes "WebRtcSpl_Energy xs n = (en, sc)" "0 \<le> sc" "sc \<le> 7" "u32 en \<noteq> 0"
    and tot: "0 \<le> total_energy" "total_energy \<le> 16394" and off: "0 \<le> offset" "offset \<le> 368"
  defines "E \<equiv> u32 en"
  defines "k \<equiv> 17 - WebRtcSpl_NormU32 E"
  defines "m \<equiv> if k < 0 then E * 2 ^ nat (- k) else E div 2 ^ nat k"
  defines "l \<equiv> 24660 * (14336 + (m - 16384) div 16) div 2 ^ 19 + (sc + k) * 24660 div 512"
  shows "LogOfEnergy xs n offset total_energy =
    ((if total_energy \<le> 10 then (if 0 \<le> sc + k then total_energy + 11
       else total_energy + m div 2 ^ nat (- (sc + k))) else total_energy), offset + max 0 l)"
    "l \<le> 1877" "0 \<le> m div 2 ^ nat (- (sc + k))" "sc + k < 0 \<Longrightarrow> m div 2 ^ nat (- (sc + k)) < 16384"
proof -
  have E: "0 < E" "E < 4294967296"
    using assms(4) pos_mod_bound [of 4294967296 en] pos_mod_sign [of 4294967296 en]
    unfolding E_def u32_def by linarith+
  note nrm = normalize15 [OF E, folded k_def]
  have m: "16384 \<le> m" "m < 32768" "-14 \<le> k" "k \<le> 17"
    and m_eq: "(if k < 0 then u32 (E * 2 ^ nat (- k)) else shr E (nat k)) = m"
    using nrm by (simp_all add: m_def)
  have frac: "m AND 0x3FFF = m - 16384"
    using m by (simp add: and_3fff) (smt (verit) minus_mod_self2 mod_pos_pos_trivial)
  define f where "f = (m - 16384) div 16"
  have f: "0 \<le> f" "f \<le> 1023" using m unfolding f_def by linarith+
  define a where "a = 24660 * (14336 + f) div 2 ^ 19"
  define b where "b = (sc + k) * 24660 div 512"
  have a: "0 \<le> a" "a \<le> 722"
    using f zdiv_mono1 [of "24660 * (14336 + f)" "24660 * 15359" "2 ^ 19"] unfolding a_def
    by (simp_all add: pos_imp_zdiv_nonneg_iff)
  have "-345240 \<le> (sc + k) * 24660" "(sc + k) * 24660 \<le> 591840" using assms(2,3) m by simp_all
  from zdiv_mono1 [OF this(1), of 512] zdiv_mono1 [OF this(2), of 512]
  have b: "-675 \<le> b" "b \<le> 1155" by (simp_all add: b_def)
  have l: "l = a + b" by (simp add: l_def a_def b_def f_def)
  with a b show "l \<le> 1877" by simp
  have i1: "s16 (kLogEnergyIntPart + s16 (shr (m AND 0x3FFF) 4)) = 14336 + f"
    using f by (simp add: frac shr_def s16_idI kLogEnergyIntPart_def flip: f_def)
  have i2: "shr ((sc + k) * kLogConst) 9 = b" by (simp add: b_def shr_def kLogConst_def)
  have log: "s16 (shr (kLogConst * s16 (kLogEnergyIntPart + s16 (shr (m AND 0x3FFF) 4))) 19 +
      shr ((sc + k) * kLogConst) 9) = l"
    unfolding i1 i2 unfolding kLogConst_def shr_def a_def [symmetric] l
    using a b by (intro s16_idI) linarith+
  show nonneg: "0 \<le> m div 2 ^ nat (- (sc + k))" using m by (simp add: pos_imp_zdiv_nonneg_iff)
  show small: "m div 2 ^ nat (- (sc + k)) < 16384" if "sc + k < 0"
  proof -
    have "(2::int) ^ 1 \<le> 2 ^ nat (- (sc + k))" using that by (intro power_increasing) auto
    then show ?thesis
      using m by (intro int_div_less) auto
  qed
  show "LogOfEnergy xs n offset total_energy =
    ((if total_energy \<le> 10 then (if 0 \<le> sc + k then total_energy + 11
       else total_energy + m div 2 ^ nat (- (sc + k))) else total_energy), offset + max 0 l)"
  proof -
    have w1: "s16 ((if l < 0 then 0 else l) + offset) = offset + max 0 l"
      using off a b l by (subst s16_idI) auto
    have w2: "s16 (total_energy + (kMinEnergy + 1)) = total_energy + 11"
      using tot by (subst s16_idI) auto
    have w3: "s16 (total_energy + s16 (shr m (nat (- (sc + k))))) =
        total_energy + m div 2 ^ nat (- (sc + k))" if "\<not> 0 \<le> sc + k" "total_energy \<le> 10"
      using nonneg small that tot by (simp add: shr_def s16_idI)
    have "E \<noteq> 0" using E by simp
    then show ?thesis
      unfolding LogOfEnergy_def assms(1) Let_def prod.case E_def [symmetric] k_def [symmetric]
        m_eq log w1 w2
      using w3 by (simp only: if_not_P if_P simp_thms split: if_split) blast
  qed
qed

lemma LogOfEnergy_range:
  assumes "LogOfEnergy xs n offset t = (t', f)" "0 < n" "n < 128"
    "0 \<le> t" "t \<le> 16394" "0 \<le> offset" "offset \<le> 368"
  shows "t \<le> t'" "t' \<le> 16394" "offset \<le> f" "f \<le> offset + 1877"
proof -
  obtain en sc where en: "WebRtcSpl_Energy xs n = (en, sc)" by fastforce
  then have sc: "0 \<le> sc" "sc \<le> 7"
    using GetScalingSquare_range [OF assms(2,3)] by (auto simp: WebRtcSpl_Energy_def Let_def)
  have "t \<le> t' \<and> t' \<le> 16394 \<and> offset \<le> f \<and> f \<le> offset + 1877"
  proof (cases "u32 en = 0")
    case True
    then show ?thesis using assms en by (auto simp: LogOfEnergy_def)
  next
    case False
    obtain c g l where "LogOfEnergy xs n offset t =
        ((if t \<le> 10 then (if c then t + 11 else t + g) else t), offset + max 0 l)"
      and b: "l \<le> 1877" "0 \<le> g" "\<not> c \<Longrightarrow> g < 16384"
      using LogOfEnergy_formula [OF en sc False assms(4-7)] linorder_not_le by blast
    then have "t' = (if t \<le> 10 then (if c then t + 11 else t + g) else t)" "f = offset + max 0 l"
      using assms(1) by simp_all
    then show ?thesis using b assms(4,5) by (cases c) simp_all
  qed
  then show "t \<le> t'" "t' \<le> 16394" "offset \<le> f" "f \<le> offset + 1877" by blast+
qed

lemma split_band_state:
  "split_band b xs n self = (hp, lp, self') \<Longrightarrow>
   self' = self\<lparr>upper_state := upper_state self', lower_state := lower_state self'\<rparr> \<and>
   length (upper_state self') = length (upper_state self) \<and>
   length (lower_state self') = length (lower_state self)"
  by (auto simp: split_band_def Let_def split: prod.splits)

lemma length_HighPassFilter_step [simp]: "length (HighPassFilter_step x st) = length st"
  by (simp add: HighPassFilter_step_def Let_def)

lemma length_HighPassFilter:
  "length (fst (HighPassFilter xs n st)) = n" "length (snd (HighPassFilter xs n st)) = length st"
  by (induction n arbitrary: xs st) (simp_all add: split_def Let_def)

lemma calculate_features_bounds:
  assumes "n \<in> {80, 160, 240}"
    and "WebRtcVad_CalculateFeatures self xs n = (total_energy, features, self')"
  shows "length features = 6 \<and>
    (\<forall>c<6. kOffsetVector ! c \<le> features ! c \<and> features ! c \<le> kOffsetVector ! c + 1877) \<and>
    0 \<le> total_energy \<and> total_energy \<le> 16394 \<and>
    self' = self\<lparr>upper_state := upper_state self', lower_state := lower_state self',
                 hp_filter_state := hp_filter_state self'\<rparr> \<and>
    length (upper_state self') = length (upper_state self) \<and>
    length (lower_state self') = length (lower_state self) \<and>
    length (hp_filter_state self') = length (hp_filter_state self)"
proof -
  let ?h = "n div 2"
  let ?q = "?h div 2"
  obtain hpA lpA s1 where s1: "split_band 0 xs n self = (hpA, lpA, s1)" by (metis prod_cases3)
  obtain hpB lpB s2 where s2: "split_band 1 hpA ?h s1 = (hpB, lpB, s2)" by (metis prod_cases3)
  obtain t5 f5 where e5: "LogOfEnergy hpB ?q (kOffsetVector ! 5) 0 = (t5, f5)" by fastforce
  obtain t4 f4 where e4: "LogOfEnergy lpB ?q (kOffsetVector ! 4) t5 = (t4, f4)" by fastforce
  obtain hpC lpC s3 where s3: "split_band 2 lpA ?h s2 = (hpC, lpC, s3)" by (metis prod_cases3)
  obtain t3 f3 where e3: "LogOfEnergy hpC ?q (kOffsetVector ! 3) t4 = (t3, f3)" by fastforce
  obtain hpD lpD s4 where s4: "split_band 3 lpC ?q s3 = (hpD, lpD, s4)" by (metis prod_cases3)
  obtain t2 f2 where e2: "LogOfEnergy hpD (?q div 2) (kOffsetVector ! 2) t3 = (t2, f2)" by fastforce
  obtain hpE lpE s5 where s5: "split_band 4 lpD (?q div 2) s4 = (hpE, lpE, s5)" by (metis prod_cases3)
  obtain t1 f1 where e1: "LogOfEnergy hpE (?q div 2 div 2) (kOffsetVector ! 1) t2 = (t1, f1)" by fastforce
  obtain hpF hs where h: "HighPassFilter lpE (?q div 2 div 2) (hp_filter_state s5) = (hpF, hs)" by fastforce
  obtain t0 f0 where e0: "LogOfEnergy hpF (?q div 2 div 2) (kOffsetVector ! 0) t1 = (t0, f0)" by fastforce
  have call: "total_energy = t0" "features = [f0, f1, f2, f3, f4, f5]" "self' = s5\<lparr>hp_filter_state := hs\<rparr>"
    using assms(2) unfolding WebRtcVad_CalculateFeatures_def Let_def
    by (simp_all add: s1 s2 s3 s4 s5 e5 e4 e3 e2 e1 e0 h del: One_nat_def)
  have len: "0 < ?q" "?q < 128" "0 < ?q div 2" "?q div 2 < 128" "0 < ?q div 2 div 2" "?q div 2 div 2 < 128"
    using assms(1) by auto
  have off: "0 \<le> kOffsetVector ! c" "kOffsetVector ! c \<le> 368" if "c \<in> {0, 1, 2, 3, 4, 5}" for c
    using that by (auto simp: kOffsetVector_def)
  note r5 = LogOfEnergy_range [OF e5 len(1,2) _ _ off, simplified]
  note r4 = LogOfEnergy_range [OF e4 len(1,2) r5(1,2) off, simplified]
  note r3 = LogOfEnergy_range [OF e3 len(1,2) order_trans [OF r5(1) r4(1)] r4(2) off, simplified]
  have t3: "0 \<le> t3" using r5(1) r4(1) r3(1) by linarith
  note r2 = LogOfEnergy_range [OF e2 len(3,4) t3 r3(2) off, simplified]
  note r1 = LogOfEnergy_range [OF e1 len(5,6) order_trans [OF t3 r2(1)] r2(2) off, simplified]
  have t1: "0 \<le> t1" using t3 r2(1) r1(1) by linarith
  note r0 = LogOfEnergy_range [OF e0 len(5,6) t1 r1(2) off, simplified]
  have "\<forall>c<6. kOffsetVector ! c \<le> features ! c \<and> features ! c \<le> kOffsetVector ! c + 1877"
    using r0(3,4) r1(3,4) r2(3,4) r3(3,4) r4(3,4) r5(3,4)
    by (simp add: call(2) All_less_Suc eval_nat_numeral)
  moreover have "0 \<le> t0" using t1 r0(1) by linarith
  moreover have "self' = self\<lparr>upper_state := upper_state self', lower_state := lower_state self',
                 hp_filter_state := hp_filter_state self'\<rparr> \<and>
    length (upper_state self') = length (upper_state self) \<and>
    length (lower_state self') = length (lower_state self) \<and>
    length (hp_filter_state self') = length (hp_filter_state self)"
    using split_band_state [OF s1] split_band_state [OF s2] split_band_state [OF s3]
      split_band_state [OF s4] split_band_state [OF s5] length_HighPassFilter(2) [of lpE "?q div 2 div 2" "hp_filter_state s5", unfolded h]
    unfolding call(3) by (cases self; cases s1; cases s2; cases s3; cases s4; cases s5) simp
  ultimately show ?thesis using r0(2) call by simp
qed

subsection \<open>Properties\<close>

text \<open>the features of a frame of 80, 160 or 240 samples lie between the offset of their band
  and that offset plus 1877 (so within 0 to 2245), whatever the samples and the filter state; the
  energy indicator stays between 0 and 16394 and does not wrap around; only the filter states of
  the instance change, and they keep their sizes.\<close>

theorem features_bounded:
  assumes "n \<in> {80, 160, 240}"
    and "WebRtcVad_CalculateFeatures self xs n = (total_energy, features, self')"
  shows "length features = 6 \<and>
    (\<forall>c<6. kOffsetVector ! c \<le> features ! c \<and> features ! c \<le> kOffsetVector ! c + 1877) \<and>
    0 \<le> total_energy \<and> total_energy \<le> 16394 \<and>
    self' = self\<lparr>upper_state := upper_state self', lower_state := lower_state self',
                 hp_filter_state := hp_filter_state self'\<rparr> \<and>
    length (upper_state self') = length (upper_state self) \<and>
    length (lower_state self') = length (lower_state self) \<and>
    length (hp_filter_state self') = length (hp_filter_state self)"
  by (rule calculate_features_bounds [OF assms])

theorem features_bounded_witness:
  "\<exists>t fs s. WebRtcVad_CalculateFeatures demo_minima (replicate 80 123) 80 = (t, fs, s) \<and>
     length fs = 6 \<and> 0 \<le> t \<and> t \<le> 16394"
proof -
  obtain t fs s where call: "WebRtcVad_CalculateFeatures demo_minima (replicate 80 123) 80 = (t, fs, s)"
    by (metis prod_cases3)
  from features_bounded [OF _ call] call show ?thesis by blast
qed

end
