(* ===== verification/Vad_Core.thy ===== *)
theory Vad_Core
  imports Vad_Filterbank
begin

section \<open>Voice activity detection: the core and its interface\<close>

text \<open>
  \<open>vad_core.c\<close> and \<open>webrtc_vad.c\<close>: the Gaussian mixture decision with the update of the
  models (\<open>GmmProbability\<close>, cut into the per-channel likelihood ratio \<open>lrt_channel\<close>, the
  update of one Gaussian \<open>update_gaussian\<close>, the update of a channel \<open>update_channel\<close> and the
  transition hysteresis \<open>smooth_decision\<close>), initialisation, the aggressiveness modes, the entry
  points per sampling rate and the exported handle interface. The lemmas show the invariant of an
  initialised instance under every operation, the exact hysteresis of the decisions, which frames
  are accepted, and what the decision at 48 kHz depends on.
\<close>

unbundle bit_operations_syntax

subsection \<open>Constants\<close>

definition kSpectrumWeight :: "int list" where "kSpectrumWeight = [6, 8, 10, 12, 14, 16]"
definition kNoiseUpdateConst :: int where "kNoiseUpdateConst = 655"
definition kSpeechUpdateConst :: int where "kSpeechUpdateConst = 6554"
definition kBackEta :: int where "kBackEta = 154"
definition kMinimumDifference :: "int list" where "kMinimumDifference = [544, 544, 576, 576, 576, 576]"
definition kMaximumSpeech :: "int list" where "kMaximumSpeech = [11392, 11392, 11520, 11520, 11520, 11520]"
definition kMinimumMean :: "int list" where "kMinimumMean = [640, 768]"
definition kMaximumNoise :: "int list" where "kMaximumNoise = [9216, 9088, 8960, 8832, 8704, 8576]"
definition kNoiseDataWeights :: "int list" where
  "kNoiseDataWeights = [34, 62, 72, 66, 53, 25, 94, 66, 56, 62, 75, 103]"
definition kSpeechDataWeights :: "int list" where
  "kSpeechDataWeights = [48, 82, 45, 87, 50, 47, 80, 46, 83, 41, 78, 81]"
definition kNoiseDataMeans :: "int list" where
  "kNoiseDataMeans = [6738, 4892, 7065, 6715, 6771, 3369, 7646, 3863, 7820, 7266, 5020, 4362]"
definition kSpeechDataMeans :: "int list" where
  "kSpeechDataMeans = [8306, 10085, 10078, 11823, 11843, 6309, 9473, 9571, 10879, 7581, 8180, 7483]"
definition kNoiseDataStds :: "int list" where
  "kNoiseDataStds = [378, 1064, 493, 582, 688, 593, 474, 697, 475, 688, 421, 455]"
definition kSpeechDataStds :: "int list" where
  "kSpeechDataStds = [555, 505, 567, 524, 585, 1231, 509, 828, 492, 1540, 1079, 850]"
definition kMaxSpeechFrames :: int where "kMaxSpeechFrames = 6"
definition kMinStd :: int where "kMinStd = 384"
definition kDefaultMode :: int where "kDefaultMode = 0"
definition kInitCheck :: int where "kInitCheck = 42"

definition kOverHangMax1Q :: "int list" where "kOverHangMax1Q = [8, 4, 3]"
definition kOverHangMax2Q :: "int list" where "kOverHangMax2Q = [14, 7, 5]"
definition kLocalThresholdQ :: "int list" where "kLocalThresholdQ = [24, 21, 24]"
definition kGlobalThresholdQ :: "int list" where "kGlobalThresholdQ = [57, 48, 57]"
definition kOverHangMax1LBR :: "int list" where "kOverHangMax1LBR = [8, 4, 3]"
definition kOverHangMax2LBR :: "int list" where "kOverHangMax2LBR = [14, 7, 5]"
definition kLocalThresholdLBR :: "int list" where "kLocalThresholdLBR = [37, 32, 37]"
definition kGlobalThresholdLBR :: "int list" where "kGlobalThresholdLBR = [100, 80, 100]"
definition kOverHangMax1AGG :: "int list" where "kOverHangMax1AGG = [6, 3, 2]"
definition kOverHangMax2AGG :: "int list" where "kOverHangMax2AGG = [9, 5, 3]"
definition kLocalThresholdAGG :: "int list" where "kLocalThresholdAGG = [82, 78, 82]"
definition kGlobalThresholdAGG :: "int list" where "kGlobalThresholdAGG = [285, 260, 285]"
definition kOverHangMax1VAG :: "int list" where "kOverHangMax1VAG = [6, 3, 2]"
definition kOverHangMax2VAG :: "int list" where "kOverHangMax2VAG = [9, 5, 3]"
definition kLocalThresholdVAG :: "int list" where "kLocalThresholdVAG = [94, 94, 94]"
definition kGlobalThresholdVAG :: "int list" where "kGlobalThresholdVAG = [1100, 1050, 1100]"

subsection \<open>The likelihood ratio test\<close>

text \<open>\<open>WeightedAverage\<close> works on the cells \<open>channel\<close> and \<open>channel + 6\<close> of its arrays; it
  returns the average and the changed array.\<close>

definition WeightedAverage :: "int list \<Rightarrow> nat \<Rightarrow> int \<Rightarrow> int list \<Rightarrow> int \<times> int list" where
  "WeightedAverage data channel offset weights =
     fold (\<lambda>k (weighted_average, data).
        let g = channel + k * kNumChannels; data = data[g := s16 (data ! g + offset)]
        in (add32 weighted_average (data ! g * weights ! g), data)) [0, 1] (0, data)"

definition OverflowingMulS16ByS32ToS32 :: "int \<Rightarrow> int \<Rightarrow> int" where
  "OverflowingMulS16ByS32ToS32 a b = mul32 a b"

text \<open>The local variables of \<open>GmmProbability\<close> that live across the channel loop. \<open>deltaN\<close> and
  \<open>deltaS\<close> are not initialised by the code; the first loop writes every cell before the second
  reads it.\<close>

record gmm_locals =
  deltaN :: "int list"
  deltaS :: "int list"
  ngprvec :: "int list"
  sgprvec :: "int list"
  sum_log_likelihood_ratios :: int
  vadflag :: int

definition conditional_probability :: "int \<Rightarrow> int \<Rightarrow> int" where
  "conditional_probability prob0 h =
     (let tmp1_s32 = s32 (u32 ((u32 prob0 AND 0xFFFFF000) * 4))
      in s16 (WebRtcSpl_DivW32W16 tmp1_s32 h))"

definition lrt_channel :: "VadInstT \<Rightarrow> int list \<Rightarrow> int \<Rightarrow> nat \<Rightarrow> gmm_locals \<Rightarrow> gmm_locals" where
  "lrt_channel self features individualTest channel loc =
     (let g0 = channel; g1 = channel + kNumChannels; x = features ! channel;
          (pn0, dn0) = WebRtcVad_GaussianProbability x (noise_means self ! g0) (noise_stds self ! g0);
          noise_probability0 = mul32 (kNoiseDataWeights ! g0) pn0;
          h0_test = add32 0 noise_probability0;
          (ps0, ds0) = WebRtcVad_GaussianProbability x (speech_means self ! g0) (speech_stds self ! g0);
          speech_probability0 = mul32 (kSpeechDataWeights ! g0) ps0;
          h1_test = add32 0 speech_probability0;
          (pn1, dn1) = WebRtcVad_GaussianProbability x (noise_means self ! g1) (noise_stds self ! g1);
          noise_probability1 = mul32 (kNoiseDataWeights ! g1) pn1;
          h0_test = add32 h0_test noise_probability1;
          (ps1, ds1) = WebRtcVad_GaussianProbability x (speech_means self ! g1) (speech_stds self ! g1);
          speech_probability1 = mul32 (kSpeechDataWeights ! g1) ps1;
          h1_test = add32 h1_test speech_probability1;
          shifts_h0 = (if h0_test = 0 then 31 else WebRtcSpl_NormW32 h0_test);
          shifts_h1 = (if h1_test = 0 then 31 else WebRtcSpl_NormW32 h1_test);
          log_likelihood_ratio = s16 (shifts_h0 - shifts_h1);
          sum_llr = add32 (sum_log_likelihood_ratios loc) (log_likelihood_ratio * kSpectrumWeight ! channel);
          flag = (if log_likelihood_ratio * 4 > individualTest then 1 else vadflag loc);
          h0 = s16 (shr h0_test 12);
          ng = (if h0 > 0
                then let p = conditional_probability noise_probability0 h0
                     in (ngprvec loc)[g0 := p, g1 := s16 (16384 - p)]
                else (ngprvec loc)[g0 := 16384]);
          h1 = s16 (shr h1_test 12);
          sg = (if h1 > 0
                then let p = conditional_probability speech_probability0 h1
                     in (sgprvec loc)[g0 := p, g1 := s16 (16384 - p)]
                else sgprvec loc)
      in \<lparr>deltaN = (deltaN loc)[g0 := dn0, g1 := dn1], deltaS = (deltaS loc)[g0 := ds0, g1 := ds1],
          ngprvec = ng, sgprvec = sg, sum_log_likelihood_ratios = sum_llr, vadflag = flag\<rparr>)"

subsection \<open>The update of the models\<close>

text \<open>The new noise mean, and for speech frames the new speech mean and deviation, for noise
  frames the new noise deviation, of one Gaussian. \<open>noise_mean_q8\<close> is the \<open>tmp1_s16\<close> of the
  code, the weighted noise mean of the channel before the update.\<close>

definition update_noise_mean :: "gmm_locals \<Rightarrow> int \<Rightarrow> int \<Rightarrow> nat \<Rightarrow> nat \<Rightarrow> int \<Rightarrow> int" where
  "update_noise_mean loc feature_minimum noise_mean_q8 channel k nmk =
     (let gaussian = channel + k * kNumChannels;
          nmk2 = (if vadflag loc = 0
                  then let delt = s16 (shr (ngprvec loc ! gaussian * deltaN loc ! gaussian) 11)
                       in s16 (nmk + s16 (shr (delt * kNoiseUpdateConst) 22))
                  else nmk);
          ndelt = s16 (feature_minimum * 2 ^ 4 - noise_mean_q8);
          nmk3 = s16 (nmk2 + s16 (shr (ndelt * kBackEta) 9));
          tmp_s16 = s16 ((int k + 5) * 2 ^ 7);
          nmk3 = (if nmk3 < tmp_s16 then tmp_s16 else nmk3);
          tmp_s16 = s16 ((72 + int k - int channel) * 2 ^ 7)
      in if nmk3 > tmp_s16 then tmp_s16 else nmk3)"

definition update_speech_mean :: "gmm_locals \<Rightarrow> int \<Rightarrow> nat \<Rightarrow> nat \<Rightarrow> int \<Rightarrow> int" where
  "update_speech_mean loc maxspe channel k smk =
     (let gaussian = channel + k * kNumChannels;
          delt = s16 (shr (sgprvec loc ! gaussian * deltaS loc ! gaussian) 11);
          tmp_s16 = s16 (shr (delt * kSpeechUpdateConst) 21);
          smk2 = s16 (smk + shr (tmp_s16 + 1) 1);
          maxmu = s16 (maxspe + 640);
          smk2 = (if smk2 < kMinimumMean ! k then kMinimumMean ! k else smk2)
      in if smk2 > maxmu then maxmu else smk2)"

definition signed_div16 :: "int \<Rightarrow> int \<Rightarrow> int" where
  "signed_div16 num den =
     (if num > 0 then s16 (WebRtcSpl_DivW32W16 num den)
      else s16 (- s16 (WebRtcSpl_DivW32W16 (s32 (- num)) den)))"

definition update_speech_std :: "gmm_locals \<Rightarrow> int \<Rightarrow> nat \<Rightarrow> int \<Rightarrow> int \<Rightarrow> int" where
  "update_speech_std loc feature gaussian smk ssk =
     (let tmp_s16 = s16 (shr (smk + 4) 3);
          tmp_s16 = s16 (feature - tmp_s16);
          tmp1_s32 = shr (deltaS loc ! gaussian * tmp_s16) 3;
          tmp2_s32 = sub32 tmp1_s32 4096;
          tmp_s16 = shr (sgprvec loc ! gaussian) 2;
          tmp1_s32 = mul32 tmp_s16 tmp2_s32;
          tmp2_s32 = shr tmp1_s32 4;
          tmp_s16 = signed_div16 tmp2_s32 (s16 (ssk * 10));
          tmp_s16 = s16 (tmp_s16 + 128);
          ssk = s16 (ssk + shr tmp_s16 8)
      in if ssk < kMinStd then kMinStd else ssk)"

definition update_noise_std :: "gmm_locals \<Rightarrow> int \<Rightarrow> nat \<Rightarrow> int \<Rightarrow> int \<Rightarrow> int" where
  "update_noise_std loc feature gaussian nmk nsk =
     (let tmp_s16 = s16 (feature - shr nmk 3);
          tmp1_s32 = shr (deltaN loc ! gaussian * tmp_s16) 3;
          tmp1_s32 = sub32 tmp1_s32 4096;
          tmp_s16 = s16 (shr (ngprvec loc ! gaussian + 2) 2);
          tmp2_s32 = OverflowingMulS16ByS32ToS32 tmp_s16 tmp1_s32;
          tmp1_s32 = shr tmp2_s32 14;
          tmp_s16 = signed_div16 tmp1_s32 nsk;
          tmp_s16 = s16 (tmp_s16 + 32);
          nsk = s16 (nsk + shr tmp_s16 6)
      in if nsk < kMinStd then kMinStd else nsk)"

definition update_gaussian ::
    "gmm_locals \<Rightarrow> int list \<Rightarrow> int \<Rightarrow> int \<Rightarrow> int \<Rightarrow> nat \<Rightarrow> nat \<Rightarrow> VadInstT \<Rightarrow> VadInstT" where
  "update_gaussian loc features feature_minimum noise_mean_q8 maxspe channel k self =
     (let gaussian = channel + k * kNumChannels;
          nmk = noise_means self ! gaussian; smk = speech_means self ! gaussian;
          nsk = noise_stds self ! gaussian; ssk = speech_stds self ! gaussian;
          nmk3 = update_noise_mean loc feature_minimum noise_mean_q8 channel k nmk;
          self = self\<lparr>noise_means := (noise_means self)[gaussian := nmk3]\<rparr>
      in if vadflag loc \<noteq> 0 then
           self\<lparr>speech_means := (speech_means self)[gaussian := update_speech_mean loc maxspe channel k smk],
                speech_stds := (speech_stds self)[gaussian :=
                  update_speech_std loc (features ! channel) gaussian smk ssk]\<rparr>
         else
           self\<lparr>noise_stds := (noise_stds self)[gaussian :=
                  update_noise_std loc (features ! channel) gaussian nmk nsk]\<rparr>)"

text \<open>Both Gaussians of an array are lowered by the same amount when their mean is too high.\<close>

definition limit_means :: "int list \<Rightarrow> nat \<Rightarrow> int \<Rightarrow> int \<Rightarrow> int list" where
  "limit_means means channel global_mean maximum =
     (let tmp2_s16 = s16 (shr global_mean 7)
      in if tmp2_s16 > maximum
         then let tmp2_s16 = s16 (tmp2_s16 - maximum)
              in fold (\<lambda>k m. m[channel + k * kNumChannels := s16 (m ! (channel + k * kNumChannels) - tmp2_s16)])
                   [0, 1] means
         else means)"

definition separate_models :: "nat \<Rightarrow> VadInstT \<Rightarrow> VadInstT" where
  "separate_models channel self =
     (let (noise_global_mean, nm) = WeightedAverage (noise_means self) channel 0 kNoiseDataWeights;
          (speech_global_mean, sm) = WeightedAverage (speech_means self) channel 0 kSpeechDataWeights;
          diff = s16 (s16 (shr speech_global_mean 9) - s16 (shr noise_global_mean 9));
          (noise_global_mean, nm, speech_global_mean, sm) =
            (if diff < kMinimumDifference ! channel
             then let tmp_s16 = s16 (kMinimumDifference ! channel - diff);
                      tmp1_s16 = s16 (shr (13 * tmp_s16) 2);
                      tmp2_s16 = s16 (shr (3 * tmp_s16) 2);
                      (sg, sm) = WeightedAverage sm channel tmp1_s16 kSpeechDataWeights;
                      (ng, nm) = WeightedAverage nm channel (s16 (- tmp2_s16)) kNoiseDataWeights
                  in (ng, nm, sg, sm)
             else (noise_global_mean, nm, speech_global_mean, sm));
          sm = limit_means sm channel speech_global_mean (kMaximumSpeech ! channel);
          nm = limit_means nm channel noise_global_mean (kMaximumNoise ! channel)
      in self\<lparr>noise_means := nm, speech_means := sm\<rparr>)"

definition update_channel ::
    "gmm_locals \<Rightarrow> int list \<Rightarrow> nat \<Rightarrow> VadInstT \<times> int \<Rightarrow> VadInstT \<times> int" where
  "update_channel loc features channel = (\<lambda>(self, maxspe).
     (let (feature_minimum, self) = WebRtcVad_FindMinimum self (features ! channel) channel;
          (noise_global_mean, nm) = WeightedAverage (noise_means self) channel 0 kNoiseDataWeights;
          self = self\<lparr>noise_means := nm\<rparr>;
          tmp1_s16 = s16 (shr noise_global_mean 6);
          self = update_gaussian loc features feature_minimum tmp1_s16 maxspe channel 0 self;
          self = update_gaussian loc features feature_minimum tmp1_s16 maxspe channel 1 self;
          self = separate_models channel self
      in (self, kMaximumSpeech ! channel)))"

subsection \<open>The decision\<close>

definition threshold_index :: "nat \<Rightarrow> nat" where
  "threshold_index frame_length = (if frame_length = 80 then 0 else if frame_length = 160 then 1 else 2)"

text \<open>The transition hysteresis at the end of \<open>GmmProbability\<close>, on the overhang counter and the
  number of consecutive speech frames; returns the decision.\<close>

definition smooth_decision :: "int \<Rightarrow> int \<Rightarrow> int \<Rightarrow> int \<times> int \<Rightarrow> int \<times> int \<times> int" where
  "smooth_decision overhead1 overhead2 flag = (\<lambda>(hang, speech).
     if flag = 0 then
       (if hang > 0 then (s16 (2 + hang), s16 (hang - 1), 0) else (flag, hang, 0))
     else
       (let speech = s16 (speech + 1)
        in if speech > kMaxSpeechFrames then (flag, overhead2, kMaxSpeechFrames)
           else (flag, overhead1, speech)))"

text \<open>The decision before the hysteresis, with the update of the models: the part of
  \<open>GmmProbability\<close> guarded by the power of the frame.\<close>

definition gmm_decide :: "VadInstT \<Rightarrow> int list \<Rightarrow> int \<Rightarrow> nat \<Rightarrow> int \<times> VadInstT" where
  "gmm_decide self features total_power frame_length =
     (let i = threshold_index frame_length;
          individualTest = individual self ! i;
          totalTest = total self ! i
      in if total_power > kMinEnergy then
           (let loc = \<lparr>deltaN = replicate kTableSize 0, deltaS = replicate kTableSize 0,
                       ngprvec = replicate kTableSize 0, sgprvec = replicate kTableSize 0,
                       sum_log_likelihood_ratios = 0, vadflag = 0\<rparr>;
                loc = fold (lrt_channel self features individualTest) [0..<kNumChannels] loc;
                flag = vadflag loc OR (if sum_log_likelihood_ratios loc \<ge> totalTest then 1 else 0);
                loc = loc\<lparr>vadflag := flag\<rparr>;
                (self, maxspe) = fold (update_channel loc features) [0..<kNumChannels] (self, 12800)
            in (flag, self\<lparr>frame_counter := s32 (frame_counter self + 1)\<rparr>))
         else (0, self))"

definition GmmProbability :: "VadInstT \<Rightarrow> int list \<Rightarrow> int \<Rightarrow> nat \<Rightarrow> int \<times> VadInstT" where
  "GmmProbability self features total_power frame_length =
     (let i = threshold_index frame_length;
          overhead1 = over_hang_max_1 self ! i;
          overhead2 = over_hang_max_2 self ! i;
          (flag, self) = gmm_decide self features total_power frame_length;
          (flag, hang, speech) =
            smooth_decision overhead1 overhead2 flag (over_hang self, num_of_speech self)
      in (flag, self\<lparr>over_hang := hang, num_of_speech := speech\<rparr>))"

subsection \<open>Initialisation and modes\<close>

definition WebRtcVad_set_mode_core :: "VadInstT \<Rightarrow> int \<Rightarrow> int \<times> VadInstT" where
  "WebRtcVad_set_mode_core self mode =
     (if mode = 0 then
        (0, self\<lparr>over_hang_max_1 := kOverHangMax1Q, over_hang_max_2 := kOverHangMax2Q,
                 individual := kLocalThresholdQ, total := kGlobalThresholdQ\<rparr>)
      else if mode = 1 then
        (0, self\<lparr>over_hang_max_1 := kOverHangMax1LBR, over_hang_max_2 := kOverHangMax2LBR,
                 individual := kLocalThresholdLBR, total := kGlobalThresholdLBR\<rparr>)
      else if mode = 2 then
        (0, self\<lparr>over_hang_max_1 := kOverHangMax1AGG, over_hang_max_2 := kOverHangMax2AGG,
                 individual := kLocalThresholdAGG, total := kGlobalThresholdAGG\<rparr>)
      else if mode = 3 then
        (0, self\<lparr>over_hang_max_1 := kOverHangMax1VAG, over_hang_max_2 := kOverHangMax2VAG,
                 individual := kLocalThresholdVAG, total := kGlobalThresholdVAG\<rparr>)
      else (-1, self))"

text \<open>Handles that may be \<open>NULL\<close> are options.\<close>

definition WebRtcVad_InitCore :: "VadInstT option \<Rightarrow> int \<times> VadInstT option" where
  "WebRtcVad_InitCore handle = (case handle of None \<Rightarrow> (-1, None) | Some self \<Rightarrow>
     (let self = self\<lparr>vad := 1, frame_counter := 0, over_hang := 0, num_of_speech := 0,
            downsampling_filter_states := replicate 4 0,
            state_48_to_8 := WebRtcSpl_ResetResample48khzTo8khz,
            noise_means := kNoiseDataMeans, speech_means := kSpeechDataMeans,
            noise_stds := kNoiseDataStds, speech_stds := kSpeechDataStds,
            low_value_vector := replicate (16 * kNumChannels) 10000,
            index_vector := replicate (16 * kNumChannels) 0,
            upper_state := replicate 5 0, lower_state := replicate 5 0,
            hp_filter_state := replicate 4 0,
            mean_value := replicate kNumChannels 1600\<rparr>;
          (r, self) = WebRtcVad_set_mode_core self kDefaultMode
      in if r \<noteq> 0 then (-1, Some self) else (0, Some (self\<lparr>init_flag := kInitCheck\<rparr>))))"

subsection \<open>Entry points per sampling rate\<close>

definition WebRtcVad_CalcVad8khz :: "VadInstT \<Rightarrow> int list \<Rightarrow> nat \<Rightarrow> int \<times> VadInstT" where
  "WebRtcVad_CalcVad8khz inst speech_frame frame_length =
     (let (total_power, feature_vector, inst) = WebRtcVad_CalculateFeatures inst speech_frame frame_length;
          (decision, inst) = GmmProbability inst feature_vector total_power frame_length;
          inst = inst\<lparr>vad := decision\<rparr>
      in (vad inst, inst))"

definition WebRtcVad_CalcVad16khz :: "VadInstT \<Rightarrow> int list \<Rightarrow> nat \<Rightarrow> int \<times> VadInstT" where
  "WebRtcVad_CalcVad16khz inst speech_frame frame_length =
     (let (speechNB, st) = WebRtcVad_Downsampling speech_frame (downsampling_filter_states inst) frame_length;
          inst = inst\<lparr>downsampling_filter_states := st\<rparr>;
          len = frame_length div 2
      in WebRtcVad_CalcVad8khz inst speechNB len)"

definition WebRtcVad_CalcVad32khz :: "VadInstT \<Rightarrow> int list \<Rightarrow> nat \<Rightarrow> int \<times> VadInstT" where
  "WebRtcVad_CalcVad32khz inst speech_frame frame_length =
     (let (speechWB, st) = WebRtcVad_Downsampling speech_frame
            (drop 2 (downsampling_filter_states inst)) frame_length;
          inst = inst\<lparr>downsampling_filter_states := write_at 2 st (downsampling_filter_states inst)\<rparr>;
          len = frame_length div 2;
          (speechNB, st) = WebRtcVad_Downsampling speechWB (downsampling_filter_states inst) len;
          inst = inst\<lparr>downsampling_filter_states := st\<rparr>;
          len = len div 2
      in WebRtcVad_CalcVad8khz inst speechNB len)"

text \<open>The loop of \<open>WebRtcVad_CalcVad48khz\<close>: it passes the same \<open>speech_frame\<close> in every
  iteration.\<close>

fun resample_10ms_frames ::
    "nat \<Rightarrow> int list \<Rightarrow> State48khzTo8khz \<Rightarrow> int list \<Rightarrow> int list \<times> State48khzTo8khz" where
  "resample_10ms_frames 0 speech_frame st tmp_mem = ([], st)"
| "resample_10ms_frames (Suc n) speech_frame st tmp_mem =
     (let (out, st, tmp_mem) = WebRtcSpl_Resample48khzTo8khz (take 480 speech_frame) st tmp_mem;
          (outs, st) = resample_10ms_frames n speech_frame st tmp_mem
      in (out @ outs, st))"

definition WebRtcVad_CalcVad48khz :: "VadInstT \<Rightarrow> int list \<Rightarrow> nat \<Rightarrow> int \<times> VadInstT" where
  "WebRtcVad_CalcVad48khz inst speech_frame frame_length =
     (let tmp_mem = replicate (480 + 256) 0;
          num_10ms_frames = frame_length div 480;
          (speech_nb, st) = resample_10ms_frames num_10ms_frames speech_frame (state_48_to_8 inst) tmp_mem;
          inst = inst\<lparr>state_48_to_8 := st\<rparr>
      in WebRtcVad_CalcVad8khz inst speech_nb (frame_length div 6))"

subsection \<open>The exported interface (\<open>webrtc_vad.c\<close>)\<close>

definition kValidRates :: "int list" where "kValidRates = [8000, 16000, 32000, 48000]"
definition kMaxFrameLengthMs :: int where "kMaxFrameLengthMs = 30"

text \<open>\<open>mem\<close> is the memory that \<open>malloc\<close> returned.\<close>

definition WebRtcVad_Create :: "VadInstT \<Rightarrow> VadInstT" where
  "WebRtcVad_Create mem = mem\<lparr>init_flag := 0\<rparr>"

definition WebRtcVad_Free :: "VadInstT option \<Rightarrow> VadInstT option" where
  "WebRtcVad_Free handle = None"

definition WebRtcVad_Init :: "VadInstT option \<Rightarrow> int \<times> VadInstT option" where
  "WebRtcVad_Init handle = WebRtcVad_InitCore handle"

definition WebRtcVad_set_mode :: "VadInstT option \<Rightarrow> int \<Rightarrow> int \<times> VadInstT option" where
  "WebRtcVad_set_mode handle mode = (case handle of None \<Rightarrow> (-1, None) | Some self \<Rightarrow>
     if init_flag self \<noteq> kInitCheck then (-1, Some self)
     else let (r, self) = WebRtcVad_set_mode_core self mode in (r, Some self))"

fun valid_lengths_loop :: "nat \<Rightarrow> int \<Rightarrow> int \<Rightarrow> nat \<Rightarrow> int" where
  "valid_lengths_loop 0 rate valid_length_ms frame_length = -1"
| "valid_lengths_loop (Suc n) rate valid_length_ms frame_length =
     (if valid_length_ms \<le> kMaxFrameLengthMs then
        (if frame_length = nat (cdiv rate 1000 * valid_length_ms) then 0
         else valid_lengths_loop n rate (valid_length_ms + 10) frame_length)
      else -1)"

fun valid_rates_loop :: "int list \<Rightarrow> int \<Rightarrow> nat \<Rightarrow> int" where
  "valid_rates_loop [] rate frame_length = -1"
| "valid_rates_loop (r # rs) rate frame_length =
     (if r = rate then valid_lengths_loop 4 r 10 frame_length else valid_rates_loop rs rate frame_length)"

definition WebRtcVad_ValidRateAndFrameLength :: "int \<Rightarrow> nat \<Rightarrow> int" where
  "WebRtcVad_ValidRateAndFrameLength rate frame_length = valid_rates_loop kValidRates rate frame_length"

definition WebRtcVad_Process ::
    "VadInstT option \<Rightarrow> int \<Rightarrow> int list option \<Rightarrow> nat \<Rightarrow> int \<times> VadInstT option" where
  "WebRtcVad_Process handle fs audio_frame frame_length = (case handle of None \<Rightarrow> (-1, None) | Some self \<Rightarrow>
     if init_flag self \<noteq> kInitCheck then (-1, Some self)
     else (case audio_frame of None \<Rightarrow> (-1, Some self) | Some frame \<Rightarrow>
       if WebRtcVad_ValidRateAndFrameLength fs frame_length \<noteq> 0 then (-1, Some self)
       else let (v, self) =
              (if fs = 48000 then WebRtcVad_CalcVad48khz self frame frame_length
               else if fs = 32000 then WebRtcVad_CalcVad32khz self frame frame_length
               else if fs = 16000 then WebRtcVad_CalcVad16khz self frame frame_length
               else if fs = 8000 then WebRtcVad_CalcVad8khz self frame frame_length
               else (-1, self))
            in ((if v > 0 then 1 else v), Some self)))"

subsection \<open>Transition hysteresis\<close>

text \<open>After a history of raw decisions, the silent tail, the speech run before it, the counters of
  the instance and whether the last frame counts as active.\<close>

definition silent_tail :: "int list \<Rightarrow> nat" where
  "silent_tail flags = length (takeWhile (\<lambda>f. f = 0) (rev flags))"

definition speech_run :: "int list \<Rightarrow> nat" where
  "speech_run flags = length (takeWhile (\<lambda>f. f \<noteq> 0) (dropWhile (\<lambda>f. f = 0) (rev flags)))"

definition hang_of :: "int \<Rightarrow> int \<Rightarrow> int list \<Rightarrow> int" where
  "hang_of overhead1 overhead2 flags =
     (if speech_run flags = 0 then 0
      else if speech_run flags > 6 then overhead2 else overhead1)"

definition counters_after :: "int \<Rightarrow> int \<Rightarrow> int list \<Rightarrow> int \<times> int" where
  "counters_after overhead1 overhead2 flags =
     (max 0 (hang_of overhead1 overhead2 flags - int (silent_tail flags)),
      if silent_tail flags = 0 then min 6 (int (speech_run flags)) else 0)"

definition active_frame :: "int \<Rightarrow> int \<Rightarrow> int list \<Rightarrow> bool" where
  "active_frame overhead1 overhead2 flags \<longleftrightarrow>
     speech_run flags > 0 \<and> int (silent_tail flags) \<le> hang_of overhead1 overhead2 flags"

lemma silent_tail_snoc:
  "silent_tail (h @ [f]) = (if f = 0 then Suc (silent_tail h) else 0)"
  by (simp add: silent_tail_def)

lemma speech_run_snoc:
  "speech_run (h @ [f]) =
     (if f = 0 then speech_run h else if silent_tail h = 0 then Suc (speech_run h) else 1)"
proof (cases "rev h")
  case (Cons g gs)
  then show ?thesis by (auto simp: speech_run_def silent_tail_def)
qed (simp add: speech_run_def silent_tail_def)

lemma smooth_decision_step:
  assumes "0 \<le> o1" "o1 \<le> 14" "0 \<le> o2" "o2 \<le> 14"
  shows "snd (smooth_decision o1 o2 f (counters_after o1 o2 h)) = counters_after o1 o2 (h @ [f])"
    "fst (smooth_decision o1 o2 f (counters_after o1 o2 h)) \<noteq> 0 \<longleftrightarrow> active_frame o1 o2 (h @ [f])"
proof -
  define q r where "q = silent_tail h" and "r = speech_run h"
  define H where "H = hang_of o1 o2 h"
  have H: "0 \<le> H" "H \<le> 14" using assms by (auto simp: H_def hang_of_def)
  have w: "s16 (min 6 (int r) + 1) = min 6 (int r) + 1" "s16 1 = 1"
    "s16 (max 0 (H - int q) - 1) = max 0 (H - int q) - 1" "s16 (2 + max 0 (H - int q)) = 2 + max 0 (H - int q)"
    using H by (auto intro!: s16_idI)
  have c: "counters_after o1 o2 h = (max 0 (H - int q), if q = 0 then min 6 (int r) else 0)"
    by (simp add: counters_after_def H_def q_def r_def)
  show "snd (smooth_decision o1 o2 f (counters_after o1 o2 h)) = counters_after o1 o2 (h @ [f])"
  proof (cases "f = 0")
    case True
    then have "hang_of o1 o2 (h @ [f]) = H" by (simp add: hang_of_def speech_run_snoc H_def)
    with True show ?thesis
      using w by (auto simp: c smooth_decision_def counters_after_def [of _ _ "h @ [f]" for f] silent_tail_snoc
          simp flip: q_def)
  next
    case False
    then show ?thesis
      using w assms by (auto simp: c smooth_decision_def counters_after_def [of _ _ "h @ [f]" for f]
          silent_tail_snoc speech_run_snoc hang_of_def kMaxSpeechFrames_def Let_def simp flip: q_def r_def)
  qed
  show "fst (smooth_decision o1 o2 f (counters_after o1 o2 h)) \<noteq> 0 \<longleftrightarrow> active_frame o1 o2 (h @ [f])"
  proof (cases "f = 0")
    case True
    then have "hang_of o1 o2 (h @ [f]) = H" by (simp add: hang_of_def speech_run_snoc H_def)
    moreover have "r = 0 \<Longrightarrow> H = 0" by (simp add: H_def r_def hang_of_def)
    ultimately show ?thesis
      using True w H by (cases "r = 0") (auto simp: c smooth_decision_def active_frame_def
          silent_tail_snoc speech_run_snoc simp flip: q_def r_def)
  next
    case False
    then show ?thesis
      using assms by (auto simp: c smooth_decision_def active_frame_def silent_tail_snoc
          speech_run_snoc hang_of_def Let_def simp flip: q_def r_def)
  qed
qed

subsection \<open>What an update leaves alone\<close>

definition same_but_models :: "VadInstT \<Rightarrow> VadInstT \<Rightarrow> bool" where
  "same_but_models s s' \<longleftrightarrow>
     s' = s\<lparr>noise_means := noise_means s', speech_means := speech_means s',
            noise_stds := noise_stds s', speech_stds := speech_stds s',
            frame_counter := frame_counter s', index_vector := index_vector s',
            low_value_vector := low_value_vector s', mean_value := mean_value s'\<rparr>"

lemma same_but_models_refl: "same_but_models s s"
  by (simp add: same_but_models_def)

lemma same_but_models_trans [trans]:
  "same_but_models a b \<Longrightarrow> same_but_models b c \<Longrightarrow> same_but_models a c"
  unfolding same_but_models_def by (cases a; cases b; cases c) simp

lemma same_but_models_fields:
  assumes "same_but_models s s'"
  shows "vad s' = vad s" "downsampling_filter_states s' = downsampling_filter_states s"
    "state_48_to_8 s' = state_48_to_8 s" "over_hang s' = over_hang s"
    "num_of_speech s' = num_of_speech s" "upper_state s' = upper_state s"
    "lower_state s' = lower_state s" "hp_filter_state s' = hp_filter_state s"
    "over_hang_max_1 s' = over_hang_max_1 s" "over_hang_max_2 s' = over_hang_max_2 s"
    "individual s' = individual s" "total s' = total s" "init_flag s' = init_flag s"
  using assms unfolding same_but_models_def by (cases s; cases s'; simp)+

lemma update_gaussian_same: "same_but_models s (update_gaussian loc fs fm nq ms c k s)"
  by (cases s) (simp add: same_but_models_def update_gaussian_def Let_def)

lemma separate_models_same: "same_but_models s (separate_models c s)"
  by (cases s) (simp add: same_but_models_def separate_models_def Let_def split_def)

lemma FindMinimum_same: "same_but_models s (snd (WebRtcVad_FindMinimum s x c))"
  by (cases s) (simp add: same_but_models_def WebRtcVad_FindMinimum_def Let_def split_def)

lemma update_channel_same: "same_but_models s (fst (update_channel loc fs c (s, m)))"
proof -
  define s1 where "s1 = snd (WebRtcVad_FindMinimum s (fs ! c) c)"
  define fm where "fm = fst (WebRtcVad_FindMinimum s (fs ! c) c)"
  define s2 where "s2 = s1\<lparr>noise_means := snd (WeightedAverage (noise_means s1) c 0 kNoiseDataWeights)\<rparr>"
  define nq where "nq = s16 (shr (fst (WeightedAverage (noise_means s1) c 0 kNoiseDataWeights)) 6)"
  define s3 where "s3 = update_gaussian loc fs fm nq m c 0 s2"
  define s4 where "s4 = update_gaussian loc fs fm nq m c 1 s3"
  have "same_but_models s s1" unfolding s1_def by (rule FindMinimum_same)
  also have "same_but_models s1 s2" by (cases s1) (simp add: same_but_models_def s2_def)
  also have "same_but_models s2 s3" unfolding s3_def by (rule update_gaussian_same)
  also have "same_but_models s3 s4" unfolding s4_def by (rule update_gaussian_same)
  also have "same_but_models s4 (separate_models c s4)" by (rule separate_models_same)
  also have "separate_models c s4 = fst (update_channel loc fs c (s, m))"
    by (simp add: update_channel_def s1_def s2_def s3_def s4_def fm_def nq_def Let_def split_def)
  finally show ?thesis .
qed

lemma fold_update_channel_same: "same_but_models (fst sm) (fst (fold (update_channel loc fs) cs sm))"
proof (induction cs arbitrary: sm)
  case Nil
  then show ?case by (simp add: same_but_models_refl)
next
  case (Cons c cs)
  have "same_but_models (fst sm) (fst (update_channel loc fs c sm))"
    using update_channel_same [of "fst sm" loc fs c "snd sm"] by simp
  also have "same_but_models (fst (update_channel loc fs c sm)) (fst (fold (update_channel loc fs) (c # cs) sm))"
    using Cons [of "update_channel loc fs c sm"] by simp
  finally show ?case .
qed

lemma gmm_decide_same: "same_but_models s (snd (gmm_decide s fs p n))"
proof (cases "p > kMinEnergy")
  case True
  have "same_but_models a (a\<lparr>frame_counter := x\<rparr>)" for a x
    by (cases a) (simp add: same_but_models_def)
  then have "same_but_models s ((fst (fold (update_channel loc fs) cs (s, 12800)))\<lparr>frame_counter := x\<rparr>)"
    for loc cs x
    using fold_update_channel_same [of "(s, 12800)" loc fs cs] by (auto intro: same_but_models_trans)
  then show ?thesis
    using True by (simp add: gmm_decide_def Let_def split_def)
qed (simp add: gmm_decide_def same_but_models_refl)

subsection \<open>The invariant of an initialised instance\<close>

definition mode_tables_ok :: "VadInstT \<Rightarrow> bool" where
  "mode_tables_ok s \<longleftrightarrow> (\<exists>m\<in>{0, 1, 2, 3}. snd (WebRtcVad_set_mode_core s m) = s)"

definition means_ok :: "int list \<Rightarrow> bool" where
  "means_ok d \<longleftrightarrow> length d = 12 \<and> (\<forall>x\<in>set d. in_s16 x)"

definition stds_ok :: "int list \<Rightarrow> bool" where
  "stds_ok d \<longleftrightarrow> length d = 12 \<and> (\<forall>x\<in>set d. 378 \<le> x \<and> x \<le> 32767)"

definition models_ok :: "VadInstT \<Rightarrow> bool" where
  "models_ok s \<longleftrightarrow> means_ok (noise_means s) \<and> means_ok (speech_means s) \<and>
     stds_ok (noise_stds s) \<and> stds_ok (speech_stds s)"

definition vad_inv :: "VadInstT \<Rightarrow> bool" where
  "vad_inv s \<longleftrightarrow> init_flag s = kInitCheck \<and> models_ok s \<and> minima_ok s \<and> mode_tables_ok s \<and>
     length (downsampling_filter_states s) = 4 \<and> state48to8_ok (state_48_to_8 s) \<and>
     length (upper_state s) = 5 \<and> length (lower_state s) = 5 \<and> length (hp_filter_state s) = 4 \<and>
     0 \<le> over_hang s \<and> over_hang s \<le> 14 \<and> 0 \<le> num_of_speech s \<and> num_of_speech s \<le> 6"

lemma mode_tables_values:
  "mode_tables_ok s \<longleftrightarrow>
     (over_hang_max_1 s, over_hang_max_2 s, individual s, total s) \<in>
       {(kOverHangMax1Q, kOverHangMax2Q, kLocalThresholdQ, kGlobalThresholdQ),
        (kOverHangMax1LBR, kOverHangMax2LBR, kLocalThresholdLBR, kGlobalThresholdLBR),
        (kOverHangMax1AGG, kOverHangMax2AGG, kLocalThresholdAGG, kGlobalThresholdAGG),
        (kOverHangMax1VAG, kOverHangMax2VAG, kLocalThresholdVAG, kGlobalThresholdVAG)}"
  by (cases s) (auto simp: mode_tables_ok_def WebRtcVad_set_mode_core_def)

lemma overhead_range:
  assumes "mode_tables_ok s"
  shows "0 \<le> over_hang_max_1 s ! threshold_index n" "over_hang_max_1 s ! threshold_index n \<le> 14"
    "0 \<le> over_hang_max_2 s ! threshold_index n" "over_hang_max_2 s ! threshold_index n \<le> 14"
  using assms unfolding mode_tables_values
  by (auto simp: threshold_index_def kOverHangMax1Q_def kOverHangMax2Q_def kOverHangMax1LBR_def
      kOverHangMax2LBR_def kOverHangMax1AGG_def kOverHangMax2AGG_def kOverHangMax1VAG_def
      kOverHangMax2VAG_def)

lemma update_std_range:
  "378 \<le> update_speech_std loc x g smk ssk" "update_speech_std loc x g smk ssk \<le> 32767"
  "378 \<le> update_noise_std loc x g nmk nsk" "update_noise_std loc x g nmk nsk \<le> 32767"
  by (simp_all add: update_speech_std_def update_noise_std_def Let_def kMinStd_def s16_range)

lemma update_mean_range:
  "k < 2 \<Longrightarrow> c < 6 \<Longrightarrow> in_s16 (update_noise_mean loc fm nq c k nmk)"
  "k < 2 \<Longrightarrow> in_s16 (update_speech_mean loc m c k smk)"
proof -
  assume "k < 2"
  then have "kMinimumMean ! k \<in> {640, 768}" by (auto simp: kMinimumMean_def less_2_cases_iff)
  then show "in_s16 (update_speech_mean loc m c k smk)"
    by (auto simp: update_speech_mean_def Let_def in_s16_def s16_range)
qed (simp add: update_noise_mean_def Let_def)

lemma means_ok_update: "means_ok d \<Longrightarrow> in_s16 x \<Longrightarrow> means_ok (d[i := x])"
  by (auto simp: means_ok_def dest!: set_update_subset_insert [THEN subsetD])

lemma stds_ok_update: "stds_ok d \<Longrightarrow> 378 \<le> x \<Longrightarrow> x \<le> 32767 \<Longrightarrow> stds_ok (d[i := x])"
  by (auto simp: stds_ok_def dest!: set_update_subset_insert [THEN subsetD])

lemma models_ok_update_gaussian:
  assumes "models_ok s" "c < 6" "k < 2"
  shows "models_ok (update_gaussian loc fs fm nq m c k s)"
  using assms update_mean_range [OF assms(3)] update_std_range
  by (simp add: models_ok_def update_gaussian_def Let_def means_ok_update stds_ok_update)

lemma means_ok_WeightedAverage: "means_ok d \<Longrightarrow> means_ok (snd (WeightedAverage d c off w))"
  by (simp add: WeightedAverage_def Let_def means_ok_update)

lemma means_ok_limit: "means_ok d \<Longrightarrow> means_ok (limit_means d c g m)"
  by (simp add: limit_means_def Let_def means_ok_update)

lemma models_ok_separate:
  assumes "models_ok s"
  shows "models_ok (separate_models c s)"
proof -
  have nm: "means_ok (noise_means (separate_models c s))"
    using assms by (simp add: separate_models_def Let_def split_def models_ok_def
        means_ok_WeightedAverage means_ok_limit)
  have sm: "means_ok (speech_means (separate_models c s))"
    using assms by (simp add: separate_models_def Let_def split_def models_ok_def
        means_ok_WeightedAverage means_ok_limit)
  show ?thesis
    using assms nm sm by (simp add: models_ok_def) (simp add: separate_models_def Let_def split_def)
qed

lemma minima_ok_cong:
  assumes "index_vector s = index_vector s'" "low_value_vector s = low_value_vector s'"
    "mean_value s = mean_value s'"
  shows "minima_ok s \<longleftrightarrow> minima_ok s'"
  by (simp add: minima_ok_def channel_window_def assms)

definition learning_ok :: "VadInstT \<Rightarrow> bool" where
  "learning_ok s \<longleftrightarrow> models_ok s \<and> minima_ok s"

lemma update_gaussian_minima: "minima_ok (update_gaussian loc fs fm nq m c k s) \<longleftrightarrow> minima_ok s"
  by (intro minima_ok_cong) (simp_all add: update_gaussian_def Let_def)

lemma separate_models_minima: "minima_ok (separate_models c s) \<longleftrightarrow> minima_ok s"
  by (intro minima_ok_cong) (simp_all add: separate_models_def Let_def split_def)

lemma FindMinimum_models: "models_ok (snd (WebRtcVad_FindMinimum s x c)) \<longleftrightarrow> models_ok s"
  by (simp add: models_ok_def WebRtcVad_FindMinimum_def Let_def split_def)

lemma update_channel_learning:
  assumes "learning_ok s" "c < 6" "in_s16 (fs ! c)"
  shows "learning_ok (fst (update_channel loc fs c (s, m)))"
proof -
  define s1 where "s1 = snd (WebRtcVad_FindMinimum s (fs ! c) c)"
  define fm where "fm = fst (WebRtcVad_FindMinimum s (fs ! c) c)"
  define s2 where "s2 = s1\<lparr>noise_means := snd (WeightedAverage (noise_means s1) c 0 kNoiseDataWeights)\<rparr>"
  define nq where "nq = s16 (shr (fst (WeightedAverage (noise_means s1) c 0 kNoiseDataWeights)) 6)"
  define s3 where "s3 = update_gaussian loc fs fm nq m c 0 s2"
  define s4 where "s4 = update_gaussian loc fs fm nq m c 1 s3"
  have "WebRtcVad_FindMinimum s (fs ! c) c = (fm, s1)" by (simp add: fm_def s1_def)
  from FindMinimum_eq(7) [OF _ assms(2,3) this] assms(1) have "learning_ok s1"
    by (auto simp: learning_ok_def s1_def FindMinimum_models)
  then have "models_ok s2" "minima_ok s2"
    by (auto simp: learning_ok_def models_ok_def s2_def means_ok_WeightedAverage
        intro: minima_ok_cong [THEN iffD1, of s1])
  then have "learning_ok (separate_models c s4)"
    using assms(2) by (simp add: learning_ok_def s3_def s4_def separate_models_minima
        update_gaussian_minima models_ok_separate models_ok_update_gaussian)
  then show ?thesis
    by (simp add: update_channel_def s1_def s2_def s3_def s4_def fm_def nq_def Let_def split_def)
qed

lemma fold_update_channel_learning:
  assumes "learning_ok (fst sm)" "\<forall>c\<in>set cs. c < 6 \<and> in_s16 (fs ! c)"
  shows "learning_ok (fst (fold (update_channel loc fs) cs sm))"
  using assms
proof (induction cs arbitrary: sm)
  case (Cons c cs)
  then have "learning_ok (fst (update_channel loc fs c sm))"
    using update_channel_learning [of "fst sm" c fs loc "snd sm"] by simp
  with Cons show ?case by simp
qed simp

lemma lrt_channel_flag: "vadflag loc \<in> {0, 1} \<Longrightarrow> vadflag (lrt_channel s fs i c loc) \<in> {0, 1}"
  by (simp add: lrt_channel_def Let_def split_def)

lemma fold_lrt_flag: "vadflag loc \<in> {0, 1} \<Longrightarrow> vadflag (fold (lrt_channel s fs i) cs loc) \<in> {0, 1}"
proof (induction cs arbitrary: loc)
  case (Cons c cs)
  from Cons.IH [OF lrt_channel_flag [OF Cons.prems]] show ?case by simp
qed simp

lemma gmm_decide_flag: "fst (gmm_decide s fs p n) \<in> {0, 1}"
proof -
  let ?l0 = "\<lparr>deltaN = replicate kTableSize 0, deltaS = replicate kTableSize 0,
     ngprvec = replicate kTableSize 0, sgprvec = replicate kTableSize 0,
     sum_log_likelihood_ratios = 0, vadflag = 0\<rparr>"
  let ?loc = "fold (lrt_channel s fs (individual s ! threshold_index n)) [0..<kNumChannels] ?l0"
  have "vadflag ?loc \<in> {0, 1}" by (rule fold_lrt_flag) simp
  then have "vadflag ?loc OR (if b then 1 else 0) \<in> {0, 1}" for b by auto
  then show ?thesis
    by (simp add: gmm_decide_def Let_def split_def)
qed

lemma gmm_decide_learning:
  assumes "learning_ok s" "\<forall>c<6. in_s16 (fs ! c)"
  shows "learning_ok (snd (gmm_decide s fs p n))"
proof (cases "p > kMinEnergy")
  case True
  have "learning_ok a \<Longrightarrow> learning_ok (a\<lparr>frame_counter := x\<rparr>)" for a x
    by (auto simp: learning_ok_def models_ok_def intro: minima_ok_cong [THEN iffD1, of a])
  then have "learning_ok ((fst (fold (update_channel loc fs) [0..<6] (s, 12800)))\<lparr>frame_counter := x\<rparr>)"
    for loc x
    using fold_update_channel_learning [of "(s, 12800)" "[0..<6]" fs loc] assms by simp
  then show ?thesis
    using True by (simp add: gmm_decide_def Let_def split_def)
qed (use assms in \<open>simp add: gmm_decide_def\<close>)

lemma smooth_decision_range:
  assumes "flag \<in> {0, 1}" "0 \<le> o1" "o1 \<le> 14" "0 \<le> o2" "o2 \<le> 14" "0 \<le> hang" "hang \<le> 14"
    "0 \<le> speech" "speech \<le> 6" "smooth_decision o1 o2 flag (hang, speech) = (d, hang', speech')"
  shows "0 \<le> d" "d \<le> 16" "0 \<le> hang'" "hang' \<le> 14" "0 \<le> speech'" "speech' \<le> 6"
  using assms by (auto simp: smooth_decision_def Let_def kMaxSpeechFrames_def s16_idI split: if_splits)

lemma vad_inv_core:
  "vad_inv s \<longleftrightarrow> init_flag s = kInitCheck \<and> learning_ok s \<and> mode_tables_ok s \<and>
     length (downsampling_filter_states s) = 4 \<and> state48to8_ok (state_48_to_8 s) \<and>
     length (upper_state s) = 5 \<and> length (lower_state s) = 5 \<and> length (hp_filter_state s) = 4 \<and>
     0 \<le> over_hang s \<and> over_hang s \<le> 14 \<and> 0 \<le> num_of_speech s \<and> num_of_speech s \<le> 6"
  by (auto simp: vad_inv_def learning_ok_def)

lemma GmmProbability_inv:
  assumes inv: "vad_inv s" and feats: "\<forall>c<6. in_s16 (fs ! c)"
    and call: "GmmProbability s fs p n = (d, s')"
  shows "vad_inv s'" "0 \<le> d" "d \<le> 16"
proof -
  define f s1 where "f = fst (gmm_decide s fs p n)" and "s1 = snd (gmm_decide s fs p n)"
  have same: "same_but_models s s1" unfolding s1_def by (rule gmm_decide_same)
  note fields = same_but_models_fields [OF same]
  obtain hang speech where sm: "smooth_decision (over_hang_max_1 s ! threshold_index n)
      (over_hang_max_2 s ! threshold_index n) f (over_hang s1, num_of_speech s1) = (d, hang, speech)"
    and s': "s' = s1\<lparr>over_hang := hang, num_of_speech := speech\<rparr>"
    using call unfolding GmmProbability_def Let_def split_def f_def [symmetric] s1_def [symmetric]
    by (metis prod.inject prod.collapse)
  have "mode_tables_ok s" using inv by (simp add: vad_inv_def)
  note oh = overhead_range [OF this, of n]
  have f: "f \<in> {0, 1}" unfolding f_def by (rule gmm_decide_flag)
  have cnt: "0 \<le> over_hang s1" "over_hang s1 \<le> 14" "0 \<le> num_of_speech s1" "num_of_speech s1 \<le> 6"
    using inv fields by (simp_all add: vad_inv_def)
  note r = smooth_decision_range [OF f oh cnt sm]
  from r show "0 \<le> d" "d \<le> 16" by simp_all
  have "learning_ok s1"
    unfolding s1_def using inv feats by (intro gmm_decide_learning) (simp_all add: vad_inv_core)
  then have "learning_ok s'"
    unfolding s' by (auto simp: learning_ok_def models_ok_def intro: minima_ok_cong [THEN iffD1, of s1])
  then show "vad_inv s'"
    using inv fields r by (simp add: vad_inv_core s' mode_tables_values)
qed

lemma CalculateFeatures_inv:
  assumes "vad_inv s" "n \<in> {80, 160, 240}" "WebRtcVad_CalculateFeatures s xs n = (t, fs, s')"
  shows "vad_inv s'" "\<forall>c<6. in_s16 (fs ! c)"
proof -
  note fb = calculate_features_bounds [OF assms(2,3)]
  have eq: "s' = s\<lparr>upper_state := upper_state s', lower_state := lower_state s',
      hp_filter_state := hp_filter_state s'\<rparr>" using fb by blast
  have learn: "learning_ok s'" using assms(1)
    by (subst eq) (auto simp: vad_inv_core learning_ok_def models_ok_def intro: minima_ok_cong [THEN iffD1, of s])
  have "init_flag s' = init_flag s" "mode_tables_ok s' = mode_tables_ok s"
    "downsampling_filter_states s' = downsampling_filter_states s" "state_48_to_8 s' = state_48_to_8 s"
    "over_hang s' = over_hang s" "num_of_speech s' = num_of_speech s"
    by (subst eq, simp add: mode_tables_values)+
  then show "vad_inv s'" using assms(1) learn fb by (simp add: vad_inv_core)
  have "0 \<le> kOffsetVector ! c" "kOffsetVector ! c \<le> 368" if "c < 6" for c
    using that by (auto simp: kOffsetVector_def less_Suc_eq numeral_eq_Suc)
  then show "\<forall>c<6. in_s16 (fs ! c)" using fb by (force simp: in_s16_def)
qed

lemma CalcVad8khz_inv:
  assumes "vad_inv s" "n \<in> {80, 160, 240}" "WebRtcVad_CalcVad8khz s xs n = (d, s')"
  shows "vad_inv s'" "0 \<le> d" "d \<le> 16"
proof -
  obtain t fs s1 where f: "WebRtcVad_CalculateFeatures s xs n = (t, fs, s1)" by (metis prod_cases3)
  obtain e s2 where g: "GmmProbability s1 fs t n = (e, s2)" by fastforce
  note inv = GmmProbability_inv [OF CalculateFeatures_inv [OF assms(1,2) f] g]
  have "d = e" "s' = s2\<lparr>vad := e\<rparr>"
    using assms(3) by (auto simp: WebRtcVad_CalcVad8khz_def f g)
  then show "vad_inv s'" "0 \<le> d" "d \<le> 16"
    using inv by (auto simp: vad_inv_core learning_ok_def models_ok_def mode_tables_values
        intro: minima_ok_cong [THEN iffD1, of s2])
qed

lemma vad_inv_downsampling_state:
  "vad_inv s \<Longrightarrow> length st = 4 \<Longrightarrow> vad_inv (s\<lparr>downsampling_filter_states := st\<rparr>)"
  by (auto simp: vad_inv_core learning_ok_def models_ok_def mode_tables_values
      intro: minima_ok_cong [THEN iffD1, of s])

lemma vad_inv_resampler_state:
  "vad_inv s \<Longrightarrow> state48to8_ok st \<Longrightarrow> vad_inv (s\<lparr>state_48_to_8 := st\<rparr>)"
  by (auto simp: vad_inv_core learning_ok_def models_ok_def mode_tables_values
      intro: minima_ok_cong [THEN iffD1, of s])

lemma length_Downsampling:
  "length (snd (WebRtcVad_Downsampling xs st n)) = length st"
  "length (fst (WebRtcVad_Downsampling xs st n)) = n div 2"
  by (simp_all add: WebRtcVad_Downsampling_def Let_def split_def length_downsampling_loop)

lemma CalcVad16khz_inv:
  assumes "vad_inv s" "n \<in> {160, 320, 480}" "WebRtcVad_CalcVad16khz s xs n = (d, s')"
  shows "vad_inv s'" "0 \<le> d" "d \<le> 16"
proof -
  let ?ds = "WebRtcVad_Downsampling xs (downsampling_filter_states s) n"
  let ?s = "s\<lparr>downsampling_filter_states := snd ?ds\<rparr>"
  have "length (downsampling_filter_states s) = 4" using assms(1) by (simp add: vad_inv_def)
  then have inv: "vad_inv ?s" using assms(1) by (simp add: vad_inv_downsampling_state length_Downsampling)
  have n: "n div 2 \<in> {80, 160, 240}" using assms(2) by auto
  have call: "WebRtcVad_CalcVad8khz ?s (fst ?ds) (n div 2) = (d, s')"
    using assms(3) by (simp add: WebRtcVad_CalcVad16khz_def Let_def split_def)
  from CalcVad8khz_inv [OF inv n call] show "vad_inv s'" "0 \<le> d" "d \<le> 16" .
qed

lemma CalcVad32khz_inv:
  assumes "vad_inv s" "n \<in> {320, 640, 960}" "WebRtcVad_CalcVad32khz s xs n = (d, s')"
  shows "vad_inv s'" "0 \<le> d" "d \<le> 16"
proof -
  let ?d1 = "WebRtcVad_Downsampling xs (drop 2 (downsampling_filter_states s)) n"
  let ?w = "write_at 2 (snd ?d1) (downsampling_filter_states s)"
  let ?d2 = "WebRtcVad_Downsampling (fst ?d1) ?w (n div 2)"
  let ?s = "s\<lparr>downsampling_filter_states := snd ?d2\<rparr>"
  have "length (downsampling_filter_states s) = 4" using assms(1) by (simp add: vad_inv_def)
  then have inv: "vad_inv ?s"
    using assms(1) by (simp add: vad_inv_downsampling_state length_Downsampling write_at_def)
  have n: "n div 2 div 2 \<in> {80, 160, 240}" using assms(2) by auto
  have call: "WebRtcVad_CalcVad8khz ?s (fst ?d2) (n div 2 div 2) = (d, s')"
    using assms(3) by (simp add: WebRtcVad_CalcVad32khz_def Let_def split_def)
  from CalcVad8khz_inv [OF inv n call] show "vad_inv s'" "0 \<le> d" "d \<le> 16" .
qed

lemma resample_10ms_frames_ok:
  assumes "state48to8_ok st" "480 \<le> length xs" "496 \<le> length mem"
  shows "state48to8_ok (snd (resample_10ms_frames k xs st mem))"
  using assms
proof (induction k arbitrary: st mem)
  case (Suc k)
  have len: "length (take 480 xs) = 480" using Suc.prems by simp
  obtain mem' where "WebRtcSpl_Resample48khzTo8khz (take 480 xs) st mem =
      (fst (pipeline48to8 (take 480 xs) st), snd (pipeline48to8 (take 480 xs) st), mem')"
    "length mem' = length mem"
    using Resample48khzTo8khz_eq [OF Suc.prems(1) len Suc.prems(3)] by blast
  moreover have "state48to8_ok (snd (pipeline48to8 (take 480 xs) st))"
    by (rule pipeline48to8_props(3) [OF Suc.prems(1) len])
  ultimately show ?case
    using Suc.IH [of "snd (pipeline48to8 (take 480 xs) st)" mem'] Suc.prems by (simp add: split_def Let_def)
qed simp

lemma CalcVad48khz_inv:
  assumes "vad_inv s" "n \<in> {480, 960, 1440}" "length xs = n" "WebRtcVad_CalcVad48khz s xs n = (d, s')"
  shows "vad_inv s'" "0 \<le> d" "d \<le> 16"
proof -
  let ?r = "resample_10ms_frames (n div 480) xs (state_48_to_8 s) (replicate (480 + 256) 0)"
  let ?s = "s\<lparr>state_48_to_8 := snd ?r\<rparr>"
  have "state48to8_ok (snd ?r)"
    using assms(1-3) by (intro resample_10ms_frames_ok) (auto simp: vad_inv_def)
  then have inv: "vad_inv ?s" using assms(1) by (rule vad_inv_resampler_state [rotated])
  have n: "n div 6 \<in> {80, 160, 240}" using assms(2) by auto
  have call: "WebRtcVad_CalcVad8khz ?s (fst ?r) (n div 6) = (d, s')"
    using assms(4) by (simp add: WebRtcVad_CalcVad48khz_def Let_def split_def)
  from CalcVad8khz_inv [OF inv n call] show "vad_inv s'" "0 \<le> d" "d \<le> 16" .
qed

subsection \<open>Accepted frames, modes and initialisation\<close>

definition valid_frame :: "int \<Rightarrow> nat \<Rightarrow> bool" where
  "valid_frame rate n \<longleftrightarrow> rate \<in> {8000, 16000, 32000, 48000} \<and>
     (\<exists>k\<in>{1, 2, 3}. int n = k * (rate div 100))"

lemma ValidRateAndFrameLength_eq:
  "WebRtcVad_ValidRateAndFrameLength rate n = (if valid_frame rate n then 0 else -1)"
proof -
  have "int n = int m \<longleftrightarrow> n = m" for m by simp
  then have lit: "int n = numeral w \<longleftrightarrow> n = numeral w" for w by (metis of_nat_numeral)
  have "cdiv 8000 1000 = 8" "cdiv 16000 1000 = 16" "cdiv 32000 1000 = 32" "cdiv 48000 1000 = 48"
    by (simp_all add: cdiv_def)
  then show ?thesis
    by (auto simp: WebRtcVad_ValidRateAndFrameLength_def kValidRates_def valid_frame_def
        kMaxFrameLengthMs_def eval_nat_numeral lit)
qed

lemma set_mode_core_eq:
  "fst (WebRtcVad_set_mode_core s m) = (if m \<in> {0, 1, 2, 3} then 0 else -1)"
  "m \<notin> {0, 1, 2, 3} \<Longrightarrow> snd (WebRtcVad_set_mode_core s m) = s"
  by (auto simp: WebRtcVad_set_mode_core_def)

lemma set_mode_core_inv:
  assumes "vad_inv s"
  shows "vad_inv (snd (WebRtcVad_set_mode_core s m))"
proof (cases "m \<in> {0, 1, 2, 3}")
  case True
  with assms show ?thesis
    by (auto simp: vad_inv_core learning_ok_def models_ok_def mode_tables_values
        WebRtcVad_set_mode_core_def intro: minima_ok_cong [THEN iffD1, of s])
qed (use assms in \<open>simp add: set_mode_core_eq(2)\<close>)

lemma Init_inv:
  assumes "WebRtcVad_Init (Some s) = (r, h)"
  shows "r = 0 \<and> (\<exists>s'. h = Some s' \<and> vad_inv s' \<and> over_hang s' = 0 \<and> num_of_speech s' = 0)"
proof -
  have tabs: "means_ok kNoiseDataMeans" "means_ok kSpeechDataMeans" "stds_ok kNoiseDataStds" "stds_ok kSpeechDataStds"
    by (simp_all add: means_ok_def stds_ok_def in_s16_def kNoiseDataMeans_def kSpeechDataMeans_def
        kNoiseDataStds_def kSpeechDataStds_def)
  have st: "state48to8_ok WebRtcSpl_ResetResample48khzTo8khz"
    by (simp add: state48to8_ok_def WebRtcSpl_ResetResample48khzTo8khz_def)
  show ?thesis
    using assms tabs st
    by (auto simp: WebRtcVad_Init_def WebRtcVad_InitCore_def WebRtcVad_set_mode_core_def kDefaultMode_def
        Let_def vad_inv_core learning_ok_def models_ok_def mode_tables_values) (rule minima_ok_initial; simp)
qed

lemma Process_valid:
  assumes inv: "vad_inv s" and len: "length xs = n" and v: "valid_frame fs n"
    and call: "WebRtcVad_Process (Some s) fs (Some xs) n = (r, h)"
  shows "r \<in> {0, 1} \<and> (\<exists>s'. h = Some s' \<and> vad_inv s')"
proof -
  let ?c = "if fs = 48000 then WebRtcVad_CalcVad48khz s xs n
            else if fs = 32000 then WebRtcVad_CalcVad32khz s xs n
            else if fs = 16000 then WebRtcVad_CalcVad16khz s xs n
            else WebRtcVad_CalcVad8khz s xs n"
  obtain d s' where c: "?c = (d, s')" by (metis surj_pair)
  have n: "fs = 48000 \<Longrightarrow> n \<in> {480, 960, 1440}" "fs = 32000 \<Longrightarrow> n \<in> {320, 640, 960}"
    "fs = 16000 \<Longrightarrow> n \<in> {160, 320, 480}" "fs = 8000 \<Longrightarrow> n \<in> {80, 160, 240}"
    using v by (auto simp: valid_frame_def)
  have fs: "fs \<in> {8000, 16000, 32000, 48000}" using v by (simp add: valid_frame_def)
  have d: "vad_inv s'" "0 \<le> d"
    using fs c n CalcVad48khz_inv [OF inv _ len] CalcVad32khz_inv [OF inv] CalcVad16khz_inv [OF inv]
      CalcVad8khz_inv [OF inv]
    by (auto split: if_splits)
  have "init_flag s = kInitCheck" using inv by (simp add: vad_inv_def)
  then have "r = (if d > 0 then 1 else d)" "h = Some s'"
    using call c fs v by (auto simp: WebRtcVad_Process_def ValidRateAndFrameLength_eq split: if_splits)
  then show ?thesis using d by auto
qed

subsection \<open>The life of a handle\<close>

text \<open>The states a handle can be in: created on arbitrary memory, then any calls of the interface
  in any order, with audio frames of the announced length.\<close>

inductive vad_reachable :: "VadInstT \<Rightarrow> bool" where
  create: "vad_reachable (WebRtcVad_Create mem)"
| init: "vad_reachable s \<Longrightarrow> WebRtcVad_Init (Some s) = (r, Some s') \<Longrightarrow> vad_reachable s'"
| mode: "vad_reachable s \<Longrightarrow> WebRtcVad_set_mode (Some s) m = (r, Some s') \<Longrightarrow> vad_reachable s'"
| process: "vad_reachable s \<Longrightarrow> length xs = n \<Longrightarrow>
    WebRtcVad_Process (Some s) fs (Some xs) n = (r, Some s') \<Longrightarrow> vad_reachable s'"

lemma Process_uninitialised:
  "init_flag s \<noteq> kInitCheck \<Longrightarrow> WebRtcVad_Process (Some s) fs fr n = (-1, Some s)"
  by (simp add: WebRtcVad_Process_def)

lemma Process_invalid:
  "\<not> valid_frame fs n \<Longrightarrow> WebRtcVad_Process (Some s) fs (Some xs) n = (-1, Some s)"
  by (simp add: WebRtcVad_Process_def ValidRateAndFrameLength_eq)

lemma vad_reachable_inv: "vad_reachable s \<Longrightarrow> init_flag s \<noteq> kInitCheck \<or> vad_inv s"
proof (induction rule: vad_reachable.induct)
  case (create mem)
  then show ?case by (simp add: WebRtcVad_Create_def kInitCheck_def)
next
  case (init s r s')
  from Init_inv [OF init(2)] show ?case by auto
next
  case (mode s m r s')
  then show ?case
    using set_mode_core_inv [of s m]
    by (auto simp: WebRtcVad_set_mode_def split_def Let_def split: if_splits)
next
  case (process s xs n fs r s')
  show ?case
  proof (cases "init_flag s = kInitCheck \<and> valid_frame fs n")
    case True
    then have "vad_inv s" using process.IH by simp
    from Process_valid [OF this process(2) _ process(3)] True show ?thesis by auto
  next
    case False
    then show ?thesis
      using process Process_uninitialised [of s fs "Some xs" n] Process_invalid [of fs n s xs] by auto
  qed
qed

fun gmm_run :: "VadInstT \<Rightarrow> nat \<Rightarrow> (int list \<times> int) list \<Rightarrow> (int \<times> int) list" where
  "gmm_run s n [] = []"
| "gmm_run s n ((fs, p) # frames) =
     (let raw = fst (gmm_decide s fs p n); (d, s') = GmmProbability s fs p n
      in (raw, d) # gmm_run s' n frames)"

lemma GmmProbability_counters:
  assumes tabs: "mode_tables_ok s"
    and cnt: "(over_hang s, num_of_speech s) =
      counters_after (over_hang_max_1 s ! threshold_index n) (over_hang_max_2 s ! threshold_index n) h"
    and call: "GmmProbability s fs p n = (d, s')"
  defines "o1 \<equiv> over_hang_max_1 s ! threshold_index n" and "o2 \<equiv> over_hang_max_2 s ! threshold_index n"
    and "f \<equiv> fst (gmm_decide s fs p n)"
  shows "(over_hang s', num_of_speech s') = counters_after o1 o2 (h @ [f])"
    "d \<noteq> 0 \<longleftrightarrow> active_frame o1 o2 (h @ [f])"
    "mode_tables_ok s'" "over_hang_max_1 s' = over_hang_max_1 s" "over_hang_max_2 s' = over_hang_max_2 s"
proof -
  note fields = same_but_models_fields [OF gmm_decide_same [of s fs p n]]
  let ?sm = "smooth_decision o1 o2 f (over_hang s, num_of_speech s)"
  have eq: "d = fst ?sm" "s' = (snd (gmm_decide s fs p n))\<lparr>over_hang := fst (snd ?sm), num_of_speech := snd (snd ?sm)\<rparr>"
    using call fields by (simp_all add: GmmProbability_def Let_def split_def o1_def o2_def f_def)
  note step = smooth_decision_step [OF overhead_range [OF tabs, of n], folded o1_def o2_def, of f h]
  have c: "(over_hang s, num_of_speech s) = counters_after o1 o2 h" using cnt by (simp add: o1_def o2_def)
  show "(over_hang s', num_of_speech s') = counters_after o1 o2 (h @ [f])"
    using step(1) by (simp add: eq(2) c)
  show "d \<noteq> 0 \<longleftrightarrow> active_frame o1 o2 (h @ [f])" using step(2) by (simp add: eq(1) c)
  show "mode_tables_ok s'" "over_hang_max_1 s' = over_hang_max_1 s" "over_hang_max_2 s' = over_hang_max_2 s"
    using tabs fields by (simp_all add: eq(2) mode_tables_values)
qed

lemma gmm_run_hysteresis:
  assumes "mode_tables_ok s"
    and "(over_hang s, num_of_speech s) =
      counters_after (over_hang_max_1 s ! threshold_index n) (over_hang_max_2 s ! threshold_index n) h"
    and "k < length frames"
  shows "snd (gmm_run s n frames ! k) \<noteq> 0 \<longleftrightarrow>
    active_frame (over_hang_max_1 s ! threshold_index n) (over_hang_max_2 s ! threshold_index n)
      (h @ map fst (take (Suc k) (gmm_run s n frames)))"
  using assms
proof (induction frames arbitrary: s h k)
  case (Cons frame frames)
  obtain fs p where fr: "frame = (fs, p)" by fastforce
  obtain d s' where g: "GmmProbability s fs p n = (d, s')" by fastforce
  note st = GmmProbability_counters [OF Cons.prems(1,2) g]
  show ?case
  proof (cases k)
    case 0
    then show ?thesis using st(2) by (simp add: fr g)
  next
    case (Suc j)
    then have j: "j < length frames" using Cons.prems by simp
    from Cons.IH [OF st(3) _ j, of "h @ [fst (gmm_decide s fs p n)]"] st(1,4,5) show ?thesis
      by (simp add: fr g Suc)
  qed
qed simp

subsection \<open>Properties\<close>

text \<open>C10: the contract of \<open>WebRtcVad_Process\<close>. On every handle that calls of the interface can
  produce, a frame of a supported rate and duration yields 0 or 1 and an instance that satisfies
  the invariant (sizes, sorted minimum windows, standard deviations of at least 378, counters in
  range, tables of one of the four modes); every other call returns -1 and changes nothing, as do
  calls with a null handle or a null frame.\<close>

theorem vad_process_contract:
  assumes "vad_reachable s" "length xs = n"
    and "WebRtcVad_Process (Some s) fs (Some xs) n = (r, h)"
  shows "(if init_flag s = 42 \<and> valid_frame fs n
          then r \<in> {0, 1} \<and> (\<exists>s'. h = Some s' \<and> vad_inv s') else r = -1 \<and> h = Some s) \<and>
    WebRtcVad_Process None fs (Some xs) n = (-1, None) \<and>
    WebRtcVad_Process (Some s) fs None n = (-1, Some s)"
proof (cases "init_flag s = 42 \<and> valid_frame fs n")
  case True
  then have "vad_inv s" using vad_reachable_inv [OF assms(1)] by (simp add: kInitCheck_def)
  from Process_valid [OF this assms(2) _ assms(3)] True show ?thesis
    by (auto simp: WebRtcVad_Process_def)
next
  case False
  then have "WebRtcVad_Process (Some s) fs (Some xs) n = (-1, Some s)"
    using Process_uninitialised [of s] Process_invalid by (auto simp: kInitCheck_def)
  with False assms(3) show ?thesis by (auto simp: WebRtcVad_Process_def)
qed

definition demo_vad :: VadInstT where
  "demo_vad = the (snd (WebRtcVad_Init (Some (WebRtcVad_Create demo_minima))))"

lemma demo_vad_facts:
  "vad_reachable demo_vad" "vad_inv demo_vad" "over_hang demo_vad = 0" "num_of_speech demo_vad = 0"
proof -
  obtain r h where call: "WebRtcVad_Init (Some (WebRtcVad_Create demo_minima)) = (r, h)" by fastforce
  from Init_inv [OF call] have h: "h = Some demo_vad"
    "vad_inv demo_vad" "over_hang demo_vad = 0" "num_of_speech demo_vad = 0"
    by (auto simp: demo_vad_def call)
  then show "vad_inv demo_vad" "over_hang demo_vad = 0" "num_of_speech demo_vad = 0" by simp_all
  show "vad_reachable demo_vad"
    using vad_reachable.init [OF vad_reachable.create [of demo_minima], of r demo_vad] call h(1) by simp
qed

theorem vad_process_contract_witness:
  "\<exists>r s'. WebRtcVad_Process (Some demo_vad) 8000 (Some (replicate 80 55)) 80 = (r, Some s') \<and>
     r \<in> {0, 1} \<and> vad_inv s'"
proof -
  obtain r h where call: "WebRtcVad_Process (Some demo_vad) 8000 (Some (replicate 80 55)) 80 = (r, h)"
    by fastforce
  have "init_flag demo_vad = 42" using demo_vad_facts(2) by (simp add: vad_inv_def kInitCheck_def)
  moreover have "valid_frame 8000 80" by (simp add: valid_frame_def)
  ultimately show ?thesis
    using vad_process_contract [OF demo_vad_facts(1) _ call] call by auto
qed

text \<open>C21: the hysteresis of the decisions. Over any sequence of frames of one length, started with
  cleared counters, the decision for a frame is active exactly when the frame itself is classified
  as speech or follows a run of speech frames by at most the overhang of the mode, where the longer
  overhang applies after more than six speech frames in a row.\<close>

theorem vad_hysteresis:
  assumes "vad_inv s" "over_hang s = 0" "num_of_speech s = 0" "k < length frames"
  shows "snd (gmm_run s n frames ! k) \<noteq> 0 \<longleftrightarrow>
    active_frame (over_hang_max_1 s ! threshold_index n) (over_hang_max_2 s ! threshold_index n)
      (map fst (take (Suc k) (gmm_run s n frames)))"
proof -
  have "mode_tables_ok s" using assms(1) by (simp add: vad_inv_def)
  moreover have "(over_hang s, num_of_speech s) =
      counters_after (over_hang_max_1 s ! threshold_index n) (over_hang_max_2 s ! threshold_index n) []"
    using assms(2,3) by (simp add: counters_after_def hang_of_def speech_run_def silent_tail_def)
  ultimately show ?thesis
    using gmm_run_hysteresis [of s n "[]" k frames] assms(4) by simp
qed

theorem vad_hysteresis_witness:
  "snd (gmm_run demo_vad 80 [([0, 0, 0, 0, 0, 0], 0)] ! 0) \<noteq> 0 \<longleftrightarrow>
    active_frame (over_hang_max_1 demo_vad ! threshold_index 80) (over_hang_max_2 demo_vad ! threshold_index 80)
      (map fst (take (Suc 0) (gmm_run demo_vad 80 [([0, 0, 0, 0, 0, 0], 0)])))"
  by (rule vad_hysteresis [OF demo_vad_facts(2-4)]) simp

text \<open>C39: at 48 kHz only the first ten milliseconds of a frame are analysed. The result and the new
  state of \<open>WebRtcVad_Process\<close> for a frame of 20 or 30 ms are the same for any two frames that
  agree on their first 480 samples: the resampling loop never advances its input pointer.\<close>

theorem vad_48khz_ignores_later_samples:
  assumes "take 480 xs = take 480 ys"
  shows "WebRtcVad_Process h 48000 (Some xs) n = WebRtcVad_Process h 48000 (Some ys) n"
proof -
  have "resample_10ms_frames k xs st mem = resample_10ms_frames k ys st mem" for k st mem
    using assms by (induction k arbitrary: st mem) simp_all
  then show ?thesis
    by (simp add: WebRtcVad_Process_def WebRtcVad_CalcVad48khz_def split: option.split)
qed

theorem vad_48khz_ignores_later_samples_witness:
  "WebRtcVad_Process (Some demo_vad) 48000 (Some (replicate 480 0 @ replicate 480 20000)) 960 =
   WebRtcVad_Process (Some demo_vad) 48000 (Some (replicate 480 0 @ replicate 480 (-7))) 960"
  by (rule vad_48khz_ignores_later_samples) simp

text \<open>A frame with too little power leaves the models alone. Its decision code is 2 plus the
  overhang counter while the overhang lasts (so up to 16) and 0 afterwards; the counter goes down
  by one and the speech run is cleared.\<close>

theorem vad_low_power_frame:
  assumes "vad_inv s" "p \<le> 10"
  shows "GmmProbability s fs p n =
    ((if over_hang s > 0 then 2 + over_hang s else 0),
     s\<lparr>over_hang := max 0 (over_hang s - 1), num_of_speech := 0\<rparr>)"
proof -
  have "0 \<le> over_hang s" "over_hang s \<le> 14" using assms(1) by (simp_all add: vad_inv_def)
  then show ?thesis
    using assms(2) by (auto simp: GmmProbability_def gmm_decide_def smooth_decision_def s16_idI)
qed

theorem vad_low_power_frame_witness:
  "fst (GmmProbability (demo_vad\<lparr>over_hang := 14\<rparr>) [0, 0, 0, 0, 0, 0] 0 80) = 16"
proof -
  have "vad_inv (demo_vad\<lparr>over_hang := 14\<rparr>)"
    using demo_vad_facts(2)
    by (auto simp: vad_inv_core learning_ok_def models_ok_def mode_tables_values
        intro: minima_ok_cong [THEN iffD1, of demo_vad])
  from vad_low_power_frame [OF this, of 0] show ?thesis by simp
qed

text \<open>Initialisation. \<open>WebRtcVad_Init\<close> succeeds on any allocated instance, whatever it held,
  and establishes the invariant with cleared counters; on a null handle it returns -1.\<close>

theorem vad_init_correct:
  "\<exists>s'. WebRtcVad_Init (Some s) = (0, Some s') \<and> vad_inv s' \<and> over_hang s' = 0 \<and>
        num_of_speech s' = 0 \<and> WebRtcVad_Init None = (-1, None)"
proof -
  obtain r h where call: "WebRtcVad_Init (Some s) = (r, h)" by fastforce
  from Init_inv [OF call] call show ?thesis
    by (auto simp: WebRtcVad_Init_def WebRtcVad_InitCore_def)
qed

text \<open>Which frames are accepted. \<open>WebRtcVad_ValidRateAndFrameLength\<close> returns 0 for 10, 20 or
  30 ms of audio at 8, 16, 32 or 48 kHz and -1 for everything else.\<close>

theorem vad_valid_rate_and_frame_length:
  "WebRtcVad_ValidRateAndFrameLength rate n =
     (if rate \<in> {8000, 16000, 32000, 48000} \<and>
         (int n = rate div 100 \<or> int n = 2 * (rate div 100) \<or> int n = 3 * (rate div 100)) then 0 else -1)"
  unfolding ValidRateAndFrameLength_eq valid_frame_def by auto

text \<open>The aggressiveness modes. Modes 0 to 3 are accepted and every other mode is refused
  without a change; a higher mode never lowers a decision threshold and never lengthens an
  overhang.\<close>

theorem vad_modes_ordered:
  assumes "0 \<le> m" "m \<le> m'" "m' \<le> 3" "i < 3"
  shows "let a = snd (WebRtcVad_set_mode_core s m); b = snd (WebRtcVad_set_mode_core s m') in
    individual a ! i \<le> individual b ! i \<and> total a ! i \<le> total b ! i \<and>
    over_hang_max_1 b ! i \<le> over_hang_max_1 a ! i \<and> over_hang_max_2 b ! i \<le> over_hang_max_2 a ! i \<and>
    fst (WebRtcVad_set_mode_core s m) = 0 \<and>
    WebRtcVad_set_mode_core s (m + 4) = (-1, s) \<and> WebRtcVad_set_mode_core s (m - 4) = (-1, s)"
proof -
  have "m \<in> {0, 1, 2, 3}" "m' \<in> {0, 1, 2, 3}" using assms by auto
  moreover have "i \<in> {0, 1, 2}" using assms(4) by auto
  ultimately show ?thesis
    using assms(2)
    by (elim insertE; simp add: Let_def WebRtcVad_set_mode_core_def kLocalThresholdQ_def kGlobalThresholdQ_def
        kOverHangMax1Q_def kOverHangMax2Q_def kLocalThresholdLBR_def kGlobalThresholdLBR_def
        kOverHangMax1LBR_def kOverHangMax2LBR_def kLocalThresholdAGG_def kGlobalThresholdAGG_def
        kOverHangMax1AGG_def kOverHangMax2AGG_def kLocalThresholdVAG_def kGlobalThresholdVAG_def
        kOverHangMax1VAG_def kOverHangMax2VAG_def)
qed

theorem vad_modes_ordered_witness:
  "individual (snd (WebRtcVad_set_mode_core demo_vad 0)) ! 1 \<le> individual (snd (WebRtcVad_set_mode_core demo_vad 3)) ! 1"
  using vad_modes_ordered [of 0 3 1 demo_vad] by (simp add: Let_def)

end
