(* ===== verification/Arith_Coder.thy ===== *)
theory Arith_Coder
  imports Prelude
begin

section \<open>iSAC: the arithmetic coder\<close>

text \<open>
  \<open>arith_routines.c\<close> and \<open>arith_routines_hist.c\<close> of the iSAC codec: the encoder with carry
  propagation into the bytes already written, termination, and the two decoders for tables of
  cumulative frequencies (bisection and single steps). A \<open>uint32_t\<close> is an integer kept in range by
  \<open>u32\<close>, a byte by \<open>u8\<close>. The pointers into the stream buffer are indices; an access outside the
  buffer, which the code does not guard against, makes the operation return \<open>None\<close>. The loops over
  the bytes of the buffer stop at its ends in the model, so the recursions are over the room left.
  The lemmas relate the encoder to exact interval arithmetic on numbers of arbitrary size: the
  carry never leaves the buffer, the interval never gets too small, and the decoders recover what
  was encoded.
\<close>

unbundle bit_operations_syntax

subsection \<open>The bit stream (\<open>structs.h\<close>)\<close>

record Bitstr =
  stream :: "int list"
  W_upper :: int
  streamval :: int
  stream_index :: nat

subsection \<open>Encoding\<close>

text \<open>The scaling of a table entry by the interval width, as it is written out at every use.\<close>

definition scale_cdf :: "int \<Rightarrow> int \<Rightarrow> int" where
  "scale_cdf W_up c =
     (let W_upper_LSB = W_up AND 0x0000FFFF;
          W_upper_MSB = shr W_up 16;
          W = u32 (W_upper_MSB * c)
      in u32 (W + shr (u32 (W_upper_LSB * c)) 16))"

fun propagate_carry :: "nat \<Rightarrow> int list \<Rightarrow> int list option" where
  "propagate_carry 0 s = None"
| "propagate_carry (Suc p) s =
     (let b = u8 (s ! p + 1); s = s[p := b]
      in if b = 0 then propagate_carry p s else Some s)"

function enc_renorm :: "int list \<Rightarrow> nat \<Rightarrow> int \<Rightarrow> int \<Rightarrow> (int list \<times> nat \<times> int \<times> int) option" where
  "enc_renorm s stream_ptr W_up val =
     (if W_up AND 0xFF000000 = 0 then
        (if stream_ptr < length s
         then enc_renorm (s[stream_ptr := u8 (shr val 24)]) (stream_ptr + 1) (u32 (W_up * 2 ^ 8)) (u32 (val * 2 ^ 8))
         else None)
      else Some (s, stream_ptr, W_up, val))"
  by pat_completeness auto
termination by (relation "measure (\<lambda>(s, p, W, v). length s - p)") auto

declare enc_renorm.simps [simp del]

definition enc_symbol ::
    "int \<Rightarrow> int \<Rightarrow> int list \<times> nat \<times> int \<times> int \<Rightarrow> (int list \<times> nat \<times> int \<times> int) option" where
  "enc_symbol cdf_lo cdf_hi = (\<lambda>(s, stream_ptr, W_up, val).
     (let W_lower = scale_cdf W_up cdf_lo;
          W_up = scale_cdf W_up cdf_hi;
          W_lower = u32 (W_lower + 1);
          W_up = u32 (W_up - W_lower);
          val = u32 (val + W_lower)
      in case (if val < W_lower then propagate_carry stream_ptr s else Some s) of
           None \<Rightarrow> None
         | Some s \<Rightarrow> enc_renorm s stream_ptr W_up val))"

fun enc_hist_loop ::
    "nat \<Rightarrow> nat list \<Rightarrow> int list list \<Rightarrow> int list \<times> nat \<times> int \<times> int \<Rightarrow> (int list \<times> nat \<times> int \<times> int) option" where
  "enc_hist_loop 0 data cdf st = Some st"
| "enc_hist_loop (Suc k) data cdf st =
     (case enc_symbol (hd cdf ! hd data) (hd cdf ! (hd data + 1)) st of
        None \<Rightarrow> None | Some st \<Rightarrow> enc_hist_loop k (tl data) (tl cdf) st)"

definition WebRtcIsac_EncHistMulti :: "Bitstr \<Rightarrow> nat list \<Rightarrow> int list list \<Rightarrow> nat \<Rightarrow> Bitstr option" where
  "WebRtcIsac_EncHistMulti streamdata data cdf N =
     (case enc_hist_loop N data cdf
        (stream streamdata, stream_index streamdata, W_upper streamdata, streamval streamdata) of
        None \<Rightarrow> None
      | Some (s, p, W, v) \<Rightarrow> Some (streamdata\<lparr>stream := s, W_upper := W, streamval := v, stream_index := p\<rparr>))"

definition write_byte :: "nat \<Rightarrow> int \<Rightarrow> int list \<Rightarrow> int list option" where
  "write_byte p b s = (if p < length s then Some (s[p := b]) else None)"

text \<open>Returns the length of the stream and the changed structure.\<close>

definition WebRtcIsac_EncTerminate :: "Bitstr \<Rightarrow> (nat \<times> Bitstr) option" where
  "WebRtcIsac_EncTerminate streamdata =
     (let p = stream_index streamdata in
      if W_upper streamdata > 0x01FFFFFF then
        (let val = u32 (streamval streamdata + 0x01000000) in
         case (if val < 0x01000000 then propagate_carry p (stream streamdata) else Some (stream streamdata)) of
           None \<Rightarrow> None
         | Some s \<Rightarrow> (case write_byte p (u8 (shr val 24)) s of
             None \<Rightarrow> None
           | Some s \<Rightarrow> Some (p + 1, streamdata\<lparr>stream := s, streamval := val\<rparr>)))
      else
        (let val = u32 (streamval streamdata + 0x00010000) in
         case (if val < 0x00010000 then propagate_carry p (stream streamdata) else Some (stream streamdata)) of
           None \<Rightarrow> None
         | Some s \<Rightarrow> (case write_byte p (u8 (shr val 24)) s of
             None \<Rightarrow> None
           | Some s \<Rightarrow> (case write_byte (p + 1) (u8 (shr val 16 AND 0x00FF)) s of
               None \<Rightarrow> None
             | Some s \<Rightarrow> Some (p + 2, streamdata\<lparr>stream := s, streamval := val\<rparr>)))))"

subsection \<open>Decoding\<close>

text \<open>The first word, with the pointer left on its last byte.\<close>

definition read_first_word :: "int list \<Rightarrow> nat \<Rightarrow> (int \<times> nat) option" where
  "read_first_word s p =
     (if p + 3 < length s
      then Some (((u32 (s ! p * 2 ^ 24) OR u32 (s ! (p + 1) * 2 ^ 16)) OR u32 (s ! (p + 2) * 2 ^ 8)) OR s ! (p + 3), p + 3)
      else None)"

function dec_renorm :: "int list \<Rightarrow> nat \<Rightarrow> int \<Rightarrow> int \<Rightarrow> (nat \<times> int \<times> int) option" where
  "dec_renorm s stream_ptr W_up val =
     (if W_up AND 0xFF000000 = 0 then
        (if stream_ptr + 1 < length s
         then dec_renorm s (stream_ptr + 1) (u32 (W_up * 2 ^ 8)) (u32 (val * 2 ^ 8) OR s ! (stream_ptr + 1))
         else None)
      else Some (stream_ptr, W_up, val))"
  by pat_completeness auto
termination by (relation "measure (\<lambda>(s, p, W, v). length s - p)") auto

declare dec_renorm.simps [simp del]

text \<open>The result of a search in a table: the symbol with the bounds of its interval, the error of
  the range check, or an access outside the table.\<close>

datatype found = Found int int int | RangeError | BadAccess

text \<open>Bisection. \<open>W0\<close> is the interval width at the start of the symbol; \<open>ptr\<close> is the index of
  \<open>cdf_ptr\<close>, which can leave the table only through a table that is too short.\<close>

function bisect_loop :: "int list \<Rightarrow> int \<Rightarrow> int \<Rightarrow> nat \<Rightarrow> int \<Rightarrow> int \<Rightarrow> int \<Rightarrow> found" where
  "bisect_loop cdf W0 val size_tmp ptr W_lower W_up =
     (if ptr < 0 \<or> int (length cdf) \<le> ptr then BadAccess
      else let W_tmp = scale_cdf W0 (cdf ! nat ptr); size_tmp = size_tmp div 2
      in if size_tmp = 0 then
           (if val > W_tmp then Found ptr W_tmp W_up else Found (ptr - 1) W_lower W_tmp)
         else if val > W_tmp then bisect_loop cdf W0 val size_tmp (ptr + int size_tmp) W_tmp W_up
         else bisect_loop cdf W0 val size_tmp (ptr - int size_tmp) W_lower W_tmp)"
  by pat_completeness auto
termination by (relation "measure (\<lambda>(cdf, W0, v, size, p, l, u). size)") auto

declare bisect_loop.simps [simp del]

definition bisect :: "int list \<Rightarrow> nat \<Rightarrow> int \<Rightarrow> int \<Rightarrow> int \<Rightarrow> found" where
  "bisect cdf cdf_size W_lower W_up val =
     (let size_tmp = cdf_size div 2
      in bisect_loop cdf W_up val size_tmp (int size_tmp - 1) W_lower W_up)"

text \<open>Single steps, upwards and downwards.\<close>

function step_up :: "int list \<Rightarrow> int \<Rightarrow> int \<Rightarrow> nat \<Rightarrow> int \<Rightarrow> found" where
  "step_up cdf W0 val ptr W_tmp =
     (let W_lower = W_tmp in
      if length cdf \<le> ptr then BadAccess
      else if cdf ! ptr = 65535 then RangeError
      else if length cdf \<le> ptr + 1 then BadAccess
      else let W_tmp = scale_cdf W0 (cdf ! (ptr + 1))
           in if val \<le> W_tmp then Found (int (ptr + 1) - 1) W_lower W_tmp
              else step_up cdf W0 val (ptr + 1) W_tmp)"
  by pat_completeness auto
termination by (relation "measure (\<lambda>(cdf, W0, v, p, w). length cdf - p)") auto

declare step_up.simps [simp del]

fun step_down :: "int list \<Rightarrow> int \<Rightarrow> int \<Rightarrow> nat \<Rightarrow> int \<Rightarrow> found" where
  "step_down cdf W0 val 0 W_tmp = RangeError"
| "step_down cdf W0 val (Suc ptr) W_tmp =
     (let W_up = W_tmp; W_tmp = scale_cdf W0 (cdf ! ptr)
      in if val > W_tmp then Found (int ptr) W_tmp W_up else step_down cdf W0 val ptr W_tmp)"

definition one_step :: "int list \<Rightarrow> nat \<Rightarrow> int \<Rightarrow> int \<Rightarrow> found" where
  "one_step cdf init_index W_up val =
     (if length cdf \<le> init_index then BadAccess
      else let W_tmp = scale_cdf W_up (cdf ! init_index)
           in if val > W_tmp then step_up cdf W_up val init_index W_tmp
              else step_down cdf W_up val init_index W_tmp)"

text \<open>The decoders return the code of the function, the symbols written so far and the structure;
  \<open>None\<close> is an access outside the buffer or a table.\<close>

fun dec_bisect_loop ::
    "nat \<Rightarrow> int list list \<Rightarrow> nat list \<Rightarrow> int list \<Rightarrow> nat \<times> int \<times> int \<times> int \<Rightarrow> (int list \<times> (nat \<times> int \<times> int) option) option" where
  "dec_bisect_loop 0 cdf cdf_size s (p, W_lower, W_up, val) = Some ([], Some (p, W_up, val))"
| "dec_bisect_loop (Suc k) cdf cdf_size s (p, W_lower, W_up, val) =
     (case bisect (hd cdf) (hd cdf_size) W_lower W_up val of
        Found d W_lower W_up \<Rightarrow>
          (let W_lower = u32 (W_lower + 1); W_up = u32 (W_up - W_lower); val = u32 (val - W_lower)
           in case dec_renorm s p W_up val of
                None \<Rightarrow> None
              | Some (p, W_up, val) \<Rightarrow>
                  (if W_up = 0 then Some ([d], None)
                   else case dec_bisect_loop k (tl cdf) (tl cdf_size) s (p, W_lower, W_up, val) of
                     None \<Rightarrow> None | Some (ds, r) \<Rightarrow> Some (d # ds, r)))
      | _ \<Rightarrow> None)"

definition stream_bytes :: "nat \<Rightarrow> int \<Rightarrow> int" where
  "stream_bytes p W_up = (if W_up > 0x01FFFFFF then int p - 2 else int p - 1)"

definition start_decoder :: "Bitstr \<Rightarrow> (int \<times> nat) option" where
  "start_decoder streamdata =
     (if stream_index streamdata = 0 then read_first_word (stream streamdata) (stream_index streamdata)
      else Some (streamval streamdata, stream_index streamdata))"

definition WebRtcIsac_DecHistBisectMulti ::
    "Bitstr \<Rightarrow> int list list \<Rightarrow> nat list \<Rightarrow> nat \<Rightarrow> (int \<times> int list \<times> Bitstr) option" where
  "WebRtcIsac_DecHistBisectMulti streamdata cdf cdf_size N =
     (if W_upper streamdata = 0 then Some (-2, [], streamdata)
      else case start_decoder streamdata of None \<Rightarrow> None | Some (val, p) \<Rightarrow>
        (case dec_bisect_loop N cdf cdf_size (stream streamdata) (p, 0, W_upper streamdata, val) of
           None \<Rightarrow> None
         | Some (ds, None) \<Rightarrow> Some (-2, ds, streamdata)
         | Some (ds, Some (p, W_up, val)) \<Rightarrow>
             Some (stream_bytes p W_up, ds, streamdata\<lparr>stream_index := p, W_upper := W_up, streamval := val\<rparr>)))"

fun dec_one_step_loop ::
    "nat \<Rightarrow> int list list \<Rightarrow> nat list \<Rightarrow> int list \<Rightarrow> nat \<times> int \<times> int \<Rightarrow> (int list \<times> (nat \<times> int \<times> int) option) option" where
  "dec_one_step_loop 0 cdf init_index s (p, W_up, val) = Some ([], Some (p, W_up, val))"
| "dec_one_step_loop (Suc k) cdf init_index s (p, W_up, val) =
     (case one_step (hd cdf) (hd init_index) W_up val of
        Found d W_lower W_up \<Rightarrow>
          (let W_lower = u32 (W_lower + 1); W_up = u32 (W_up - W_lower); val = u32 (val - W_lower)
           in case dec_renorm s p W_up val of
                None \<Rightarrow> None
              | Some st \<Rightarrow> (case dec_one_step_loop k (tl cdf) (tl init_index) s st of
                     None \<Rightarrow> None | Some (ds, r) \<Rightarrow> Some (d # ds, r)))
      | RangeError \<Rightarrow> Some ([], None)
      | BadAccess \<Rightarrow> None)"

definition WebRtcIsac_DecHistOneStepMulti ::
    "Bitstr \<Rightarrow> int list list \<Rightarrow> nat list \<Rightarrow> nat \<Rightarrow> (int \<times> int list \<times> Bitstr) option" where
  "WebRtcIsac_DecHistOneStepMulti streamdata cdf init_index N =
     (if W_upper streamdata = 0 then Some (-2, [], streamdata)
      else case start_decoder streamdata of None \<Rightarrow> None | Some (val, p) \<Rightarrow>
        (case dec_one_step_loop N cdf init_index (stream streamdata) (p, W_upper streamdata, val) of
           None \<Rightarrow> None
         | Some (ds, None) \<Rightarrow> Some (-3, ds, streamdata)
         | Some (ds, Some (p, W_up, val)) \<Rightarrow>
             Some (stream_bytes p W_up, ds, streamdata\<lparr>stream_index := p, W_upper := W_up, streamval := val\<rparr>)))"

subsection \<open>Widths and bytes\<close>

lemma and_ffff: "(x::int) AND 0xFFFF = x mod 65536"
  using take_bit_eq_mask [of 16 x] by (simp add: mask_eq_exp_minus_1 take_bit_eq_mod)

lemma and_ff: "(x::int) AND 0xFF = x mod 256"
  using take_bit_eq_mask [of 8 x] by (simp add: mask_eq_exp_minus_1 take_bit_eq_mod)

lemma high_byte_clear:
  assumes "0 \<le> W" "W < 4294967296"
  shows "W AND 0xFF000000 = 0 \<longleftrightarrow> W < (16777216::int)"
proof -
  have "W AND push_bit 24 (mask 8) = push_bit 24 (take_bit 8 (drop_bit 24 W))"
    by (rule bit_eqI) (auto simp: bit_and_iff bit_push_bit_iff bit_mask_iff bit_take_bit_iff bit_drop_bit_eq)
  moreover have "push_bit 24 (mask 8) = (0xFF000000::int)"
    by (simp add: push_bit_eq_mult mask_eq_exp_minus_1)
  moreover have "take_bit 8 (drop_bit 24 W) = W div 16777216"
    using assms by (simp add: take_bit_eq_mod drop_bit_eq_div int_div_less pos_imp_zdiv_nonneg_iff)
  ultimately have "W AND 0xFF000000 = W div 16777216 * 16777216"
    by (simp add: push_bit_eq_mult)
  then show ?thesis using assms(1) zdiv_eq_0_iff [of W 16777216] by auto
qed

lemma scale_cdf_eq:
  assumes "0 \<le> W" "W < 4294967296" "0 \<le> c" "c \<le> 65535"
  shows "scale_cdf W c = W * c div 65536"
proof -
  define m l where "m = W div 65536" and "l = W mod 65536"
  have W: "W = 65536 * m + l" and l: "0 \<le> l" "l \<le> 65535"
    using pos_mod_bound [of 65536 W] by (auto simp: m_def l_def)
  have m: "0 \<le> m" "m \<le> 65535" using assms(1,2) W l by linarith+
  have mc: "0 \<le> m * c" "m * c \<le> 65535 * 65535" and lc: "0 \<le> l * c" "l * c \<le> 65535 * 65535"
    using m l assms(3,4) mult_mono [of m 65535 c 65535] mult_mono [of l 65535 c 65535] by auto
  have "W * c div 65536 = (l * c + m * c * 65536) div 65536"
    by (simp add: W algebra_simps)
  then have sum: "W * c div 65536 = m * c + l * c div 65536"
    by simp
  have "l * c div 65536 \<le> 65534" "0 \<le> l * c div 65536"
    using zdiv_mono1 [OF lc(2), of 65536] lc(1) by (simp_all add: pos_imp_zdiv_nonneg_iff)
  then have "u32 (m * c + l * c div 65536) = m * c + l * c div 65536"
    using mc by (intro u32_idI) linarith+
  moreover have "u32 (m * c) = m * c" "u32 (l * c) = l * c"
    using mc lc by (auto intro!: u32_idI)
  ultimately show ?thesis
    by (simp add: scale_cdf_def and_ffff shr_def sum flip: m_def l_def)
qed

definition bytes_ok :: "int list \<Rightarrow> bool" where
  "bytes_ok s \<longleftrightarrow> (\<forall>b\<in>set s. 0 \<le> b \<and> b < 256)"

fun bval :: "int list \<Rightarrow> int" where
  "bval [] = 0"
| "bval (b # bs) = b * 256 ^ length bs + bval bs"

lemma bval_append: "bval (xs @ ys) = bval xs * 256 ^ length ys + bval ys"
  by (induction xs) (simp_all add: algebra_simps power_add)

lemma bval_snoc: "bval (xs @ [b]) = bval xs * 256 + b"
  by (simp add: bval_append)

lemma bval_range: "bytes_ok s \<Longrightarrow> 0 \<le> bval s \<and> bval s < 256 ^ length s"
proof (induction s)
  case (Cons b bs)
  then have b: "0 \<le> b" "b \<le> 255" and bs: "0 \<le> bval bs" "bval bs < 256 ^ length bs"
    by (auto simp: bytes_ok_def)
  have "b * 256 ^ length bs \<le> 255 * 256 ^ length bs" using b by (intro mult_right_mono) auto
  then have "b * 256 ^ length bs + bval bs < 256 * 256 ^ length bs" using bs by linarith
  then show ?case using b bs by simp
qed simp

lemma bytes_ok_take: "bytes_ok s \<Longrightarrow> bytes_ok (take n s)"
  by (auto simp: bytes_ok_def dest: in_set_takeD)

lemma bytes_ok_drop: "bytes_ok s \<Longrightarrow> bytes_ok (drop n s)"
  by (auto simp: bytes_ok_def dest: in_set_dropD)

lemma bytes_ok_update: "bytes_ok s \<Longrightarrow> 0 \<le> b \<Longrightarrow> b < 256 \<Longrightarrow> bytes_ok (s[i := b])"
  by (auto simp: bytes_ok_def dest!: set_update_subset_insert [THEN subsetD])

lemma bytes_ok_nth: "bytes_ok s \<Longrightarrow> i < length s \<Longrightarrow> 0 \<le> s ! i \<and> s ! i < 256"
  by (auto simp: bytes_ok_def)

lemma bval_take_Suc: "i < length s \<Longrightarrow> bval (take (Suc i) s) = bval (take i s) * 256 + s ! i"
  by (simp add: take_Suc_conv_app_nth bval_snoc)

lemma u8_range: "0 \<le> u8 x" "u8 x < 256"
  by (simp_all add: u8_def)

text \<open>Propagating a carry adds one to the number the written bytes form.\<close>

lemma propagate_carry_correct:
  assumes "bytes_ok s" "p \<le> length s" "bval (take p s) + 1 < 256 ^ p"
  shows "\<exists>s'. propagate_carry p s = Some s' \<and> length s' = length s \<and> bytes_ok s' \<and>
     drop p s' = drop p s \<and> bval (take p s') = bval (take p s) + 1"
  using assms
proof (induction p arbitrary: s)
  case (Suc p)
  have p: "p < length s" using Suc.prems by simp
  note sp = bytes_ok_nth [OF Suc.prems(1) p]
  have val: "bval (take (Suc p) s) = bval (take p s) * 256 + s ! p" using p by (rule bval_take_Suc)
  show ?case
  proof (cases "s ! p = 255")
    case False
    then have b: "u8 (s ! p + 1) = s ! p + 1" "u8 (s ! p + 1) \<noteq> 0" using sp by (auto simp: u8_def)
    let ?s = "s[p := s ! p + 1]"
    have "bval (take (Suc p) ?s) = bval (take (Suc p) s) + 1"
      using p by (simp add: val bval_take_Suc)
    moreover have "bytes_ok ?s" using Suc.prems(1) sp False by (intro bytes_ok_update) auto
    ultimately show ?thesis using b by (simp add: Let_def)
  next
    case True
    let ?s = "s[p := 0]"
    have "bval (take p s) * 256 + 256 < 256 * 256 ^ p"
      using Suc.prems(3) val True by simp
    then have lt: "bval (take p ?s) + 1 < 256 ^ p" by simp
    have "bytes_ok ?s" using Suc.prems(1) by (intro bytes_ok_update) auto
    from Suc.IH [OF this _ lt] p obtain s' where s': "propagate_carry p ?s = Some s'"
      "length s' = length s" "bytes_ok s'" "drop p s' = drop p ?s" "bval (take p s') = bval (take p s) + 1"
      by auto
    have d: "drop (Suc p) s' = drop (Suc p) s" "s' ! p = 0"
    proof -
      have "drop (Suc p) s' = drop 1 (drop p s')" by simp
      then show "drop (Suc p) s' = drop (Suc p) s" by (simp add: s'(4))
      have "s' ! p = drop p s' ! 0" using p s'(2) by simp
      then show "s' ! p = 0" using p by (simp add: s'(4))
    qed
    have "bval (take (Suc p) s') = bval (take (Suc p) s) + 1"
      using p s'(2,5) d(2) by (simp add: bval_take_Suc val True)
    then show ?thesis
      using s'(1-3) d(1) True by (simp add: u8_def Let_def)
  qed
qed simp

subsection \<open>Exact interval arithmetic\<close>

text \<open>The encoder's state stands for the number \<open>low\<close> formed by the bytes written and the 32 bits
  of \<open>streamval\<close>. One symbol adds to \<open>low\<close> and narrows the width, then both are scaled by as many
  bytes as renormalisation needs.\<close>

definition low_of :: "int list \<Rightarrow> nat \<Rightarrow> int \<Rightarrow> int" where
  "low_of s p v = bval (take p s) * 4294967296 + v"

definition shift_count :: "int \<Rightarrow> nat" where
  "shift_count W = (if 16777216 \<le> W then 0 else if 65536 \<le> W then 1 else if 256 \<le> W then 2 else 3)"

lemma shift_count_step:
  "W < 16777216 \<Longrightarrow> 0 < W \<Longrightarrow> shift_count W = Suc (shift_count (W * 256))"
  by (auto simp: shift_count_def)

definition enc_inv :: "int list \<times> nat \<times> int \<times> int \<Rightarrow> bool" where
  "enc_inv = (\<lambda>(s, p, W, v). bytes_ok s \<and> p \<le> length s \<and> 0 < W \<and> W < 4294967296 \<and>
     0 \<le> v \<and> v < 4294967296 \<and> low_of s p v + W < 256 ^ (p + 4))"

definition enc_ready :: "int list \<times> nat \<times> int \<times> int \<Rightarrow> bool" where
  "enc_ready st \<longleftrightarrow> enc_inv st \<and> 16777216 \<le> fst (snd (snd st))"

lemma low_of_shift:
  assumes "p < length s" "0 \<le> v" "v < 4294967296"
  shows "low_of (s[p := u8 (shr v 24)]) (Suc p) (u32 (v * 2 ^ 8)) = low_of s p v * 256"
proof -
  have d: "v div 16777216 < 256" "0 \<le> v div 16777216"
    using assms(2,3) by (auto intro!: int_div_less simp: pos_imp_zdiv_nonneg_iff)
  have "u32 (v * 2 ^ 8) = v mod 16777216 * 256"
    using mult_mod_right [of 256 v 16777216] by (simp add: u32_def mult.commute)
  moreover have "u8 (shr v 24) = v div 16777216"
    using d by (simp add: u8_def shr_def)
  moreover have "v mod 16777216 * 256 + v div 16777216 * 4294967296 = v * 256"
    using div_mult_mod_eq [of v 16777216] by linarith
  ultimately show ?thesis
    using assms(1) unfolding low_of_def by (simp add: bval_take_Suc algebra_simps)
qed

lemma enc_renorm_correct:
  assumes "enc_inv (s, p, W, v)" "p + shift_count W \<le> length s"
  shows "\<exists>s' v'. enc_renorm s p W v = Some (s', p + shift_count W, W * 256 ^ shift_count W, v') \<and>
     enc_ready (s', p + shift_count W, W * 256 ^ shift_count W, v') \<and> length s' = length s \<and>
     low_of s' (p + shift_count W) v' = low_of s p v * 256 ^ shift_count W"
  using assms
proof (induction s p W v rule: enc_renorm.induct)
  case (1 s p W v)
  have W: "0 < W" "W < 4294967296" and v: "0 \<le> v" "v < 4294967296" and s: "bytes_ok s"
    and low: "low_of s p v + W < 256 ^ (p + 4)"
    using "1.prems" by (auto simp: enc_inv_def)
  show ?case
  proof (cases "W < 16777216")
    case False
    then have "shift_count W = 0" by (simp add: shift_count_def)
    then show ?thesis
      using False W "1.prems"(1) high_byte_clear [of W]
      by (subst enc_renorm.simps) (simp add: enc_ready_def)
  next
    case True
    note sc = shift_count_step [OF True W(1)]
    then have p: "p < length s" using "1.prems"(2) by simp
    let ?s = "s[p := u8 (shr v 24)]" and ?v = "u32 (v * 2 ^ 8)"
    have low': "low_of ?s (Suc p) ?v = low_of s p v * 256" using p v by (rule low_of_shift)
    have W256: "u32 (W * 2 ^ 8) = W * 256" using True W by (simp add: u32_def)
    have "low_of s p v * 256 + W * 256 < 256 ^ (p + 4) * 256"
      using low by (metis distrib_right mult_strict_right_mono zero_less_numeral)
    moreover have "256 ^ (p + 4) * 256 = (256::int) ^ (Suc p + 4)"
      by (simp only: add_Suc power_Suc mult.commute)
    moreover have "0 \<le> ?v" "?v < 4294967296" by (simp_all add: u32_def)
    ultimately have inv: "enc_inv (?s, Suc p, W * 256, ?v)"
      using s p True W unfolding enc_inv_def prod.case low' by (simp add: bytes_ok_update u8_range del: power_Suc)
    have clear: "W AND 0xFF000000 = 0" using True W high_byte_clear [of W] by simp
    have step: "enc_renorm s p W v = enc_renorm ?s (Suc p) (W * 256) ?v"
      using clear p by (subst enc_renorm.simps) (simp add: W256 [simplified])
    from "1.IH" [OF clear p, unfolded W256] inv sc "1.prems"(2)
    show ?thesis by (simp add: step low' [simplified] algebra_simps)
  qed
qed

lemma interval_shrinks:
  fixes W clo chi :: int
  assumes "16777216 \<le> W" "0 \<le> clo" "clo < chi" "chi \<le> 65535"
  shows "W * clo div 65536 + 255 \<le> W * chi div 65536" "W * chi div 65536 < W" "0 \<le> W * clo div 65536"
proof -
  have "W * (clo + 1) \<le> W * chi" using assms by (intro mult_left_mono) auto
  then have "W * clo + 16777216 \<le> W * chi" using assms(1) by (simp add: algebra_simps)
  then have "(W * clo + 256 * 65536) div 65536 \<le> W * chi div 65536"
    by (intro zdiv_mono1) simp_all
  then show "W * clo div 65536 + 255 \<le> W * chi div 65536" by simp
  have "W * chi < W * 65536" using assms by simp
  then show "W * chi div 65536 < W" by (intro int_div_less) auto
  show "0 \<le> W * clo div 65536" using assms by (simp add: pos_imp_zdiv_nonneg_iff)
qed

lemma carry_room:
  assumes "low_of s p v + W < 256 ^ (p + 4)" "0 \<le> v" "4294967296 \<le> v + a" "a \<le> W"
  shows "bval (take p s) + 1 < 256 ^ p"
proof -
  have "(bval (take p s) + 1) * 4294967296 < 256 ^ (p + 4)"
    using assms by (simp add: low_of_def algebra_simps)
  also have "\<dots> = 256 ^ p * (4294967296::int)" by (simp add: power_add)
  finally show ?thesis by simp
qed

lemma low_of_add:
  assumes "bytes_ok s" "p \<le> length s" "0 \<le> v" "v < 4294967296" "0 < a" "a < 4294967296" "a \<le> W"
    and room: "low_of s p v + W < 256 ^ (p + 4)"
  defines "val \<equiv> u32 (v + a)"
  shows "\<exists>s'. (if val < a then propagate_carry p s else Some s) = Some s' \<and> length s' = length s \<and>
     bytes_ok s' \<and> drop p s' = drop p s \<and> 0 \<le> val \<and> val < 4294967296 \<and>
     low_of s' p val = low_of s p v + a"
proof (cases "v + a < 4294967296")
  case True
  then have "val = v + a" using assms by (simp add: val_def u32_idI)
  then show ?thesis using True assms(1,3,5) by (simp add: low_of_def)
next
  case False
  have "(v + a) mod 4294967296 = (v + a - 4294967296) mod 4294967296" by simp
  also have "\<dots> = v + a - 4294967296"
    using False assms(3-6) by (intro mod_pos_pos_trivial) auto
  finally have val: "val = v + a - 4294967296" by (simp add: val_def u32_def)
  from propagate_carry_correct [OF assms(1,2) carry_room [OF room assms(3) _ assms(7)]] False
  obtain s' where "propagate_carry p s = Some s'" "length s' = length s" "bytes_ok s'"
    "drop p s' = drop p s" "bval (take p s') = bval (take p s) + 1"
    by auto
  then show ?thesis
    using False assms(4-6) by (simp add: val low_of_def algebra_simps)
qed

lemma enc_symbol_correct:
  fixes W clo chi lo hi W2 :: int and m :: nat
  assumes ready: "enc_ready (s, p, W, v)" and c: "0 \<le> clo" "clo < chi" "chi \<le> 65535"
    and room: "p + 3 \<le> length s"
  defines "lo \<equiv> W * clo div 65536" and "hi \<equiv> W * chi div 65536"
  defines "W2 \<equiv> hi - lo - 1"
  defines "m \<equiv> shift_count W2"
  shows "\<exists>s' v'. enc_symbol clo chi (s, p, W, v) = Some (s', p + m, W2 * 256 ^ m, v') \<and>
     enc_ready (s', p + m, W2 * 256 ^ m, v') \<and> length s' = length s \<and>
     low_of s' (p + m) v' = (low_of s p v + lo + 1) * 256 ^ m"
proof -
  have W: "16777216 \<le> W" "W < 4294967296" and st: "bytes_ok s" "p \<le> length s" "0 \<le> v" "v < 4294967296"
    and low: "low_of s p v + W < 256 ^ (p + 4)"
    using ready by (auto simp: enc_ready_def enc_inv_def)
  note sh = interval_shrinks [OF W(1) c, folded lo_def hi_def]
  have sc: "scale_cdf W clo = lo" "scale_cdf W chi = hi"
    using W c by (simp_all add: scale_cdf_eq lo_def hi_def)
  have a: "u32 (lo + 1) = lo + 1" "u32 (hi - (lo + 1)) = W2" "0 < W2" "W2 < 4294967296"
    using sh W by (auto simp: W2_def u32_idI)
  obtain s1 where s1: "(if u32 (v + (lo + 1)) < lo + 1 then propagate_carry p s else Some s) = Some s1"
    "length s1 = length s" "bytes_ok s1" "0 \<le> u32 (v + (lo + 1))" "u32 (v + (lo + 1)) < 4294967296"
    "low_of s1 p (u32 (v + (lo + 1))) = low_of s p v + (lo + 1)"
    using low_of_add [OF st, of "lo + 1" W] low sh W by auto
  have "low_of s p v + (lo + 1) + W2 < 256 ^ (p + 4)"
    using low sh by (simp add: W2_def)
  then have inv: "enc_inv (s1, p, W2, u32 (v + (lo + 1)))"
    using a s1 st by (simp add: enc_inv_def)
  have "m \<le> 3" by (simp add: m_def shift_count_def)
  then have "p + shift_count W2 \<le> length s1" using room s1(2) by (simp add: m_def)
  from enc_renorm_correct [OF inv this, folded m_def] show ?thesis
    using s1(1,2,6) by (simp add: enc_symbol_def sc a Let_def add.assoc)
qed

text \<open>The same step on exact numbers: position, lower end and width.\<close>

type_synonym interval = "nat \<times> int \<times> int"

definition abs_step :: "int \<times> int \<Rightarrow> interval \<Rightarrow> interval" where
  "abs_step = (\<lambda>(clo, chi) (p, low, W).
     (let lo = W * clo div 65536; hi = W * chi div 65536; W2 = hi - lo - 1; m = shift_count W2
      in (p + m, (low + lo + 1) * 256 ^ m, W2 * 256 ^ m)))"

definition cdf_pair_ok :: "int \<times> int \<Rightarrow> bool" where
  "cdf_pair_ok c \<longleftrightarrow> 0 \<le> fst c \<and> fst c < snd c \<and> snd c \<le> 65535"

definition width_ok :: "interval \<Rightarrow> bool" where
  "width_ok st \<longleftrightarrow> 16777216 \<le> snd (snd st) \<and> snd (snd st) < 4294967296"

fun enc_symbols ::
    "(int \<times> int) list \<Rightarrow> int list \<times> nat \<times> int \<times> int \<Rightarrow> (int list \<times> nat \<times> int \<times> int) option" where
  "enc_symbols [] st = Some st"
| "enc_symbols (c # cs) st =
     (case enc_symbol (fst c) (snd c) st of None \<Rightarrow> None | Some st \<Rightarrow> enc_symbols cs st)"

definition abs_of :: "int list \<times> nat \<times> int \<times> int \<Rightarrow> interval" where
  "abs_of = (\<lambda>(s, p, W, v). (p, low_of s p v, W))"

lemma enc_symbol_refines:
  assumes "enc_ready st" "cdf_pair_ok c" "fst (snd st) + 3 \<le> length (fst st)"
  shows "\<exists>st'. enc_symbol (fst c) (snd c) st = Some st' \<and> enc_ready st' \<and>
     length (fst st') = length (fst st) \<and> abs_of st' = abs_step c (abs_of st) \<and>
     fst (snd st') \<le> fst (snd st) + 3"
proof -
  obtain s p W v where st: "st = (s, p, W, v)" by (cases st)
  have "shift_count x \<le> 3" for x by (simp add: shift_count_def)
  then show ?thesis
    using enc_symbol_correct [of s p W v "fst c" "snd c"] assms unfolding st
    by (fastforce simp: cdf_pair_ok_def abs_of_def abs_step_def Let_def split_def)
qed

lemma enc_symbols_refines:
  assumes "enc_ready st" "\<forall>c\<in>set cs. cdf_pair_ok c" "fst (snd st) + 3 * length cs \<le> length (fst st)"
  shows "\<exists>st'. enc_symbols cs st = Some st' \<and> enc_ready st' \<and> length (fst st') = length (fst st) \<and>
     abs_of st' = fold abs_step cs (abs_of st) \<and> fst (snd st') \<le> fst (snd st) + 3 * length cs"
  using assms
proof (induction cs arbitrary: st)
  case (Cons c cs)
  from Cons.prems have c: "cdf_pair_ok c" and room: "fst (snd st) + 3 \<le> length (fst st)" by auto
  from enc_symbol_refines [OF Cons.prems(1) c room] obtain st1 where
    st1: "enc_symbol (fst c) (snd c) st = Some st1" "enc_ready st1"
    "length (fst st1) = length (fst st)" "abs_of st1 = abs_step c (abs_of st)"
    "fst (snd st1) \<le> fst (snd st) + 3" by auto
  have "fst (snd st1) + 3 * length cs \<le> length (fst st1)" using st1 Cons.prems(3) by simp
  from Cons.IH [OF st1(2) _ this] Cons.prems(2) st1 show ?case by fastforce
qed simp

lemma enc_hist_loop_eq:
  "k = length data \<Longrightarrow> length cdf = length data \<Longrightarrow>
   enc_hist_loop k data cdf st = enc_symbols (map2 (\<lambda>t d. (t ! d, t ! (d + 1))) cdf data) st"
proof (induction data arbitrary: k cdf st)
  case (Cons d data)
  then obtain t ts where "cdf = t # ts" by (cases cdf) auto
  with Cons show ?case by (auto split: option.split)
qed simp

subsection \<open>Codes that lie in an interval\<close>

definition decodes :: "int list \<Rightarrow> interval \<Rightarrow> bool" where
  "decodes s = (\<lambda>(p, low, W). p + 4 \<le> length s \<and>
     low \<le> bval (take (p + 4) s) \<and> bval (take (p + 4) s) \<le> low + W)"

lemma bval_take_add:
  assumes "bytes_ok s" "n + m \<le> length s"
  defines "r \<equiv> bval (take m (drop n s))"
  shows "bval (take (n + m) s) = bval (take n s) * 256 ^ m + r" "0 \<le> r" "r < 256 ^ m"
proof -
  have "take (n + m) s = take n s @ take m (drop n s)" by (rule take_add)
  moreover have "length (take m (drop n s)) = m" using assms(2) by simp
  ultimately show "bval (take (n + m) s) = bval (take n s) * 256 ^ m + r"
    by (simp add: bval_append r_def)
  have "bytes_ok (take m (drop n s))" using assms(1) by (intro bytes_ok_take bytes_ok_drop)
  from bval_range [OF this] show "0 \<le> r" "r < 256 ^ m"
    using assms(2) by (simp_all add: r_def)
qed

lemma scaled_between:
  fixes x a b r M :: int
  assumes "a * M \<le> x * M + r" "x * M + r \<le> b * M" "0 \<le> r" "r < M"
  shows "a \<le> x" "x \<le> b"
proof -
  have M: "0 < M" using assms by simp
  have "a * M < (x + 1) * M" using assms by (simp add: algebra_simps)
  then show "a \<le> x" using M by simp
  have "x * M \<le> b * M" using assms by linarith
  then show "x \<le> b" using M by simp
qed

lemma abs_step_width:
  assumes "width_ok st" "cdf_pair_ok c"
  shows "width_ok (abs_step c st)"
proof -
  obtain p low W where st: "st = (p, low, W)" by (cases st)
  have "254 \<le> W * snd c div 65536 - W * fst c div 65536 - 1"
    "W * snd c div 65536 - W * fst c div 65536 - 1 < 4294967296"
    using interval_shrinks [of W "fst c" "snd c"] assms
    by (auto simp: cdf_pair_ok_def width_ok_def st)
  then show ?thesis
    by (auto simp: st abs_step_def Let_def split_def width_ok_def shift_count_def)
qed

lemma decodes_symbol:
  assumes s: "bytes_ok s" and W: "width_ok (p, low, W)" and c: "cdf_pair_ok (clo, chi)"
    and dec: "decodes s (abs_step (clo, chi) (p, low, W))"
  defines "X \<equiv> bval (take (p + 4) s) - low"
  shows "W * clo div 65536 < X" "X \<le> W * chi div 65536" "decodes s (p, low, W)"
proof -
  define lo hi where "lo = W * clo div 65536" and "hi = W * chi div 65536"
  define m where "m = shift_count (hi - lo - 1)"
  have sh: "lo + 255 \<le> hi" "hi < W" "0 \<le> lo"
    using interval_shrinks [of W clo chi] W c by (auto simp: lo_def hi_def width_ok_def cdf_pair_ok_def)
  have st: "abs_step (clo, chi) (p, low, W) = (p + m, (low + lo + 1) * 256 ^ m, (hi - lo - 1) * 256 ^ m)"
    by (simp add: abs_step_def Let_def lo_def hi_def m_def)
  have len: "p + m + 4 \<le> length s"
    and in1: "(low + lo + 1) * 256 ^ m \<le> bval (take (p + m + 4) s)"
    and in2: "bval (take (p + m + 4) s) \<le> (low + hi) * 256 ^ m"
    using dec by (simp_all add: st decodes_def algebra_simps)
  have eq: "p + m + 4 = (p + 4) + m" by simp
  have len': "p + 4 + m \<le> length s" using len by simp
  note b = bval_take_add [OF s len']
  have "low + lo + 1 \<le> bval (take (p + 4) s)" "bval (take (p + 4) s) \<le> low + hi"
    using scaled_between [of "low + lo + 1" "256 ^ m" "bval (take (p + 4) s)"
        "bval (take m (drop (p + 4) s))" "low + hi"] in1 in2 b unfolding eq by auto
  then show "W * clo div 65536 < X" "X \<le> W * chi div 65536" "decodes s (p, low, W)"
    using sh len by (auto simp: X_def decodes_def lo_def hi_def)
qed

lemma decodes_symbols:
  assumes "bytes_ok s" "width_ok st" "\<forall>c\<in>set cs. cdf_pair_ok c" "decodes s (fold abs_step cs st)"
  shows "decodes s st"
  using assms
proof (induction cs arbitrary: st)
  case (Cons c cs)
  obtain p low W where st: "st = (p, low, W)" by (cases st)
  have c: "cdf_pair_ok c" using Cons.prems by simp
  have "width_ok (abs_step c st)" using Cons.prems c by (intro abs_step_width) auto
  with Cons.IH [of "abs_step c st"] Cons.prems have "decodes s (abs_step c st)" by simp
  then show ?case
    using decodes_symbol(3) [of s p low W "fst c" "snd c"] Cons.prems c by (simp add: st)
qed simp

subsection \<open>Decoding one symbol\<close>

lemma or_low_byte:
  assumes "0 \<le> b" "b < 256"
  shows "(x * 256) OR b = x * 256 + (b::int)"
proof -
  have "take_bit 8 b = b" using assms by (simp add: take_bit_eq_mod)
  then have "bit b n \<Longrightarrow> n < 8" for n by (metis bit_take_bit_iff)
  then have "\<not> bit (push_bit 8 x) n \<or> \<not> bit b n" for n
    by (metis bit_push_bit_iff not_le)
  then have "push_bit 8 x OR b = push_bit 8 x + b" by (metis disjunctive_add)
  then show ?thesis by (simp add: push_bit_eq_mult)
qed

lemma dec_renorm_correct:
  assumes "bytes_ok s" "0 < W" "W < 4294967296" "0 \<le> X"
    and "p + shift_count W < length s"
    and "X * 256 ^ shift_count W + bval (take (shift_count W) (drop (p + 1) s)) < 4294967296"
  shows "dec_renorm s p W X = Some (p + shift_count W, W * 256 ^ shift_count W,
     X * 256 ^ shift_count W + bval (take (shift_count W) (drop (p + 1) s)))"
  using assms
proof (induction s p W X rule: dec_renorm.induct)
  case (1 s p W X)
  show ?case
  proof (cases "W < 16777216")
    case False
    then have "shift_count W = 0" by (simp add: shift_count_def)
    then show ?thesis
      using False "1.prems" high_byte_clear [of W] by (subst dec_renorm.simps) simp
  next
    case True
    note sc = shift_count_step [OF True "1.prems"(2)]
    define n where "n = shift_count (W * 256)"
    have p: "p + 1 < length s" using "1.prems"(5) sc by simp
    define b where "b = s ! (p + 1)"
    have b: "0 \<le> b" "b < 256" using bytes_ok_nth [OF "1.prems"(1) p] by (simp_all add: b_def)
    have dr: "drop (p + 1) s = b # drop (p + 2) s"
      using p by (simp add: b_def Cons_nth_drop_Suc)
    have ln: "length (take n (drop (p + 2) s)) = n"
      using "1.prems"(5) sc by (simp add: n_def)
    have tail: "0 \<le> bval (take n (drop (p + 2) s))"
      using bval_range [of "take n (drop (p + 2) s)"] "1.prems"(1) by (simp add: bytes_ok_take bytes_ok_drop)
    have val: "X * 256 ^ shift_count W + bval (take (shift_count W) (drop (p + 1) s)) =
        (X * 256 + b) * 256 ^ n + bval (take n (drop (p + 2) s))"
      unfolding dr sc n_def [symmetric] using ln by (simp add: algebra_simps)
    have "1 * 1 \<le> (256::int) ^ n" by simp
    then have "(X * 256 + b) * 1 \<le> (X * 256 + b) * 256 ^ n"
      using "1.prems"(4) b by (intro mult_left_mono) auto
    moreover have "(X * 256 + b) * 256 ^ n + bval (take n (drop (p + 2) s)) < 4294967296"
      using "1.prems"(6) unfolding val .
    ultimately have X: "X * 256 + b < 4294967296"
      using tail unfolding mult_1_right by (meson add_increasing2 le_less_trans)
    have u: "u32 (W * 2 ^ 8) = W * 256" "u32 (X * 2 ^ 8) OR s ! (p + 1) = X * 256 + b"
      using True "1.prems"(2,4) X b by (simp_all add: u32_idI or_low_byte b_def)
    have clear: "W AND 0xFF000000 = 0" using True "1.prems" high_byte_clear [of W] by simp
    have step: "dec_renorm s p W X = dec_renorm s (p + 1) (W * 256) (X * 256 + b)"
      using clear p u by (subst dec_renorm.simps) (simp add: b_def)
    have "dec_renorm s (p + 1) (W * 256) (X * 256 + b) =
        Some (p + 1 + n, W * 256 * 256 ^ n, (X * 256 + b) * 256 ^ n + bval (take n (drop (p + 1 + 1) s)))"
      unfolding n_def
      using "1.IH" [OF clear p, unfolded u] "1.prems" True sc b val unfolding n_def [symmetric] by simp
    then show ?thesis
      unfolding step val unfolding sc n_def [symmetric] by simp
  qed
qed

lemma decode_renorm_step:
  assumes s: "bytes_ok s" and W: "width_ok (p, low, W)" and c: "cdf_pair_ok (clo, chi)"
    and dec: "decodes s (abs_step (clo, chi) (p, low, W))"
  defines "X \<equiv> bval (take (p + 4) s) - low" and "lo \<equiv> W * clo div 65536" and "hi \<equiv> W * chi div 65536"
    and "st' \<equiv> abs_step (clo, chi) (p, low, W)"
  shows "dec_renorm s (p + 3) (u32 (hi - u32 (lo + 1))) (u32 (X - u32 (lo + 1))) =
    Some (fst st' + 3, snd (snd st'), bval (take (fst st' + 4) s) - fst (snd st'))"
proof -
  define W2 m where "W2 = hi - lo - 1" and "m = shift_count (hi - lo - 1)"
  have st: "st' = (p + m, (low + lo + 1) * 256 ^ m, W2 * 256 ^ m)"
    by (simp add: st'_def abs_step_def Let_def lo_def hi_def m_def W2_def)
  have sh: "lo + 255 \<le> hi" "hi < W" "0 \<le> lo" and Wb: "W < 4294967296"
    using interval_shrinks [of W clo chi] W c by (auto simp: lo_def hi_def width_ok_def cdf_pair_ok_def)
  have X: "lo < X" "X \<le> hi"
    using decodes_symbol(1,2) [OF s W c dec] by (simp_all add: X_def lo_def hi_def)
  have u: "u32 (lo + 1) = lo + 1" "u32 (hi - (lo + 1)) = W2" "u32 (X - (lo + 1)) = X - lo - 1"
    using sh Wb X by (auto simp: W2_def u32_idI)
  have len: "p + m + 4 \<le> length s" and top: "bval (take (p + m + 4) s) \<le> (low + lo + 1) * 256 ^ m + W2 * 256 ^ m"
    using dec unfolding st'_def [symmetric] st by (simp_all add: decodes_def)
  have len': "p + 4 + m \<le> length s" using len by simp
  have "p + m + 4 = p + 4 + m" by simp
  then have F: "bval (take (p + m + 4) s) - (low + lo + 1) * 256 ^ m =
      (X - lo - 1) * 256 ^ m + bval (take m (drop (p + 3 + 1) s))"
    using bval_take_add(1) [OF s len'] by (simp add: X_def algebra_simps)
  have "width_ok st'" unfolding st'_def by (rule abs_step_width [OF W c])
  then have "W2 * 256 ^ m < 4294967296" by (simp add: st width_ok_def)
  then have "(X - lo - 1) * 256 ^ m + bval (take m (drop (p + 3 + 1) s)) < 4294967296"
    using top unfolding F [symmetric] by simp
  then have "dec_renorm s (p + 3) W2 (X - lo - 1) =
      Some (p + 3 + m, W2 * 256 ^ m, (X - lo - 1) * 256 ^ m + bval (take m (drop (p + 3 + 1) s)))"
    using dec_renorm_correct [OF s, of W2 "X - lo - 1" "p + 3"] sh Wb X len
    by (simp add: m_def W2_def)
  then show ?thesis unfolding u st by (simp add: F)
qed

subsection \<open>Termination of the stream\<close>

lemma tail_bytes_code:
  assumes "bytes_ok B" "n \<le> q" "q \<le> length B" "take n B = take n s'" "n \<le> length s'"
  shows "\<exists>t. bval (take q B) = bval (take n s') * 256 ^ (q - n) + t \<and> 0 \<le> t \<and> t < 256 ^ (q - n)"
proof -
  have "n + (q - n) \<le> length B" using assms(2,3) by simp
  from bval_take_add [OF assms(1) this] assms(2,4) show ?thesis
    by (intro exI [of _ "bval (take (q - n) (drop n B))"]) simp
qed

lemma EncTerminate_correct:
  assumes ready: "enc_ready (stream b, stream_index b, W_upper b, streamval b)"
    and room: "stream_index b + 2 \<le> length (stream b)"
  defines "n \<equiv> stream_index b + (if W_upper b > 0x01FFFFFF then 1 else 2)"
  shows "\<exists>b'. WebRtcIsac_EncTerminate b = Some (n, b') \<and> length (stream b') = length (stream b) \<and>
     bytes_ok (stream b') \<and>
     (\<forall>B. bytes_ok B \<and> stream_index b + 4 \<le> length B \<and> take n B = take n (stream b') \<longrightarrow>
       decodes B (abs_of (stream b, stream_index b, W_upper b, streamval b)))"
proof -
  define s p W v where "s = stream b" and "p = stream_index b" and "W = W_upper b" and "v = streamval b"
  have W: "16777216 \<le> W" "W < 4294967296" and st: "bytes_ok s" "p \<le> length s" "0 \<le> v" "v < 4294967296"
    and low: "low_of s p v + W < 256 ^ (p + 4)"
    using ready by (auto simp: enc_ready_def enc_inv_def s_def p_def W_def v_def)
  have p2: "p + 2 \<le> length s" using room by (simp add: s_def p_def)
  show ?thesis
  proof (cases "W > 0x01FFFFFF")
    case True
    define val where "val = u32 (v + 0x01000000)"
    obtain s1 where s1: "(if val < 0x01000000 then propagate_carry p s else Some s) = Some s1"
      "length s1 = length s" "bytes_ok s1" "0 \<le> val" "val < 4294967296"
      "low_of s1 p val = low_of s p v + 0x01000000"
      using low_of_add [OF st, of "0x01000000" W] low True by (auto simp: val_def)
    define s2 where "s2 = s1[p := u8 (shr val 24)]"
    have p: "p < length s1" using p2 s1(2) by simp
    have result: "WebRtcIsac_EncTerminate b = Some (p + 1, b\<lparr>stream := s2, streamval := val\<rparr>)"
      unfolding WebRtcIsac_EncTerminate_def Let_def s_def [symmetric] p_def [symmetric]
        W_def [symmetric] v_def [symmetric] val_def [symmetric] s1(1)
      using True p by (simp add: write_byte_def s2_def)
    have d: "0 \<le> val div 16777216" "val div 16777216 < 256"
      using s1(4,5) by (auto intro!: int_div_less simp: pos_imp_zdiv_nonneg_iff)
    have top: "bval (take (p + 1) s2) = bval (take p s1) * 256 + val div 16777216"
      using p d by (simp add: s2_def bval_take_Suc u8_def shr_def)
    have "decodes B (p, low_of s p v, W)"
      if B: "bytes_ok B" "p + 4 \<le> length B" "take (p + 1) B = take (p + 1) s2" for B
    proof -
      obtain t where t: "bval (take (p + 4) B) = bval (take (p + 1) s2) * 256 ^ (p + 4 - (p + 1)) + t"
        "0 \<le> t" "t < 256 ^ (p + 4 - (p + 1))"
        using tail_bytes_code [OF B(1) _ B(2,3)] p by (auto simp: s2_def)
      have "bval (take (p + 4) B) = low_of s1 p val - val mod 16777216 + t"
        using t(1) minus_mod_eq_div_mult [of val 16777216] unfolding top low_of_def by simp
      moreover have "0 \<le> val mod 16777216" "val mod 16777216 < 16777216" "t < 16777216" using t(3) by simp_all
      ultimately show ?thesis
        unfolding decodes_def prod.case s1(6) using t(2) True B(2) by (intro conjI) linarith+
    qed
    moreover have "bytes_ok s2" using s1(3) by (simp add: s2_def bytes_ok_update u8_range)
    ultimately show ?thesis
      using result True s1(2) unfolding n_def
      by (simp add: s2_def abs_of_def flip: s_def p_def W_def v_def)
  next
    case False
    define val where "val = u32 (v + 0x00010000)"
    obtain s1 where s1: "(if val < 0x00010000 then propagate_carry p s else Some s) = Some s1"
      "length s1 = length s" "bytes_ok s1" "0 \<le> val" "val < 4294967296"
      "low_of s1 p val = low_of s p v + 0x00010000"
      using low_of_add [OF st, of "0x00010000" W] low W by (auto simp: val_def)
    define s2 where "s2 = s1[p := u8 (shr val 24), p + 1 := u8 (shr val 16 AND 0x00FF)]"
    have p: "p + 1 < length s1" using p2 s1(2) by simp
    have result: "WebRtcIsac_EncTerminate b = Some (p + 2, b\<lparr>stream := s2, streamval := val\<rparr>)"
      unfolding WebRtcIsac_EncTerminate_def Let_def s_def [symmetric] p_def [symmetric]
        W_def [symmetric] v_def [symmetric] val_def [symmetric] s1(1)
      using False p by (simp add: write_byte_def s2_def)
    have d: "0 \<le> val div 16777216" "val div 16777216 < 256"
      using s1(4,5) by (auto intro!: int_div_less simp: pos_imp_zdiv_nonneg_iff)
    have "bval (take (p + 2) s2) = (bval (take p s1) * 256 + val div 16777216) * 256 + val div 65536 mod 256"
      using p d by (simp add: s2_def bval_take_Suc u8_def shr_def and_ff numeral_2_eq_2)
    moreover have "val div 16777216 * 256 + val div 65536 mod 256 = val div 65536"
      using div_mult_mod_eq [of "val div 65536" 256] by (simp add: zdiv_zmult2_eq [symmetric])
    ultimately have top: "bval (take (p + 2) s2) = bval (take p s1) * 65536 + val div 65536" by simp
    have "decodes B (p, low_of s p v, W)"
      if B: "bytes_ok B" "p + 4 \<le> length B" "take (p + 2) B = take (p + 2) s2" for B
    proof -
      obtain t where t: "bval (take (p + 4) B) = bval (take (p + 2) s2) * 256 ^ (p + 4 - (p + 2)) + t"
        "0 \<le> t" "t < 256 ^ (p + 4 - (p + 2))"
        using tail_bytes_code [OF B(1) _ B(2,3)] p by (auto simp: s2_def)
      have "bval (take (p + 4) B) = low_of s1 p val - val mod 65536 + t"
        using t(1) minus_mod_eq_div_mult [of val 65536] unfolding top low_of_def by simp
      moreover have "0 \<le> val mod 65536" "val mod 65536 < 65536" "t < 65536" using t(3) by simp_all
      ultimately show ?thesis
        unfolding decodes_def prod.case s1(6) using t(2) W B(2) by (intro conjI) linarith+
    qed
    moreover have "bytes_ok s2" using s1(3) by (simp add: s2_def bytes_ok_update u8_range)
    ultimately show ?thesis
      using result False s1(2) unfolding n_def
      by (simp add: s2_def abs_of_def flip: s_def p_def W_def v_def)
  qed
qed

subsection \<open>The interface: searching a symbol\<close>

text \<open>What the decoders promise of their table searches: the search for a value that lies in the
  interval of a valid symbol returns that symbol with the bounds of its interval. From this follows
  that one round of a decoder undoes one round of the encoder.\<close>

locale symbol_search =
  fixes search :: "'t \<Rightarrow> int \<Rightarrow> int \<Rightarrow> int \<Rightarrow> found"
    and pair :: "'t \<Rightarrow> 'd \<Rightarrow> int \<times> int"
    and code :: "'d \<Rightarrow> int"
    and valid :: "'t \<Rightarrow> 'd \<Rightarrow> bool"
  assumes pair_ok: "valid t d \<Longrightarrow> cdf_pair_ok (pair t d)"
    and search_finds: "valid t d \<Longrightarrow> 16777216 \<le> W \<Longrightarrow> W < 4294967296 \<Longrightarrow>
      W * fst (pair t d) div 65536 < X \<Longrightarrow> X \<le> W * snd (pair t d) div 65536 \<Longrightarrow>
      search t Wl W X = Found (code d) (W * fst (pair t d) div 65536) (W * snd (pair t d) div 65536)"
begin

lemma decode_one:
  assumes "bytes_ok s" "width_ok (p, low, W)" "valid t d"
    and "decodes s (abs_step (pair t d) (p, low, W))"
  defines "st' \<equiv> abs_step (pair t d) (p, low, W)"
  shows "\<exists>lo hi. search t Wl W (bval (take (p + 4) s) - low) = Found (code d) lo hi \<and>
    dec_renorm s (p + 3) (u32 (hi - u32 (lo + 1))) (u32 (bval (take (p + 4) s) - low - u32 (lo + 1))) =
      Some (fst st' + 3, snd (snd st'), bval (take (fst st' + 4) s) - fst (snd st'))"
proof -
  obtain clo chi where p: "pair t d = (clo, chi)" by fastforce
  have c: "cdf_pair_ok (clo, chi)" using pair_ok [OF assms(3)] p by simp
  have dec: "decodes s (abs_step (clo, chi) (p, low, W))" using assms(4) p by simp
  note x = decodes_symbol(1,2) [OF assms(1,2) c dec]
  have W: "16777216 \<le> W" "W < 4294967296" using assms(2) by (simp_all add: width_ok_def)
  from search_finds [OF assms(3) W, of "bval (take (p + 4) s) - low" Wl] x p
  have "search t Wl W (bval (take (p + 4) s) - low) =
      Found (code d) (W * clo div 65536) (W * chi div 65536)" by simp
  with decode_renorm_step [OF assms(1,2) c dec] show ?thesis
    by (auto simp: st'_def p)
qed

lemma pairs_ok: "list_all2 valid ts ds \<Longrightarrow> \<forall>c\<in>set (map2 pair ts ds). cdf_pair_ok c"
  by (auto simp: list_all2_conv_all_nth in_set_conv_nth pair_ok)

end

subsection \<open>The searches are correct\<close>

definition table_ok :: "int list \<Rightarrow> bool" where
  "table_ok cdf \<longleftrightarrow> sorted_wrt (<) cdf \<and> (\<forall>c\<in>set cdf. 0 \<le> c \<and> c \<le> 65535)"

definition table_pair :: "int list \<Rightarrow> nat \<Rightarrow> int \<times> int" where
  "table_pair cdf d = (cdf ! d, cdf ! (d + 1))"

lemma table_pair_ok: "table_ok cdf \<Longrightarrow> d + 1 < length cdf \<Longrightarrow> cdf_pair_ok (table_pair cdf d)"
  by (auto simp: table_ok_def cdf_pair_ok_def table_pair_def sorted_wrt_iff_nth_less)

lemma scale_table_mono:
  assumes "table_ok cdf" "i \<le> j" "j < length cdf" "0 \<le> W" "W < 4294967296"
  shows "scale_cdf W (cdf ! i) \<le> scale_cdf W (cdf ! j)"
    "scale_cdf W (cdf ! i) = W * cdf ! i div 65536"
proof -
  have c: "0 \<le> cdf ! i" "cdf ! i \<le> 65535" "0 \<le> cdf ! j" "cdf ! j \<le> 65535"
    using assms(1-3) by (auto simp: table_ok_def)
  have "cdf ! i \<le> cdf ! j"
    using assms(1-3) by (cases "i = j") (auto simp: table_ok_def sorted_wrt_iff_nth_less intro!: less_imp_le)
  then have "W * cdf ! i div 65536 \<le> W * cdf ! j div 65536"
    using assms(4) by (intro zdiv_mono1 mult_left_mono) auto
  then show "scale_cdf W (cdf ! i) \<le> scale_cdf W (cdf ! j)"
    "scale_cdf W (cdf ! i) = W * cdf ! i div 65536"
    using c assms(4,5) by (simp_all add: scale_cdf_eq)
qed

text \<open>A value in the interval of symbol \<open>d\<close> is above the scaled entry \<open>j\<close> iff \<open>j \<le> d\<close>.\<close>

lemma value_above_entry:
  assumes "table_ok cdf" "d + 1 < length cdf" "j < length cdf" "0 \<le> W" "W < 4294967296"
    and "scale_cdf W (cdf ! d) < X" "X \<le> scale_cdf W (cdf ! (d + 1))"
  shows "scale_cdf W (cdf ! j) < X \<longleftrightarrow> j \<le> d"
proof
  assume "scale_cdf W (cdf ! j) < X"
  show "j \<le> d"
  proof (rule ccontr)
    assume "\<not> j \<le> d"
    then have "scale_cdf W (cdf ! (d + 1)) \<le> scale_cdf W (cdf ! j)"
      using assms(1,3-5) by (intro scale_table_mono) auto
    with \<open>scale_cdf W (cdf ! j) < X\<close> assms(7) show False by simp
  qed
next
  assume "j \<le> d"
  then have "scale_cdf W (cdf ! j) \<le> scale_cdf W (cdf ! d)"
    using assms(1,2,4,5) by (intro scale_table_mono) auto
  with assms(6) show "scale_cdf W (cdf ! j) < X" by simp
qed

lemma bisect_loop_correct:
  assumes t: "table_ok cdf" "d + 1 < length cdf" "0 \<le> W" "W < 4294967296"
    and X: "scale_cdf W (cdf ! d) < X" "X \<le> scale_cdf W (cdf ! (d + 1))"
    and size: "size_tmp = 2 ^ j" and L: "-1 \<le> ptr - int size_tmp" "ptr + int size_tmp \<le> int (length cdf)"
    and d: "ptr - int size_tmp \<le> int d" "int d + 1 \<le> ptr + int size_tmp"
    and Wl: "0 \<le> ptr - int size_tmp \<Longrightarrow> W_lower = scale_cdf W (cdf ! nat (ptr - int size_tmp))"
    and Wu: "ptr + int size_tmp < int (length cdf) \<Longrightarrow> W_up = scale_cdf W (cdf ! nat (ptr + int size_tmp))"
  shows "bisect_loop cdf W X size_tmp ptr W_lower W_up =
    Found (int d) (scale_cdf W (cdf ! d)) (scale_cdf W (cdf ! (d + 1)))"
  using size L d Wl Wu
proof (induction j arbitrary: size_tmp ptr W_lower W_up)
  case 0
  then have p: "0 \<le> ptr" "ptr < int (length cdf)" by auto
  have above: "scale_cdf W (cdf ! nat ptr) < X \<longleftrightarrow> nat ptr \<le> d"
    using p by (intro value_above_entry [OF t(1,2) _ t(3,4) X]) auto
  show ?case
  proof (cases "nat ptr \<le> d")
    case True
    then have "ptr = int d" using 0 p by auto
    then show ?thesis using above True "0.prems" p t(2)
      by (subst bisect_loop.simps) (simp add: Let_def nat_add_distrib)
  next
    case False
    then have "ptr = int d + 1" using 0 p by auto
    then show ?thesis using above False "0.prems" p t(2)
      by (subst bisect_loop.simps) (simp add: Let_def nat_add_distrib)
  qed
next
  case (Suc j)
  define h where "h = size_tmp div 2"
  have h: "h = 2 ^ j" "size_tmp = 2 * h" "h \<noteq> 0" using Suc.prems(1) by (auto simp: h_def)
  have p: "0 \<le> ptr" "ptr < int (length cdf)" using Suc.prems(2,3) h(2,3) by linarith+
  have above: "scale_cdf W (cdf ! nat ptr) < X \<longleftrightarrow> nat ptr \<le> d"
    using p by (intro value_above_entry [OF t(1,2) _ t(3,4) X]) auto
  show ?case
  proof (cases "nat ptr \<le> d")
    case True
    have "bisect_loop cdf W X h (ptr + int h) (scale_cdf W (cdf ! nat ptr)) W_up =
        Found (int d) (scale_cdf W (cdf ! d)) (scale_cdf W (cdf ! (d + 1)))"
      using Suc.prems True h p by (intro Suc.IH) (auto simp: algebra_simps)
    then show ?thesis
      using True above p h(3) by (subst bisect_loop.simps) (simp add: Let_def flip: h_def)
  next
    case False
    have "bisect_loop cdf W X h (ptr - int h) W_lower (scale_cdf W (cdf ! nat ptr)) =
        Found (int d) (scale_cdf W (cdf ! d)) (scale_cdf W (cdf ! (d + 1)))"
      using Suc.prems False h p by (intro Suc.IH) (auto simp: algebra_simps)
    then show ?thesis
      using False above p h(3) by (subst bisect_loop.simps) (simp add: Let_def flip: h_def)
  qed
qed

lemma bisect_correct:
  assumes "table_ok cdf" "d + 1 < length cdf" "0 \<le> W" "W < 4294967296"
    and "scale_cdf W (cdf ! d) < X" "X \<le> scale_cdf W (cdf ! (d + 1))"
    and "cdf_size = 2 ^ k" "length cdf = 2 ^ k - 1"
  shows "bisect cdf cdf_size W_lower W X =
    Found (int d) (scale_cdf W (cdf ! d)) (scale_cdf W (cdf ! (d + 1)))"
proof -
  obtain j where k: "k = Suc j" using assms(2,8) by (cases k) auto
  have len: "int (length cdf) = 2 * 2 ^ j - 1" using assms(8) k by (simp add: of_nat_diff)
  have "bisect_loop cdf W X (2 ^ j) (int (2 ^ j) - 1) W_lower W =
      Found (int d) (scale_cdf W (cdf ! d)) (scale_cdf W (cdf ! (d + 1)))"
    using assms(2) len by (intro bisect_loop_correct [OF assms(1-6) refl]) auto
  then show ?thesis by (simp add: bisect_def assms(7) k Let_def)
qed

lemma step_up_correct:
  assumes t: "table_ok cdf" "d + 1 < length cdf" "0 \<le> W" "W < 4294967296"
    and X: "scale_cdf W (cdf ! d) < X" "X \<le> scale_cdf W (cdf ! (d + 1))"
    and "ptr \<le> d" "W_tmp = scale_cdf W (cdf ! ptr)"
  shows "step_up cdf W X ptr W_tmp = Found (int d) (scale_cdf W (cdf ! d)) (scale_cdf W (cdf ! (d + 1)))"
  using assms(7,8)
proof (induction "d - ptr" arbitrary: ptr W_tmp)
  case 0
  then have p: "ptr = d" by simp
  have "cdf ! d < cdf ! (d + 1)" "cdf ! (d + 1) \<le> 65535"
    using t(1,2) by (auto simp: table_ok_def sorted_wrt_iff_nth_less)
  then show ?case
    using p 0 t(2) X(2) by (subst step_up.simps) (simp add: Let_def)
next
  case (Suc n)
  then have lt: "ptr < d" by simp
  have "cdf ! ptr < cdf ! d" "cdf ! d \<le> 65535"
    using t(1,2) lt by (auto simp: table_ok_def sorted_wrt_iff_nth_less)
  moreover have "scale_cdf W (cdf ! (ptr + 1)) < X"
    using value_above_entry [OF t(1,2) _ t(3,4) X, of "ptr + 1"] lt t(2) by simp
  moreover have "step_up cdf W X (ptr + 1) (scale_cdf W (cdf ! (ptr + 1))) =
      Found (int d) (scale_cdf W (cdf ! d)) (scale_cdf W (cdf ! (d + 1)))"
    using Suc.hyps(2) lt by (intro Suc.hyps(1)) auto
  ultimately show ?case
    using lt t(2) by (subst step_up.simps) (simp add: Let_def)
qed

lemma step_down_correct:
  assumes t: "table_ok cdf" "d + 1 < length cdf" "0 \<le> W" "W < 4294967296"
    and X: "scale_cdf W (cdf ! d) < X" "X \<le> scale_cdf W (cdf ! (d + 1))"
    and "d + 1 \<le> ptr" "ptr < length cdf" "W_tmp = scale_cdf W (cdf ! ptr)"
  shows "step_down cdf W X ptr W_tmp = Found (int d) (scale_cdf W (cdf ! d)) (scale_cdf W (cdf ! (d + 1)))"
  using assms(7-9)
proof (induction ptr arbitrary: W_tmp)
  case (Suc ptr)
  have "scale_cdf W (cdf ! ptr) < X \<longleftrightarrow> ptr \<le> d"
    using value_above_entry [OF t(1,2) _ t(3,4) X, of ptr] Suc.prems by simp
  then show ?case
    using Suc by (cases "ptr = d") (auto simp: Let_def)
qed simp

lemma one_step_correct:
  assumes "table_ok cdf" "d + 1 < length cdf" "0 \<le> W" "W < 4294967296"
    and "scale_cdf W (cdf ! d) < X" "X \<le> scale_cdf W (cdf ! (d + 1))" and "i < length cdf"
  shows "one_step cdf i W X = Found (int d) (scale_cdf W (cdf ! d)) (scale_cdf W (cdf ! (d + 1)))"
proof -
  have "scale_cdf W (cdf ! i) < X \<longleftrightarrow> i \<le> d"
    using assms(7) by (intro value_above_entry [OF assms(1,2) _ assms(3-6)])
  then show ?thesis
    using assms(7) step_up_correct [OF assms(1-6)] step_down_correct [OF assms(1-6)]
    by (simp add: one_step_def Let_def)
qed

definition bisect_valid :: "int list \<times> nat \<Rightarrow> nat \<Rightarrow> bool" where
  "bisect_valid t d \<longleftrightarrow> table_ok (fst t) \<and> d + 1 < length (fst t) \<and>
     (\<exists>k. snd t = 2 ^ k \<and> length (fst t) = 2 ^ k - 1)"

definition one_step_valid :: "int list \<times> nat \<Rightarrow> nat \<Rightarrow> bool" where
  "one_step_valid t d \<longleftrightarrow> table_ok (fst t) \<and> d + 1 < length (fst t) \<and> snd t < length (fst t)"

lemma table_pair_scaled:
  assumes "table_ok cdf" "d + 1 < length cdf" "0 \<le> W" "W < 4294967296"
  shows "scale_cdf W (cdf ! d) = W * fst (table_pair cdf d) div 65536"
    "scale_cdf W (cdf ! (d + 1)) = W * snd (table_pair cdf d) div 65536"
  using scale_table_mono(2) [of cdf d d W] scale_table_mono(2) [of cdf "d + 1" "d + 1" W] assms
  by (simp_all add: table_pair_def)

interpretation bisect_search: symbol_search
  "\<lambda>t Wl W X. bisect (fst t) (snd t) Wl W X" "\<lambda>t. table_pair (fst t)" int bisect_valid
proof
  fix t :: "int list \<times> nat" and d W X Wl
  assume v: "bisect_valid t d"
  then show "cdf_pair_ok (table_pair (fst t) d)" by (simp add: bisect_valid_def table_pair_ok)
  assume W: "16777216 \<le> W" "W < 4294967296"
    and X: "W * fst (table_pair (fst t) d) div 65536 < X" "X \<le> W * snd (table_pair (fst t) d) div 65536"
  obtain k where k: "snd t = 2 ^ k" "length (fst t) = 2 ^ k - 1" and t: "table_ok (fst t)" "d + 1 < length (fst t)"
    using v by (auto simp: bisect_valid_def)
  have W0: "0 \<le> W" using W by simp
  note sc = table_pair_scaled [OF t W0 W(2)]
  show "bisect (fst t) (snd t) Wl W X = Found (int d)
      (W * fst (table_pair (fst t) d) div 65536) (W * snd (table_pair (fst t) d) div 65536)"
    using bisect_correct [OF t W0 W(2) _ _ k] X unfolding sc by blast
qed

interpretation one_step_search: symbol_search
  "\<lambda>t Wl W X. one_step (fst t) (snd t) W X" "\<lambda>t. table_pair (fst t)" int one_step_valid
proof
  fix t :: "int list \<times> nat" and d W X
  assume v: "one_step_valid t d"
  then show "cdf_pair_ok (table_pair (fst t) d)" by (simp add: one_step_valid_def table_pair_ok)
  assume W: "16777216 \<le> W" "W < 4294967296"
    and X: "W * fst (table_pair (fst t) d) div 65536 < X" "X \<le> W * snd (table_pair (fst t) d) div 65536"
  have t: "table_ok (fst t)" "d + 1 < length (fst t)" and i: "snd t < length (fst t)"
    using v by (auto simp: one_step_valid_def)
  have W0: "0 \<le> W" using W by simp
  note sc = table_pair_scaled [OF t W0 W(2)]
  show "one_step (fst t) (snd t) W X = Found (int d)
      (W * fst (table_pair (fst t) d) div 65536) (W * snd (table_pair (fst t) d) div 65536)"
    using one_step_correct [OF t W0 W(2) _ _ i] X unfolding sc by blast
qed

subsection \<open>The decoders\<close>

lemma or_disjoint:
  assumes "0 \<le> y" "y < 2 ^ k"
  shows "(x * 2 ^ k) OR y = x * 2 ^ k + (y::int)"
proof -
  have "take_bit k y = y" using assms by (simp add: take_bit_eq_mod)
  then have "bit y n \<Longrightarrow> n < k" for n by (metis bit_take_bit_iff)
  then have "\<not> bit (push_bit k x) n \<or> \<not> bit y n" for n
    by (metis bit_push_bit_iff not_le)
  then have "push_bit k x OR y = push_bit k x + y" by (metis disjunctive_add)
  then show ?thesis by (simp add: push_bit_eq_mult)
qed

lemma read_first_word_eq:
  assumes "bytes_ok s" "4 \<le> length s"
  shows "read_first_word s 0 = Some (bval (take 4 s), 3)"
proof -
  obtain a b c d r where s: "s = a # b # c # d # r"
    using assms(2) by (metis One_nat_def Suc_le_length_iff eval_nat_numeral(2,3) numeral_eq_one_iff
        semiring_norm(26,27,28))
  then have r: "0 \<le> a" "a < 256" "0 \<le> b" "b < 256" "0 \<le> c" "c < 256" "0 \<le> d" "d < 256"
    using assms(1) by (auto simp: bytes_ok_def)
  have "a * 2 ^ 24 OR b * 2 ^ 16 = a * 2 ^ 24 + b * 2 ^ 16"
    using r by (intro or_disjoint) auto
  moreover have "(a * 2 ^ 8 + b) * 2 ^ 16 OR c * 2 ^ 8 = (a * 2 ^ 8 + b) * 2 ^ 16 + c * 2 ^ 8"
    using r by (intro or_disjoint) auto
  moreover have "((a * 2 ^ 8 + b) * 2 ^ 8 + c) * 2 ^ 8 OR d = ((a * 2 ^ 8 + b) * 2 ^ 8 + c) * 2 ^ 8 + d"
    using r by (intro or_disjoint) auto
  ultimately show ?thesis
    using r by (simp add: read_first_word_def s u32_idI algebra_simps)
qed

definition decoder_state :: "int list \<Rightarrow> interval \<Rightarrow> nat \<times> int \<times> int" where
  "decoder_state s = (\<lambda>(p, low, W). (p + 3, W, bval (take (p + 4) s) - low))"

definition table_pairs :: "int list list \<Rightarrow> nat list \<Rightarrow> (int \<times> int) list" where
  "table_pairs cdf data = map2 table_pair cdf data"

lemma table_pairs_ok:
  assumes "length cs = length data" "length ks = length data" "list_all2 V (zip cs ks) data"
    and "\<And>t d. V t d \<Longrightarrow> cdf_pair_ok (table_pair (fst t) d)"
  shows "\<forall>x\<in>set (table_pairs cs data). cdf_pair_ok x"
  using assms(1-3)
proof (induction data arbitrary: cs ks)
  case (Cons d data)
  then obtain c cs' k ks' where "cs = c # cs'" "ks = k # ks'" by (metis length_Suc_conv)
  with Cons assms(4) [of "(c, k)" d] show ?case by (auto simp: table_pairs_def)
qed (simp add: table_pairs_def)

lemma dec_bisect_loop_correct:
  assumes s: "bytes_ok s" and "width_ok st" "length cdf = length data" "length sizes = length data"
    and "list_all2 bisect_valid (zip cdf sizes) data"
    and "decodes s (fold abs_step (table_pairs cdf data) st)"
    and "decoder_state s st = (p, W, X)"
  shows "dec_bisect_loop (length data) cdf sizes s (p, Wl, W, X) =
    Some (map int data, Some (decoder_state s (fold abs_step (table_pairs cdf data) st)))"
  using assms(2-7)
proof (induction data arbitrary: cdf sizes st p Wl W X)
  case Nil
  then show ?case by (simp add: table_pairs_def)
next
  case (Cons d data)
  then obtain c cs k ks where eqs: "cdf = c # cs" "sizes = k # ks" by (metis length_Suc_conv)
  have v: "bisect_valid (c, k) d" using Cons.prems eqs by simp
  obtain i low W0 where st: "st = (i, low, W0)" by (cases st)
  have pwx: "p = i + 3" "W = W0" "X = bval (take (i + 4) s) - low"
    using Cons.prems(6) by (simp_all add: st decoder_state_def)
  define st' where "st' = abs_step (table_pair c d) st"
  have st'_ok: "width_ok st'"
    unfolding st'_def using Cons.prems(1) bisect_search.pair_ok [OF v] by (intro abs_step_width) auto
  have pairs: "\<forall>x\<in>set (table_pairs cs data). cdf_pair_ok x"
    using Cons.prems eqs by (intro table_pairs_ok [OF _ _ _ bisect_search.pair_ok, of cs data ks]) auto
  have dec: "decodes s (fold abs_step (table_pairs cs data) st')"
    using Cons.prems(5) by (simp add: table_pairs_def eqs st'_def)
  have "decodes s st'" by (rule decodes_symbols [OF s st'_ok pairs dec])
  then obtain lo hi where f: "bisect c k Wl W X = Found (int d) lo hi"
    "dec_renorm s p (u32 (hi - u32 (lo + 1))) (u32 (X - u32 (lo + 1))) = Some (decoder_state s st')"
    using bisect_search.decode_one [OF s _ v, of i low W0 Wl] Cons.prems(1)
    by (auto simp: st st'_def pwx decoder_state_def split_def)
  obtain p' W' X' where dst: "decoder_state s st' = (p', W', X')" by (metis prod_cases3)
  have "W' \<noteq> 0" using st'_ok dst by (auto simp: width_ok_def decoder_state_def split: prod.splits)
  moreover have "dec_bisect_loop (length data) cs ks s (p', u32 (lo + 1), W', X') =
      Some (map int data, Some (decoder_state s (fold abs_step (table_pairs cs data) st')))"
    using Cons.prems eqs by (intro Cons.IH [OF st'_ok _ _ _ dec dst]) auto
  ultimately show ?case
    using f dst by (simp add: eqs table_pairs_def Let_def st'_def)
qed

lemma dec_one_step_loop_correct:
  assumes s: "bytes_ok s" and "width_ok st" "length cdf = length data" "length sizes = length data"
    and "list_all2 one_step_valid (zip cdf sizes) data"
    and "decodes s (fold abs_step (table_pairs cdf data) st)"
    and "decoder_state s st = (p, W, X)"
  shows "dec_one_step_loop (length data) cdf sizes s (p, W, X) =
    Some (map int data, Some (decoder_state s (fold abs_step (table_pairs cdf data) st)))"
  using assms(2-7)
proof (induction data arbitrary: cdf sizes st p W X)
  case Nil
  then show ?case by (simp add: table_pairs_def)
next
  case (Cons d data)
  then obtain c cs k ks where eqs: "cdf = c # cs" "sizes = k # ks" by (metis length_Suc_conv)
  have v: "one_step_valid (c, k) d" using Cons.prems eqs by simp
  obtain i low W0 where st: "st = (i, low, W0)" by (cases st)
  have pwx: "p = i + 3" "W = W0" "X = bval (take (i + 4) s) - low"
    using Cons.prems(6) by (simp_all add: st decoder_state_def)
  define st' where "st' = abs_step (table_pair c d) st"
  have st'_ok: "width_ok st'"
    unfolding st'_def using Cons.prems(1) one_step_search.pair_ok [OF v] by (intro abs_step_width) auto
  have pairs: "\<forall>x\<in>set (table_pairs cs data). cdf_pair_ok x"
    using Cons.prems eqs by (intro table_pairs_ok [OF _ _ _ one_step_search.pair_ok, of cs data ks]) auto
  have dec: "decodes s (fold abs_step (table_pairs cs data) st')"
    using Cons.prems(5) by (simp add: table_pairs_def eqs st'_def)
  have "decodes s st'" by (rule decodes_symbols [OF s st'_ok pairs dec])
  then obtain lo hi where f: "one_step c k W X = Found (int d) lo hi"
    "dec_renorm s p (u32 (hi - u32 (lo + 1))) (u32 (X - u32 (lo + 1))) = Some (decoder_state s st')"
    using one_step_search.decode_one [OF s _ v, of i low W0] Cons.prems(1)
    by (auto simp: st st'_def pwx decoder_state_def split_def)
  obtain p' W' X' where dst: "decoder_state s st' = (p', W', X')" by (metis prod_cases3)
  have "dec_one_step_loop (length data) cs ks s (p', W', X') =
      Some (map int data, Some (decoder_state s (fold abs_step (table_pairs cs data) st')))"
    using Cons.prems eqs by (intro Cons.IH [OF st'_ok _ _ _ dec dst]) auto
  then show ?case
    using f dst by (simp add: eqs table_pairs_def Let_def st'_def)
qed

lemma first_decode:
  assumes "bytes_ok B" "4 \<le> length B"
  shows "start_decoder \<lparr>stream = B, W_upper = 0xFFFFFFFF, streamval = v, stream_index = 0\<rparr> =
    Some (bval (take 4 B), 3)"
  using read_first_word_eq [OF assms] by (simp add: start_decoder_def)

lemma enc_ready_initial:
  assumes "stream_index b = 0" "W_upper b = 0xFFFFFFFF" "streamval b = 0" "bytes_ok (stream b)"
  shows "enc_ready (stream b, stream_index b, W_upper b, streamval b)"
    "abs_of (stream b, stream_index b, W_upper b, streamval b) = (0, 0, 0xFFFFFFFF)"
  using assms by (simp_all add: enc_ready_def enc_inv_def low_of_def abs_of_def)

text \<open>Encoding and terminating gives a stream that decodes in the interval of the whole message.\<close>

lemma encode_message:
  assumes init: "stream_index b = 0" "W_upper b = 0xFFFFFFFF" "streamval b = 0" "bytes_ok (stream b)"
    and len: "length cdf = length data" "3 * length data + 4 \<le> length (stream b)"
    and ok: "\<forall>c\<in>set (table_pairs cdf data). cdf_pair_ok c"
  shows "\<exists>b1 n b2. WebRtcIsac_EncHistMulti b data cdf (length data) = Some b1 \<and>
    WebRtcIsac_EncTerminate b1 = Some (n, b2) \<and> stream_index b1 \<le> 3 * length data \<and>
    stream_index b1 < n \<and> n \<le> stream_index b1 + 2 \<and>
    length (stream b2) = length (stream b) \<and> bytes_ok (stream b2) \<and>
    (\<forall>B. bytes_ok B \<and> stream_index b1 + 4 \<le> length B \<and> take n B = take n (stream b2) \<longrightarrow>
      (let st = fold abs_step (table_pairs cdf data) (0, 0, 0xFFFFFFFF)
       in decodes B st \<and> int n = stream_bytes (fst st + 3) (snd (snd st))))"
proof -
  note ready = enc_ready_initial [OF init]
  let ?cs = "table_pairs cdf data"
  have lcs: "length ?cs = length data" using len by (simp add: table_pairs_def)
  have loop: "enc_hist_loop (length data) data cdf st = enc_symbols ?cs st" for st
    using enc_hist_loop_eq [OF refl len(1)] by (simp add: table_pairs_def table_pair_def [abs_def])
  obtain s p W v where st: "enc_symbols ?cs (stream b, stream_index b, W_upper b, streamval b) = Some (s, p, W, v)"
    "enc_ready (s, p, W, v)" "length s = length (stream b)" "p \<le> 3 * length data"
    "abs_of (s, p, W, v) = fold abs_step ?cs (0, 0, 0xFFFFFFFF)"
    using enc_symbols_refines [OF ready(1) ok] ready(2) len init(1) lcs
    by (fastforce simp: init)
  define b1 where "b1 = b\<lparr>stream := s, W_upper := W, streamval := v, stream_index := p\<rparr>"
  have enc: "WebRtcIsac_EncHistMulti b data cdf (length data) = Some b1"
    using st(1) by (simp add: WebRtcIsac_EncHistMulti_def loop b1_def)
  have b1: "(stream b1, stream_index b1, W_upper b1, streamval b1) = (s, p, W, v)"
    by (simp add: b1_def)
  define n where "n = p + (if W > 0x01FFFFFF then 1 else 2)"
  obtain b2 where b2: "WebRtcIsac_EncTerminate b1 = Some (n, b2)" "length (stream b2) = length s"
    "bytes_ok (stream b2)"
    "\<forall>B. bytes_ok B \<and> p + 4 \<le> length B \<and> take n B = take n (stream b2) \<longrightarrow> decodes B (abs_of (s, p, W, v))"
    using EncTerminate_correct [of b1] st(2-4) len(2) by (auto simp: b1_def n_def)
  have pos: "fst (fold abs_step ?cs (0, 0, 0xFFFFFFFF)) = p" "snd (snd (fold abs_step ?cs (0, 0, 0xFFFFFFFF))) = W"
    unfolding st(5) [symmetric] by (simp_all add: abs_of_def)
  have "int n = stream_bytes (p + 3) W" by (simp add: n_def stream_bytes_def)
  with enc b2 st(3,4) pos show ?thesis
    unfolding Let_def st(5) [symmetric]
    by (intro exI [of _ b1] exI [of _ n] exI [of _ b2]) (auto simp: b1_def n_def abs_of_def)
qed

lemma table_pairs_valid:
  "list_all2 bisect_valid (zip cdf sizes) data \<Longrightarrow> length cdf = length data \<Longrightarrow> length sizes = length data \<Longrightarrow>
   \<forall>c\<in>set (table_pairs cdf data). cdf_pair_ok c"
  "list_all2 one_step_valid (zip cdf sizes) data \<Longrightarrow> length cdf = length data \<Longrightarrow> length sizes = length data \<Longrightarrow>
   \<forall>c\<in>set (table_pairs cdf data). cdf_pair_ok c"
  using table_pairs_ok [OF _ _ _ bisect_search.pair_ok] table_pairs_ok [OF _ _ _ one_step_search.pair_ok]
  by blast+

text \<open>Decoding a fresh buffer that holds a message.\<close>

lemma bisect_decode_message:
  fixes st :: interval
  assumes "bytes_ok B" "4 \<le> length B" "length cdf = length data" "length cdf_size = length data"
    and "list_all2 bisect_valid (zip cdf cdf_size) data"
    and "decodes B (fold abs_step (table_pairs cdf data) (0, 0, 0xFFFFFFFF))"
  defines "st \<equiv> fold abs_step (table_pairs cdf data) (0, 0, 0xFFFFFFFF)"
  shows "\<exists>b. WebRtcIsac_DecHistBisectMulti
     \<lparr>stream = B, W_upper = 0xFFFFFFFF, streamval = v, stream_index = 0\<rparr> cdf cdf_size (length data) =
     Some (stream_bytes (fst st + 3) (snd (snd st)), map int data, b)"
proof -
  have "dec_bisect_loop (length data) cdf cdf_size B (3, 0, 0xFFFFFFFF, bval (take 4 B)) =
      Some (map int data, Some (decoder_state B st))"
    unfolding st_def using assms
    by (intro dec_bisect_loop_correct [OF assms(1)]) (auto simp: width_ok_def decoder_state_def)
  then show ?thesis
    by (cases st) (simp add: WebRtcIsac_DecHistBisectMulti_def first_decode [OF assms(1,2)] decoder_state_def)
qed

lemma one_step_decode_message:
  fixes st :: interval
  assumes "bytes_ok B" "4 \<le> length B" "length cdf = length data" "length init_index = length data"
    and "list_all2 one_step_valid (zip cdf init_index) data"
    and "decodes B (fold abs_step (table_pairs cdf data) (0, 0, 0xFFFFFFFF))"
  defines "st \<equiv> fold abs_step (table_pairs cdf data) (0, 0, 0xFFFFFFFF)"
  shows "\<exists>b. WebRtcIsac_DecHistOneStepMulti
     \<lparr>stream = B, W_upper = 0xFFFFFFFF, streamval = v, stream_index = 0\<rparr> cdf init_index (length data) =
     Some (stream_bytes (fst st + 3) (snd (snd st)), map int data, b)"
proof -
  have "dec_one_step_loop (length data) cdf init_index B (3, 0xFFFFFFFF, bval (take 4 B)) =
      Some (map int data, Some (decoder_state B st))"
    unfolding st_def using assms
    by (intro dec_one_step_loop_correct [OF assms(1)]) (auto simp: width_ok_def decoder_state_def)
  then show ?thesis
    by (cases st) (simp add: WebRtcIsac_DecHistOneStepMulti_def first_decode [OF assms(1,2)] decoder_state_def)
qed

subsection \<open>Properties\<close>

text \<open>C1: what the arithmetic encoder writes, the bisecting decoder reads back. For any message over
  strictly increasing tables of \<open>2^k - 1\<close> cumulative frequencies, encoding from a fresh stream and
  terminating succeeds (the carry never runs off the front of the buffer and at most three bytes per
  symbol plus two are written), and decoding any buffer that starts with the \<open>n\<close> bytes of the stream,
  whatever follows them, returns exactly the message and \<open>n\<close> as the length of the stream.\<close>

theorem arith_bisect_roundtrip:
  assumes "stream_index b = 0" "W_upper b = 0xFFFFFFFF" "streamval b = 0" "bytes_ok (stream b)"
    and "length cdf = length data" "length cdf_size = length data"
    and "3 * length data + 4 \<le> length (stream b)"
    and "list_all2 bisect_valid (zip cdf cdf_size) data"
  shows "\<exists>b1 n b2. WebRtcIsac_EncHistMulti b data cdf (length data) = Some b1 \<and>
    WebRtcIsac_EncTerminate b1 = Some (n, b2) \<and> n \<le> 3 * length data + 2 \<and>
    (\<forall>B v. bytes_ok B \<and> 3 * length data + 4 \<le> length B \<and> take n B = take n (stream b2) \<longrightarrow>
      (\<exists>b3. WebRtcIsac_DecHistBisectMulti
         \<lparr>stream = B, W_upper = 0xFFFFFFFF, streamval = v, stream_index = 0\<rparr> cdf cdf_size (length data) =
         Some (int n, map int data, b3)))"
proof -
  have ok: "\<forall>c\<in>set (table_pairs cdf data). cdf_pair_ok c"
    by (rule table_pairs_valid(1) [OF assms(8,5,6)])
  let ?st = "fold abs_step (table_pairs cdf data) (0, 0, 0xFFFFFFFF)"
  obtain b1 n b2 where enc: "WebRtcIsac_EncHistMulti b data cdf (length data) = Some b1"
    "WebRtcIsac_EncTerminate b1 = Some (n, b2)" and pos: "stream_index b1 \<le> 3 * length data" "n \<le> stream_index b1 + 2"
    and dec0: "\<And>B. bytes_ok B \<Longrightarrow> stream_index b1 + 4 \<le> length B \<Longrightarrow> take n B = take n (stream b2) \<Longrightarrow>
      decodes B ?st \<and> int n = stream_bytes (fst ?st + 3) (snd (snd ?st))"
    using encode_message [OF assms(1-5,7) ok] unfolding Let_def by blast
  have n: "n \<le> 3 * length data + 2" using pos by simp
  have dec: "decodes B ?st \<and> int n = stream_bytes (fst ?st + 3) (snd (snd ?st))"
    if "bytes_ok B" "3 * length data + 4 \<le> length B" "take n B = take n (stream b2)" for B
    using dec0 [of B] that pos(1) by simp
  have "\<exists>b3. WebRtcIsac_DecHistBisectMulti
       \<lparr>stream = B, W_upper = 0xFFFFFFFF, streamval = v, stream_index = 0\<rparr> cdf cdf_size (length data) =
       Some (int n, map int data, b3)"
    if B: "bytes_ok B" "3 * length data + 4 \<le> length B" "take n B = take n (stream b2)" for B v
    using bisect_decode_message [OF B(1) _ assms(5,6,8), of v] dec [OF B] B(2) by auto
  then show ?thesis using enc n by blast
qed

definition demo_stream :: Bitstr where
  "demo_stream = \<lparr>stream = replicate 16 7, W_upper = 0xFFFFFFFF, streamval = 0, stream_index = 0\<rparr>"

definition demo_cdf :: "int list" where
  "demo_cdf = [0, 20000, 65535]"

lemma demo_valid: "bisect_valid (demo_cdf, 4) d \<longleftrightarrow> d < 2" "one_step_valid (demo_cdf, 1) d \<longleftrightarrow> d < 2"
proof -
  have "\<exists>k. (4::nat) = 2 ^ k \<and> 3 = (2::nat) ^ k - 1" by (rule exI [of _ 2]) simp
  then show "bisect_valid (demo_cdf, 4) d \<longleftrightarrow> d < 2" "one_step_valid (demo_cdf, 1) d \<longleftrightarrow> d < 2"
    by (auto simp: bisect_valid_def one_step_valid_def table_ok_def demo_cdf_def)
qed

theorem arith_bisect_roundtrip_witness:
  "\<exists>b1 n b2. WebRtcIsac_EncHistMulti demo_stream [1, 0, 1] [demo_cdf, demo_cdf, demo_cdf] 3 = Some b1 \<and>
    WebRtcIsac_EncTerminate b1 = Some (n, b2) \<and> n \<le> 11"
proof -
  have "list_all2 bisect_valid (zip [demo_cdf, demo_cdf, demo_cdf] [4, 4, 4]) [1, 0, 1]"
    by (simp add: demo_valid)
  with arith_bisect_roundtrip [of demo_stream "[demo_cdf, demo_cdf, demo_cdf]" "[1, 0, 1]" "[4, 4, 4]"]
  have "\<exists>b1 n b2. WebRtcIsac_EncHistMulti demo_stream [1, 0, 1] [demo_cdf, demo_cdf, demo_cdf] (length [1::nat, 0, 1]) = Some b1 \<and>
    WebRtcIsac_EncTerminate b1 = Some (n, b2) \<and> n \<le> 3 * length [1::nat, 0, 1] + 2"
    by (auto simp: demo_stream_def bytes_ok_def)
  then show ?thesis by (simp add: eval_nat_numeral)
qed

text \<open>C2: the same round trip through the single-step decoder, for strictly increasing tables of
  any size and any start index inside the table.\<close>

theorem arith_one_step_roundtrip:
  assumes "stream_index b = 0" "W_upper b = 0xFFFFFFFF" "streamval b = 0" "bytes_ok (stream b)"
    and "length cdf = length data" "length init_index = length data"
    and "3 * length data + 4 \<le> length (stream b)"
    and "list_all2 one_step_valid (zip cdf init_index) data"
  shows "\<exists>b1 n b2. WebRtcIsac_EncHistMulti b data cdf (length data) = Some b1 \<and>
    WebRtcIsac_EncTerminate b1 = Some (n, b2) \<and> n \<le> 3 * length data + 2 \<and>
    (\<forall>B v. bytes_ok B \<and> 3 * length data + 4 \<le> length B \<and> take n B = take n (stream b2) \<longrightarrow>
      (\<exists>b3. WebRtcIsac_DecHistOneStepMulti
         \<lparr>stream = B, W_upper = 0xFFFFFFFF, streamval = v, stream_index = 0\<rparr> cdf init_index (length data) =
         Some (int n, map int data, b3)))"
proof -
  have ok: "\<forall>c\<in>set (table_pairs cdf data). cdf_pair_ok c"
    by (rule table_pairs_valid(2) [OF assms(8,5,6)])
  let ?st = "fold abs_step (table_pairs cdf data) (0, 0, 0xFFFFFFFF)"
  obtain b1 n b2 where enc: "WebRtcIsac_EncHistMulti b data cdf (length data) = Some b1"
    "WebRtcIsac_EncTerminate b1 = Some (n, b2)" and pos: "stream_index b1 \<le> 3 * length data" "n \<le> stream_index b1 + 2"
    and dec0: "\<And>B. bytes_ok B \<Longrightarrow> stream_index b1 + 4 \<le> length B \<Longrightarrow> take n B = take n (stream b2) \<Longrightarrow>
      decodes B ?st \<and> int n = stream_bytes (fst ?st + 3) (snd (snd ?st))"
    using encode_message [OF assms(1-5,7) ok] unfolding Let_def by blast
  have n: "n \<le> 3 * length data + 2" using pos by simp
  have dec: "decodes B ?st \<and> int n = stream_bytes (fst ?st + 3) (snd (snd ?st))"
    if "bytes_ok B" "3 * length data + 4 \<le> length B" "take n B = take n (stream b2)" for B
    using dec0 [of B] that pos(1) by simp
  have "\<exists>b3. WebRtcIsac_DecHistOneStepMulti
       \<lparr>stream = B, W_upper = 0xFFFFFFFF, streamval = v, stream_index = 0\<rparr> cdf init_index (length data) =
       Some (int n, map int data, b3)"
    if B: "bytes_ok B" "3 * length data + 4 \<le> length B" "take n B = take n (stream b2)" for B v
    using one_step_decode_message [OF B(1) _ assms(5,6,8), of v] dec [OF B] B(2) by auto
  then show ?thesis using enc n by blast
qed

theorem arith_one_step_roundtrip_witness:
  "\<exists>b1 n b2. WebRtcIsac_EncHistMulti demo_stream [1, 0] [demo_cdf, demo_cdf] 2 = Some b1 \<and>
    WebRtcIsac_EncTerminate b1 = Some (n, b2) \<and> n \<le> 8"
proof -
  have "list_all2 one_step_valid (zip [demo_cdf, demo_cdf] [1, 1]) [1, 0]"
    by (simp add: demo_valid [simplified])
  with arith_one_step_roundtrip [of demo_stream "[demo_cdf, demo_cdf]" "[1, 0]" "[1, 1]"]
  have "\<exists>b1 n b2. WebRtcIsac_EncHistMulti demo_stream [1, 0] [demo_cdf, demo_cdf] (length [1::nat, 0]) = Some b1 \<and>
    WebRtcIsac_EncTerminate b1 = Some (n, b2) \<and> n \<le> 3 * length [1::nat, 0] + 2"
    by (auto simp: demo_stream_def bytes_ok_def)
  then show ?thesis by (simp add: eval_nat_numeral)
qed

text \<open>C22: the encoder refines exact interval arithmetic. From any reachable encoder state with room
  for three bytes, encoding a symbol succeeds; the number formed by the bytes written and
  \<open>streamval\<close> and the interval width become exactly those of the symbol's subinterval, scaled by the
  number of bytes moved out, and the width is again at least \<open>2^24\<close>.\<close>

theorem encoder_refines_interval:
  assumes "enc_ready (s, p, W, v)" "0 \<le> cdf_lo" "cdf_lo < cdf_hi" "cdf_hi \<le> 65535" "p + 3 \<le> length s"
  shows "\<exists>s' p' W' v'. enc_symbol cdf_lo cdf_hi (s, p, W, v) = Some (s', p', W', v') \<and>
    enc_ready (s', p', W', v') \<and> length s' = length s \<and>
    (p', low_of s' p' v', W') = abs_step (cdf_lo, cdf_hi) (p, low_of s p v, W)"
proof -
  have "cdf_pair_ok (cdf_lo, cdf_hi)" using assms by (simp add: cdf_pair_ok_def)
  from enc_symbol_refines [OF assms(1) this] assms(5) show ?thesis
    by (fastforce simp: abs_of_def)
qed

theorem encoder_refines_interval_witness:
  "\<exists>s' p' W' v'. enc_symbol 20000 65535 ([255, 255, 255, 0], 0, 0xFFFFFFFF, 0) = Some (s', p', W', v') \<and>
    enc_ready (s', p', W', v')"
proof -
  have "enc_ready ([255, 255, 255, 0], 0, 0xFFFFFFFF, 0)"
    by (simp add: enc_ready_def enc_inv_def bytes_ok_def low_of_def)
  from encoder_refines_interval [OF this, of 20000 65535] show ?thesis by auto
qed

end
