(* ===== verification/Arith_Logist.thy ===== *)
theory Arith_Logist
  imports Arith_Coder
begin

section \<open>iSAC: the logistic arithmetic coder\<close>

text \<open>
  \<open>arith_routines_logist.c\<close>: spectral coefficients are coded with a piecewise linear approximation
  of the logistic distribution function instead of tables. The encoder clips a coefficient towards
  zero until its probability is large enough, which changes the caller's data; the decoder steps
  from a first candidate given by the dither. Both share the interval arithmetic, the carry
  propagation and the symbol search interface of the histogram coder. The buffer has
  \<open>STREAM_SIZE_MAX\<close> bytes, but only the first \<open>STREAM_SIZE_MAX_60\<close> of them may be filled.
\<close>

unbundle bit_operations_syntax

subsection \<open>The distribution function\<close>

definition kHistEdgesQ15 :: "int list" where
  "kHistEdgesQ15 = [
    -327680, -314573, -301466, -288359, -275252, -262144, -249037, -235930, -222823, -209716,
    -196608, -183501, -170394, -157287, -144180, -131072, -117965, -104858, -91751, -78644,
    -65536, -52429, -39322, -26215, -13108, 0, 13107, 26214, 39321, 52428,
    65536, 78643, 91750, 104857, 117964, 131072, 144179, 157286, 170393, 183500,
    196608, 209715, 222822, 235929, 249036, 262144, 275251, 288358, 301465, 314572,
    327680]"

definition kCdfSlopeQ0 :: "int list" where
  "kCdfSlopeQ0 = [
    5, 5, 5, 5, 5, 5, 5, 5, 5, 5,
    5, 5, 13, 23, 47, 87, 154, 315, 700, 1088,
    2471, 6064, 14221, 21463, 36634, 36924, 19750, 13270, 5806, 2312,
    1095, 660, 316, 145, 86, 41, 32, 5, 5, 5,
    5, 5, 5, 5, 5, 5, 5, 5, 5, 2,
    0]"

definition kCdfQ16 :: "int list" where
  "kCdfQ16 = [
    0, 2, 4, 6, 8, 10, 12, 14, 16, 18,
    20, 22, 24, 29, 38, 57, 92, 153, 279, 559,
    994, 1983, 4408, 10097, 18682, 33336, 48105, 56005, 61313, 63636,
    64560, 64998, 65262, 65389, 65447, 65481, 65497, 65510, 65512, 65514,
    65516, 65518, 65520, 65522, 65524, 65526, 65528, 65530, 65532, 65534,
    65535]"

definition piecewise :: "int \<Rightarrow> int" where
  "piecewise xinQ15 =
     (let qtmp2 = xinQ15;
          qtmp2 = (if qtmp2 < kHistEdgesQ15 ! 0 then kHistEdgesQ15 ! 0 else qtmp2);
          qtmp2 = (if qtmp2 > kHistEdgesQ15 ! 50 then kHistEdgesQ15 ! 50 else qtmp2);
          qtmp1 = sub32 qtmp2 (kHistEdgesQ15 ! 0);
          ind = shr (mul32 qtmp1 5) 16;
          qtmp1 = sub32 qtmp2 (kHistEdgesQ15 ! nat ind);
          qtmp2 = mul32 (kCdfSlopeQ0 ! nat ind) qtmp1;
          qtmp3 = shr qtmp2 15
      in u32 (add32 (kCdfQ16 ! nat ind) qtmp3))"

subsection \<open>Encoding\<close>

definition STREAM_SIZE_MAX :: nat where
  "STREAM_SIZE_MAX = 600"

definition STREAM_SIZE_MAX_60 :: nat where
  "STREAM_SIZE_MAX_60 = 400"

definition ISAC_DISALLOWED_BITSTREAM_LENGTH :: int where
  "ISAC_DISALLOWED_BITSTREAM_LENGTH = 6440"

text \<open>The clipping loop returns the coefficient with its bounds. It need not end (with a zero
  envelope it does not), so it is a partial function and \<open>None\<close> is not returning.\<close>

partial_function (option) clip_loop :: "int \<Rightarrow> int \<Rightarrow> int \<Rightarrow> int \<Rightarrow> (int \<times> int \<times> int) option" where
  "clip_loop env dataQ7 cdf_lo cdf_hi =
     (if u32 (cdf_lo + 1) \<ge> cdf_hi then
        (if dataQ7 > 0
         then clip_loop env (s16 (dataQ7 - 128)) (piecewise (mul32 (s16 (dataQ7 - 128) - 64) env)) cdf_lo
         else clip_loop env (s16 (dataQ7 + 128)) cdf_hi (piecewise (mul32 (s16 (dataQ7 + 128) + 64) env)))
      else Some (dataQ7, cdf_lo, cdf_hi))"

declare clip_loop.simps [code]

definition clip_data :: "int \<Rightarrow> int \<Rightarrow> (int \<times> int \<times> int) option" where
  "clip_data env dataQ7 =
     clip_loop env dataQ7 (piecewise (mul32 (dataQ7 - 64) env)) (piecewise (mul32 (dataQ7 + 64) env))"

definition env_step :: "bool \<Rightarrow> nat \<Rightarrow> nat" where
  "env_step isSWB12kHz k = (if isSWB12kHz then k AND 1 else (k AND 1) AND drop_bit 1 k)"

text \<open>Renormalisation with the check of the length: \<open>Inl\<close> is the early return, with the buffer
  and \<open>streamval\<close> as they are then.\<close>

function enc_logist_renorm ::
    "int list \<Rightarrow> nat \<Rightarrow> int \<Rightarrow> int \<Rightarrow> ((int list \<times> int) + (int list \<times> nat \<times> int \<times> int)) option" where
  "enc_logist_renorm s stream_ptr W_up val =
     (if W_up AND 0xFF000000 = 0 then
        (if stream_ptr < length s then
           (if stream_ptr + 1 > STREAM_SIZE_MAX_60 - 1
            then Some (Inl (s[stream_ptr := u8 (shr val 24)], val))
            else enc_logist_renorm (s[stream_ptr := u8 (shr val 24)]) (stream_ptr + 1)
                   (u32 (W_up * 2 ^ 8)) (u32 (val * 2 ^ 8)))
         else None)
      else Some (Inr (s, stream_ptr, W_up, val)))"
  by pat_completeness auto
termination by (relation "measure (\<lambda>(s, p, W, v). length s - p)") auto

declare enc_logist_renorm.simps [simp del]

definition enc_logist_symbol ::
    "int \<Rightarrow> int \<Rightarrow> int list \<times> nat \<times> int \<times> int \<Rightarrow> ((int list \<times> int) + (int list \<times> nat \<times> int \<times> int)) option" where
  "enc_logist_symbol cdf_lo cdf_hi = (\<lambda>(s, stream_ptr, W_up, val).
     (let W_lower = scale_cdf W_up cdf_lo;
          W_up = scale_cdf W_up cdf_hi;
          W_lower = u32 (W_lower + 1);
          W_up = u32 (W_up - W_lower);
          val = u32 (val + W_lower)
      in case (if val < W_lower then propagate_carry stream_ptr s else Some s) of
           None \<Rightarrow> None
         | Some s \<Rightarrow> enc_logist_renorm s stream_ptr W_up val))"

text \<open>The loop over the coefficients returns the clipped coefficients, the rest of the data
  unchanged, and the coder state. An envelope shorter than the data needs is undefined.\<close>

fun enc_logist_loop ::
    "nat \<Rightarrow> int list \<Rightarrow> int list \<Rightarrow> bool \<Rightarrow> int list \<times> nat \<times> int \<times> int \<Rightarrow>
     (int list \<times> ((int list \<times> int) + (int list \<times> nat \<times> int \<times> int))) option" where
  "enc_logist_loop k [] envQ8 isSWB12kHz st = Some ([], Inr st)"
| "enc_logist_loop k (d # dataQ7) envQ8 isSWB12kHz st =
     (if envQ8 = [] then None
      else case clip_data (hd envQ8) d of
        None \<Rightarrow> None
      | Some (d, cdf_lo, cdf_hi) \<Rightarrow>
          (case enc_logist_symbol cdf_lo cdf_hi st of
             None \<Rightarrow> None
           | Some (Inl e) \<Rightarrow> Some (d # dataQ7, Inl e)
           | Some (Inr st) \<Rightarrow>
               (case enc_logist_loop (Suc k) dataQ7 (drop (env_step isSWB12kHz k) envQ8) isSWB12kHz st of
                  None \<Rightarrow> None
                | Some (ds, r) \<Rightarrow> Some (d # ds, r))))"

text \<open>Returns the code, the data vector and the stream structure.\<close>

definition WebRtcIsac_EncLogisticMulti2 ::
    "Bitstr \<Rightarrow> int list \<Rightarrow> int list \<Rightarrow> nat \<Rightarrow> bool \<Rightarrow> (int \<times> int list \<times> Bitstr) option" where
  "WebRtcIsac_EncLogisticMulti2 streamdata dataQ7 envQ8 N isSWB12kHz =
     (if length dataQ7 < N then None
      else case enc_logist_loop 0 (take N dataQ7) envQ8 isSWB12kHz
        (stream streamdata, stream_index streamdata, W_upper streamdata, streamval streamdata) of
        None \<Rightarrow> None
      | Some (ds, Inl (s, v)) \<Rightarrow>
          Some (- ISAC_DISALLOWED_BITSTREAM_LENGTH, ds @ drop N dataQ7,
                streamdata\<lparr>stream := s, streamval := v\<rparr>)
      | Some (ds, Inr (s, p, W, v)) \<Rightarrow>
          Some (0, ds @ drop N dataQ7,
                streamdata\<lparr>stream := s, W_upper := W, streamval := v, stream_index := p\<rparr>))"

subsection \<open>Decoding\<close>

text \<open>The steps up and down from the first candidate. \<open>cand\<close> is \<open>candQ7\<close> and \<open>W_tmp\<close> its scaled
  distribution value; \<open>None\<close> is a search that does not end.\<close>

partial_function (option) logist_up :: "int \<Rightarrow> int \<Rightarrow> int \<Rightarrow> int \<Rightarrow> int \<Rightarrow> int \<Rightarrow> found option" where
  "logist_up env W0 val cand W_lower W_tmp =
     (if val > W_tmp then
        (if W_tmp = scale_cdf W0 (piecewise (mul32 (s16 (cand + 128)) env)) then Some RangeError
         else logist_up env W0 val (s16 (cand + 128)) W_tmp
                (scale_cdf W0 (piecewise (mul32 (s16 (cand + 128)) env))))
      else Some (Found (s16 (cand - 64)) W_lower W_tmp))"

partial_function (option) logist_down :: "int \<Rightarrow> int \<Rightarrow> int \<Rightarrow> int \<Rightarrow> int \<Rightarrow> int \<Rightarrow> found option" where
  "logist_down env W0 val cand W_up W_tmp =
     (if \<not> val > W_tmp then
        (if W_tmp = scale_cdf W0 (piecewise (mul32 (s16 (cand - 128)) env)) then Some RangeError
         else logist_down env W0 val (s16 (cand - 128)) W_tmp
                (scale_cdf W0 (piecewise (mul32 (s16 (cand - 128)) env))))
      else Some (Found (s16 (cand + 64)) W_tmp W_up))"

declare logist_up.simps [code] logist_down.simps [code]

definition logist_search :: "int \<Rightarrow> int \<Rightarrow> int \<Rightarrow> int \<Rightarrow> found option" where
  "logist_search dither env W0 val =
     (let candQ7 = s16 (- dither + 64);
          W_tmp = scale_cdf W0 (piecewise (mul32 candQ7 env))
      in if val > W_tmp
         then let W_lower = W_tmp;
                  candQ7 = s16 (candQ7 + 128);
                  W_tmp = scale_cdf W0 (piecewise (mul32 candQ7 env))
              in logist_up env W0 val candQ7 W_lower W_tmp
         else let W_up = W_tmp;
                  candQ7 = s16 (candQ7 - 128);
                  W_tmp = scale_cdf W0 (piecewise (mul32 candQ7 env))
              in logist_down env W0 val candQ7 W_up W_tmp)"

text \<open>The inner \<open>None\<close> is the return of -1 at the end of the stream.\<close>

function dec_logist_renorm :: "int list \<Rightarrow> nat \<Rightarrow> int \<Rightarrow> int \<Rightarrow> (nat \<times> int \<times> int) option option" where
  "dec_logist_renorm s stream_ptr W_up val =
     (if W_up AND 0xFF000000 = 0 then
        (if stream_ptr + 1 \<ge> STREAM_SIZE_MAX_60 then Some None
         else if stream_ptr + 1 < length s
         then dec_logist_renorm s (stream_ptr + 1) (u32 (W_up * 2 ^ 8)) (u32 (val * 2 ^ 8) OR s ! (stream_ptr + 1))
         else None)
      else Some (Some (stream_ptr, W_up, val)))"
  by pat_completeness auto
termination by (relation "measure (\<lambda>(s, p, W, v). length s - p)") auto

declare dec_logist_renorm.simps [simp del]

fun dec_logist_loop ::
    "nat \<Rightarrow> nat \<Rightarrow> int list \<Rightarrow> int list \<Rightarrow> bool \<Rightarrow> int list \<Rightarrow> nat \<times> int \<times> int \<Rightarrow>
     (int list \<times> (nat \<times> int \<times> int) option) option" where
  "dec_logist_loop 0 k envQ8 ditherQ7 isSWB12kHz s st = Some ([], Some st)"
| "dec_logist_loop (Suc n) k envQ8 ditherQ7 isSWB12kHz s (p, W_up, val) =
     (if envQ8 = [] \<or> ditherQ7 = [] then None
      else case logist_search (hd ditherQ7) (hd envQ8) W_up val of
        Some (Found d W_lower W_up) \<Rightarrow>
          (let W_lower = u32 (W_lower + 1); W_up = u32 (W_up - W_lower); val = u32 (val - W_lower)
           in case dec_logist_renorm s p W_up val of
                None \<Rightarrow> None
              | Some None \<Rightarrow> Some ([d], None)
              | Some (Some st) \<Rightarrow>
                  (case dec_logist_loop n (Suc k) (drop (env_step isSWB12kHz k) envQ8) (tl ditherQ7)
                          isSWB12kHz s st of
                     None \<Rightarrow> None | Some (ds, r) \<Rightarrow> Some (d # ds, r)))
      | Some RangeError \<Rightarrow> Some ([], None)
      | _ \<Rightarrow> None)"

definition start_logist_decoder :: "Bitstr \<Rightarrow> (int \<times> nat) option option" where
  "start_logist_decoder streamdata =
     (if stream_index streamdata = 0
      then if stream_index streamdata + 3 \<ge> STREAM_SIZE_MAX_60 then Some None
           else map_option Some (read_first_word (stream streamdata) (stream_index streamdata))
      else Some (Some (streamval streamdata, stream_index streamdata)))"

definition WebRtcIsac_DecLogisticMulti2 ::
    "Bitstr \<Rightarrow> int list \<Rightarrow> int list \<Rightarrow> nat \<Rightarrow> bool \<Rightarrow> (int \<times> int list \<times> Bitstr) option" where
  "WebRtcIsac_DecLogisticMulti2 streamdata envQ8 ditherQ7 N isSWB12kHz =
     (case start_logist_decoder streamdata of
        None \<Rightarrow> None
      | Some None \<Rightarrow> Some (-1, [], streamdata)
      | Some (Some (val, p)) \<Rightarrow>
        (case dec_logist_loop N 0 envQ8 ditherQ7 isSWB12kHz (stream streamdata) (p, W_upper streamdata, val) of
           None \<Rightarrow> None
         | Some (ds, None) \<Rightarrow> Some (-1, ds, streamdata)
         | Some (ds, Some (p, W_up, val)) \<Rightarrow>
             Some (stream_bytes p W_up, ds, streamdata\<lparr>stream_index := p, W_upper := W_up, streamval := val\<rparr>)))"

subsection \<open>The distribution function is monotone\<close>

lemma kHistEdges_ends: "kHistEdgesQ15 ! 0 = -327680" "kHistEdgesQ15 ! 50 = 327680"
  by (simp_all add: kHistEdgesQ15_def)

definition bin :: "int \<Rightarrow> nat \<Rightarrow> int" where
  "bin x i = kCdfQ16 ! i + kCdfSlopeQ0 ! i * (x - kHistEdgesQ15 ! i) div 32768"

definition bin_index :: "int \<Rightarrow> nat" where
  "bin_index x = nat ((x + 327680) * 5 div 65536)"

definition bin_first :: "nat \<Rightarrow> int" where
  "bin_first i = (int i * 65536 + 4) div 5 - 327680"

text \<open>The facts about the tables: slopes and values are small, the value at the last point of a bin
  does not exceed the value at the first point of the next.\<close>

lemma bins_ok:
  "list_all (\<lambda>i. 0 \<le> kCdfSlopeQ0 ! i \<and> kCdfSlopeQ0 ! i \<le> 36924 \<and>
     kHistEdgesQ15 ! i \<le> bin_first i \<and> bin_first i - kHistEdgesQ15 ! i \<le> 1 \<and>
     0 \<le> kCdfQ16 ! i \<and> kCdfQ16 ! i \<le> 65535) [0..<51]"
  "list_all (\<lambda>i. bin (bin_first (Suc i) - 1) i \<le> bin (bin_first (Suc i)) (Suc i)) [0..<50]"
  "bin (-327680) 0 = 0" "bin 327680 50 = 65535"
  by code_simp+

lemma bin_index_iff:
  assumes "-327680 \<le> x" "x \<le> 327680"
  shows "bin_index x \<le> 50" "bin_first (bin_index x) \<le> x" "x \<le> bin_first (Suc (bin_index x)) - 1"
proof -
  define q where "q = x + 327680"
  have q: "0 \<le> q" "q \<le> 655360" using assms by (simp_all add: q_def)
  have i: "int (bin_index x) = q * 5 div 65536"
    using q by (simp add: bin_index_def q_def pos_imp_zdiv_nonneg_iff)
  have d: "int (bin_index x) * 65536 \<le> q * 5" "q * 5 < int (bin_index x) * 65536 + 65536"
    unfolding i using pos_mod_bound [of 65536 "q * 5"] pos_mod_sign [of 65536 "q * 5"]
      div_mult_mod_eq [of "q * 5" 65536] by linarith+
  show "bin_index x \<le> 50" using d(1) q(2) by linarith
  show "bin_first (bin_index x) \<le> x" unfolding bin_first_def using d q_def by linarith
  have "(q + 1) * 5 \<le> int (Suc (bin_index x)) * 65536 + 4" using d(2) by simp
  then have "(q + 1) * 5 div 5 \<le> (int (Suc (bin_index x)) * 65536 + 4) div 5"
    by (intro zdiv_mono1) simp_all
  then show "x \<le> bin_first (Suc (bin_index x)) - 1" by (simp add: bin_first_def q_def)
qed

lemma bin_mono: "i < 51 \<Longrightarrow> x \<le> y \<Longrightarrow> bin x i \<le> bin y i"
  using bins_ok(1) by (auto simp: bin_def list_all_iff intro!: zdiv_mono1 mult_left_mono)

lemma bin_chain:
  assumes "i \<le> j" "j \<le> 50" "x \<le> bin_first (Suc i) - 1" "bin_first j \<le> y" "x \<le> y"
  shows "bin x i \<le> bin y j"
  using assms
proof (induction j arbitrary: y)
  case 0
  then show ?case by (simp add: bin_mono)
next
  case (Suc j)
  show ?case
  proof (cases "i = Suc j")
    case True
    then show ?thesis using Suc.prems by (simp add: bin_mono)
  next
    case False
    then have ij: "i \<le> j" "j < 50" using Suc.prems by auto
    have step: "bin_first j \<le> bin_first (Suc j) - 1" for j by (simp add: bin_first_def)
    have mono: "bin_first (Suc i) \<le> bin_first (Suc j)"
      using ij(1) by (auto simp: bin_first_def intro!: zdiv_mono1)
    have "bin x i \<le> bin (bin_first (Suc j) - 1) j"
      using ij Suc.prems(3) mono step [of j] by (intro Suc.IH) auto
    also have "\<dots> \<le> bin (bin_first (Suc j)) (Suc j)"
      using bins_ok(2) ij by (simp add: list_all_iff)
    also have "\<dots> \<le> bin y (Suc j)"
      using Suc.prems by (intro bin_mono) auto
    finally show ?thesis .
  qed
qed

definition clamp_edge :: "int \<Rightarrow> int" where
  "clamp_edge x = max (-327680) (min 327680 x)"

lemma clamp_edge_range: "-327680 \<le> clamp_edge x" "clamp_edge x \<le> 327680"
  by (auto simp: clamp_edge_def)

lemma bin_range:
  assumes "-327680 \<le> x" "x \<le> 327680"
  shows "0 \<le> bin x (bin_index x)" "bin x (bin_index x) \<le> 65535"
proof -
  note i = bin_index_iff [OF assms]
  have "bin (-327680) 0 \<le> bin x (bin_index x)"
    using i assms by (intro bin_chain) (auto simp: bin_first_def)
  then show "0 \<le> bin x (bin_index x)" by (simp add: bins_ok)
  have "bin x (bin_index x) \<le> bin 327680 50"
    using i assms by (intro bin_chain) (auto simp: bin_first_def)
  then show "bin x (bin_index x) \<le> 65535" by (simp add: bins_ok)
qed

lemma piecewise_bin: "piecewise x = bin (clamp_edge x) (bin_index (clamp_edge x))"
proof -
  define c where "c = clamp_edge x"
  have c: "-327680 \<le> c" "c \<le> 327680" using clamp_edge_range by (simp_all add: c_def)
  define i where "i = bin_index c"
  note ix = bin_index_iff [OF c, folded i_def]
  have ind: "nat (shr (mul32 (c + 327680) 5) 16) = i"
    using c by (simp add: mul32_def s32_idI shr_def i_def bin_index_def)
  have t: "0 \<le> kCdfSlopeQ0 ! i" "kCdfSlopeQ0 ! i \<le> 36924" "kHistEdgesQ15 ! i \<le> bin_first i"
    "bin_first i - kHistEdgesQ15 ! i \<le> 1"
    using bins_ok(1) ix(1) by (auto simp: list_all_iff)
  have x1: "0 \<le> c - kHistEdgesQ15 ! i" "c - kHistEdgesQ15 ! i \<le> 13110"
    using t ix(2,3) by (auto simp: bin_first_def)
  have "kCdfSlopeQ0 ! i * (c - kHistEdgesQ15 ! i) \<le> 36924 * 13110"
    using t x1 by (intro mult_mono) auto
  then have m: "mul32 (kCdfSlopeQ0 ! i) (c - kHistEdgesQ15 ! i) = kCdfSlopeQ0 ! i * (c - kHistEdgesQ15 ! i)"
    unfolding mul32_def using t x1 by (intro s32_idI) (auto intro: order_trans [of _ 0])
  have "sub32 c (kHistEdgesQ15 ! i) = c - kHistEdgesQ15 ! i"
    "sub32 c (-327680) = c + 327680"
    unfolding sub32_def using x1 c by (auto intro!: s32_idI)
  moreover have "add32 (kCdfQ16 ! i) (shr (kCdfSlopeQ0 ! i * (c - kHistEdgesQ15 ! i)) 15) = bin c i"
    using bin_range [OF c] by (simp add: add32_def shr_def s32_idI flip: i_def bin_def [simplified])
  moreover have "u32 (bin c i) = bin c i"
    using bin_range [OF c] by (intro u32_idI) (simp_all flip: i_def)
  moreover have "(if (if x < -327680 then -327680 else x) > 327680 then 327680
      else (if x < -327680 then -327680 else x)) = c"
    by (auto simp: c_def clamp_edge_def)
  ultimately show ?thesis
    by (simp only: piecewise_def Let_def kHistEdges_ends ind m c_def [symmetric] i_def [symmetric])
qed

lemma piecewise_range: "0 \<le> piecewise x" "piecewise x \<le> 65535"
  using bin_range [OF clamp_edge_range] by (simp_all add: piecewise_bin)

lemma piecewise_mono: "x \<le> y \<Longrightarrow> piecewise x \<le> piecewise y"
proof -
  assume "x \<le> y"
  then have c: "clamp_edge x \<le> clamp_edge y" by (auto simp: clamp_edge_def)
  note ix = bin_index_iff [OF clamp_edge_range, of x] and iy = bin_index_iff [OF clamp_edge_range, of y]
  have "bin_index (clamp_edge x) \<le> bin_index (clamp_edge y)"
    using c by (auto simp: bin_index_def intro!: nat_mono zdiv_mono1)
  then show ?thesis
    unfolding piecewise_bin using ix iy c by (intro bin_chain) auto
qed

subsection \<open>Clipping ends\<close>

text \<open>The bounds of a coefficient, and the coefficients and envelopes the products fit for.\<close>

definition logist_pair :: "int \<Rightarrow> int \<Rightarrow> int \<times> int" where
  "logist_pair env d = (piecewise ((d - 64) * env), piecewise ((d + 64) * env))"

definition coeff_ok :: "int \<Rightarrow> bool" where
  "coeff_ok d \<longleftrightarrow> -32703 \<le> d \<and> d \<le> 32703"

definition env_ok :: "int \<Rightarrow> bool" where
  "env_ok env \<longleftrightarrow> 1 \<le> env \<and> env \<le> 65535"

lemma mul32_env:
  assumes "env_ok env" "-32767 \<le> c" "c \<le> 32767"
  shows "mul32 c env = c * env"
proof -
  have "\<bar>c * env\<bar> \<le> 32767 * 65535"
    unfolding abs_mult using assms by (intro mult_mono) (auto simp: env_ok_def)
  then show ?thesis unfolding mul32_def by (intro s32_idI) linarith+
qed

lemma piecewise_centre: "piecewise (-64) + 1 < piecewise 0" "piecewise 0 + 1 < piecewise 64"
  by code_simp+

lemma logist_pair_centre:
  assumes "env_ok env" "-64 \<le> d" "d \<le> 64"
  shows "fst (logist_pair env d) + 1 < snd (logist_pair env d)"
proof (cases "0 \<le> d")
  case True
  have "(d - 64) * env \<le> 0" using assms by (auto simp: env_ok_def mult_le_0_iff)
  moreover have "64 * 1 \<le> (d + 64) * env"
    using assms True by (intro mult_mono) (auto simp: env_ok_def)
  ultimately have "piecewise ((d - 64) * env) \<le> piecewise 0" "piecewise 64 \<le> piecewise ((d + 64) * env)"
    by (auto intro!: piecewise_mono)
  with piecewise_centre(2) show ?thesis by (simp add: logist_pair_def)
next
  case False
  have "(64 - d) * env \<ge> 64 * 1" using assms False by (intro mult_mono) (auto simp: env_ok_def)
  moreover have "0 \<le> (d + 64) * env" using assms by (auto simp: env_ok_def)
  ultimately have "piecewise ((d - 64) * env) \<le> piecewise (-64)" "piecewise 0 \<le> piecewise ((d + 64) * env)"
    by (auto intro!: piecewise_mono simp: algebra_simps)
  with piecewise_centre(1) show ?thesis by (simp add: logist_pair_def)
qed

lemma clip_loop_ends:
  assumes "env_ok env" "coeff_ok d"
  shows "\<exists>d'. clip_loop env d (fst (logist_pair env d)) (snd (logist_pair env d))
      = Some (d', fst (logist_pair env d'), snd (logist_pair env d')) \<and>
    coeff_ok d' \<and> d' mod 128 = d mod 128 \<and> \<bar>d'\<bar> \<le> \<bar>d\<bar> \<and>
    fst (logist_pair env d') + 1 < snd (logist_pair env d')"
  using assms(2)
proof (induction "nat \<bar>d\<bar>" arbitrary: d rule: less_induct)
  case less
  let ?lo = "fst (logist_pair env d)" and ?hi = "snd (logist_pair env d)"
  have u: "u32 (?lo + 1) = ?lo + 1"
    using piecewise_range [of "(d - 64) * env"] by (intro u32_idI) (auto simp: logist_pair_def)
  show ?case
  proof (cases "?lo + 1 < ?hi")
    case True
    then show ?thesis
      using less.prems u by (subst clip_loop.simps) auto
  next
    case False
    then have far: "d < -64 \<or> 64 < d"
      using logist_pair_centre [OF assms(1), of d] by linarith
    define e where "e = (if d > 0 then d - 128 else d + 128)"
    have e: "\<bar>e\<bar> < \<bar>d\<bar>" "coeff_ok e" "e mod 128 = d mod 128"
      using far less.prems by (auto simp: e_def coeff_ok_def)
    have s: "s16 e = e" using e(2) by (intro s16_idI) (auto simp: coeff_ok_def)
    have m: "mul32 (e - 64) env = (e - 64) * env" "mul32 (e + 64) env = (e + 64) * env"
      using e(2) by (auto intro!: mul32_env [OF assms(1)] simp: coeff_ok_def)
    have "clip_loop env d ?lo ?hi = clip_loop env e (fst (logist_pair env e)) (snd (logist_pair env e))"
    proof (cases "d > 0")
      case True
      then have "e = d - 128" by (simp add: e_def)
      with True False u s m show ?thesis
        by (subst clip_loop.simps) (simp add: logist_pair_def)
    next
      case neg: False
      then have "e = d + 128" by (simp add: e_def)
      with neg False u s m show ?thesis
        by (subst clip_loop.simps) (simp add: logist_pair_def ac_simps)
    qed
    with less.hyps [of e] e show ?thesis by fastforce
  qed
qed

lemma clip_data_ends:
  assumes "env_ok env" "coeff_ok d"
  shows "\<exists>d'. clip_data env d = Some (d', fst (logist_pair env d'), snd (logist_pair env d')) \<and>
    coeff_ok d' \<and> d' mod 128 = d mod 128 \<and> \<bar>d'\<bar> \<le> \<bar>d\<bar> \<and>
    fst (logist_pair env d') + 1 < snd (logist_pair env d')"
proof -
  have "mul32 (d - 64) env = (d - 64) * env" "mul32 (d + 64) env = (d + 64) * env"
    using assms(2) by (auto intro!: mul32_env [OF assms(1)] simp: coeff_ok_def)
  then show ?thesis
    using clip_loop_ends [OF assms] by (simp add: clip_data_def logist_pair_def)
qed

subsection \<open>The encoder is the histogram encoder with a length limit\<close>

lemma enc_renorm_pos: "enc_renorm s p W v = Some (s', p', W', v') \<Longrightarrow> p \<le> p'"
proof (induction s p W v rule: enc_renorm.induct)
  case (1 s p W v)
  then show ?case
    by (subst (asm) (2) enc_renorm.simps) (fastforce split: if_splits)
qed

lemma enc_logist_renorm_eq:
  assumes "enc_renorm s p W v = Some (s', p', W', v')" "p < 400"
  shows "p' < 400 \<Longrightarrow> enc_logist_renorm s p W v = Some (Inr (s', p', W', v'))"
    and "400 \<le> p' \<Longrightarrow> \<exists>e. enc_logist_renorm s p W v = Some (Inl e)"
proof -
  have "(p' < 400 \<longrightarrow> enc_logist_renorm s p W v = Some (Inr (s', p', W', v'))) \<and>
      (400 \<le> p' \<longrightarrow> (\<exists>e. enc_logist_renorm s p W v = Some (Inl e)))"
    using assms
  proof (induction s p W v rule: enc_renorm.induct)
    case (1 s p W v)
    show ?case
    proof (cases "W AND 0xFF000000 = 0")
      case False
      then have "enc_logist_renorm s p W v = Some (Inr (s, p, W, v))"
        by (simp add: enc_logist_renorm.simps [of s p W v])
      moreover have "(s', p', W', v') = (s, p, W, v)"
        using False "1.prems"(1) by (simp add: enc_renorm.simps [of s p W v])
      ultimately show ?thesis using "1.prems"(2) by simp
    next
      case True
      then have p: "p < length s" and rec: "enc_renorm (s[p := u8 (shr v 24)]) (p + 1)
          (u32 (W * 2 ^ 8)) (u32 (v * 2 ^ 8)) = Some (s', p', W', v')"
        using "1.prems"(1) by (auto simp: enc_renorm.simps [of s p W v] split: if_splits)
      show ?thesis
      proof (cases "p + 1 < 400")
        case lim: True
        have eq: "enc_logist_renorm s p W v = enc_logist_renorm (s[p := u8 (shr v 24)]) (p + 1)
            (u32 (W * 2 ^ 8)) (u32 (v * 2 ^ 8))"
          using True p lim by (simp add: enc_logist_renorm.simps [of s p W v] STREAM_SIZE_MAX_60_def)
        show ?thesis unfolding eq by (rule "1.IH" [OF True p rec lim])
      next
        case lim: False
        then have "400 \<le> p'" using enc_renorm_pos [OF rec] by simp
        moreover have "enc_logist_renorm s p W v = Some (Inl (s[p := u8 (shr v 24)], v))"
          using True p lim by (simp add: enc_logist_renorm.simps [of s p W v] STREAM_SIZE_MAX_60_def)
        ultimately show ?thesis by simp
      qed
    qed
  qed
  then show "p' < 400 \<Longrightarrow> enc_logist_renorm s p W v = Some (Inr (s', p', W', v'))"
    and "400 \<le> p' \<Longrightarrow> \<exists>e. enc_logist_renorm s p W v = Some (Inl e)" by blast+
qed

lemma enc_logist_symbol_eq:
  assumes "enc_symbol lo hi (s, p, W, v) = Some (s', p', W', v')" "p < 400"
  shows "p' < 400 \<Longrightarrow> enc_logist_symbol lo hi (s, p, W, v) = Some (Inr (s', p', W', v'))"
    and "400 \<le> p' \<Longrightarrow> \<exists>e. enc_logist_symbol lo hi (s, p, W, v) = Some (Inl e)"
  using assms enc_logist_renorm_eq
  by (auto simp: enc_symbol_def enc_logist_symbol_def Let_def split: option.splits)

text \<open>The envelope value each coefficient is coded with.\<close>

fun env_of :: "nat \<Rightarrow> nat \<Rightarrow> int list \<Rightarrow> bool \<Rightarrow> int list option" where
  "env_of 0 k envQ8 swb = Some []"
| "env_of (Suc n) k envQ8 swb =
     (if envQ8 = [] then None
      else map_option ((#) (hd envQ8)) (env_of n (Suc k) (drop (env_step swb k) envQ8) swb))"

lemma env_of_length: "env_of n k env swb = Some es \<Longrightarrow> length es = n"
  by (induction n arbitrary: k env es) (auto split: if_splits)

lemma enc_logist_loop_eq:
  assumes "env_of (length ds) k env swb = Some es" "list_all env_ok es" "list_all coeff_ok ds"
    and "enc_ready (s, p, W, v)" "p < 400" "402 \<le> length s"
  shows "\<exists>ds' r. enc_logist_loop k ds env swb (s, p, W, v) = Some (ds', r) \<and>
    length ds' = length ds \<and>
    (\<forall>st. r = Inr st \<longrightarrow>
       enc_ready st \<and> length (fst st) = length s \<and> fst (snd st) < 400 \<and>
       abs_of st = fold abs_step (map2 logist_pair es ds') (abs_of (s, p, W, v)) \<and>
       (\<forall>c\<in>set (map2 logist_pair es ds'). cdf_pair_ok c) \<and>
       list_all2 (\<lambda>d d'. coeff_ok d' \<and> d' mod 128 = d mod 128 \<and> \<bar>d'\<bar> \<le> \<bar>d\<bar>) ds ds') \<and>
    (p + 3 * length ds < 400 \<longrightarrow> (\<exists>st. r = Inr st))"
  using assms
proof (induction ds arbitrary: k env es s p W v)
  case Nil
  then show ?case by simp
next
  case (Cons d ds)
  obtain e es' where es: "env \<noteq> []" "e = hd env" "es = e # es'"
    "env_of (length ds) (Suc k) (drop (env_step swb k) env) swb = Some es'"
    using Cons.prems(1) by (auto split: if_splits)
  have eok: "env_ok e" "list_all env_ok es'" and dok: "coeff_ok d" "list_all coeff_ok ds"
    using Cons.prems(2,3) es(3) by auto
  obtain d' where d': "clip_data e d = Some (d', fst (logist_pair e d'), snd (logist_pair e d'))"
    "coeff_ok d'" "d' mod 128 = d mod 128" "\<bar>d'\<bar> \<le> \<bar>d\<bar>"
    "fst (logist_pair e d') + 1 < snd (logist_pair e d')"
    using clip_data_ends [OF eok(1) dok(1)] by auto
  let ?c = "logist_pair e d'"
  have c: "cdf_pair_ok ?c"
    using d'(5) piecewise_range by (simp add: cdf_pair_ok_def logist_pair_def)
  have "fst (snd (s, p, W, v)) + 3 \<le> length (fst (s, p, W, v))" using Cons.prems(5,6) by simp
  from enc_symbol_refines [OF Cons.prems(4) c this] obtain s1 p1 W1 v1 where
    st1: "enc_symbol (fst ?c) (snd ?c) (s, p, W, v) = Some (s1, p1, W1, v1)"
    "enc_ready (s1, p1, W1, v1)" "length s1 = length s" "p1 \<le> p + 3"
    "abs_of (s1, p1, W1, v1) = abs_step ?c (abs_of (s, p, W, v))"
    by fastforce
  note sym = enc_logist_symbol_eq [OF st1(1) Cons.prems(5)]
  show ?case
  proof (cases "p1 < 400")
    case True
    note IH = Cons.IH [OF es(4) eok(2) dok(2) st1(2) True]
    then obtain ds' r where r: "enc_logist_loop (Suc k) ds (drop (env_step swb k) env) swb (s1, p1, W1, v1)
        = Some (ds', r)" "length ds' = length ds"
      "\<forall>st. r = Inr st \<longrightarrow> enc_ready st \<and> length (fst st) = length s1 \<and> fst (snd st) < 400 \<and>
         abs_of st = fold abs_step (map2 logist_pair es' ds') (abs_of (s1, p1, W1, v1)) \<and> (\<forall>c\<in>set (map2 logist_pair es' ds'). cdf_pair_ok c) \<and>
         list_all2 (\<lambda>d d'. coeff_ok d' \<and> d' mod 128 = d mod 128 \<and> \<bar>d'\<bar> \<le> \<bar>d\<bar>) ds ds'"
      "p1 + 3 * length ds < 400 \<longrightarrow> (\<exists>st. r = Inr st)"
      using Cons.prems(6) st1(3) by (simp del: length_map) blast
    have "enc_logist_loop k (d # ds) env swb (s, p, W, v) = Some (d' # ds', r)"
      using es(1,2) d'(1) sym(1) [OF True] r(1) by (simp add: split_def)
    with r d'(2-4) c st1(3-5) es(3) show ?thesis
      by (intro exI [of _ "d' # ds'"] exI [of _ r]) auto
  next
    case False
    then obtain x where "enc_logist_symbol (fst ?c) (snd ?c) (s, p, W, v) = Some (Inl x)"
      using sym(2) by auto
    then have "enc_logist_loop k (d # ds) env swb (s, p, W, v) = Some (d' # ds, Inl x)"
      using es(1,2) d'(1) by (simp add: split_def)
    moreover have "\<not> p + 3 * length (d # ds) < 400" using False st1(4) by simp
    ultimately show ?thesis by auto
  qed
qed

subsection \<open>The decoder's search\<close>

text \<open>The candidates of the decoder lie 128 apart. A coefficient can be decoded when it is a
  candidate shifted by 64, and when the distribution function grows between all candidates on the
  way to it, since the decoder takes two equal values as the end of the range.\<close>

definition cand_at :: "int \<Rightarrow> int \<Rightarrow> int" where
  "cand_at dither i = 64 - dither + 128 * i"

definition cdf_at :: "int \<Rightarrow> int \<Rightarrow> int \<Rightarrow> int" where
  "cdf_at dither env i = piecewise (cand_at dither i * env)"

definition logist_path :: "int \<Rightarrow> int \<Rightarrow> int \<Rightarrow> bool" where
  "logist_path dither env d \<longleftrightarrow>
     (let j = (d + dither) div 128
      in list_all (\<lambda>i. cdf_at dither env i < cdf_at dither env (i + 1)) ([1..j - 2] @ [j..-2]))"

definition logist_aligned :: "int \<Rightarrow> int \<Rightarrow> int \<Rightarrow> bool" where
  "logist_aligned dither env d \<longleftrightarrow>
     env_ok env \<and> coeff_ok d \<and> -32703 \<le> dither \<and> dither \<le> 32767 \<and> (d + dither) mod 128 = 0 \<and>
     fst (logist_pair env d) < snd (logist_pair env d)"

definition logist_valid :: "int \<Rightarrow> int \<Rightarrow> int \<Rightarrow> bool" where
  "logist_valid dither env d \<longleftrightarrow> logist_aligned dither env d \<and> logist_path dither env d"

lemma logist_aligned_intro:
  assumes "env_ok env" "coeff_ok d" "-32703 \<le> dither" "dither \<le> 32767" "(d + dither) mod 128 = 0"
    and "cdf_pair_ok (logist_pair env d)"
  shows "logist_aligned dither env d"
  using assms by (simp add: logist_aligned_def cdf_pair_ok_def)

lemma cdf_at_mono: "env_ok env \<Longrightarrow> i \<le> j \<Longrightarrow> cdf_at dither env i \<le> cdf_at dither env j"
  unfolding cdf_at_def cand_at_def by (intro piecewise_mono mult_right_mono) (auto simp: env_ok_def)

definition scaled_at :: "int \<Rightarrow> int \<Rightarrow> int \<Rightarrow> int \<Rightarrow> int" where
  "scaled_at W dither env i = W * cdf_at dither env i div 65536"

lemma scaled_at_eq:
  assumes "env_ok env" "0 \<le> W" "W < 4294967296" "-32767 \<le> cand_at dither i" "cand_at dither i \<le> 32767"
  shows "scale_cdf W (piecewise (mul32 (cand_at dither i) env)) = scaled_at W dither env i"
  using assms piecewise_range
  by (simp add: mul32_env scale_cdf_eq scaled_at_def cdf_at_def)

lemma scaled_at_mono:
  "env_ok env \<Longrightarrow> 0 \<le> W \<Longrightarrow> i \<le> j \<Longrightarrow> scaled_at W dither env i \<le> scaled_at W dither env j"
  unfolding scaled_at_def by (intro zdiv_mono1 mult_left_mono cdf_at_mono) auto

lemma scaled_at_less:
  assumes "16777216 \<le> W" "cdf_at dither env i < cdf_at dither env j"
  shows "scaled_at W dither env i < scaled_at W dither env j"
  using interval_shrinks(1) [of W "cdf_at dither env i" "cdf_at dither env j"] assms piecewise_range
  by (simp add: scaled_at_def cdf_at_def)

lemma s16_cand:
  assumes "-32767 \<le> cand_at dither (i + k)" "cand_at dither (i + k) \<le> 32767"
  shows "s16 (cand_at dither i + 128 * k) = cand_at dither (i + k)"
proof -
  have "cand_at dither i + 128 * k = cand_at dither (i + k)" by (simp add: cand_at_def)
  with assms show ?thesis by (simp add: s16_idI)
qed

lemma logist_up_finds:
  assumes env: "env_ok env" and W: "16777216 \<le> W" "W < 4294967296"
    and X: "scaled_at W dither env (j - 1) < X" "X \<le> scaled_at W dither env j"
    and range: "-32767 \<le> cand_at dither i" "cand_at dither j \<le> 32767" and ij: "i \<le> j"
    and dj: "coeff_ok (128 * j - dither)"
    and path: "\<And>m. i \<le> m \<Longrightarrow> m < j \<Longrightarrow> cdf_at dither env m < cdf_at dither env (m + 1)"
  shows "logist_up env W X (cand_at dither i) (scaled_at W dither env (i - 1)) (scaled_at W dither env i)
    = Some (Found (128 * j - dither) (scaled_at W dither env (j - 1)) (scaled_at W dither env j))"
  using range(1) ij path
proof (induction "nat (j - i)" arbitrary: i)
  case 0
  then have "i = j" by simp
  moreover have "s16 (cand_at dither j - 64) = 128 * j - dither"
    using dj by (auto simp: cand_at_def coeff_ok_def intro!: s16_idI)
  ultimately show ?case using X(2) by (subst logist_up.simps) simp
next
  case (Suc n)
  then have ij: "i < j" by simp
  have le: "scaled_at W dither env i \<le> scaled_at W dither env (j - 1)"
    using ij W by (intro scaled_at_mono env) auto
  have c: "-32767 \<le> cand_at dither (i + 1)" "cand_at dither (i + 1) \<le> 32767"
    using Suc.prems(1) ij range(2) by (auto simp: cand_at_def)
  have s: "s16 (cand_at dither i + 128) = cand_at dither (i + 1)"
    using s16_cand [of dither i 1] c by simp
  have W1: "scale_cdf W (piecewise (mul32 (cand_at dither (i + 1)) env)) = scaled_at W dither env (i + 1)"
    using W c by (intro scaled_at_eq env) auto
  have lt: "scaled_at W dither env i < scaled_at W dither env (i + 1)"
    using Suc.prems(3) ij by (intro scaled_at_less W) auto
  have "logist_up env W X (cand_at dither (i + 1)) (scaled_at W dither env (i + 1 - 1)) (scaled_at W dither env (i + 1))
    = Some (Found (128 * j - dither) (scaled_at W dither env (j - 1)) (scaled_at W dither env j))"
    using Suc.hyps(2) Suc.prems(3) c ij by (intro Suc.hyps(1)) auto
  then show ?case
    using X(1) le lt by (subst logist_up.simps) (simp add: s W1)
qed

lemma logist_down_finds:
  assumes env: "env_ok env" and W: "16777216 \<le> W" "W < 4294967296"
    and X: "scaled_at W dither env (j - 1) < X" "X \<le> scaled_at W dither env j"
    and range: "cand_at dither i \<le> 32767" "-32767 \<le> cand_at dither (j - 1)" and ij: "j - 1 \<le> i"
    and dj: "coeff_ok (128 * j - dither)"
    and path: "\<And>m. j - 1 \<le> m \<Longrightarrow> m < i \<Longrightarrow> cdf_at dither env m < cdf_at dither env (m + 1)"
  shows "logist_down env W X (cand_at dither i) (scaled_at W dither env (i + 1)) (scaled_at W dither env i)
    = Some (Found (128 * j - dither) (scaled_at W dither env (j - 1)) (scaled_at W dither env j))"
  using range(1) ij path
proof (induction "nat (i - (j - 1))" arbitrary: i)
  case 0
  then have i: "i = j - 1" by simp
  moreover have "s16 (cand_at dither (j - 1) + 64) = 128 * j - dither"
    using dj by (auto simp: cand_at_def coeff_ok_def intro!: s16_idI)
  ultimately show ?case using X(1) by (subst logist_down.simps) simp
next
  case (Suc n)
  then have ij: "j - 1 < i" by simp
  have le: "scaled_at W dither env j \<le> scaled_at W dither env i"
    using ij W by (intro scaled_at_mono env) auto
  have c: "-32767 \<le> cand_at dither (i - 1)" "cand_at dither (i - 1) \<le> 32767"
    using Suc.prems(1) ij range(2) by (auto simp: cand_at_def)
  have s: "s16 (cand_at dither i - 128) = cand_at dither (i - 1)"
    using s16_cand [of dither i "-1"] c by simp
  have W1: "scale_cdf W (piecewise (mul32 (cand_at dither (i - 1)) env)) = scaled_at W dither env (i - 1)"
    using W c by (intro scaled_at_eq env) auto
  have lt: "scaled_at W dither env (i - 1) < scaled_at W dither env i"
    using Suc.prems(3) [of "i - 1"] ij by (intro scaled_at_less W) auto
  have "logist_down env W X (cand_at dither (i - 1)) (scaled_at W dither env (i - 1 + 1)) (scaled_at W dither env (i - 1))
    = Some (Found (128 * j - dither) (scaled_at W dither env (j - 1)) (scaled_at W dither env j))"
    using Suc.hyps(2) Suc.prems(3) c ij by (intro Suc.hyps(1)) auto
  then show ?case
    using X(2) le lt by (subst logist_down.simps) (simp add: s W1)
qed

lemma logist_up_stops:
  assumes env: "env_ok env" and W: "16777216 \<le> W" "W < 4294967296"
    and X: "scaled_at W dither env (j - 1) < X"
    and range: "-32767 \<le> cand_at dither i" "cand_at dither j \<le> 32767"
    and m: "i \<le> m" "m < j" "cdf_at dither env m = cdf_at dither env (m + 1)"
  shows "logist_up env W X (cand_at dither i) (scaled_at W dither env (i - 1)) (scaled_at W dither env i)
    = Some RangeError"
  using range(1) m(1)
proof (induction "nat (m - i)" arbitrary: i)
  case (0 i)
  then have i: "i = m" by simp
  have le: "scaled_at W dither env m \<le> scaled_at W dither env (j - 1)"
    using m(2) W by (intro scaled_at_mono env) auto
  have c: "-32767 \<le> cand_at dither (m + 1)" "cand_at dither (m + 1) \<le> 32767"
    using 0 i m(2) range(2) by (auto simp: cand_at_def)
  have "s16 (cand_at dither m + 128) = cand_at dither (m + 1)"
    using s16_cand [of dither m 1] c by simp
  moreover have "scale_cdf W (piecewise (mul32 (cand_at dither (m + 1)) env)) = scaled_at W dither env m"
    using W c m(3) scaled_at_eq [OF env, of W dither "m + 1"] by (simp add: scaled_at_def)
  ultimately show ?case using X le unfolding i by (subst logist_up.simps) simp
next
  case (Suc n i)
  then have im: "i < m" by simp
  have le: "scaled_at W dither env i \<le> scaled_at W dither env (j - 1)"
    using im m(2) W by (intro scaled_at_mono env) auto
  have c: "-32767 \<le> cand_at dither (i + 1)" "cand_at dither (i + 1) \<le> 32767"
    using Suc.prems(1) im m(2) range(2) by (auto simp: cand_at_def)
  have s: "s16 (cand_at dither i + 128) = cand_at dither (i + 1)"
    using s16_cand [of dither i 1] c by simp
  have W1: "scale_cdf W (piecewise (mul32 (cand_at dither (i + 1)) env)) = scaled_at W dither env (i + 1)"
    using W c by (intro scaled_at_eq env) auto
  have "logist_up env W X (cand_at dither (i + 1)) (scaled_at W dither env (i + 1 - 1)) (scaled_at W dither env (i + 1))
    = Some RangeError"
    using Suc.hyps(2) c im by (intro Suc.hyps(1)) auto
  then show ?case
    using X le by (subst logist_up.simps) (simp add: s W1)
qed

lemma logist_down_stops:
  assumes env: "env_ok env" and W: "16777216 \<le> W" "W < 4294967296"
    and X: "X \<le> scaled_at W dither env j"
    and range: "cand_at dither i \<le> 32767" "-32767 \<le> cand_at dither (j - 1)"
    and m: "j \<le> m" "m < i" "cdf_at dither env m = cdf_at dither env (m + 1)"
  shows "logist_down env W X (cand_at dither i) (scaled_at W dither env (i + 1)) (scaled_at W dither env i)
    = Some RangeError"
  using range(1) m(2)
proof (induction "nat (i - 1 - m)" arbitrary: i)
  case (0 i)
  then have i: "i = m + 1" by simp
  have le: "scaled_at W dither env j \<le> scaled_at W dither env (m + 1)"
    using m(1) W by (intro scaled_at_mono env) auto
  have c: "-32767 \<le> cand_at dither m" "cand_at dither m \<le> 32767"
    using 0 i m(1) range(2) by (auto simp: cand_at_def)
  have "s16 (cand_at dither (m + 1) - 128) = cand_at dither m"
    using s16_cand [of dither "m + 1" "-1"] c by simp
  moreover have "scale_cdf W (piecewise (mul32 (cand_at dither m) env)) = scaled_at W dither env (m + 1)"
    using W c m(3) scaled_at_eq [OF env, of W dither m] by (simp add: scaled_at_def)
  ultimately show ?case using X le unfolding i by (subst logist_down.simps) simp
next
  case (Suc n i)
  then have im: "m < i - 1" by simp
  have le: "scaled_at W dither env j \<le> scaled_at W dither env i"
    using im m(1) W by (intro scaled_at_mono env) auto
  have c: "-32767 \<le> cand_at dither (i - 1)" "cand_at dither (i - 1) \<le> 32767"
    using Suc.prems(1) im m(1) range(2) by (auto simp: cand_at_def)
  have s: "s16 (cand_at dither i - 128) = cand_at dither (i - 1)"
    using s16_cand [of dither i "-1"] c by simp
  have W1: "scale_cdf W (piecewise (mul32 (cand_at dither (i - 1)) env)) = scaled_at W dither env (i - 1)"
    using W c by (intro scaled_at_eq env) auto
  have "logist_down env W X (cand_at dither (i - 1)) (scaled_at W dither env (i - 1 + 1)) (scaled_at W dither env (i - 1))
    = Some RangeError"
    using Suc.hyps(2) c im by (intro Suc.hyps(1)) auto
  then show ?case
    using X le by (subst logist_down.simps) (simp add: s W1)
qed

text \<open>The whole search for the coefficient whose interval holds the value: it finds the coefficient when
  the way to it is clear and stops with the error of the range check when it is not.\<close>

lemma logist_search_start:
  assumes al: "logist_aligned dither env d" and W: "16777216 \<le> W" "W < 4294967296"
    and X: "W * fst (logist_pair env d) div 65536 < X" "X \<le> W * snd (logist_pair env d) div 65536"
  defines "j \<equiv> (d + dither) div 128"
  shows "scaled_at W dither env (j - 1) < X" "X \<le> scaled_at W dither env j"
    "-32767 \<le> cand_at dither (j - 1)" "cand_at dither j \<le> 32767" "coeff_ok (128 * j - dither)" "128 * j - dither = d"
    "scaled_at W dither env (j - 1) = W * fst (logist_pair env d) div 65536"
    "scaled_at W dither env j = W * snd (logist_pair env d) div 65536"
    "cdf_at dither env (j - 1) < cdf_at dither env j"
    "1 \<le> j \<and> -32767 \<le> cand_at dither 1 \<and> logist_search dither env W X =
       logist_up env W X (cand_at dither 1) (scaled_at W dither env (1 - 1)) (scaled_at W dither env 1) \<or>
     j \<le> 0 \<and> cand_at dither (-1) \<le> 32767 \<and> logist_search dither env W X =
       logist_down env W X (cand_at dither (-1)) (scaled_at W dither env (-1 + 1)) (scaled_at W dither env (-1))"
proof -
  have env: "env_ok env" and d: "coeff_ok d" "d = 128 * j - dither" and dit: "-32703 \<le> dither" "dither \<le> 32767"
    and gap: "fst (logist_pair env d) < snd (logist_pair env d)"
    using al unfolding logist_aligned_def j_def by auto
  have pair: "fst (logist_pair env d) = cdf_at dither env (j - 1)" "snd (logist_pair env d) = cdf_at dither env j"
    by (simp_all add: logist_pair_def cdf_at_def cand_at_def d(2) algebra_simps)
  show sc: "scaled_at W dither env (j - 1) = W * fst (logist_pair env d) div 65536"
    "scaled_at W dither env j = W * snd (logist_pair env d) div 65536"
    by (simp_all add: pair scaled_at_def)
  show X': "scaled_at W dither env (j - 1) < X" "X \<le> scaled_at W dither env j"
    using X by (simp_all add: sc)
  show c: "-32767 \<le> cand_at dither (j - 1)" "cand_at dither j \<le> 32767"
    using d by (auto simp: cand_at_def coeff_ok_def)
  show "coeff_ok (128 * j - dither)" "128 * j - dither = d" "cdf_at dither env (j - 1) < cdf_at dither env j"
    using d gap pair by simp_all
  have W0: "0 \<le> W" using W by simp
  have c0: "s16 (64 - dither) = cand_at dither 0" "-32767 \<le> cand_at dither 0" "cand_at dither 0 \<le> 32767"
    using dit by (auto simp: cand_at_def intro!: s16_idI)
  note sc0 = scaled_at_eq [OF env W0 W(2) c0(2,3)]
  show "1 \<le> j \<and> -32767 \<le> cand_at dither 1 \<and> logist_search dither env W X =
       logist_up env W X (cand_at dither 1) (scaled_at W dither env (1 - 1)) (scaled_at W dither env 1) \<or>
     j \<le> 0 \<and> cand_at dither (-1) \<le> 32767 \<and> logist_search dither env W X =
       logist_down env W X (cand_at dither (-1)) (scaled_at W dither env (-1 + 1)) (scaled_at W dither env (-1))"
  proof (cases "scaled_at W dither env 0 < X")
    case True
    have j: "1 \<le> j"
    proof (rule ccontr)
      assume "\<not> 1 \<le> j"
      then have "scaled_at W dither env j \<le> scaled_at W dither env 0"
        using W0 by (intro scaled_at_mono env) auto
      with True X'(2) show False by simp
    qed
    have c1: "-32767 \<le> cand_at dither 1" "cand_at dither 1 \<le> 32767"
      using c(2) c0(2) j by (auto simp: cand_at_def)
    have s1: "s16 (cand_at dither 0 + 128) = cand_at dither 1" using s16_cand [of dither 0 1] c1 by simp
    show ?thesis
      using True j c1(1) unfolding logist_search_def Let_def
      by (simp add: c0(1) sc0 s1 scaled_at_eq [OF env W0 W(2) c1])
  next
    case False
    have j: "j \<le> 0"
    proof (rule ccontr)
      assume "\<not> j \<le> 0"
      then have "scaled_at W dither env 0 \<le> scaled_at W dither env (j - 1)"
        using W0 by (intro scaled_at_mono env) auto
      with False X'(1) show False by simp
    qed
    have c1: "-32767 \<le> cand_at dither (-1)" "cand_at dither (-1) \<le> 32767"
      using c(1) c0(3) j by (auto simp: cand_at_def)
    have s1: "s16 (cand_at dither 0 - 128) = cand_at dither (-1)"
      using s16_cand [of dither 0 "-1"] c1 by simp
    show ?thesis
      using False j c1(2) unfolding logist_search_def Let_def
      by (simp add: c0(1) sc0 s1 scaled_at_eq [OF env W0 W(2) c1])
  qed
qed

lemma logist_search_finds:
  assumes v: "logist_valid dither env d" and W: "16777216 \<le> W" "W < 4294967296"
    and X: "W * fst (logist_pair env d) div 65536 < X" "X \<le> W * snd (logist_pair env d) div 65536"
  shows "logist_search dither env W X = Some (Found d (W * fst (logist_pair env d) div 65536)
    (W * snd (logist_pair env d) div 65536))"
proof -
  define j where "j = (d + dither) div 128"
  have al: "logist_aligned dither env d" and env: "env_ok env"
    using v by (auto simp: logist_valid_def logist_aligned_def)
  note st = logist_search_start [OF al W X, folded j_def]
  have steps: "cdf_at dither env i < cdf_at dither env (i + 1)"
    if "1 \<le> i \<and> i \<le> j - 1 \<or> j - 1 \<le> i \<and> i \<le> -2" for i
    using that v st(9) unfolding logist_valid_def logist_path_def j_def [symmetric] Let_def
    by (cases "i = j - 1") (auto simp: list_all_iff)
  show ?thesis
    using st(10)
  proof (elim disjE conjE)
    assume j: "1 \<le> j" and c1: "-32767 \<le> cand_at dither 1"
      and eq: "logist_search dither env W X =
        logist_up env W X (cand_at dither 1) (scaled_at W dither env (1 - 1)) (scaled_at W dither env 1)"
    show ?thesis
      unfolding eq using logist_up_finds [OF env W st(1,2) c1 st(4) j st(5)] steps st(6-8) by simp
  next
    assume j: "j \<le> 0" and c1: "cand_at dither (-1) \<le> 32767"
      and eq: "logist_search dither env W X =
        logist_down env W X (cand_at dither (-1)) (scaled_at W dither env (-1 + 1)) (scaled_at W dither env (-1))"
    show ?thesis
      unfolding eq using logist_down_finds [OF env W st(1,2) c1 st(3) _ st(5)] j steps st(6-8) by simp
  qed
qed

lemma logist_search_stops:
  assumes al: "logist_aligned dither env d" "\<not> logist_valid dither env d" and W: "16777216 \<le> W" "W < 4294967296"
    and X: "W * fst (logist_pair env d) div 65536 < X" "X \<le> W * snd (logist_pair env d) div 65536"
  shows "logist_search dither env W X = Some RangeError"
proof -
  define j where "j = (d + dither) div 128"
  have env: "env_ok env" using al(1) by (simp add: logist_aligned_def)
  note st = logist_search_start [OF al(1) W X, folded j_def]
  obtain m where m: "1 \<le> m \<and> m \<le> j - 2 \<or> j \<le> m \<and> m \<le> -2"
    "\<not> cdf_at dither env m < cdf_at dither env (m + 1)"
    using al unfolding logist_valid_def logist_path_def j_def [symmetric] Let_def
    by (auto simp: list_all_iff) blast+
  have eqm: "cdf_at dither env m = cdf_at dither env (m + 1)"
    using cdf_at_mono [OF env, of m "m + 1" dither] m(2) by simp
  show ?thesis
    using st(10)
  proof (elim disjE conjE)
    assume j: "1 \<le> j" and c1: "-32767 \<le> cand_at dither 1"
      and eq: "logist_search dither env W X =
        logist_up env W X (cand_at dither 1) (scaled_at W dither env (1 - 1)) (scaled_at W dither env 1)"
    show ?thesis
      unfolding eq by (rule logist_up_stops [OF env W st(1) c1 st(4) _ _ eqm]) (use m(1) j in auto)
  next
    assume j: "j \<le> 0" and c1: "cand_at dither (-1) \<le> 32767"
      and eq: "logist_search dither env W X =
        logist_down env W X (cand_at dither (-1)) (scaled_at W dither env (-1 + 1)) (scaled_at W dither env (-1))"
    show ?thesis
      unfolding eq by (rule logist_down_stops [OF env W st(2) c1 st(3) _ _ eqm]) (use m(1) j in auto)
  qed
qed

definition logist_find :: "int \<times> int \<Rightarrow> int \<Rightarrow> int \<Rightarrow> int \<Rightarrow> found" where
  "logist_find t Wl W X = (case logist_search (fst t) (snd t) W X of None \<Rightarrow> BadAccess | Some f \<Rightarrow> f)"

interpretation logist_coder: symbol_search logist_find "\<lambda>t. logist_pair (snd t)" "\<lambda>d. d"
  "\<lambda>t. logist_valid (fst t) (snd t)"
proof
  fix t :: "int \<times> int" and d W X Wl :: int
  assume v: "logist_valid (fst t) (snd t) d"
  show "cdf_pair_ok (logist_pair (snd t) d)"
    using v piecewise_range by (auto simp: logist_valid_def logist_aligned_def cdf_pair_ok_def logist_pair_def)
  assume "16777216 \<le> W" "W < 4294967296" "W * fst (logist_pair (snd t) d) div 65536 < X"
    "X \<le> W * snd (logist_pair (snd t) d) div 65536"
  then show "logist_find t Wl W X = Found d (W * fst (logist_pair (snd t) d) div 65536)
      (W * snd (logist_pair (snd t) d) div 65536)"
    using logist_search_finds [OF v] by (simp add: logist_find_def)
qed

lemma logist_find_Found: "logist_find (dither, env) Wl W X = Found d lo hi \<longleftrightarrow>
    logist_search dither env W X = Some (Found d lo hi)"
  by (auto simp: logist_find_def split: option.splits)

subsection \<open>Decoding a vector\<close>

lemma dec_renorm_pos: "dec_renorm s p W v = Some (p', W', v') \<Longrightarrow> p \<le> p'"
proof (induction s p W v rule: dec_renorm.induct)
  case (1 s p W v)
  then show ?case
    by (subst (asm) (2) dec_renorm.simps) (fastforce split: if_splits)
qed

lemma dec_logist_renorm_eq:
  assumes "dec_renorm s p W v = Some (p', W', v')" "p' < 400"
  shows "dec_logist_renorm s p W v = Some (Some (p', W', v'))"
  using assms
proof (induction s p W v rule: dec_renorm.induct)
  case (1 s p W v)
  show ?case
  proof (cases "W AND 0xFF000000 = 0")
    case False
    then have "dec_logist_renorm s p W v = Some (Some (p, W, v))"
      by (simp add: dec_logist_renorm.simps [of s p W v])
    moreover have "(p', W', v') = (p, W, v)"
      using False "1.prems"(1) by (simp add: dec_renorm.simps [of s p W v])
    ultimately show ?thesis by simp
  next
    case True
    then have p: "p + 1 < length s" and rec: "dec_renorm s (p + 1)
        (u32 (W * 2 ^ 8)) (u32 (v * 2 ^ 8) OR s ! (p + 1)) = Some (p', W', v')"
      using "1.prems"(1) by (auto simp: dec_renorm.simps [of s p W v] split: if_splits)
    have "p + 1 < 400" using dec_renorm_pos [OF rec] "1.prems"(2) by simp
    then have "dec_logist_renorm s p W v = dec_logist_renorm s (p + 1)
        (u32 (W * 2 ^ 8)) (u32 (v * 2 ^ 8) OR s ! (p + 1))"
      using True p by (simp add: dec_logist_renorm.simps [of s p W v] STREAM_SIZE_MAX_60_def)
    then show ?thesis using "1.IH" [OF True p rec "1.prems"(2)] by simp
  qed
qed

lemma abs_steps_pos: "fst st \<le> fst (fold abs_step cs st)"
proof (induction cs arbitrary: st)
  case (Cons c cs)
  have "fst st \<le> fst (abs_step c st)"
    by (cases st; cases c) (simp add: abs_step_def Let_def)
  with Cons [of "abs_step c st"] show ?case by simp
qed simp

lemma shift_count_le: "shift_count W \<le> 3"
  by (simp add: shift_count_def)

lemma abs_steps_pos_le: "fst (fold abs_step cs st) \<le> fst st + 3 * length cs"
proof (induction cs arbitrary: st)
  case (Cons c cs)
  have "fst (abs_step c st) \<le> fst st + 3"
    by (cases c; cases st) (simp add: abs_step_def Let_def shift_count_le)
  then show ?case using Cons.IH [of "abs_step c st"] by simp
qed simp

lemma logist_pairs_ok:
  assumes "list_all2 (\<lambda>t d. logist_valid (fst t) (snd t) d) (zip dithers es) ds"
    and "length dithers = length ds"
  shows "\<forall>c\<in>set (map2 logist_pair es ds). cdf_pair_ok c"
proof
  fix c assume "c \<in> set (map2 logist_pair es ds)"
  then obtain i where i: "i < length es" "i < length ds" "c = logist_pair (es ! i) (ds ! i)"
    by (auto simp: in_set_conv_nth)
  then have "logist_valid (dithers ! i) (es ! i) (ds ! i)"
    using list_all2_nthD2 [OF assms(1) i(2)] assms(2) by simp
  then show "cdf_pair_ok c"
    using logist_coder.pair_ok [of "(dithers ! i, es ! i)" "ds ! i"] i(3) by simp
qed

lemma dec_logist_step:
  assumes s: "bytes_ok s" and w: "width_ok (i, low, W)" and v: "logist_valid x e d"
    and st': "abs_step (logist_pair e d) (i, low, W) = st'" and d1: "decodes s st'" and p': "fst st' + 3 < 400"
  defines "X \<equiv> bval (take (i + 4) s) - low"
  shows "\<exists>lo hi. logist_search x e W X = Some (Found d lo hi) \<and>
    dec_logist_renorm s (i + 3) (u32 (hi - u32 (lo + 1))) (u32 (X - u32 (lo + 1))) = Some (Some (decoder_state s st'))"
proof -
  obtain lo hi where f: "logist_search x e W X = Some (Found d lo hi)"
    "dec_renorm s (i + 3) (u32 (hi - u32 (lo + 1))) (u32 (X - u32 (lo + 1))) = Some (decoder_state s st')"
    using logist_coder.decode_one [OF s w, of "(x, e)" d] v d1
    unfolding logist_find_Found
    by (auto simp: st' X_def decoder_state_def split_def)
  have "dec_logist_renorm s (i + 3) (u32 (hi - u32 (lo + 1))) (u32 (X - u32 (lo + 1)))
      = Some (Some (decoder_state s st'))"
    using dec_logist_renorm_eq [of s "i + 3" _ _ "fst st' + 3"] f(2) p'
    by (cases st') (simp add: decoder_state_def)
  with f(1) show ?thesis by blast
qed

text \<open>Decoding a vector that the stream holds: up to the first coefficient that is not reachable, if
  there is one.\<close>

lemma dec_logist_loop_prefix:
  assumes s: "bytes_ok s" and "width_ok st"
    and "env_of (length ds) k env swb = Some es" "length dithers = length ds"
    and "\<forall>c\<in>set (map2 logist_pair es ds). cdf_pair_ok c"
    and "decodes s (fold abs_step (map2 logist_pair es ds) st)"
    and "fst (fold abs_step (map2 logist_pair es ds) st) + 3 < 400"
    and "list_all2 (\<lambda>t d. logist_aligned (fst t) (snd t) d) (zip dithers es) ds"
  defines "valid \<equiv> \<lambda>(t, d). logist_valid (fst t) (snd t) d"
  defines "good \<equiv> takeWhile valid (zip (zip dithers es) ds)"
  shows "dec_logist_loop (length ds) k env dithers swb s (decoder_state s st)
    = Some (map snd good, if length good = length ds
        then Some (decoder_state s (fold abs_step (map2 logist_pair es ds) st)) else None)"
  unfolding good_def using assms(2-8)
proof (induction ds arbitrary: k env es dithers st)
  case Nil
  then show ?case by simp
next
  case (Cons d ds)
  obtain e es' where es: "env \<noteq> []" "e = hd env" "es = e # es'"
    "env_of (length ds) (Suc k) (drop (env_step swb k) env) swb = Some es'"
    using Cons.prems(2) by (auto split: if_splits)
  obtain x dithers' where dit: "dithers = x # dithers'" "length dithers' = length ds"
    using Cons.prems(3) by (cases dithers) auto
  have al: "logist_aligned x e d"
    and als: "list_all2 (\<lambda>t d. logist_aligned (fst t) (snd t) d) (zip dithers' es') ds"
    using Cons.prems(7) es(3) dit(1) by auto
  obtain i low W where st: "st = (i, low, W)" by (cases st)
  define X where "X = bval (take (i + 4) s) - low"
  define st' where "st' = abs_step (logist_pair e d) st"
  have cok: "cdf_pair_ok (logist_pair e d)" and pairs: "\<forall>c\<in>set (map2 logist_pair es' ds). cdf_pair_ok c"
    using Cons.prems(4) es(3) by auto
  have w': "width_ok st'" unfolding st'_def using Cons.prems(1) cok by (rule abs_step_width)
  have dec: "decodes s (fold abs_step (map2 logist_pair es' ds) st')"
    and fin: "fst (fold abs_step (map2 logist_pair es' ds) st') + 3 < 400"
    using Cons.prems(5,6) es(3) by (simp_all add: st'_def)
  have d1: "decodes s st'" by (rule decodes_symbols [OF s w' pairs dec])
  have p': "fst st' + 3 < 400" using fin abs_steps_pos [of st' "map2 logist_pair es' ds"] by simp
  have ds: "decoder_state s st = (i + 3, W, X)" by (simp add: decoder_state_def st X_def)
  show ?case
  proof (cases "logist_valid x e d")
    case True
    obtain lo hi where f: "logist_search x e W X = Some (Found d lo hi)"
      "dec_logist_renorm s (i + 3) (u32 (hi - u32 (lo + 1))) (u32 (X - u32 (lo + 1))) = Some (Some (decoder_state s st'))"
      using dec_logist_step [OF s, of i low W x e d st'] Cons.prems(1) True d1 p' st
      by (auto simp: st'_def X_def)
    then show ?thesis
      using Cons.IH [OF w' es(4) dit(2) pairs dec fin als] ds es dit True
      by (simp add: Let_def st'_def valid_def)
  next
    case False
    obtain clo chi where c: "logist_pair e d = (clo, chi)" by fastforce
    note dec1 = decodes_symbol(1,2) [of s i low W clo chi, folded X_def]
    have "logist_search x e W X = Some RangeError"
      using dec1 Cons.prems(1) d1 cok s logist_search_stops [OF al False, of W X] c
      by (auto simp: st st'_def width_ok_def)
    then show ?thesis
      using ds es dit False by (simp add: valid_def)
  qed
qed

lemma dec_logist_loop_blocked:
  assumes "bytes_ok s" "width_ok st" "env_of (length ds) k env swb = Some es" "length dithers = length ds"
    and "\<forall>c\<in>set (map2 logist_pair es ds). cdf_pair_ok c"
    and "decodes s (fold abs_step (map2 logist_pair es ds) st)"
    and "fst (fold abs_step (map2 logist_pair es ds) st) + 3 < 400"
    and al: "\<And>i. i < length ds \<Longrightarrow> logist_aligned (dithers ! i) (es ! i) (ds ! i)"
    and i: "i < length ds" "\<forall>k<i. logist_valid (dithers ! k) (es ! k) (ds ! k)"
      "\<not> logist_valid (dithers ! i) (es ! i) (ds ! i)"
  shows "dec_logist_loop (length ds) k env dithers swb s (decoder_state s st) = Some (take i ds, None)"
proof -
  have les: "length es = length ds" by (rule env_of_length [OF assms(3)])
  have all: "list_all2 (\<lambda>t d. logist_aligned (fst t) (snd t) d) (zip dithers es) ds"
    using al assms(4) les by (auto simp: list_all2_conv_all_nth)
  have take: "takeWhile (\<lambda>(t, d). logist_valid (fst t) (snd t) d) (zip (zip dithers es) ds)
      = take i (zip (zip dithers es) ds)"
    using i assms(4) les by (intro takeWhile_eq_take_P_nth) auto
  have "map snd (take i (zip (zip dithers es) ds)) = take i ds"
    using assms(4) les by (simp flip: take_map)
  then show ?thesis
    using dec_logist_loop_prefix [OF assms(1-7) all] i(1) assms(4) les unfolding take by simp
qed

lemma dec_logist_loop_correct:
  assumes s: "bytes_ok s" and w: "width_ok st"
    and env: "env_of (length ds) k env swb = Some es" "length dithers = length ds"
    and v: "list_all2 (\<lambda>t d. logist_valid (fst t) (snd t) d) (zip dithers es) ds"
    and dec: "decodes s (fold abs_step (map2 logist_pair es ds) st)"
      "fst (fold abs_step (map2 logist_pair es ds) st) + 3 < 400"
  shows "dec_logist_loop (length ds) k env dithers swb s (decoder_state s st)
    = Some (ds, Some (decoder_state s (fold abs_step (map2 logist_pair es ds) st)))"
proof -
  have al: "list_all2 (\<lambda>t d. logist_aligned (fst t) (snd t) d) (zip dithers es) ds"
    using v by (auto simp: logist_valid_def elim: list_all2_mono)
  have len: "length (zip dithers es) = length ds" using list_all2_lengthD [OF v] .
  have all: "takeWhile (\<lambda>(t, d). logist_valid (fst t) (snd t) d) (zip (zip dithers es) ds) = zip (zip dithers es) ds"
    unfolding takeWhile_eq_all_conv using v by (auto simp: list_all2_iff)
  show ?thesis
    using dec_logist_loop_prefix [OF s w env logist_pairs_ok [OF v env(2)] dec al] len unfolding all by simp
qed

subsection \<open>Properties\<close>

text \<open>What a finished encoder hands to the terminator, and how the decoder reads it back.\<close>

lemma logist_decodes:
  assumes ready: "enc_ready (s, p, W, v)" "p + 2 \<le> length s"
  shows "\<exists>n b2. WebRtcIsac_EncTerminate (b\<lparr>stream := s, W_upper := W, streamval := v, stream_index := p\<rparr>)
      = Some (n, b2) \<and> int n = stream_bytes (p + 3) W \<and>
    (\<forall>B. bytes_ok B \<and> p + 4 \<le> length B \<and> take n B = take n (stream b2) \<longrightarrow>
      decodes B (abs_of (s, p, W, v)))"
proof -
  define b1 where "b1 = b\<lparr>stream := s, W_upper := W, streamval := v, stream_index := p\<rparr>"
  define n where "n = p + (if W > 0x01FFFFFF then 1 else 2)"
  obtain b2 where "WebRtcIsac_EncTerminate b1 = Some (n, b2)"
    "\<forall>B. bytes_ok B \<and> p + 4 \<le> length B \<and> take n B = take n (stream b2) \<longrightarrow> decodes B (abs_of (s, p, W, v))"
    using EncTerminate_correct [of b1] ready by (auto simp: b1_def n_def)
  moreover have "int n = stream_bytes (p + 3) W" by (simp add: n_def stream_bytes_def)
  ultimately show ?thesis unfolding b1_def by blast
qed

lemma first_logist_decode:
  assumes "bytes_ok B" "4 \<le> length B"
  shows "start_logist_decoder \<lparr>stream = B, W_upper = 0xFFFFFFFF, streamval = v, stream_index = 0\<rparr> =
    Some (Some (bval (take 4 B), 3))"
  using read_first_word_eq [OF assms] by (simp add: start_logist_decoder_def STREAM_SIZE_MAX_60_def)

lemma logist_decoded:
  assumes B: "bytes_ok B" "400 \<le> length B"
    and es: "env_of (length ds) 0 env swb = Some es" "length dithers = length ds"
    and valid: "list_all2 (\<lambda>t d. logist_valid (fst t) (snd t) d) (zip dithers es) ds"
    and st: "fold abs_step (map2 logist_pair es ds) (0, 0, 0xFFFFFFFF) = (p, low, W)"
    and dec: "decodes B (p, low, W)" "p \<le> 396"
  shows "\<exists>b3. WebRtcIsac_DecLogisticMulti2 \<lparr>stream = B, W_upper = 0xFFFFFFFF, streamval = v, stream_index = 0\<rparr>
      env dithers (length ds) swb = Some (stream_bytes (p + 3) W, ds, b3)"
proof -
  have "decoder_state B (0, 0, 0xFFFFFFFF) = (3, 0xFFFFFFFF, bval (take 4 B))"
    by (simp add: decoder_state_def)
  moreover have "dec_logist_loop (length ds) 0 env dithers swb B (decoder_state B (0, 0, 0xFFFFFFFF))
      = Some (ds, Some (decoder_state B (p, low, W)))"
    using dec_logist_loop_correct [OF B(1) _ es valid, of "(0, 0, 0xFFFFFFFF)"] dec
    by (simp add: st width_ok_def)
  ultimately show ?thesis
    using B by (simp add: WebRtcIsac_DecLogisticMulti2_def first_logist_decode decoder_state_def)
qed

lemma logist_encoded:
  assumes "stream_index b = 0" "W_upper b = 0xFFFFFFFF" "streamval b = 0" "bytes_ok (stream b)"
    and "length (stream b) = STREAM_SIZE_MAX"
    and "env_of (length data) 0 env swb = Some es" "list_all env_ok es" "list_all coeff_ok data"
    and "WebRtcIsac_EncLogisticMulti2 b data env (length data) swb = Some (0, ds, b1)"
  shows "\<exists>p low W n b2. WebRtcIsac_EncTerminate b1 = Some (n, b2) \<and> stream_index b1 = p \<and> int n = stream_bytes (p + 3) W \<and>
    fold abs_step (map2 logist_pair es ds) (0, 0, 0xFFFFFFFF) = (p, low, W) \<and>
    (\<forall>c\<in>set (map2 logist_pair es ds). cdf_pair_ok c) \<and> length ds = length data \<and> p \<le> 3 * length data \<and>
    list_all2 (\<lambda>d d'. coeff_ok d' \<and> d' mod 128 = d mod 128 \<and> \<bar>d'\<bar> \<le> \<bar>d\<bar>) data ds \<and>
    (\<forall>B. bytes_ok B \<and> p + 4 \<le> length B \<and> take n B = take n (stream b2) \<longrightarrow> decodes B (p, low, W))"
proof -
  note ready = enc_ready_initial [OF assms(1-4)]
  have len: "length (stream b) = 600" using assms(5) by (simp add: STREAM_SIZE_MAX_def)
  obtain ds' r where loop: "enc_logist_loop 0 data env swb (stream b, stream_index b, W_upper b, streamval b)
      = Some (ds', r)" "length ds' = length data"
    and fin: "\<And>st. r = Inr st \<Longrightarrow> enc_ready st \<and> length (fst st) = 600 \<and> fst (snd st) < 400 \<and>
       abs_of st = fold abs_step (map2 logist_pair es ds') (0, 0, 0xFFFFFFFF) \<and>
       (\<forall>c\<in>set (map2 logist_pair es ds'). cdf_pair_ok c) \<and>
       list_all2 (\<lambda>d d'. coeff_ok d' \<and> d' mod 128 = d mod 128 \<and> \<bar>d'\<bar> \<le> \<bar>d\<bar>) data ds'"
    using enc_logist_loop_eq [OF assms(6-8) ready(1)] len assms(1) unfolding ready(2) by auto
  obtain st where r: "r = Inr st" and ds: "ds' = ds"
    using assms(9) loop
    by (cases r) (auto simp: WebRtcIsac_EncLogisticMulti2_def ISAC_DISALLOWED_BITSTREAM_LENGTH_def split: prod.splits)
  obtain s p W v where st: "st = (s, p, W, v)" by (cases st)
  note f = fin [OF r, unfolded st ds]
  have b1: "b1 = b\<lparr>stream := s, W_upper := W, streamval := v, stream_index := p\<rparr>"
    using assms(9) loop r st ds by (simp add: WebRtcIsac_EncLogisticMulti2_def)
  obtain n b2 where t: "WebRtcIsac_EncTerminate b1 = Some (n, b2)" "int n = stream_bytes (p + 3) W"
    "\<forall>B. bytes_ok B \<and> p + 4 \<le> length B \<and> take n B = take n (stream b2) \<longrightarrow>
      decodes B (abs_of (s, p, W, v))"
    using logist_decodes [of s p W v b] f unfolding b1 by auto
  have fold: "fold abs_step (map2 logist_pair es ds) (0, 0, 0xFFFFFFFF) = (p, low_of s p v, W)"
    using f by (simp add: abs_of_def)
  have "length (map2 logist_pair es ds) \<le> length data" using loop(2) ds by simp
  then have "p \<le> 3 * length data"
    using abs_steps_pos_le [of "map2 logist_pair es ds" "(0, 0, 0xFFFFFFFF)"] unfolding fold fst_conv by linarith
  moreover have "stream_index b1 = p" by (simp add: b1)
  ultimately show ?thesis
    using t fold f loop(2) ds
    by (intro exI [of _ p] exI [of _ "low_of s p v"] exI [of _ W] exI [of _ n] exI [of _ b2]) (simp add: abs_of_def)
qed

text \<open>C3: The logistic coder. From a fresh stream buffer, encoding any coefficients and non-zero
  envelope values in range ends and returns 0, or the documented error when the stream would
  exceed its limit (never for up to 133 coefficients); it changes a coefficient only towards zero
  and by multiples of 128, which the dither does not notice. After terminating, decoding any
  buffer that starts with the bytes written gives back exactly the coefficients the encoder left
  in the data vector and the number of bytes, provided every coefficient is reachable from the
  decoder's first candidate (\<open>logist_valid\<close>: it fits the dither, and the distribution function grows
  between all candidates on the way) and the encoder ended at byte 396 or before, so that the decoder can
  read four bytes from there; up to 132 coefficients always end there.\<close>

theorem logistic_roundtrip:
  assumes "stream_index b = 0" "W_upper b = 0xFFFFFFFF" "streamval b = 0" "bytes_ok (stream b)"
    and "length (stream b) = STREAM_SIZE_MAX"
    and "env_of (length data) 0 env swb = Some es" "list_all env_ok es" "list_all coeff_ok data"
    and "length dither = length data"
  shows "\<exists>r ds b1. WebRtcIsac_EncLogisticMulti2 b data env (length data) swb = Some (r, ds, b1) \<and>
    (r = 0 \<or> r = - ISAC_DISALLOWED_BITSTREAM_LENGTH) \<and> (length data \<le> 133 \<longrightarrow> r = 0) \<and>
    (r = 0 \<longrightarrow>
      list_all2 (\<lambda>d d'. d' mod 128 = d mod 128 \<and> \<bar>d'\<bar> \<le> \<bar>d\<bar>) data ds \<and>
      (length data \<le> 132 \<longrightarrow> stream_index b1 \<le> 396) \<and>
      (\<exists>n b2. WebRtcIsac_EncTerminate b1 = Some (n, b2) \<and>
        (stream_index b1 \<le> 396 \<and>
         list_all2 (\<lambda>t d. logist_valid (fst t) (snd t) d) (zip dither es) ds \<longrightarrow>
         (\<forall>B v. bytes_ok B \<and> 400 \<le> length B \<and> take n B = take n (stream b2) \<longrightarrow>
           (\<exists>b3. WebRtcIsac_DecLogisticMulti2
              \<lparr>stream = B, W_upper = 0xFFFFFFFF, streamval = v, stream_index = 0\<rparr> env dither (length data) swb
              = Some (int n, ds, b3))))))"
proof -
  note ready = enc_ready_initial [OF assms(1-4)]
  have len: "length (stream b) = 600" using assms(5) by (simp add: STREAM_SIZE_MAX_def)
  obtain ds0 q where loop: "enc_logist_loop 0 data env swb (stream b, stream_index b, W_upper b, streamval b)
      = Some (ds0, q)" and short: "3 * length data < 400 \<Longrightarrow> \<exists>st. q = Inr st"
    using enc_logist_loop_eq [OF assms(6-8) ready(1)] len assms(1) unfolding ready(2) by auto
  then obtain r ds b1 where enc: "WebRtcIsac_EncLogisticMulti2 b data env (length data) swb = Some (r, ds, b1)"
    "r = 0 \<or> r = - ISAC_DISALLOWED_BITSTREAM_LENGTH" "length data \<le> 133 \<longrightarrow> r = 0"
    using that by (cases q) (force simp: WebRtcIsac_EncLogisticMulti2_def split: prod.splits)+
  show ?thesis
  proof (cases "r = 0")
    case True
    from logist_encoded [OF assms(1-8) enc(1) [unfolded True]] obtain p low W n b2 where
      t: "WebRtcIsac_EncTerminate b1 = Some (n, b2)" "stream_index b1 = p" "int n = stream_bytes (p + 3) W"
        "fold abs_step (map2 logist_pair es ds) (0, 0, 0xFFFFFFFF) = (p, low, W)" "length ds = length data"
        "p \<le> 3 * length data"
        "list_all2 (\<lambda>d d'. coeff_ok d' \<and> d' mod 128 = d mod 128 \<and> \<bar>d'\<bar> \<le> \<bar>d\<bar>) data ds"
        "\<And>B. bytes_ok B \<Longrightarrow> p + 4 \<le> length B \<Longrightarrow> take n B = take n (stream b2) \<Longrightarrow> decodes B (p, low, W)"
      by blast
    have "\<exists>b3. WebRtcIsac_DecLogisticMulti2
        \<lparr>stream = B, W_upper = 0xFFFFFFFF, streamval = x, stream_index = 0\<rparr> env dither (length data) swb
        = Some (int n, ds, b3)"
      if "p \<le> 396" "list_all2 (\<lambda>t d. logist_valid (fst t) (snd t) d) (zip dither es) ds"
        and "bytes_ok B" "400 \<le> length B" "take n B = take n (stream b2)" for B x
      using logist_decoded [of B ds env swb es dither p low W x] t(8) [of B] that assms(6,9) t(3-5) by simp
    moreover have "list_all2 (\<lambda>d d'. d' mod 128 = d mod 128 \<and> \<bar>d'\<bar> \<le> \<bar>d\<bar>) data ds"
      using t(7) by (auto elim: list_all2_mono)
    ultimately show ?thesis
      using enc(1) True t(1,2,6) by (intro exI [of _ 0] exI [of _ ds] exI [of _ b1]) auto
  qed (use enc in auto)
qed

definition fresh_stream :: Bitstr where
  "fresh_stream = \<lparr>stream = replicate 600 0, W_upper = 0xFFFFFFFF, streamval = 0, stream_index = 0\<rparr>"

lemma fresh_stream_simps [simp]:
  "stream_index fresh_stream = 0" "W_upper fresh_stream = 0xFFFFFFFF" "streamval fresh_stream = 0"
  "bytes_ok (stream fresh_stream)" "length (stream fresh_stream) = STREAM_SIZE_MAX"
  by (auto simp: fresh_stream_def bytes_ok_def STREAM_SIZE_MAX_def)

theorem logistic_roundtrip_witness:
  "\<exists>b1 b2 b3. WebRtcIsac_EncLogisticMulti2 fresh_stream [256, -156] [500] 2 False = Some (0, [256, -156], b1) \<and>
    WebRtcIsac_EncTerminate b1 = Some (2, b2) \<and>
    WebRtcIsac_DecLogisticMulti2
      \<lparr>stream = [255, 23] @ replicate 398 9, W_upper = 0xFFFFFFFF, streamval = 0, stream_index = 0\<rparr>
      [500] [0, 28] 2 False = Some (2, [256, -156], b3)"
proof -
  let ?b = "fresh_stream" and ?d = "[256, -156] :: int list"
  let ?B = "[255, 23] @ replicate 398 (9 :: int)"
  have "Option.bind (WebRtcIsac_EncLogisticMulti2 ?b ?d [500] 2 False) (\<lambda>(r, ds, b1).
      map_option (\<lambda>(n, b2). (r, ds, stream_index b1, n, take n (stream b2))) (WebRtcIsac_EncTerminate b1))
      = Some (0, ?d, 1, 2, [255, 23])"
    by code_simp
  then obtain b1 b2 where enc: "WebRtcIsac_EncLogisticMulti2 ?b ?d [500] 2 False = Some (0, ?d, b1)"
    "stream_index b1 = 1" "WebRtcIsac_EncTerminate b1 = Some (2, b2)" "take 2 (stream b2) = [255, 23]"
    by (auto simp: bind_eq_Some_conv)
  have valid: "list_all2 (\<lambda>t d. logist_valid (fst t) (snd t) d) (zip [0, 28] [500, 500]) ?d"
    by code_simp
  have env: "env_of (length ?d) 0 [500] False = Some [500, 500]" by code_simp
  have ok: "list_all env_ok [500, 500]" "list_all coeff_ok ?d" "length [0 :: int, 28] = length ?d"
    by (simp_all add: env_ok_def coeff_ok_def)
  have two: "length ?d = 2" by simp
  have B: "bytes_ok ?B" "400 \<le> length ?B" "take 2 ?B = take 2 (stream b2)"
    using enc(4) by (auto simp: bytes_ok_def)
  have idx: "stream_index b1 \<le> 396" using enc(2) by simp
  note round = logistic_roundtrip [OF fresh_stream_simps env ok, unfolded two enc(1) option.inject prod.inject]
  then obtain n b2' where "WebRtcIsac_EncTerminate b1 = Some (n, b2')"
    and dec: "\<forall>B v. bytes_ok B \<and> 400 \<le> length B \<and> take n B = take n (stream b2') \<longrightarrow>
      (\<exists>b3. WebRtcIsac_DecLogisticMulti2
        \<lparr>stream = B, W_upper = 0xFFFFFFFF, streamval = v, stream_index = 0\<rparr> [500] [0, 28] 2 False
        = Some (int n, ?d, b3))"
    using valid idx by blast
  then have "n = 2" "b2' = b2" using enc(3) by simp_all
  then obtain b3 where "WebRtcIsac_DecLogisticMulti2
      \<lparr>stream = ?B, W_upper = 0xFFFFFFFF, streamval = 0, stream_index = 0\<rparr> [500] [0, 28] 2 False
      = Some (int 2, ?d, b3)"
    using dec B by blast
  then show ?thesis using enc(1,3) by auto
qed

text \<open>C33: The decoder rejects what the encoder accepts, exactly where the way is blocked. The clipping test of
  the encoder only looks at the coefficient's own interval, while the decoder stops with an error at
  the first pair of equal neighbours on the way to it. Take any vector whose dither fits, which the
  encoder has accepted and whose stream ended at byte 396 or before. If the way to the \<open>i\<close>-th coefficient
  the encoder left is the first one on which the distribution function does not grow at every step, then
  decoding any buffer that starts with the bytes written returns -1 after the first \<open>i\<close> coefficients.\<close>

theorem logistic_decoder_rejects:
  assumes "stream_index b = 0" "W_upper b = 0xFFFFFFFF" "streamval b = 0" "bytes_ok (stream b)"
    and "length (stream b) = STREAM_SIZE_MAX"
    and "env_of (length data) 0 env swb = Some es" "list_all env_ok es" "list_all coeff_ok data"
    and "WebRtcIsac_EncLogisticMulti2 b data env (length data) swb = Some (0, ds, b1)" "stream_index b1 \<le> 396"
    and "WebRtcIsac_EncTerminate b1 = Some (n, b2)"
    and "list_all2 (\<lambda>x d. -32703 \<le> x \<and> x \<le> 32767 \<and> (d + x) mod 128 = 0) dither data"
    and "i < length data" "\<forall>k<i. logist_path (dither ! k) (es ! k) (ds ! k)"
    and "\<not> logist_path (dither ! i) (es ! i) (ds ! i)"
    and "bytes_ok B" "400 \<le> length B" "take n B = take n (stream b2)"
  shows "\<exists>b3. WebRtcIsac_DecLogisticMulti2
      \<lparr>stream = B, W_upper = 0xFFFFFFFF, streamval = v, stream_index = 0\<rparr> env dither (length data) swb
      = Some (-1, take i ds, b3)"
proof -
  from logist_encoded [OF assms(1-9)] assms(10,11) obtain p low W where
    p: "p \<le> 396" "fold abs_step (map2 logist_pair es ds) (0, 0, 0xFFFFFFFF) = (p, low, W)"
    and ok: "\<forall>c\<in>set (map2 logist_pair es ds). cdf_pair_ok c" "length ds = length data"
      "list_all2 (\<lambda>d d'. coeff_ok d' \<and> d' mod 128 = d mod 128 \<and> \<bar>d'\<bar> \<le> \<bar>d\<bar>) data ds"
    and dec: "bytes_ok B \<and> p + 4 \<le> length B \<and> take n B = take n (stream b2) \<longrightarrow> decodes B (p, low, W)"
    by auto
  have les: "length es = length data" by (rule env_of_length [OF assms(6)])
  have ldi: "length dither = length data" by (rule list_all2_lengthD [OF assms(12)])
  have al: "logist_aligned (dither ! k) (es ! k) (ds ! k)" if k: "k < length data" for k
  proof (rule logist_aligned_intro)
    have "map2 logist_pair es ds ! k = logist_pair (es ! k) (ds ! k)" using k les ok(2) by simp
    then show "cdf_pair_ok (logist_pair (es ! k) (ds ! k))"
      using ok(1) k les ok(2) by (metis length_map length_zip min.idem nth_mem)
    have "(ds ! k + dither ! k) mod 128 = (data ! k + dither ! k) mod 128"
      using list_all2_nthD [OF ok(3) k] by (metis mod_add_left_eq)
    then show "(ds ! k + dither ! k) mod 128 = 0" "-32703 \<le> dither ! k" "dither ! k \<le> 32767" "coeff_ok (ds ! k)"
      using list_all2_nthD2 [OF assms(12) k] list_all2_nthD [OF ok(3) k] by simp_all
  qed (use assms(7) les k in \<open>simp add: list_all_length\<close>)
  have "dec_logist_loop (length ds) 0 env dither swb B (decoder_state B (0, 0, 0xFFFFFFFF)) = Some (take i ds, None)"
    using dec_logist_loop_blocked [of B "(0, 0, 0xFFFFFFFF)" ds 0 env swb es dither i] assms ok p dec al les ldi
    by (simp add: width_ok_def logist_valid_def)
  then show ?thesis
    using assms(16,17) ok(2)
    by (simp add: WebRtcIsac_DecLogisticMulti2_def first_logist_decode decoder_state_def)
qed

theorem logistic_decoder_rejects_witness:
  "\<exists>b1 b2 b3. WebRtcIsac_EncLogisticMulti2 fresh_stream [18895] [7] 1 False = Some (0, [18895], b1) \<and>
    WebRtcIsac_EncTerminate b1 = Some (3, b2) \<and>
    WebRtcIsac_DecLogisticMulti2 \<lparr>stream = [255, 201, 1] @ replicate 397 9, W_upper = 0xFFFFFFFF, streamval = 0,
      stream_index = 0\<rparr> [7] [49] 1 False = Some (-1, [], b3)"
proof -
  have "Option.bind (WebRtcIsac_EncLogisticMulti2 fresh_stream [18895] [7] 1 False) (\<lambda>(r, ds, b1).
      map_option (\<lambda>(n, b2). (r, ds, stream_index b1, n, take n (stream b2)))
        (WebRtcIsac_EncTerminate b1)) = Some (0, [18895], 1, 3, [255, 201, 1])"
    by code_simp
  then obtain b1 b2 where enc: "WebRtcIsac_EncLogisticMulti2 fresh_stream [18895] [7] 1 False = Some (0, [18895], b1)"
    "stream_index b1 = 1" "WebRtcIsac_EncTerminate b1 = Some (3, b2)" "take 3 (stream b2) = [255, 201, 1]"
    by (auto simp: bind_eq_Some_conv)
  let ?d = "[18895] :: int list" and ?B = "[255, 201, 1] @ replicate 397 (9 :: int)"
  have env: "env_of (length ?d) 0 [7] False = Some [7]" "\<not> logist_path 49 7 18895" by code_simp+
  have ok: "list_all env_ok [7]" "list_all coeff_ok ?d"
    "list_all2 (\<lambda>x d. -32703 \<le> x \<and> x \<le> 32767 \<and> (d + x) mod 128 = 0) [49] ?d"
    by (simp_all add: env_ok_def coeff_ok_def)
  have B: "bytes_ok ?B" "400 \<le> length ?B" "take 3 ?B = take 3 (stream b2)"
    using enc(4) by (auto simp: bytes_ok_def)
  have one: "length ?d = 1" by simp
  from logistic_decoder_rejects [OF fresh_stream_simps env(1) ok(1,2) _ _ enc(3) ok(3), of _ 0 ?B 0, unfolded one, OF enc(1)] enc B env(2)
  show ?thesis by auto
qed

end
