(* ===== verification/Isac_Fix_Coder.thy ===== *)
theory Isac_Fix_Coder
  imports Arith_Logist
begin

section \<open>iSAC, fixed-point codec: the arithmetic coder on 16-bit words\<close>

text \<open>
  \<open>fix/source/arith_routines.c\<close> and \<open>fix/source/arith_routines_hist.c\<close>. The fixed-point codec keeps its
  stream in an array of \<open>uint16_t\<close> and fills it one byte at a time: the flag \<open>full\<close> tells whether both
  bytes of the current word are empty (1) or its high byte is already written (0). Carries are added to
  words, not bytes. The theory models the encoder, its termination and the two table decoders over
  that representation, with every error code the functions return, and proves that they are a data
  refinement of the byte-oriented coder of the floating-point codec in \<open>Arith_Coder\<close>: the words hold
  exactly the bytes that coder writes, so the two codecs read each other's streams.
\<close>

unbundle bit_operations_syntax

subsection \<open>Buffers (\<open>settings.h\<close>, \<open>structs.h\<close>)\<close>

definition STREAM_MAXW16_60MS :: nat where
  "STREAM_MAXW16_60MS = 200"

text \<open>The 300 words of the old maximum size and five words of guard. The error code
  \<open>ISAC_DISALLOWED_BITSTREAM_LENGTH\<close> is 6440 in the settings of both codecs.\<close>

definition INTERNAL_STREAM_SIZE_W16 :: nat where
  "INTERNAL_STREAM_SIZE_W16 = 300 + 5"

record Bitstr_enc =
  e_stream :: "int list"
  e_W_upper :: int
  e_streamval :: int
  e_stream_index :: nat
  e_full :: nat

record Bitstr_dec =
  d_stream :: "int list"
  d_W_upper :: int
  d_streamval :: int
  d_stream_index :: nat
  d_full :: nat
  d_stream_size :: nat

subsection \<open>Encoding\<close>

text \<open>The loop \<open>while (!(++( *--streamPtr)))\<close>, and the carry into a half filled word before it.\<close>

fun carry_words :: "nat \<Rightarrow> int list \<Rightarrow> int list option" where
  "carry_words 0 s = None"
| "carry_words (Suc p) s =
     (let w = u16 (s ! p + 1); s = s[p := w]
      in if w = 0 then carry_words p s else Some s)"

definition fix_carry :: "nat \<Rightarrow> nat \<Rightarrow> int list \<Rightarrow> int list option" where
  "fix_carry full ptr s =
     (if full = 0 then
        (if ptr < length s then
           (let negCarry = u16 (s ! ptr + 0x0100); s = s[ptr := negCarry]
            in if negCarry = 0 then carry_words ptr s else Some s)
         else None)
      else carry_words ptr s)"

text \<open>Storing the top byte of \<open>streamval\<close>: the stream, the pointer and the flag afterwards.\<close>

definition fix_put :: "nat \<Rightarrow> nat \<Rightarrow> int \<Rightarrow> int list \<Rightarrow> (int list \<times> nat \<times> nat) option" where
  "fix_put full ptr val s =
     (if length s \<le> ptr then None
      else if full = 0 then Some (s[ptr := u16 (s ! ptr + u16 (shr val 24))], ptr + 1, 1)
      else Some (s[ptr := u16 (u32 (shr val 24 * 2 ^ 8))], ptr, 0))"

text \<open>A round of the encoder ends with the pointer past the last word (\<open>Inl\<close>: the stream, the flag and
  \<open>streamval\<close>, which the code has already changed) or goes on (\<open>Inr\<close>); \<open>None\<close> is an access
  outside the array.\<close>

type_synonym fix_enc_state = "int list \<times> nat \<times> nat \<times> int \<times> int"
type_synonym fix_enc_result = "(int list \<times> nat \<times> int + fix_enc_state) option"

function fix_enc_renorm :: "int list \<Rightarrow> nat \<Rightarrow> nat \<Rightarrow> int \<Rightarrow> int \<Rightarrow> fix_enc_result" where
  "fix_enc_renorm s ptr full W_up val =
     (if W_up AND 0xFF000000 = 0 then
        (let W_up = u32 (W_up * 2 ^ 8) in
         case fix_put full ptr val s of
           None \<Rightarrow> None
         | Some (s, ptr, full) \<Rightarrow>
             (if ptr > STREAM_MAXW16_60MS - 1 then Some (Inl (s, full, val))
              else fix_enc_renorm s ptr full W_up (u32 (val * 2 ^ 8))))
      else Some (Inr (s, ptr, full, W_up, val)))"
  by pat_completeness auto
termination
  by (relation "measure (\<lambda>(s, p, f, W, v). 2 * (length s - p) + f)")
    (auto simp: fix_put_def split: if_splits)

declare fix_enc_renorm.simps [simp del]

definition fix_enc_symbol :: "int \<Rightarrow> int \<Rightarrow> fix_enc_state \<Rightarrow> fix_enc_result" where
  "fix_enc_symbol cdfLo cdfHi = (\<lambda>(s, ptr, full, W_up, val).
     (let W_lower = scale_cdf W_up cdfLo;
          W_up = scale_cdf W_up cdfHi;
          W_lower = u32 (W_lower + 1);
          W_up = u32 (W_up - W_lower);
          val = u32 (val + W_lower)
      in case (if val < W_lower then fix_carry full ptr s else Some s) of
           None \<Rightarrow> None
         | Some s \<Rightarrow> fix_enc_renorm s ptr full W_up val))"

fun fix_enc_hist_loop :: "nat \<Rightarrow> nat list \<Rightarrow> int list list \<Rightarrow> fix_enc_state \<Rightarrow> fix_enc_result" where
  "fix_enc_hist_loop 0 data cdf st = Some (Inr st)"
| "fix_enc_hist_loop (Suc k) data cdf st =
     (case fix_enc_symbol (hd cdf ! hd data) (hd cdf ! (hd data + 1)) st of
        Some (Inr st) \<Rightarrow> fix_enc_hist_loop k (tl data) (tl cdf) st
      | r \<Rightarrow> r)"

text \<open>The structure after a call: on success every field, on the error only the ones the loop has
  written through the pointer.\<close>

definition fix_enc_finish :: "Bitstr_enc \<Rightarrow> fix_enc_result \<Rightarrow> (int \<times> Bitstr_enc) option" where
  "fix_enc_finish streamData r =
     (case r of
        None \<Rightarrow> None
      | Some (Inl (s, full, val)) \<Rightarrow>
          Some (- ISAC_DISALLOWED_BITSTREAM_LENGTH, streamData\<lparr>e_stream := s, e_streamval := val, e_full := full\<rparr>)
      | Some (Inr (s, ptr, full, W_up, val)) \<Rightarrow>
          Some (0, streamData\<lparr>e_stream := s, e_W_upper := W_up, e_streamval := val, e_stream_index := ptr, e_full := full\<rparr>))"

definition enc_fields :: "Bitstr_enc \<Rightarrow> fix_enc_state" where
  "enc_fields e = (e_stream e, e_stream_index e, e_full e, e_W_upper e, e_streamval e)"

definition WebRtcIsacfix_EncHistMulti ::
    "Bitstr_enc \<Rightarrow> nat list \<Rightarrow> int list list \<Rightarrow> nat \<Rightarrow> (int \<times> Bitstr_enc) option" where
  "WebRtcIsacfix_EncHistMulti streamData data cdf lenData =
     fix_enc_finish streamData (fix_enc_hist_loop lenData data cdf (enc_fields streamData))"

text \<open>The last two bytes.\<close>

definition fix_put2 :: "nat \<Rightarrow> nat \<Rightarrow> int \<Rightarrow> int list \<Rightarrow> int list option" where
  "fix_put2 full ptr val s =
     (if full \<noteq> 0 then (if ptr < length s then Some (s[ptr := u16 (shr val 16)]) else None)
      else (if ptr + 1 < length s
            then Some (s[ptr := s ! ptr OR u16 (shr val 24), ptr + 1 := u16 (shr val 8) AND 0xFF00]) else None))"

text \<open>Returns the length of the stream in bytes and the changed structure.\<close>

definition WebRtcIsacfix_EncTerminate :: "Bitstr_enc \<Rightarrow> (int \<times> Bitstr_enc) option" where
  "WebRtcIsacfix_EncTerminate streamData =
     (let ptr = e_stream_index streamData; full = e_full streamData; s = e_stream streamData in
      if e_W_upper streamData > 0x01FFFFFF then
        (let val = u32 (e_streamval streamData + 0x01000000) in
         case (if val < 0x01000000 then fix_carry full ptr s else Some s) of
           None \<Rightarrow> None
         | Some s \<Rightarrow> (case fix_put full ptr val s of
             None \<Rightarrow> None
           | Some (s, ptr, full) \<Rightarrow>
               Some (s16 (int ptr * 2 + (if full = 0 then 1 else 0)),
                 streamData\<lparr>e_stream := s, e_streamval := val, e_full := full\<rparr>)))
      else
        (let val = u32 (e_streamval streamData + 0x00010000) in
         case (if val < 0x00010000 then fix_carry full ptr s else Some s) of
           None \<Rightarrow> None
         | Some s \<Rightarrow>
             (case fix_put2 full ptr val s of
                None \<Rightarrow> None
              | Some s \<Rightarrow>
                  Some (s16 (int (ptr + 1) * 2 + (if full = 0 then 1 else 0)),
                    streamData\<lparr>e_stream := s, e_streamval := val\<rparr>))))"

subsection \<open>Decoding\<close>

definition fix_read_first :: "Bitstr_dec \<Rightarrow> (int \<times> nat) option" where
  "fix_read_first streamData =
     (let s = d_stream streamData; ptr = d_stream_index streamData in
      if ptr = 0 then
        (if 1 < length s then Some (u32 (s ! 0 * 2 ^ 16) OR s ! 1, 2) else None)
      else Some (d_streamval streamData, ptr))"

function fix_dec_renorm ::
    "int list \<Rightarrow> nat \<Rightarrow> nat \<Rightarrow> int \<Rightarrow> int \<Rightarrow> (nat \<times> nat \<times> int \<times> int) option" where
  "fix_dec_renorm s ptr full W_up val =
     (if W_up AND 0xFF000000 = 0 then
        (if length s \<le> ptr then None
         else if full = 0
         then fix_dec_renorm s (ptr + 1) 1 (u32 (W_up * 2 ^ 8)) (u32 (val * 2 ^ 8) OR (s ! ptr AND 0x00FF))
         else fix_dec_renorm s ptr 0 (u32 (W_up * 2 ^ 8)) (u32 (val * 2 ^ 8) OR shr (s ! ptr) 8))
      else Some (ptr, full, W_up, val))"
  by pat_completeness auto
termination by (relation "measure (\<lambda>(s, p, f, W, v). 2 * (length s - p) + f)") auto

declare fix_dec_renorm.simps [simp del]

text \<open>The loops return the symbols and the state at the end (\<open>Inr\<close>) or the flag at an early
  return (\<open>Inl\<close>); the flag is the one field the decoders change through the pointer. A symbol is
  converted to 16 bits when it is stored into \<open>int16_t *data\<close>.\<close>

type_synonym fix_dec_result = "(int list \<times> (nat + nat \<times> nat \<times> int \<times> int)) option"

fun fix_dec_bisect_loop ::
    "nat \<Rightarrow> int list list \<Rightarrow> nat list \<Rightarrow> int list \<Rightarrow> nat \<times> nat \<times> int \<times> int \<times> int \<Rightarrow> fix_dec_result" where
  "fix_dec_bisect_loop 0 cdf cdfSize s (ptr, full, W_lower, W_up, val) = Some ([], Inr (ptr, full, W_up, val))"
| "fix_dec_bisect_loop (Suc k) cdf cdfSize s (ptr, full, W_lower, W_up, val) =
     (case bisect (hd cdf) (hd cdfSize) W_lower W_up val of
        Found d W_lower W_up \<Rightarrow>
          (let W_lower = u32 (W_lower + 1); W_up = u32 (W_up - W_lower); val = u32 (val - W_lower)
           in case fix_dec_renorm s ptr full W_up val of
                None \<Rightarrow> None
              | Some (ptr, full, W_up, val) \<Rightarrow>
                  (if W_up = 0 then Some ([s16 d], Inl full)
                   else case fix_dec_bisect_loop k (tl cdf) (tl cdfSize) s (ptr, full, W_lower, W_up, val) of
                     None \<Rightarrow> None | Some (ds, r) \<Rightarrow> Some (s16 d # ds, r)))
      | _ \<Rightarrow> None)"

fun fix_dec_one_step_loop ::
    "nat \<Rightarrow> int list list \<Rightarrow> nat list \<Rightarrow> int list \<Rightarrow> nat \<times> nat \<times> int \<times> int \<Rightarrow> fix_dec_result" where
  "fix_dec_one_step_loop 0 cdf initIndex s st = Some ([], Inr st)"
| "fix_dec_one_step_loop (Suc k) cdf initIndex s (ptr, full, W_up, val) =
     (case one_step (hd cdf) (hd initIndex) W_up val of
        Found d W_lower W_up \<Rightarrow>
          (let W_lower = u32 (W_lower + 1); W_up = u32 (W_up - W_lower); val = u32 (val - W_lower)
           in case fix_dec_renorm s ptr full W_up val of
                None \<Rightarrow> None
              | Some st \<Rightarrow> (case fix_dec_one_step_loop k (tl cdf) (tl initIndex) s st of
                     None \<Rightarrow> None | Some (ds, r) \<Rightarrow> Some (s16 d # ds, r)))
      | RangeError \<Rightarrow> Some ([], Inl full)
      | BadAccess \<Rightarrow> None)"

definition fix_stream_bytes :: "nat \<Rightarrow> nat \<Rightarrow> int \<Rightarrow> int" where
  "fix_stream_bytes ptr full W_up =
     (if W_up > 0x01FFFFFF then int ptr * 2 - 3 + (if full = 0 then 1 else 0)
      else int ptr * 2 - 2 + (if full = 0 then 1 else 0))"

text \<open>The end of a decoder: \<open>code\<close> is what it returns early.\<close>

definition fix_dec_finish ::
    "int \<Rightarrow> Bitstr_dec \<Rightarrow> fix_dec_result \<Rightarrow> (int \<times> int list \<times> Bitstr_dec) option" where
  "fix_dec_finish code streamData r =
     (case r of
        None \<Rightarrow> None
      | Some (ds, Inl full) \<Rightarrow> Some (code, ds, streamData\<lparr>d_full := full\<rparr>)
      | Some (ds, Inr (ptr, full, W_up, val)) \<Rightarrow>
          Some (s16 (fix_stream_bytes ptr full W_up), ds,
            streamData\<lparr>d_stream_index := ptr, d_full := full, d_W_upper := W_up, d_streamval := val\<rparr>))"

definition WebRtcIsacfix_DecHistBisectMulti ::
    "Bitstr_dec \<Rightarrow> int list list \<Rightarrow> nat list \<Rightarrow> nat \<Rightarrow> (int \<times> int list \<times> Bitstr_dec) option" where
  "WebRtcIsacfix_DecHistBisectMulti streamData cdf cdfSize lenData =
     (if d_W_upper streamData = 0 then Some (-2, [], streamData)
      else case fix_read_first streamData of None \<Rightarrow> None | Some (val, ptr) \<Rightarrow>
        fix_dec_finish (-2) streamData
          (fix_dec_bisect_loop lenData cdf cdfSize (d_stream streamData)
             (ptr, d_full streamData, 0, d_W_upper streamData, val)))"

definition WebRtcIsacfix_DecHistOneStepMulti ::
    "Bitstr_dec \<Rightarrow> int list list \<Rightarrow> nat list \<Rightarrow> nat \<Rightarrow> (int \<times> int list \<times> Bitstr_dec) option" where
  "WebRtcIsacfix_DecHistOneStepMulti streamData cdf initIndex lenData =
     (if d_W_upper streamData = 0 then Some (-2, [], streamData)
      else case fix_read_first streamData of None \<Rightarrow> None | Some (val, ptr) \<Rightarrow>
        fix_dec_finish (-3) streamData
          (fix_dec_one_step_loop lenData cdf initIndex (d_stream streamData)
             (ptr, d_full streamData, d_W_upper streamData, val)))"

subsection \<open>Words as pairs of bytes\<close>

definition word_bytes :: "int list \<Rightarrow> int list" where
  "word_bytes ws = concat (map (\<lambda>w. [w div 256, w mod 256]) ws)"

definition words_ok :: "int list \<Rightarrow> bool" where
  "words_ok ws \<longleftrightarrow> (\<forall>w\<in>set ws. 0 \<le> w \<and> w < 65536)"

lemma word_bytes_simps [simp]:
  "word_bytes [] = []" "word_bytes (w # ws) = (w div 256) # (w mod 256) # word_bytes ws"
  by (simp_all add: word_bytes_def)

lemma length_word_bytes [simp]: "length (word_bytes ws) = 2 * length ws"
  by (induction ws) auto

lemma words_ok_nth: "words_ok ws \<Longrightarrow> i < length ws \<Longrightarrow> 0 \<le> ws ! i \<and> ws ! i < 65536"
  by (simp add: words_ok_def)

lemma words_ok_update: "words_ok ws \<Longrightarrow> 0 \<le> w \<Longrightarrow> w < 65536 \<Longrightarrow> words_ok (ws[i := w])"
  unfolding words_ok_def using set_update_subset_insert [of ws i w] by blast

lemma u16_range: "0 \<le> u16 x" "u16 x < 65536"
  by (simp_all add: u16_def)

lemma bytes_ok_word_bytes: "words_ok ws \<Longrightarrow> bytes_ok (word_bytes ws)"
proof (induction ws)
  case (Cons w ws)
  have "0 \<le> w div 256 \<and> w div 256 < 256" if "0 \<le> w" "w < 65536" using that by presburger
  then show ?case using Cons by (auto simp: words_ok_def bytes_ok_def)
qed (simp add: bytes_ok_def)

lemma nth_word_bytes:
  assumes "i < length ws"
  shows "word_bytes ws ! (2 * i) = ws ! i div 256" "word_bytes ws ! Suc (2 * i) = ws ! i mod 256"
  using assms by (induction ws arbitrary: i) (auto simp: nth_Cons split: nat.splits)

lemma take_word_bytes: "take (2 * i) (word_bytes ws) = word_bytes (take i ws)"
proof (induction ws arbitrary: i)
  case (Cons w ws) then show ?case by (cases i) auto
qed simp

lemma word_bytes_update:
  assumes "i < length ws" "0 \<le> b" "b < 256"
  shows "word_bytes (ws[i := a * 256 + b]) = (word_bytes ws)[2 * i := a, Suc (2 * i) := b]"
  using assms(1)
proof (induction ws arbitrary: i)
  case (Cons w ws) then show ?case using assms(2,3) by (cases i) auto
qed simp

text \<open>The two carry loops do the same to the bytes.\<close>

lemma carry_words_length: "carry_words p s = Some s' \<Longrightarrow> length s' = length s"
  by (induction p arbitrary: s) (auto simp: Let_def split: if_splits)

lemma carry_words_keeps:
  "carry_words p s = Some s' \<Longrightarrow> words_ok s \<Longrightarrow> words_ok s' \<and> (\<forall>i \<ge> p. s' ! i = s ! i)"
  by (induction p arbitrary: s) (fastforce simp: Let_def u16_range words_ok_update split: if_splits)+

lemma u16_high_byte: "u16 (x * 256) = u8 x * 256"
  unfolding u16_def u8_def using mod_mult_mult2 [of x 256 256] by simp

lemma word_carry_low:
  fixes w :: int
  assumes "0 \<le> w" "w < 65536"
  shows "w mod 256 = 255 \<Longrightarrow> u16 (w + 1) = u8 (w div 256 + 1) * 256 + 0"
    "w mod 256 \<noteq> 255 \<Longrightarrow> u16 (w + 1) = (w div 256) * 256 + u8 (w mod 256 + 1)"
    "w mod 256 \<noteq> 255 \<Longrightarrow> u8 (w mod 256 + 1) \<noteq> 0 \<and> u16 (w + 1) \<noteq> 0"
proof -
  have split: "w = w div 256 * 256 + w mod 256" by simp
  have r: "0 \<le> w mod 256" "w mod 256 < 256" by simp_all
  {
    assume "w mod 256 = 255"
    then have "w + 1 = (w div 256 + 1) * 256" using split by (simp add: algebra_simps)
    then show "u16 (w + 1) = u8 (w div 256 + 1) * 256 + 0" by (simp only: u16_high_byte add_0_right)
  }
  {
    assume "w mod 256 \<noteq> 255"
    then have "u8 (w mod 256 + 1) = w mod 256 + 1" using r by (simp add: u8_def)
    moreover have "w \<noteq> 65535" using \<open>w mod 256 \<noteq> 255\<close> by auto
    then have "u16 (w + 1) = w + 1" using assms by (simp add: u16_def)
    ultimately show "u16 (w + 1) = (w div 256) * 256 + u8 (w mod 256 + 1)"
      "u8 (w mod 256 + 1) \<noteq> 0 \<and> u16 (w + 1) \<noteq> 0" using split r assms by linarith+
  }
qed

lemma propagate_carry_words:
  "words_ok ws \<Longrightarrow> ptr \<le> length ws \<Longrightarrow>
   propagate_carry (2 * ptr) (word_bytes ws) = map_option word_bytes (carry_words ptr ws)"
proof (induction ptr arbitrary: ws)
  case (Suc ptr)
  let ?w = "ws ! ptr" and ?s = "word_bytes ws"
  have i: "ptr < length ws" using Suc.prems(2) by simp
  have w: "0 \<le> ?w" "?w < 65536" using words_ok_nth [OF Suc.prems(1) i] by auto
  note n = nth_word_bytes [OF i] and c = word_carry_low [OF w] and upd = word_bytes_update [OF i]
  show ?case
  proof (cases "?w mod 256 = 255")
    case False
    have "?s[Suc (2 * ptr) := u8 (?w mod 256 + 1)] = word_bytes (ws[ptr := u16 (?w + 1)])"
      unfolding c(2) [OF False] upd [OF u8_range] n(1) [symmetric] by (simp add: list_update_id)
    then show ?thesis using c(3) [OF False] by (simp add: n Let_def)
  next
    case True
    let ?ws = "ws[ptr := u16 (?w + 1)]"
    have "?s[Suc (2 * ptr) := 0, 2 * ptr := u8 (?w div 256 + 1)] = word_bytes ?ws"
      unfolding c(1) [OF True] by (subst upd) (simp_all add: list_update_swap)
    moreover have "u16 (?w + 1) = 0 \<longleftrightarrow> u8 (?w div 256 + 1) = 0" using c(1) [OF True] by simp
    moreover have "propagate_carry (2 * ptr) (word_bytes ?ws) = map_option word_bytes (carry_words ptr ?ws)"
      using Suc by (intro Suc.IH) (simp_all add: words_ok_update u16_range)
    moreover have "u8 (?w mod 256 + 1) = 0" using True by (simp add: u8_def)
    ultimately show ?thesis
      using i by (cases "u8 (?w div 256 + 1) = 0") (simp_all add: n Let_def)
  qed
qed simp

lemma propagate_carry_append:
  "p \<le> length s \<Longrightarrow> propagate_carry p (s @ r) = map_option (\<lambda>t. t @ r) (propagate_carry p s)"
  by (induction p arbitrary: s) (auto simp: Let_def nth_append list_update_append1)

definition fix_pos :: "nat \<Rightarrow> nat \<Rightarrow> nat" where
  "fix_pos ptr full = 2 * ptr + (1 - full)"

text \<open>The half filled word has nothing in its low byte.\<close>

definition half_ok :: "int list \<Rightarrow> nat \<Rightarrow> nat \<Rightarrow> bool" where
  "half_ok s ptr full \<longleftrightarrow> full \<le> 1 \<and> (full = 0 \<longrightarrow> ptr < length s \<and> s ! ptr mod 256 = 0)"

lemma fix_carry_bytes:
  assumes "words_ok s" "ptr \<le> length s" "half_ok s ptr full"
  shows "propagate_carry (fix_pos ptr full) (word_bytes s) = map_option word_bytes (fix_carry full ptr s)"
proof (cases "full = 0")
  case False
  then show ?thesis using assms by (simp add: fix_carry_def fix_pos_def propagate_carry_words)
next
  case True
  let ?w = "s ! ptr"
  have i: "ptr < length s" "?w mod 256 = 0" using True assms by (auto simp: half_ok_def)
  have w: "0 \<le> ?w" "?w < 65536" using words_ok_nth [OF assms(1) i(1)] by auto
  have e: "u16 (?w + 256) = u8 (?w div 256 + 1) * 256 + 0"
  proof -
    have "?w + 256 = (?w div 256 + 1) * 256" using i(2) by (metis add.commute distrib_right mult_1 mod_0_imp_dvd dvd_div_mult_self)
    then show ?thesis by (simp only: u16_high_byte add_0_right)
  qed
  have b: "(word_bytes s)[2 * ptr := u8 (?w div 256 + 1)] = word_bytes (s[ptr := u16 (?w + 256)])"
    unfolding e using i nth_word_bytes(2) [OF i(1)] list_update_id [of "word_bytes s" "Suc (2 * ptr)"]
    by (subst word_bytes_update) (simp_all add: list_update_swap)
  have "propagate_carry (2 * ptr) (word_bytes (s[ptr := u16 (?w + 256)])) =
      map_option word_bytes (carry_words ptr (s[ptr := u16 (?w + 256)]))"
    using assms by (intro propagate_carry_words) (simp_all add: words_ok_update u16_range)
  then show ?thesis
    using True i e b
    by (cases "u8 (?w div 256 + 1) = 0") (simp_all add: fix_carry_def fix_pos_def nth_word_bytes Let_def)
qed

lemma fix_carry_keeps:
  assumes "fix_carry full ptr s = Some s'" "words_ok s" "half_ok s ptr full"
  shows "length s' = length s" "words_ok s'" "half_ok s' ptr full"
proof -
  have *: "u16 (s ! ptr + 256) mod 256 = s ! ptr mod 256" by (simp add: u16_def mod_mod_cancel)
  show "length s' = length s" "words_ok s'"
    using assms by (auto simp: fix_carry_def Let_def words_ok_update u16_range
        dest: carry_words_length carry_words_keeps split: if_splits)
  show "half_ok s' ptr full"
    using assms * by (auto simp: fix_carry_def half_ok_def Let_def words_ok_update u16_range
        dest: carry_words_length carry_words_keeps split: if_splits)
qed

text \<open>Storing a byte appends it.\<close>

lemma take_Suc_update: "i < length s \<Longrightarrow> take (Suc i) (s[i := b]) = take i s @ [b]"
  by (simp add: take_Suc_conv_app_nth)

lemma top_byte:
  assumes "0 \<le> v" "v < 4294967296"
  shows "0 \<le> shr v 24" "shr v 24 < 256" "u8 (shr v 24) = shr v 24" "u16 (shr v 24) = shr v 24"
    "u32 (shr v 24 * 2 ^ 8) = shr v 24 * 256" "u16 (shr v 24 * 256) = shr v 24 * 256"
proof -
  show r: "0 \<le> shr v 24" "shr v 24 < 256" using assms by (simp_all add: shr_def pos_imp_zdiv_nonneg_iff int_div_less_self)
  then show "u8 (shr v 24) = shr v 24" "u16 (shr v 24) = shr v 24"
    "u32 (shr v 24 * 2 ^ 8) = shr v 24 * 256" "u16 (shr v 24 * 256) = shr v 24 * 256"
    by (simp_all add: u8_def u16_def u32_def)
qed

lemma half_word_add:
  fixes w :: int
  assumes "0 \<le> w" "w < 65536" "w mod 256 = 0" "0 \<le> b" "b < 256"
  shows "u16 (w + b) = w div 256 * 256 + b"
proof -
  have "w = w div 256 * 256" using assms(3) by auto
  moreover have "w div 256 < 256" using assms(2) by presburger
  ultimately have "w + b < 65536" "w + b = w div 256 * 256 + b" using assms(5) by linarith+
  then show ?thesis using assms(1,4) by (simp add: u16_def)
qed

lemma fix_put_bytes:
  assumes "words_ok s" "ptr < length s" "half_ok s ptr full" "0 \<le> v" "v < 4294967296"
  shows "\<exists>s' ptr' full'. fix_put full ptr v s = Some (s', ptr', full') \<and>
    fix_pos ptr' full' = Suc (fix_pos ptr full) \<and> length s' = length s \<and> words_ok s' \<and>
    half_ok s' ptr' full' \<and>
    take (Suc (fix_pos ptr full)) (word_bytes s') = take (fix_pos ptr full) (word_bytes s) @ [u8 (shr v 24)]"
proof (cases "full = 0")
  case True
  let ?w = "s ! ptr"
  have "u16 (?w + u16 (shr v 24)) = ?w div 256 * 256 + shr v 24"
    using assms True words_ok_nth [OF assms(1,2)] top_byte [OF assms(4,5)]
    by (simp add: half_word_add half_ok_def)
  moreover have "word_bytes (s[ptr := ?w div 256 * 256 + shr v 24]) = (word_bytes s)[Suc (2 * ptr) := shr v 24]"
    using assms(2) top_byte [OF assms(4,5)]
    by (subst word_bytes_update) (simp_all add: nth_word_bytes(1) [symmetric])
  ultimately show ?thesis
    using True assms top_byte [OF assms(4,5)] words_ok_update [OF assms(1) u16_range, of ptr "?w + u16 (shr v 24)"]
    by (simp add: fix_put_def fix_pos_def half_ok_def take_Suc_update)
next
  case False
  have "word_bytes (s[ptr := shr v 24 * 256 + 0]) = (word_bytes s)[2 * ptr := shr v 24, Suc (2 * ptr) := 0]"
    using assms(2) by (intro word_bytes_update) simp_all
  then have "take (Suc (2 * ptr)) (word_bytes (s[ptr := shr v 24 * 256])) = take (2 * ptr) (word_bytes s) @ [shr v 24]"
    using assms(2) by (simp add: take_Suc_update)
  then show ?thesis
    using False assms top_byte [OF assms(4,5)]
    by (auto simp: fix_put_def fix_pos_def half_ok_def intro!: words_ok_update)
qed

subsection \<open>The encoder on words refines the encoder on bytes\<close>

definition fix_rel :: "int list \<times> nat \<times> int \<times> int \<Rightarrow> fix_enc_state \<Rightarrow> bool" where
  "fix_rel = (\<lambda>(s, p, W, v) (ws, ptr, full, W', v').
     p = fix_pos ptr full \<and> p \<le> length s \<and> take p (word_bytes ws) = take p s \<and> W' = W \<and> v' = v \<and>
     0 \<le> v \<and> v < 4294967296 \<and> words_ok ws \<and> length ws = STREAM_MAXW16_60MS \<and> ptr < STREAM_MAXW16_60MS \<and>
     half_ok ws ptr full)"

text \<open>The outcome on words given the outcome on bytes: the error exactly when the bytes do not fit.\<close>

definition fix_outcome :: "int list \<times> nat \<times> int \<times> int \<Rightarrow> fix_enc_result \<Rightarrow> bool" where
  "fix_outcome st r \<longleftrightarrow>
     (if fst (snd st) < 2 * STREAM_MAXW16_60MS then \<exists>fs. r = Some (Inr fs) \<and> fix_rel st fs
      else \<exists>e. r = Some (Inl e))"

lemma fix_enc_renorm_refines:
  "enc_renorm s p W v = Some st \<Longrightarrow> fix_rel (s, p, W, v) (ws, ptr, full, W, v) \<Longrightarrow>
   fix_outcome st (fix_enc_renorm ws ptr full W v)"
proof (induction s p W v arbitrary: ws ptr full rule: enc_renorm.induct)
  case (1 s p W v)
  note rel = "1.prems"(2) [unfolded fix_rel_def split_conv]
  show ?case
  proof (cases "W AND 0xFF000000 = 0")
    case False
    then have "st = (s, p, W, v)" using "1.prems"(1) by (subst (asm) enc_renorm.simps) simp
    moreover have "p < 2 * STREAM_MAXW16_60MS" using rel by (auto simp: fix_pos_def)
    ultimately show ?thesis
      using False "1.prems"(2) by (subst fix_enc_renorm.simps) (simp add: fix_outcome_def)
  next
    case True
    let ?s = "s[p := u8 (shr v 24)]" and ?W = "u32 (W * 2 ^ 8)" and ?v = "u32 (v * 2 ^ 8)"
    have p: "p < length s" and r: "enc_renorm ?s (p + 1) ?W ?v = Some st"
      using "1.prems"(1) True enc_renorm.simps [of s p W v] by (simp_all split: if_splits)
    obtain ws' ptr' full' where put: "fix_put full ptr v ws = Some (ws', ptr', full')"
      "fix_pos ptr' full' = Suc p" "length ws' = length ws" "words_ok ws'" "half_ok ws' ptr' full'"
      "take (Suc p) (word_bytes ws') = take p s @ [u8 (shr v 24)]"
      using fix_put_bytes [of ws ptr full v] rel by auto
    show ?thesis
    proof (cases "ptr' < STREAM_MAXW16_60MS")
      case True
      have "fix_rel (?s, p + 1, ?W, ?v) (ws', ptr', full', ?W, ?v)"
        using put rel p True by (auto simp: fix_rel_def take_Suc_update u32_def)
      from "1.IH" [OF \<open>W AND 0xFF000000 = 0\<close> p r this] show ?thesis
        using \<open>W AND 0xFF000000 = 0\<close> put(1) True
        by (subst fix_enc_renorm.simps) (simp add: Let_def STREAM_MAXW16_60MS_def)
    next
      case False
      then have "2 * STREAM_MAXW16_60MS \<le> p + 1" using put(2) by (simp add: fix_pos_def)
      then have "2 * STREAM_MAXW16_60MS \<le> fst (snd st)" using enc_renorm_pos r by (cases st) fastforce
      moreover have "fix_enc_renorm ws ptr full W v = Some (Inl (ws', full', v))"
        using \<open>W AND 0xFF000000 = 0\<close> put(1) False
        by (subst fix_enc_renorm.simps) (simp add: Let_def STREAM_MAXW16_60MS_def)
      ultimately show ?thesis by (simp add: fix_outcome_def)
    qed
  qed
qed

text \<open>The carry depends only on the bytes written.\<close>

lemma propagate_carry_prefix:
  assumes "p \<le> length s" "p \<le> length t" "take p s = take p t"
  shows "map_option (take p) (propagate_carry p s) = map_option (take p) (propagate_carry p t)"
    "propagate_carry p s = Some s' \<Longrightarrow> length s' = length s"
proof -
  have len: "propagate_carry q u = Some u' \<Longrightarrow> length u' = length u" for q u u'
    by (induction q arbitrary: u) (auto simp: Let_def split: if_splits)
  have *: "map_option (take p) (propagate_carry p u) = propagate_carry p (take p u)" if "p \<le> length u" for u
    using propagate_carry_append [of p "take p u" "drop p u"] that len
    by (cases "propagate_carry p (take p u)") fastforce+
  show "map_option (take p) (propagate_carry p s) = map_option (take p) (propagate_carry p t)"
    using * [OF assms(1)] * [OF assms(2)] assms(3) by simp
  show "propagate_carry p s = Some s' \<Longrightarrow> length s' = length s" by (rule len)
qed

lemma fix_carry_rel:
  assumes rel: "fix_rel (s, p, W, v) (ws, ptr, full, W, v)" and c: "propagate_carry p s = Some s'"
  shows "\<exists>ws'. fix_carry full ptr ws = Some ws' \<and> fix_rel (s', p, W, v) (ws', ptr, full, W, v)"
proof -
  note r = rel [unfolded fix_rel_def split_conv]
  have p: "p \<le> length (word_bytes ws)" using r by (auto simp: fix_pos_def half_ok_def)
  have tk: "take p (word_bytes ws) = take p s" "p \<le> length s" using r by blast+
  have "map_option (take p) (propagate_carry p (word_bytes ws)) = Some (take p s')"
    using propagate_carry_prefix(1) [OF p tk(2,1)] c by simp
  moreover have "propagate_carry p (word_bytes ws) = map_option word_bytes (fix_carry full ptr ws)"
    using fix_carry_bytes [of ws ptr full] r by simp
  ultimately obtain ws' where ws': "fix_carry full ptr ws = Some ws'" "take p (word_bytes ws') = take p s'"
    by (auto simp: option.map_comp)
  have "length s' = length s" using propagate_carry_prefix(2) [OF _ _ refl c] r by simp
  with ws' fix_carry_keeps [OF ws'(1)] r show ?thesis by (auto simp: fix_rel_def)
qed

lemma fix_add_rel:
  assumes "fix_rel (s, p, W, v) (ws, ptr, full, W, v)" "0 \<le> v2" "v2 < 4294967296"
    and "(if c then propagate_carry p s else Some s) = Some s1"
  shows "\<exists>ws1. (if c then fix_carry full ptr ws else Some ws) = Some ws1 \<and>
    fix_rel (s1, p, W2, v2) (ws1, ptr, full, W2, v2)"
proof -
  have "fix_rel (s, p, W2, v2) (ws, ptr, full, W2, v2)" using assms(1-3) by (auto simp: fix_rel_def)
  then show ?thesis using assms(4) fix_carry_rel by (auto split: if_splits)
qed

lemma fix_enc_symbol_refines:
  assumes "enc_symbol lo hi st = Some st'" "fix_rel st fs"
  shows "fix_outcome st' (fix_enc_symbol lo hi fs)"
proof -
  obtain s p W v where st: "st = (s, p, W, v)" by (metis prod_cases4)
  obtain ws ptr full where fs: "fs = (ws, ptr, full, W, v)"
    using assms(2) st by (cases fs) (auto simp: fix_rel_def)
  define l where "l = u32 (scale_cdf W lo + 1)"
  define W2 where "W2 = u32 (scale_cdf W hi - l)"
  define v2 where "v2 = u32 (v + l)"
  obtain s1 where s1: "(if v2 < l then propagate_carry p s else Some s) = Some s1"
    "enc_renorm s1 p W2 v2 = Some st'"
    using assms(1) by (auto simp: enc_symbol_def st Let_def l_def W2_def v2_def split: option.splits if_splits)
  obtain ws1 where "(if v2 < l then fix_carry full ptr ws else Some ws) = Some ws1"
    "fix_rel (s1, p, W2, v2) (ws1, ptr, full, W2, v2)"
    using fix_add_rel [OF assms(2) [unfolded st fs] _ _ s1(1), of v2 W2] by (auto simp: v2_def u32_def)
  with fix_enc_renorm_refines [OF s1(2)] show ?thesis
    by (simp add: fix_enc_symbol_def fs Let_def l_def W2_def v2_def)
qed

lemma enc_symbol_pos: "enc_symbol lo hi st = Some st' \<Longrightarrow> fst (snd st) \<le> fst (snd st')"
  by (cases st; cases st') (auto simp: enc_symbol_def Let_def split: option.splits if_splits dest: enc_renorm_pos)

lemma enc_hist_loop_pos: "enc_hist_loop k data cdf st = Some st' \<Longrightarrow> fst (snd st) \<le> fst (snd st')"
  by (induction k data cdf st rule: enc_hist_loop.induct)
    (fastforce split: option.splits dest: enc_symbol_pos)+

lemma fix_enc_hist_loop_refines:
  "enc_hist_loop k data cdf st = Some st' \<Longrightarrow> fix_rel st fs \<Longrightarrow>
   fix_outcome st' (fix_enc_hist_loop k data cdf fs)"
proof (induction k arbitrary: data cdf st fs)
  case 0
  then have "fst (snd st) < 2 * STREAM_MAXW16_60MS" by (auto simp: fix_rel_def fix_pos_def)
  then show ?case using 0 by (simp add: fix_outcome_def)
next
  case (Suc k)
  obtain st1 where st1: "enc_symbol (hd cdf ! hd data) (hd cdf ! (hd data + 1)) st = Some st1"
    "enc_hist_loop k (tl data) (tl cdf) st1 = Some st'"
    using Suc.prems(1) by (auto split: option.splits)
  have out: "fix_outcome st1 (fix_enc_symbol (hd cdf ! hd data) (hd cdf ! (hd data + 1)) fs)"
    by (rule fix_enc_symbol_refines [OF st1(1) Suc.prems(2)])
  show ?case
  proof (cases "fst (snd st1) < 2 * STREAM_MAXW16_60MS")
    case True
    then show ?thesis using out Suc.IH [OF st1(2)] by (auto simp: fix_outcome_def split: if_splits)
  next
    case False
    then have "\<not> fst (snd st') < 2 * STREAM_MAXW16_60MS" using enc_hist_loop_pos [OF st1(2)] by simp
    then show ?thesis using out False by (auto simp: fix_outcome_def)
  qed
qed

text \<open>Termination: one or two more bytes.\<close>

lemma two_top_bytes:
  assumes "0 \<le> v" "v < 4294967296"
  shows "u16 (shr v 16) = shr v 24 * 256 + u8 (shr v 16)"
    "u16 (shr v 8) AND 0xFF00 = u8 (shr v 16) * 256 + 0"
proof -
  have "shr v 16 = shr v 24 * 256 + u8 (shr v 16)"
    using div_mult_mod_eq [of "shr v 16" 256] by (simp add: shr_def u8_def zdiv_zmult2_eq [symmetric])
  moreover have "shr v 16 < 65536" "0 \<le> shr v 16"
    using assms by (simp_all add: shr_def pos_imp_zdiv_nonneg_iff int_div_less_self)
  ultimately show "u16 (shr v 16) = shr v 24 * 256 + u8 (shr v 16)" by (simp add: u16_def)
  have "x AND push_bit 8 (mask 8) = push_bit 8 (take_bit 8 (drop_bit 8 x))" for x :: int
    by (rule bit_eqI) (auto simp: bit_and_iff bit_push_bit_iff bit_mask_iff bit_take_bit_iff bit_drop_bit_eq)
  moreover have "push_bit 8 (mask 8) = (0xFF00 :: int)" by (simp add: push_bit_eq_mult mask_eq_exp_minus_1)
  ultimately have "u16 (shr v 8) AND 0xFF00 = (u16 (shr v 8) div 256) mod 256 * 256"
    by (simp add: push_bit_eq_mult take_bit_eq_mod drop_bit_eq_div)
  also have "u16 (shr v 8) div 256 = u8 (shr v 8 div 256)"
    unfolding u16_def u8_def using zmod_zmult2_eq [of 256 "shr v 8" 256] by simp
  also have "shr v 8 div 256 = shr v 16" by (simp add: shr_def zdiv_zmult2_eq [symmetric])
  finally show "u16 (shr v 8) AND 0xFF00 = u8 (shr v 16) * 256 + 0" by (simp add: u8_def)
qed

lemma half_word_or:
  fixes w :: int
  assumes "w mod 256 = 0" "0 \<le> b" "b < 256"
  shows "w OR b = w div 256 * 256 + b"
proof -
  have "w = w div 256 * 256" using assms(1) by auto
  then show ?thesis using or_low_byte [OF assms(2,3), of "w div 256"] by simp
qed

lemma fix_put2_bytes:
  assumes "ptr < length s" "half_ok s ptr full" "0 \<le> v" "v < 4294967296"
  defines "p \<equiv> fix_pos ptr full"
  shows "p + 2 \<le> 2 * length s \<Longrightarrow> \<exists>s'. fix_put2 full ptr v s = Some s' \<and>
      take (p + 2) (word_bytes s') = take p (word_bytes s) @ [u8 (shr v 24), u8 (shr v 16)]"
    "2 * length s < p + 2 \<Longrightarrow> fix_put2 full ptr v s = None"
proof -
  note tb = top_byte [OF assms(3,4)] and t2 = two_top_bytes [OF assms(3,4)]
  have tk: "take (Suc (Suc i)) (t[i := a, Suc i := b]) = take i t @ [a, b]" if "Suc i < length t" for i a b and t :: "int list"
    using that by (simp add: take_Suc_update)
  show "2 * length s < p + 2 \<Longrightarrow> fix_put2 full ptr v s = None"
    using assms by (auto simp: fix_put2_def fix_pos_def half_ok_def)
  assume room: "p + 2 \<le> 2 * length s"
  show "\<exists>s'. fix_put2 full ptr v s = Some s' \<and>
      take (p + 2) (word_bytes s') = take p (word_bytes s) @ [u8 (shr v 24), u8 (shr v 16)]"
  proof (cases "full = 0")
    case False
    have "word_bytes (s[ptr := shr v 24 * 256 + u8 (shr v 16)]) = (word_bytes s)[2 * ptr := shr v 24, Suc (2 * ptr) := u8 (shr v 16)]"
      by (rule word_bytes_update [OF assms(1) u8_range])
    then show ?thesis using False assms(1,2) tb t2(1) tk [of "2 * ptr" "word_bytes s"]
      by (simp add: fix_put2_def p_def fix_pos_def half_ok_def)
  next
    case True
    have i: "ptr + 1 < length s" using room assms(1) True by (simp add: p_def fix_pos_def)
    let ?a = "s ! ptr div 256 * 256 + shr v 24" and ?b = "u8 (shr v 16) * 256 + 0"
    have "s ! ptr OR u16 (shr v 24) = ?a"
      using True assms(2) tb by (simp add: half_ok_def half_word_or)
    moreover have "word_bytes (s[ptr := ?a, ptr + 1 := ?b]) =
        ((word_bytes s)[Suc (2 * ptr) := shr v 24, Suc (Suc (2 * ptr)) := u8 (shr v 16)])[Suc (Suc (Suc (2 * ptr))) := 0]"
      using i assms(1) tb by (simp only: word_bytes_update [of "ptr + 1"] word_bytes_update [of ptr]
          length_list_update u8_range order_refl) (simp add: nth_word_bytes(1) [symmetric])
    ultimately show ?thesis
      using True i tb t2(2) tk [of "Suc (2 * ptr)" "word_bytes s"]
      by (simp add: fix_put2_def p_def fix_pos_def)
  qed
qed

definition byte_fields :: "Bitstr \<Rightarrow> int list \<times> nat \<times> int \<times> int" where
  "byte_fields b = (stream b, stream_index b, W_upper b, streamval b)"

lemma one_byte_written: "write_byte p x s = Some s1 \<Longrightarrow> take (p + 1) s1 = take p s @ [x]"
  by (auto simp: write_byte_def take_Suc_update split: if_splits)

lemma two_bytes_written:
  assumes "write_byte p x s = Some s1" "write_byte (p + 1) y s1 = Some s2"
  shows "take (p + 2) s2 = take p s @ [x, y]"
  using assms by (auto simp: write_byte_def take_Suc_update split: if_splits)

text \<open>The two ways the stream ends, as functions of the pieces both coders share.\<close>

lemma EncTerminate_cases:
  assumes "WebRtcIsac_EncTerminate b = Some (n, b')"
  defines "a \<equiv> (if W_upper b > 0x01FFFFFF then 0x01000000 else 0x00010000)"
  defines "v \<equiv> u32 (streamval b + a)"
  obtains s1 where "(if v < a then propagate_carry (stream_index b) (stream b) else Some (stream b)) = Some s1"
    "if W_upper b > 0x01FFFFFF
     then n = stream_index b + 1 \<and> take n (stream b') = take (stream_index b) s1 @ [u8 (shr v 24)]
     else n = stream_index b + 2 \<and> take n (stream b') = take (stream_index b) s1 @ [u8 (shr v 24), u8 (shr v 16)]"
proof (cases "W_upper b > 0x01FFFFFF")
  case True
  then obtain s1 s2 where "(if v < a then propagate_carry (stream_index b) (stream b) else Some (stream b)) = Some s1"
    "write_byte (stream_index b) (u8 (shr v 24)) s1 = Some s2" "n = stream_index b + 1" "stream b' = s2"
    using assms(1) by (auto simp: WebRtcIsac_EncTerminate_def a_def v_def Let_def split del: if_split split: option.splits)
  then show ?thesis using that True one_byte_written by simp
next
  case False
  then obtain s1 s2 s3 where "(if v < a then propagate_carry (stream_index b) (stream b) else Some (stream b)) = Some s1"
    "write_byte (stream_index b) (u8 (shr v 24)) s1 = Some s2"
    "write_byte (stream_index b + 1) (u8 (shr v 16 AND 0x00FF)) s2 = Some s3"
    "n = stream_index b + 2" "stream b' = s3"
    using assms(1) by (auto simp: WebRtcIsac_EncTerminate_def a_def v_def Let_def split del: if_split split: option.splits)
  moreover have "u8 (shr v 16 AND 0x00FF) = u8 (shr v 16)" by (simp add: and_ff u8_def)
  ultimately show ?thesis using that False two_bytes_written by simp
qed

lemma fix_EncTerminate_eq:
  "WebRtcIsacfix_EncTerminate e =
     (let wide = e_W_upper e > 0x01FFFFFF; a = (if wide then 0x01000000 else 0x00010000);
          v = u32 (e_streamval e + a); ptr = e_stream_index e; full = e_full e
      in case (if v < a then fix_carry full ptr (e_stream e) else Some (e_stream e)) of
           None \<Rightarrow> None
         | Some s \<Rightarrow>
             (if wide then map_option (\<lambda>(s, ptr, full). (s16 (int ptr * 2 + (if full = 0 then 1 else 0)),
                 e\<lparr>e_stream := s, e_streamval := v, e_full := full\<rparr>)) (fix_put full ptr v s)
              else map_option (\<lambda>s. (s16 (int (ptr + 1) * 2 + (if full = 0 then 1 else 0)),
                 e\<lparr>e_stream := s, e_streamval := v\<rparr>)) (fix_put2 full ptr v s)))"
  by (cases "e_W_upper e > 0x01FFFFFF")
    (auto simp: WebRtcIsacfix_EncTerminate_def Let_def split del: if_split split: option.splits)

lemma fix_length_code:
  assumes "full \<le> 1" "fix_pos ptr full \<le> 2 * STREAM_MAXW16_60MS"
  shows "s16 (int ptr * 2 + (if full = 0 then 1 else 0)) = int (fix_pos ptr full)"
  using assms by (auto simp: fix_pos_def STREAM_MAXW16_60MS_def s16_def le_Suc_eq)

lemma fix_put2_length: "fix_put2 full ptr v s = Some s' \<Longrightarrow> length s' = length s"
  by (auto simp: fix_put2_def split: if_splits)

lemma fix_EncTerminate_refines:
  assumes term_b: "WebRtcIsac_EncTerminate b = Some (n, b')" and rel: "fix_rel (byte_fields b) (enc_fields e)"
  shows "n \<le> 2 * STREAM_MAXW16_60MS \<Longrightarrow> \<exists>e'. WebRtcIsacfix_EncTerminate e = Some (int n, e') \<and>
      length (e_stream e') = length (e_stream e) \<and> take n (word_bytes (e_stream e')) = take n (stream b')"
    "2 * STREAM_MAXW16_60MS < n \<Longrightarrow> WebRtcIsacfix_EncTerminate e = None"
proof -
  let ?p = "stream_index b" and ?W = "W_upper b" and ?ptr = "e_stream_index e" and ?full = "e_full e"
  let ?a = "if ?W > 0x01FFFFFF then 0x01000000 else 0x00010000"
  define v where "v = u32 (streamval b + ?a)"
  obtain s1 where s1: "(if v < ?a then propagate_carry ?p (stream b) else Some (stream b)) = Some s1"
    and n: "if ?W > 0x01FFFFFF then n = ?p + 1 \<and> take n (stream b') = take ?p s1 @ [u8 (shr v 24)]
     else n = ?p + 2 \<and> take n (stream b') = take ?p s1 @ [u8 (shr v 24), u8 (shr v 16)]"
    using EncTerminate_cases [OF term_b] unfolding v_def by blast
  have eqs: "e_W_upper e = ?W" "e_streamval e = streamval b"
    using rel by (auto simp: fix_rel_def byte_fields_def enc_fields_def)
  have v: "0 \<le> v" "v < 4294967296" by (simp_all add: v_def u32_def)
  obtain ws where ws: "(if v < ?a then fix_carry ?full ?ptr (e_stream e) else Some (e_stream e)) = Some ws"
    and r: "fix_rel (s1, ?p, 0, v) (ws, ?ptr, ?full, 0, v)"
    using fix_add_rel [OF rel [unfolded byte_fields_def enc_fields_def eqs] v s1] by blast
  have len: "length (e_stream e) = STREAM_MAXW16_60MS" using rel by (auto simp: fix_rel_def enc_fields_def byte_fields_def)
  have R: "?p = fix_pos ?ptr ?full" "take ?p (word_bytes ws) = take ?p s1" "words_ok ws"
    "length ws = STREAM_MAXW16_60MS" "?ptr < length ws" "half_ok ws ?ptr ?full"
    using r by (auto simp: fix_rel_def)
  have "(n \<le> 2 * STREAM_MAXW16_60MS \<longrightarrow> (\<exists>e'. WebRtcIsacfix_EncTerminate e = Some (int n, e') \<and>
      length (e_stream e') = length (e_stream e) \<and> take n (word_bytes (e_stream e')) = take n (stream b'))) \<and>
    (2 * STREAM_MAXW16_60MS < n \<longrightarrow> WebRtcIsacfix_EncTerminate e = None)"
  proof (cases "?W > 0x01FFFFFF")
    case True
    obtain s' ptr' full' where "fix_put ?full ?ptr v ws = Some (s', ptr', full')"
      "fix_pos ptr' full' = n" "length s' = length ws" "half_ok s' ptr' full'"
      "take n (word_bytes s') = take n (stream b')"
      using fix_put_bytes [OF R(3,5,6) v] n True R(1,2) by auto
    moreover have "n \<le> 2 * STREAM_MAXW16_60MS" using n True R by (auto simp: fix_pos_def half_ok_def)
    ultimately show ?thesis
      using True ws len R(4) fix_length_code [of full' ptr']
      by (auto simp: fix_EncTerminate_eq eqs v_def Let_def half_ok_def)
  next
    case False
    have code: "n \<le> 2 * STREAM_MAXW16_60MS \<Longrightarrow> s16 (int (?ptr + 1) * 2 + (if ?full = 0 then 1 else 0)) = int n"
      using fix_length_code [of ?full "?ptr + 1"] n False R(1,6) by (simp add: fix_pos_def half_ok_def)
    show ?thesis
      using False ws len n R(1,2,4) code fix_put2_bytes [OF R(5,6) v] fix_put2_length [of ?full ?ptr v ws]
      by (auto simp: fix_EncTerminate_eq eqs v_def Let_def not_le)
  qed
  then show "n \<le> 2 * STREAM_MAXW16_60MS \<Longrightarrow> \<exists>e'. WebRtcIsacfix_EncTerminate e = Some (int n, e') \<and>
      length (e_stream e') = length (e_stream e) \<and> take n (word_bytes (e_stream e')) = take n (stream b')"
    "2 * STREAM_MAXW16_60MS < n \<Longrightarrow> WebRtcIsacfix_EncTerminate e = None" by blast+
qed

subsection \<open>The decoders on words refine the decoders on bytes\<close>

text \<open>The byte decoders keep their pointer on the last byte read.\<close>

definition dec_pos :: "nat \<Rightarrow> nat \<Rightarrow> nat" where
  "dec_pos ptr full = 2 * ptr - full"

definition byte_state :: "nat \<times> nat \<times> int \<times> int \<Rightarrow> nat \<times> int \<times> int" where
  "byte_state = (\<lambda>(ptr, full, W, v). (dec_pos ptr full, W, v))"

definition dec_ptr_ok :: "nat \<Rightarrow> nat \<Rightarrow> nat \<Rightarrow> bool" where
  "dec_ptr_ok n ptr full \<longleftrightarrow> full \<le> 1 \<and> 2 \<le> ptr \<and> ptr \<le> n"

lemma fix_dec_renorm_bytes:
  "words_ok s \<Longrightarrow> dec_ptr_ok (length s) ptr full \<Longrightarrow>
   dec_renorm (word_bytes s) (dec_pos ptr full) W v = map_option byte_state (fix_dec_renorm s ptr full W v) \<and>
   (\<forall>ptr' full' W' v'. fix_dec_renorm s ptr full W v = Some (ptr', full', W', v') \<longrightarrow> dec_ptr_ok (length s) ptr' full')"
proof (induction s ptr full W v rule: fix_dec_renorm.induct)
  case (1 s ptr full W v)
  let ?W = "u32 (W * 2 ^ 8)" and ?v = "u32 (v * 2 ^ 8)"
  show ?case
  proof (cases "W AND 0xFF000000 = 0")
    case False
    then show ?thesis
      using "1.prems" by (subst dec_renorm.simps, subst (1 2) fix_dec_renorm.simps) (simp add: byte_state_def)
  next
    case W: True
    show ?thesis
    proof (cases "length s \<le> ptr")
      case True
      then show ?thesis
        using W "1.prems"(2)
        by (subst dec_renorm.simps, subst (1 2) fix_dec_renorm.simps) (auto simp: dec_pos_def dec_ptr_ok_def)
    next
      case False
      have room: "dec_pos ptr full + 1 < 2 * length s"
        using False "1.prems"(2) by (auto simp: dec_pos_def dec_ptr_ok_def)
      show ?thesis
      proof (cases "full = 0")
        case True
        have b: "word_bytes s ! (dec_pos ptr full + 1) = s ! ptr AND 0x00FF"
          using True False by (simp add: dec_pos_def nth_word_bytes and_ff)
        have "dec_pos ptr full + 1 = dec_pos (ptr + 1) 1" "dec_ptr_ok (length s) (ptr + 1) 1"
          using True False "1.prems"(2) by (auto simp: dec_pos_def dec_ptr_ok_def)
        with "1.IH"(1) [OF W False True "1.prems"(1)] b room show ?thesis
          by (subst dec_renorm.simps, subst (1 2) fix_dec_renorm.simps) (simp add: W False True)
      next
        case f: False
        have full: "full = 1" "0 < ptr" using f "1.prems"(2) by (auto simp: dec_ptr_ok_def)
        then have pos: "dec_pos ptr full + 1 = dec_pos ptr 0" "dec_ptr_ok (length s) ptr 0"
          using "1.prems"(2) by (auto simp: dec_pos_def dec_ptr_ok_def)
        have b: "word_bytes s ! (dec_pos ptr full + 1) = shr (s ! ptr) 8"
          unfolding pos using False by (simp add: dec_pos_def nth_word_bytes shr_def)
        with "1.IH"(2) [OF W False f "1.prems"(1) pos(2)] pos(1) room show ?thesis
          by (subst dec_renorm.simps, subst (1 2) fix_dec_renorm.simps) (simp add: W False f)
      qed
    qed
  qed
qed

text \<open>A loop on words and the loop on bytes agree: the same symbols, up to the conversion to 16 bits,
  and the same state or an early return.\<close>

definition loop_agrees ::
    "int list \<Rightarrow> (int list \<times> (nat \<times> int \<times> int) option) option \<Rightarrow> fix_dec_result \<Rightarrow> bool" where
  "loop_agrees s r f \<longleftrightarrow>
     map_option (\<lambda>(ds, q). (map s16 ds, q)) r =
       map_option (\<lambda>(ds, q). (ds, case q of Inl _ \<Rightarrow> None | Inr st \<Rightarrow> Some (byte_state st))) f \<and>
     (\<forall>ds ptr full W v. f = Some (ds, Inr (ptr, full, W, v)) \<longrightarrow> dec_ptr_ok (length s) ptr full)"

lemma loop_agrees_cons:
  "loop_agrees s r f \<Longrightarrow>
   loop_agrees s (case r of None \<Rightarrow> None | Some (ds, q) \<Rightarrow> Some (d # ds, q))
     (case f of None \<Rightarrow> None | Some (ds, q) \<Rightarrow> Some (s16 d # ds, q))"
  by (cases r; cases f) (auto simp: loop_agrees_def)

lemma fix_dec_bisect_loop_agrees:
  "words_ok s \<Longrightarrow> dec_ptr_ok (length s) ptr full \<Longrightarrow>
   loop_agrees s (dec_bisect_loop k cdf sizes (word_bytes s) (dec_pos ptr full, Wl, W, v))
     (fix_dec_bisect_loop k cdf sizes s (ptr, full, Wl, W, v))"
proof (induction k arbitrary: cdf sizes ptr full Wl W v)
  case 0
  then show ?case by (simp add: loop_agrees_def byte_state_def)
next
  case (Suc k)
  show ?case
  proof (cases "bisect (hd cdf) (hd sizes) Wl W v")
    case (Found d lo hi)
    let ?l = "u32 (lo + 1)"
    let ?W = "u32 (hi - ?l)" and ?v = "u32 (v - ?l)"
    note ren = fix_dec_renorm_bytes [OF Suc.prems, of ?W ?v]
    show ?thesis
    proof (cases "fix_dec_renorm s ptr full ?W ?v")
      case None
      then show ?thesis using ren Found by (simp add: Let_def loop_agrees_def)
    next
      case (Some st)
      obtain ptr' full' W' v' where st: "st = (ptr', full', W', v')" by (metis prod_cases4)
      have ok: "dec_ptr_ok (length s) ptr' full'" and
        byte: "dec_renorm (word_bytes s) (dec_pos ptr full) ?W ?v = Some (dec_pos ptr' full', W', v')"
        using ren Some st by (auto simp: byte_state_def)
      have "loop_agrees s
          (case dec_bisect_loop k (tl cdf) (tl sizes) (word_bytes s) (dec_pos ptr' full', ?l, W', v') of
             None \<Rightarrow> None | Some (ds, q) \<Rightarrow> Some (d # ds, q))
          (case fix_dec_bisect_loop k (tl cdf) (tl sizes) s (ptr', full', ?l, W', v') of
             None \<Rightarrow> None | Some (ds, q) \<Rightarrow> Some (s16 d # ds, q))"
        by (intro loop_agrees_cons Suc.IH Suc.prems(1) ok)
      moreover have "loop_agrees s (Some ([d], None)) (Some ([s16 d], Inl full'))"
        by (simp add: loop_agrees_def)
      ultimately show ?thesis using Found byte Some st by (simp add: Let_def)
    qed
  qed (simp_all add: loop_agrees_def)
qed

lemma fix_dec_one_step_loop_agrees:
  "words_ok s \<Longrightarrow> dec_ptr_ok (length s) ptr full \<Longrightarrow>
   loop_agrees s (dec_one_step_loop k cdf inits (word_bytes s) (dec_pos ptr full, W, v))
     (fix_dec_one_step_loop k cdf inits s (ptr, full, W, v))"
proof (induction k arbitrary: cdf inits ptr full W v)
  case 0
  then show ?case by (simp add: loop_agrees_def byte_state_def)
next
  case (Suc k)
  show ?case
  proof (cases "one_step (hd cdf) (hd inits) W v")
    case (Found d lo hi)
    let ?l = "u32 (lo + 1)"
    let ?W = "u32 (hi - ?l)" and ?v = "u32 (v - ?l)"
    note ren = fix_dec_renorm_bytes [OF Suc.prems, of ?W ?v]
    show ?thesis
    proof (cases "fix_dec_renorm s ptr full ?W ?v")
      case None
      then show ?thesis using ren Found by (simp add: Let_def loop_agrees_def)
    next
      case (Some st)
      obtain ptr' full' W' v' where st: "st = (ptr', full', W', v')" by (metis prod_cases4)
      have ok: "dec_ptr_ok (length s) ptr' full'" and
        byte: "dec_renorm (word_bytes s) (dec_pos ptr full) ?W ?v = Some (dec_pos ptr' full', W', v')"
        using ren Some st by (auto simp: byte_state_def)
      have "loop_agrees s
          (case dec_one_step_loop k (tl cdf) (tl inits) (word_bytes s) (dec_pos ptr' full', W', v') of
             None \<Rightarrow> None | Some (ds, q) \<Rightarrow> Some (d # ds, q))
          (case fix_dec_one_step_loop k (tl cdf) (tl inits) s (ptr', full', W', v') of
             None \<Rightarrow> None | Some (ds, q) \<Rightarrow> Some (s16 d # ds, q))"
        by (intro loop_agrees_cons Suc.IH Suc.prems(1) ok)
      then show ?thesis using Found byte Some st by (simp add: Let_def)
    qed
  qed (simp_all add: loop_agrees_def)
qed

definition dec_ok :: "Bitstr_dec \<Rightarrow> bool" where
  "dec_ok d \<longleftrightarrow> words_ok (d_stream d) \<and> length (d_stream d) = INTERNAL_STREAM_SIZE_W16 \<and>
     (d_stream_index d = 0 \<and> d_full d = 1 \<or> dec_ptr_ok INTERNAL_STREAM_SIZE_W16 (d_stream_index d) (d_full d))"

definition byte_dec :: "Bitstr_dec \<Rightarrow> Bitstr" where
  "byte_dec d = \<lparr>stream = word_bytes (d_stream d), W_upper = d_W_upper d, streamval = d_streamval d,
     stream_index = dec_pos (d_stream_index d) (d_full d)\<rparr>"

text \<open>What the two decoders agree on: the code, the symbols, which the fixed-point decoder stores in 16
  bits, and, unless it is an error code, the structure.\<close>

definition dec_agree :: "(int \<times> int list \<times> Bitstr_dec) \<Rightarrow> (int \<times> int list \<times> Bitstr) \<Rightarrow> bool" where
  "dec_agree = (\<lambda>(r, ds, d) (r', ds', b). r = r' \<and> ds = map s16 ds' \<and> (0 \<le> r \<longrightarrow> dec_ok d \<and> b = byte_dec d))"

lemma fix_stream_bytes_pos:
  assumes "full \<le> 1" "2 \<le> ptr"
  shows "fix_stream_bytes ptr full W = stream_bytes (dec_pos ptr full) W"
  using assms by (cases "full = 0") (auto simp: fix_stream_bytes_def stream_bytes_def dec_pos_def of_nat_diff)

lemma fix_stream_bytes_eq:
  assumes "dec_ptr_ok INTERNAL_STREAM_SIZE_W16 ptr full"
  shows "s16 (fix_stream_bytes ptr full W) = stream_bytes (dec_pos ptr full) W"
proof -
  have ok: "full \<le> 1" "2 \<le> ptr" "ptr \<le> 305"
    using assms by (simp_all add: dec_ptr_ok_def INTERNAL_STREAM_SIZE_W16_def)
  have "s16 (fix_stream_bytes ptr full W) = fix_stream_bytes ptr full W"
    using ok by (intro s16_idI) (auto simp: fix_stream_bytes_def)
  then show ?thesis using fix_stream_bytes_pos [OF ok(1,2)] by simp
qed

lemma word_bytes_bval:
  "2 \<le> length s \<Longrightarrow> bval (take 4 (word_bytes s)) = s ! 0 * 65536 + s ! 1"
proof -
  assume "2 \<le> length s"
  then obtain a b r where s: "s = a # b # r" by (cases s; cases "tl s") auto
  have "a div 256 * 16777216 + a mod 256 * 65536 = a * 65536"
    using div_mult_mod_eq [of a 256] by linarith
  then show ?thesis by (simp add: s numeral_eq_Suc)
qed

lemma fix_read_first_bytes:
  assumes "dec_ok d"
  shows "\<exists>v ptr. fix_read_first d = Some (v, ptr) \<and> dec_ptr_ok (length (d_stream d)) ptr (d_full d) \<and>
    start_decoder (byte_dec d) = Some (v, dec_pos ptr (d_full d))"
proof (cases "d_stream_index d = 0")
  case True
  let ?s = "d_stream d"
  have s: "words_ok ?s" "length ?s = 305" "d_full d = 1"
    using assms True by (auto simp: dec_ok_def INTERNAL_STREAM_SIZE_W16_def dec_ptr_ok_def)
  have w: "0 \<le> ?s ! 0" "?s ! 0 < 65536" "0 \<le> ?s ! 1" "?s ! 1 < 65536"
    using words_ok_nth [OF s(1), of 0] words_ok_nth [OF s(1), of 1] s(2) by auto
  have "u32 (?s ! 0 * 2 ^ 16) OR ?s ! 1 = ?s ! 0 * 65536 + ?s ! 1"
    using w or_disjoint [of "?s ! 1" 16 "?s ! 0"] by (simp add: u32_def)
  moreover have "read_first_word (word_bytes ?s) 0 = Some (?s ! 0 * 65536 + ?s ! 1, 3)"
    using read_first_word_eq [OF bytes_ok_word_bytes [OF s(1)]] s(2) word_bytes_bval [of ?s] by simp
  ultimately show ?thesis
    using True s by (simp add: Let_def fix_read_first_def start_decoder_def byte_dec_def dec_pos_def dec_ptr_ok_def)
next
  case False
  then show ?thesis
    using assms by (auto simp: fix_read_first_def start_decoder_def byte_dec_def dec_pos_def dec_ptr_ok_def dec_ok_def)
qed

lemma fix_dec_finish_agrees:
  assumes "dec_ok d" "loop_agrees (d_stream d) r f" "code < 0"
  shows "rel_option dec_agree (fix_dec_finish code d f)
    (case r of
       None \<Rightarrow> None
     | Some (ds, None) \<Rightarrow> Some (code, ds, byte_dec d)
     | Some (ds, Some (p, W_up, val)) \<Rightarrow>
         Some (stream_bytes p W_up, ds, (byte_dec d)\<lparr>stream_index := p, W_upper := W_up, streamval := val\<rparr>))"
proof (cases f)
  case None
  then show ?thesis using assms(2) by (simp add: loop_agrees_def fix_dec_finish_def)
next
  case (Some x)
  have len: "length (d_stream d) = INTERNAL_STREAM_SIZE_W16" using assms(1) by (simp add: dec_ok_def)
  obtain ds q where x: "x = (ds, q)" by (cases x)
  show ?thesis
  proof (cases q)
    case (Inl full)
    then show ?thesis
      using assms(2,3) Some x by (auto simp: loop_agrees_def fix_dec_finish_def dec_agree_def)
  next
    case (Inr st)
    obtain ptr full W v where st: "st = (ptr, full, W, v)" by (metis prod_cases4)
    have "dec_ptr_ok INTERNAL_STREAM_SIZE_W16 ptr full"
      using assms(2) Some x Inr st len by (simp add: loop_agrees_def)
    then show ?thesis
      using assms(1,2) Some x Inr st len fix_stream_bytes_eq [of ptr full W]
      by (auto simp: loop_agrees_def fix_dec_finish_def dec_agree_def byte_state_def byte_dec_def dec_ok_def)
  qed
qed

lemma fix_dec_bisect_agrees:
  assumes "dec_ok d"
  shows "rel_option dec_agree (WebRtcIsacfix_DecHistBisectMulti d cdf cdfSize N)
    (WebRtcIsac_DecHistBisectMulti (byte_dec d) cdf cdfSize N)"
proof -
  obtain v ptr where f: "fix_read_first d = Some (v, ptr)" "dec_ptr_ok (length (d_stream d)) ptr (d_full d)"
    "start_decoder (byte_dec d) = Some (v, dec_pos ptr (d_full d))"
    using fix_read_first_bytes [OF assms] by blast
  have "words_ok (d_stream d)" using assms by (simp add: dec_ok_def)
  note loop = fix_dec_finish_agrees [OF assms fix_dec_bisect_loop_agrees [OF this f(2)], of "-2"]
  then show ?thesis
    using f by (simp add: WebRtcIsacfix_DecHistBisectMulti_def WebRtcIsac_DecHistBisectMulti_def dec_agree_def)
      (simp add: byte_dec_def)
qed

lemma fix_dec_one_step_agrees:
  assumes "dec_ok d"
  shows "rel_option dec_agree (WebRtcIsacfix_DecHistOneStepMulti d cdf initIndex N)
    (WebRtcIsac_DecHistOneStepMulti (byte_dec d) cdf initIndex N)"
proof -
  obtain v ptr where f: "fix_read_first d = Some (v, ptr)" "dec_ptr_ok (length (d_stream d)) ptr (d_full d)"
    "start_decoder (byte_dec d) = Some (v, dec_pos ptr (d_full d))"
    using fix_read_first_bytes [OF assms] by blast
  have "words_ok (d_stream d)" using assms by (simp add: dec_ok_def)
  note loop = fix_dec_finish_agrees [OF assms fix_dec_one_step_loop_agrees [OF this f(2)], of "-3"]
  then show ?thesis
    using f by (simp add: WebRtcIsacfix_DecHistOneStepMulti_def WebRtcIsac_DecHistOneStepMulti_def dec_agree_def)
      (simp add: byte_dec_def)
qed








subsection \<open>Whole messages\<close>

definition fresh_enc :: "Bitstr_enc \<Rightarrow> bool" where
  "fresh_enc e \<longleftrightarrow> e_stream_index e = 0 \<and> e_full e = 1 \<and> e_W_upper e = 0xFFFFFFFF \<and> e_streamval e = 0 \<and>
     words_ok (e_stream e) \<and> length (e_stream e) = STREAM_MAXW16_60MS"

definition fresh_byte_enc :: "Bitstr \<Rightarrow> bool" where
  "fresh_byte_enc b \<longleftrightarrow> stream_index b = 0 \<and> W_upper b = 0xFFFFFFFF \<and> streamval b = 0 \<and> bytes_ok (stream b)"

definition fresh_dec :: "Bitstr_dec \<Rightarrow> bool" where
  "fresh_dec d \<longleftrightarrow> d_stream_index d = 0 \<and> d_full d = 1 \<and> d_W_upper d = 0xFFFFFFFF \<and>
     words_ok (d_stream d) \<and> length (d_stream d) = INTERNAL_STREAM_SIZE_W16"

lemma fresh_rel: "fresh_enc e \<Longrightarrow> fresh_byte_enc b \<Longrightarrow> fix_rel (byte_fields b) (enc_fields e)"
  by (simp add: fresh_enc_def fresh_byte_enc_def fix_rel_def byte_fields_def enc_fields_def fix_pos_def half_ok_def
      STREAM_MAXW16_60MS_def)

lemma fix_EncHistMulti_refines:
  assumes "WebRtcIsac_EncHistMulti b data cdf N = Some b1" "fix_rel (byte_fields b) (enc_fields e)"
  shows "if stream_index b1 < 2 * STREAM_MAXW16_60MS
     then \<exists>e1. WebRtcIsacfix_EncHistMulti e data cdf N = Some (0, e1) \<and> fix_rel (byte_fields b1) (enc_fields e1)
     else \<exists>e1. WebRtcIsacfix_EncHistMulti e data cdf N = Some (- ISAC_DISALLOWED_BITSTREAM_LENGTH, e1)"
proof -
  obtain st where st: "enc_hist_loop N data cdf (byte_fields b) = Some st" "byte_fields b1 = st"
    using assms(1) by (auto simp: WebRtcIsac_EncHistMulti_def byte_fields_def split: option.splits)
  have "fst (snd st) = stream_index b1" unfolding st(2) [symmetric] by (simp add: byte_fields_def)
  then show ?thesis
    using fix_enc_hist_loop_refines [OF st(1) assms(2)] st(2)
    by (auto simp: fix_outcome_def WebRtcIsacfix_EncHistMulti_def fix_enc_finish_def enc_fields_def split: if_splits)
qed

lemma fix_encode_refines:
  assumes "fix_rel (byte_fields b) (enc_fields e)"
    and "WebRtcIsac_EncHistMulti b data cdf N = Some b1" "WebRtcIsac_EncTerminate b1 = Some (n, b2)"
  shows "if stream_index b1 < 2 * STREAM_MAXW16_60MS
     then \<exists>e1. WebRtcIsacfix_EncHistMulti e data cdf N = Some (0, e1) \<and>
       (if n \<le> 2 * STREAM_MAXW16_60MS
        then \<exists>e2. WebRtcIsacfix_EncTerminate e1 = Some (int n, e2) \<and>
          take n (word_bytes (e_stream e2)) = take n (stream b2)
        else WebRtcIsacfix_EncTerminate e1 = None)
     else \<exists>e1. WebRtcIsacfix_EncHistMulti e data cdf N = Some (- ISAC_DISALLOWED_BITSTREAM_LENGTH, e1)"
proof (cases "stream_index b1 < 2 * STREAM_MAXW16_60MS")
  case True
  then obtain e1 where e1: "WebRtcIsacfix_EncHistMulti e data cdf N = Some (0, e1)"
    "fix_rel (byte_fields b1) (enc_fields e1)"
    using fix_EncHistMulti_refines [OF assms(2,1)] by auto
  then show ?thesis
    using True fix_EncTerminate_refines [OF assms(3) e1(2)] by (cases "n \<le> 2 * STREAM_MAXW16_60MS") auto
next
  case False
  then show ?thesis using fix_EncHistMulti_refines [OF assms(2,1)] by auto
qed

text \<open>Decoding on words what the bytes hold.\<close>

lemma fresh_dec_byte:
  assumes "fresh_dec d"
  shows "dec_ok d" "bytes_ok (word_bytes (d_stream d))"
    "byte_dec d = \<lparr>stream = word_bytes (d_stream d), W_upper = 0xFFFFFFFF, streamval = d_streamval d, stream_index = 0\<rparr>"
  using assms by (simp_all add: fresh_dec_def dec_ok_def byte_dec_def dec_pos_def bytes_ok_word_bytes)

lemma dec_agree_code:
  assumes "rel_option dec_agree f g" "g = Some (r, ds, b)"
  shows "\<exists>d. f = Some (r, map s16 ds, d)"
  using assms by (cases f) (auto simp: dec_agree_def)

text \<open>C5: the fixed-point encoder writes, word by word, the stream of the floating-point encoder. From
  fresh structures with the same message, if the byte encoder ends below the 400 bytes of the
  fixed-point buffer, the word encoder returns 0, and its termination gives the same length \<open>n\<close> and
  the same first \<open>n\<close> bytes, provided they fit; otherwise the word encoder returns
  \<open>-ISAC_DISALLOWED_BITSTREAM_LENGTH\<close> and never leaves its buffer. The one case in which the code leaves it is
  a termination that would need byte 401.\<close>

theorem isacfix_encoder_equivalent:
  assumes "fresh_enc e" "fresh_byte_enc b"
    and "WebRtcIsac_EncHistMulti b data cdf N = Some b1" "WebRtcIsac_EncTerminate b1 = Some (n, b2)"
  shows "if stream_index b1 < 2 * STREAM_MAXW16_60MS
     then \<exists>e1. WebRtcIsacfix_EncHistMulti e data cdf N = Some (0, e1) \<and>
       (if n \<le> 2 * STREAM_MAXW16_60MS
        then \<exists>e2. WebRtcIsacfix_EncTerminate e1 = Some (int n, e2) \<and>
          take n (word_bytes (e_stream e2)) = take n (stream b2)
        else WebRtcIsacfix_EncTerminate e1 = None)
     else \<exists>e1. WebRtcIsacfix_EncHistMulti e data cdf N = Some (- ISAC_DISALLOWED_BITSTREAM_LENGTH, e1)"
  by (rule fix_encode_refines [OF fresh_rel [OF assms(1,2)] assms(3,4)])

definition demo_enc :: Bitstr_enc where
  "demo_enc = \<lparr>e_stream = replicate 200 0x1234, e_W_upper = 0xFFFFFFFF, e_streamval = 0, e_stream_index = 0, e_full = 1\<rparr>"

lemma demo_fresh: "fresh_enc demo_enc" "fresh_byte_enc demo_stream"
  by (simp_all add: fresh_enc_def fresh_byte_enc_def demo_enc_def demo_stream_def words_ok_def bytes_ok_def STREAM_MAXW16_60MS_def)

theorem isacfix_encoder_equivalent_witness:
  "\<exists>b1 n b2 e1 e2. WebRtcIsac_EncHistMulti demo_stream [1, 0] [demo_cdf, demo_cdf] 2 = Some b1 \<and>
     WebRtcIsac_EncTerminate b1 = Some (n, b2) \<and>
     WebRtcIsacfix_EncHistMulti demo_enc [1, 0] [demo_cdf, demo_cdf] 2 = Some (0, e1) \<and>
     WebRtcIsacfix_EncTerminate e1 = Some (int n, e2) \<and> take n (word_bytes (e_stream e2)) = take n (stream b2)"
proof -
  have ok: "\<forall>c\<in>set (table_pairs [demo_cdf, demo_cdf] [1, 0]). cdf_pair_ok c"
    by (simp add: table_pairs_def table_pair_def demo_cdf_def cdf_pair_ok_def)
  obtain b1 n b2 where b: "WebRtcIsac_EncHistMulti demo_stream [1, 0] [demo_cdf, demo_cdf] 2 = Some b1"
    "WebRtcIsac_EncTerminate b1 = Some (n, b2)" "stream_index b1 \<le> 6" "n \<le> stream_index b1 + 2"
    using encode_message [of demo_stream "[demo_cdf, demo_cdf]" "[1, 0]", OF _ _ _ _ _ _ ok]
    by (auto simp: demo_stream_def bytes_ok_def numeral_2_eq_2 Let_def)
  from isacfix_encoder_equivalent [OF demo_fresh b(1,2)] b show ?thesis
    by (auto simp: STREAM_MAXW16_60MS_def)
qed



text \<open>C4: what the fixed-point encoder writes, both fixed-point decoders read back. From a fresh structure,
  encoding a message over valid tables returns 0 or the error for a stream that is too long, never
  the latter and always with a successful termination when the message has at most 132 symbols. Whenever both
  calls succeed, a fresh decoder whose buffer starts with the \<open>n\<close> bytes returned, whatever follows them,
  returns \<open>n\<close> and exactly the symbols of the message converted to the 16 bits of \<open>int16_t *data\<close>, which are
  the symbols themselves for every message the encoder's \<open>int16_t\<close> array can hold, by bisection and by
  single steps.\<close>

theorem isacfix_roundtrip:
  assumes "fresh_enc e" "length cdf = length data" "length cdfSize = length data" "length initIndex = length data"
    and "list_all2 bisect_valid (zip cdf cdfSize) data" "list_all2 one_step_valid (zip cdf initIndex) data"
  shows "\<exists>r e1. WebRtcIsacfix_EncHistMulti e data cdf (length data) = Some (r, e1) \<and>
    (r = 0 \<or> r = - ISAC_DISALLOWED_BITSTREAM_LENGTH) \<and>
    (length data \<le> 132 \<longrightarrow> r = 0 \<and> WebRtcIsacfix_EncTerminate e1 \<noteq> None) \<and>
    (\<forall>n e2 d. r = 0 \<and> WebRtcIsacfix_EncTerminate e1 = Some (n, e2) \<and> fresh_dec d \<and>
       take (nat n) (word_bytes (d_stream d)) = take (nat n) (word_bytes (e_stream e2)) \<longrightarrow>
       (\<exists>ds d1 d2. WebRtcIsacfix_DecHistBisectMulti d cdf cdfSize (length data) = Some (n, ds, d1) \<and>
         WebRtcIsacfix_DecHistOneStepMulti d cdf initIndex (length data) = Some (n, ds, d2) \<and>
         ds = map (\<lambda>x. s16 (int x)) data \<and> (list_all (\<lambda>x. x \<le> 32767) data \<longrightarrow> ds = map int data)))"
proof -
  define b :: Bitstr where
    "b = \<lparr>stream = replicate (3 * length data + 4) 0, W_upper = 0xFFFFFFFF, streamval = 0, stream_index = 0\<rparr>"
  have fresh: "fresh_byte_enc b" by (simp add: b_def fresh_byte_enc_def bytes_ok_def)
  let ?st = "fold abs_step (table_pairs cdf data) (0, 0, 0xFFFFFFFF)"
  obtain b1 n b2 where enc: "WebRtcIsac_EncHistMulti b data cdf (length data) = Some b1"
    "WebRtcIsac_EncTerminate b1 = Some (n, b2)"
    and pos: "stream_index b1 \<le> 3 * length data" "stream_index b1 < n" "n \<le> stream_index b1 + 2"
    and dec: "\<And>B. bytes_ok B \<Longrightarrow> stream_index b1 + 4 \<le> length B \<Longrightarrow> take n B = take n (stream b2) \<Longrightarrow>
      decodes B ?st \<and> int n = stream_bytes (fst ?st + 3) (snd (snd ?st))"
    using encode_message [of b cdf data, OF _ _ _ _ assms(2) _ table_pairs_valid(1) [OF assms(5,2,3)]] fresh
    unfolding fresh_byte_enc_def Let_def by (auto simp: b_def)
  have small: "list_all (\<lambda>x. x \<le> 32767) data \<Longrightarrow> map (\<lambda>x. s16 (int x)) data = map int data"
    by (auto simp: list_all_iff intro: s16_idI)
  have read: "\<exists>d1 d2. WebRtcIsacfix_DecHistBisectMulti d cdf cdfSize (length data)
           = Some (int n, map (\<lambda>x. s16 (int x)) data, d1) \<and>
         WebRtcIsacfix_DecHistOneStepMulti d cdf initIndex (length data)
           = Some (int n, map (\<lambda>x. s16 (int x)) data, d2)"
    if d: "fresh_dec d" "take n (word_bytes (d_stream d)) = take n (stream b2)" "stream_index b1 < 2 * STREAM_MAXW16_60MS" for d
  proof -
    have len: "length (word_bytes (d_stream d)) = 610"
      using d(1) by (simp add: fresh_dec_def INTERNAL_STREAM_SIZE_W16_def)
    note D = dec [OF fresh_dec_byte(2) [OF d(1)] _ d(2)]
    show ?thesis
      using dec_agree_code [OF fix_dec_bisect_agrees [OF fresh_dec_byte(1) [OF d(1)]]]
        dec_agree_code [OF fix_dec_one_step_agrees [OF fresh_dec_byte(1) [OF d(1)]]]
        bisect_decode_message [OF fresh_dec_byte(2) [OF d(1)] _ assms(2,3,5), of "d_streamval d"]
        one_step_decode_message [OF fresh_dec_byte(2) [OF d(1)] _ assms(2,4,6), of "d_streamval d"]
        D len d(3) by (fastforce simp: fresh_dec_byte(3) [OF d(1)] STREAM_MAXW16_60MS_def comp_def)
  qed
  note ref = fix_encode_refines [OF fresh_rel [OF assms(1) fresh] enc]
  show ?thesis
  proof (cases "stream_index b1 < 2 * STREAM_MAXW16_60MS")
    case True
    then obtain e1 where e1: "WebRtcIsacfix_EncHistMulti e data cdf (length data) = Some (0, e1)"
      "if n \<le> 2 * STREAM_MAXW16_60MS then \<exists>e2. WebRtcIsacfix_EncTerminate e1 = Some (int n, e2) \<and>
          take n (word_bytes (e_stream e2)) = take n (stream b2)
       else WebRtcIsacfix_EncTerminate e1 = None"
      using ref by auto
    moreover have "length data \<le> 132 \<Longrightarrow> n \<le> 2 * STREAM_MAXW16_60MS" using pos by (simp add: STREAM_MAXW16_60MS_def)
    ultimately show ?thesis
      using read [OF _ _ True] small by (intro exI [of _ 0] exI [of _ e1]) (auto split: if_splits)
  next
    case False
    then show ?thesis
      using ref pos by (auto simp: STREAM_MAXW16_60MS_def ISAC_DISALLOWED_BITSTREAM_LENGTH_def)
  qed
qed

theorem isacfix_roundtrip_witness:
  "\<exists>r e1. WebRtcIsacfix_EncHistMulti demo_enc [1, 0, 1] [demo_cdf, demo_cdf, demo_cdf] 3 = Some (r, e1) \<and>
     r = 0 \<and> WebRtcIsacfix_EncTerminate e1 \<noteq> None"
proof -
  have "list_all2 bisect_valid (zip [demo_cdf, demo_cdf, demo_cdf] [4, 4, 4]) [1, 0, 1]"
    "list_all2 one_step_valid (zip [demo_cdf, demo_cdf, demo_cdf] [1, 1, 1]) [1, 0, 1]"
    by (simp_all add: demo_valid demo_valid [simplified])
  from isacfix_roundtrip [OF demo_fresh(1) _ _ _ this]
  have "\<exists>r e1. WebRtcIsacfix_EncHistMulti demo_enc [1, 0, 1] [demo_cdf, demo_cdf, demo_cdf] (length [1::nat, 0, 1]) = Some (r, e1) \<and>
     r = 0 \<and> WebRtcIsacfix_EncTerminate e1 \<noteq> None"
    by auto
  then show ?thesis by (simp add: eval_nat_numeral)
qed

end
