(* ===== verification/Isac_Fix_Logist.thy ===== *)
theory Isac_Fix_Logist
  imports Isac_Fix_Coder Spl_Basic
begin

section \<open>iSAC, fixed-point codec: the logistic arithmetic coder\<close>

text \<open>
  \<open>fix/source/arith_routines_logist.c\<close> and the initialisation of a decoder's bit stream in
  \<open>isacfix.c\<close>. The encoder is the logistic encoder of \<open>Arith_Logist\<close> on words: 16-bit tables and
  products, the same clipping. The decoder differs: it works in groups of four coefficients, takes
  the squared envelope and computes its roots by Newton steps that start from the previous root, and
  reads zeros behind the end of the packet instead of failing. The lemmas show that the 16-bit
  distribution function is the 32-bit one, that the encoders agree, and that the decoder recovers
  the coefficients when the encoder has used the roots the decoder computes.
\<close>

unbundle bit_operations_syntax

subsection \<open>The distribution function\<close>

definition kHistEdges :: "int list" where
  "kHistEdges = [
    -327680, -314573, -301466, -288359, -275252, -262144, -249037, -235930, -222823, -209716,
    -196608, -183501, -170394, -157287, -144180, -131072, -117965, -104858, -91751, -78644,
    -65536, -52429, -39322, -26215, -13108, 0, 13107, 26214, 39321, 52428,
    65536, 78643, 91750, 104857, 117964, 131072, 144179, 157286, 170393, 183500,
    196608, 209715, 222822, 235929, 249036, 262144, 275251, 288358, 301465, 314572,
    327680]"

definition kCdfSlope :: "int list" where
  "kCdfSlope = [
    5, 5, 5, 5, 5, 5, 5, 5, 5, 5,
    5, 5, 13, 23, 47, 87, 154, 315, 700, 1088,
    2471, 6064, 14221, 21463, 36634, 36924, 19750, 13270, 5806, 2312,
    1095, 660, 316, 145, 86, 41, 32, 5, 5, 5,
    5, 5, 5, 5, 5, 5, 5, 5, 5, 2,
    0]"

definition kCdfLogistic :: "int list" where
  "kCdfLogistic = [
    0, 2, 4, 6, 8, 10, 12, 14, 16, 18,
    20, 22, 24, 29, 38, 57, 92, 153, 279, 559,
    994, 1983, 4408, 10097, 18682, 33336, 48105, 56005, 61313, 63636,
    64560, 64998, 65262, 65389, 65447, 65481, 65497, 65510, 65512, 65514,
    65516, 65518, 65520, 65522, 65524, 65526, 65528, 65530, 65532, 65534,
    65535]"

definition spl_sat :: "int \<Rightarrow> int \<Rightarrow> int \<Rightarrow> int" where
  "spl_sat a b c = (if b > a then a else if b < c then c else b)"

definition mul_16_u16 :: "int \<Rightarrow> int \<Rightarrow> int" where
  "mul_16_u16 a b = mul32 (s16 a) (u16 b)"

definition WebRtcIsacfix_Piecewise :: "int \<Rightarrow> int" where
  "WebRtcIsacfix_Piecewise xinQ15 =
     (let qtmp1 = spl_sat (kHistEdges ! 50) xinQ15 (kHistEdges ! 0);
          ind = mul32 5 (sub32 qtmp1 (kHistEdges ! 0));
          ind = shr ind 16;
          qtmp1 = sub32 qtmp1 (kHistEdges ! nat ind);
          qtmp2 = u16 (shr (u32 (u32 qtmp1 * kCdfSlope ! nat ind)) 15)
      in u16 (kCdfLogistic ! nat ind + qtmp2))"

subsection \<open>Encoding\<close>

text \<open>The clipping loop; \<open>None\<close> is not returning.\<close>

partial_function (option) fix_clip_loop :: "int \<Rightarrow> int \<Rightarrow> int \<Rightarrow> int \<Rightarrow> (int \<times> int \<times> int) option" where
  "fix_clip_loop env dataQ7 cdfLo cdfHi =
     (if u32 (cdfLo + 1) \<ge> cdfHi then
        (if dataQ7 > 0
         then fix_clip_loop env (s16 (dataQ7 - 128))
                (WebRtcIsacfix_Piecewise (mul_16_u16 (s16 (dataQ7 - 128) - 64) env)) cdfLo
         else fix_clip_loop env (s16 (dataQ7 + 128)) cdfHi
                (WebRtcIsacfix_Piecewise (mul_16_u16 (s16 (dataQ7 + 128) + 64) env)))
      else Some (dataQ7, cdfLo, cdfHi))"

declare fix_clip_loop.simps [code]

definition fix_clip_data :: "int \<Rightarrow> int \<Rightarrow> (int \<times> int \<times> int) option" where
  "fix_clip_data env dataQ7 =
     fix_clip_loop env dataQ7 (WebRtcIsacfix_Piecewise (mul_16_u16 (dataQ7 - 64) env))
       (WebRtcIsacfix_Piecewise (mul_16_u16 (dataQ7 + 64) env))"

text \<open>The loop over the coefficients: the data as the encoder leaves them, and the result of the
  coder. The scaling, the carry and the renormalisation are those of the histogram coder.\<close>

fun fix_enc_logist_loop ::
    "nat \<Rightarrow> int list \<Rightarrow> int list \<Rightarrow> fix_enc_state \<Rightarrow> (int list \<times> ((int list \<times> nat \<times> int) + fix_enc_state)) option" where
  "fix_enc_logist_loop k [] envQ8 st = Some ([], Inr st)"
| "fix_enc_logist_loop k (d # dataQ7) envQ8 st =
     (if envQ8 = [] then None
      else case fix_clip_data (hd envQ8) d of
        None \<Rightarrow> None
      | Some (d, cdfLo, cdfHi) \<Rightarrow>
          (case fix_enc_symbol cdfLo cdfHi st of
             None \<Rightarrow> None
           | Some (Inl e) \<Rightarrow> Some (d # dataQ7, Inl e)
           | Some (Inr st) \<Rightarrow>
               (case fix_enc_logist_loop (Suc k) dataQ7 (drop ((k AND 1) AND drop_bit 1 k) envQ8) st of
                  None \<Rightarrow> None
                | Some (ds, r) \<Rightarrow> Some (d # ds, r))))"

text \<open>Returns the code, the data vector and the stream structure.\<close>

definition WebRtcIsacfix_EncLogisticMulti2 ::
    "Bitstr_enc \<Rightarrow> int list \<Rightarrow> int list \<Rightarrow> nat \<Rightarrow> (int \<times> int list \<times> Bitstr_enc) option" where
  "WebRtcIsacfix_EncLogisticMulti2 streamData dataQ7 envQ8 lenData =
     (if length dataQ7 < lenData then None
      else case fix_enc_logist_loop 0 (take lenData dataQ7) envQ8 (enc_fields streamData) of
        None \<Rightarrow> None
      | Some (ds, r) \<Rightarrow>
          map_option (\<lambda>(code, e). (code, ds @ drop lenData dataQ7, e)) (fix_enc_finish streamData (Some r)))"

subsection \<open>Decoding\<close>

text \<open>\<open>isacfix.c\<close>: a fresh structure for a packet; the bytes of the packet are copied afterwards.\<close>

definition InitializeDecoderBitstream :: "nat \<Rightarrow> Bitstr_dec \<Rightarrow> Bitstr_dec" where
  "InitializeDecoderBitstream stream_size_bytes bitstream =
     bitstream\<lparr>d_W_upper := 0xFFFFFFFF, d_streamval := 0, d_stream_index := 0, d_full := 1,
       d_stream_size := (stream_size_bytes + 1) div 2,
       d_stream := replicate (length (d_stream bitstream)) 0\<rparr>"

text \<open>The Newton iteration: \<open>r\<close> is \<open>newRes\<close> on entry of the body; the result is \<open>res\<close> and \<open>newRes\<close>
  at the end, and \<open>None\<close> is a division by zero.\<close>

fun newton_loop :: "nat \<Rightarrow> int \<Rightarrow> int \<Rightarrow> (int \<times> int) option" where
  "newton_loop i inSqrt r =
     (if r = 0 then None
      else let newRes = shr (add32 (cdiv inSqrt r) r) 1
      in if newRes \<noteq> r \<and> i > 0 then newton_loop (i - 1) inSqrt newRes else Some (r, newRes))"

declare newton_loop.simps [simp del]

definition env_sqrt :: "int \<Rightarrow> int \<Rightarrow> (int \<times> int) option" where
  "env_sqrt res env =
     (let inSqrt = (if env < 0 then sub32 0 env else env)
      in if res = 0 then None else newton_loop 10 inSqrt (shr (add32 (cdiv inSqrt res) res) 1))"

definition first_res :: "int \<Rightarrow> int" where
  "first_res env = shl32 1 (nat (shr (WebRtcSpl_GetSizeInBits (u32 env)) 1))"

text \<open>The search for a coefficient, from the first candidate up or down.\<close>

partial_function (option) fix_logist_up :: "int \<Rightarrow> int \<Rightarrow> int \<Rightarrow> int \<Rightarrow> int \<Rightarrow> int \<Rightarrow> found option" where
  "fix_logist_up env W0 val candQ7 W_lower W_tmp =
     (if val > W_tmp then
        (if W_tmp = scale_cdf W0 (WebRtcIsacfix_Piecewise (mul_16_u16 (s16 (candQ7 + 128)) env)) then Some RangeError
         else fix_logist_up env W0 val (s16 (candQ7 + 128)) W_tmp
                (scale_cdf W0 (WebRtcIsacfix_Piecewise (mul_16_u16 (s16 (candQ7 + 128)) env))))
      else Some (Found (s16 (candQ7 - 64)) W_lower W_tmp))"

partial_function (option) fix_logist_down :: "int \<Rightarrow> int \<Rightarrow> int \<Rightarrow> int \<Rightarrow> int \<Rightarrow> int \<Rightarrow> found option" where
  "fix_logist_down env W0 val candQ7 W_up W_tmp =
     (if \<not> val > W_tmp then
        (if W_tmp = scale_cdf W0 (WebRtcIsacfix_Piecewise (mul_16_u16 (s16 (candQ7 - 128)) env)) then Some RangeError
         else fix_logist_down env W0 val (s16 (candQ7 - 128)) W_tmp
                (scale_cdf W0 (WebRtcIsacfix_Piecewise (mul_16_u16 (s16 (candQ7 - 128)) env))))
      else Some (Found (s16 (candQ7 + 64)) W_tmp W_up))"

declare fix_logist_up.simps [code] fix_logist_down.simps [code]

definition fix_logist_search :: "int \<Rightarrow> int \<Rightarrow> int \<Rightarrow> int \<Rightarrow> found option" where
  "fix_logist_search dither tmpARSpecQ8 W0 val =
     (let candQ7 = s16 (- dither + 64);
          W_tmp = scale_cdf W0 (WebRtcIsacfix_Piecewise (mul_16_u16 candQ7 tmpARSpecQ8))
      in if val > W_tmp
         then let W_lower = W_tmp;
                  candQ7 = s16 (candQ7 + 128);
                  W_tmp = scale_cdf W0 (WebRtcIsacfix_Piecewise (mul_16_u16 candQ7 tmpARSpecQ8))
              in fix_logist_up tmpARSpecQ8 W0 val candQ7 W_lower W_tmp
         else let W_up = W_tmp;
                  candQ7 = s16 (candQ7 - 128);
                  W_tmp = scale_cdf W0 (WebRtcIsacfix_Piecewise (mul_16_u16 candQ7 tmpARSpecQ8))
              in fix_logist_down tmpARSpecQ8 W0 val candQ7 W_up W_tmp)"

text \<open>The pointer, \<open>offset\<close>, \<open>full\<close>, the width and the value. With a zero width the loop does not end
  behind the stream, hence the partial function.\<close>

type_synonym fix_logist_state = "nat \<times> nat \<times> nat \<times> int \<times> int"

partial_function (option) fix_dec_logist_renorm ::
    "int list \<Rightarrow> nat \<Rightarrow> nat \<Rightarrow> nat \<Rightarrow> nat \<Rightarrow> int \<Rightarrow> int \<Rightarrow> fix_logist_state option" where
  "fix_dec_logist_renorm s stream_size ptr offset full W_up val =
     (if W_up AND 0xFF000000 = 0 then
        (if ptr < stream_size then
           (if length s \<le> ptr then None
            else if full = 0
            then fix_dec_logist_renorm s stream_size (ptr + 1) offset 1 (u32 (W_up * 2 ^ 8))
                   (u32 (val * 2 ^ 8) OR (s ! ptr AND 0x00FF))
            else fix_dec_logist_renorm s stream_size ptr offset 0 (u32 (W_up * 2 ^ 8))
                   (u32 (val * 2 ^ 8) OR shr (s ! ptr) 8))
         else if full = 0
         then fix_dec_logist_renorm s stream_size ptr (offset + 1) 1 (u32 (W_up * 2 ^ 8)) (u32 (val * 2 ^ 8))
         else fix_dec_logist_renorm s stream_size ptr offset 0 (u32 (W_up * 2 ^ 8)) (u32 (val * 2 ^ 8)))
      else Some (ptr, offset, full, W_up, val))"

declare fix_dec_logist_renorm.simps [code]

text \<open>\<open>n\<close> coefficients with one envelope value: what is written over the dither, and the flag at the
  early return (\<open>Inl\<close>) or the state (\<open>Inr\<close>).\<close>

fun fix_dec_logist_run ::
    "nat \<Rightarrow> int \<Rightarrow> int list \<Rightarrow> int list \<Rightarrow> nat \<Rightarrow> fix_logist_state \<Rightarrow> (int list \<times> (nat + fix_logist_state)) option" where
  "fix_dec_logist_run 0 tmp dataQ7 s size_w st = Some ([], Inr st)"
| "fix_dec_logist_run (Suc n) tmp dataQ7 s size_w (ptr, offset, full, W_up, val) =
     (if dataQ7 = [] then None
      else case fix_logist_search (hd dataQ7) tmp W_up val of
        Some (Found d W_lower W_up) \<Rightarrow>
          (let W_lower = u32 (W_lower + 1); W_up = u32 (W_up - W_lower); val = u32 (val - W_lower)
           in case fix_dec_logist_renorm s size_w ptr offset full W_up val of
                None \<Rightarrow> None
              | Some st \<Rightarrow>
                  (case fix_dec_logist_run n tmp (tl dataQ7) s size_w st of
                     None \<Rightarrow> None | Some (ds, r) \<Rightarrow> Some (d # ds, r)))
      | Some RangeError \<Rightarrow> Some ([], Inl full)
      | _ \<Rightarrow> None)"

fun fix_dec_logist_groups ::
    "nat \<Rightarrow> int \<Rightarrow> int list \<Rightarrow> int list \<Rightarrow> int list \<Rightarrow> nat \<Rightarrow> fix_logist_state \<Rightarrow>
     (int list \<times> (nat + fix_logist_state)) option" where
  "fix_dec_logist_groups 0 res envQ8 dataQ7 s size_w st = Some ([], Inr st)"
| "fix_dec_logist_groups (Suc g) res envQ8 dataQ7 s size_w st =
     (if envQ8 = [] then None
      else case env_sqrt res (hd envQ8) of
        None \<Rightarrow> None
      | Some (res, newRes) \<Rightarrow>
          (case fix_dec_logist_run 4 (u16 newRes) dataQ7 s size_w st of
             None \<Rightarrow> None
           | Some (ds, Inl full) \<Rightarrow> Some (ds, Inl full)
           | Some (ds, Inr st) \<Rightarrow>
               (case fix_dec_logist_groups g res (tl envQ8) (drop 4 dataQ7) s size_w st of
                  None \<Rightarrow> None | Some (ds', r) \<Rightarrow> Some (ds @ ds', r))))"

text \<open>Returns the code, the data vector and the structure; \<open>(lenData + 3) div 4\<close> is the number of
  rounds of the loop over \<open>k\<close>.\<close>

definition WebRtcIsacfix_DecLogisticMulti2 ::
    "int list \<Rightarrow> Bitstr_dec \<Rightarrow> int list \<Rightarrow> nat \<Rightarrow> (int \<times> int list \<times> Bitstr_dec) option" where
  "WebRtcIsacfix_DecLogisticMulti2 dataQ7 streamData envQ8 lenData =
     (case fix_read_first streamData of None \<Rightarrow> None | Some (val, ptr) \<Rightarrow>
        if envQ8 = [] then None
        else case fix_dec_logist_groups ((lenData + 3) div 4) (first_res (hd envQ8)) envQ8 dataQ7
            (d_stream streamData) (d_stream_size streamData)
            (ptr, 0, d_full streamData, d_W_upper streamData, val) of
          None \<Rightarrow> None
        | Some (ds, Inl full) \<Rightarrow> Some (-1, ds @ drop (length ds) dataQ7, streamData\<lparr>d_full := full\<rparr>)
        | Some (ds, Inr (ptr, offset, full, W_up, val)) \<Rightarrow>
            (let index = (ptr + offset) mod 65536
             in Some (fix_stream_bytes index full W_up, ds @ drop (length ds) dataQ7,
                  streamData\<lparr>d_stream_index := index, d_full := full, d_W_upper := W_up, d_streamval := val\<rparr>)))"

subsection \<open>The 16-bit distribution function\<close>

lemma fix_tables: "kHistEdges = kHistEdgesQ15" "kCdfSlope = kCdfSlopeQ0" "kCdfLogistic = kCdfQ16"
  by (simp_all add: kHistEdges_def kHistEdgesQ15_def kCdfSlope_def kCdfSlopeQ0_def kCdfLogistic_def kCdfQ16_def)

lemma Piecewise_eq: "WebRtcIsacfix_Piecewise x = piecewise x"
proof -
  define c where "c = clamp_edge x"
  have c: "-327680 \<le> c" "c \<le> 327680" using clamp_edge_range by (simp_all add: c_def)
  define i where "i = bin_index c"
  note ix = bin_index_iff [OF c, folded i_def]
  have t: "0 \<le> kCdfSlopeQ0 ! i" "kCdfSlopeQ0 ! i \<le> 36924" "kHistEdgesQ15 ! i \<le> bin_first i"
    "bin_first i - kHistEdgesQ15 ! i \<le> 1" "0 \<le> kCdfQ16 ! i" "kCdfQ16 ! i \<le> 65535"
    using bins_ok(1) ix(1) by (auto simp: list_all_iff)
  have x1: "0 \<le> c - kHistEdgesQ15 ! i" "c - kHistEdgesQ15 ! i \<le> 13110"
    using t ix(2,3) by (auto simp: bin_first_def)
  define m where "m = kCdfSlopeQ0 ! i * (c - kHistEdgesQ15 ! i)"
  have "m \<le> 36924 * 13110" unfolding m_def using t x1 by (intro mult_mono) auto
  moreover have m0: "0 \<le> m" unfolding m_def using t x1 by (intro mult_nonneg_nonneg) auto
  ultimately have m: "u32 m = m" by (intro u32_idI) auto
  have "bin c i = kCdfQ16 ! i + m div 32768" by (simp add: bin_def m_def)
  with bin_range [OF c, folded i_def] t(5) m0 have r: "0 \<le> m div 32768" "m div 32768 \<le> 65535"
    "u16 (kCdfQ16 ! i + m div 32768) = bin c i"
    by (auto simp: u16_def pos_imp_zdiv_nonneg_iff)
  have ind: "nat (shr (mul32 5 (c + 327680)) 16) = i"
    using c by (simp add: mul32_def s32_idI shr_def i_def bin_index_def mult.commute)
  have sub: "sub32 c (kHistEdgesQ15 ! i) = c - kHistEdgesQ15 ! i" "sub32 c (-327680) = c + 327680"
    unfolding sub32_def using x1 c by (auto intro!: s32_idI)
  have u: "u32 (c - kHistEdgesQ15 ! i) = c - kHistEdgesQ15 ! i" using x1 by (intro u32_idI) auto
  have prod: "u16 (shr (u32 ((c - kHistEdgesQ15 ! i) * kCdfSlopeQ0 ! i)) 15) = m div 32768"
    using m r(1,2) by (simp add: m_def mult.commute shr_def u16_def)
  have "spl_sat (kHistEdges ! 50) x (kHistEdges ! 0) = c"
    by (auto simp: spl_sat_def c_def clamp_edge_def fix_tables kHistEdges_ends)
  then show ?thesis
    by (simp only: WebRtcIsacfix_Piecewise_def Let_def fix_tables kHistEdges_ends sub ind u prod r(3))
      (simp add: piecewise_bin c_def i_def)
qed

subsection \<open>The encoder is the byte encoder on words\<close>

lemma mul_16_u16_env:
  assumes "env_ok env" "-32767 \<le> c" "c \<le> 32767"
  shows "mul_16_u16 c env = c * env" "mul_16_u16 c env = mul32 c env"
  using assms mul32_env [OF assms] by (simp_all add: mul_16_u16_def s16_idI u16_def env_ok_def)

lemma fix_clip_loop_eq:
  assumes "clip_loop env d lo hi = Some r"
  shows "env_ok env \<longrightarrow> coeff_ok d \<longrightarrow> fix_clip_loop env d lo hi = Some r"
  using assms
proof (induction rule: clip_loop.raw_induct [rotated, consumes 1, case_names step])
  case (step f env d lo hi r)
  show ?case
  proof (intro impI)
    assume ok: "env_ok env" "coeff_ok d"
    let ?d = "if d > 0 then s16 (d - 128) else s16 (d + 128)"
    have "coeff_ok ?d" using ok(2) by (auto simp: coeff_ok_def s16_idI)
    moreover from this have "mul_16_u16 (?d - 64) env = mul32 (?d - 64) env" "mul_16_u16 (?d + 64) env = mul32 (?d + 64) env"
      by (intro mul_16_u16_env [OF ok(1)]; simp add: coeff_ok_def)+
    ultimately show "fix_clip_loop env d lo hi = Some r"
      using step ok by (subst fix_clip_loop.simps) (auto simp: Piecewise_eq split: if_splits)
  qed
qed

lemma fix_clip_data_eq:
  assumes "env_ok env" "coeff_ok d" "clip_data env d = Some r"
  shows "fix_clip_data env d = Some r"
proof -
  have "mul_16_u16 (d - 64) env = mul32 (d - 64) env" "mul_16_u16 (d + 64) env = mul32 (d + 64) env"
    using assms(2) by (intro mul_16_u16_env [OF assms(1)]; simp add: coeff_ok_def)+
  then show ?thesis
    using fix_clip_loop_eq assms by (simp add: fix_clip_data_def clip_data_def Piecewise_eq)
qed

definition logist_outcome ::
    "(int list \<times> int) + (int list \<times> nat \<times> int \<times> int) \<Rightarrow> (int list \<times> nat \<times> int) + fix_enc_state \<Rightarrow> bool" where
  "logist_outcome r r' = (case r of Inl _ \<Rightarrow> isl r' | Inr st \<Rightarrow> (\<exists>fs. r' = Inr fs \<and> fix_rel st fs))"

lemma fix_put_rel:
  assumes "fix_rel (s, p, W, v) (ws, ptr, full, W, v)" "p < length s"
  obtains ws' ptr' full' where "fix_put full ptr v ws = Some (ws', ptr', full')"
    "ptr' < STREAM_MAXW16_60MS \<longleftrightarrow> p + 1 < 2 * STREAM_MAXW16_60MS"
    "ptr' < STREAM_MAXW16_60MS \<longrightarrow>
     fix_rel (s[p := u8 (shr v 24)], p + 1, u32 (W * 2 ^ 8), u32 (v * 2 ^ 8)) (ws', ptr', full', u32 (W * 2 ^ 8), u32 (v * 2 ^ 8))"
proof -
  note rel = assms(1) [unfolded fix_rel_def split_conv]
  obtain ws' ptr' full' where put: "fix_put full ptr v ws = Some (ws', ptr', full')"
    "fix_pos ptr' full' = Suc p" "length ws' = length ws" "words_ok ws'" "half_ok ws' ptr' full'"
    "take (Suc p) (word_bytes ws') = take p s @ [u8 (shr v 24)]"
    using fix_put_bytes [of ws ptr full v] rel by auto
  have "ptr' < STREAM_MAXW16_60MS \<longleftrightarrow> p + 1 < 2 * STREAM_MAXW16_60MS"
    using put(2,5) by (auto simp: fix_pos_def half_ok_def)
  with put rel assms(2) that [OF put(1)] show thesis
    by (auto simp: fix_rel_def take_Suc_update u32_def)
qed

lemma fix_enc_logist_renorm:
  "enc_logist_renorm s p W v = Some r \<Longrightarrow> fix_rel (s, p, W, v) (ws, ptr, full, W, v) \<Longrightarrow>
   \<exists>r'. fix_enc_renorm ws ptr full W v = Some r' \<and> logist_outcome r r'"
proof (induction s p W v arbitrary: ws ptr full rule: enc_logist_renorm.induct)
  case (1 s p W v)
  show ?case
  proof (cases "W AND 0xFF000000 = 0")
    case False
    then have "r = Inr (s, p, W, v)" using "1.prems"(1) by (subst (asm) enc_logist_renorm.simps) simp
    then show ?thesis
      using False "1.prems"(2) by (subst fix_enc_renorm.simps) (simp add: logist_outcome_def)
  next
    case W: True
    have p: "p < length s"
      using "1.prems"(1) W by (subst (asm) enc_logist_renorm.simps) (simp split: if_splits)
    obtain ws' ptr' full' where put: "fix_put full ptr v ws = Some (ws', ptr', full')"
      "ptr' < STREAM_MAXW16_60MS \<longleftrightarrow> p + 1 < 2 * STREAM_MAXW16_60MS"
      "ptr' < STREAM_MAXW16_60MS \<longrightarrow>
     fix_rel (s[p := u8 (shr v 24)], p + 1, u32 (W * 2 ^ 8), u32 (v * 2 ^ 8)) (ws', ptr', full', u32 (W * 2 ^ 8), u32 (v * 2 ^ 8))"
      using fix_put_rel [OF "1.prems"(2) p] by blast
    show ?thesis
    proof (cases "p + 1 > STREAM_SIZE_MAX_60 - 1")
      case True
      then have "r = Inl (s[p := u8 (shr v 24)], v)"
        using "1.prems"(1) W p by (subst (asm) enc_logist_renorm.simps) simp
      moreover have "fix_enc_renorm ws ptr full W v = Some (Inl (ws', full', v))"
        using W put(1,2) True
        by (subst fix_enc_renorm.simps) (simp add: STREAM_MAXW16_60MS_def STREAM_SIZE_MAX_60_def)
      ultimately show ?thesis by (simp add: logist_outcome_def)
    next
      case False
      then have lt: "ptr' < STREAM_MAXW16_60MS"
        using put(2) by (simp add: STREAM_MAXW16_60MS_def STREAM_SIZE_MAX_60_def)
      have "enc_logist_renorm (s[p := u8 (shr v 24)]) (p + 1) (u32 (W * 2 ^ 8)) (u32 (v * 2 ^ 8)) = Some r"
        using "1.prems"(1) W p False by (subst (asm) enc_logist_renorm.simps) simp
      from "1.IH" [OF W p False this put(3) [rule_format, OF lt]] show ?thesis
        using W put(1) lt by (subst fix_enc_renorm.simps) (simp add: STREAM_MAXW16_60MS_def)
    qed
  qed
qed

lemma fix_enc_logist_symbol:
  assumes "enc_logist_symbol lo hi st = Some r" "fix_rel st fs"
  shows "\<exists>r'. fix_enc_symbol lo hi fs = Some r' \<and> logist_outcome r r'"
proof -
  obtain s p W v where st: "st = (s, p, W, v)" by (metis prod_cases4)
  obtain ws ptr full where fs: "fs = (ws, ptr, full, W, v)"
    using assms(2) st by (cases fs) (auto simp: fix_rel_def)
  define l where "l = u32 (scale_cdf W lo + 1)"
  define W2 where "W2 = u32 (scale_cdf W hi - l)"
  define v2 where "v2 = u32 (v + l)"
  obtain s1 where s1: "(if v2 < l then propagate_carry p s else Some s) = Some s1"
    "enc_logist_renorm s1 p W2 v2 = Some r"
    using assms(1) by (auto simp: enc_logist_symbol_def st Let_def l_def W2_def v2_def split: option.splits if_splits)
  obtain ws1 where "(if v2 < l then fix_carry full ptr ws else Some ws) = Some ws1"
    "fix_rel (s1, p, W2, v2) (ws1, ptr, full, W2, v2)"
    using fix_add_rel [OF assms(2) [unfolded st fs] _ _ s1(1), of v2 W2] by (auto simp: v2_def u32_def)
  with fix_enc_logist_renorm [OF s1(2)] show ?thesis
    by (simp add: fix_enc_symbol_def fs Let_def l_def W2_def v2_def)
qed

lemma fix_enc_logist_loop_refines:
  assumes "enc_logist_loop k ds env False st = Some (ds', r)" "fix_rel st fs"
    and "list_all env_ok env" "list_all coeff_ok ds"
  shows "\<exists>r'. fix_enc_logist_loop k ds env fs = Some (ds', r') \<and> logist_outcome r r'"
  using assms
proof (induction ds arbitrary: k env st fs ds')
  case Nil
  then show ?case by (auto simp: logist_outcome_def)
next
  case (Cons d ds)
  obtain d1 lo hi where env: "env \<noteq> []" "env_ok (hd env)" and c: "clip_data (hd env) d = Some (d1, lo, hi)"
    using Cons.prems(1,3) by (cases env) (auto split: option.splits)
  have fc: "fix_clip_data (hd env) d = Some (d1, lo, hi)"
    using fix_clip_data_eq [OF env(2) _ c] Cons.prems(4) by simp
  obtain q where q: "enc_logist_symbol lo hi st = Some q"
    using Cons.prems(1) env c by (auto split: option.splits)
  obtain q' where q': "fix_enc_symbol lo hi fs = Some q'" "logist_outcome q q'"
    using fix_enc_logist_symbol [OF q Cons.prems(2)] by blast
  show ?case
  proof (cases q)
    case (Inl e)
    then show ?thesis
      using Cons.prems(1) env c q q' fc by (cases q') (auto simp: logist_outcome_def)
  next
    case (Inr st1)
    then obtain fs1 where fs1: "q' = Inr fs1" "fix_rel st1 fs1" using q'(2) by (auto simp: logist_outcome_def)
    obtain ds1 where ds1: "ds' = d1 # ds1"
      "enc_logist_loop (Suc k) ds (drop (env_step False k) env) False st1 = Some (ds1, r)"
      using Cons.prems(1) env c q Inr by (auto split: option.splits)
    have "list_all env_ok (drop (env_step False k) env)"
      using Cons.prems(3) by (auto simp: list_all_iff dest: in_set_dropD)
    from Cons.IH [OF ds1(2) fs1(2) this] Cons.prems(4) show ?thesis
      using env fc q'(1) fs1(1) ds1(1) by (auto simp: env_step_def)
  qed
qed

lemma fix_EncLogistic_refines:
  assumes "WebRtcIsac_EncLogisticMulti2 b data env N False = Some (code, ds, b1)"
    and "fix_rel (byte_fields b) (enc_fields e)" "list_all env_ok env" "list_all coeff_ok (take N data)"
  shows "\<exists>e1. WebRtcIsacfix_EncLogisticMulti2 e data env N = Some (code, ds, e1) \<and>
    (code = 0 \<longrightarrow> fix_rel (byte_fields b1) (enc_fields e1))"
proof -
  obtain ds0 r where r: "enc_logist_loop 0 (take N data) env False (byte_fields b) = Some (ds0, r)" "N \<le> length data"
    using assms(1) by (auto simp: WebRtcIsac_EncLogisticMulti2_def byte_fields_def split: option.splits if_splits)
  obtain r' where r': "fix_enc_logist_loop 0 (take N data) env (enc_fields e) = Some (ds0, r')" "logist_outcome r r'"
    using fix_enc_logist_loop_refines [OF r(1) assms(2-4)] by blast
  show ?thesis
  proof (cases r)
    case (Inl x)
    then obtain y where "r' = Inl y" using r'(2) by (cases r') (auto simp: logist_outcome_def)
    then show ?thesis
      using assms(1) r r'(1) Inl
      by (auto simp: WebRtcIsac_EncLogisticMulti2_def WebRtcIsacfix_EncLogisticMulti2_def byte_fields_def
          fix_enc_finish_def ISAC_DISALLOWED_BITSTREAM_LENGTH_def split: prod.splits)
  next
    case (Inr st)
    then obtain fs where "r' = Inr fs" "fix_rel st fs" using r'(2) by (auto simp: logist_outcome_def)
    then show ?thesis
      using assms(1) r r'(1) Inr
      by (auto simp: WebRtcIsac_EncLogisticMulti2_def WebRtcIsacfix_EncLogisticMulti2_def byte_fields_def
          fix_enc_finish_def enc_fields_def split: prod.splits)
  qed
qed

subsection \<open>The decoder's search and renormalisation\<close>

lemma mul_16_u16_any:
  assumes "env_ok env"
  shows "mul_16_u16 (s16 c) env = mul32 (s16 c) env"
  using assms by (simp add: mul_16_u16_def u16_def env_ok_def s16_idI s16_range)

lemma fix_logist_up_eq:
  assumes "logist_up env W0 val cand lo tmp = Some r"
  shows "env_ok env \<longrightarrow> fix_logist_up env W0 val cand lo tmp = Some r"
  using assms
proof (induction rule: logist_up.raw_induct [rotated, consumes 1, case_names step])
  case (step f env W0 val cand lo tmp r)
  then show ?case
    by (subst fix_logist_up.simps) (auto simp: Piecewise_eq mul_16_u16_any split: if_splits)
qed

lemma fix_logist_down_eq:
  assumes "logist_down env W0 val cand up tmp = Some r"
  shows "env_ok env \<longrightarrow> fix_logist_down env W0 val cand up tmp = Some r"
  using assms
proof (induction rule: logist_down.raw_induct [rotated, consumes 1, case_names step])
  case (step f env W0 val cand up tmp r)
  then show ?case
    by (subst fix_logist_down.simps) (auto simp: Piecewise_eq mul_16_u16_any split: if_splits)
qed

lemma fix_logist_search_eq:
  assumes "env_ok env" "logist_search dither env W0 val = Some r"
  shows "fix_logist_search dither env W0 val = Some r"
  using assms fix_logist_up_eq fix_logist_down_eq
  by (auto simp: fix_logist_search_def logist_search_def Let_def Piecewise_eq mul_16_u16_any)

text \<open>Behind the packet the buffer holds zeros, so the two ways of reading agree.\<close>

definition padded :: "int list \<Rightarrow> nat \<Rightarrow> bool" where
  "padded s size_w \<longleftrightarrow> (\<forall>i. size_w \<le> i \<and> i < length s \<longrightarrow> s ! i = 0)"

definition logist_ptr_ok :: "nat \<Rightarrow> nat \<Rightarrow> nat \<Rightarrow> nat \<Rightarrow> bool" where
  "logist_ptr_ok size_w ptr offset full \<longleftrightarrow> full \<le> 1 \<and> 2 \<le> ptr \<and> (0 < offset \<longrightarrow> size_w \<le> ptr)"

lemma fix_dec_logist_renorm_eq:
  "dec_renorm B p W v = Some (p', W', v') \<Longrightarrow> B = word_bytes s \<Longrightarrow> padded s size_w \<Longrightarrow>
   p = dec_pos (ptr + offset) full \<Longrightarrow> logist_ptr_ok size_w ptr offset full \<Longrightarrow>
   \<exists>ptr' offset' full'. fix_dec_logist_renorm s size_w ptr offset full W v = Some (ptr', offset', full', W', v') \<and>
     p' = dec_pos (ptr' + offset') full' \<and> logist_ptr_ok size_w ptr' offset' full'"
proof (induction B p W v arbitrary: ptr offset full rule: dec_renorm.induct)
  case (1 B p W v)
  let ?W = "u32 (W * 2 ^ 8)" and ?v = "u32 (v * 2 ^ 8)" and ?q = "ptr + offset"
  show ?case
  proof (cases "W AND 0xFF000000 = 0")
    case False
    then have "(p', W', v') = (p, W, v)" using "1.prems"(1) by (simp add: dec_renorm.simps [of B p W v])
    then show ?thesis
      using False "1.prems"(4,5) by (subst fix_dec_logist_renorm.simps) auto
  next
    case W: True
    have room: "p + 1 < length B" and rec: "dec_renorm B (p + 1) ?W (?v OR B ! (p + 1)) = Some (p', W', v')"
      using "1.prems"(1) W by (simp_all add: dec_renorm.simps [of B p W v] split: if_splits)
    have q: "2 \<le> ptr" "full \<le> 1" "?q < length s"
      using "1.prems"(2,4,5) room by (auto simp: logist_ptr_ok_def dec_pos_def)
    define ptr1 where "ptr1 = (if full = 0 \<and> ptr < size_w then ptr + 1 else ptr)"
    define off1 where "off1 = (if full = 0 \<and> \<not> ptr < size_w then offset + 1 else offset)"
    define full1 where "full1 = (1::nat) - full"
    have ok1: "logist_ptr_ok size_w ptr1 off1 full1"
      using "1.prems"(5) by (auto simp: logist_ptr_ok_def ptr1_def off1_def full1_def)
    have p1: "p + 1 = dec_pos (ptr1 + off1) full1"
      using "1.prems"(4) q by (auto simp: dec_pos_def ptr1_def off1_def full1_def)
    have byte: "B ! (p + 1) = (if full = 0 then s ! ?q AND 0x00FF else shr (s ! ?q) 8)"
    proof -
      have "p + 1 = (if full = 0 then Suc (2 * ?q) else 2 * ?q)" using "1.prems"(4) q by (auto simp: dec_pos_def)
      then show ?thesis using "1.prems"(2) nth_word_bytes [OF q(3)] by (simp add: and_ff shr_def)
    qed
    have zero: "\<not> ptr < size_w \<Longrightarrow> s ! ?q = 0" using "1.prems"(3) q by (auto simp: padded_def)
    have same: "ptr < size_w \<Longrightarrow> ?q = ptr" using "1.prems"(5) by (auto simp: logist_ptr_ok_def)
    have "fix_dec_logist_renorm s size_w ptr offset full W v =
        fix_dec_logist_renorm s size_w ptr1 off1 full1 ?W (?v OR B ! (p + 1))"
    proof (cases "ptr < size_w")
      case True
      then show ?thesis
        using W q same by (subst fix_dec_logist_renorm.simps)
          (auto simp: byte [simplified] ptr1_def off1_def full1_def le_Suc_eq)
    next
      case False
      then show ?thesis
        using W q zero by (subst fix_dec_logist_renorm.simps)
          (auto simp: byte [simplified] ptr1_def off1_def full1_def shr_def le_Suc_eq)
    qed
    with "1.IH" [OF W room rec "1.prems"(2,3) p1 ok1] show ?thesis by simp
  qed
qed

text \<open>One coefficient, a run of coefficients with one envelope value, and the groups of four.\<close>

definition logist_state_rel :: "int list \<Rightarrow> nat \<Rightarrow> interval \<Rightarrow> fix_logist_state \<Rightarrow> bool" where
  "logist_state_rel s size_w st = (\<lambda>(ptr, offset, full, W, X).
     decoder_state (word_bytes s) st = (dec_pos (ptr + offset) full, W, X) \<and> logist_ptr_ok size_w ptr offset full)"

lemma fix_logist_step:
  assumes s: "words_ok s" "padded s size_w" and st: "width_ok st" "logist_state_rel s size_w st (ptr, offset, full, W, X)"
    and v: "logist_valid x env d" and dec: "decodes (word_bytes s) (abs_step (logist_pair env d) st)"
  shows "\<exists>lo hi fs. fix_logist_search x env W X = Some (Found d lo hi) \<and>
    fix_dec_logist_renorm s size_w ptr offset full (u32 (hi - u32 (lo + 1))) (u32 (X - u32 (lo + 1))) = Some fs \<and>
    logist_state_rel s size_w (abs_step (logist_pair env d) st) fs"
proof -
  let ?B = "word_bytes s" and ?st' = "abs_step (logist_pair env d) st"
  obtain i low W0 where st3: "st = (i, low, W0)" by (cases st)
  have d: "i + 3 = dec_pos (ptr + offset) full" "W0 = W" "X = bval (take (i + 4) ?B) - low"
    and ok: "logist_ptr_ok size_w ptr offset full"
    using st(2) by (auto simp: logist_state_rel_def decoder_state_def st3)
  obtain lo hi where f: "logist_search x env W X = Some (Found d lo hi)"
    "dec_renorm ?B (i + 3) (u32 (hi - u32 (lo + 1))) (u32 (X - u32 (lo + 1))) = Some (decoder_state ?B ?st')"
    using logist_coder.decode_one [OF bytes_ok_word_bytes [OF s(1)], of i low W "(x, env)" d] st(1) v dec
    unfolding logist_find_Found by (auto simp: st3 d decoder_state_def split_def)
  obtain p' W' X' where dst: "decoder_state ?B ?st' = (p', W', X')" by (metis prod_cases3)
  have "env_ok env" using v by (simp add: logist_valid_def logist_aligned_def)
  from fix_logist_search_eq [OF this f(1)] fix_dec_logist_renorm_eq [OF f(2) [unfolded dst] refl s(2) d(1) ok] dst
  show ?thesis by (auto simp: logist_state_rel_def)
qed

lemma logist_valid_pair: "logist_valid x env d \<Longrightarrow> cdf_pair_ok (logist_pair env d)"
  using logist_coder.pair_ok [of "(x, env)" d] by simp

lemma abs_steps_width: "width_ok st \<Longrightarrow> \<forall>c\<in>set cs. cdf_pair_ok c \<Longrightarrow> width_ok (fold abs_step cs st)"
  by (induction cs arbitrary: st) (simp_all add: abs_step_width)

lemma logist_pairs_width:
  assumes "width_ok st" "list_all2 (\<lambda>x d. logist_valid x env d) xs ds"
  shows "width_ok (fold abs_step (map (logist_pair env) ds) st)" "\<forall>c\<in>set (map (logist_pair env) ds). cdf_pair_ok c"
proof -
  show "\<forall>c\<in>set (map (logist_pair env) ds). cdf_pair_ok c"
    using assms(2) by (induction xs ds rule: list_all2_induct) (auto intro: logist_valid_pair)
  then show "width_ok (fold abs_step (map (logist_pair env) ds) st)" by (rule abs_steps_width [OF assms(1)])
qed

lemma fix_dec_logist_run_correct:
  assumes s: "words_ok s" "padded s size_w"
    and "list_all2 (\<lambda>x d. logist_valid x env d) xs ds" "width_ok st" "logist_state_rel s size_w st fs"
    and "decodes (word_bytes s) (fold abs_step (map (logist_pair env) ds) st)"
  shows "\<exists>fs'. fix_dec_logist_run (length ds) env (xs @ rest) s size_w fs = Some (ds, Inr fs') \<and>
    logist_state_rel s size_w (fold abs_step (map (logist_pair env) ds) st) fs'"
  using assms(3-6)
proof (induction xs ds arbitrary: st fs rule: list_all2_induct)
  case Nil
  then show ?case by simp
next
  case (Cons x xs d ds)
  let ?st = "abs_step (logist_pair env d) st"
  obtain ptr offset full W X where fs: "fs = (ptr, offset, full, W, X)" by (metis prod_cases5)
  have w: "width_ok ?st" using Cons.prems(1) logist_valid_pair [OF Cons.hyps(1)] by (rule abs_step_width)
  have dec: "decodes (word_bytes s) (fold abs_step (map (logist_pair env) ds) ?st)" using Cons.prems(3) by simp
  have "decodes (word_bytes s) ?st"
    by (rule decodes_symbols [OF bytes_ok_word_bytes [OF s(1)] w logist_pairs_width(2) [OF w Cons.hyps(2)] dec])
  from fix_logist_step [OF s Cons.prems(1) Cons.prems(2) [unfolded fs] Cons.hyps(1) this]
  obtain lo hi fs1 where f: "fix_logist_search x env W X = Some (Found d lo hi)"
    "fix_dec_logist_renorm s size_w ptr offset full (u32 (hi - u32 (lo + 1))) (u32 (X - u32 (lo + 1))) = Some fs1"
    "logist_state_rel s size_w ?st fs1" by blast
  from Cons.IH [OF w f(3) dec] f(1,2) show ?case by (auto simp: fs Let_def)
qed

fun roots :: "int \<Rightarrow> int list \<Rightarrow> int list option" where
  "roots res [] = Some []"
| "roots res (x # xs) =
     (case env_sqrt res x of None \<Rightarrow> None | Some (res, newRes) \<Rightarrow> map_option ((#) (u16 newRes)) (roots res xs))"

lemma roots_length: "roots res xs = Some es \<Longrightarrow> length es = length xs"
  by (induction xs arbitrary: res es) (auto split: option.splits)

definition by_four :: "int list \<Rightarrow> int list" where
  "by_four es = concat (map (replicate 4) es)"

lemma by_four_simps [simp]: "by_four [] = []" "by_four (e # es) = replicate 4 e @ by_four es"
  by (simp_all add: by_four_def)

lemma length_by_four [simp]: "length (by_four es) = 4 * length es"
  by (induction es) auto

lemma fix_dec_logist_groups_correct:
  assumes s: "words_ok s" "padded s size_w" and "roots res envQ8 = Some es"
    and "length ds = 4 * length envQ8" "length xs = length ds"
    and "list_all2 (\<lambda>t d. logist_valid (fst t) (snd t) d) (zip xs (by_four es)) ds"
    and "width_ok st" "logist_state_rel s size_w st fs"
    and "decodes (word_bytes s) (fold abs_step (map2 logist_pair (by_four es) ds) st)"
  shows "\<exists>fs'. fix_dec_logist_groups (length envQ8) res envQ8 xs s size_w fs = Some (ds, Inr fs') \<and>
    logist_state_rel s size_w (fold abs_step (map2 logist_pair (by_four es) ds) st) fs'"
  using assms(3-)
proof (induction envQ8 arbitrary: res es ds xs st fs)
  case Nil
  then show ?case by auto
next
  case (Cons q qs)
  obtain res1 newRes es1 where r: "env_sqrt res q = Some (res1, newRes)" "roots res1 qs = Some es1" "es = u16 newRes # es1"
    using Cons.prems(1) by (auto split: option.splits)
  define e where "e = u16 newRes"
  let ?d = "take 4 ds" and ?ds = "drop 4 ds" and ?x = "take 4 xs" and ?xs = "drop 4 xs"
  have len: "length ?d = 4" "length ?x = 4" "length ?ds = 4 * length qs" "length ?xs = length ?ds"
    using Cons.prems(2,3) by simp_all
  have zips: "zip xs (by_four es) = zip ?x (replicate 4 e) @ zip ?xs (by_four es1)"
    using len(2) by (simp add: r(3) e_def zip_append2)
  have lz: "length (zip ?x (replicate 4 e)) = length ?d" using len by simp
  have "list_all2 (\<lambda>t d. logist_valid (fst t) (snd t) d) (zip ?x (replicate 4 e) @ zip ?xs (by_four es1)) (?d @ ?ds)"
    using Cons.prems(4) zips by simp
  then have v: "list_all2 (\<lambda>t d. logist_valid (fst t) (snd t) d) (zip ?x (replicate 4 e)) ?d"
    "list_all2 (\<lambda>t d. logist_valid (fst t) (snd t) d) (zip ?xs (by_four es1)) ?ds"
    unfolding list_all2_append [OF lz] by blast+
  have v1: "list_all2 (\<lambda>x d. logist_valid x e d) ?x ?d"
    using v(1) len by (auto simp: list_all2_conv_all_nth)
  let ?st = "fold abs_step (map (logist_pair e) ?d) st"
  have pairs: "map2 logist_pair (by_four es) ds = map (logist_pair e) ?d @ map2 logist_pair (by_four es1) ?ds"
  proof -
    have "zip (by_four es) ds = zip (replicate 4 e) ?d @ zip (by_four es1) ?ds"
      using len(1) by (simp add: r(3) e_def zip_append1)
    moreover have "map2 logist_pair (replicate 4 e) ?d = map (logist_pair e) ?d"
      using len(1) by (simp add: map2_map_map [symmetric] zip_replicate1 comp_def)
    ultimately show ?thesis by simp
  qed
  have w: "width_ok ?st" by (rule logist_pairs_width(1) [OF Cons.prems(5) v1])
  have dec: "decodes (word_bytes s) (fold abs_step (map2 logist_pair (by_four es1) ?ds) ?st)"
    using Cons.prems(7) by (simp add: pairs)
  have "\<forall>c\<in>set (map2 logist_pair (by_four es1) ?ds). cdf_pair_ok c"
    using logist_pairs_ok [OF v(2)] len by simp
  then have "decodes (word_bytes s) ?st" by (rule decodes_symbols [OF bytes_ok_word_bytes [OF s(1)] w _ dec])
  from fix_dec_logist_run_correct [OF s v1 Cons.prems(5,6) this, of ?xs]
  obtain fs1 where f: "fix_dec_logist_run 4 e xs s size_w fs = Some (?d, Inr fs1)" "logist_state_rel s size_w ?st fs1"
    using len by auto
  from Cons.IH [OF r(2) len(3,4) v(2) w f(2) dec] show ?case
    using r(1) f(1) by (auto simp: pairs e_def)
qed

text \<open>The encoder uses every envelope value four times.\<close>

lemma env_step_four: "env_step False (4 * j) = 0" "env_step False (4 * j + 1) = 0" "env_step False (4 * j + 2) = 0"
  "env_step False (4 * j + 3) = 1"
proof -
  have *: "env_step False k = (if odd k then k div 2 mod 2 else 0)" for k
    by (simp add: env_step_def and_one_eq drop_bit_Suc odd_iff_mod_2_eq_one one_and_eq)
  show "env_step False (4 * j) = 0" "env_step False (4 * j + 1) = 0" "env_step False (4 * j + 2) = 0"
    "env_step False (4 * j + 3) = 1"
    unfolding * by (simp, presburger+)
qed

lemma env_of_by_four: "env_of (4 * length es) (4 * j) es False = Some (by_four es)"
proof (induction es arbitrary: j)
  case (Cons e es)
  have "env_of (4 * length es) (4 * Suc j) es False = Some (by_four es)" by (rule Cons.IH)
  moreover have "4 * length (e # es) = Suc (Suc (Suc (Suc (4 * length es))))" by simp
  moreover note env_step_four [of j]
  ultimately show ?case
    by (simp add: numeral_eq_Suc)
qed simp

subsection \<open>Properties\<close>

lemma fix_decode_logist_message:
  assumes d: "fresh_dec d" "padded (d_stream d) (d_stream_size d)"
    and "roots (first_res (hd envQ8)) envQ8 = Some es" "envQ8 \<noteq> []"
    and "length ds = 4 * length envQ8" "length dither = length ds"
    and "list_all2 (\<lambda>t d. logist_valid (fst t) (snd t) d) (zip dither (by_four es)) ds"
    and st: "fold abs_step (map2 logist_pair (by_four es) ds) (0, 0, 0xFFFFFFFF) = (p, low, W)"
    and dec: "decodes (word_bytes (d_stream d)) (p, low, W)"
  shows "\<exists>d'. WebRtcIsacfix_DecLogisticMulti2 dither d envQ8 (length ds) = Some (stream_bytes (p + 3) W, ds, d')"
proof -
  let ?s = "d_stream d" and ?n = "d_stream_size d"
  let ?B = "word_bytes ?s"
  have s: "words_ok ?s" "length ?s = 305" "d_full d = 1" "d_W_upper d = 0xFFFFFFFF" "d_stream_index d = 0"
    using d(1) by (auto simp: fresh_dec_def INTERNAL_STREAM_SIZE_W16_def)
  obtain v ptr where r: "fix_read_first d = Some (v, ptr)" "start_decoder (byte_dec d) = Some (v, dec_pos ptr 1)"
    "2 \<le> ptr" using fix_read_first_bytes [OF fresh_dec_byte(1) [OF d(1)]] s(3) by (auto simp: dec_ptr_ok_def)
  have v: "v = bval (take 4 ?B)" "dec_pos ptr 1 = 3"
    using r(2) first_decode [OF fresh_dec_byte(2) [OF d(1)], of "d_streamval d"] s(2)
    by (simp_all add: fresh_dec_byte(3) [OF d(1)])
  have "logist_state_rel ?s ?n (0, 0, 0xFFFFFFFF) (ptr, 0, 1, 0xFFFFFFFF, v)"
    using v r(3) by (simp add: logist_state_rel_def decoder_state_def logist_ptr_ok_def)
  from fix_dec_logist_groups_correct [OF s(1) d(2) assms(3,5,6,7) _ this] dec
  obtain fs where g: "fix_dec_logist_groups (length envQ8) (first_res (hd envQ8)) envQ8 dither ?s ?n (ptr, 0, 1, 0xFFFFFFFF, v)
      = Some (ds, Inr fs)" "logist_state_rel ?s ?n (p, low, W) fs"
    unfolding st by (auto simp: width_ok_def)
  obtain ptr' offset' full' X where fs: "fs = (ptr', offset', full', W, X)" "p + 3 = dec_pos (ptr' + offset') full'"
    "full' \<le> 1" "2 \<le> ptr'"
    using g(2) by (cases fs) (auto simp: logist_state_rel_def decoder_state_def logist_ptr_ok_def)
  have "p + 4 \<le> 610" using dec s(2) by (simp add: decodes_def)
  then have idx: "(ptr' + offset') mod 65536 = ptr' + offset'" using fs(2,3) by (simp add: dec_pos_def)
  have "(length ds + 3) div 4 = length envQ8" using assms(5) by simp
  then show ?thesis
    using r(1) g(1) assms(4,6) s(3,4) fix_stream_bytes_pos [of full' "ptr' + offset'" W] fs idx
    by (simp add: WebRtcIsacfix_DecLogisticMulti2_def Let_def)
qed

text \<open>What the encoder leaves: a message on words together with the byte stream it stands for.\<close>

definition logist_message ::
    "int list \<Rightarrow> int list \<Rightarrow> Bitstr_enc \<Rightarrow> nat \<Rightarrow> int \<Rightarrow> int \<Rightarrow> Bitstr \<Rightarrow> nat \<Rightarrow> Bitstr \<Rightarrow> bool" where
  "logist_message es ds e1 p low W b1 n b2 \<longleftrightarrow>
     fold abs_step (map2 logist_pair es ds) (0, 0, 0xFFFFFFFF) = (p, low, W) \<and> p < 400 \<and>
     fix_rel (byte_fields b1) (enc_fields e1) \<and> WebRtcIsac_EncTerminate b1 = Some (n, b2) \<and>
     int n = stream_bytes (p + 3) W \<and>
     (\<forall>B. bytes_ok B \<and> p + 4 \<le> length B \<and> take n B = take n (stream b2) \<longrightarrow> decodes B (p, low, W))"

lemma fix_encode_logist_message:
  assumes "fresh_enc e" "env_of (length data) 0 es False = Some xs" "list_all env_ok es" "list_all env_ok xs"
    and "list_all coeff_ok data"
  shows "\<exists>r ds e1. WebRtcIsacfix_EncLogisticMulti2 e data es (length data) = Some (r, ds, e1) \<and>
    length ds = length data \<and> (r = 0 \<or> r = - ISAC_DISALLOWED_BITSTREAM_LENGTH) \<and> (length data \<le> 133 \<longrightarrow> r = 0) \<and>
    (r = 0 \<longrightarrow> list_all2 (\<lambda>d d'. d' mod 128 = d mod 128 \<and> \<bar>d'\<bar> \<le> \<bar>d\<bar>) data ds \<and>
       (\<exists>p low W b1 n b2. logist_message xs ds e1 p low W b1 n b2))"
proof -
  note b = fresh_stream_simps
  note ready = enc_ready_initial [OF b(1-4)]
  have fresh: "fresh_byte_enc fresh_stream" by (simp add: fresh_byte_enc_def)
  obtain ds r where loop: "enc_logist_loop 0 data es False (byte_fields fresh_stream) = Some (ds, r)"
    "length ds = length data"
    and fin: "\<And>st. r = Inr st \<Longrightarrow> enc_ready st \<and> length (fst st) = 600 \<and> fst (snd st) < 400 \<and>
       abs_of st = fold abs_step (map2 logist_pair xs ds) (0, 0, 0xFFFFFFFF) \<and>
       list_all2 (\<lambda>d d'. coeff_ok d' \<and> d' mod 128 = d mod 128 \<and> \<bar>d'\<bar> \<le> \<bar>d\<bar>) data ds"
    and short: "3 * length data < 400 \<Longrightarrow> \<exists>st. r = Inr st"
    using enc_logist_loop_eq [OF assms(2,4,5) ready(1)] b unfolding ready(2)
    by (auto simp: byte_fields_def STREAM_SIZE_MAX_def)
  obtain r' where r': "fix_enc_logist_loop 0 data es (enc_fields e) = Some (ds, r')" "logist_outcome r r'"
    using fix_enc_logist_loop_refines [OF loop(1) fresh_rel [OF assms(1) fresh] assms(3,5)] by blast
  show ?thesis
  proof (cases r)
    case (Inl x)
    then obtain y where "r' = Inl y" using r'(2) by (cases r') (auto simp: logist_outcome_def)
    moreover have "\<not> length data \<le> 133" using short Inl by fastforce
    ultimately show ?thesis
      using r'(1) loop(2) by (cases y) (simp add: WebRtcIsacfix_EncLogisticMulti2_def fix_enc_finish_def
          ISAC_DISALLOWED_BITSTREAM_LENGTH_def)
  next
    case (Inr st)
    obtain s p W v where st: "st = (s, p, W, v)" by (cases st)
    note f = fin [OF Inr, unfolded st]
    obtain ws ptr full where fs: "r' = Inr (ws, ptr, full, W, v)" "fix_rel (s, p, W, v) (ws, ptr, full, W, v)"
      using r'(2) Inr st by (auto simp: logist_outcome_def fix_rel_def)
    define b1 where "b1 = fresh_stream\<lparr>stream := s, W_upper := W, streamval := v, stream_index := p\<rparr>"
    define e1 where "e1 = e\<lparr>e_stream := ws, e_W_upper := W, e_streamval := v, e_stream_index := ptr, e_full := full\<rparr>"
    have e1: "WebRtcIsacfix_EncLogisticMulti2 e data es (length data) = Some (0, ds, e1)"
      using r'(1) fs(1) by (simp add: WebRtcIsacfix_EncLogisticMulti2_def fix_enc_finish_def e1_def)
    have "fix_rel (byte_fields b1) (enc_fields e1)" using fs(2) by (simp add: b1_def e1_def byte_fields_def enc_fields_def)
    then have "\<exists>n b2. logist_message xs ds e1 p (low_of s p v) W b1 n b2"
      using logist_decodes [of s p W v fresh_stream] f unfolding logist_message_def b1_def by (auto simp: abs_of_def)
    moreover have "list_all2 (\<lambda>d d'. d' mod 128 = d mod 128 \<and> \<bar>d'\<bar> \<le> \<bar>d\<bar>) data ds"
      using f by (auto elim: list_all2_mono)
    ultimately show ?thesis
      using e1 loop(2) by blast
  qed
qed

text \<open>With a zero envelope both bounds are the value at zero and stay so.\<close>

lemma clip_loop_zero:
  assumes "clip_loop env d lo hi = Some r"
  shows "env = 0 \<longrightarrow> lo = piecewise 0 \<longrightarrow> hi = piecewise 0 \<longrightarrow> False"
  using assms
proof (induction rule: clip_loop.raw_induct [rotated, consumes 1, case_names step])
  case (step f env d lo hi r)
  have "u32 (piecewise 0 + 1) = piecewise 0 + 1" using piecewise_range [of 0] by (simp add: u32_def)
  moreover have "env = 0 \<Longrightarrow> f env x (piecewise 0) (piecewise 0) \<noteq> Some r" for x
    using step(1) [of env x "piecewise 0" "piecewise 0" r] by blast
  ultimately show ?case using step(2) by (auto simp: mul32_def split: if_splits)
qed

lemma fix_clip_loop_zero:
  assumes "fix_clip_loop env d lo hi = Some r"
  shows "env = 0 \<longrightarrow> lo = piecewise 0 \<longrightarrow> hi = piecewise 0 \<longrightarrow> False"
  using assms
proof (induction rule: fix_clip_loop.raw_induct [rotated, consumes 1, case_names step])
  case (step f env d lo hi r)
  have "u32 (piecewise 0 + 1) = piecewise 0 + 1" using piecewise_range [of 0] by (simp add: u32_def)
  moreover have "env = 0 \<Longrightarrow> f env x (piecewise 0) (piecewise 0) \<noteq> Some r" for x
    using step(1) [of env x "piecewise 0" "piecewise 0" r] by blast
  ultimately show ?case using step(2) by (auto simp: mul_16_u16_def mul32_def u16_def Piecewise_eq split: if_splits)
qed

text \<open>The Newton iteration of the decoder. From a positive start it stays positive for every value but
  zero, so it never divides by zero; with a zero at the head of the envelope it does.\<close>

lemma newton_step:
  assumes "1 \<le> x" "x < 2147483647" "1 \<le> r" "r \<le> 1073741824"
  defines "n \<equiv> shr (add32 (cdiv x r) r) 1"
  shows "1 \<le> n" "n \<le> 1073741824"
proof -
  have c: "cdiv x r = x div r" using assms(1,3) by (simp add: cdiv_def)
  have q: "0 \<le> x div r" using assms(1,3) by (simp add: pos_imp_zdiv_nonneg_iff)
  have s: "2 \<le> x div r + r \<and> x div r + r \<le> 2147483647"
  proof (cases "r = 1")
    case False
    then have "x div r \<le> x div 2" using assms(1,3) by (intro zdiv_mono2) auto
    then have "x div r \<le> 1073741823" using assms(2) by linarith
    then show ?thesis using False q assms(3,4) by linarith
  qed (use assms(1,2) in simp)
  then have "n = (x div r + r) div 2" by (simp add: n_def c add32_def shr_def s32_idI)
  then show "1 \<le> n" "n \<le> 1073741824" using s by linarith+
qed

lemma newton_loop_positive:
  "1 \<le> x \<Longrightarrow> x < 2147483647 \<Longrightarrow> 1 \<le> r \<Longrightarrow> r \<le> 1073741824 \<Longrightarrow>
   \<exists>r' n. newton_loop i x r = Some (r', n) \<and> 1 \<le> r' \<and> r' \<le> 1073741824 \<and> 1 \<le> n"
proof (induction i x r rule: newton_loop.induct)
  case (1 i x r)
  note n = newton_step [OF "1.prems"]
  show ?case
  proof (cases "shr (add32 (cdiv x r) r) 1 \<noteq> r \<and> i > 0")
    case True
    then have "newton_loop i x r = newton_loop (i - 1) x (shr (add32 (cdiv x r) r) 1)"
      using "1.prems"(3) by (subst newton_loop.simps) (simp add: Let_def)
    then show ?thesis using "1.IH" [OF _ refl True "1.prems"(1,2) n] "1.prems"(3) by simp
  next
    case False
    then have "newton_loop i x r = Some (r, shr (add32 (cdiv x r) r) 1)"
      using "1.prems"(3) by (subst newton_loop.simps) (auto simp: Let_def)
    then show ?thesis using "1.prems"(3,4) n by simp
  qed
qed

lemma env_sqrt_positive:
  assumes "env \<noteq> 0" "-2147483647 < env" "env < 2147483647" "1 \<le> res" "res \<le> 1073741824"
  shows "\<exists>r n. env_sqrt res env = Some (r, n) \<and> 1 \<le> r \<and> r \<le> 1073741824 \<and> 1 \<le> n"
proof -
  define x where "x = (if env < 0 then sub32 0 env else env)"
  have x: "1 \<le> x" "x < 2147483647" using assms(1-3) by (auto simp: x_def sub32_def s32_idI)
  have e: "env_sqrt res env = newton_loop 10 x (shr (add32 (cdiv x res) res) 1)"
    using assms(4) by (simp add: env_sqrt_def x_def Let_def)
  show ?thesis
    unfolding e using newton_loop_positive [OF x newton_step [OF x assms(4,5)]] by blast
qed

lemma env_sqrt_zero: "env_sqrt (first_res 0) 0 = None"
  by code_simp

text \<open>C7: the fixed-point logistic coder. From a fresh structure, encoding coefficients in range with
  the non-zero roots of an envelope ends and returns 0 or the error for a stream that is too long
  (never, and with a successful termination, for up to 132 coefficients), and it changes coefficients only
  towards zero and by multiples of 128. When both calls succeed, a decoder for a packet that starts with the bytes
  written, zero behind its end, computes the same roots from the squared envelope, reads zeros where
  the packet has ended, and gives back the coefficients the encoder left and the number of bytes,
  provided each coefficient is reachable from the decoder's first candidate.\<close>

theorem isacfix_logistic_roundtrip:
  assumes "fresh_enc e" "envQ8 \<noteq> []" "roots (first_res (hd envQ8)) envQ8 = Some es" "list_all env_ok es"
    and "length data = 4 * length envQ8" "list_all coeff_ok data" "length dither = length data"
  shows "\<exists>r ds e1. WebRtcIsacfix_EncLogisticMulti2 e data es (length data) = Some (r, ds, e1) \<and>
    (r = 0 \<or> r = - ISAC_DISALLOWED_BITSTREAM_LENGTH) \<and>
    (length data \<le> 132 \<longrightarrow> r = 0 \<and> WebRtcIsacfix_EncTerminate e1 \<noteq> None) \<and>
    (r = 0 \<longrightarrow> list_all2 (\<lambda>d d'. d' mod 128 = d mod 128 \<and> \<bar>d'\<bar> \<le> \<bar>d\<bar>) data ds \<and>
      (\<forall>n e2 d. WebRtcIsacfix_EncTerminate e1 = Some (n, e2) \<and>
         list_all2 (\<lambda>t d. logist_valid (fst t) (snd t) d) (zip dither (by_four es)) ds \<and>
         fresh_dec d \<and> padded (d_stream d) (d_stream_size d) \<and>
         take (nat n) (word_bytes (d_stream d)) = take (nat n) (word_bytes (e_stream e2)) \<longrightarrow>
         (\<exists>d'. WebRtcIsacfix_DecLogisticMulti2 dither d envQ8 (length data) = Some (n, ds, d'))))"
proof -
  have les: "length es = length envQ8" by (rule roots_length [OF assms(3)])
  have env: "env_of (length data) 0 es False = Some (by_four es)"
    using env_of_by_four [of es 0] assms(5) les by simp
  have "list_all env_ok (by_four es)" using assms(4) by (auto simp: by_four_def list_all_iff)
  from fix_encode_logist_message [OF assms(1) env assms(4) this assms(6)]
  obtain r ds e1 where enc: "WebRtcIsacfix_EncLogisticMulti2 e data es (length data) = Some (r, ds, e1)"
    "length ds = length data" "r = 0 \<or> r = - ISAC_DISALLOWED_BITSTREAM_LENGTH" "length data \<le> 133 \<longrightarrow> r = 0"
    "r = 0 \<Longrightarrow> list_all2 (\<lambda>d d'. d' mod 128 = d mod 128 \<and> \<bar>d'\<bar> \<le> \<bar>d\<bar>) data ds"
    "r = 0 \<Longrightarrow> \<exists>p low W b1 n b2. logist_message (by_four es) ds e1 p low W b1 n b2" by blast
  show ?thesis
  proof (cases "r = 0")
    case True
    then obtain p low W b1 n b2 where m: "logist_message (by_four es) ds e1 p low W b1 n b2" using enc(6) by blast
    then have fold: "fold abs_step (map2 logist_pair (by_four es) ds) (0, 0, 0xFFFFFFFF) = (p, low, W)"
      and n: "int n = stream_bytes (p + 3) W" "p < 400" by (simp_all add: logist_message_def)
    have tm: "n \<le> 2 * STREAM_MAXW16_60MS \<longrightarrow> (\<exists>e2. WebRtcIsacfix_EncTerminate e1 = Some (int n, e2) \<and>
        take n (word_bytes (e_stream e2)) = take n (stream b2))"
      "2 * STREAM_MAXW16_60MS < n \<longrightarrow> WebRtcIsacfix_EncTerminate e1 = None"
      using m fix_EncTerminate_refines [of b1 n b2 e1] unfolding logist_message_def by blast+
    have "p \<le> 3 * length data"
      using abs_steps_pos_le [of "map2 logist_pair (by_four es) ds" "(0, 0, 0xFFFFFFFF)"] fold les enc(2) assms(5) by simp
    then have small: "length data \<le> 132 \<Longrightarrow> WebRtcIsacfix_EncTerminate e1 \<noteq> None"
      using tm(1) n(1) by (auto simp: STREAM_MAXW16_60MS_def stream_bytes_def split: if_splits)
    have "\<exists>d'. WebRtcIsacfix_DecLogisticMulti2 dither d envQ8 (length data) = Some (k, ds, d')"
      if d: "WebRtcIsacfix_EncTerminate e1 = Some (k, e2)"
        "list_all2 (\<lambda>t d. logist_valid (fst t) (snd t) d) (zip dither (by_four es)) ds"
        "fresh_dec d" "padded (d_stream d) (d_stream_size d)"
        "take (nat k) (word_bytes (d_stream d)) = take (nat k) (word_bytes (e_stream e2))" for k e2 d
    proof -
      have k: "k = int n" "take n (word_bytes (e_stream e2)) = take n (stream b2)"
        using tm d(1) by (auto simp: not_less [symmetric])
      have "p + 4 \<le> length (word_bytes (d_stream d))"
        using d(3) n(2) by (simp add: fresh_dec_def INTERNAL_STREAM_SIZE_W16_def)
      moreover have "take n (word_bytes (d_stream d)) = take n (stream b2)" using d(5) k by simp
      ultimately have "decodes (word_bytes (d_stream d)) (p, low, W)"
        using m fresh_dec_byte(2) [OF d(3)] unfolding logist_message_def by blast
      from fix_decode_logist_message [OF d(3,4) assms(3,2) _ _ d(2) fold this] assms(5,7) enc(2) k(1) n(1)
      show ?thesis by simp
    qed
    then show ?thesis
      using enc(1,5) small True by (intro exI [of _ 0] exI [of _ ds] exI [of _ e1]) auto
  qed (use enc(1,3,4) in \<open>auto simp: ISAC_DISALLOWED_BITSTREAM_LENGTH_def\<close>)
qed

definition demo_envQ8 :: "int list" where
  "demo_envQ8 = [250000]"

lemma demo_roots: "roots (first_res (hd demo_envQ8)) demo_envQ8 = Some [500]"
  by code_simp

definition demo_dec :: Bitstr_dec where
  "demo_dec = (InitializeDecoderBitstream 3 \<lparr>d_stream = replicate 305 7, d_W_upper = 1, d_streamval = 2,
     d_stream_index = 3, d_full = 0, d_stream_size = 600\<rparr>)\<lparr>d_stream := [0xFF1E, 0x3100] @ replicate 303 0\<rparr>"

text \<open>Four coefficients in three bytes, and a packet with these bytes.\<close>

theorem isacfix_logistic_roundtrip_witness:
  "\<exists>e1 e2 d'. WebRtcIsacfix_EncLogisticMulti2 demo_enc [256, -156, 0, 128] [500] 4 = Some (0, [256, -156, 0, 128], e1) \<and>
     WebRtcIsacfix_EncTerminate e1 = Some (3, e2) \<and>
     WebRtcIsacfix_DecLogisticMulti2 [0, 28, 0, 0] demo_dec demo_envQ8 4 = Some (3, [256, -156, 0, 128], d')"
proof -
  let ?data = "[256, -156, 0, 128] :: int list" and ?dither = "[0, 28, 0, 0] :: int list"
  have "Option.bind (WebRtcIsacfix_EncLogisticMulti2 demo_enc ?data [500] 4) (\<lambda>(r, ds, e1).
      map_option (\<lambda>(n, e2). (r, ds, n, take 3 (word_bytes (e_stream e2)))) (WebRtcIsacfix_EncTerminate e1))
      = Some (0, ?data, 3, [0xFF, 0x1E, 0x31])"
    by code_simp
  then obtain e1 e2 where enc: "WebRtcIsacfix_EncLogisticMulti2 demo_enc ?data [500] 4 = Some (0, ?data, e1)"
    "WebRtcIsacfix_EncTerminate e1 = Some (3, e2)" "take 3 (word_bytes (e_stream e2)) = [0xFF, 0x1E, 0x31]"
    by (auto simp: bind_eq_Some_conv)
  have ok: "list_all env_ok [500]" "length ?data = 4 * length demo_envQ8" "list_all coeff_ok ?data"
    "length ?dither = length ?data" "demo_envQ8 \<noteq> []"
    by (simp_all add: env_ok_def coeff_ok_def demo_envQ8_def)
  have valid: "list_all2 (\<lambda>t d. logist_valid (fst t) (snd t) d) (zip ?dither (by_four [500])) ?data"
    by code_simp
  have d: "fresh_dec demo_dec" "padded (d_stream demo_dec) (d_stream_size demo_dec)"
    "take 3 (word_bytes (d_stream demo_dec)) = [0xFF, 0x1E, 0x31]"
    by (auto simp: demo_dec_def InitializeDecoderBitstream_def fresh_dec_def padded_def words_ok_def
        INTERNAL_STREAM_SIZE_W16_def nth_append)
  have four: "length ?data = 4" by simp
  from isacfix_logistic_roundtrip [OF demo_fresh(1) ok(5) demo_roots ok(1-4), unfolded four enc(1) option.inject prod.inject]
  have "WebRtcIsacfix_EncTerminate e1 = Some (3, e2) \<and>
      list_all2 (\<lambda>t d. logist_valid (fst t) (snd t) d) (zip ?dither (by_four [500])) ?data \<and>
      fresh_dec demo_dec \<and> padded (d_stream demo_dec) (d_stream_size demo_dec) \<and>
      take (nat 3) (word_bytes (d_stream demo_dec)) = take (nat 3) (word_bytes (e_stream e2)) \<longrightarrow>
      (\<exists>d'. WebRtcIsacfix_DecLogisticMulti2 ?dither demo_dec demo_envQ8 4 = Some (3, ?data, d'))"
    by blast
  then show ?thesis using enc valid d by auto
qed

text \<open>C32: the clipping loop of the logistic encoder ends for every envelope value except zero. For every
  coefficient in range and every 16-bit envelope value, in the floating-point and in the fixed-point
  encoder, the loop returns if and only if the envelope value is not zero; neither encoder checks for
  zero.\<close>

theorem logistic_clipping_ends_iff:
  assumes "coeff_ok d" "0 \<le> env" "env \<le> 65535"
  shows "((\<exists>r. clip_data env d = Some r) \<longleftrightarrow> env \<noteq> 0) \<and> ((\<exists>r. fix_clip_data env d = Some r) \<longleftrightarrow> env \<noteq> 0)"
proof (cases "env = 0")
  case True
  have "clip_data 0 d \<noteq> Some r" "fix_clip_data 0 d \<noteq> Some r" for r
    using clip_loop_zero [of 0 d "piecewise 0" "piecewise 0" r] fix_clip_loop_zero [of 0 d "piecewise 0" "piecewise 0" r]
    by (auto simp: clip_data_def fix_clip_data_def mul_16_u16_def mul32_def u16_def Piecewise_eq)
  with True show ?thesis by simp
next
  case False
  then have "env_ok env" using assms by (simp add: env_ok_def)
  with clip_data_ends [OF this assms(1)] fix_clip_data_eq [OF this assms(1)] False show ?thesis by fastforce
qed

theorem logistic_clipping_ends_iff_witness:
  "(\<exists>r. fix_clip_data 7 18895 = Some r) \<and> \<not> (\<exists>r. fix_clip_data 0 18895 = Some r)"
  using logistic_clipping_ends_iff [of 18895 7] logistic_clipping_ends_iff [of 18895 0] by (simp add: coeff_ok_def)

end
