(* ===== verification/Isac_Crc.thy ===== *)
theory Isac_Crc
  imports Prelude
begin

section \<open>iSAC: the checksum of the upper-band payload (\<open>crc.c\<close>)\<close>

text \<open>
  \<open>WebRtcIsac_GetCrc\<close> of \<open>isac/main/source/crc.c\<close>, with its 256-entry table. The reference
  definition is the bit-serial shift register for the polynomial 0x04C11DB7 (\<open>POLYNOMIAL\<close> in the
  source), most significant bit first, started from all ones and complemented at the end. The
  lemmas show that one table step is eight register steps, and that the register is linear and
  injective, from which the error-detecting property of the checksum follows.
\<close>

unbundle bit_operations_syntax

subsection \<open>The code\<close>

definition kCrcTable :: "32 word list" where
  "kCrcTable = [
    0, 0x4c11db7, 0x9823b6e, 0xd4326d9, 0x130476dc, 0x17c56b6b,
    0x1a864db2, 0x1e475005, 0x2608edb8, 0x22c9f00f, 0x2f8ad6d6, 0x2b4bcb61,
    0x350c9b64, 0x31cd86d3, 0x3c8ea00a, 0x384fbdbd, 0x4c11db70, 0x48d0c6c7,
    0x4593e01e, 0x4152fda9, 0x5f15adac, 0x5bd4b01b, 0x569796c2, 0x52568b75,
    0x6a1936c8, 0x6ed82b7f, 0x639b0da6, 0x675a1011, 0x791d4014, 0x7ddc5da3,
    0x709f7b7a, 0x745e66cd, 0x9823b6e0, 0x9ce2ab57, 0x91a18d8e, 0x95609039,
    0x8b27c03c, 0x8fe6dd8b, 0x82a5fb52, 0x8664e6e5, 0xbe2b5b58, 0xbaea46ef,
    0xb7a96036, 0xb3687d81, 0xad2f2d84, 0xa9ee3033, 0xa4ad16ea, 0xa06c0b5d,
    0xd4326d90, 0xd0f37027, 0xddb056fe, 0xd9714b49, 0xc7361b4c, 0xc3f706fb,
    0xceb42022, 0xca753d95, 0xf23a8028, 0xf6fb9d9f, 0xfbb8bb46, 0xff79a6f1,
    0xe13ef6f4, 0xe5ffeb43, 0xe8bccd9a, 0xec7dd02d, 0x34867077, 0x30476dc0,
    0x3d044b19, 0x39c556ae, 0x278206ab, 0x23431b1c, 0x2e003dc5, 0x2ac12072,
    0x128e9dcf, 0x164f8078, 0x1b0ca6a1, 0x1fcdbb16, 0x18aeb13, 0x54bf6a4,
    0x808d07d, 0xcc9cdca, 0x7897ab07, 0x7c56b6b0, 0x71159069, 0x75d48dde,
    0x6b93dddb, 0x6f52c06c, 0x6211e6b5, 0x66d0fb02, 0x5e9f46bf, 0x5a5e5b08,
    0x571d7dd1, 0x53dc6066, 0x4d9b3063, 0x495a2dd4, 0x44190b0d, 0x40d816ba,
    0xaca5c697, 0xa864db20, 0xa527fdf9, 0xa1e6e04e, 0xbfa1b04b, 0xbb60adfc,
    0xb6238b25, 0xb2e29692, 0x8aad2b2f, 0x8e6c3698, 0x832f1041, 0x87ee0df6,
    0x99a95df3, 0x9d684044, 0x902b669d, 0x94ea7b2a, 0xe0b41de7, 0xe4750050,
    0xe9362689, 0xedf73b3e, 0xf3b06b3b, 0xf771768c, 0xfa325055, 0xfef34de2,
    0xc6bcf05f, 0xc27dede8, 0xcf3ecb31, 0xcbffd686, 0xd5b88683, 0xd1799b34,
    0xdc3abded, 0xd8fba05a, 0x690ce0ee, 0x6dcdfd59, 0x608edb80, 0x644fc637,
    0x7a089632, 0x7ec98b85, 0x738aad5c, 0x774bb0eb, 0x4f040d56, 0x4bc510e1,
    0x46863638, 0x42472b8f, 0x5c007b8a, 0x58c1663d, 0x558240e4, 0x51435d53,
    0x251d3b9e, 0x21dc2629, 0x2c9f00f0, 0x285e1d47, 0x36194d42, 0x32d850f5,
    0x3f9b762c, 0x3b5a6b9b, 0x315d626, 0x7d4cb91, 0xa97ed48, 0xe56f0ff,
    0x1011a0fa, 0x14d0bd4d, 0x19939b94, 0x1d528623, 0xf12f560e, 0xf5ee4bb9,
    0xf8ad6d60, 0xfc6c70d7, 0xe22b20d2, 0xe6ea3d65, 0xeba91bbc, 0xef68060b,
    0xd727bbb6, 0xd3e6a601, 0xdea580d8, 0xda649d6f, 0xc423cd6a, 0xc0e2d0dd,
    0xcda1f604, 0xc960ebb3, 0xbd3e8d7e, 0xb9ff90c9, 0xb4bcb610, 0xb07daba7,
    0xae3afba2, 0xaafbe615, 0xa7b8c0cc, 0xa379dd7b, 0x9b3660c6, 0x9ff77d71,
    0x92b45ba8, 0x9675461f, 0x8832161a, 0x8cf30bad, 0x81b02d74, 0x857130c3,
    0x5d8a9099, 0x594b8d2e, 0x5408abf7, 0x50c9b640, 0x4e8ee645, 0x4a4ffbf2,
    0x470cdd2b, 0x43cdc09c, 0x7b827d21, 0x7f436096, 0x7200464f, 0x76c15bf8,
    0x68860bfd, 0x6c47164a, 0x61043093, 0x65c52d24, 0x119b4be9, 0x155a565e,
    0x18197087, 0x1cd86d30, 0x29f3d35, 0x65e2082, 0xb1d065b, 0xfdc1bec,
    0x3793a651, 0x3352bbe6, 0x3e119d3f, 0x3ad08088, 0x2497d08d, 0x2056cd3a,
    0x2d15ebe3, 0x29d4f654, 0xc5a92679, 0xc1683bce, 0xcc2b1d17, 0xc8ea00a0,
    0xd6ad50a5, 0xd26c4d12, 0xdf2f6bcb, 0xdbee767c, 0xe3a1cbc1, 0xe760d676,
    0xea23f0af, 0xeee2ed18, 0xf0a5bd1d, 0xf464a0aa, 0xf9278673, 0xfde69bc4,
    0x89b8fd09, 0x8d79e0be, 0x803ac667, 0x84fbdbd0, 0x9abc8bd5, 0x9e7d9662,
    0x933eb0bb, 0x97ffad0c, 0xafb010b1, 0xab710d06, 0xa6322bdf, 0xa2f33668,
    0xbcb4666d, 0xb8757bda, 0xb5365d03, 0xb1f740b4]"

fun crc_loop :: "8 word list \<Rightarrow> 32 word \<Rightarrow> 32 word" where
  "crc_loop [] crc_state = crc_state"
| "crc_loop (b # bytes) crc_state =
     (let crc_tbl_indx = (drop_bit 24 crc_state XOR ucast b) AND 0xFF
      in crc_loop bytes (push_bit 8 crc_state XOR kCrcTable ! unat crc_tbl_indx))"

text \<open>
  The payload is addressed byte by byte, so \<open>bitstream\<close> is its byte sequence, \<open>None\<close> for the null
  pointer. The result is the return value and what is stored through \<open>crc\<close>; reading past the
  payload is undefined and is the outer \<open>None\<close>. A negative length runs no iteration.
\<close>

definition WebRtcIsac_GetCrc ::
    "8 word list option \<Rightarrow> int \<Rightarrow> (int \<times> 32 word option) option" where
  "WebRtcIsac_GetCrc bitstream len_bitstream_in_bytes =
     (case bitstream of
        None \<Rightarrow> Some (-1, None)
      | Some bytes \<Rightarrow>
          if nat len_bitstream_in_bytes \<le> length bytes
          then Some (0, Some (NOT (crc_loop (take (nat len_bitstream_in_bytes) bytes) 0xFFFFFFFF)))
          else None)"

subsection \<open>The reference: a linear feedback shift register\<close>

definition crc_step :: "32 word \<Rightarrow> 32 word" where
  "crc_step s = (if bit s 31 then push_bit 1 s XOR 0x04c11db7 else push_bit 1 s)"

definition crc_feed :: "bool \<Rightarrow> 32 word \<Rightarrow> 32 word" where
  "crc_feed b s = crc_step (s XOR (if b then push_bit 31 1 else 0))"

definition crc_register :: "bool list \<Rightarrow> 32 word \<Rightarrow> 32 word" where
  "crc_register bits s = fold crc_feed bits s"

definition byte_bits :: "8 word \<Rightarrow> bool list" where
  "byte_bits b = map (bit b) [7, 6, 5, 4, 3, 2, 1, 0]"

definition stream_bits :: "8 word list \<Rightarrow> bool list" where
  "stream_bits bytes = concat (map byte_bits bytes)"

subsection \<open>Linearity and injectivity of the register\<close>

lemma bit_dbl: "bit ((s :: 32 word) * 2) n \<longleftrightarrow> 0 < n \<and> n < 32 \<and> bit s (n - 1)"
  using bit_double_iff [of s n] by (auto simp: mult.commute)

lemma bit_top: "bit (2147483648 :: 32 word) n \<longleftrightarrow> n = 31"
  using bit_push_bit_iff [of 31 "1 :: 32 word" n] by (auto simp: bit_1_iff)

lemma crc_step_0 [simp]: "crc_step 0 = 0"
  by (simp add: crc_step_def)

lemma crc_step_xor: "crc_step (s XOR t) = crc_step s XOR crc_step t"
  by (auto simp: crc_step_def bit_xor_iff push_bit_xor xor.assoc xor.commute xor.left_commute)

lemma crc_step_pow_xor: "(crc_step ^^ n) (s XOR t) = (crc_step ^^ n) s XOR (crc_step ^^ n) t"
  by (induction n) (simp_all add: crc_step_xor)

lemma crc_step_eq_0: "crc_step s = 0 \<longleftrightarrow> s = 0"
proof
  assume z: "crc_step s = 0"
  show "s = 0"
  proof (cases "bit s 31")
    case True
    then have "bit (push_bit 1 s XOR 0x04c11db7 :: 32 word) 0 = bit (0 :: 32 word) 0"
      using z by (simp add: crc_step_def)
    then show ?thesis by (simp only: bit_xor_iff) (simp add: bit_dbl bit_0)
  next
    case False
    then have p: "push_bit 1 s = 0" using z by (simp add: crc_step_def)
    show ?thesis
    proof (rule bit_eqI)
      fix n assume n: "possible_bit TYPE(32 word) n"
      show "bit s n = bit (0 :: 32 word) n"
      proof (cases "n = 31")
        case True then show ?thesis using False by simp
      next
        case F: False
        have "bit (push_bit 1 s) (Suc n) = bit (0 :: 32 word) (Suc n)" using p by simp
        then show ?thesis using n F by (simp add: bit_dbl)
      qed
    qed
  qed
qed simp

lemma crc_step_pow_eq_0: "(crc_step ^^ n) s = 0 \<longleftrightarrow> s = 0"
  by (induction n) (simp_all add: crc_step_eq_0)

lemma crc_register_xor:
  "length xs = length ys \<Longrightarrow>
   crc_register xs s XOR crc_register ys t = crc_register (map2 (\<noteq>) xs ys) (s XOR t)"
proof (induction xs ys arbitrary: s t rule: list_induct2)
  case (Cons x xs y ys)
  have "crc_feed x s XOR crc_feed y t = crc_feed (x \<noteq> y) (s XOR t)"
    by (cases x; cases y) (simp_all add: crc_feed_def crc_step_xor xor.assoc xor.commute xor.left_commute)
  with Cons show ?case by (simp add: crc_register_def)
qed (simp add: crc_register_def)

lemma crc_register_zeros: "crc_register (replicate n False) s = (crc_step ^^ n) s"
  by (induction n arbitrary: s) (simp_all add: crc_register_def crc_feed_def funpow_swap1)

lemma crc_register_append: "crc_register (xs @ ys) s = crc_register ys (crc_register xs s)"
  by (simp add: crc_register_def)

subsection \<open>Up to 32 bits enter the register as one word\<close>

fun pad :: "bool list \<Rightarrow> 32 word" where
  "pad [] = 0"
| "pad (b # bs) = (if b then push_bit 31 1 else 0) XOR drop_bit 1 (pad bs)"

lemma bit_pad: "bit (pad bs) n \<longleftrightarrow> n < 32 \<and> 31 - n < length bs \<and> bs ! (31 - n)"
proof (induction bs arbitrary: n)
  case (Cons b bs)
  show ?case
  proof (cases "n < 31")
    case True
    then have "31 - n = Suc (31 - Suc n)" "\<not> bit (2147483648 :: 32 word) n"
      by (simp, subst bit_top, simp)
    with True show ?thesis by (simp add: bit_xor_iff bit_drop_bit_eq Cons.IH bit_top)
  next
    case False
    then show ?thesis
      by (cases "n = 31") (simp_all add: bit_xor_iff bit_drop_bit_eq Cons.IH bit_top)
  qed
qed simp

lemma crc_step_half: "\<not> bit t 0 \<Longrightarrow> crc_step (drop_bit 1 t) = t"
proof -
  assume t: "\<not> bit t 0"
  have "push_bit 1 (drop_bit 1 t) = t"
  proof (rule bit_eqI)
    fix n assume "possible_bit TYPE(32 word) n"
    then show "bit (push_bit 1 (drop_bit 1 t)) n = bit t n"
      using t by (cases n) (simp_all add: bit_drop_bit_eq bit_dbl)
  qed
  moreover have "\<not> bit (drop_bit 1 t) 31"
    by (simp add: bit_drop_bit_eq impossible_bit)
  ultimately show ?thesis by (simp add: crc_step_def)
qed

lemma crc_register_pad:
  "length bs \<le> 32 \<Longrightarrow> crc_register bs s = (crc_step ^^ length bs) (s XOR pad bs)"
proof (induction bs arbitrary: s)
  case (Cons b bs)
  have "crc_step (s XOR pad (b # bs))
      = crc_feed b s XOR crc_step (drop_bit 1 (pad bs))"
    by (simp add: crc_feed_def crc_step_xor xor.assoc)
  also have "crc_step (drop_bit 1 (pad bs)) = pad bs"
    using Cons.prems by (intro crc_step_half) (simp add: bit_pad)
  finally show ?case
    using Cons.IH [of "crc_feed b s"] Cons.prems
    by (simp add: crc_register_def funpow_swap1)
qed (simp add: crc_register_def)

lemma pad_eq_0: "length bs \<le> 32 \<Longrightarrow> pad bs = 0 \<longleftrightarrow> True \<notin> set bs"
proof
  assume l: "length bs \<le> 32" and z: "pad bs = 0"
  show "True \<notin> set bs"
  proof
    assume "True \<in> set bs"
    then obtain i where i: "i < length bs" "bs ! i" by (auto simp: in_set_conv_nth)
    then have "bit (pad bs) (31 - i)" using l by (simp add: bit_pad)
    with z show False by simp
  qed
next
  assume "True \<notin> set bs"
  then show "pad bs = 0"
    by (intro bit_eqI) (auto simp: bit_pad dest: nth_mem)
qed

subsection \<open>One table step is eight register steps\<close>

lemma crc_step_low:
  "(\<And>k. k < n \<Longrightarrow> \<not> bit s (31 - k)) \<Longrightarrow> n \<le> 32 \<Longrightarrow> (crc_step ^^ n) s = push_bit n s"
proof (induction n)
  case (Suc n)
  have "(crc_step ^^ Suc n) s = crc_step (push_bit n s)" using Suc by simp
  also have "\<not> bit (push_bit n s) 31"
    using Suc.prems(1) [of n] Suc.prems(2) by (simp add: bit_push_bit_iff)
  then have "crc_step (push_bit n s) = push_bit (Suc n) s"
    by (simp add: crc_step_def push_bit_double mult.commute)
  finally show ?case .
qed simp

fun crc_table_ok :: "32 word list \<Rightarrow> 32 word list \<Rightarrow> bool" where
  "crc_table_ok (t # ts) (a # b # rest) \<longleftrightarrow>
     a = crc_step t \<and> b = crc_step t XOR 0x04c11db7 \<and> crc_table_ok ts rest"
| "crc_table_ok [] rest \<longleftrightarrow> rest = []"
| "crc_table_ok _ _ \<longleftrightarrow> False"

lemma crc_table_ok_all: "crc_table_ok (take 128 kCrcTable) kCrcTable"
  by (simp add: kCrcTable_def crc_step_def)

lemma crc_table_ok_nth:
  "crc_table_ok ts xs \<Longrightarrow> j < length ts \<Longrightarrow>
   xs ! (2 * j) = crc_step (ts ! j) \<and> xs ! (2 * j + 1) = crc_step (ts ! j) XOR 0x04c11db7"
proof (induction ts xs arbitrary: j rule: crc_table_ok.induct)
  case (1 t ts a b rest)
  then show ?case by (cases j) simp_all
qed simp_all

lemma length_kCrcTable [simp]: "length kCrcTable = 256"
  by (simp add: kCrcTable_def)

lemma crc_index_double:
  assumes "j < 128"
  shows "push_bit 24 (word_of_nat (2 * j)) = crc_step (push_bit 24 (word_of_nat j))"
    and "push_bit 24 (word_of_nat (2 * j + 1) :: 32 word)
       = crc_step (push_bit 24 (word_of_nat j)) XOR push_bit 24 1"
proof -
  have "\<not> bit j 7" using assms by (simp add: bit_iff_odd)
  then have b: "\<not> bit (push_bit 24 (word_of_nat j :: 32 word)) 31"
    by (simp add: bit_push_bit_iff bit_of_nat_iff)
  then show one: "push_bit 24 (word_of_nat (2 * j)) = crc_step (push_bit 24 (word_of_nat j))"
    by (simp add: crc_step_def push_bit_eq_mult)
  have "(word_of_nat (2 * j) :: 32 word) AND 1 = 0"
    by (rule bit_eqI) (auto simp only: bit_and_iff bit_1_iff bit_of_nat_iff bit_0 bit_0_eq, simp)
  then have "word_of_nat (2 * j) + 1 = (word_of_nat (2 * j) XOR 1 :: 32 word)"
    by (simp add: disjunctive_xor_eq_or disjunctive_add_eq_xor)
  then have "push_bit 24 (word_of_nat (2 * j + 1) :: 32 word)
      = push_bit 24 (word_of_nat (2 * j)) XOR push_bit 24 1"
    by (simp only: of_nat_add of_nat_1 push_bit_xor)
  with one show "push_bit 24 (word_of_nat (2 * j + 1) :: 32 word)
       = crc_step (push_bit 24 (word_of_nat j)) XOR push_bit 24 1" by simp
qed

lemma crc_step8_1: "(crc_step ^^ 8) (push_bit 24 1) = 0x04c11db7"
proof -
  have "(crc_step ^^ 7) (push_bit 24 1) = push_bit 7 (push_bit 24 1)"
    by (rule crc_step_low) (simp_all add: bit_push_bit_iff bit_1_iff del: push_bit_of_1)
  moreover have "crc_step (push_bit 7 (push_bit 24 1)) = 0x04c11db7"
    by (simp add: crc_step_def)
  moreover have "(crc_step ^^ 8) x = crc_step ((crc_step ^^ 7) x)" for x
    by (simp add: funpow_add [of 1 7, simplified])
  ultimately show ?thesis by simp
qed

lemma kCrcTable_correct:
  "i < 256 \<Longrightarrow> kCrcTable ! i = (crc_step ^^ 8) (push_bit 24 (word_of_nat i))"
proof (induction i rule: less_induct)
  case (less i)
  define j where "j = i div 2"
  have j: "j < 128" using less.prems by (simp add: j_def)
  show ?case
  proof (cases "i = 0")
    case True
    have "(crc_step ^^ 8) 0 = 0" by (simp add: crc_step_pow_eq_0)
    with True show ?thesis by (simp add: kCrcTable_def)
  next
    case False
    then have "kCrcTable ! j = (crc_step ^^ 8) (push_bit 24 (word_of_nat j))"
      using less j by (auto simp: j_def)
    then have s: "crc_step (take 128 kCrcTable ! j)
        = (crc_step ^^ 8) (crc_step (push_bit 24 (word_of_nat j)))"
      using j by (simp only: nth_take) (simp only: funpow_swap1)
    have "i = 2 * j \<or> i = 2 * j + 1" by (auto simp: j_def)
    then show ?thesis
      using crc_table_ok_nth [OF crc_table_ok_all, of j] j s
      by (auto simp only: crc_index_double crc_step_pow_xor crc_step8_1 length_take
          length_kCrcTable)
  qed
qed

lemma length_byte_bits [simp]: "length (byte_bits b) = 8"
  by (simp add: byte_bits_def)

lemma nth_byte_bits: "i < 8 \<Longrightarrow> byte_bits b ! i = bit b (7 - i)"
proof -
  assume "i < 8"
  then have "i \<in> {0, 1, 2, 3, 4, 5, 6, 7}" by auto
  then show ?thesis by (auto simp: byte_bits_def)
qed

lemma pad_byte_bits: "pad (byte_bits b) = push_bit 24 (ucast b)"
proof (rule bit_eqI)
  fix n assume n: "possible_bit TYPE(32 word) n"
  have "bit (pad (byte_bits b)) n \<longleftrightarrow> 24 \<le> n \<and> bit b (n - 24)"
    using n by (auto simp only: bit_pad) (auto simp: nth_byte_bits)
  then show "bit (pad (byte_bits b)) n = bit (push_bit 24 (ucast b :: 32 word)) n"
    using n by (auto simp: bit_push_bit_iff bit_simps)
qed

lemma crc_table_step:
  "push_bit 8 s XOR kCrcTable ! unat ((drop_bit 24 s XOR ucast b) AND 0xFF)
   = crc_register (byte_bits b) s"
proof -
  let ?i = "(drop_bit 24 s XOR ucast b) AND 0xFF :: 32 word"
  have mask: "(0xFF :: 32 word) = mask 8" by (simp add: mask_eq_exp_minus_1)
  have "?i < 256" unfolding mask by (simp add: and_mask_less' [of 8, simplified])
  then have i: "unat ?i < 256" by (simp add: word_less_nat_alt)
  let ?lo = "s AND mask 24"
  have split: "s XOR push_bit 24 (ucast b) = push_bit 24 ?i XOR ?lo"
    by (rule bit_eqI)
      (auto simp: bit_simps mask impossible_bit simp del: push_bit_of_1)
  have "(crc_step ^^ 8) ?lo = push_bit 8 ?lo"
    by (rule crc_step_low) (auto simp: bit_and_iff bit_mask_iff)
  also have "\<dots> = push_bit 8 s"
    by (rule bit_eqI) (auto simp: bit_simps)
  finally have "(crc_step ^^ 8) (s XOR push_bit 24 (ucast b))
      = kCrcTable ! unat ?i XOR push_bit 8 s"
    by (simp only: split crc_step_pow_xor kCrcTable_correct [OF i] of_nat_unat ucast_id)
  then show ?thesis
    by (simp only: crc_register_pad [of "byte_bits b"] length_byte_bits pad_byte_bits xor.commute)
qed

lemma crc_loop_register: "crc_loop bytes s = crc_register (stream_bits bytes) s"
  by (induction bytes arbitrary: s)
    (simp_all only: crc_loop.simps Let_def crc_table_step stream_bits_def list.map concat.simps
      crc_register_append, simp add: crc_register_def)

subsection \<open>Detected errors\<close>

lemma length_stream_bits [simp]: "length (stream_bits bytes) = 8 * length bytes"
  by (induction bytes) (simp_all add: stream_bits_def)

lemma byte_bits_inj: "byte_bits a = byte_bits b \<Longrightarrow> a = b"
proof (rule bit_eqI)
  fix n assume eq: "byte_bits a = byte_bits b" and "possible_bit TYPE(8 word) n"
  then show "bit a n = bit b n"
    using nth_byte_bits [of "7 - n" a] nth_byte_bits [of "7 - n" b] by simp
qed

lemma stream_bits_inj:
  "length a = length b \<Longrightarrow> stream_bits a = stream_bits b \<Longrightarrow> a = b"
  by (induction a b rule: list_induct2) (auto simp: stream_bits_def dest: byte_bits_inj)

lemma all_False_replicate: "True \<notin> set bs \<Longrightarrow> bs = replicate (length bs) False"
  by (induction bs) auto

lemma crc_register_burst:
  assumes "length m \<le> 32" and "True \<in> set m"
  shows "crc_register (replicate p False @ m @ replicate q False) 0 \<noteq> 0"
proof -
  have nz: "pad m \<noteq> 0" using assms pad_eq_0 by blast
  have z: "(crc_step ^^ p) 0 = 0" by (simp add: crc_step_pow_eq_0)
  show ?thesis
    using nz assms(1)
    by (simp add: crc_register_append crc_register_zeros crc_register_pad crc_step_pow_eq_0 z)
qed

lemma crc_register_differs:
  assumes len: "length xs = length ys" and "xs \<noteq> ys"
    and outside: "\<And>i. i < length xs \<Longrightarrow> i < p \<or> p + 32 \<le> i \<Longrightarrow> xs ! i = ys ! i"
  shows "crc_register xs s \<noteq> crc_register ys s"
proof -
  define d where "d = map2 (\<noteq>) xs ys"
  have d: "d ! i = (xs ! i \<noteq> ys ! i)" if "i < length xs" for i
    using that len by (simp add: d_def)
  have ld: "length d = length xs" using len by (simp add: d_def)
  define m where "m = take 32 (drop p d)"
  have "True \<notin> set (take p d)" "True \<notin> set (drop (p + 32) d)"
    using outside d ld by (auto simp: in_set_conv_nth)
  then obtain j k where jk: "take p d = replicate j False" "drop (p + 32) d = replicate k False"
    using all_False_replicate by blast
  have "d = take p d @ m @ drop (p + 32) d"
    by (metis append_take_drop_id drop_drop m_def add.commute)
  with jk have split: "d = replicate j False @ m @ replicate k False" by simp
  obtain i where i: "i < length xs" "xs ! i \<noteq> ys ! i"
    using \<open>xs \<noteq> ys\<close> len by (auto simp: list_eq_iff_nth_eq)
  then have "True \<in> set d" using d ld by (metis nth_mem)
  then have "True \<in> set m" by (subst (asm) split) auto
  then have "crc_register d 0 \<noteq> 0"
    unfolding split by (rule crc_register_burst [rotated]) (simp add: m_def)
  moreover have "crc_register xs s XOR crc_register ys s = crc_register d 0"
    using crc_register_xor [OF len, of s s] by (simp add: d_def)
  ultimately show ?thesis by auto
qed

text \<open>C24: \<open>WebRtcIsac_GetCrc\<close> refuses a null payload with -1, and otherwise stores the checksum
  that the bit-serial register of the polynomial 0x04C11DB7 computes: started from all ones, fed
  with the bits of the first \<open>n\<close> payload bytes, most significant bit first, and complemented.\<close>

theorem crc_is_bit_serial:
  "WebRtcIsac_GetCrc None n = Some (-1, None) \<and>
   (nat n \<le> length bytes \<longrightarrow>
    WebRtcIsac_GetCrc (Some bytes) n
    = Some (0, Some (NOT (crc_register (stream_bits (take (nat n) bytes)) 0xFFFFFFFF))))"
  by (simp add: WebRtcIsac_GetCrc_def crc_loop_register)

theorem crc_is_bit_serial_witness:
  "WebRtcIsac_GetCrc (Some [0x31, 0x32, 0x33, 0x34, 0x35, 0x36, 0x37, 0x38, 0x39]) 9
   = Some (0, Some 0xFC891918)"
proof -
  let ?p = "[0x31, 0x32, 0x33, 0x34, 0x35, 0x36, 0x37, 0x38, 0x39] :: 8 word list"
  have "NOT (crc_register (stream_bits
      (take (nat 9) [0x31, 0x32, 0x33, 0x34, 0x35, 0x36, 0x37, 0x38, 0x39])) 0xFFFFFFFF)
      = 0xFC891918"
    by code_simp
  moreover have "nat 9 \<le> length ?p" by simp
  ultimately show ?thesis
    using crc_is_bit_serial [of 9 ?p] by (simp only: simp_thms)
qed

text \<open>C23: The checksum detects every burst error of up to 32 bits: two different payloads of the
  same length that agree outside some window of 32 consecutive bits have different checksums.\<close>

theorem crc_detects_bursts:
  assumes "length a = length b" and "a \<noteq> b"
    and "\<forall>i < 8 * length a. i < p \<or> p + 32 \<le> i \<longrightarrow> stream_bits a ! i = stream_bits b ! i"
  shows "WebRtcIsac_GetCrc (Some a) (int (length a)) \<noteq> WebRtcIsac_GetCrc (Some b) (int (length b))"
proof -
  have "stream_bits a \<noteq> stream_bits b"
    using assms(1,2) stream_bits_inj by blast
  then have "crc_register (stream_bits a) 0xFFFFFFFF \<noteq> crc_register (stream_bits b) 0xFFFFFFFF"
    using assms(1,3) by (intro crc_register_differs [where p = p]) auto
  then show ?thesis
    by (simp add: WebRtcIsac_GetCrc_def crc_loop_register)
qed

theorem crc_detects_bursts_witness:
  "WebRtcIsac_GetCrc (Some [0, 1, 2, 3, 4]) 5 \<noteq> WebRtcIsac_GetCrc (Some [0, 1, 66, 7, 4]) 5"
proof -
  have "list_all (\<lambda>i. i < 8 \<or> 40 \<le> i \<longrightarrow>
      stream_bits [0, 1, 2, 3, 4] ! i = stream_bits [0, 1, 66, 7, 4] ! i) [0..<40]"
    by code_simp
  then show ?thesis
    using crc_detects_bursts [of "[0, 1, 2, 3, 4]" "[0, 1, 66, 7, 4]" 8]
    by (simp add: list_all_iff Ball_def)
qed

end
