(* ===== verification/Ilbc_Bits.thy ===== *)
theory Ilbc_Bits
  imports Prelude
begin

section \<open>The iLBC payload (\<open>ilbc/pack_bits.c\<close>, \<open>ilbc/unpack_bits.c\<close>, \<open>ilbc/swap_bytes.c\<close>)\<close>

text \<open>
  The parameters of an iLBC frame are spread over 19 (20 ms mode) or 25 (30 ms mode) words of 16
  bits, ordered by their sensitivity to bit errors. Arrays of \<open>int16_t\<close> and \<open>uint16_t\<close> are lists of
  16-bit words, the two \<open>size_t\<close> fields 64-bit words; a store into a \<open>uint16_t\<close> keeps the low 16
  bits. Each entry of the packed frame and of the unpacked arrays is one expression, the pieces
  stored and ored into it in the order of the source. The lemmas show that the two layouts agree:
  packing followed by unpacking and unpacking followed by packing are identities.
\<close>

unbundle bit_operations_syntax

subsection \<open>The code\<close>

record iLBC_bits =
  lsf :: "16 word list"
  cb_index :: "16 word list"
  gain_index :: "16 word list"
  idxForMax :: "64 word"
  state_first :: "16 word"
  idxVec :: "16 word list"
  firstbits :: "16 word"
  startIdx :: "64 word"

abbreviation u16of :: "64 word \<Rightarrow> 16 word" where
  "u16of \<equiv> ucast"

text \<open>The loops over \<open>idxVec\<close>: \<open>is\<close> are the successive values of \<open>i\<close>, the last argument the word
  being filled.\<close>

fun pack_class2 :: "16 word list \<Rightarrow> nat list \<Rightarrow> 16 word \<Rightarrow> 16 word" where
  "pack_class2 (v # vs) (i # is) w = pack_class2 vs is (w OR push_bit i (drop_bit 2 (v AND 0x4)))"
| "pack_class2 _ _ w = w"

fun pack_class3 :: "16 word list \<Rightarrow> nat list \<Rightarrow> 16 word \<Rightarrow> 16 word" where
  "pack_class3 (v # vs) (i # is) w = pack_class3 vs is (w OR push_bit i (v AND 0x3))"
| "pack_class3 _ _ w = w"

definition unpack_class2 :: "16 word \<Rightarrow> nat list \<Rightarrow> 16 word list" where
  "unpack_class2 w is = map (\<lambda>i. push_bit 2 (drop_bit i w) AND 0x4) is"

definition unpack_class3 :: "16 word \<Rightarrow> nat list \<Rightarrow> 16 word list" where
  "unpack_class3 w is = map (\<lambda>i. drop_bit i w AND 0x3) is"

text \<open>The words of a frame that are put together from several parameters, counted as in the
  comments of the source.\<close>

definition word1 :: "iLBC_bits \<Rightarrow> 16 word" where
  "word1 b =
     push_bit 10 (lsf b ! 0) OR push_bit 3 (lsf b ! 1) OR drop_bit 4 ((lsf b ! 2) AND 0x70)"

definition word2_20 :: "iLBC_bits \<Rightarrow> 16 word" where
  "word2_20 b =
     push_bit 12 ((lsf b ! 2) AND 0xF) OR u16of (push_bit 10 (startIdx b)) OR
     push_bit 9 (state_first b) OR u16of (push_bit 3 (idxForMax b)) OR
     drop_bit 4 ((cb_index b ! 0) AND 0x70)"

definition word3_20 :: "iLBC_bits \<Rightarrow> 16 word" where
  "word3_20 b =
     push_bit 12 ((cb_index b ! 0) AND 0xE) OR push_bit 8 ((gain_index b ! 0) AND 0x18) OR
     push_bit 7 ((gain_index b ! 1) AND 0x8) OR push_bit 2 ((cb_index b ! 3) AND 0xFE) OR
     drop_bit 2 ((gain_index b ! 3) AND 0x10) OR drop_bit 2 ((gain_index b ! 4) AND 0x8) OR
     drop_bit 4 ((gain_index b ! 6) AND 0x10)"

definition word7_20 :: "iLBC_bits \<Rightarrow> 16 word" where
  "word7_20 b =
     pack_class2 (drop 48 (idxVec b)) (rev [7..<16]) 0 OR
     push_bit 4 ((gain_index b ! 1) AND 0x4) OR push_bit 2 ((gain_index b ! 3) AND 0xC) OR
     push_bit 1 ((gain_index b ! 4) AND 0x4) OR drop_bit 1 ((gain_index b ! 6) AND 0x8) OR
     drop_bit 2 ((gain_index b ! 7) AND 0xC)"

definition word15_20 :: "iLBC_bits \<Rightarrow> 16 word" where
  "word15_20 b =
     push_bit 14 ((idxVec b ! 56) AND 0x3) OR push_bit 13 ((cb_index b ! 0) AND 1) OR
     push_bit 6 (cb_index b ! 1) OR drop_bit 1 ((cb_index b ! 2) AND 0x7E)"

definition word16_20 :: "iLBC_bits \<Rightarrow> 16 word" where
  "word16_20 b =
     push_bit 15 ((cb_index b ! 2) AND 0x1) OR push_bit 12 ((gain_index b ! 0) AND 0x7) OR
     push_bit 10 ((gain_index b ! 1) AND 0x3) OR push_bit 7 (gain_index b ! 2) OR
     push_bit 6 ((cb_index b ! 3) AND 0x1) OR drop_bit 1 ((cb_index b ! 4) AND 0x7E)"

definition word17_20 :: "iLBC_bits \<Rightarrow> 16 word" where
  "word17_20 b =
     push_bit 15 ((cb_index b ! 4) AND 0x1) OR push_bit 8 (cb_index b ! 5) OR
     (cb_index b ! 6)"

definition word18_20 :: "iLBC_bits \<Rightarrow> 16 word" where
  "word18_20 b =
     push_bit 8 (cb_index b ! 7) OR (cb_index b ! 8)"

definition word19_20 :: "iLBC_bits \<Rightarrow> 16 word" where
  "word19_20 b =
     push_bit 14 ((gain_index b ! 3) AND 0x3) OR push_bit 12 ((gain_index b ! 4) AND 0x3) OR
     push_bit 9 (gain_index b ! 5) OR push_bit 6 ((gain_index b ! 6) AND 0x7) OR
     push_bit 4 ((gain_index b ! 7) AND 0x3) OR push_bit 1 (gain_index b ! 8)"

definition word2_30 :: "iLBC_bits \<Rightarrow> 16 word" where
  "word2_30 b =
     push_bit 12 ((lsf b ! 2) AND 0xF) OR push_bit 6 (lsf b ! 3) OR
     drop_bit 1 ((lsf b ! 4) AND 0x7E)"

definition word3_30 :: "iLBC_bits \<Rightarrow> 16 word" where
  "word3_30 b =
     push_bit 15 ((lsf b ! 4) AND 0x1) OR push_bit 8 (lsf b ! 5) OR
     u16of (push_bit 5 (startIdx b)) OR push_bit 4 (state_first b) OR
     u16of (drop_bit 2 (idxForMax b AND 0x3C))"

definition word4_30 :: "iLBC_bits \<Rightarrow> 16 word" where
  "word4_30 b =
     push_bit 14 (u16of (idxForMax b) AND 0x3) OR push_bit 7 ((cb_index b ! 0) AND 0x78) OR
     push_bit 5 ((gain_index b ! 0) AND 0x10) OR push_bit 5 ((gain_index b ! 1) AND 0x8) OR
     ((cb_index b ! 3) AND 0xFC) OR drop_bit 3 ((gain_index b ! 3) AND 0x10) OR
     drop_bit 3 ((gain_index b ! 4) AND 0x8)"

definition word8_30 :: "iLBC_bits \<Rightarrow> 16 word" where
  "word8_30 b =
     pack_class2 (drop 48 (idxVec b)) (rev [6..<16]) 0 OR
     push_bit 3 ((cb_index b ! 0) AND 0x6) OR ((gain_index b ! 0) AND 0x8) OR
     ((gain_index b ! 1) AND 0x4) OR ((cb_index b ! 3) AND 0x2) OR
     drop_bit 7 ((cb_index b ! 6) AND 0x80)"

definition word9_30 :: "iLBC_bits \<Rightarrow> 16 word" where
  "word9_30 b =
     push_bit 9 ((cb_index b ! 6) AND 0x7E) OR push_bit 2 ((cb_index b ! 9) AND 0xFE) OR
     drop_bit 5 ((cb_index b ! 12) AND 0xE0)"

definition word10_30 :: "iLBC_bits \<Rightarrow> 16 word" where
  "word10_30 b =
     push_bit 11 ((cb_index b ! 12) AND 0x1E) OR push_bit 8 ((gain_index b ! 3) AND 0xC) OR
     push_bit 7 ((gain_index b ! 4) AND 0x6) OR push_bit 3 ((gain_index b ! 6) AND 0x18) OR
     push_bit 2 ((gain_index b ! 7) AND 0xC) OR drop_bit 1 ((gain_index b ! 9) AND 0x10) OR
     drop_bit 1 ((gain_index b ! 10) AND 0x8) OR drop_bit 3 ((gain_index b ! 12) AND 0x10) OR
     drop_bit 3 ((gain_index b ! 13) AND 0x8)"

definition word18_30 :: "iLBC_bits \<Rightarrow> 16 word" where
  "word18_30 b =
     push_bit 14 ((idxVec b ! 56) AND 0x3) OR push_bit 12 ((idxVec b ! 57) AND 0x3) OR
     push_bit 11 ((cb_index b ! 0) AND 1) OR push_bit 4 (cb_index b ! 1) OR
     drop_bit 3 ((cb_index b ! 2) AND 0x78)"

definition word19_30 :: "iLBC_bits \<Rightarrow> 16 word" where
  "word19_30 b =
     push_bit 13 ((cb_index b ! 2) AND 0x7) OR push_bit 10 ((gain_index b ! 0) AND 0x7) OR
     push_bit 8 ((gain_index b ! 1) AND 0x3) OR push_bit 5 ((gain_index b ! 2) AND 0x7) OR
     push_bit 4 ((cb_index b ! 3) AND 0x1) OR drop_bit 3 ((cb_index b ! 4) AND 0x78)"

definition word20_30 :: "iLBC_bits \<Rightarrow> 16 word" where
  "word20_30 b =
     push_bit 13 ((cb_index b ! 4) AND 0x7) OR push_bit 6 (cb_index b ! 5) OR
     push_bit 5 ((cb_index b ! 6) AND 0x1) OR drop_bit 3 ((cb_index b ! 7) AND 0xF8)"

definition word21_30 :: "iLBC_bits \<Rightarrow> 16 word" where
  "word21_30 b =
     push_bit 13 ((cb_index b ! 7) AND 0x7) OR push_bit 5 (cb_index b ! 8) OR
     push_bit 4 ((cb_index b ! 9) AND 0x1) OR drop_bit 4 ((cb_index b ! 10) AND 0xF0)"

definition word22_30 :: "iLBC_bits \<Rightarrow> 16 word" where
  "word22_30 b =
     push_bit 12 ((cb_index b ! 10) AND 0xF) OR push_bit 4 (cb_index b ! 11) OR
     push_bit 3 ((cb_index b ! 12) AND 0x1) OR drop_bit 5 ((cb_index b ! 13) AND 0xE0)"

definition word23_30 :: "iLBC_bits \<Rightarrow> 16 word" where
  "word23_30 b =
     push_bit 11 ((cb_index b ! 13) AND 0x1F) OR push_bit 3 (cb_index b ! 14) OR
     push_bit 1 ((gain_index b ! 3) AND 0x3) OR ((gain_index b ! 4) AND 0x1)"

definition word24_30 :: "iLBC_bits \<Rightarrow> 16 word" where
  "word24_30 b =
     push_bit 13 (gain_index b ! 5) OR push_bit 10 ((gain_index b ! 6) AND 0x7) OR
     push_bit 8 ((gain_index b ! 7) AND 0x3) OR push_bit 5 (gain_index b ! 8) OR
     push_bit 1 ((gain_index b ! 9) AND 0xF) OR drop_bit 2 ((gain_index b ! 10) AND 0x4)"

definition word25_30 :: "iLBC_bits \<Rightarrow> 16 word" where
  "word25_30 b =
     push_bit 14 ((gain_index b ! 10) AND 0x3) OR push_bit 11 (gain_index b ! 11) OR
     push_bit 7 ((gain_index b ! 12) AND 0xF) OR push_bit 4 ((gain_index b ! 13) AND 0x7) OR
     push_bit 1 (gain_index b ! 14)"

definition pack_20 :: "iLBC_bits \<Rightarrow> 16 word list" where
  "pack_20 b =
     [word1 b,
      word2_20 b,
      word3_20 b,
      pack_class2 (drop 0 (idxVec b)) (rev [0..<16]) 0,
      pack_class2 (drop 16 (idxVec b)) (rev [0..<16]) 0,
      pack_class2 (drop 32 (idxVec b)) (rev [0..<16]) 0,
      word7_20 b,
      pack_class3 (drop 0 (idxVec b)) [14, 12, 10, 8, 6, 4, 2, 0] 0,
      pack_class3 (drop 8 (idxVec b)) [14, 12, 10, 8, 6, 4, 2, 0] 0,
      pack_class3 (drop 16 (idxVec b)) [14, 12, 10, 8, 6, 4, 2, 0] 0,
      pack_class3 (drop 24 (idxVec b)) [14, 12, 10, 8, 6, 4, 2, 0] 0,
      pack_class3 (drop 32 (idxVec b)) [14, 12, 10, 8, 6, 4, 2, 0] 0,
      pack_class3 (drop 40 (idxVec b)) [14, 12, 10, 8, 6, 4, 2, 0] 0,
      pack_class3 (drop 48 (idxVec b)) [14, 12, 10, 8, 6, 4, 2, 0] 0,
      word15_20 b,
      word16_20 b,
      word17_20 b,
      word18_20 b,
      word19_20 b]"

definition pack_30 :: "iLBC_bits \<Rightarrow> 16 word list" where
  "pack_30 b =
     [word1 b,
      word2_30 b,
      word3_30 b,
      word4_30 b,
      pack_class2 (drop 0 (idxVec b)) (rev [0..<16]) 0,
      pack_class2 (drop 16 (idxVec b)) (rev [0..<16]) 0,
      pack_class2 (drop 32 (idxVec b)) (rev [0..<16]) 0,
      word8_30 b,
      word9_30 b,
      word10_30 b,
      pack_class3 (drop 0 (idxVec b)) [14, 12, 10, 8, 6, 4, 2, 0] 0,
      pack_class3 (drop 8 (idxVec b)) [14, 12, 10, 8, 6, 4, 2, 0] 0,
      pack_class3 (drop 16 (idxVec b)) [14, 12, 10, 8, 6, 4, 2, 0] 0,
      pack_class3 (drop 24 (idxVec b)) [14, 12, 10, 8, 6, 4, 2, 0] 0,
      pack_class3 (drop 32 (idxVec b)) [14, 12, 10, 8, 6, 4, 2, 0] 0,
      pack_class3 (drop 40 (idxVec b)) [14, 12, 10, 8, 6, 4, 2, 0] 0,
      pack_class3 (drop 48 (idxVec b)) [14, 12, 10, 8, 6, 4, 2, 0] 0,
      word18_30 b,
      word19_30 b,
      word20_30 b,
      word21_30 b,
      word22_30 b,
      word23_30 b,
      word24_30 b,
      word25_30 b]"


definition WebRtcIlbcfix_PackBits :: "iLBC_bits \<Rightarrow> int \<Rightarrow> 16 word list" where
  "WebRtcIlbcfix_PackBits enc_bits mode = (if mode = 20 then pack_20 enc_bits else pack_30 enc_bits)"

definition unpack_lsf_20 :: "16 word list \<Rightarrow> 16 word list" where
  "unpack_lsf_20 ws =
      [drop_bit 10 (ws ! 0),
       drop_bit 3 (ws ! 0) AND 0x7F,
       (push_bit 4 ((ws ! 0) AND 0x7)) OR (drop_bit 12 (ws ! 1) AND 0xF)]"

definition unpack_cb_index_20 :: "16 word list \<Rightarrow> 16 word list" where
  "unpack_cb_index_20 ws =
      [(push_bit 4 ((ws ! 1) AND 0x7)) OR (drop_bit 12 (ws ! 2) AND 0xE) OR
          (drop_bit 13 (ws ! 14) AND 0x1),
       drop_bit 6 (ws ! 14) AND 0x7F,
       (push_bit 1 (ws ! 14) AND 0x7E) OR (drop_bit 15 (ws ! 15) AND 0x1),
       (drop_bit 2 (ws ! 2) AND 0xFE) OR (drop_bit 6 (ws ! 15) AND 0x1),
       (push_bit 1 (ws ! 15) AND 0x7E) OR (drop_bit 15 (ws ! 16) AND 0x1),
       drop_bit 8 (ws ! 16) AND 0x7F,
       (ws ! 16) AND 0xFF,
       drop_bit 8 (ws ! 17),
       (ws ! 17) AND 0xFF]"

definition unpack_gain_index_20 :: "16 word list \<Rightarrow> 16 word list" where
  "unpack_gain_index_20 ws =
      [(drop_bit 8 (ws ! 2) AND 0x18) OR (drop_bit 12 (ws ! 15) AND 0x7),
       (drop_bit 7 (ws ! 2) AND 0x8) OR (drop_bit 4 (ws ! 6) AND 0x4) OR
          (drop_bit 10 (ws ! 15) AND 0x3),
       drop_bit 7 (ws ! 15) AND 0x7,
       (push_bit 2 (ws ! 2) AND 0x10) OR (drop_bit 2 (ws ! 6) AND 0xC) OR
          (drop_bit 14 (ws ! 18) AND 0x3),
       (push_bit 2 (ws ! 2) AND 0x8) OR (drop_bit 1 (ws ! 6) AND 0x4) OR
          (drop_bit 12 (ws ! 18) AND 0x3),
       drop_bit 9 (ws ! 18) AND 0x7,
       (push_bit 4 (ws ! 2) AND 0x10) OR (push_bit 1 (ws ! 6) AND 0x8) OR
          (drop_bit 6 (ws ! 18) AND 0x7),
       (push_bit 2 (ws ! 6) AND 0xC) OR (drop_bit 4 (ws ! 18) AND 0x3),
       drop_bit 1 (ws ! 18) AND 0x7]"

definition unpack_idxVec_20 :: "16 word list \<Rightarrow> 16 word list" where
  "unpack_idxVec_20 ws = map2 (OR)
     (unpack_class2 (ws ! 3) (rev [0..<16]) @
      unpack_class2 (ws ! 4) (rev [0..<16]) @
      unpack_class2 (ws ! 5) (rev [0..<16]) @
      unpack_class2 (ws ! 6) (rev [7..<16]))
     (unpack_class3 (ws ! 7) [14, 12, 10, 8, 6, 4, 2, 0] @
      unpack_class3 (ws ! 8) [14, 12, 10, 8, 6, 4, 2, 0] @
      unpack_class3 (ws ! 9) [14, 12, 10, 8, 6, 4, 2, 0] @
      unpack_class3 (ws ! 10) [14, 12, 10, 8, 6, 4, 2, 0] @
      unpack_class3 (ws ! 11) [14, 12, 10, 8, 6, 4, 2, 0] @
      unpack_class3 (ws ! 12) [14, 12, 10, 8, 6, 4, 2, 0] @
      unpack_class3 (ws ! 13) [14, 12, 10, 8, 6, 4, 2, 0] @
      [drop_bit 14 (ws ! 14) AND 0x3])"

definition unpack_20 :: "16 word list \<Rightarrow> iLBC_bits \<Rightarrow> iLBC_bits" where
  "unpack_20 ws b =
     b\<lparr>lsf := unpack_lsf_20 ws @ drop 3 (lsf b),
       cb_index := unpack_cb_index_20 ws @ drop 9 (cb_index b),
       gain_index := unpack_gain_index_20 ws @ drop 9 (gain_index b),
       idxVec := unpack_idxVec_20 ws @ drop 57 (idxVec b),
       idxForMax := ucast (drop_bit 3 (ws ! 1) AND 0x3F),
       state_first := drop_bit 9 (ws ! 1) AND 0x1,
       startIdx := ucast (drop_bit 10 (ws ! 1) AND 0x3)\<rparr>"

definition unpack_lsf_30 :: "16 word list \<Rightarrow> 16 word list" where
  "unpack_lsf_30 ws =
      [drop_bit 10 (ws ! 0),
       drop_bit 3 (ws ! 0) AND 0x7F,
       (push_bit 4 ((ws ! 0) AND 0x7)) OR (drop_bit 12 (ws ! 1) AND 0xF),
       drop_bit 6 (ws ! 1) AND 0x3F,
       (push_bit 1 (ws ! 1) AND 0x7E) OR (drop_bit 15 (ws ! 2) AND 0x1),
       drop_bit 8 (ws ! 2) AND 0x7F]"

definition unpack_cb_index_30 :: "16 word list \<Rightarrow> 16 word list" where
  "unpack_cb_index_30 ws =
      [(drop_bit 7 (ws ! 3) AND 0x78) OR (drop_bit 3 (ws ! 7) AND 0x6) OR
          (drop_bit 11 (ws ! 17) AND 1),
       drop_bit 4 (ws ! 17) AND 0x7F,
       (push_bit 3 (ws ! 17) AND 0x78) OR (drop_bit 13 (ws ! 18) AND 0x7),
       ((ws ! 3) AND 0xFC) OR ((ws ! 7) AND 0x2) OR (drop_bit 4 (ws ! 18) AND 0x1),
       (push_bit 3 (ws ! 18) AND 0x78) OR (drop_bit 13 (ws ! 19) AND 0x7),
       drop_bit 6 (ws ! 19) AND 0x7F,
       (push_bit 7 (ws ! 7) AND 0x80) OR (drop_bit 9 (ws ! 8) AND 0x7E) OR
          (drop_bit 5 (ws ! 19) AND 0x1),
       (push_bit 3 (ws ! 19) AND 0xF8) OR (drop_bit 13 (ws ! 20) AND 0x7),
       drop_bit 5 (ws ! 20) AND 0xFF,
       (drop_bit 2 (ws ! 8) AND 0xFE) OR (drop_bit 4 (ws ! 20) AND 0x1),
       (push_bit 4 (ws ! 20) AND 0xF0) OR (drop_bit 12 (ws ! 21) AND 0xF),
       drop_bit 4 (ws ! 21) AND 0xFF,
       (push_bit 5 (ws ! 8) AND 0xE0) OR (drop_bit 11 (ws ! 9) AND 0x1E) OR
          (drop_bit 3 (ws ! 21) AND 0x1),
       (push_bit 5 (ws ! 21) AND 0xE0) OR (drop_bit 11 (ws ! 22) AND 0x1F),
       drop_bit 3 (ws ! 22) AND 0xFF]"

definition unpack_gain_index_30 :: "16 word list \<Rightarrow> 16 word list" where
  "unpack_gain_index_30 ws =
      [(drop_bit 5 (ws ! 3) AND 0x10) OR ((ws ! 7) AND 0x8) OR (drop_bit 10 (ws ! 18) AND 0x7),
       (drop_bit 5 (ws ! 3) AND 0x8) OR ((ws ! 7) AND 0x4) OR (drop_bit 8 (ws ! 18) AND 0x3),
       drop_bit 5 (ws ! 18) AND 0x7,
       (push_bit 3 (ws ! 3) AND 0x10) OR (drop_bit 8 (ws ! 9) AND 0xC) OR
          (drop_bit 1 (ws ! 22) AND 0x3),
       (push_bit 3 (ws ! 3) AND 0x8) OR (drop_bit 7 (ws ! 9) AND 0x6) OR ((ws ! 22) AND 0x1),
       drop_bit 13 (ws ! 23) AND 0x7,
       (drop_bit 3 (ws ! 9) AND 0x18) OR (drop_bit 10 (ws ! 23) AND 0x7),
       (drop_bit 2 (ws ! 9) AND 0xC) OR (drop_bit 8 (ws ! 23) AND 0x3),
       drop_bit 5 (ws ! 23) AND 0x7,
       (push_bit 1 (ws ! 9) AND 0x10) OR (drop_bit 1 (ws ! 23) AND 0xF),
       (push_bit 1 (ws ! 9) AND 0x8) OR (push_bit 2 (ws ! 23) AND 0x4) OR
          (drop_bit 14 (ws ! 24) AND 0x3),
       drop_bit 11 (ws ! 24) AND 0x7,
       (push_bit 3 (ws ! 9) AND 0x10) OR (drop_bit 7 (ws ! 24) AND 0xF),
       (push_bit 3 (ws ! 9) AND 0x8) OR (drop_bit 4 (ws ! 24) AND 0x7),
       drop_bit 1 (ws ! 24) AND 0x7]"

definition unpack_idxVec_30 :: "16 word list \<Rightarrow> 16 word list" where
  "unpack_idxVec_30 ws = map2 (OR)
     (unpack_class2 (ws ! 4) (rev [0..<16]) @
      unpack_class2 (ws ! 5) (rev [0..<16]) @
      unpack_class2 (ws ! 6) (rev [0..<16]) @
      unpack_class2 (ws ! 7) (rev [6..<16]))
     (unpack_class3 (ws ! 10) [14, 12, 10, 8, 6, 4, 2, 0] @
      unpack_class3 (ws ! 11) [14, 12, 10, 8, 6, 4, 2, 0] @
      unpack_class3 (ws ! 12) [14, 12, 10, 8, 6, 4, 2, 0] @
      unpack_class3 (ws ! 13) [14, 12, 10, 8, 6, 4, 2, 0] @
      unpack_class3 (ws ! 14) [14, 12, 10, 8, 6, 4, 2, 0] @
      unpack_class3 (ws ! 15) [14, 12, 10, 8, 6, 4, 2, 0] @
      unpack_class3 (ws ! 16) [14, 12, 10, 8, 6, 4, 2, 0] @
      [drop_bit 14 (ws ! 17) AND 0x3, drop_bit 12 (ws ! 17) AND 0x3])"

definition unpack_30 :: "16 word list \<Rightarrow> iLBC_bits \<Rightarrow> iLBC_bits" where
  "unpack_30 ws b =
     b\<lparr>lsf := unpack_lsf_30 ws @ drop 6 (lsf b),
       cb_index := unpack_cb_index_30 ws @ drop 15 (cb_index b),
       gain_index := unpack_gain_index_30 ws @ drop 15 (gain_index b),
       idxVec := unpack_idxVec_30 ws @ drop 58 (idxVec b),
       idxForMax := ucast ((push_bit 2 (ws ! 2) AND 0x3C) OR (drop_bit 14 (ws ! 3) AND 0x3)),
       state_first := drop_bit 4 (ws ! 2) AND 0x1,
       startIdx := ucast (drop_bit 5 (ws ! 2) AND 0x7)\<rparr>"

text \<open>The parameters not transmitted in the mode keep their values; the result is the indicator of
  an empty frame.\<close>

definition WebRtcIlbcfix_UnpackBits :: "16 word list \<Rightarrow> iLBC_bits \<Rightarrow> int \<Rightarrow> iLBC_bits \<times> int" where
  "WebRtcIlbcfix_UnpackBits bitstream enc_bits mode =
     (if mode = 20
      then (unpack_20 bitstream enc_bits, if (bitstream ! 18) AND 0x1 = 1 then 1 else 0)
      else (unpack_30 bitstream enc_bits, if (bitstream ! 24) AND 0x1 = 1 then 1 else 0))"

definition WebRtcIlbcfix_SwapBytes :: "16 word list \<Rightarrow> nat \<Rightarrow> 16 word list" where
  "WebRtcIlbcfix_SwapBytes input wordLength =
     map (\<lambda>w. drop_bit 8 w OR push_bit 8 w) (take wordLength input)"

subsection \<open>Words, bit by bit\<close>

lemma below_16: "n < 16 \<Longrightarrow> n \<in> {0, 1, 2, 3, 4, 5, 6, 7, 8, 9, 10, 11, 12, 13, 14, 15 :: nat}"
  by (simp, presburger)

lemma word16_eqI:
  fixes x y :: "16 word"
  assumes "bit x 0 = bit y 0" "bit x 1 = bit y 1" "bit x 2 = bit y 2" "bit x 3 = bit y 3"
    "bit x 4 = bit y 4" "bit x 5 = bit y 5" "bit x 6 = bit y 6" "bit x 7 = bit y 7"
    "bit x 8 = bit y 8" "bit x 9 = bit y 9" "bit x 10 = bit y 10" "bit x 11 = bit y 11"
    "bit x 12 = bit y 12" "bit x 13 = bit y 13" "bit x 14 = bit y 14" "bit x 15 = bit y 15"
  shows "x = y"
proof (rule bit_word_eqI)
  fix n assume "n < LENGTH(16)"
  then have "n \<in> {0, 1, 2, 3, 4, 5, 6, 7, 8, 9, 10, 11, 12, 13, 14, 15}"
    using below_16 [of n] by simp
  then show "bit x n = bit y n"
    using assms by (elim insertE emptyE) (simp_all only:)
qed

lemma bit_below_power:
  fixes x :: "'a::len word"
  assumes "x < 2 ^ k" "k \<le> n"
  shows "\<not> bit x n"
proof
  assume bit: "bit x n"
  then have n: "n < LENGTH('a)" by (rule bit_imp_le_length)
  have "unat (2 ^ k :: 'a word) = 2 ^ k mod 2 ^ LENGTH('a)"
    using unat_of_nat [of "2 ^ k", where 'a = 'a] by simp
  then have "unat x < 2 ^ k"
    using assms(1) mod_less_eq_dividend [of "2 ^ k" "2 ^ LENGTH('a) :: nat"]
    unfolding word_less_nat_alt by linarith
  then have "unat x < 2 ^ n" using assms(2) by (meson less_le_trans one_le_numeral power_increasing)
  then have "\<not> bit (unat x) n" by (simp add: bit_iff_odd)
  then show False using bit by (simp add: bit_unsigned_iff)
qed

subsection \<open>The parameters that fit their fields\<close>

definition fits :: "nat list \<Rightarrow> 16 word list \<Rightarrow> bool" where
  "fits ks xs \<longleftrightarrow> list_all2 (\<lambda>k x. x < 2 ^ k) ks (take (length ks) xs)"

definition lsf_widths :: "int \<Rightarrow> nat list" where
  "lsf_widths mode = (if mode = 20 then [6, 7, 7] else [6, 7, 7, 6, 7, 7])"

definition cb_widths :: "int \<Rightarrow> nat list" where
  "cb_widths mode = (if mode = 20 then [7, 7, 7, 8, 7, 7, 8, 8, 8]
     else [7, 7, 7, 8, 7, 7, 8, 8, 8, 8, 8, 8, 8, 8, 8])"

definition gain_widths :: "int \<Rightarrow> nat list" where
  "gain_widths mode = (if mode = 20 then [5, 4, 3, 5, 4, 3, 5, 4, 3]
     else [5, 4, 3, 5, 4, 3, 5, 4, 3, 5, 4, 3, 5, 4, 3])"

definition state_len :: "int \<Rightarrow> nat" where
  "state_len mode = (if mode = 20 then 57 else 58)"

definition bits_ok :: "int \<Rightarrow> iLBC_bits \<Rightarrow> bool" where
  "bits_ok mode b \<longleftrightarrow> length (lsf b) = 6 \<and> length (cb_index b) = 15 \<and> length (gain_index b) = 15 \<and>
     length (idxVec b) = 58 \<and> fits (lsf_widths mode) (lsf b) \<and> fits (cb_widths mode) (cb_index b) \<and>
     fits (gain_widths mode) (gain_index b) \<and> fits (replicate (state_len mode) 3) (idxVec b) \<and>
     idxForMax b < 64 \<and> state_first b < 2 \<and> startIdx b < (if mode = 20 then 4 else 8)"

lemma fits_bit:
  assumes "fits ks xs" "i < length ks" "ks ! i \<le> n"
  shows "bit (xs ! i) n = False"
proof -
  have "length (take (length ks) xs) = length ks" "take (length ks) xs ! i < 2 ^ (ks ! i)"
    using assms by (auto simp: fits_def list_all2_conv_all_nth)
  then have "xs ! i < 2 ^ (ks ! i)" using assms(2) by simp
  with assms(3) show ?thesis using bit_below_power by blast
qed

lemma take_nths: "n \<le> length xs \<Longrightarrow> take n xs = map (\<lambda>i. xs ! i) [0..<n]"
  by (simp add: list_eq_iff_nth_eq)

lemma ucast_eq_iff:
  assumes "y < 2 ^ k" "k \<le> 16"
  shows "(ucast (x :: 16 word) :: 64 word) = y \<longleftrightarrow> x = u16of y"
proof
  assume "ucast x = y"
  then have "y = ucast x" by simp
  then show "x = u16of y" by (auto intro!: bit_word_eqI simp: bit_simps)
next
  assume x: "x = u16of y"
  have "bit y n \<Longrightarrow> n < 16" for n
    using bit_below_power [OF assms(1), of n] assms(2) by linarith
  then show "ucast x = y" unfolding x by (auto intro!: bit_word_eqI simp: bit_simps)
qed

subsection \<open>The loops over the state indices\<close>

lemma and_4: "drop_bit 2 (v AND 0x4) = (of_bool (bit v 2) :: 16 word)"
  by (rule word16_eqI) (simp_all add: bit_simps)

lemma and_3: "v AND 0x3 = (of_bool (bit v 0) OR push_bit 1 (of_bool (bit v 1)) :: 16 word)"
  by (rule word16_eqI) (simp_all add: bit_simps)

lemma bit_pack_class2:
  "bit (pack_class2 vs is w) n \<longleftrightarrow>
     bit w n \<or> n < 16 \<and> (\<exists>j < min (length vs) (length is). is ! j = n \<and> bit (vs ! j) 2)"
proof (induction vs "is" w rule: pack_class2.induct)
  case (1 v vs i "is" w)
  have "bit (w OR push_bit i (drop_bit 2 (v AND 0x4))) n \<longleftrightarrow> bit w n \<or> n < 16 \<and> i = n \<and> bit v 2"
    unfolding and_4 by (auto simp: bit_or_iff bit_push_bit_iff bit_of_bool_iff)
  then show ?case
    unfolding pack_class2.simps(1) 1 by (auto simp: Ex_less_Suc2)
qed simp_all

lemma bit_pack_class3:
  "bit (pack_class3 vs is w) n \<longleftrightarrow>
     bit w n \<or> n < 16 \<and> (\<exists>j < min (length vs) (length is).
       is ! j = n \<and> bit (vs ! j) 0 \<or> Suc (is ! j) = n \<and> bit (vs ! j) 1)"
proof (induction vs "is" w rule: pack_class3.induct)
  case (1 v vs i "is" w)
  have "bit (w OR push_bit i (v AND 0x3)) n \<longleftrightarrow>
      bit w n \<or> n < 16 \<and> (i = n \<and> bit v 0 \<or> Suc i = n \<and> bit v 1)"
    unfolding and_3 by (auto simp: bit_or_iff bit_push_bit_iff bit_of_bool_iff bit_2_iff)
  then show ?case
    unfolding pack_class3.simps(1) 1 by (auto simp: Ex_less_Suc2)
qed simp_all

text \<open>Unpacking recovers the third bit and the two low bits of the indices, and packing what was
  unpacked recovers the word.\<close>

lemma distinct_positions:
  "distinct is \<Longrightarrow> j < length is \<Longrightarrow> k < length is \<Longrightarrow> is ! j = is ! k \<longleftrightarrow> j = k"
  by (rule nth_eq_iff_index_eq)

lemma class2_bits:
  assumes "distinct is" "\<forall>i\<in>set is. i < 16" "length is \<le> length vs" "j < length is"
  shows "bit (pack_class2 vs is 0) (is ! j) = bit (vs ! j) 2"
proof -
  have "is ! j < 16" using assms by simp
  then show ?thesis
    using assms by (auto simp: bit_pack_class2 distinct_positions)
qed

lemma third_bit:
  fixes x v :: "16 word"
  shows "bit x i = bit v 2 \<Longrightarrow> push_bit 2 (drop_bit i x) AND 0x4 = v AND 0x4"
  by (intro word16_eqI) (simp_all add: bit_simps)

lemma low_bits:
  fixes x v :: "16 word"
  shows "bit x i = bit v 0 \<Longrightarrow> bit x (Suc i) = bit v 1 \<Longrightarrow> drop_bit i x AND 0x3 = v AND 0x3"
  by (intro word16_eqI) (simp_all add: bit_simps)

lemma class2_roundtrip:
  assumes "distinct is" "\<forall>i\<in>set is. i < 16" "length is \<le> length vs" "\<forall>i\<in>set is. \<not> bit w i"
  shows "unpack_class2 (pack_class2 vs is 0 OR w) is = map (\<lambda>v. v AND 0x4) (take (length is) vs)"
proof (rule nth_equalityI)
  fix j assume "j < length (unpack_class2 (pack_class2 vs is 0 OR w) is)"
  then have j: "j < length is" by (simp add: unpack_class2_def)
  have "bit (pack_class2 vs is 0 OR w) (is ! j) = bit (vs ! j) 2"
    using class2_bits [OF assms(1-3) j] assms(4) j by (simp add: bit_or_iff)
  from third_bit [OF this]
  show "unpack_class2 (pack_class2 vs is 0 OR w) is ! j = map (\<lambda>v. v AND 0x4) (take (length is) vs) ! j"
    using j assms(3) by (simp only: unpack_class2_def nth_map length_take nth_take min_absorb2)
qed (use assms(3) in \<open>simp add: unpack_class2_def\<close>)

abbreviation class3_positions :: "nat list" where
  "class3_positions \<equiv> [14, 12, 10, 8, 6, 4, 2, 0]"

lemma below_8: "n < 8 \<Longrightarrow> n \<in> {0, 1, 2, 3, 4, 5, 6, 7 :: nat}"
  by (simp, presburger)

lemma class3_position: "j < 8 \<Longrightarrow> class3_positions ! j = 14 - 2 * j"
  by (drule below_8, elim insertE emptyE) simp_all

lemma class3_bits:
  assumes "8 \<le> length vs" "j < 8"
  shows "bit (pack_class3 vs class3_positions 0) (14 - 2 * j) = bit (vs ! j) 0"
    and "bit (pack_class3 vs class3_positions 0) (Suc (14 - 2 * j)) = bit (vs ! j) 1"
proof -
  have len: "min (length vs) (length class3_positions) = 8" using assms(1) by simp
  have pos: "14 - 2 * k = 14 - 2 * j \<longleftrightarrow> k = j" "Suc (14 - 2 * k) \<noteq> 14 - 2 * j"
    "14 - 2 * k \<noteq> Suc (14 - 2 * j)" if "k < 8" for k
    using that assms(2) by presburger+
  have only: "(\<exists>k<8. class3_positions ! k = 14 - 2 * j \<and> P k \<or> Suc (class3_positions ! k) = 14 - 2 * j \<and> Q k)
      \<longleftrightarrow> P j"
    "(\<exists>k<8. class3_positions ! k = Suc (14 - 2 * j) \<and> P k \<or>
        Suc (class3_positions ! k) = Suc (14 - 2 * j) \<and> Q k) \<longleftrightarrow> Q j" for P Q
    using assms(2) by (auto simp only: class3_position pos nat.inject cong: conj_cong)
  have lt: "14 - 2 * j < 16" "Suc (14 - 2 * j) < 16" by linarith+
  show "bit (pack_class3 vs class3_positions 0) (14 - 2 * j) = bit (vs ! j) 0"
    and "bit (pack_class3 vs class3_positions 0) (Suc (14 - 2 * j)) = bit (vs ! j) 1"
    unfolding bit_pack_class3 len only by (simp_all only: lt bit_0_eq bot_apply bot_bool_def simp_thms)
qed

lemma class3_roundtrip:
  assumes "8 \<le> length vs"
  shows "unpack_class3 (pack_class3 vs class3_positions 0) class3_positions = map (\<lambda>v. v AND 0x3) (take 8 vs)"
proof (rule nth_equalityI)
  fix j assume "j < length (unpack_class3 (pack_class3 vs class3_positions 0) class3_positions)"
  then have j: "j < 8" by (simp add: unpack_class3_def)
  have "drop_bit (class3_positions ! j) (pack_class3 vs class3_positions 0) AND 0x3 = vs ! j AND 0x3"
    unfolding class3_position [OF j] by (rule low_bits) (fact class3_bits [OF assms j])+
  then show "unpack_class3 (pack_class3 vs class3_positions 0) class3_positions ! j =
      map (\<lambda>v. v AND 0x3) (take 8 vs) ! j"
    unfolding unpack_class3_def using j assms
    by (subst nth_map) (simp_all del: nth_Cons_numeral nth_Cons_0)
qed (use assms in \<open>simp add: unpack_class3_def\<close>)

lemma three_bits:
  fixes v :: "16 word"
  assumes "v < 2 ^ 3"
  shows "(v AND 0x4) OR (v AND 0x3) = v"
  using bit_below_power [OF assms] by (intro word16_eqI) (simp_all add: bit_simps)

lemma class23_join:
  assumes "\<forall>v\<in>set vs. v < 2 ^ 3"
  shows "map2 (OR) (map (\<lambda>v. v AND 0x4) vs) (map (\<lambda>v. v AND 0x3) vs) = (vs :: 16 word list)"
  using assms three_bits by (induction vs) auto

subsection \<open>Unpacking what was packed\<close>

lemma fits_small: "fits (replicate n 3) xs \<Longrightarrow> \<forall>v\<in>set (take n xs). v < 2 ^ 3"
  by (auto simp: fits_def list_all2_conv_all_nth set_conv_nth)

lemma bit_pack_class2_other: "n \<notin> set is \<Longrightarrow> bit (pack_class2 vs is 0) n = False"
  by (auto simp: bit_pack_class2 in_set_conv_nth)

lemma take_57: "take 16 xs @ take 16 (drop 16 xs) @ take 16 (drop 32 xs) @ take 9 (drop 48 xs) = take 57 xs"
  and take_58: "take 16 xs @ take 16 (drop 16 xs) @ take 16 (drop 32 xs) @ take 10 (drop 48 xs) = take 58 xs"
  using take_add [of 16 16 xs] take_add [of 32 16 xs] take_add [of 48 9 xs] take_add [of 48 10 xs]
  by simp_all

lemma take_56: "take 8 xs @ take 8 (drop 8 xs) @ take 8 (drop 16 xs) @ take 8 (drop 24 xs) @
    take 8 (drop 32 xs) @ take 8 (drop 40 xs) @ take 8 (drop 48 xs) @ ys = take 56 xs @ ys"
  using take_add [of 8 8 xs] take_add [of 16 8 xs] take_add [of 24 8 xs] take_add [of 32 8 xs]
    take_add [of 40 8 xs] take_add [of 48 8 xs]
  by simp

lemmas words_20 = word1_def word2_20_def word3_20_def word7_20_def word15_20_def word16_20_def word17_20_def
  word18_20_def word19_20_def

lemma pack_20_nth:
  "pack_20 b ! 0 = word1 b"
  "pack_20 b ! 1 = word2_20 b"
  "pack_20 b ! 2 = word3_20 b"
  "pack_20 b ! 3 = pack_class2 (drop 0 (idxVec b)) (rev [0..<16]) 0"
  "pack_20 b ! 4 = pack_class2 (drop 16 (idxVec b)) (rev [0..<16]) 0"
  "pack_20 b ! 5 = pack_class2 (drop 32 (idxVec b)) (rev [0..<16]) 0"
  "pack_20 b ! 6 = word7_20 b"
  "pack_20 b ! 7 = pack_class3 (drop 0 (idxVec b)) [14, 12, 10, 8, 6, 4, 2, 0] 0"
  "pack_20 b ! 8 = pack_class3 (drop 8 (idxVec b)) [14, 12, 10, 8, 6, 4, 2, 0] 0"
  "pack_20 b ! 9 = pack_class3 (drop 16 (idxVec b)) [14, 12, 10, 8, 6, 4, 2, 0] 0"
  "pack_20 b ! 10 = pack_class3 (drop 24 (idxVec b)) [14, 12, 10, 8, 6, 4, 2, 0] 0"
  "pack_20 b ! 11 = pack_class3 (drop 32 (idxVec b)) [14, 12, 10, 8, 6, 4, 2, 0] 0"
  "pack_20 b ! 12 = pack_class3 (drop 40 (idxVec b)) [14, 12, 10, 8, 6, 4, 2, 0] 0"
  "pack_20 b ! 13 = pack_class3 (drop 48 (idxVec b)) [14, 12, 10, 8, 6, 4, 2, 0] 0"
  "pack_20 b ! 14 = word15_20 b"
  "pack_20 b ! 15 = word16_20 b"
  "pack_20 b ! 16 = word17_20 b"
  "pack_20 b ! 17 = word18_20 b"
  "pack_20 b ! 18 = word19_20 b"
  by (simp_all add: pack_20_def)

lemma unpack_20_select:
  "lsf (unpack_20 ws b) = unpack_lsf_20 ws @ drop 3 (lsf b)"
  "cb_index (unpack_20 ws b) = unpack_cb_index_20 ws @ drop 9 (cb_index b)"
  "gain_index (unpack_20 ws b) = unpack_gain_index_20 ws @ drop 9 (gain_index b)"
  "idxVec (unpack_20 ws b) = unpack_idxVec_20 ws @ drop 57 (idxVec b)"
  "idxForMax (unpack_20 ws b) = ucast (drop_bit 3 (ws ! 1) AND 0x3F)"
  "state_first (unpack_20 ws b) = drop_bit 9 (ws ! 1) AND 0x1"
  "startIdx (unpack_20 ws b) = ucast (drop_bit 10 (ws ! 1) AND 0x3)"
  "firstbits (unpack_20 ws b) = firstbits b"
  by (simp_all add: unpack_20_def)

lemma unpack_lists_20:
  assumes ok: "bits_ok 20 b"
  shows "unpack_lsf_20 (pack_20 b) = take 3 (lsf b)"
    "unpack_cb_index_20 (pack_20 b) = take 9 (cb_index b)"
    "unpack_gain_index_20 (pack_20 b) = take 9 (gain_index b)"
    "idxForMax (unpack_20 (pack_20 b) b0) = idxForMax b"
    "state_first (unpack_20 (pack_20 b) b0) = state_first b"
    "startIdx (unpack_20 (pack_20 b) b0) = startIdx b"
proof -
  have fits: "fits [6, 7, 7] (lsf b)"
    "fits [7, 7, 7, 8, 7, 7, 8, 8, 8] (cb_index b)"
    "fits [5, 4, 3, 5, 4, 3, 5, 4, 3] (gain_index b)"
    and small: "state_first b < 2 ^ 1" "idxForMax b < 2 ^ 6" "startIdx b < 2 ^ 2"
    using ok by (simp_all add: bits_ok_def lsf_widths_def cb_widths_def gain_widths_def)
  have len: "3 \<le> length (lsf b)" "9 \<le> length (cb_index b)" "9 \<le> length (gain_index b)"
    using ok by (simp_all add: bits_ok_def)
  note zero = fits [THEN fits_bit] small [THEN bit_below_power] bit_pack_class2_other
  have "take 3 (lsf b) = [lsf b ! 0, lsf b ! 1, lsf b ! 2]"
    using len by (subst take_nths) (simp_all add: upt_rec numeral_eq_Suc)
  then show "unpack_lsf_20 (pack_20 b) = take 3 (lsf b)"
    unfolding unpack_lsf_20_def pack_20_nth
    by (simp only: list.inject) (intro conjI word16_eqI refl; simp add: words_20 bit_simps zero del: push_bit_Suc flip: numeral_2_eq_2)
  have "take 9 (cb_index b) = [cb_index b ! 0, cb_index b ! 1, cb_index b ! 2, cb_index b ! 3, cb_index
      b ! 4, cb_index b ! 5, cb_index b ! 6, cb_index b ! 7, cb_index b ! 8]"
    using len by (subst take_nths) (simp_all add: upt_rec numeral_eq_Suc)
  then show "unpack_cb_index_20 (pack_20 b) = take 9 (cb_index b)"
    unfolding unpack_cb_index_20_def pack_20_nth
    by (simp only: list.inject) (intro conjI word16_eqI refl; simp add: words_20 bit_simps zero del: push_bit_Suc flip: numeral_2_eq_2)
  have "take 9 (gain_index b) = [gain_index b ! 0, gain_index b ! 1, gain_index b ! 2, gain_index b !
      3, gain_index b ! 4, gain_index b ! 5, gain_index b ! 6, gain_index b ! 7, gain_index b !
      8]"
    using len by (subst take_nths) (simp_all add: upt_rec numeral_eq_Suc)
  then show "unpack_gain_index_20 (pack_20 b) = take 9 (gain_index b)"
    unfolding unpack_gain_index_20_def pack_20_nth
    by (simp only: list.inject) (intro conjI word16_eqI refl; simp add: words_20 bit_simps zero del: push_bit_Suc flip: numeral_2_eq_2)
  show "idxForMax (unpack_20 (pack_20 b) b0) = idxForMax b"
    unfolding unpack_20_select pack_20_nth ucast_eq_iff [OF small(2), simplified]
    by (rule word16_eqI; simp add: words_20 bit_simps zero del: push_bit_Suc flip: numeral_2_eq_2)
  show "state_first (unpack_20 (pack_20 b) b0) = state_first b"
    unfolding unpack_20_select pack_20_nth
    by (rule word16_eqI; simp add: words_20 bit_simps zero del: push_bit_Suc flip: numeral_2_eq_2)
  show "startIdx (unpack_20 (pack_20 b) b0) = startIdx b"
    unfolding unpack_20_select pack_20_nth ucast_eq_iff [OF small(3), simplified]
    by (rule word16_eqI; simp add: words_20 bit_simps zero del: push_bit_Suc flip: numeral_2_eq_2)
qed

lemmas words_30 = word1_def word2_30_def word3_30_def word4_30_def word8_30_def word9_30_def word10_30_def
  word18_30_def word19_30_def word20_30_def word21_30_def word22_30_def word23_30_def
  word24_30_def word25_30_def

lemma pack_30_nth:
  "pack_30 b ! 0 = word1 b"
  "pack_30 b ! 1 = word2_30 b"
  "pack_30 b ! 2 = word3_30 b"
  "pack_30 b ! 3 = word4_30 b"
  "pack_30 b ! 4 = pack_class2 (drop 0 (idxVec b)) (rev [0..<16]) 0"
  "pack_30 b ! 5 = pack_class2 (drop 16 (idxVec b)) (rev [0..<16]) 0"
  "pack_30 b ! 6 = pack_class2 (drop 32 (idxVec b)) (rev [0..<16]) 0"
  "pack_30 b ! 7 = word8_30 b"
  "pack_30 b ! 8 = word9_30 b"
  "pack_30 b ! 9 = word10_30 b"
  "pack_30 b ! 10 = pack_class3 (drop 0 (idxVec b)) [14, 12, 10, 8, 6, 4, 2, 0] 0"
  "pack_30 b ! 11 = pack_class3 (drop 8 (idxVec b)) [14, 12, 10, 8, 6, 4, 2, 0] 0"
  "pack_30 b ! 12 = pack_class3 (drop 16 (idxVec b)) [14, 12, 10, 8, 6, 4, 2, 0] 0"
  "pack_30 b ! 13 = pack_class3 (drop 24 (idxVec b)) [14, 12, 10, 8, 6, 4, 2, 0] 0"
  "pack_30 b ! 14 = pack_class3 (drop 32 (idxVec b)) [14, 12, 10, 8, 6, 4, 2, 0] 0"
  "pack_30 b ! 15 = pack_class3 (drop 40 (idxVec b)) [14, 12, 10, 8, 6, 4, 2, 0] 0"
  "pack_30 b ! 16 = pack_class3 (drop 48 (idxVec b)) [14, 12, 10, 8, 6, 4, 2, 0] 0"
  "pack_30 b ! 17 = word18_30 b"
  "pack_30 b ! 18 = word19_30 b"
  "pack_30 b ! 19 = word20_30 b"
  "pack_30 b ! 20 = word21_30 b"
  "pack_30 b ! 21 = word22_30 b"
  "pack_30 b ! 22 = word23_30 b"
  "pack_30 b ! 23 = word24_30 b"
  "pack_30 b ! 24 = word25_30 b"
  by (simp_all add: pack_30_def)

lemma unpack_30_select:
  "lsf (unpack_30 ws b) = unpack_lsf_30 ws @ drop 6 (lsf b)"
  "cb_index (unpack_30 ws b) = unpack_cb_index_30 ws @ drop 15 (cb_index b)"
  "gain_index (unpack_30 ws b) = unpack_gain_index_30 ws @ drop 15 (gain_index b)"
  "idxVec (unpack_30 ws b) = unpack_idxVec_30 ws @ drop 58 (idxVec b)"
  "idxForMax (unpack_30 ws b) = ucast ((push_bit 2 (ws ! 2) AND 0x3C) OR (drop_bit 14 (ws ! 3) AND 0x3))"
  "state_first (unpack_30 ws b) = drop_bit 4 (ws ! 2) AND 0x1"
  "startIdx (unpack_30 ws b) = ucast (drop_bit 5 (ws ! 2) AND 0x7)"
  "firstbits (unpack_30 ws b) = firstbits b"
  by (simp_all add: unpack_30_def)

lemma unpack_lists_30:
  assumes ok: "bits_ok 30 b"
  shows "unpack_lsf_30 (pack_30 b) = take 6 (lsf b)"
    "unpack_cb_index_30 (pack_30 b) = take 15 (cb_index b)"
    "unpack_gain_index_30 (pack_30 b) = take 15 (gain_index b)"
    "idxForMax (unpack_30 (pack_30 b) b0) = idxForMax b"
    "state_first (unpack_30 (pack_30 b) b0) = state_first b"
    "startIdx (unpack_30 (pack_30 b) b0) = startIdx b"
proof -
  have fits: "fits [6, 7, 7, 6, 7, 7] (lsf b)"
    "fits [7, 7, 7, 8, 7, 7, 8, 8, 8, 8, 8, 8, 8, 8, 8] (cb_index b)"
    "fits [5, 4, 3, 5, 4, 3, 5, 4, 3, 5, 4, 3, 5, 4, 3] (gain_index b)"
    and small: "state_first b < 2 ^ 1" "idxForMax b < 2 ^ 6" "startIdx b < 2 ^ 3"
    using ok by (simp_all add: bits_ok_def lsf_widths_def cb_widths_def gain_widths_def)
  have len: "6 \<le> length (lsf b)" "15 \<le> length (cb_index b)" "15 \<le> length (gain_index b)"
    using ok by (simp_all add: bits_ok_def)
  note zero = fits [THEN fits_bit] small [THEN bit_below_power] bit_pack_class2_other
  have "take 6 (lsf b) = [lsf b ! 0, lsf b ! 1, lsf b ! 2, lsf b ! 3, lsf b ! 4, lsf b ! 5]"
    using len by (subst take_nths) (simp_all add: upt_rec numeral_eq_Suc)
  then show "unpack_lsf_30 (pack_30 b) = take 6 (lsf b)"
    unfolding unpack_lsf_30_def pack_30_nth
    by (simp only: list.inject) (intro conjI word16_eqI refl; simp add: words_30 bit_simps zero del: push_bit_Suc flip: numeral_2_eq_2)
  have "take 15 (cb_index b) = [cb_index b ! 0, cb_index b ! 1, cb_index b ! 2, cb_index b ! 3,
      cb_index b ! 4, cb_index b ! 5, cb_index b ! 6, cb_index b ! 7, cb_index b ! 8, cb_index b
      ! 9, cb_index b ! 10, cb_index b ! 11, cb_index b ! 12, cb_index b ! 13, cb_index b ! 14]"
    using len by (subst take_nths) (simp_all add: upt_rec numeral_eq_Suc)
  then show "unpack_cb_index_30 (pack_30 b) = take 15 (cb_index b)"
    unfolding unpack_cb_index_30_def pack_30_nth
    by (simp only: list.inject) (intro conjI word16_eqI refl; simp add: words_30 bit_simps zero del: push_bit_Suc flip: numeral_2_eq_2)
  have "take 15 (gain_index b) = [gain_index b ! 0, gain_index b ! 1, gain_index b ! 2, gain_index b !
      3, gain_index b ! 4, gain_index b ! 5, gain_index b ! 6, gain_index b ! 7, gain_index b !
      8, gain_index b ! 9, gain_index b ! 10, gain_index b ! 11, gain_index b ! 12, gain_index b
      ! 13, gain_index b ! 14]"
    using len by (subst take_nths) (simp_all add: upt_rec numeral_eq_Suc)
  then show "unpack_gain_index_30 (pack_30 b) = take 15 (gain_index b)"
    unfolding unpack_gain_index_30_def pack_30_nth
    by (simp only: list.inject) (intro conjI word16_eqI refl; simp add: words_30 bit_simps zero del: push_bit_Suc flip: numeral_2_eq_2)
  show "idxForMax (unpack_30 (pack_30 b) b0) = idxForMax b"
    unfolding unpack_30_select pack_30_nth ucast_eq_iff [OF small(2), simplified]
    by (rule word16_eqI; simp add: words_30 bit_simps zero del: push_bit_Suc flip: numeral_2_eq_2)
  show "state_first (unpack_30 (pack_30 b) b0) = state_first b"
    unfolding unpack_30_select pack_30_nth
    by (rule word16_eqI; simp add: words_30 bit_simps zero del: push_bit_Suc flip: numeral_2_eq_2)
  show "startIdx (unpack_30 (pack_30 b) b0) = startIdx b"
    unfolding unpack_30_select pack_30_nth ucast_eq_iff [OF small(3), simplified]
    by (rule word16_eqI; simp add: words_30 bit_simps zero del: push_bit_Suc flip: numeral_2_eq_2)
qed

lemma unpack_idxVec_20_pack:
  assumes ok: "bits_ok 20 b"
  shows "unpack_idxVec_20 (pack_20 b) = take 57 (idxVec b)"
proof -
  let ?vs = "idxVec b"
  have len: "length ?vs = 58" and small: "\<forall>v\<in>set (take 57 ?vs). v < 2 ^ 3"
    and cb: "fits [7, 7, 7, 8, 7, 7, 8, 8, 8] (cb_index b)"
    using ok fits_small [of 57 ?vs] by (simp_all add: bits_ok_def state_len_def cb_widths_def)
  note zero = fits_bit [OF cb]
  have full: "unpack_class2 (pack_class2 (drop n ?vs) (rev [0..<16]) 0) (rev [0..<16]) =
      map (\<lambda>v. v AND 0x4) (take 16 (drop n ?vs))" if "n \<le> 32" for n
    using class2_roundtrip [of "rev [0..<16]" "drop n ?vs" 0] that len by simp
  have part: "unpack_class2 (word7_20 b) (rev [7..<16]) = map (\<lambda>v. v AND 0x4) (take 9 (drop 48 ?vs))"
    unfolding word7_20_def using len
    by (subst class2_roundtrip) (simp_all add: bit_simps del: push_bit_Suc flip: numeral_2_eq_2)
  have c3: "unpack_class3 (pack_class3 (drop n ?vs) class3_positions 0) class3_positions =
      map (\<lambda>v. v AND 0x3) (take 8 (drop n ?vs))" if "n \<le> 48" for n
    using that len by (intro class3_roundtrip) simp
  have last: "[drop_bit 14 (word15_20 b) AND 0x3] = map (\<lambda>v. v AND 0x3) (drop 56 (take 57 ?vs))"
  proof -
    have "drop 56 (take 57 ?vs) = [?vs ! 56]"
      using len by (auto simp: list_eq_iff_nth_eq less_Suc_eq numeral_eq_Suc)
    moreover have "drop_bit 14 (word15_20 b) AND 0x3 = ?vs ! 56 AND 0x3"
      by (rule low_bits; simp add: word15_20_def bit_simps zero del: push_bit_Suc flip: numeral_2_eq_2)+
    ultimately show ?thesis by simp
  qed
  have join: "take 56 ?vs @ drop 56 (take 57 ?vs) = take 57 ?vs"
    using append_take_drop_id [of 56 "take 57 ?vs"] by simp
  have "unpack_idxVec_20 (pack_20 b) =
      map2 (OR) (map (\<lambda>v. v AND 0x4) (take 57 ?vs)) (map (\<lambda>v. v AND 0x3) (take 57 ?vs))"
    unfolding unpack_idxVec_20_def pack_20_nth part last
    by (simp only: full full [of 0, unfolded drop_0, OF le0] c3 c3 [of 0, unfolded drop_0, OF le0] drop_0
        map_append [symmetric] take_57 take_56 join order_refl numeral_le_iff semiring_norm)
  then show ?thesis using class23_join [OF small] by simp
qed

lemma unpack_idxVec_30_pack:
  assumes ok: "bits_ok 30 b"
  shows "unpack_idxVec_30 (pack_30 b) = take 58 (idxVec b)"
proof -
  let ?vs = "idxVec b"
  have len: "length ?vs = 58" and small: "\<forall>v\<in>set (take 58 ?vs). v < 2 ^ 3"
    and cb: "fits [7, 7, 7, 8, 7, 7, 8, 8, 8, 8, 8, 8, 8, 8, 8] (cb_index b)"
    using ok fits_small [of 58 ?vs] by (simp_all add: bits_ok_def state_len_def cb_widths_def)
  note zero = fits_bit [OF cb]
  have full: "unpack_class2 (pack_class2 (drop n ?vs) (rev [0..<16]) 0) (rev [0..<16]) =
      map (\<lambda>v. v AND 0x4) (take 16 (drop n ?vs))" if "n \<le> 32" for n
    using class2_roundtrip [of "rev [0..<16]" "drop n ?vs" 0] that len by simp
  have part: "unpack_class2 (word8_30 b) (rev [6..<16]) = map (\<lambda>v. v AND 0x4) (take 10 (drop 48 ?vs))"
    unfolding word8_30_def using len
    by (subst class2_roundtrip) (simp_all add: bit_simps del: push_bit_Suc flip: numeral_2_eq_2)
  have c3: "unpack_class3 (pack_class3 (drop n ?vs) class3_positions 0) class3_positions =
      map (\<lambda>v. v AND 0x3) (take 8 (drop n ?vs))" if "n \<le> 48" for n
    using that len by (intro class3_roundtrip) simp
  have last: "[drop_bit 14 (word18_30 b) AND 0x3, drop_bit 12 (word18_30 b) AND 0x3] = map (\<lambda>v. v AND 0x3) (drop 56 (take 58 ?vs))"
  proof -
    have "drop 56 (take 58 ?vs) = [?vs ! 56, ?vs ! 57]"
      using len by (auto simp: list_eq_iff_nth_eq less_Suc_eq numeral_eq_Suc)
    moreover have "drop_bit 14 (word18_30 b) AND 0x3 = ?vs ! 56 AND 0x3"
      "drop_bit 12 (word18_30 b) AND 0x3 = ?vs ! 57 AND 0x3"
      by (rule low_bits; simp add: word18_30_def bit_simps zero del: push_bit_Suc flip: numeral_2_eq_2)+
    ultimately show ?thesis by simp
  qed
  have join: "take 56 ?vs @ drop 56 (take 58 ?vs) = take 58 ?vs"
    using append_take_drop_id [of 56 "take 58 ?vs"] by simp
  have "unpack_idxVec_30 (pack_30 b) =
      map2 (OR) (map (\<lambda>v. v AND 0x4) (take 58 ?vs)) (map (\<lambda>v. v AND 0x3) (take 58 ?vs))"
    unfolding unpack_idxVec_30_def pack_30_nth part last
    by (simp only: full full [of 0, unfolded drop_0, OF le0] c3 c3 [of 0, unfolded drop_0, OF le0] drop_0
        map_append [symmetric] take_58 take_56 join order_refl numeral_le_iff semiring_norm)
  then show ?thesis using class23_join [OF small] by simp
qed

subsection \<open>Packing what was unpacked\<close>

lemma pack_class2_and: "pack_class2 (map (\<lambda>v. v AND 0x4) vs) is w = pack_class2 vs is w"
  by (induction vs "is" w rule: pack_class2.induct) simp_all

lemma pack_class3_and: "pack_class3 (map (\<lambda>v. v AND 0x3) vs) is w = pack_class3 vs is w"
  by (induction vs "is" w rule: pack_class3.induct) simp_all

lemma class2_inverse:
  assumes "m \<le> 16"
  shows "pack_class2 (unpack_class2 w (rev [m..<16]) @ rest) (rev [m..<16]) 0 = push_bit m (drop_bit m w)"
proof (rule bit_word_eqI)
  fix n assume "n < LENGTH(16)"
  then have n: "n < 16" by simp
  let ?is = "rev [m..<16]"
  have val: "bit ((unpack_class2 w ?is @ rest) ! j) 2 = bit w (?is ! j)" if "j < length ?is" for j
    using that by (simp add: unpack_class2_def nth_append bit_simps)
  have "bit (pack_class2 (unpack_class2 w ?is @ rest) ?is 0) n \<longleftrightarrow>
      (\<exists>j < length ?is. ?is ! j = n \<and> bit ((unpack_class2 w ?is @ rest) ! j) 2)"
    using n by (simp add: bit_pack_class2 unpack_class2_def)
  also have "\<dots> \<longleftrightarrow> (\<exists>j < length ?is. ?is ! j = n \<and> bit w n)"
    using val by auto
  also have "\<dots> \<longleftrightarrow> n \<in> set ?is \<and> bit w n"
    by (auto simp only: in_set_conv_nth)
  also have "\<dots> \<longleftrightarrow> bit (push_bit m (drop_bit m w)) n"
    using n by (auto simp: bit_simps)
  finally show "bit (pack_class2 (unpack_class2 w ?is @ rest) ?is 0) n = bit (push_bit m (drop_bit m w)) n" .
qed

lemma class3_inverse:
  "pack_class3 (unpack_class3 w class3_positions @ rest) class3_positions 0 = w"
proof -
  let ?vs = "unpack_class3 w class3_positions @ rest"
  have len: "8 \<le> length ?vs" by (simp add: unpack_class3_def)
  have "bit (pack_class3 ?vs class3_positions 0) (14 - 2 * j) = bit w (14 - 2 * j) \<and>
      bit (pack_class3 ?vs class3_positions 0) (Suc (14 - 2 * j)) = bit w (Suc (14 - 2 * j))"
    if j: "j < 8" for j
  proof -
    have "?vs ! j = drop_bit (14 - 2 * j) w AND 0x3"
      using below_8 [OF j] by (elim insertE emptyE) (simp_all add: unpack_class3_def)
    then show ?thesis
      unfolding class3_bits [OF len j] by (simp add: bit_simps)
  qed
  from this [of 0] this [of 1] this [of 2] this [of 3] this [of 4] this [of 5] this [of 6] this [of 7]
  show ?thesis by (intro word16_eqI) simp_all
qed

lemma class_bits_disjoint:
  "v \<in> set (unpack_class2 w is) \<Longrightarrow> v AND 0x4 = v \<and> v AND 0x3 = 0"
  "v \<in> set (unpack_class3 w is) \<Longrightarrow> v AND 0x3 = v \<and> v AND 0x4 = 0"
  by (auto simp: unpack_class2_def unpack_class3_def intro!: word16_eqI simp: bit_simps)

lemma join_and:
  assumes "length c2 = length c3" "\<forall>v\<in>set c2. v AND 0x4 = v \<and> v AND 0x3 = 0"
    and "\<forall>v\<in>set c3. v AND 0x3 = v \<and> v AND 0x4 = (0 :: 16 word)"
  shows "map (\<lambda>v. v AND 0x4) (map2 (OR) c2 c3) = c2 \<and> map (\<lambda>v. v AND 0x3) (map2 (OR) c2 c3) = c3"
  using assms by (induction c2 c3 rule: list_induct2) (simp_all add: bit.conj_disj_distrib2)


text \<open>Frames of the 20 ms mode.\<close>

lemma unpack_idxVec_20_and:
  "map (\<lambda>v. v AND 0x4) (unpack_idxVec_20 ws) =
     unpack_class2 (ws ! 3) (rev [0..<16]) @
      unpack_class2 (ws ! 4) (rev [0..<16]) @
      unpack_class2 (ws ! 5) (rev [0..<16]) @
      unpack_class2 (ws ! 6) (rev [7..<16])"
  "map (\<lambda>v. v AND 0x3) (unpack_idxVec_20 ws) =
     unpack_class3 (ws ! 7) [14, 12, 10, 8, 6, 4, 2, 0] @
      unpack_class3 (ws ! 8) [14, 12, 10, 8, 6, 4, 2, 0] @
      unpack_class3 (ws ! 9) [14, 12, 10, 8, 6, 4, 2, 0] @
      unpack_class3 (ws ! 10) [14, 12, 10, 8, 6, 4, 2, 0] @
      unpack_class3 (ws ! 11) [14, 12, 10, 8, 6, 4, 2, 0] @
      unpack_class3 (ws ! 12) [14, 12, 10, 8, 6, 4, 2, 0] @
      unpack_class3 (ws ! 13) [14, 12, 10, 8, 6, 4, 2, 0] @
      [drop_bit 14 (ws ! 14) AND 0x3]"
proof -
  let ?c2 = "unpack_class2 (ws ! 3) (rev [0..<16]) @
      unpack_class2 (ws ! 4) (rev [0..<16]) @
      unpack_class2 (ws ! 5) (rev [0..<16]) @
      unpack_class2 (ws ! 6) (rev [7..<16])"
  let ?c3 = "unpack_class3 (ws ! 7) [14, 12, 10, 8, 6, 4, 2, 0] @
      unpack_class3 (ws ! 8) [14, 12, 10, 8, 6, 4, 2, 0] @
      unpack_class3 (ws ! 9) [14, 12, 10, 8, 6, 4, 2, 0] @
      unpack_class3 (ws ! 10) [14, 12, 10, 8, 6, 4, 2, 0] @
      unpack_class3 (ws ! 11) [14, 12, 10, 8, 6, 4, 2, 0] @
      unpack_class3 (ws ! 12) [14, 12, 10, 8, 6, 4, 2, 0] @
      unpack_class3 (ws ! 13) [14, 12, 10, 8, 6, 4, 2, 0] @
      [drop_bit 14 (ws ! 14) AND 0x3]"
  have "length ?c2 = length ?c3" by (simp add: unpack_class2_def unpack_class3_def)
  moreover have "\<forall>v\<in>set ?c2. v AND 0x4 = v \<and> v AND 0x3 = 0"
    by (simp only: set_append ball_Un) (intro conjI ballI; blast dest: class_bits_disjoint)
  moreover have "\<forall>v\<in>set ?c3. v AND 0x3 = v \<and> v AND 0x4 = 0"
    by (simp only: set_append ball_Un) (intro conjI ballI; (blast dest: class_bits_disjoint)?;
      auto intro!: word16_eqI simp: bit_simps)
  ultimately show "map (\<lambda>v. v AND 0x4) (unpack_idxVec_20 ws) = ?c2"
    "map (\<lambda>v. v AND 0x3) (unpack_idxVec_20 ws) = ?c3"
    unfolding unpack_idxVec_20_def using join_and by blast+
qed

lemma repack_loops_20:
  fixes ws b
  defines "vs \<equiv> idxVec (unpack_20 ws b)"
  shows "pack_class2 (drop 0 vs) (rev [0..<16]) 0 = ws ! 3"
    "pack_class2 (drop 16 vs) (rev [0..<16]) 0 = ws ! 4"
    "pack_class2 (drop 32 vs) (rev [0..<16]) 0 = ws ! 5"
    "pack_class2 (drop 48 vs) (rev [7..<16]) 0 = push_bit 7 (drop_bit 7 (ws ! 6))"
    "pack_class3 (drop 0 vs) class3_positions 0 = ws ! 7"
    "pack_class3 (drop 8 vs) class3_positions 0 = ws ! 8"
    "pack_class3 (drop 16 vs) class3_positions 0 = ws ! 9"
    "pack_class3 (drop 24 vs) class3_positions 0 = ws ! 10"
    "pack_class3 (drop 32 vs) class3_positions 0 = ws ! 11"
    "pack_class3 (drop 40 vs) class3_positions 0 = ws ! 12"
    "pack_class3 (drop 48 vs) class3_positions 0 = ws ! 13"
    "vs ! 56 AND 0x3 = drop_bit 14 (ws ! 14) AND 0x3"
proof -
  have two: "map (\<lambda>v. v AND 0x4) vs = (unpack_class2 (ws ! 3) (rev [0..<16]) @
      unpack_class2 (ws ! 4) (rev [0..<16]) @
      unpack_class2 (ws ! 5) (rev [0..<16]) @
      unpack_class2 (ws ! 6) (rev [7..<16])) @
      map (\<lambda>v. v AND 0x4) (drop 57 (idxVec b))"
    unfolding vs_def unpack_20_select by (simp only: map_append unpack_idxVec_20_and)
  have three: "map (\<lambda>v. v AND 0x3) vs = (unpack_class3 (ws ! 7) [14, 12, 10, 8, 6, 4, 2, 0] @
      unpack_class3 (ws ! 8) [14, 12, 10, 8, 6, 4, 2, 0] @
      unpack_class3 (ws ! 9) [14, 12, 10, 8, 6, 4, 2, 0] @
      unpack_class3 (ws ! 10) [14, 12, 10, 8, 6, 4, 2, 0] @
      unpack_class3 (ws ! 11) [14, 12, 10, 8, 6, 4, 2, 0] @
      unpack_class3 (ws ! 12) [14, 12, 10, 8, 6, 4, 2, 0] @
      unpack_class3 (ws ! 13) [14, 12, 10, 8, 6, 4, 2, 0] @
      [drop_bit 14 (ws ! 14) AND 0x3]) @
      map (\<lambda>v. v AND 0x3) (drop 57 (idxVec b))"
    unfolding vs_def unpack_20_select by (simp only: map_append unpack_idxVec_20_and)
  have len: "length (unpack_class2 w is) = length is" "length (unpack_class3 w is) = length is"
    "length class3_positions = 8" for w "is"
    by (simp_all add: unpack_class2_def unpack_class3_def)
  have c2: "pack_class2 (drop k vs) is 0 = pack_class2 (drop k (map (\<lambda>v. v AND 0x4) vs)) is 0" for k "is"
    by (simp only: drop_map pack_class2_and)
  have c3: "pack_class3 (drop k vs) is 0 = pack_class3 (drop k (map (\<lambda>v. v AND 0x3) vs)) is 0" for k "is"
    by (simp only: drop_map pack_class3_and)
  show "pack_class2 (drop 0 vs) (rev [0..<16]) 0 = ws ! 3"
    "pack_class2 (drop 16 vs) (rev [0..<16]) 0 = ws ! 4"
    "pack_class2 (drop 32 vs) (rev [0..<16]) 0 = ws ! 5"
    "pack_class2 (drop 48 vs) (rev [7..<16]) 0 = push_bit 7 (drop_bit 7 (ws ! 6))"
    unfolding c2 two
    by (simp_all add: len class2_inverse del: upt_rec_numeral push_bit_Suc)
  show
    "pack_class3 (drop 0 vs) class3_positions 0 = ws ! 7"
    "pack_class3 (drop 8 vs) class3_positions 0 = ws ! 8"
    "pack_class3 (drop 16 vs) class3_positions 0 = ws ! 9"
    "pack_class3 (drop 24 vs) class3_positions 0 = ws ! 10"
    "pack_class3 (drop 32 vs) class3_positions 0 = ws ! 11"
    "pack_class3 (drop 40 vs) class3_positions 0 = ws ! 12"
    "pack_class3 (drop 48 vs) class3_positions 0 = ws ! 13"
    unfolding c3 three by (simp_all add: len class3_inverse)
  have "vs ! k AND 0x3 = map (\<lambda>v. v AND 0x3) vs ! k" if "k < 57" for k
    using that arg_cong [OF three, of length] by (simp add: len)
  then show
    "vs ! 56 AND 0x3 = drop_bit 14 (ws ! 14) AND 0x3"
    unfolding three by (simp_all add: len nth_append)
qed

lemma repack_words_20:
  fixes ws b
  defines "b' \<equiv> unpack_20 ws b"
  shows "word1 b' = ws ! 0"
    "word2_20 b' = ws ! 1"
    "word3_20 b' = ws ! 2"
    "word16_20 b' = ws ! 15"
    "word17_20 b' = ws ! 16"
    "word18_20 b' = ws ! 17"
    "word7_20 b' = ws ! 6"
    "word15_20 b' = ws ! 14"
    "word19_20 b' = ws ! 18 AND NOT 1"
  unfolding b'_def words_20
  unfolding repack_loops_20
  unfolding unpack_20_select unpack_lsf_20_def unpack_cb_index_20_def unpack_gain_index_20_def
  by (rule word16_eqI; simp add: bit_simps del: push_bit_Suc flip: numeral_2_eq_2)+


text \<open>Frames of the 30 ms mode.\<close>

lemma unpack_idxVec_30_and:
  "map (\<lambda>v. v AND 0x4) (unpack_idxVec_30 ws) =
     unpack_class2 (ws ! 4) (rev [0..<16]) @
      unpack_class2 (ws ! 5) (rev [0..<16]) @
      unpack_class2 (ws ! 6) (rev [0..<16]) @
      unpack_class2 (ws ! 7) (rev [6..<16])"
  "map (\<lambda>v. v AND 0x3) (unpack_idxVec_30 ws) =
     unpack_class3 (ws ! 10) [14, 12, 10, 8, 6, 4, 2, 0] @
      unpack_class3 (ws ! 11) [14, 12, 10, 8, 6, 4, 2, 0] @
      unpack_class3 (ws ! 12) [14, 12, 10, 8, 6, 4, 2, 0] @
      unpack_class3 (ws ! 13) [14, 12, 10, 8, 6, 4, 2, 0] @
      unpack_class3 (ws ! 14) [14, 12, 10, 8, 6, 4, 2, 0] @
      unpack_class3 (ws ! 15) [14, 12, 10, 8, 6, 4, 2, 0] @
      unpack_class3 (ws ! 16) [14, 12, 10, 8, 6, 4, 2, 0] @
      [drop_bit 14 (ws ! 17) AND 0x3, drop_bit 12 (ws ! 17) AND 0x3]"
proof -
  let ?c2 = "unpack_class2 (ws ! 4) (rev [0..<16]) @
      unpack_class2 (ws ! 5) (rev [0..<16]) @
      unpack_class2 (ws ! 6) (rev [0..<16]) @
      unpack_class2 (ws ! 7) (rev [6..<16])"
  let ?c3 = "unpack_class3 (ws ! 10) [14, 12, 10, 8, 6, 4, 2, 0] @
      unpack_class3 (ws ! 11) [14, 12, 10, 8, 6, 4, 2, 0] @
      unpack_class3 (ws ! 12) [14, 12, 10, 8, 6, 4, 2, 0] @
      unpack_class3 (ws ! 13) [14, 12, 10, 8, 6, 4, 2, 0] @
      unpack_class3 (ws ! 14) [14, 12, 10, 8, 6, 4, 2, 0] @
      unpack_class3 (ws ! 15) [14, 12, 10, 8, 6, 4, 2, 0] @
      unpack_class3 (ws ! 16) [14, 12, 10, 8, 6, 4, 2, 0] @
      [drop_bit 14 (ws ! 17) AND 0x3, drop_bit 12 (ws ! 17) AND 0x3]"
  have "length ?c2 = length ?c3" by (simp add: unpack_class2_def unpack_class3_def)
  moreover have "\<forall>v\<in>set ?c2. v AND 0x4 = v \<and> v AND 0x3 = 0"
    by (simp only: set_append ball_Un) (intro conjI ballI; blast dest: class_bits_disjoint)
  moreover have "\<forall>v\<in>set ?c3. v AND 0x3 = v \<and> v AND 0x4 = 0"
    by (simp only: set_append ball_Un) (intro conjI ballI; (blast dest: class_bits_disjoint)?;
      auto intro!: word16_eqI simp: bit_simps)
  ultimately show "map (\<lambda>v. v AND 0x4) (unpack_idxVec_30 ws) = ?c2"
    "map (\<lambda>v. v AND 0x3) (unpack_idxVec_30 ws) = ?c3"
    unfolding unpack_idxVec_30_def using join_and by blast+
qed

lemma repack_loops_30:
  fixes ws b
  defines "vs \<equiv> idxVec (unpack_30 ws b)"
  shows "pack_class2 (drop 0 vs) (rev [0..<16]) 0 = ws ! 4"
    "pack_class2 (drop 16 vs) (rev [0..<16]) 0 = ws ! 5"
    "pack_class2 (drop 32 vs) (rev [0..<16]) 0 = ws ! 6"
    "pack_class2 (drop 48 vs) (rev [6..<16]) 0 = push_bit 6 (drop_bit 6 (ws ! 7))"
    "pack_class3 (drop 0 vs) class3_positions 0 = ws ! 10"
    "pack_class3 (drop 8 vs) class3_positions 0 = ws ! 11"
    "pack_class3 (drop 16 vs) class3_positions 0 = ws ! 12"
    "pack_class3 (drop 24 vs) class3_positions 0 = ws ! 13"
    "pack_class3 (drop 32 vs) class3_positions 0 = ws ! 14"
    "pack_class3 (drop 40 vs) class3_positions 0 = ws ! 15"
    "pack_class3 (drop 48 vs) class3_positions 0 = ws ! 16"
    "vs ! 56 AND 0x3 = drop_bit 14 (ws ! 17) AND 0x3"
    "vs ! 57 AND 0x3 = drop_bit 12 (ws ! 17) AND 0x3"
proof -
  have two: "map (\<lambda>v. v AND 0x4) vs = (unpack_class2 (ws ! 4) (rev [0..<16]) @
      unpack_class2 (ws ! 5) (rev [0..<16]) @
      unpack_class2 (ws ! 6) (rev [0..<16]) @
      unpack_class2 (ws ! 7) (rev [6..<16])) @
      map (\<lambda>v. v AND 0x4) (drop 58 (idxVec b))"
    unfolding vs_def unpack_30_select by (simp only: map_append unpack_idxVec_30_and)
  have three: "map (\<lambda>v. v AND 0x3) vs = (unpack_class3 (ws ! 10) [14, 12, 10, 8, 6, 4, 2, 0] @
      unpack_class3 (ws ! 11) [14, 12, 10, 8, 6, 4, 2, 0] @
      unpack_class3 (ws ! 12) [14, 12, 10, 8, 6, 4, 2, 0] @
      unpack_class3 (ws ! 13) [14, 12, 10, 8, 6, 4, 2, 0] @
      unpack_class3 (ws ! 14) [14, 12, 10, 8, 6, 4, 2, 0] @
      unpack_class3 (ws ! 15) [14, 12, 10, 8, 6, 4, 2, 0] @
      unpack_class3 (ws ! 16) [14, 12, 10, 8, 6, 4, 2, 0] @
      [drop_bit 14 (ws ! 17) AND 0x3, drop_bit 12 (ws ! 17) AND 0x3]) @
      map (\<lambda>v. v AND 0x3) (drop 58 (idxVec b))"
    unfolding vs_def unpack_30_select by (simp only: map_append unpack_idxVec_30_and)
  have len: "length (unpack_class2 w is) = length is" "length (unpack_class3 w is) = length is"
    "length class3_positions = 8" for w "is"
    by (simp_all add: unpack_class2_def unpack_class3_def)
  have c2: "pack_class2 (drop k vs) is 0 = pack_class2 (drop k (map (\<lambda>v. v AND 0x4) vs)) is 0" for k "is"
    by (simp only: drop_map pack_class2_and)
  have c3: "pack_class3 (drop k vs) is 0 = pack_class3 (drop k (map (\<lambda>v. v AND 0x3) vs)) is 0" for k "is"
    by (simp only: drop_map pack_class3_and)
  show "pack_class2 (drop 0 vs) (rev [0..<16]) 0 = ws ! 4"
    "pack_class2 (drop 16 vs) (rev [0..<16]) 0 = ws ! 5"
    "pack_class2 (drop 32 vs) (rev [0..<16]) 0 = ws ! 6"
    "pack_class2 (drop 48 vs) (rev [6..<16]) 0 = push_bit 6 (drop_bit 6 (ws ! 7))"
    unfolding c2 two
    by (simp_all add: len class2_inverse del: upt_rec_numeral push_bit_Suc)
  show
    "pack_class3 (drop 0 vs) class3_positions 0 = ws ! 10"
    "pack_class3 (drop 8 vs) class3_positions 0 = ws ! 11"
    "pack_class3 (drop 16 vs) class3_positions 0 = ws ! 12"
    "pack_class3 (drop 24 vs) class3_positions 0 = ws ! 13"
    "pack_class3 (drop 32 vs) class3_positions 0 = ws ! 14"
    "pack_class3 (drop 40 vs) class3_positions 0 = ws ! 15"
    "pack_class3 (drop 48 vs) class3_positions 0 = ws ! 16"
    unfolding c3 three by (simp_all add: len class3_inverse)
  have "vs ! k AND 0x3 = map (\<lambda>v. v AND 0x3) vs ! k" if "k < 58" for k
    using that arg_cong [OF three, of length] by (simp add: len)
  then show
    "vs ! 56 AND 0x3 = drop_bit 14 (ws ! 17) AND 0x3"
    "vs ! 57 AND 0x3 = drop_bit 12 (ws ! 17) AND 0x3"
    unfolding three by (simp_all add: len nth_append)
qed

lemma repack_words_30:
  fixes ws b
  defines "b' \<equiv> unpack_30 ws b"
  shows "word1 b' = ws ! 0"
    "word2_30 b' = ws ! 1"
    "word3_30 b' = ws ! 2"
    "word4_30 b' = ws ! 3"
    "word9_30 b' = ws ! 8"
    "word10_30 b' = ws ! 9"
    "word19_30 b' = ws ! 18"
    "word20_30 b' = ws ! 19"
    "word21_30 b' = ws ! 20"
    "word22_30 b' = ws ! 21"
    "word23_30 b' = ws ! 22"
    "word24_30 b' = ws ! 23"
    "word8_30 b' = ws ! 7"
    "word18_30 b' = ws ! 17"
    "word25_30 b' = ws ! 24 AND NOT 1"
  unfolding b'_def words_30
  unfolding repack_loops_30
  unfolding unpack_30_select unpack_lsf_30_def unpack_cb_index_30_def unpack_gain_index_30_def
  by (rule word16_eqI; simp add: bit_simps del: push_bit_Suc flip: numeral_2_eq_2)+

subsection \<open>Unpacked parameters fit their fields\<close>

lemma word_lessI:
  fixes x :: "'a::len word"
  assumes "k < LENGTH('a)" "\<And>n. k \<le> n \<Longrightarrow> \<not> bit x n"
  shows "x < 2 ^ k"
proof -
  have "take_bit k x = x"
    using assms(2) by (intro bit_word_eqI) (metis bit_take_bit_iff not_le)
  then have "unat x < 2 ^ k"
    by (metis take_bit_nat_less_exp unsigned_take_bit_eq)
  moreover have "(2 :: nat) ^ k < 2 ^ LENGTH('a)"
    using assms(1) by (intro power_strict_increasing) simp_all
  then have "unat (2 ^ k :: 'a word) = 2 ^ k"
    using unat_of_nat [of "2 ^ k", where 'a = 'a] by simp
  ultimately show ?thesis by (simp add: word_less_nat_alt)
qed

lemma word16_lessI:
  fixes x :: "16 word"
  assumes "k < 16" "\<forall>n\<in>set [k..<16]. \<not> bit x n"
  shows "x < 2 ^ k"
proof (rule word_lessI)
  fix n assume "k \<le> n"
  then show "\<not> bit x n" using assms(2) bit_imp_le_length [of x n] by auto
qed (use assms(1) in simp)

lemma high_bits: "16 \<le> n \<Longrightarrow> bit (x :: 16 word) n = False"
  using bit_imp_le_length [of x n] by auto

lemma widths_20: "lsf_widths 20 = [6, 7, 7]" "cb_widths 20 = [7, 7, 7, 8, 7, 7, 8, 8, 8]"
  "gain_widths 20 = [5, 4, 3, 5, 4, 3, 5, 4, 3]" "state_len 20 = 57"
  by (simp_all add: lsf_widths_def cb_widths_def gain_widths_def state_len_def)

lemma widths_30: "lsf_widths 30 = [6, 7, 7, 6, 7, 7]"
  "cb_widths 30 = [7, 7, 7, 8, 7, 7, 8, 8, 8, 8, 8, 8, 8, 8, 8]"
  "gain_widths 30 = [5, 4, 3, 5, 4, 3, 5, 4, 3, 5, 4, 3, 5, 4, 3]" "state_len 30 = 58"
  by (simp_all add: lsf_widths_def cb_widths_def gain_widths_def state_len_def)

lemma ucast_less:
  assumes "x < 2 ^ k" "k < 16"
  shows "(ucast (x :: 16 word) :: 64 word) < 2 ^ k"
  using bit_below_power [OF assms(1)] assms(2) by (intro word_lessI) (auto simp: bit_simps)

lemma fits_append: "length ys = length ks \<Longrightarrow> fits ks (ys @ zs) \<longleftrightarrow> list_all2 (\<lambda>k x. x < 2 ^ k) ks ys"
  by (simp add: fits_def)

lemma fits_class23:
  assumes "length c2 = n" "length c3 = n" "\<forall>v\<in>set c2. v AND 0x4 = v" "\<forall>v\<in>set c3. v AND 0x3 = v"
  shows "fits (replicate n 3) (map2 (OR) c2 c3 @ zs)"
proof -
  have "v OR u < 2 ^ 3" if "v AND 0x4 = v" "u AND 0x3 = u" for u v :: "16 word"
  proof (rule word16_lessI)
    have "(v AND 0x4) OR (u AND 0x3) = v OR u" using that by simp
    moreover have "\<not> bit ((v AND 0x4) OR (u AND 0x3)) n" if "n \<in> set [3..<16]" for n
      using that by (simp add: bit_simps) (elim disjE; simp)
    ultimately show "\<forall>n\<in>set [3..<16]. \<not> bit (v OR u) n" by simp
  qed simp
  then show ?thesis
    using assms by (subst fits_append) (auto simp: list_all2_conv_all_nth)
qed

lemma unpack_fits_20:
  "fits (lsf_widths 20) (lsf (unpack_20 ws b))"
  "fits (cb_widths 20) (cb_index (unpack_20 ws b))"
  "fits (gain_widths 20) (gain_index (unpack_20 ws b))"
  "fits (replicate (state_len 20) 3) (idxVec (unpack_20 ws b))"
  "idxForMax (unpack_20 ws b) < 2 ^ 6" "state_first (unpack_20 ws b) < 2 ^ 1"
  "startIdx (unpack_20 ws b) < 2 ^ 2"
proof -
  have "list_all2 (\<lambda>k x. x < 2 ^ k) (lsf_widths 20) (unpack_lsf_20 ws)"
    "list_all2 (\<lambda>k x. x < 2 ^ k) (cb_widths 20) (unpack_cb_index_20 ws)"
    "list_all2 (\<lambda>k x. x < 2 ^ k) (gain_widths 20) (unpack_gain_index_20 ws)"
    unfolding widths_20 unpack_lsf_20_def unpack_cb_index_20_def
      unpack_gain_index_20_def
    by (simp_all only: list_all2_Cons list_all2_Nil simp_thms)
      (intro conjI word16_lessI; simp add: bit_simps high_bits del: push_bit_Suc)+
  then show "fits (lsf_widths 20) (lsf (unpack_20 ws b))"
    "fits (cb_widths 20) (cb_index (unpack_20 ws b))"
    "fits (gain_widths 20) (gain_index (unpack_20 ws b))"
    unfolding unpack_20_select by (simp_all add: fits_append list_all2_lengthD)
  show "fits (replicate (state_len 20) 3) (idxVec (unpack_20 ws b))"
    unfolding unpack_20_select unpack_idxVec_20_def widths_20
    by (rule fits_class23) (auto simp: unpack_class2_def unpack_class3_def and.assoc)
  show "idxForMax (unpack_20 ws b) < 2 ^ 6" "startIdx (unpack_20 ws b) < 2 ^ 2"
    unfolding unpack_20_select
    by (rule ucast_less; (rule word16_lessI)?; simp add: bit_simps del: push_bit_Suc)+
  show "state_first (unpack_20 ws b) < 2 ^ 1"
    unfolding unpack_20_select by (rule word16_lessI; simp add: bit_simps)
qed

lemma unpack_fits_30:
  "fits (lsf_widths 30) (lsf (unpack_30 ws b))"
  "fits (cb_widths 30) (cb_index (unpack_30 ws b))"
  "fits (gain_widths 30) (gain_index (unpack_30 ws b))"
  "fits (replicate (state_len 30) 3) (idxVec (unpack_30 ws b))"
  "idxForMax (unpack_30 ws b) < 2 ^ 6" "state_first (unpack_30 ws b) < 2 ^ 1"
  "startIdx (unpack_30 ws b) < 2 ^ 3"
proof -
  have "list_all2 (\<lambda>k x. x < 2 ^ k) (lsf_widths 30) (unpack_lsf_30 ws)"
    "list_all2 (\<lambda>k x. x < 2 ^ k) (cb_widths 30) (unpack_cb_index_30 ws)"
    "list_all2 (\<lambda>k x. x < 2 ^ k) (gain_widths 30) (unpack_gain_index_30 ws)"
    unfolding widths_30 unpack_lsf_30_def unpack_cb_index_30_def
      unpack_gain_index_30_def
    by (simp_all only: list_all2_Cons list_all2_Nil simp_thms)
      (intro conjI word16_lessI; simp add: bit_simps high_bits del: push_bit_Suc)+
  then show "fits (lsf_widths 30) (lsf (unpack_30 ws b))"
    "fits (cb_widths 30) (cb_index (unpack_30 ws b))"
    "fits (gain_widths 30) (gain_index (unpack_30 ws b))"
    unfolding unpack_30_select by (simp_all add: fits_append list_all2_lengthD)
  show "fits (replicate (state_len 30) 3) (idxVec (unpack_30 ws b))"
    unfolding unpack_30_select unpack_idxVec_30_def widths_30
    by (rule fits_class23) (auto simp: unpack_class2_def unpack_class3_def and.assoc)
  show "idxForMax (unpack_30 ws b) < 2 ^ 6" "startIdx (unpack_30 ws b) < 2 ^ 3"
    unfolding unpack_30_select
    by (rule ucast_less; (rule word16_lessI)?; simp add: bit_simps del: push_bit_Suc)+
  show "state_first (unpack_30 ws b) < 2 ^ 1"
    unfolding unpack_30_select by (rule word16_lessI; simp add: bit_simps)
qed

subsection \<open>Property\<close>

definition frame_words :: "int \<Rightarrow> nat" where
  "frame_words mode = (if mode = 20 then 19 else 25)"

text \<open>The parameters transmitted in the mode from one record, the others from another.\<close>

definition merge :: "int \<Rightarrow> iLBC_bits \<Rightarrow> iLBC_bits \<Rightarrow> iLBC_bits" where
  "merge mode b b0 =
     b0\<lparr>lsf := take (length (lsf_widths mode)) (lsf b) @ drop (length (lsf_widths mode)) (lsf b0),
        cb_index := take (length (cb_widths mode)) (cb_index b) @ drop (length (cb_widths mode)) (cb_index b0),
        gain_index := take (length (gain_widths mode)) (gain_index b) @ drop (length (gain_widths mode)) (gain_index b0),
        idxVec := take (state_len mode) (idxVec b) @ drop (state_len mode) (idxVec b0),
        idxForMax := idxForMax b, state_first := state_first b, startIdx := startIdx b\<rparr>"

lemma length_widths:
  "length (lsf_widths 20) = 3" "length (cb_widths 20) = 9" "length (gain_widths 20) = 9"
  "length (lsf_widths 30) = 6" "length (cb_widths 30) = 15" "length (gain_widths 30) = 15"
  by (simp_all add: widths_20 widths_30)

lemma last_word: "length xs = frame_words mode \<Longrightarrow> last xs = xs ! (frame_words mode - 1)"
  by (cases "xs = []") (auto simp: last_conv_nth frame_words_def split: if_splits)

lemma and_one: "w AND 1 = (1 :: 16 word) \<longleftrightarrow> bit w 0"
  by (simp add: and_one_eq bit_0 odd_iff_mod_2_eq_one)

lemma last_bit_zero: "\<not> bit (word19_20 b) 0" "\<not> bit (word25_30 b) 0"
  by (simp_all add: word19_20_def word25_30_def bit_simps del: push_bit_Suc)

lemma unpack_pack:
  assumes "mode = 20 \<or> mode = 30" "bits_ok mode b"
  shows "WebRtcIlbcfix_UnpackBits (WebRtcIlbcfix_PackBits b mode) b0 mode = (merge mode b b0, 0)"
proof -
  have "unpack_20 (pack_20 b) b0 = merge 20 b b0" if "bits_ok 20 b"
    using unpack_lists_20 [OF that] unpack_idxVec_20_pack [OF that]
    by (intro iLBC_bits.equality) (simp_all add: unpack_20_select merge_def length_widths widths_20(4))
  moreover have "unpack_30 (pack_30 b) b0 = merge 30 b b0" if "bits_ok 30 b"
    using unpack_lists_30 [OF that] unpack_idxVec_30_pack [OF that]
    by (intro iLBC_bits.equality) (simp_all add: unpack_30_select merge_def length_widths widths_30(4))
  ultimately show ?thesis
    using assms last_bit_zero [of b]
    by (auto simp: WebRtcIlbcfix_UnpackBits_def WebRtcIlbcfix_PackBits_def pack_20_nth pack_30_nth and_one)
qed

lemma pack_unpack:
  assumes "mode = 20 \<or> mode = 30" "length ws = frame_words mode" "\<not> bit (last ws) 0"
  shows "WebRtcIlbcfix_PackBits (fst (WebRtcIlbcfix_UnpackBits ws b mode)) mode = ws"
proof -
  note last = last_word [OF assms(2)]
  have clear: "w AND NOT 1 = w" if "\<not> bit w 0" for w :: "16 word"
    using that by (intro word16_eqI) (simp_all add: bit_simps)
  have "pack_20 (unpack_20 ws b) = ws" if "mode = 20"
  proof -
    have "\<not> bit (ws ! 18) 0" using assms(3) that last by (simp add: frame_words_def)
    from clear [OF this] have "pack_20 (unpack_20 ws b) = map (\<lambda>k. ws ! k) [0..<19]"
      unfolding pack_20_def repack_words_20 repack_loops_20
      by (simp only:) (simp add: upt_rec numeral_eq_Suc)
    then show ?thesis using assms(2) that map_nth [of ws] by (simp add: frame_words_def)
  qed
  moreover have "pack_30 (unpack_30 ws b) = ws" if "mode = 30"
  proof -
    have "\<not> bit (ws ! 24) 0" using assms(3) that last by (simp add: frame_words_def)
    from clear [OF this] have "pack_30 (unpack_30 ws b) = map (\<lambda>k. ws ! k) [0..<25]"
      unfolding pack_30_def repack_words_30 repack_loops_30
      by (simp only:) (simp add: upt_rec numeral_eq_Suc)
    then show ?thesis using assms(2) that map_nth [of ws] by (simp add: frame_words_def)
  qed
  ultimately show ?thesis
    using assms(1) by (auto simp: WebRtcIlbcfix_UnpackBits_def WebRtcIlbcfix_PackBits_def)
qed

lemma unpack_ok:
  assumes "mode = 20 \<or> mode = 30" "length (lsf b) = 6" "length (cb_index b) = 15"
    "length (gain_index b) = 15" "length (idxVec b) = 58"
  shows "bits_ok mode (fst (WebRtcIlbcfix_UnpackBits ws b mode))"
proof -
  have "bits_ok 20 (unpack_20 ws b)"
    using unpack_fits_20 [of ws b] assms
    by (simp add: bits_ok_def unpack_20_select unpack_lsf_20_def unpack_cb_index_20_def
        unpack_gain_index_20_def unpack_idxVec_20_def unpack_class2_def unpack_class3_def)
  moreover have "bits_ok 30 (unpack_30 ws b)"
    using unpack_fits_30 [of ws b] assms
    by (simp add: bits_ok_def unpack_30_select unpack_lsf_30_def unpack_cb_index_30_def
        unpack_gain_index_30_def unpack_idxVec_30_def unpack_class2_def unpack_class3_def)
  ultimately show ?thesis
    using assms(1) by (auto simp: WebRtcIlbcfix_UnpackBits_def)
qed

lemma swap_swap: "WebRtcIlbcfix_SwapBytes (WebRtcIlbcfix_SwapBytes ws (length ws)) (length ws) = ws"
proof -
  have "drop_bit 8 (drop_bit 8 w OR push_bit 8 w) OR push_bit 8 (drop_bit 8 w OR push_bit 8 w) = w"
    for w :: "16 word"
    by (rule word16_eqI) (simp_all add: bit_simps high_bits)
  then show ?thesis by (simp add: WebRtcIlbcfix_SwapBytes_def comp_def)
qed

lemma length_swap: "length (WebRtcIlbcfix_SwapBytes ws n) = min (length ws) n"
  by (simp add: WebRtcIlbcfix_SwapBytes_def)

text \<open>C8: the iLBC payload format, through the byte swap of the little-endian encoder and decoder.
  Packing parameters that fit their fields gives a frame of 19 or 25 words from which unpacking
  restores exactly the parameters of the mode and reports a non-empty frame. Conversely every frame
  with a zero last bit unpacks to parameters that fit, and packing them gives the frame back; so no
  bit of the frame is unused or used twice. A frame with the last bit set is reported as empty.\<close>

theorem ilbc_bits_roundtrip:
  assumes mode: "mode = 20 \<or> mode = 30" and ok: "bits_ok mode b"
    and ws: "length ws = frame_words mode"
    and b0: "length (lsf b0) = 6" "length (cb_index b0) = 15" "length (gain_index b0) = 15"
      "length (idxVec b0) = 58"
  defines "n \<equiv> frame_words mode"
  defines "sent \<equiv> WebRtcIlbcfix_SwapBytes (WebRtcIlbcfix_PackBits b mode) n"
  defines "b' \<equiv> fst (WebRtcIlbcfix_UnpackBits ws b0 mode)"
  shows "length sent = n \<and>
    WebRtcIlbcfix_UnpackBits (WebRtcIlbcfix_SwapBytes sent n) b0 mode = (merge mode b b0, 0) \<and>
    bits_ok mode b' \<and>
    (WebRtcIlbcfix_PackBits b' mode = ws \<longleftrightarrow> \<not> bit (last ws) 0) \<and>
    snd (WebRtcIlbcfix_UnpackBits ws b0 mode) = (if bit (last ws) 0 then 1 else 0)"
proof -
  have packed: "length (WebRtcIlbcfix_PackBits c mode) = n" for c
    using mode by (auto simp: n_def frame_words_def WebRtcIlbcfix_PackBits_def pack_20_def pack_30_def)
  have "WebRtcIlbcfix_SwapBytes sent n = WebRtcIlbcfix_PackBits b mode"
    using swap_swap [of "WebRtcIlbcfix_PackBits b mode"] by (simp add: sent_def packed)
  then have 1: "WebRtcIlbcfix_UnpackBits (WebRtcIlbcfix_SwapBytes sent n) b0 mode = (merge mode b b0, 0)"
    using unpack_pack [OF mode ok] by simp
  have 2: "snd (WebRtcIlbcfix_UnpackBits ws b0 mode) = (if bit (last ws) 0 then 1 else 0)"
    using mode last_word [OF ws]
    by (auto simp: n_def frame_words_def WebRtcIlbcfix_UnpackBits_def and_one)
  have "\<not> bit (last (WebRtcIlbcfix_PackBits c mode)) 0" for c
    using mode last_word [OF packed [of c, unfolded n_def]]
    by (auto simp: n_def frame_words_def WebRtcIlbcfix_PackBits_def pack_20_nth pack_30_nth last_bit_zero)
  then have "WebRtcIlbcfix_PackBits b' mode = ws \<longleftrightarrow> \<not> bit (last ws) 0"
    using pack_unpack [OF mode ws] unfolding b'_def by metis
  moreover have "bits_ok mode b'" unfolding b'_def by (rule unpack_ok [OF mode b0])
  ultimately show ?thesis
    using 1 2 by (simp add: sent_def length_swap packed)
qed

theorem ilbc_bits_roundtrip_witness:
  "let b = \<lparr>lsf = replicate 6 5, cb_index = replicate 15 100, gain_index = replicate 15 6, idxForMax = 40,
        state_first = 1, idxVec = replicate 58 3, firstbits = 0, startIdx = 2\<rparr>;
       ws = replicate 19 0x1234
   in WebRtcIlbcfix_UnpackBits (WebRtcIlbcfix_SwapBytes (WebRtcIlbcfix_SwapBytes
        (WebRtcIlbcfix_PackBits b 20) 19) 19) b 20 = (merge 20 b b, 0) \<and>
      WebRtcIlbcfix_PackBits (fst (WebRtcIlbcfix_UnpackBits ws b 20)) 20 = ws"
proof -
  define b where "b = \<lparr>lsf = replicate 6 5, cb_index = replicate 15 100, gain_index = replicate 15 6,
      idxForMax = 40, state_first = 1, idxVec = replicate 58 3, firstbits = 0, startIdx = 2\<rparr>"
  define ws :: "16 word list" where "ws = replicate 19 0x1234"
  have "bits_ok 20 b" unfolding b_def by code_simp
  moreover have "length ws = frame_words 20" "\<not> bit (last ws) 0" "frame_words 20 = 19"
    by (simp_all add: ws_def frame_words_def)
  moreover have "length (lsf b) = 6" "length (cb_index b) = 15" "length (gain_index b) = 15"
    "length (idxVec b) = 58" by (simp_all add: b_def)
  ultimately show ?thesis
    using ilbc_bits_roundtrip [of 20 b ws b] by (simp add: Let_def flip: b_def ws_def)
qed

end
