(* ===== verification/Agc_Table.thy ===== *)
theory Agc_Table
  imports Spl_Filters Spl_Sqrt
begin

section \<open>Gain control: the compressor gain table (\<open>agc/legacy/digital_agc.cc\<close>)\<close>

text \<open>
  \<open>WebRtcAgc_CalculateGainTable\<close> and the fixed-point macros of the gain control. The loop body of the source
  is split into \<open>log_approx\<close>, \<open>gain_exponent\<close> and \<open>pow2_q16\<close>. \<open>None\<close> is a read outside \<open>kGenFuncTable\<close>, a
  division by zero or a shift by more than the width. The lemmas bound every intermediate value and give,
  for the settings in use, a table of 32 gains below \<open>2 ^ 29\<close>.
\<close>

unbundle bit_operations_syntax

subsection \<open>Macros\<close>

definition WEBRTC_SPL_MUL_16_U16 :: "int \<Rightarrow> int \<Rightarrow> int" where
  "WEBRTC_SPL_MUL_16_U16 a b = mul32 (s16 a) (u16 b)"

definition WEBRTC_SPL_UMUL_32_16 :: "int \<Rightarrow> int \<Rightarrow> int" where
  "WEBRTC_SPL_UMUL_32_16 a b = u32 (u32 a * u16 b)"

definition WEBRTC_SPL_SHIFT_W32 :: "int \<Rightarrow> int \<Rightarrow> int" where
  "WEBRTC_SPL_SHIFT_W32 x c = (if c \<ge> 0 then mul32 x (shl32 1 (nat c)) else shr x (nat (- c)))"

definition AGC_MUL32 :: "int \<Rightarrow> int \<Rightarrow> int" where
  "AGC_MUL32 A B = add32 (mul32 (shr B 13) A) (shr (mul32 (0x00001FFF AND B) A) 13)"

definition AGC_SCALEDIFF32 :: "int \<Rightarrow> int \<Rightarrow> int \<Rightarrow> int" where
  "AGC_SCALEDIFF32 A B C = add32 (add32 C (mul32 (shr B 16) A)) (shr (mul32 (0x0000FFFF AND B) A) 16)"

text \<open>C's remainder.\<close>

definition crem :: "int \<Rightarrow> int \<Rightarrow> int" where
  "crem a b = a - cdiv a b * b"

definition kGenFuncTableSize :: int where "kGenFuncTableSize = 128"

definition kGenFuncTable :: "int list" where
  "kGenFuncTable = [
    256, 485, 786, 1126, 1484, 1849, 2217, 2586, 2955, 3324, 3693, 4063, 4432, 4801, 5171, 5540,
    5909, 6279, 6648, 7017, 7387, 7756, 8125, 8495, 8864, 9233, 9603, 9972, 10341, 10711, 11080, 11449,
    11819, 12188, 12557, 12927, 13296, 13665, 14035, 14404, 14773, 15143, 15512, 15881, 16251, 16620, 16989, 17359,
    17728, 18097, 18466, 18836, 19205, 19574, 19944, 20313, 20682, 21052, 21421, 21790, 22160, 22529, 22898, 23268,
    23637, 24006, 24376, 24745, 25114, 25484, 25853, 26222, 26592, 26961, 27330, 27700, 28069, 28438, 28808, 29177,
    29546, 29916, 30285, 30654, 31024, 31393, 31762, 32132, 32501, 32870, 33240, 33609, 33978, 34348, 34717, 35086,
    35456, 35825, 36194, 36564, 36933, 37302, 37672, 38041, 38410, 38780, 39149, 39518, 39888, 40257, 40626, 40996,
    41365, 41734, 42104, 42473, 42842, 43212, 43581, 43950, 44320, 44689, 45058, 45428, 45797, 46166, 46536, 46905]"

subsection \<open>The compressor gain table\<close>

text \<open>\<open>log_approx\<close> is \<open>log2(1 + e^x)\<close> in Q14 with \<open>x\<close> in Q14, by table and interpolation.\<close>

definition log_approx :: "int \<Rightarrow> int option" where
  "log_approx inLevel =
     (let absInLevel = u32 (if inLevel \<ge> 0 then inLevel else s32 (- inLevel));
          intPart = u16 (shr absInLevel 14);
          fracPart = u16 (absInLevel AND 0x00003FFF)
      in if intPart + 1 \<ge> kGenFuncTableSize then None
         else let
           tmpU16 = u16 (kGenFuncTable ! nat (intPart + 1) - kGenFuncTable ! nat intPart);
           tmpU32no1 = u32 (mul32 tmpU16 fracPart);
           tmpU32no1 = u32 (tmpU32no1 + u32 (kGenFuncTable ! nat intPart * 2 ^ 14));
           logApprox = shr tmpU32no1 8
         in Some (if inLevel < 0
                  then let
                    zeros = WebRtcSpl_NormU32 absInLevel;
                    (tmpU32no1, tmpU32no2, zerosScale) =
                      (if zeros < 15
                       then let tmpU32no2 = shr absInLevel (nat (15 - zeros));
                                tmpU32no2 = WEBRTC_SPL_UMUL_32_16 tmpU32no2 23637
                            in if zeros < 9 then (shr tmpU32no1 (nat (9 - zeros)), tmpU32no2, 9 - zeros)
                               else (tmpU32no1, shr tmpU32no2 (nat (zeros - 9)), 0)
                       else (tmpU32no1, shr (WEBRTC_SPL_UMUL_32_16 absInLevel 23637) 6, 0))
                  in if tmpU32no2 < tmpU32no1 then shr (tmpU32no1 - tmpU32no2) (nat (8 - zerosScale)) else 0
                  else logApprox))"

text \<open>\<open>pow2_q16\<close> is 2 to the power of a Q14 number, by two line segments.\<close>

definition pow2_q16 :: "int \<Rightarrow> int option" where
  "pow2_q16 tmp32 =
     (if tmp32 > 0
      then let
        constLinApprox = 22817;
        intPart = u16 (s16 (shr tmp32 14));
        fracPart = u16 (tmp32 AND 0x00003FFF);
        tmp32no2 = (if shr fracPart 13 \<noteq> 0
                    then let tmp16 = s16 (32768 - constLinApprox);
                             tmp32no2 = 16384 - fracPart;
                             tmp32no2 = mul32 tmp32no2 tmp16;
                             tmp32no2 = shr tmp32no2 13
                         in sub32 16384 tmp32no2
                    else let tmp16 = s16 (constLinApprox - 16384) in shr (mul32 fracPart tmp16) 13);
        fracPart = u16 tmp32no2
      in if intPart > 31 then None
         else Some (add32 (shl32 1 (nat intPart)) (WEBRTC_SPL_SHIFT_W32 fracPart (intPart - 14)))
      else Some 0)"

text \<open>The exponent of the gain in Q14 (with 16 added, so that the gain is in Q16) at table position \<open>i\<close>.\<close>

definition gain_exponent :: "int \<Rightarrow> int \<Rightarrow> int \<Rightarrow> int \<Rightarrow> int \<Rightarrow> int \<Rightarrow> int \<Rightarrow> int option" where
  "gain_exponent diffGain maxGain constMaxGain limiterEnable limiterIdx limiterLvl i =
     (let den = WEBRTC_SPL_MUL_16_U16 20 constMaxGain;
          tmp16 = s16 (2 * (i - 1));
          tmp32 = add32 (WEBRTC_SPL_MUL_16_U16 tmp16 49321) 1;
          inLevel = WebRtcSpl_DivW32W16 tmp32 3;
          inLevel = sub32 (mul32 diffGain (2 ^ 14)) inLevel
      in case log_approx inLevel of None \<Rightarrow> None
         | Some logApprox \<Rightarrow>
             (let numFIX = mul32 (mul32 maxGain constMaxGain) (2 ^ 6);
                  numFIX = sub32 numFIX (mul32 (s32 logApprox) diffGain);
                  zeros = (if numFIX > shr den 8 \<or> s32 (- numFIX) > shr den 8
                           then WebRtcSpl_NormW32 numFIX else WebRtcSpl_NormW32 den + 8);
                  numFIX = mul32 numFIX (shl32 1 (nat zeros));
                  tmp32no1 = WEBRTC_SPL_SHIFT_W32 den (zeros - 9)
              in if tmp32no1 = 0 then None
                 else let
                   y32 = s32 (cdiv numFIX tmp32no1);
                   y32 = (if y32 \<ge> 0 then shr (add32 y32 1) 1 else s32 (- shr (add32 (s32 (- y32)) 1) 1));
                   y32 = (if limiterEnable \<noteq> 0 \<and> i < limiterIdx
                          then let tmp32 = WEBRTC_SPL_MUL_16_U16 (i - 1) 49321;
                                   tmp32 = sub32 tmp32 (mul32 limiterLvl (2 ^ 14))
                               in WebRtcSpl_DivW32W16 (add32 tmp32 10) 20
                          else y32);
                   tmp32 = (if y32 > 39000 then shr (add32 (mul32 (shr y32 1) 54426) 4096) 13
                            else shr (add32 (mul32 y32 54426) 8192) 14)
                 in Some (add32 tmp32 (16 * 2 ^ 14))))"

fun gain_table_loop :: "nat \<Rightarrow> nat \<Rightarrow> (int \<Rightarrow> int option) \<Rightarrow> int list \<Rightarrow> int list option" where
  "gain_table_loop 0 i entry table = Some table"
| "gain_table_loop (Suc n) i entry table =
     (case entry (int i) of None \<Rightarrow> None
      | Some tmp32 \<Rightarrow> (case pow2_q16 tmp32 of None \<Rightarrow> None
          | Some v \<Rightarrow> gain_table_loop n (i + 1) entry (table[i := v])))"

definition WebRtcAgc_CalculateGainTable ::
    "int list \<Rightarrow> int \<Rightarrow> int \<Rightarrow> int \<Rightarrow> int \<Rightarrow> (int \<times> int list) option" where
  "WebRtcAgc_CalculateGainTable table digCompGaindB targetLevelDbfs limiterEnable analogTarget =
     (let kCompRatio = 3;
          tmp32no1 = mul32 (digCompGaindB - analogTarget) (kCompRatio - 1);
          tmp16no1 = s16 (analogTarget - targetLevelDbfs);
          tmp16no1 = s16 (tmp16no1 + WebRtcSpl_DivW32W16ResW16 (add32 tmp32no1 (shr kCompRatio 1)) kCompRatio);
          maxGain = s16 (max tmp16no1 (analogTarget - targetLevelDbfs));
          tmp32no1 = mul32 maxGain kCompRatio;
          zeroGainLvl = digCompGaindB;
          zeroGainLvl = s16 (zeroGainLvl - WebRtcSpl_DivW32W16ResW16 (add32 tmp32no1 (shr (kCompRatio - 1) 1)) (kCompRatio - 1));
          zeroGainLvl = (if digCompGaindB \<le> analogTarget \<and> limiterEnable \<noteq> 0
                         then s16 (zeroGainLvl + (analogTarget - digCompGaindB + 1)) else zeroGainLvl);
          limiterOffset = 0;
          tmp32no1 = mul32 digCompGaindB (kCompRatio - 1);
          diffGain = WebRtcSpl_DivW32W16ResW16 (add32 tmp32no1 (shr kCompRatio 1)) kCompRatio
      in if diffGain < 0 \<or> diffGain \<ge> kGenFuncTableSize then Some (-1, table)
         else let
           limiterLvlX = s16 (analogTarget - limiterOffset);
           limiterIdx = s16 (2 + WebRtcSpl_DivW32W16ResW16 (mul32 limiterLvlX (2 ^ 13)) (s16 (cdiv 49321 2)));
           tmp16no1 = WebRtcSpl_DivW32W16ResW16 (limiterOffset + shr kCompRatio 1) kCompRatio;
           limiterLvl = add32 targetLevelDbfs tmp16no1;
           constMaxGain = kGenFuncTable ! nat diffGain
         in map_option (\<lambda>t. (0, t))
              (gain_table_loop 32 0 (gain_exponent diffGain maxGain constMaxGain limiterEnable limiterIdx limiterLvl) table))"

subsection \<open>The gain table is defined and bounded\<close>

lemma kGenFuncTable_bounds:
  "\<forall>d\<in>set [0..<128]. 23637 * int d \<le> 64 * kGenFuncTable ! d + 64 \<and> 64 * kGenFuncTable ! d \<le> 23637 * int d + 16384
     \<and> 256 \<le> kGenFuncTable ! d \<and> 369 * int d \<le> kGenFuncTable ! d"
  "\<forall>d\<in>set [0..<127]. kGenFuncTable ! d \<le> kGenFuncTable ! (d + 1)"
  by code_simp+

lemma gen_table:
  assumes "0 \<le> k" "k \<le> 127"
  shows "23637 * k \<le> 64 * kGenFuncTable ! nat k + 64" "64 * kGenFuncTable ! nat k \<le> 23637 * k + 16384"
    "256 \<le> kGenFuncTable ! nat k" "369 * k \<le> kGenFuncTable ! nat k"
    "k < 127 \<Longrightarrow> kGenFuncTable ! nat k \<le> kGenFuncTable ! nat (k + 1)"
proof -
  have "nat k \<in> set [0..<128]" "int (nat k) = k" using assms by auto
  then show "23637 * k \<le> 64 * kGenFuncTable ! nat k + 64" "64 * kGenFuncTable ! nat k \<le> 23637 * k + 16384"
    "256 \<le> kGenFuncTable ! nat k" "369 * k \<le> kGenFuncTable ! nat k"
    using bspec [OF kGenFuncTable_bounds(1)] by metis+
  assume "k < 127"
  then have "nat k \<in> set [0..<127]" "nat (k + 1) = nat k + 1" using assms by auto
  then show "kGenFuncTable ! nat k \<le> kGenFuncTable ! nat (k + 1)" using bspec [OF kGenFuncTable_bounds(2)] by metis
qed

lemma and_3fff14: "b AND 0x00003FFF = b mod (16384 :: int)"
  using take_bit_eq_mask [of 14 b] by (simp add: mask_eq_exp_minus_1 take_bit_eq_mod)

text \<open>The interpolated table value, in Q22, is at most \<open>x log2(e) + 1\<close>.\<close>

lemma table_interpolation:
  assumes "0 \<le> a" "a < 2080768"
  defines "k \<equiv> a div 16384" and "f \<equiv> a mod 16384"
  defines "t \<equiv> (kGenFuncTable ! nat (k + 1) - kGenFuncTable ! nat k) * f + kGenFuncTable ! nat k * 16384"
  shows "0 \<le> k" "k + 1 \<le> 127" "0 \<le> f" "f < 16384" "0 \<le> t" "64 * t \<le> 23637 * a + 268435456"
    "0 \<le> kGenFuncTable ! nat (k + 1) - kGenFuncTable ! nat k" "kGenFuncTable ! nat (k + 1) \<le> 47162"
proof -
  show k: "0 \<le> k" "k + 1 \<le> 127" and f: "0 \<le> f" "f < 16384" using assms(1,2) by (auto simp: k_def f_def)
  let ?A = "kGenFuncTable ! nat k" and ?B = "kGenFuncTable ! nat (k + 1)"
  have A: "64 * ?A \<le> 23637 * k + 16384" "256 \<le> ?A" "?A \<le> ?B" using gen_table [of k] k by auto
  have B: "64 * ?B \<le> 23637 * (k + 1) + 16384" using gen_table(2) [of "k + 1"] k by auto
  show d: "0 \<le> ?B - ?A" using A by simp
  show "?B \<le> 47162" using B k by auto
  show "0 \<le> t" using d f A by (simp add: t_def)
  have a: "a = k * 16384 + f" by (simp add: k_def f_def)
  have "64 * t = (64 * ?B) * f + (64 * ?A) * (16384 - f)" by (simp add: t_def algebra_simps)
  also have "\<dots> \<le> (23637 * (k + 1) + 16384) * f + (23637 * k + 16384) * (16384 - f)"
    using A(1) B f by (intro add_mono mult_right_mono) auto
  also have "\<dots> = 23637 * a + 268435456" by (simp add: a algebra_simps)
  finally show "64 * t \<le> 23637 * a + 268435456" .
qed

text \<open>For a negative argument the subtracted \<open>|x| log2(e)\<close> is exact up to 2957 units of Q22.\<close>

lemma log_subtrahend:
  assumes "0 < a" "a < 1048576"
  defines "z \<equiv> WebRtcSpl_NormU32 a"
  shows "12 \<le> z" "z < 15 \<Longrightarrow> 23637 * a \<le> 64 * shr (WEBRTC_SPL_UMUL_32_16 (shr a (nat (15 - z))) 23637) (nat (z - 9)) + 189248"
    "15 \<le> z \<Longrightarrow> 23637 * a \<le> 64 * shr (WEBRTC_SPL_UMUL_32_16 a 23637) 6 + 189248"
proof -
  note c = CountLeadingZeros32_correct [of a]
  have zc: "z = WebRtcSpl_CountLeadingZeros32 a" using c(1,2) assms(1,2) by (simp add: z_def WebRtcSpl_NormU32_def s16_idI)
  have z: "0 \<le> z" "z \<le> 31" "2 ^ nat (31 - z) \<le> a" "a < 2 ^ nat (32 - z)" using c assms(1,2) by (auto simp: zc)
  show z12: "12 \<le> z"
  proof (rule ccontr)
    assume "\<not> 12 \<le> z"
    then have "(2 :: int) ^ 20 \<le> 2 ^ nat (31 - z)" by (intro power_increasing) auto
    then show False using z(3) assms(2) by simp
  qed
  { assume "15 \<le> z"
    then have "(2 :: int) ^ nat (32 - z) \<le> 2 ^ 17" by (intro power_increasing) auto
    then have "a < 131072" using z(4) by simp
    then have "WEBRTC_SPL_UMUL_32_16 a 23637 = a * 23637" using assms(1) by (simp add: WEBRTC_SPL_UMUL_32_16_def u32_idI u16_def)
    then show "23637 * a \<le> 64 * shr (WEBRTC_SPL_UMUL_32_16 a 23637) 6 + 189248" by (simp add: shr_def) }
  assume "z < 15"
  then have "z = 12 \<or> z = 13 \<or> z = 14" using z12 by auto
  then show "23637 * a \<le> 64 * shr (WEBRTC_SPL_UMUL_32_16 (shr a (nat (15 - z))) 23637) (nat (z - 9)) + 189248"
    using assms(1) z(4) by (auto simp: WEBRTC_SPL_UMUL_32_16_def u32_idI u16_def shr_def)
qed

lemma log_approx_ok:
  assumes "-1048576 < x" "x < 2080768"
  shows "\<exists>l. log_approx x = Some l \<and> 0 \<le> l \<and> 16384 * l \<le> 23637 * max 0 x + 270000000"
proof -
  define a where "a = \<bar>x\<bar>"
  have a: "0 \<le> a" "a < 2080768" using assms by (auto simp: a_def)
  have ua: "u32 (if x \<ge> 0 then x else s32 (- x)) = a" using assms by (auto simp: a_def s32_idI u32_idI)
  define k f where "k = a div 16384" and "f = a mod 16384"
  define t where "t = (kGenFuncTable ! nat (k + 1) - kGenFuncTable ! nat k) * f + kGenFuncTable ! nat k * 16384"
  note ti = table_interpolation [OF a, folded k_def f_def, folded t_def]
  have uk: "u16 (shr a 14) = k" "u16 (a AND 0x00003FFF) = f"
    using ti by (auto simp: u16_def shr_def and_3fff14 k_def f_def)
  let ?A = "kGenFuncTable ! nat k" and ?B = "kGenFuncTable ! nat (k + 1)"
  have A: "256 \<le> ?A" using gen_table(3) [of k] ti by auto
  have d: "u16 (?B - ?A) = ?B - ?A" using ti(7,8) A by (simp add: u16_def)
  have "(?B - ?A) * f \<le> 47162 * 16384" using ti A by (intro mult_mono) auto
  moreover have "0 \<le> (?B - ?A) * f" using ti by simp
  ultimately have m: "u32 (mul32 (?B - ?A) f) = (?B - ?A) * f" by (simp add: mul32_def s32_idI u32_idI)
  have "u32 (?A * 2 ^ 14) = ?A * 16384" using A ti(7,8) by (simp add: u32_idI)
  moreover have tb: "t \<le> 772793344" using ti(6) a by auto
  ultimately have t: "u32 (u32 (mul32 (?B - ?A) f) + u32 (?A * 2 ^ 14)) = t" using ti(5) m by (simp add: t_def u32_idI)
  have big: "\<not> k + 1 \<ge> kGenFuncTableSize" using ti(2) by (simp add: kGenFuncTableSize_def)
  show ?thesis
  proof (cases "x < 0")
    case False
    then have "log_approx x = Some (shr t 8)" unfolding log_approx_def Let_def ua uk d t using big by simp
    moreover have "16384 * shr t 8 \<le> 64 * t" by (simp add: shr_def)
    ultimately show ?thesis using ti(5,6) False by (auto simp: a_def)
  next
    case True
    define z where "z = WebRtcSpl_NormU32 a"
    have a': "0 < a" "a < 1048576" using True assms by (auto simp: a_def)
    note ls = log_subtrahend [OF a', folded z_def]
    define w where "w = (if z < 15 then shr (WEBRTC_SPL_UMUL_32_16 (shr a (nat (15 - z))) 23637) (nat (z - 9))
      else shr (WEBRTC_SPL_UMUL_32_16 a 23637) 6)"
    have w: "23637 * a \<le> 64 * w + 189248" using ls by (simp add: w_def)
    have "log_approx x = Some (if w < t then shr (t - w) 8 else 0)"
      unfolding log_approx_def Let_def ua uk d t z_def [symmetric] using big True ls(1) by (simp add: w_def)
    moreover have "16384 * shr (t - w) 8 \<le> 64 * (t - w)" by (simp add: shr_def)
    ultimately show ?thesis using ti(6) w True by auto
  qed
qed

text \<open>Normalising a numerator and a denominator together: the quotient in Q9.\<close>

lemma NormW32_bounds:
  assumes "N \<noteq> 0" "N \<noteq> -1" "\<bar>N\<bar> \<le> 2147483647"
  shows "0 \<le> WebRtcSpl_NormW32 N" "WebRtcSpl_NormW32 N \<le> 30"
    "\<bar>N\<bar> * 2 ^ nat (WebRtcSpl_NormW32 N) \<le> 2147483648" "in_s32 (N * 2 ^ nat (WebRtcSpl_NormW32 N))"
    "2 ^ nat (30 - WebRtcSpl_NormW32 N) \<le> \<bar>N\<bar>"
proof -
  define M z where "M = (if N < 0 then - N - 1 else N)" and "z = WebRtcSpl_NormW32 N"
  have M: "0 < M" "M \<le> 2147483647" using assms by (auto simp: M_def)
  have "z = WebRtcSpl_NormW32 M" using NormW32_neg [of N] assms by (auto simp: M_def z_def)
  then have z: "0 \<le> z" "z \<le> 30" "M < 2 ^ nat (31 - z)" "2 ^ nat (30 - z) \<le> M" using NormW32_pos [OF M] by auto
  have p: "(2 :: int) ^ nat (31 - z) * 2 ^ nat z = 2147483648" using z(1,2) by (simp flip: power_add nat_add_distrib)
  have le: "M * 2 ^ nat z + 2 ^ nat z \<le> 2147483648"
    using mult_right_mono [of "M + 1" "2 ^ nat (31 - z)" "2 ^ nat z"] z(3) p by (simp add: distrib_right)
  have pos: "1 \<le> (2 :: int) ^ nat z" by simp
  show "0 \<le> WebRtcSpl_NormW32 N" "WebRtcSpl_NormW32 N \<le> 30" using z by (auto simp: z_def)
  show b: "\<bar>N\<bar> * 2 ^ nat (WebRtcSpl_NormW32 N) \<le> 2147483648"
  proof (cases "N < 0")
    case True
    then have "\<bar>N\<bar> * 2 ^ nat z = M * 2 ^ nat z + 2 ^ nat z" by (simp add: M_def algebra_simps)
    then show ?thesis using le by (simp add: z_def)
  next
    case False
    then have "\<bar>N\<bar> * 2 ^ nat z = M * 2 ^ nat z" by (simp add: M_def)
    then show ?thesis using le pos unfolding z_def by linarith
  qed
  show "in_s32 (N * 2 ^ nat (WebRtcSpl_NormW32 N))"
  proof (cases "N < 0")
    case True
    have "\<bar>N\<bar> * 2 ^ nat z = - (N * 2 ^ nat z)" using True by simp
    moreover have "N * 2 ^ nat z \<le> 0" using True by (simp add: mult_nonpos_nonneg)
    ultimately show ?thesis using b by (simp add: in_s32_def z_def)
  next
    case False
    then have "N * 2 ^ nat z = M * 2 ^ nat z" by (simp add: M_def)
    moreover have "0 \<le> N * 2 ^ nat z" using False by simp
    ultimately show ?thesis using le pos unfolding in_s32_def z_def [symmetric] by (intro conjI) linarith+
  qed
  show "2 ^ nat (30 - WebRtcSpl_NormW32 N) \<le> \<bar>N\<bar>" using z(4) by (auto simp: M_def z_def split: if_splits)
qed

lemma cdiv_bounds:
  assumes "0 < D" "- (L * D) \<le> N" "N \<le> U * D" "0 \<le> L" "0 \<le> U"
  shows "- L \<le> cdiv N D" "cdiv N D \<le> U"
proof -
  have "- L \<le> cdiv N D \<and> cdiv N D \<le> U"
  proof (cases "0 \<le> N")
    case True
    have "N div D \<le> (U * D) div D" using assms by (intro zdiv_mono1) auto
    moreover have "0 \<le> N div D" using True assms by (simp add: pos_imp_zdiv_nonneg_iff)
    ultimately show ?thesis using assms True by (simp add: cdiv_pos)
  next
    case False
    have "(- N) div D \<le> (L * D) div D" using assms by (intro zdiv_mono1) auto
    moreover have "0 \<le> (- N) div D" using False assms by (simp add: pos_imp_zdiv_nonneg_iff)
    ultimately show ?thesis using assms False cdiv_neg [of "- N" D] by simp
  qed
  then show "- L \<le> cdiv N D" "cdiv N D \<le> U" by auto
qed

definition norm_shift :: "int \<Rightarrow> int \<Rightarrow> int" where
  "norm_shift N D = (if N > shr D 8 \<or> s32 (- N) > shr D 8 then WebRtcSpl_NormW32 N else WebRtcSpl_NormW32 D + 8)"

lemma den_norm:
  assumes D: "5120 \<le> D" "D \<le> 1000000"
  shows "11 \<le> WebRtcSpl_NormW32 D" "WebRtcSpl_NormW32 D \<le> 18" "D * 2 ^ nat (WebRtcSpl_NormW32 D) < 2147483648"
proof -
  note b = NormW32_pos [of D]
  have "(2 :: int) ^ nat (31 - WebRtcSpl_NormW32 D) * 2 ^ nat (WebRtcSpl_NormW32 D) = 2147483648"
    using b(1,2) D by (simp flip: power_add nat_add_distrib)
  then show "D * 2 ^ nat (WebRtcSpl_NormW32 D) < 2147483648"
    using mult_strict_right_mono [of D "2 ^ nat (31 - WebRtcSpl_NormW32 D)" "2 ^ nat (WebRtcSpl_NormW32 D)"] b(3) D by simp
  show "11 \<le> WebRtcSpl_NormW32 D"
  proof (rule ccontr)
    assume "\<not> ?thesis"
    then have "(2 :: int) ^ 20 \<le> 2 ^ nat (30 - WebRtcSpl_NormW32 D)" by (intro power_increasing) auto
    then show False using b D by simp
  qed
  show "WebRtcSpl_NormW32 D \<le> 18"
  proof (rule ccontr)
    assume "\<not> ?thesis"
    then have "(2 :: int) ^ nat (31 - WebRtcSpl_NormW32 D) \<le> 2 ^ 12" by (intro power_increasing) auto
    then show False using b D by simp
  qed
qed

lemma norm_shift_bounds:
  assumes D: "5120 \<le> D" "D \<le> 1000000" and N: "\<bar>N\<bar> \<le> 224000000"
  defines "z \<equiv> norm_shift N D"
  defines "n \<equiv> nat z"
  shows "0 \<le> z \<and> z \<le> 30 \<and> in_s32 (N * 2 ^ n) \<and> (9 \<le> z \<longrightarrow> D * 2 ^ (n - 9) \<le> 1073741824) \<and> (z < 9 \<longrightarrow> 2 ^ nat (30 - z) \<le> \<bar>N\<bar>)"
proof -
  have sN: "s32 (- N) = - N" using N by (intro s32_idI) auto
  have D': "shr D 8 = D div 256" by (simp add: shr_def)
  have q: "20 \<le> D div 256" using D by auto
  note Dn = den_norm [OF D]
  show ?thesis
  proof (cases "\<bar>N\<bar> > D div 256")
    case True
    then have zN: "z = WebRtcSpl_NormW32 N" using sN D' q by (auto simp: z_def norm_shift_def)
    have "N \<noteq> 0" "N \<noteq> -1" using True q by auto
    note b = NormW32_bounds [OF this, folded zN] 
    have "D * 2 ^ (n - 9) \<le> 1073741824" if "9 \<le> z"
    proof -
      have "9 + (n - 9) = n" using that by (simp add: n_def)
      then have p: "(2 :: int) ^ n = 512 * 2 ^ (n - 9)" using power_add [of "2 :: int" 9 "n - 9"] by simp
      have "D \<le> 256 * \<bar>N\<bar>" using True by auto
      then have "2 * (D * 2 ^ (n - 9)) \<le> \<bar>N\<bar> * 2 ^ n" using p mult_right_mono [of D "256 * \<bar>N\<bar>" "2 ^ (n - 9)"] by simp
      then show ?thesis using b(3) N by (simp add: n_def)
    qed
    then show ?thesis using b N by (simp add: n_def)
  next
    case False
    then have zD: "z = WebRtcSpl_NormW32 D + 8" using sN D' by (auto simp: z_def norm_shift_def)
    define m where "m = nat (WebRtcSpl_NormW32 D)"
    have m: "n = m + 8" "11 \<le> m" "m \<le> 18" using Dn zD by (auto simp: n_def m_def)
    have p: "(2 :: int) ^ n = 256 * 2 ^ m" "n - 9 = m - 1" "(2 :: int) ^ m = 2 * 2 ^ (m - 1)"
      using m by (simp_all add: power_add flip: power_Suc)
    have "256 * \<bar>N\<bar> \<le> D" using False by auto
    then have "\<bar>N\<bar> * 2 ^ n \<le> D * 2 ^ m" using p mult_right_mono [of "256 * \<bar>N\<bar>" D "2 ^ m"] by (simp add: ac_simps)
    also have "\<dots> < 2147483648" using Dn(3) by (simp add: m_def)
    finally have "\<bar>N * 2 ^ n\<bar> < 2147483648" by (simp add: abs_mult)
    then have "in_s32 (N * 2 ^ n)" by (auto simp: in_s32_def)
    then show ?thesis using Dn zD m p Dn(3) by (simp add: m_def)
  qed
qed

lemma normalised_quotient:
  assumes D: "5120 \<le> D" "D \<le> 1000000" and N: "-112 * D \<le> N" "N \<le> 224 * D"
  shows "WEBRTC_SPL_SHIFT_W32 D (norm_shift N D - 9) \<noteq> 0"
    "-59000 \<le> s32 (cdiv (mul32 N (shl32 1 (nat (norm_shift N D)))) (WEBRTC_SPL_SHIFT_W32 D (norm_shift N D - 9)))"
    "s32 (cdiv (mul32 N (shl32 1 (nat (norm_shift N D)))) (WEBRTC_SPL_SHIFT_W32 D (norm_shift N D - 9))) \<le> 117000"
proof -
  define z where "z = norm_shift N D"
  define n where "n = nat z"
  have Nb: "\<bar>N\<bar> \<le> 224000000" using N D by auto
  have z: "0 \<le> z" "z \<le> 30" "in_s32 (N * 2 ^ n)" "9 \<le> z \<Longrightarrow> D * 2 ^ (n - 9) \<le> 1073741824" "z < 9 \<Longrightarrow> 2 ^ nat (30 - z) \<le> \<bar>N\<bar>"
    using norm_shift_bounds [OF D Nb] by (auto simp: z_def n_def)
  have p30: "(2 :: int) ^ k \<le> 1073741824" if "k \<le> 30" for k using power_increasing [of k 30 "2 :: int"] that by simp
  have one: "shl32 1 k = 2 ^ k" if "k \<le> 30" for k unfolding shl32_def mult_1
    by (rule s32_idI) (use p30 [OF that] in \<open>auto intro: order_trans [of _ 0]\<close>)
  have num: "mul32 N (shl32 1 n) = N * 2 ^ n" using one [of n] z by (simp add: n_def mul32_def s32_id)
  define E where "E = WEBRTC_SPL_SHIFT_W32 D (z - 9)"
  have E: "0 < E \<and> - (59000 * E) \<le> N * 2 ^ n \<and> N * 2 ^ n \<le> 117000 * E"
  proof (cases "9 \<le> z")
    case True
    have n9: "nat (z - 9) = n - 9" "9 + (n - 9) = n" using True by (auto simp: n_def)
    have p: "(2 :: int) ^ n = 512 * 2 ^ (n - 9)" using power_add [of "2 :: int" 9 "n - 9"] n9 by simp
    have "0 < D * 2 ^ (n - 9)" using D by simp
    then have e: "E = D * 2 ^ (n - 9)" using True z(4) [OF True] one [of "n - 9"] z(2) n9
      by (simp add: E_def WEBRTC_SPL_SHIFT_W32_def mul32_def s32_idI n_def)
    have "-112 * D * (512 * 2 ^ (n - 9)) \<le> N * 2 ^ n" "N * 2 ^ n \<le> 224 * D * (512 * 2 ^ (n - 9))"
      using mult_right_mono [OF N(1), of "2 ^ (n - 9)"] mult_right_mono [OF N(2), of "2 ^ (n - 9)"] by (simp_all add: p ac_simps)
    then show ?thesis using e \<open>0 < D * 2 ^ (n - 9)\<close> by simp
  next
    case False
    define j where "j = nat (9 - z)"
    have j: "n + j = 9" "nat (30 - z) = 21 + j" "nat (- (z - 9)) = j" using False z(1) by (auto simp: j_def n_def)
    have e: "E = D div 2 ^ j" using False j by (simp add: E_def WEBRTC_SPL_SHIFT_W32_def shr_def)
    have "2 ^ (21 + j) \<le> 224 * D" using z(5) False j N D by auto
    then have "2097152 * 2 ^ j \<le> 224 * D" by (simp add: power_add)
    moreover have "(0 :: int) < 2 ^ j" by simp
    ultimately have "50 * 2 ^ j \<le> D" by linarith
    then have E50: "50 \<le> E" unfolding e using zdiv_mono1 [of "50 * 2 ^ j" D "2 ^ j"] by simp
    have "D mod 2 ^ j < 2 ^ j" by simp
    then have "D \<le> (E + 1) * 2 ^ j" unfolding e distrib_right using div_mult_mod_eq [of D "2 ^ j"] by linarith
    then have "D * 2 ^ n \<le> (E + 1) * (2 ^ j * 2 ^ n)" using mult_right_mono [of D "(E + 1) * 2 ^ j" "2 ^ n"] by (simp add: ac_simps)
    also have "(2 :: int) ^ j * 2 ^ n = 512" using j(1) by (simp add: add.commute flip: power_add)
    finally have Dn: "D * 2 ^ n \<le> (E + 1) * 512" .
    have "-112 * (D * 2 ^ n) \<le> N * 2 ^ n" "N * 2 ^ n \<le> 224 * (D * 2 ^ n)"
      using mult_right_mono [OF N(1), of "2 ^ n"] mult_right_mono [OF N(2), of "2 ^ n"] by (simp_all add: ac_simps)
    moreover have "0 < E \<and> - (59000 * E) \<le> q \<and> q \<le> 117000 * E"
      if "-112 * p \<le> q" "q \<le> 224 * p" "p \<le> (E + 1) * 512" for p q using that E50 by auto
    ultimately show ?thesis using Dn by blast
  qed
  show "WEBRTC_SPL_SHIFT_W32 D (norm_shift N D - 9) \<noteq> 0" using E by (simp add: E_def z_def)
  have "-59000 \<le> cdiv (N * 2 ^ n) E" "cdiv (N * 2 ^ n) E \<le> 117000" using cdiv_bounds [of E 59000 "N * 2 ^ n" 117000] E by auto
  then show "-59000 \<le> s32 (cdiv (mul32 N (shl32 1 (nat (norm_shift N D)))) (WEBRTC_SPL_SHIFT_W32 D (norm_shift N D - 9)))"
    "s32 (cdiv (mul32 N (shl32 1 (nat (norm_shift N D)))) (WEBRTC_SPL_SHIFT_W32 D (norm_shift N D - 9))) \<le> 117000"
    using num by (simp_all add: s32_idI flip: z_def n_def E_def)
qed

text \<open>The exponents, the entries and the whole table.\<close>

definition exponent_y :: "int \<Rightarrow> int \<Rightarrow> int" where
  "exponent_y N D = (let y = s32 (cdiv (mul32 N (shl32 1 (nat (norm_shift N D)))) (WEBRTC_SPL_SHIFT_W32 D (norm_shift N D - 9)))
     in if y \<ge> 0 then shr (add32 y 1) 1 else s32 (- shr (add32 (s32 (- y)) 1) 1))"

definition exponent_of :: "int \<Rightarrow> int" where
  "exponent_of y = add32 (if y > 39000 then shr (add32 (mul32 (shr y 1) 54426) 4096) 13
     else shr (add32 (mul32 y 54426) 8192) 14) (16 * 2 ^ 14)"

lemma exponent_of_range:
  assumes "-29501 \<le> y" "y \<le> 58501"
  shows "0 < exponent_of y" "exponent_of y < 475136"
proof -
  have "exponent_of y = (if y > 39000 then (y div 2 * 54426 + 4096) div 8192 else (y * 54426 + 8192) div 16384) + 262144"
    using assms by (auto simp: exponent_of_def mul32_def add32_def shr_def s32_idI)
  then show "0 < exponent_of y" "exponent_of y < 475136" using assms by (auto split: if_splits)
qed

lemma exponent_y_range:
  assumes "5120 \<le> D" "D \<le> 1000000" "-112 * D \<le> N" "N \<le> 224 * D"
  shows "-29501 \<le> exponent_y N D" "exponent_y N D \<le> 58501"
proof -
  define y where "y = s32 (cdiv (mul32 N (shl32 1 (nat (norm_shift N D)))) (WEBRTC_SPL_SHIFT_W32 D (norm_shift N D - 9)))"
  have y: "-59000 \<le> y" "y \<le> 117000" using normalised_quotient [OF assms] by (simp_all add: y_def)
  have "exponent_y N D = (if y \<ge> 0 then (y + 1) div 2 else - ((1 - y) div 2))"
    using y by (auto simp: exponent_y_def y_def [symmetric] add32_def shr_def s32_idI)
  then show "-29501 \<le> exponent_y N D" "exponent_y N D \<le> 58501" using y by (auto split: if_splits)
qed

lemma max_gain_numerator:
  assumes dg: "0 \<le> dg" "dg \<le> 124" and T: "T = kGenFuncTable ! nat dg"
    and mg: "mg \<le> 70" "-32 \<le> mg - dg" and la: "0 \<le> la" "16384 * la \<le> 23637 * (16384 * dg + 32881) + 270000000"
  shows "-112 * (20 * T) \<le> mg * T * 64 - la * dg" "mg * T * 64 - la * dg \<le> 224 * (20 * T)"
    "\<bar>mg * T * 64\<bar> \<le> 220000000" "la * dg \<le> 380000000"
proof -
  have t: "23637 * dg \<le> 64 * T + 64" "256 \<le> T" "T \<le> 46905"
    using gen_table [of dg] kGenFuncTable_bounds dg by (auto simp: T)
  have "la \<le> 23637 * dg + 63919" using la by auto
  then have lb: "la * dg \<le> (23637 * dg + 63919) * dg" using dg by (intro mult_right_mono) auto
  have sq: "23637 * dg * dg \<le> (64 * T + 64) * dg" using t dg by (intro mult_right_mono) auto
  have up: "mg * T \<le> 70 * T" using mg t by (intro mult_right_mono) auto
  have lo: "-32 * T \<le> (mg - dg) * T" using mg t by (intro mult_right_mono) auto
  have ab: "\<bar>mg\<bar> * T \<le> 70 * 46905" using mg t dg by (intro mult_mono) auto
  show "-112 * (20 * T) \<le> mg * T * 64 - la * dg" using lb sq lo t dg by (simp add: algebra_simps)
  show "mg * T * 64 - la * dg \<le> 224 * (20 * T)" using up la dg mult_nonneg_nonneg [of la dg] by linarith
  show "\<bar>mg * T * 64\<bar> \<le> 220000000" using ab t by (simp add: abs_mult mult.commute)
  have "la \<le> 3000000" using la dg by auto
  then have "la * dg \<le> 3000000 * 124" using la dg by (intro mult_mono) auto
  then show "la * dg \<le> 380000000" by simp
qed

lemma gain_exponent_ok:
  assumes dg: "0 \<le> dg" "dg \<le> 124" and mg: "mg \<le> 70" "-32 \<le> mg - dg"
    and i: "0 \<le> i" "i \<le> 31" and lim: "le \<noteq> 0 \<longrightarrow> i < lidx \<longrightarrow> (i - 1) * 49321 - lvl * 16384 \<le> 1150000" and lvl: "0 \<le> lvl" "lvl \<le> 31"
  shows "\<exists>e. gain_exponent dg mg (kGenFuncTable ! nat dg) le lidx lvl i = Some e \<and> 0 < e \<and> e < 475136"
proof -
  define T where "T = kGenFuncTable ! nat dg"
  have t: "256 \<le> T" "T \<le> 46905" using gen_table [of dg] dg by (auto simp: T_def)
  define x where "x = dg * 16384 - cdiv (2 * (i - 1) * 49321 + 1) 3"
  have c: "-32881 \<le> cdiv (2 * (i - 1) * 49321 + 1) 3" "cdiv (2 * (i - 1) * 49321 + 1) 3 \<le> 986421"
    using cdiv_bounds [of 3 32881 "2 * (i - 1) * 49321 + 1" 986421] i by auto
  have x: "-1048576 < x" "x < 2080768" "x \<le> 16384 * dg + 32881" using c dg by (auto simp: x_def)
  have x0: "sub32 (mul32 dg (2 ^ 14)) (WebRtcSpl_DivW32W16 (add32 (WEBRTC_SPL_MUL_16_U16 (s16 (2 * (i - 1))) 49321) 1) 3) = x"
    using i dg c x by (simp add: WEBRTC_SPL_MUL_16_U16_def WebRtcSpl_DivW32W16_def sub32_def mul32_def add32_def s16_idI s32_idI u16_def x_def algebra_simps)
  obtain la where la: "log_approx x = Some la" "0 \<le> la" "16384 * la \<le> 23637 * max 0 x + 270000000" using log_approx_ok [OF x(1,2)] by auto
  then have la': "16384 * la \<le> 23637 * (16384 * dg + 32881) + 270000000" using x(3) dg by auto
  note mn = max_gain_numerator [OF dg T_def mg la(2) la']
  define N where "N = mg * T * 64 - la * dg"
  have n: "sub32 (mul32 (mul32 mg T) (2 ^ 6)) (mul32 (s32 la) dg) = N"
  proof -
    have "\<bar>mg * T\<bar> \<le> 220000000" using mn(3) by linarith
    moreover have "la \<le> 3000000" using la' dg by auto
    moreover have "0 \<le> la * dg" using la dg by simp
    ultimately have "s32 (mg * T) = mg * T" "s32 (mg * T * 64) = mg * T * 64" "s32 la = la" "s32 (la * dg) = la * dg"
      "s32 (mg * T * 64 - la * dg) = mg * T * 64 - la * dg" using mn(3,4) la(2) by (intro s32_idI; linarith)+
    then show ?thesis by (simp add: sub32_def mul32_def N_def)
  qed
  have D: "WEBRTC_SPL_MUL_16_U16 20 T = 20 * T" using t by (simp add: WEBRTC_SPL_MUL_16_U16_def mul32_def u16_def s16_idI s32_idI)
  have D': "5120 \<le> 20 * T" "20 * T \<le> 1000000" using t by auto
  note nq = normalised_quotient(1) [OF D' mn(1,2), folded N_def]
  note ey = exponent_y_range [OF D' mn(1,2), folded N_def]
  define y where "y = (if le \<noteq> 0 \<and> i < lidx then WebRtcSpl_DivW32W16 (add32 (sub32 (WEBRTC_SPL_MUL_16_U16 (i - 1) 49321) (mul32 lvl (2 ^ 14))) 10) 20
    else exponent_y N (20 * T))"
  have "gain_exponent dg mg T le lidx lvl i = Some (exponent_of y)"
    unfolding gain_exponent_def Let_def x0 la(1) option.case D n norm_shift_def [symmetric]
    using nq by (simp add: y_def exponent_y_def exponent_of_def Let_def)
  moreover have "-29501 \<le> y" "y \<le> 58501"
  proof -
    have "WebRtcSpl_DivW32W16 (add32 (sub32 (WEBRTC_SPL_MUL_16_U16 (i - 1) 49321) (mul32 lvl (2 ^ 14))) 10) 20 = cdiv ((i - 1) * 49321 - lvl * 16384 + 10) 20"
      using i lvl cdiv_bounds [of 20 2000000 "(i - 1) * 49321 - lvl * 16384 + 10" 2000000]
      by (simp add: WEBRTC_SPL_MUL_16_U16_def WebRtcSpl_DivW32W16_def sub32_def mul32_def add32_def s16_idI s32_idI u16_def)
    then have "-29501 \<le> y \<and> y \<le> 58501" using ey lim i lvl cdiv_bounds [of 20 29501 "(i - 1) * 49321 - lvl * 16384 + 10" 58501]
      by (auto simp: y_def)
    then show "-29501 \<le> y" "y \<le> 58501" by auto
  qed
  ultimately show ?thesis using exponent_of_range by (auto simp: T_def)
qed

lemma pow2_q16_ok:
  assumes "0 < e" "e < 475136"
  shows "\<exists>v. pow2_q16 e = Some v \<and> 0 \<le> v \<and> v < 536870912"
proof -
  define k f where "k = e div 16384" and "f = e mod 16384"
  have k: "0 \<le> k" "k \<le> 28" and f: "0 \<le> f" "f < 16384" using assms by (auto simp: k_def f_def)
  have kf: "u16 (s16 (shr e 14)) = k" "u16 (e AND 0x00003FFF) = f"
    using k f by (simp_all add: shr_def s16_idI u16_def and_3fff14 flip: k_def f_def)
  define g where "g = (if f div 8192 \<noteq> 0 then 16384 - (16384 - f) * 9951 div 8192 else f * 6433 div 8192)"
  have g: "0 \<le> g" "g < 16384" using f by (auto simp: g_def)
  have eg: "u16 (if shr f 13 \<noteq> 0 then sub32 16384 (shr (mul32 (16384 - f) (s16 (32768 - 22817))) 13) else shr (mul32 f (s16 (22817 - 16384))) 13) = g"
    using f g by (auto simp: g_def shr_def mul32_def sub32_def s16_idI s32_idI u16_def)
  have p: "(2 :: int) ^ nat k \<le> 268435456" using power_increasing [of "nat k" 28 "2 :: int"] k by simp
  have one: "shl32 1 (nat k) = 2 ^ nat k" using p by (simp add: shl32_def s32_idI order_trans [of _ 0])
  have w: "0 \<le> WEBRTC_SPL_SHIFT_W32 g (k - 14) \<and> WEBRTC_SPL_SHIFT_W32 g (k - 14) < 2 ^ nat k \<or> k < 14 \<and> WEBRTC_SPL_SHIFT_W32 g (k - 14) \<le> 16384 \<and> 0 \<le> WEBRTC_SPL_SHIFT_W32 g (k - 14)"
  proof (cases "14 \<le> k")
    case True
    have q: "(2 :: int) ^ nat k = 16384 * 2 ^ nat (k - 14)"
      using True power_add [of "2 :: int" 14 "nat (k - 14)"] by (simp add: nat_diff_distrib)
    then have "g * 2 ^ nat (k - 14) < 2 ^ nat k" using g by simp
    moreover have "0 \<le> g * 2 ^ nat (k - 14)" using g by simp
    moreover have "shl32 1 (nat (k - 14)) = 2 ^ nat (k - 14)" using p q by (simp add: shl32_def s32_idI order_trans [of _ 0])
    ultimately show ?thesis using True p by (simp add: WEBRTC_SPL_SHIFT_W32_def mul32_def s32_idI)
  next
    case False
    have "g div 2 ^ nat (14 - k) \<le> g" using g zdiv_mono2 [of g 1 "2 ^ nat (14 - k)"] by simp
    then show ?thesis using False g by (simp add: WEBRTC_SPL_SHIFT_W32_def shr_def pos_imp_zdiv_nonneg_iff)
  qed
  have "pow2_q16 e = Some (add32 (2 ^ nat k) (WEBRTC_SPL_SHIFT_W32 g (k - 14)))"
    unfolding pow2_q16_def Let_def kf eg one using assms k by simp
  moreover have "add32 (2 ^ nat k) (WEBRTC_SPL_SHIFT_W32 g (k - 14)) = 2 ^ nat k + WEBRTC_SPL_SHIFT_W32 g (k - 14)"
    using w p by (auto simp: add32_def intro!: s32_idI intro: order_trans [of _ 0])
  ultimately show ?thesis using w p by (auto intro: add_nonneg_nonneg)
qed

definition gain_table_ok :: "int list \<Rightarrow> bool" where
  "gain_table_ok t \<longleftrightarrow> length t = 32 \<and> (\<forall>g\<in>set t. 0 \<le> g \<and> g < 536870912)"

lemma gain_table_loop_ok:
  assumes "\<And>i. int k \<le> i \<Longrightarrow> i < int (k + n) \<Longrightarrow> \<exists>e. entry i = Some e \<and> 0 < e \<and> e < 475136"
    and "k + n \<le> length t" "\<forall>g\<in>set (take k t). 0 \<le> g \<and> g < 536870912"
  shows "\<exists>t'. gain_table_loop n k entry t = Some t' \<and> length t' = length t \<and> (\<forall>g\<in>set (take (k + n) t'). 0 \<le> g \<and> g < 536870912)"
  using assms
proof (induction n arbitrary: k t)
  case 0
  then show ?case by simp
next
  case (Suc n)
  obtain e where e: "entry (int k) = Some e" "0 < e" "e < 475136" using Suc.prems(1) [of "int k"] by auto
  obtain v where v: "pow2_q16 e = Some v" "0 \<le> v" "v < 536870912" using pow2_q16_ok [OF e(2,3)] by auto
  have "take (Suc k) (t[k := v]) = take k t @ [v]" using Suc.prems(2) by (simp add: take_Suc_conv_app_nth)
  then have "\<exists>t'. gain_table_loop n (Suc k) entry (t[k := v]) = Some t' \<and> length t' = length (t[k := v]) \<and>
      (\<forall>g\<in>set (take (Suc k + n) t'). 0 \<le> g \<and> g < 536870912)"
    using Suc.prems v by (intro Suc.IH) auto
  then show ?case using e v by auto
qed

text \<open>
  The range of settings for which the table is a table of gains below \<open>2 ^ 29\<close>: both the difference of the
  digital reference and the target and the largest gain are at most 70 dB.
\<close>

definition settings_ok :: "int \<Rightarrow> int \<Rightarrow> int \<Rightarrow> bool" where
  "settings_ok dC tL aT \<longleftrightarrow> 0 \<le> dC \<and> dC \<le> 186 \<and> 0 \<le> tL \<and> tL \<le> 31 \<and> 0 \<le> aT \<and> aT - tL \<le> 70 \<and>
     aT - tL + cdiv (2 * (dC - aT) + 1) 3 \<le> 70"

lemma limiter_level:
  assumes "0 \<le> aT" "aT - tL \<le> 70" "i \<le> 31" "i < 2 + cdiv (aT * 8192) 24660"
  shows "(i - 1) * 49321 - tL * 16384 \<le> 1150000"
proof -
  have "cdiv (aT * 8192) 24660 = aT * 8192 div 24660" using assms by (simp add: cdiv_pos)
  then have "(i - 1) * 24660 \<le> aT * 8192" using assms(4) by simp
  then show ?thesis using assms(2,3) by (simp add: algebra_simps)
qed

lemma cdiv3:
  shows "3 * cdiv x 3 \<le> max 0 (x + 2)" "x - 2 \<le> 3 * cdiv x 3"
  by (cases "0 \<le> x"; use cdiv_neg [of "- x" 3] in \<open>auto simp: cdiv_pos\<close>)+

lemma CalculateGainTable_ok:
  assumes ok: "settings_ok dC tL aT" and t: "length t = 32"
  shows "\<exists>t'. WebRtcAgc_CalculateGainTable t dC tL le aT = Some (0, t') \<and> gain_table_ok t'"
proof -
  note b = ok [unfolded settings_ok_def]
  define q where "q = cdiv (2 * (dC - aT) + 1) 3"
  define mg where "mg = max (aT - tL + q) (aT - tL)"
  define dg where "dg = cdiv (2 * dC + 1) 3"
  have q: "3 * q \<le> max 0 (2 * (dC - aT) + 3)" "2 * (dC - aT) - 1 \<le> 3 * q" using cdiv3 [of "2 * (dC - aT) + 1"] by (auto simp: q_def)
  have dg: "3 * dg \<le> 2 * dC + 1" "0 \<le> dg" "dg \<le> 124" using b by (auto simp: dg_def cdiv_pos)
  have mg: "mg \<le> 70" "-32 \<le> mg - dg" "\<bar>mg\<bar> \<le> 1000" using b q dg by (auto simp: mg_def q_def)
  have s: "s16 (aT - tL) = aT - tL" "s16 q = q" "s16 (aT - tL + q) = aT - tL + q" "s16 mg = mg" "s16 dg = dg" "s32 (dC * 2) = dC * 2" "s16 aT = aT"
    "s32 ((dC - aT) * 2) = (dC - aT) * 2" "s32 ((dC - aT) * 2 + 1) = (dC - aT) * 2 + 1" "s32 (dC * 2 + 1) = dC * 2 + 1"
    using b q dg mg by (auto intro!: s16_idI s32_idI)
  have sq: "WebRtcSpl_DivW32W16ResW16 (add32 (mul32 (dC - aT) 2) 1) 3 = q" "WebRtcSpl_DivW32W16ResW16 (add32 (mul32 dC 2) 1) 3 = dg"
    unfolding WebRtcSpl_DivW32W16ResW16_def add32_def mul32_def s q_def dg_def using s(2,5) by (simp_all add: q_def dg_def mult.commute)
  define lx where "lx = cdiv (aT * 8192) 24660"
  have lx: "0 \<le> lx" "lx \<le> 1000" using b by (auto simp: lx_def cdiv_pos)
  have lim: "s16 (2 + WebRtcSpl_DivW32W16ResW16 (mul32 (s16 (aT - 0)) (2 ^ 13)) (s16 (cdiv 49321 2))) = 2 + lx"
    using b s lx by (simp add: WebRtcSpl_DivW32W16ResW16_def mul32_def s32_idI s16_idI cdiv_pos flip: lx_def)
  have lvl: "add32 tL (WebRtcSpl_DivW32W16ResW16 (0 + shr 3 1) 3) = tL"
    using b by (simp add: WebRtcSpl_DivW32W16ResW16_def add32_def shr_def cdiv_def s32_idI s16_idI)
  have "\<exists>e. gain_exponent dg mg (kGenFuncTable ! nat dg) le (2 + lx) tL i = Some e \<and> 0 < e \<and> e < 475136" if "0 \<le> i" "i < 32" for i
    using that b limiter_level [of aT tL i] by (intro gain_exponent_ok [OF dg(2,3) mg(1,2)]) (auto simp: lx_def)
  then have "\<exists>t'. gain_table_loop 32 0 (gain_exponent dg mg (kGenFuncTable ! nat dg) le (2 + lx) tL) t = Some t' \<and> length t' = length t \<and>
      (\<forall>g\<in>set (take (0 + 32) t'). 0 \<le> g \<and> g < 536870912)"
    using t by (intro gain_table_loop_ok) auto
  moreover have "\<not> (dg < 0 \<or> dg \<ge> kGenFuncTableSize)" using dg by (simp add: kGenFuncTableSize_def)
  moreover have "WebRtcAgc_CalculateGainTable t dC tL le aT = (if dg < 0 \<or> dg \<ge> kGenFuncTableSize then Some (-1, t)
     else map_option (\<lambda>t. (0, t)) (gain_table_loop 32 0 (gain_exponent dg mg (kGenFuncTable ! nat dg) le (2 + lx) tL) t))"
    unfolding WebRtcAgc_CalculateGainTable_def Let_def lim lvl using sq s by (simp add: mg_def shr_def)
  ultimately show ?thesis using t by (auto simp: gain_table_ok_def)
qed

subsection \<open>The table for the settings of the modes\<close>

lemma fixed_settings:
  assumes "0 \<le> c" "c \<le> 70" "0 \<le> tL" "tL \<le> 31"
  shows "settings_ok (c + tL) tL (c + tL)"
  using assms by (simp add: settings_ok_def cdiv_def)

lemma adaptive_settings:
  assumes "0 \<le> c" "c \<le> 70" "0 \<le> tL" "tL \<le> 31"
  shows "settings_ok c tL (4 + (5 * c + 5) div 11)"
proof -
  define aT where "aT = 4 + (5 * c + 5) div 11"
  have "4 \<le> aT" "aT \<le> 36" using assms by (auto simp: aT_def)
  moreover have "3 * cdiv (2 * (c - aT) + 1) 3 \<le> max 0 (2 * (c - aT) + 3)" using cdiv3(1) [of "2 * (c - aT) + 1"] by simp
  ultimately have "settings_ok c tL aT" using assms by (auto simp: settings_ok_def max_def split: if_splits)
  then show ?thesis by (simp add: aT_def)
qed

lemma log_approx_overrun:
  assumes "2080768 \<le> x" "x < 1073741824"
  shows "log_approx x = None"
proof -
  have "u16 (shr (u32 x) 14) = x div 16384" using assms by (simp add: u32_idI shr_def u16_def)
  moreover have "127 \<le> x div 16384" using assms by auto
  ultimately show ?thesis using assms unfolding log_approx_def Let_def by (simp add: kGenFuncTableSize_def)
qed

text \<open>C17: For compression gains of 0 to 70 dB and targets of 0 to 31 dB, with and without the limiter, the gain table of the
  fixed digital mode and that of the adaptive modes are computed without a read outside the generator table,
  a division by zero or a shift out of range, and hold 32 gains below \<open>2 ^ 29\<close> (13 bits above one).\<close>

theorem gain_table_in_range:
  assumes "0 \<le> c" "c \<le> 70" "0 \<le> tL" "tL \<le> 31" "length t = 32"
  shows "(\<exists>u. WebRtcAgc_CalculateGainTable t (c + tL) tL limiter (c + tL) = Some (0, u) \<and> length u = 32 \<and> (\<forall>g\<in>set u. 0 \<le> g \<and> g < 2 ^ 29))
    \<and> (\<exists>u. WebRtcAgc_CalculateGainTable t c tL limiter (4 + (5 * c + 5) div 11) = Some (0, u) \<and> length u = 32 \<and> (\<forall>g\<in>set u. 0 \<le> g \<and> g < 2 ^ 29))"
  using CalculateGainTable_ok [OF fixed_settings [OF assms(1-4)] assms(5), of limiter]
    CalculateGainTable_ok [OF adaptive_settings [OF assms(1-4)] assms(5), of limiter]
  by (auto simp: gain_table_ok_def)

theorem gain_table_in_range_witness:
  "\<exists>u. WebRtcAgc_CalculateGainTable (replicate 32 0) 9 3 1 8 = Some (0, u) \<and> length u = 32 \<and> (\<forall>g\<in>set u. 0 \<le> g \<and> g < 2 ^ 29)"
  using gain_table_in_range [of 9 3 "replicate 32 0" 1] by simp

text \<open>C20: The check of the compression gain is five settings too wide: 187 to 191 dB pass it and make the
  interpolation read past the end of the generator table; from 192 dB on the call returns -1 and leaves the table.\<close>

theorem gain_table_overrun:
  "187 \<le> c \<Longrightarrow> c \<le> 10000 \<Longrightarrow> WebRtcAgc_CalculateGainTable t c tL limiter aT = (if c \<le> 191 then None else Some (-1, t))"
proof -
  assume c: "187 \<le> c" "c \<le> 10000"
  define dg where "dg = (2 * c + 1) div 3"
  have dg: "125 \<le> dg" "dg \<le> 7000" "c \<le> 191 \<longleftrightarrow> dg < 128" using c by (auto simp: dg_def)
  have d: "WebRtcSpl_DivW32W16ResW16 (add32 (mul32 c 2) 1) 3 = dg"
    using c dg by (simp add: WebRtcSpl_DivW32W16ResW16_def add32_def mul32_def s32_idI s16_idI cdiv_pos dg_def mult.commute)
  have "gain_exponent dg mg T le lidx lvl 0 = None" if "dg < 128" for mg T le lidx lvl
  proof -
    have "sub32 (mul32 dg (2 ^ 14)) (WebRtcSpl_DivW32W16 (add32 (WEBRTC_SPL_MUL_16_U16 (s16 (2 * (0 - 1))) 49321) 1) 3) = dg * 16384 + 32880"
      using dg that by (simp add: WEBRTC_SPL_MUL_16_U16_def WebRtcSpl_DivW32W16_def sub32_def mul32_def add32_def s16_idI s32_idI u16_def cdiv_def)
    moreover have "log_approx (dg * 16384 + 32880) = None" using dg that by (intro log_approx_overrun) auto
    ultimately show ?thesis unfolding gain_exponent_def Let_def by simp
  qed
  then show ?thesis using dg d by (simp add: WebRtcAgc_CalculateGainTable_def kGenFuncTableSize_def Let_def shr_def numeral_eq_Suc)
qed

theorem gain_table_overrun_witness:
  "WebRtcAgc_CalculateGainTable (replicate 32 0) 190 3 1 90 = None"
  using gain_table_overrun [of 190 "replicate 32 0" 3 1 90] by simp

end
