(* ===== verification/Agc_Digital.thy ===== *)
theory Agc_Digital
  imports Agc_Table
begin

section \<open>Gain control: the digital part (\<open>agc/legacy/digital_agc.cc\<close>)\<close>

text \<open>
  The level detector of the gain control, the gains of a 10 ms frame and their application. The records
  \<open>AgcVad\<close> and \<open>DigitalAgc\<close> are the C structs. \<open>None\<close> is an access outside an array; the overload loop,
  which may run forever, is a partial function. A signal is a list of bands, each a list of samples.
\<close>

unbundle bit_operations_syntax

subsection \<open>State\<close>

record AgcVad =
  downState :: "int list"
  HPstate :: int
  counter :: int
  logRatio :: int
  meanLongTerm :: int
  varianceLongTerm :: int
  stdLongTerm :: int
  meanShortTerm :: int
  varianceShortTerm :: int
  stdShortTerm :: int

record DigitalAgc =
  capacitorSlow :: int
  capacitorFast :: int
  gain :: int
  gainTable :: "int list"
  gatePrevious :: int
  agcMode :: int
  vadNearend :: AgcVad
  vadFarend :: AgcVad

definition kAgcModeUnchanged :: int where "kAgcModeUnchanged = 0"
definition kAgcModeAdaptiveAnalog :: int where "kAgcModeAdaptiveAnalog = 1"
definition kAgcModeAdaptiveDigital :: int where "kAgcModeAdaptiveDigital = 2"
definition kAgcModeFixedDigital :: int where "kAgcModeFixedDigital = 3"

lemmas agc_modes = kAgcModeUnchanged_def kAgcModeAdaptiveAnalog_def kAgcModeAdaptiveDigital_def kAgcModeFixedDigital_def

definition kAvgDecayTime :: int where "kAvgDecayTime = 250"

subsection \<open>The level detector\<close>

definition WebRtcAgc_InitVad :: "AgcVad \<Rightarrow> AgcVad" where
  "WebRtcAgc_InitVad state = state\<lparr>HPstate := 0, logRatio := 0, meanLongTerm := 15 * 2 ^ 10,
     varianceLongTerm := 500 * 2 ^ 8, stdLongTerm := 0, meanShortTerm := 15 * 2 ^ 10,
     varianceShortTerm := 500 * 2 ^ 8, stdShortTerm := 0, counter := 3, downState := replicate 8 0\<rparr>"

text \<open>High pass filter and energy over the four samples of a sub frame.\<close>

fun agc_hp_loop :: "int list \<Rightarrow> int \<Rightarrow> int \<Rightarrow> int \<times> int" where
  "agc_hp_loop [] HP nrg = (HP, nrg)"
| "agc_hp_loop (b # bs) HP nrg =
     (let out = b + HP;
          tmp32 = mul32 600 out;
          HP = s16 (shr tmp32 10 - b);
          nrg = u32 (nrg + u32 (mul32 out (cdiv out (2 ^ 6))));
          nrg = u32 (nrg + u32 (cdiv (mul32 out (crem out (2 ^ 6))) (2 ^ 6)))
      in agc_hp_loop bs HP nrg)"

fun agc_vad_subframes :: "nat \<Rightarrow> nat \<Rightarrow> int list \<Rightarrow> int list \<Rightarrow> int \<Rightarrow> int \<Rightarrow> int list \<times> int \<times> int" where
  "agc_vad_subframes 0 nrSamples inp down HP nrg = (down, HP, nrg)"
| "agc_vad_subframes (Suc n) nrSamples inp down HP nrg =
     (let (inp, buf2, down) =
            (if nrSamples = 160
             then let buf1 = map (\<lambda>k. s16 (shr (inp ! (2 * k) + inp ! (2 * k + 1)) 1)) [0..<8];
                      (buf2, down) = WebRtcSpl_DownsampleBy2 buf1 8 down
                  in (drop 16 inp, buf2, down)
             else let (buf2, down) = WebRtcSpl_DownsampleBy2 inp 8 down in (drop 8 inp, buf2, down));
          (HP, nrg) = agc_hp_loop buf2 HP nrg
      in agc_vad_subframes n nrSamples inp down HP nrg)"

definition agc_zeros :: "int \<Rightarrow> int" where
  "agc_zeros nrg =
     (let zeros = (if 0xFFFF0000 AND nrg = 0 then 16 else 0);
          zeros = (if 0xFF000000 AND u32 (nrg * 2 ^ zeros) = 0 then zeros + 8 else zeros);
          zeros = (if 0xF0000000 AND u32 (nrg * 2 ^ zeros) = 0 then zeros + 4 else zeros);
          zeros = (if 0xC0000000 AND u32 (nrg * 2 ^ zeros) = 0 then zeros + 2 else zeros);
          zeros = (if 0x80000000 AND u32 (nrg * 2 ^ zeros) = 0 then zeros + 1 else (zeros :: nat))
      in int zeros)"

text \<open>The statistics of the level and the log ratio, in the order of the code.\<close>

definition agc_count :: "AgcVad \<Rightarrow> AgcVad" where
  "agc_count state = (if counter state < kAvgDecayTime then state\<lparr>counter := s16 (counter state + 1)\<rparr> else state)"

definition agc_short_term :: "int \<Rightarrow> AgcVad \<Rightarrow> AgcVad" where
  "agc_short_term dB state =
     (let mean = s16 (shr (add32 (mul32 (meanShortTerm state) 15) dB) 4);
          tmp32 = shr (mul32 dB dB) 12;
          tmp32 = add32 tmp32 (mul32 (varianceShortTerm state) 15);
          variance = s32 (cdiv tmp32 16);
          tmp32 = mul32 mean mean;
          tmp32 = sub32 (shl32 variance 12) tmp32
      in state\<lparr>meanShortTerm := mean, varianceShortTerm := variance, stdShortTerm := s16 (WebRtcSpl_Sqrt tmp32)\<rparr>)"

definition agc_long_term :: "int \<Rightarrow> AgcVad \<Rightarrow> AgcVad" where
  "agc_long_term dB state =
     (let tmp32 = add32 (mul32 (meanLongTerm state) (counter state)) dB;
          mean = WebRtcSpl_DivW32W16ResW16 tmp32 (WebRtcSpl_AddSatW16 (counter state) 1);
          tmp32 = shr (mul32 dB dB) 12;
          tmp32 = add32 tmp32 (mul32 (varianceLongTerm state) (counter state));
          variance = WebRtcSpl_DivW32W16 tmp32 (WebRtcSpl_AddSatW16 (counter state) 1);
          tmp32 = mul32 mean mean;
          tmp32 = sub32 (shl32 variance 12) tmp32
      in state\<lparr>meanLongTerm := mean, varianceLongTerm := variance, stdLongTerm := s16 (WebRtcSpl_Sqrt tmp32)\<rparr>)"

definition agc_log_ratio :: "int \<Rightarrow> AgcVad \<Rightarrow> AgcVad" where
  "agc_log_ratio dB state =
     (let tmp16 = 3 * 2 ^ 12;
          tmp32 = mul32 tmp16 (s16 (dB - meanLongTerm state));
          tmp32 = WebRtcSpl_DivW32W16 tmp32 (stdLongTerm state);
          tmpU16 = 13 * 2 ^ 12;
          tmp32b = WEBRTC_SPL_MUL_16_U16 (logRatio state) tmpU16;
          tmp64 = tmp32;
          tmp64 = s64 (tmp64 + shr tmp32b 10);
          tmp64 = shr tmp64 6;
          tmp64 = (if tmp64 > 2048 then 2048 else if tmp64 < -2048 then -2048 else tmp64)
      in state\<lparr>logRatio := s16 tmp64\<rparr>)"

definition agc_vad_update :: "int \<Rightarrow> AgcVad \<Rightarrow> AgcVad" where
  "agc_vad_update dB state = agc_log_ratio dB (agc_long_term dB (agc_short_term dB (agc_count state)))"

definition WebRtcAgc_ProcessVad :: "AgcVad \<Rightarrow> int list \<Rightarrow> nat \<Rightarrow> (int \<times> AgcVad) option" where
  "WebRtcAgc_ProcessVad state inp nrSamples =
     (if length inp < (if nrSamples = 160 then 160 else 80) then None
      else let
        (down, HP, nrg) = agc_vad_subframes 10 nrSamples inp (downState state) (HPstate state) 0;
        state = state\<lparr>downState := down, HPstate := HP\<rparr>;
        dB = s16 (mul32 (15 - agc_zeros nrg) (2 ^ 11));
        state = agc_vad_update dB state
      in Some (logRatio state, state))"

subsection \<open>The digital gain control\<close>

definition WebRtcAgc_InitDigital :: "DigitalAgc \<Rightarrow> int \<Rightarrow> int \<times> DigitalAgc" where
  "WebRtcAgc_InitDigital stt mode =
     (let stt = (if mode = kAgcModeFixedDigital then stt\<lparr>capacitorSlow := 0\<rparr> else stt\<lparr>capacitorSlow := 134217728\<rparr>);
          stt = stt\<lparr>capacitorFast := 0, gain := 65536, gatePrevious := 0, agcMode := mode\<rparr>;
          stt = stt\<lparr>vadNearend := WebRtcAgc_InitVad (vadNearend stt)\<rparr>;
          stt = stt\<lparr>vadFarend := WebRtcAgc_InitVad (vadFarend stt)\<rparr>
      in (0, stt))"

definition WebRtcAgc_AddFarendToDigital :: "DigitalAgc \<Rightarrow> int list \<Rightarrow> nat \<Rightarrow> (int \<times> DigitalAgc) option" where
  "WebRtcAgc_AddFarendToDigital stt in_far nrSamples =
     map_option (\<lambda>(_, v). (0, stt\<lparr>vadFarend := v\<rparr>)) (WebRtcAgc_ProcessVad (vadFarend stt) in_far nrSamples)"

text \<open>Samples per millisecond and their logarithm.\<close>

definition agc_subframe :: "int \<Rightarrow> (nat \<times> nat) option" where
  "agc_subframe FS = (if FS = 8000 then Some (8, 3)
     else if FS = 16000 \<or> FS = 32000 \<or> FS = 48000 then Some (16, 4) else None)"

text \<open>The log ratio lowered by the activity of the far end.\<close>

definition far_log_ratio :: "DigitalAgc \<Rightarrow> int \<Rightarrow> int" where
  "far_log_ratio stt logratio =
     (if counter (vadFarend stt) > 10 then s16 (shr (3 * logratio - logRatio (vadFarend stt)) 2) else logratio)"

definition agc_decay :: "DigitalAgc \<Rightarrow> int \<Rightarrow> int \<Rightarrow> int" where
  "agc_decay stt logratio lowlevelSignal =
     (let upper_thr = 1024; lower_thr = 0;
          decay = (if logratio > upper_thr then -65
                   else if logratio < lower_thr then 0
                   else s16 (shr (mul32 (lower_thr - logratio) 65) 10))
      in if agcMode stt \<noteq> kAgcModeFixedDigital
         then let
           decay = (if stdLongTerm (vadNearend stt) < 4000 then 0
                    else if stdLongTerm (vadNearend stt) < 8096
                    then s16 (shr (mul32 (stdLongTerm (vadNearend stt) - 4000) decay) 12) else decay)
         in if lowlevelSignal \<noteq> 0 then 0 else decay
         else decay)"

text \<open>The largest energy of the \<open>n\<close> samples from position \<open>pos\<close> on.\<close>

fun max_nrg_loop :: "nat \<Rightarrow> nat \<Rightarrow> int list \<Rightarrow> int \<Rightarrow> int" where
  "max_nrg_loop 0 pos xs max_nrg = max_nrg"
| "max_nrg_loop (Suc n) pos xs max_nrg =
     (let nrg = mul32 (xs ! pos) (xs ! pos) in max_nrg_loop n (pos + 1) xs (if nrg > max_nrg then nrg else max_nrg))"

definition agc_envelope :: "nat \<Rightarrow> int list \<Rightarrow> int list" where
  "agc_envelope L xs = map (\<lambda>k. max_nrg_loop L (k * L) xs 0) [0..<10]"

text \<open>Level to gain by the table: leading zeros, fraction and interpolated gain.\<close>

definition level_gain :: "int list \<Rightarrow> int \<Rightarrow> (int \<times> int \<times> int) option" where
  "level_gain table cur_level =
     (let zeros = WebRtcSpl_NormU32 (u32 cur_level);
          zeros = (if cur_level = 0 then 31 else zeros);
          tmp32 = u32 (u32 cur_level * 2 ^ nat zeros) AND 0x7FFFFFFF;
          frac = s16 (shr tmp32 19)
      in if zeros < 1 \<or> length table \<le> nat zeros then None
         else let
           tmp32 = s32 (shr (s64 (sub32 (table ! nat (zeros - 1)) (table ! nat zeros) * frac)) 12)
         in Some (zeros, frac, add32 (table ! nat zeros) tmp32))"

text \<open>The fast and the slow envelope follower.\<close>

definition next_fast :: "int \<Rightarrow> DigitalAgc \<Rightarrow> int" where
  "next_fast e stt = (let fast = AGC_SCALEDIFF32 (-1000) (capacitorFast stt) (capacitorFast stt) in if e > fast then e else fast)"

definition next_slow :: "int \<Rightarrow> int \<Rightarrow> DigitalAgc \<Rightarrow> int" where
  "next_slow e decay stt =
     (if e > capacitorSlow stt
      then AGC_SCALEDIFF32 500 (sub32 e (capacitorSlow stt)) (capacitorSlow stt)
      else AGC_SCALEDIFF32 decay (capacitorSlow stt) (capacitorSlow stt))"

fun agc_gain_loop :: "int list \<Rightarrow> int \<Rightarrow> DigitalAgc \<Rightarrow> int \<times> int \<Rightarrow> (int list \<times> DigitalAgc \<times> int \<times> int) option" where
  "agc_gain_loop [] decay stt zf = Some ([], stt, zf)"
| "agc_gain_loop (e # env) decay stt zf =
     (let stt = stt\<lparr>capacitorFast := next_fast e stt, capacitorSlow := next_slow e decay stt\<rparr>;
          cur_level = (if capacitorFast stt > capacitorSlow stt then capacitorFast stt else capacitorSlow stt)
      in case level_gain (gainTable stt) cur_level of None \<Rightarrow> None
         | Some (zeros, frac, g) \<Rightarrow>
             (case agc_gain_loop env decay stt (zeros, frac) of None \<Rightarrow> None
              | Some (gs, r) \<Rightarrow> Some (g # gs, r)))"

text \<open>The gate value in front of the gains.\<close>

definition gate_value :: "DigitalAgc \<Rightarrow> int \<Rightarrow> int \<Rightarrow> int" where
  "gate_value stt zeros frac =
     (let zeros = s16 (shl32 zeros 9 - shr frac 3);
          zeros_fast = WebRtcSpl_NormU32 (u32 (capacitorFast stt));
          zeros_fast = (if capacitorFast stt = 0 then 31 else zeros_fast);
          tmp32 = u32 (u32 (capacitorFast stt) * 2 ^ nat zeros_fast) AND 0x7FFFFFFF;
          zeros_fast = s16 (zeros_fast * 2 ^ 9);
          zeros_fast = s16 (zeros_fast - s16 (shr tmp32 22))
      in s16 (1000 + zeros_fast - zeros - stdShortTerm (vadNearend stt)))"

definition agc_gate :: "DigitalAgc \<Rightarrow> int \<Rightarrow> int \<Rightarrow> int \<times> DigitalAgc" where
  "agc_gate stt zeros frac =
     (let gate = gate_value stt zeros frac
      in if gate < 0 then (gate, stt\<lparr>gatePrevious := 0\<rparr>)
         else let gate = s16 (shr (gate + gatePrevious stt * 7) 3) in (gate, stt\<lparr>gatePrevious := gate\<rparr>))"

definition gated_gain :: "int \<Rightarrow> int \<Rightarrow> int \<Rightarrow> int" where
  "gated_gain t0 gain_adj g =
     (let tmp32 = (if sub32 g t0 > 8388608
                   then mul32 (shr (sub32 g t0) 8) (178 + gain_adj)
                   else shr (mul32 (sub32 g t0) (178 + gain_adj)) 8)
      in add32 t0 tmp32)"

definition apply_gate :: "int \<Rightarrow> int \<Rightarrow> int list \<Rightarrow> int list" where
  "apply_gate t0 gate gs =
     (if gate > 0
      then let gain_adj = (if gate < 2500 then s16 (shr (2500 - gate) 5) else 0) in map (gated_gain t0 gain_adj) gs
      else gs)"

text \<open>The overload protection: the gain is lowered by 0.1 dB until the squared product fits.\<close>

definition limit_square :: "int \<Rightarrow> int \<Rightarrow> int" where
  "limit_square zeros g = (let gain32 = add32 (shr g (nat zeros)) 1 in mul32 gain32 gain32)"

definition lower_gain :: "int \<Rightarrow> int" where
  "lower_gain g = (if g > 8388607 then mul32 (cdiv g 256) 253 else cdiv (mul32 g 253) 256)"

partial_function (option) limit_loop :: "int \<Rightarrow> int \<Rightarrow> int \<Rightarrow> int option" where
  "limit_loop e zeros g =
     (if AGC_MUL32 (add32 (shr e 12) 1) (limit_square zeros g) > WEBRTC_SPL_SHIFT_W32 32767 (2 * (1 - zeros + 10))
      then limit_loop e zeros (lower_gain g)
      else Some g)"

definition limit_zeros :: "int \<Rightarrow> int" where
  "limit_zeros g = (if g > 47452159 then s16 (16 - WebRtcSpl_NormW32 g) else 10)"

definition limit_gain :: "int \<Rightarrow> int \<Rightarrow> int option" where
  "limit_gain e g = limit_loop e (limit_zeros g) g"

fun limit_gains :: "int list \<Rightarrow> int list \<Rightarrow> int list option" where
  "limit_gains (e # env) (g # gs) =
     (case limit_gain e g of None \<Rightarrow> None
      | Some g \<Rightarrow> (case limit_gains env gs of None \<Rightarrow> None | Some gs \<Rightarrow> Some (g # gs)))"
| "limit_gains env gs = Some gs"

text \<open>Gain reductions one millisecond early: positions 1 to 9 of the eleven gains.\<close>

fun early_reductions :: "int list \<Rightarrow> int list" where
  "early_reductions (g # h # gs) = (if g > h then h else g) # early_reductions (h # gs)"
| "early_reductions gs = gs"

definition WebRtcAgc_ComputeDigitalGains ::
    "DigitalAgc \<Rightarrow> int list list \<Rightarrow> int \<Rightarrow> int \<Rightarrow> int list \<Rightarrow> (int \<times> DigitalAgc \<times> int list) option" where
  "WebRtcAgc_ComputeDigitalGains stt in_near FS lowlevelSignal gains =
     (case agc_subframe FS of None \<Rightarrow> Some (-1, stt, gains)
      | Some (L, L2) \<Rightarrow>
          (if in_near = [] \<or> length (in_near ! 0) < 10 * L then None
           else case WebRtcAgc_ProcessVad (vadNearend stt) (in_near ! 0) (L * 10) of None \<Rightarrow> None
           | Some (logratio, v) \<Rightarrow>
             (let stt = stt\<lparr>vadNearend := v\<rparr>;
                  logratio = far_log_ratio stt logratio;
                  decay = agc_decay stt logratio lowlevelSignal;
                  env = agc_envelope L (in_near ! 0);
                  first = gain stt
              in case agc_gain_loop env decay stt (0, 0) of None \<Rightarrow> None
                 | Some (gs, stt, zeros, frac) \<Rightarrow>
                     (let (gate, stt) = agc_gate stt zeros frac;
                          gs = apply_gate (gainTable stt ! 0) gate gs
                      in case limit_gains env gs of None \<Rightarrow> None
                         | Some gs \<Rightarrow>
                             (let gs = early_reductions gs;
                                  stt = stt\<lparr>gain := gs ! 9\<rparr>
                              in Some (0, stt, first # gs))))))"

subsection \<open>Applying the gains\<close>

definition apply_first :: "int \<Rightarrow> int \<Rightarrow> int" where
  "apply_first gain32 x =
     (let out_tmp = s32 (shr (s64 (x * shr (add32 gain32 127) 7)) 16)
      in if out_tmp > 4095 then 32767 else if out_tmp < -4096 then -32768
         else s16 (s32 (shr (s64 (x * shr gain32 4)) 16)))"

definition apply_rest :: "int \<Rightarrow> int \<Rightarrow> int" where
  "apply_rest gain32 x =
     (let tmp64 = s64 (x * shr gain32 4);
          tmp64 = shr tmp64 16
      in if tmp64 > 32767 then 32767 else if tmp64 < -32768 then -32768 else s16 tmp64)"

fun apply_loop :: "nat \<Rightarrow> nat \<Rightarrow> (int \<Rightarrow> int \<Rightarrow> int) \<Rightarrow> int \<Rightarrow> int \<Rightarrow> int list list \<Rightarrow> int list list" where
  "apply_loop 0 pos f gain32 delta out = out"
| "apply_loop (Suc m) pos f gain32 delta out =
     apply_loop m (pos + 1) f (add32 gain32 delta) delta (map (\<lambda>b. b[pos := f gain32 (b ! pos)]) out)"

fun apply_subframes :: "nat \<Rightarrow> nat \<Rightarrow> nat \<Rightarrow> nat \<Rightarrow> int list \<Rightarrow> int list list \<Rightarrow> int list list" where
  "apply_subframes 0 k L L2 gains out = out"
| "apply_subframes (Suc m) k L L2 gains out =
     (let delta = mul32 (sub32 (gains ! (k + 1)) (gains ! k)) (2 ^ (4 - L2));
          gain32 = mul32 (gains ! k) (2 ^ 4)
      in apply_subframes m (k + 1) L L2 gains (apply_loop L (k * L) apply_rest gain32 delta out))"

text \<open>\<open>out\<close> is the output before the call; a band that is processed in place has its input there.\<close>

definition WebRtcAgc_ApplyDigitalGains ::
    "int list \<Rightarrow> nat \<Rightarrow> int \<Rightarrow> int list list \<Rightarrow> int list list \<Rightarrow> (int \<times> int list list) option" where
  "WebRtcAgc_ApplyDigitalGains gains num_bands FS in_near out =
     (case agc_subframe FS of None \<Rightarrow> Some (-1, out)
      | Some (L, L2) \<Rightarrow>
          (if length gains < 11 \<or> length in_near \<noteq> num_bands \<or> length out \<noteq> num_bands \<or>
              (\<exists>b\<in>set in_near. length b < 10 * L) \<or> (\<exists>b\<in>set out. length b < 10 * L) then None
           else let
             out = map2 (\<lambda>b c. take (10 * L) b @ drop (10 * L) c) in_near out;
             delta = mul32 (sub32 (gains ! 1) (gains ! 0)) (2 ^ (4 - L2));
             gain32 = mul32 (gains ! 0) (2 ^ 4);
             out = apply_loop L 0 apply_first gain32 delta out
           in Some (0, apply_subframes 9 1 L L2 gains out)))"

subsection \<open>The detector keeps its ranges\<close>

definition vad_ok :: "AgcVad \<Rightarrow> bool" where
  "vad_ok v \<longleftrightarrow> length (downState v) = 8 \<and> in_s16 (HPstate v) \<and> 3 \<le> counter v \<and> counter v \<le> 250
     \<and> -2048 \<le> logRatio v \<and> logRatio v \<le> 2048 \<and> in_s16 (stdLongTerm v) \<and> in_s16 (stdShortTerm v)
     \<and> in_s16 (meanLongTerm v) \<and> in_s16 (meanShortTerm v)"

lemma InitVad_ok: "vad_ok (WebRtcAgc_InitVad v)"
  by (simp add: vad_ok_def WebRtcAgc_InitVad_def in_s16_def)

lemma agc_hp_loop_s16: "in_s16 hp \<Longrightarrow> in_s16 (fst (agc_hp_loop bs hp nrg))"
  by (induction bs arbitrary: hp nrg) (simp_all add: Let_def)

lemma length_DownsampleBy2: "length st = 8 \<Longrightarrow> length (snd (WebRtcSpl_DownsampleBy2 xs n st)) = 8"
  by (simp add: WebRtcSpl_DownsampleBy2_def split_def Let_def)

lemma agc_vad_subframes_ok:
  "length down = 8 \<Longrightarrow> in_s16 hp \<Longrightarrow> agc_vad_subframes n k xs down hp nrg = (down', hp', nrg') \<Longrightarrow>
    length down' = 8 \<and> in_s16 hp'"
proof (induction n arbitrary: xs down hp nrg)
  case (Suc n)
  have h: "in_s16 (fst (agc_hp_loop bs hp nrg))" for bs using agc_hp_loop_s16 [OF Suc.prems(2)] .
  have d: "length (snd (WebRtcSpl_DownsampleBy2 ys m down)) = 8" for ys m using length_DownsampleBy2 [OF Suc.prems(1)] .
  show ?case using Suc.prems(3) Suc.IH [OF d h] by (auto simp: Let_def split_def split: if_splits)
qed simp

lemma DivW32W16ResW16_s16 [simp]: "in_s16 (WebRtcSpl_DivW32W16ResW16 a b)"
  by (simp add: WebRtcSpl_DivW32W16ResW16_def in_s16_def s16_range)

lemma agc_vad_update_ok:
  assumes "vad_ok v"
  shows "vad_ok (agc_vad_update dB v)"
proof -
  have "vad_ok (agc_count v)"
    using assms by (auto simp: vad_ok_def agc_count_def kAvgDecayTime_def s16_idI)
  moreover have "vad_ok w \<Longrightarrow> vad_ok (agc_short_term dB w)" for w
    by (simp add: vad_ok_def agc_short_term_def Let_def)
  moreover have "vad_ok w \<Longrightarrow> vad_ok (agc_long_term dB w)" for w
    by (simp add: vad_ok_def agc_long_term_def Let_def)
  moreover have "vad_ok w \<Longrightarrow> vad_ok (agc_log_ratio dB w)" for w
    by (auto simp: vad_ok_def agc_log_ratio_def Let_def s16_idI)
  ultimately show ?thesis by (simp add: agc_vad_update_def)
qed

lemma ProcessVad_ok:
  assumes "vad_ok v" "length xs = n" "n = 80 \<or> n = 160"
  shows "\<exists>v'. WebRtcAgc_ProcessVad v xs n = Some (logRatio v', v') \<and> vad_ok v'"
proof -
  obtain down hp nrg where r: "agc_vad_subframes 10 n xs (downState v) (HPstate v) 0 = (down, hp, nrg)"
    by (metis surj_pair)
  have "length down = 8 \<and> in_s16 hp" using agc_vad_subframes_ok [OF _ _ r] assms(1) by (simp add: vad_ok_def)
  then have "vad_ok (v\<lparr>downState := down, HPstate := hp\<rparr>)" using assms(1) by (simp add: vad_ok_def)
  from agc_vad_update_ok [OF this] show ?thesis
    using assms(2,3) by (auto simp: WebRtcAgc_ProcessVad_def r Let_def)
qed

subsection \<open>Levels and gains\<close>

lemma and_ffff16: "0x0000FFFF AND b = b mod (65536 :: int)"
  using take_bit_eq_mask [of 16 b] by (simp add: mask_eq_exp_minus_1 take_bit_eq_mod and.commute)

lemma and_1fff: "0x00001FFF AND b = b mod (8192 :: int)"
  using take_bit_eq_mask [of 13 b] by (simp add: mask_eq_exp_minus_1 take_bit_eq_mod and.commute)

lemma and_7fffffff: "b AND 0x7FFFFFFF = b mod (2147483648 :: int)"
  using take_bit_eq_mask [of 31 b] by (simp add: mask_eq_exp_minus_1 take_bit_eq_mod)

lemma AGC_SCALEDIFF32_eq:
  assumes "0 \<le> B" "B \<le> 1073741824" "\<bar>A\<bar> \<le> 1000" "0 \<le> C" "C \<le> 1073741824"
  shows "AGC_SCALEDIFF32 A B C = C + B * A div 65536"
proof -
  define q r where "q = B div 65536" and "r = B mod 65536"
  have B: "B = q * 65536 + r" by (simp add: q_def r_def)
  have q: "0 \<le> q" "q \<le> 16384" and r: "0 \<le> r" "r < 65536" using assms(1,2) by (auto simp: q_def r_def)
  have qa: "\<bar>q * A\<bar> \<le> 16384 * 1000" unfolding abs_mult using q assms(3) by (intro mult_mono) auto
  have ra: "\<bar>r * A\<bar> \<le> 65536 * 1000" unfolding abs_mult using r assms(3) by (intro mult_mono) auto
  have d: "\<bar>r * A div 65536\<bar> \<le> 1001" using ra by (auto simp: abs_le_iff)
  have "B * A = r * A + (q * A) * 65536" by (simp add: B algebra_simps)
  then have e: "B * A div 65536 = q * A + r * A div 65536" by simp
  have m: "mul32 q A = q * A" "mul32 r A = r * A" using qa ra by (auto simp: mul32_def abs_le_iff intro!: s32_idI)
  have "add32 C (q * A) = C + q * A" using qa assms(4,5) by (auto simp: add32_def abs_le_iff intro!: s32_idI)
  moreover have "add32 (C + q * A) (r * A div 65536) = C + q * A + r * A div 65536"
    using qa d assms(4,5) by (auto simp: add32_def abs_le_iff intro!: s32_idI)
  ultimately show ?thesis
    by (simp add: AGC_SCALEDIFF32_def and_ffff16 shr_def m e flip: q_def r_def)
qed

text \<open>A level moves towards its target and never past it.\<close>

lemma scaled_step_bounds:
  fixes B A :: int
  assumes "0 \<le> B"
  shows "-65536 \<le> A \<Longrightarrow> A \<le> 0 \<Longrightarrow> - B \<le> B * A div 65536 \<and> B * A div 65536 \<le> 0"
    and "0 \<le> A \<Longrightarrow> A \<le> 65536 \<Longrightarrow> 0 \<le> B * A div 65536 \<and> B * A div 65536 \<le> B"
proof -
  assume a: "-65536 \<le> A" "A \<le> 0"
  have "B * - A \<le> B * 65536" using assms a by (intro mult_left_mono) auto
  moreover have "B * A \<le> 0" using assms a by (simp add: mult_nonneg_nonpos)
  ultimately show "- B \<le> B * A div 65536 \<and> B * A div 65536 \<le> 0" by auto
next
  assume a: "0 \<le> A" "A \<le> 65536"
  have "B * A \<le> B * 65536" using assms a by (intro mult_left_mono) auto
  moreover have "0 \<le> B * A" using assms a by simp
  ultimately show "0 \<le> B * A div 65536 \<and> B * A div 65536 \<le> B" by auto
qed

lemma agc_decay_range:
  assumes "-2048 \<le> r" "r \<le> 2048"
  shows "-65 \<le> agc_decay stt r low" "agc_decay stt r low \<le> 0"
proof -
  define d where "d = (if r > 1024 then -65 else if r < 0 then 0 else s16 (shr (mul32 (0 - r) 65) 10))"
  have d: "-65 \<le> d" "d \<le> 0"
    using assms by (auto simp: d_def mul32_def s32_idI shr_def s16_idI)
  define s where "s = stdLongTerm (vadNearend stt)"
  have sc: "-65 \<le> s16 (shr (mul32 (s - 4000) d) 12)" "s16 (shr (mul32 (s - 4000) d) 12) \<le> 0" if "4000 \<le> s" "s < 8096"
  proof -
    have "(s - 4000) * - d \<le> 4096 * 65" using that d by (intro mult_mono) auto
    then have a: "-266240 \<le> (s - 4000) * d" by simp
    have b: "(s - 4000) * d \<le> 0" using that d by (simp add: mult_nonneg_nonpos)
    have m: "mul32 (s - 4000) d = (s - 4000) * d" using a b by (simp add: mul32_def s32_idI)
    have "-65 \<le> (s - 4000) * d div 4096" "(s - 4000) * d div 4096 \<le> 0" using a b by auto
    then show "-65 \<le> s16 (shr (mul32 (s - 4000) d) 12)" "s16 (shr (mul32 (s - 4000) d) 12) \<le> 0"
      by (simp_all add: m shr_def s16_idI)
  qed
  have "agc_decay stt r low = (if agcMode stt \<noteq> kAgcModeFixedDigital
      then (if low \<noteq> 0 then 0 else if s < 4000 then 0 else if s < 8096 then s16 (shr (mul32 (s - 4000) d) 12) else d) else d)"
    by (simp add: agc_decay_def Let_def d_def s_def)
  then show "-65 \<le> agc_decay stt r low" "agc_decay stt r low \<le> 0" using d sc by auto
qed

lemma interpolate_bounds:
  fixes d f :: int
  assumes "0 \<le> f" "f < 4096"
  shows "min 0 d \<le> d * f div 4096" "d * f div 4096 \<le> max 0 d"
proof -
  have "0 \<le> d * f div 4096 \<and> d * f div 4096 \<le> d" if "0 \<le> d"
  proof -
    have "d * f \<le> d * 4096" using assms that by (intro mult_left_mono) auto
    then show ?thesis using that assms by (auto simp: pos_imp_zdiv_nonneg_iff)
  qed
  moreover have "d \<le> d * f div 4096 \<and> d * f div 4096 \<le> 0" if "d \<le> 0"
  proof -
    have "(- d) * f \<le> (- d) * 4096" using assms that by (intro mult_left_mono) auto
    moreover have "d * f \<le> 0" using that assms by (simp add: mult_nonpos_nonneg)
    ultimately show ?thesis by auto
  qed
  ultimately show "min 0 d \<le> d * f div 4096" "d * f div 4096 \<le> max 0 d" by (auto simp: min_def max_def)
qed

lemma NormU32_level:
  assumes "0 < c" "c \<le> 1073741824"
  shows "1 \<le> WebRtcSpl_NormU32 (u32 c)" "WebRtcSpl_NormU32 (u32 c) \<le> 31"
proof -
  have u: "u32 c = c" using assms by (simp add: u32_idI)
  note z = CountLeadingZeros32_correct [of c]
  have "WebRtcSpl_CountLeadingZeros32 c \<noteq> 0" using z(4) z(3) assms by (cases "WebRtcSpl_CountLeadingZeros32 c = 0") auto
  then show "1 \<le> WebRtcSpl_NormU32 (u32 c)" "WebRtcSpl_NormU32 (u32 c) \<le> 31"
    using z(1,2) assms u by (simp_all add: WebRtcSpl_NormU32_def s16_idI)
qed

lemma level_gain_ok:
  assumes "gain_table_ok t" "0 \<le> c" "c \<le> 1073741824"
  shows "\<exists>z f g. level_gain t c = Some (z, f, g) \<and> 1 \<le> z \<and> z \<le> 31 \<and> 0 \<le> f \<and> f \<le> 4095 \<and> 0 \<le> g \<and> g < 536870912"
proof -
  define z where "z = (if c = 0 then 31 else WebRtcSpl_NormU32 (u32 c))"
  have z: "1 \<le> z" "z \<le> 31" using NormU32_level [of c] assms by (auto simp: z_def)
  define m where "m = u32 (u32 c * 2 ^ nat z) AND 0x7FFFFFFF"
  have m: "0 \<le> m" "m < 2147483648" by (simp_all add: m_def and_7fffffff)
  define f where "f = s16 (shr m 19)"
  have f: "0 \<le> f" "f \<le> 4095" "f = shr m 19" using m by (auto simp: f_def shr_def s16_idI)
  define a b where "a = t ! nat (z - 1)" and "b = t ! nat z"
  have "nat (z - 1) < 32" "nat z < 32" using z by auto
  then have ab: "0 \<le> a" "a < 536870912" "0 \<le> b" "b < 536870912" using assms(1) by (simp_all add: gain_table_ok_def a_def b_def)
  define v where "v = (a - b) * f div 4096"
  have "min 0 (a - b) \<le> v" "v \<le> max 0 (a - b)" using interpolate_bounds [of f "a - b"] f by (auto simp: v_def)
  then have v: "\<bar>v\<bar> \<le> 536870912" "0 \<le> b + v" "b + v < 536870912" using ab by (auto simp: min_def max_def split: if_splits)
  have "\<bar>(a - b) * f\<bar> \<le> 536870912 * 4095" unfolding abs_mult using ab f by (intro mult_mono) auto
  then have s: "s64 ((a - b) * f) = (a - b) * f" by (intro s64_idI) (auto simp: abs_le_iff)
  have c: "s32 v = v" "sub32 a b = a - b" "add32 b v = b + v"
    using v ab by (auto simp: sub32_def add32_def abs_le_iff intro!: s32_idI)
  have "\<not> (z < 1 \<or> length t \<le> nat z)" using z assms(1) by (auto simp: gain_table_ok_def)
  then have "level_gain t c = Some (z, f, b + v)"
    unfolding level_gain_def Let_def z_def [symmetric] m_def [symmetric] f_def [symmetric] a_def [symmetric] b_def [symmetric]
    using s c v_def by (simp add: shr_def)
  then show ?thesis using z f v by auto
qed

definition level_ok :: "int \<Rightarrow> bool" where
  "level_ok c \<longleftrightarrow> 0 \<le> c \<and> c \<le> 1073741824"

lemma fast_follower_ok: "level_ok (capacitorFast stt) \<Longrightarrow> level_ok e \<Longrightarrow> level_ok (next_fast e stt)"
  using scaled_step_bounds(1) [of "capacitorFast stt" "-1000"] AGC_SCALEDIFF32_eq [of "capacitorFast stt" "-1000" "capacitorFast stt"]
  by (auto simp: level_ok_def next_fast_def Let_def)

lemma slow_follower_ok:
  assumes "level_ok (capacitorSlow stt)" "level_ok e" "-65 \<le> d" "d \<le> 0"
  shows "level_ok (next_slow e d stt)"
proof -
  let ?c = "capacitorSlow stt"
  have "sub32 e ?c = e - ?c" using assms by (simp add: level_ok_def sub32_def s32_idI)
  then show ?thesis
    using scaled_step_bounds(2) [of "e - ?c" 500] AGC_SCALEDIFF32_eq [of "e - ?c" 500 ?c]
      scaled_step_bounds(1) [of ?c d] AGC_SCALEDIFF32_eq [of ?c d ?c] assms by (auto simp: level_ok_def next_slow_def)
qed

lemma agc_gain_loop_ok:
  assumes "gain_table_ok (gainTable stt)" "level_ok (capacitorFast stt)" "level_ok (capacitorSlow stt)"
    "\<forall>e\<in>set env. level_ok e" "-65 \<le> d" "d \<le> 0"
  shows "\<exists>gs a b zf. agc_gain_loop env d stt zf0 = Some (gs, stt\<lparr>capacitorFast := a, capacitorSlow := b\<rparr>, zf)
    \<and> length gs = length env \<and> (\<forall>g\<in>set gs. 0 \<le> g \<and> g < 536870912) \<and> level_ok a \<and> level_ok b"
  using assms(1-4)
proof (induction env arbitrary: stt zf0)
  case Nil
  then show ?case
    by (intro exI [of _ "[]"] exI [of _ "capacitorFast stt"] exI [of _ "capacitorSlow stt"] exI [of _ zf0]) simp
next
  case (Cons e env)
  define f s where "f = next_fast e stt" and "s = next_slow e d stt"
  let ?stt = "stt\<lparr>capacitorFast := f, capacitorSlow := s\<rparr>"
  have ok: "level_ok f" "level_ok s"
    using fast_follower_ok slow_follower_ok Cons.prems assms(5,6) by (auto simp: f_def s_def)
  have "level_ok (if f > s then f else s)" using ok by simp
  then obtain z fr g where g: "level_gain (gainTable stt) (if f > s then f else s) = Some (z, fr, g)" "0 \<le> g" "g < 536870912"
    using level_gain_ok [OF Cons.prems(1)] unfolding level_ok_def by blast
  obtain gs a b zf where r: "agc_gain_loop env d ?stt (z, fr) = Some (gs, ?stt\<lparr>capacitorFast := a, capacitorSlow := b\<rparr>, zf)"
    "length gs = length env" "\<forall>g\<in>set gs. 0 \<le> g \<and> g < 536870912" "level_ok a" "level_ok b"
    using Cons.IH [of ?stt "(z, fr)"] Cons.prems ok by auto
  have "agc_gain_loop (e # env) d stt zf0 = Some (g # gs, stt\<lparr>capacitorFast := a, capacitorSlow := b\<rparr>, zf)"
    using g(1) r(1) by (auto simp: Let_def simp flip: f_def s_def split: if_splits)
  then show ?case using g r by auto
qed

subsection \<open>The gate and the overload protection\<close>

lemma agc_gate_ok:
  "\<exists>gate gp. agc_gate stt z f = (gate, stt\<lparr>gatePrevious := gp\<rparr>) \<and> in_s16 gp"
proof -
  define g gp where "g = gate_value stt z f" and "gp = (if g < 0 then 0 else s16 (shr (g + gatePrevious stt * 7) 3))"
  have "agc_gate stt z f = (if g < 0 then g else gp, stt\<lparr>gatePrevious := gp\<rparr>)"
    by (simp add: agc_gate_def Let_def g_def gp_def)
  moreover have "in_s16 gp" by (simp add: gp_def in_s16_def s16_range)
  ultimately show ?thesis by blast
qed

lemma gated_gain_bounds:
  assumes "0 \<le> t" "t < 536870912" "0 \<le> g" "g < 536870912" "0 \<le> adj" "adj \<le> 78"
  shows "-8388608 \<le> gated_gain t adj g" "gated_gain t adj g < 1073741824"
proof -
  have d: "sub32 g t = g - t" using assms by (simp add: sub32_def s32_idI)
  define v where "v = (if g - t > 8388608 then mul32 (shr (g - t) 8) (178 + adj) else shr (mul32 (g - t) (178 + adj)) 8)"
  have "-8388608 \<le> v \<and> v < 536870912"
  proof (cases "g - t > 8388608")
    case True
    have q: "0 \<le> (g - t) div 256" "(g - t) div 256 < 2097152" using True assms by auto
    define w where "w = (g - t) div 256 * (178 + adj)"
    have "w \<le> (g - t) div 256 * 256" unfolding w_def using q assms by (intro mult_left_mono) auto
    also have "\<dots> \<le> g - t" by (simp add: minus_mod_eq_div_mult [symmetric])
    finally have w: "0 \<le> w" "w \<le> g - t" using q assms by (auto simp: w_def)
    then have "v = w" using True assms by (simp add: v_def shr_def mul32_def s32_idI flip: w_def)
    then show ?thesis using w assms by simp
  next
    case False
    then show ?thesis using s32_range [of "(g - t) * (178 + adj)"] by (auto simp: v_def shr_def mul32_def)
  qed
  moreover have "gated_gain t adj g = add32 t v" by (simp add: gated_gain_def Let_def d v_def)
  ultimately show "-8388608 \<le> gated_gain t adj g" "gated_gain t adj g < 1073741824"
    using assms by (simp_all add: add32_def s32_idI)
qed

lemma apply_gate_bounds:
  assumes "0 \<le> t" "t < 536870912" "\<forall>g\<in>set gs. 0 \<le> g \<and> g < 536870912" "h \<in> set (apply_gate t gate gs)"
  shows "-8388608 \<le> h" "h < 1073741824"
proof -
  define adj where "adj = (if gate < 2500 then s16 (shr (2500 - gate) 5) else 0)"
  have "0 \<le> adj \<and> adj \<le> 78" if "gate > 0" using that by (auto simp: adj_def shr_def s16_idI)
  then have "-8388608 \<le> h \<and> h < 1073741824"
    using assms gated_gain_bounds [of t _ adj] by (auto simp: apply_gate_def Let_def adj_def [symmetric] split: if_splits)
  then show "-8388608 \<le> h" "h < 1073741824" by auto
qed

lemma lower_gain_down:
  "0 < g \<Longrightarrow> g \<le> 2147483647 \<Longrightarrow> 0 \<le> lower_gain g \<and> lower_gain g < g"
  "g < 0 \<Longrightarrow> -8388608 \<le> g \<Longrightarrow> g < lower_gain g \<and> lower_gain g \<le> 0"
proof -
  assume g: "0 < g" "g \<le> 2147483647"
  show "0 \<le> lower_gain g \<and> lower_gain g < g"
  proof (cases "g > 8388607")
    case True
    have q: "0 \<le> g div 256" "g div 256 \<le> 8388607" using g by auto
    have "mul32 (g div 256) 253 = g div 256 * 253" using q by (simp add: mul32_def s32_idI)
    moreover have "0 < g div 256" using True by auto
    ultimately show ?thesis using True g q by (simp add: lower_gain_def cdiv_pos)
  next
    case False
    then have "mul32 g 253 = g * 253" using g by (simp add: mul32_def s32_idI)
    then have "lower_gain g = g * 253 div 256" using False g by (simp add: lower_gain_def cdiv_pos)
    then show ?thesis using g by auto
  qed
next
  assume g: "g < 0" "-8388608 \<le> g"
  have m: "mul32 g 253 = - (- g * 253)" using g by (simp add: mul32_def s32_idI)
  have "cdiv (- (- g * 253)) 256 = - (- g * 253 div 256)" using g by (intro cdiv_neg) auto
  then have "lower_gain g = - (- g * 253 div 256)" using g m by (simp add: lower_gain_def)
  then show "g < lower_gain g \<and> lower_gain g \<le> 0" using g by auto
qed

abbreviation limit_bound :: "int \<Rightarrow> int" where
  "limit_bound z \<equiv> WEBRTC_SPL_SHIFT_W32 32767 (2 * (1 - z + 10))"

text \<open>The loop ends whenever the gain 0 passes the test, at a gain between 0 and the given one that passes it.\<close>

lemma limit_loop_ends:
  assumes "AGC_MUL32 (add32 (shr e 12) 1) (limit_square z 0) \<le> limit_bound z" "-8388608 \<le> g" "g \<le> 2147483647"
  shows "\<exists>r. limit_loop e z g = Some r \<and> min 0 g \<le> r \<and> r \<le> max 0 g
    \<and> AGC_MUL32 (add32 (shr e 12) 1) (limit_square z r) \<le> limit_bound z"
  using assms(2,3)
proof (induction "nat \<bar>g\<bar>" arbitrary: g rule: less_induct)
  case less
  show ?case
  proof (cases "AGC_MUL32 (add32 (shr e 12) 1) (limit_square z g) \<le> limit_bound z")
    case True
    then show ?thesis by (subst limit_loop.simps) auto
  next
    case False
    then have "g \<noteq> 0" using assms(1) by auto
    let ?h = "lower_gain g"
    have h: "min 0 g \<le> ?h" "?h \<le> max 0 g" "nat \<bar>?h\<bar> < nat \<bar>g\<bar>" "-8388608 \<le> ?h" "?h \<le> 2147483647"
      using lower_gain_down [of g] less.prems \<open>g \<noteq> 0\<close> by (cases "0 < g"; force)+
    from less.hyps [OF h(3-5)] obtain r where "limit_loop e z ?h = Some r" "min 0 ?h \<le> r" "r \<le> max 0 ?h"
      "AGC_MUL32 (add32 (shr e 12) 1) (limit_square z r) \<le> limit_bound z" by auto
    moreover have "limit_loop e z g = limit_loop e z ?h" using False by (subst limit_loop.simps) simp
    ultimately show ?thesis using h(1,2) by (auto simp: min_def max_def split: if_splits)
  qed
qed

lemma limit_zeros_range:
  assumes "g < 1073741824"
  shows "10 \<le> limit_zeros g" "limit_zeros g \<le> 15"
    "g > 47452159 \<Longrightarrow> g < 2 ^ nat (15 + limit_zeros g)" "g \<le> 47452159 \<Longrightarrow> limit_zeros g = 10"
proof -
  define n where "n = WebRtcSpl_NormW32 g"
  have n: "1 \<le> n \<and> n \<le> 5 \<and> g < 2 ^ nat (31 - n)" if g: "g > 47452159"
  proof -
    note N = NormW32_pos [of g, folded n_def]
    have b: "0 \<le> n" "n \<le> 30" "g < 2 ^ nat (31 - n)" "2 ^ nat (30 - n) \<le> g" using N g assms by auto
    have "\<not> n \<ge> 6"
    proof
      assume "n \<ge> 6"
      then have "(2 :: int) ^ nat (31 - n) \<le> 2 ^ 25" by (intro power_increasing) auto
      then show False using b(3) g by simp
    qed
    moreover have "n \<noteq> 0" using b(4) assms by (cases "n = 0") auto
    ultimately show ?thesis using b by auto
  qed
  have z: "limit_zeros g = (if g > 47452159 then 16 - n else 10)" using n by (auto simp: limit_zeros_def n_def s16_idI)
  show "10 \<le> limit_zeros g" "limit_zeros g \<le> 15" using n by (auto simp: z)
  show "g > 47452159 \<Longrightarrow> g < 2 ^ nat (15 + limit_zeros g)" using n by (simp add: z)
  show "g \<le> 47452159 \<Longrightarrow> limit_zeros g = 10" by (simp add: z)
qed

lemma limit_bound_values:
  assumes "10 \<le> z" "z \<le> 15"
  shows "32 \<le> limit_bound z" "(limit_bound z + 1) * 8192 \<le> 2 ^ nat (50 - 2 * z)"
proof -
  have "z \<in> {10, 11, 12, 13, 14, 15}" using assms by auto
  then have "32 \<le> limit_bound z \<and> (limit_bound z + 1) * 8192 \<le> 2 ^ nat (50 - 2 * z)"
    by (auto simp: WEBRTC_SPL_SHIFT_W32_def mul32_def shl32_def s32_def shr_def)
  then show "32 \<le> limit_bound z" "(limit_bound z + 1) * 8192 \<le> 2 ^ nat (50 - 2 * z)" by auto
qed

lemma limit_level: "level_ok e \<Longrightarrow> add32 (shr e 12) 1 = e div 4096 + 1"
  unfolding level_ok_def add32_def shr_def by (subst s32_idI) auto

lemma AGC_MUL32_eq:
  assumes "0 \<le> B" "0 \<le> A" "A \<le> 262145" "B div 8192 * A \<le> 2147221503 \<or> A \<le> 8192 \<and> B < 2147483648"
  shows "AGC_MUL32 A B = B * A div 8192"
proof -
  define q r where "q = B div 8192" and "r = B mod 8192"
  have B: "B = q * 8192 + r" by (simp add: q_def r_def)
  have q: "0 \<le> q" and r: "0 \<le> r" "r \<le> 8191" using assms(1) by (auto simp: q_def r_def)
  have ra: "0 \<le> r * A" "r * A \<le> 8191 * A" using r assms(2) by (auto intro: mult_right_mono)
  have qa: "0 \<le> q * A" "q * A + 8191 * A div 8192 \<le> 2147483647"
  proof -
    show "0 \<le> q * A" using q assms(2) by simp
    show "q * A + 8191 * A div 8192 \<le> 2147483647"
    proof (cases "A \<le> 8192 \<and> B < 2147483648")
      case True
      then have "q \<le> 262143" by (auto simp: q_def)
      then have "q * A \<le> 262143 * 8192" using True q assms(2) by (intro mult_mono) auto
      then show ?thesis using True by auto
    next
      case False
      then have "q * A \<le> 2147221503" using assms(4) by (auto simp: q_def)
      then show ?thesis using assms(3) by auto
    qed
  qed
  have rd: "0 \<le> r * A div 8192" "r * A div 8192 \<le> 8191 * A div 8192" using ra by (auto intro: zdiv_mono1)
  have "0 \<le> 8191 * A div 8192" using assms(2) by simp
  then have m: "mul32 q A = q * A" "mul32 r A = r * A" "add32 (q * A) (r * A div 8192) = q * A + r * A div 8192"
    using qa ra rd assms(3) by (auto simp: mul32_def add32_def intro!: s32_idI)
  have "B * A = r * A + (q * A) * 8192" by (simp add: B algebra_simps)
  then have "B * A div 8192 = q * A + r * A div 8192" by simp
  then show ?thesis by (simp add: AGC_MUL32_def and_1fff shr_def m flip: q_def r_def)
qed

lemma limit_gain_ends:
  assumes "level_ok e" "-8388608 \<le> g" "g < 1073741824"
  shows "\<exists>r. limit_gain e g = Some r \<and> min 0 g \<le> r \<and> r \<le> max 0 g
    \<and> AGC_MUL32 (e div 4096 + 1) (limit_square (limit_zeros g) r) \<le> limit_bound (limit_zeros g)"
proof -
  note z = limit_zeros_range [OF assms(3)]
  have e: "0 \<le> e div 4096 + 1" "e div 4096 + 1 \<le> 262145" using assms(1) by (auto simp: level_ok_def)
  have "limit_square (limit_zeros g) 0 = 1" by (simp add: limit_square_def add32_def mul32_def s32_def)
  then have "AGC_MUL32 (e div 4096 + 1) (limit_square (limit_zeros g) 0) \<le> limit_bound (limit_zeros g)"
    using AGC_MUL32_eq [of 1 "e div 4096 + 1"] e limit_bound_values(1) [OF z(1,2)] by auto
  from limit_loop_ends [OF this [folded limit_level [OF assms(1)]] assms(2)] show ?thesis
    using assms(3) limit_level [OF assms(1)] by (simp add: limit_gain_def)
qed

text \<open>Without wrap-around in the test the limited gain does not clip: \<open>r * \<bar>x\<bar> / 65536 < 32768\<close>.\<close>

lemma limited_gain_fits:
  assumes x: "x * x \<le> e" "level_ok e" and g: "0 \<le> r" "r \<le> g" "g < 1073741824"
    and small: "e < 33554432 \<or> g < 8387584"
    and test: "AGC_MUL32 (e div 4096 + 1) (limit_square (limit_zeros g) r) \<le> limit_bound (limit_zeros g)"
  shows "r * \<bar>x\<bar> < 2147483648"
proof -
  define z where "z = nat (limit_zeros g)"
  note zr = limit_zeros_range [OF g(3)]
  have z: "10 \<le> z" "z \<le> 15" "int z = limit_zeros g" using zr by (auto simp: z_def)
  define s where "s = r div 2 ^ z + 1"
  define A where "A = e div 4096 + 1"
  have A: "0 \<le> A" "A \<le> 262145" "e \<le> A * 4096" using x(2) by (auto simp: A_def level_ok_def)
  have s: "0 < s" "s \<le> 46340"
  proof -
    show "0 < s" using g(1) by (simp add: s_def pos_imp_zdiv_nonneg_iff add_pos_nonneg add.commute)
    show "s \<le> 46340"
    proof (cases "g > 47452159")
      case True
      have "nat (15 + limit_zeros g) = 15 + z" using z by auto
      then have "r < 2 ^ 15 * 2 ^ z" using zr(3) [OF True] g by (simp add: power_add)
      then have "r div 2 ^ z < 2 ^ 15" by (simp add: int_div_less)
      then show ?thesis by (simp add: s_def)
    next
      case False
      then have "z = 10" using zr(4) by (simp add: z_def)
      then show ?thesis using False g by (auto simp: s_def)
    qed
  qed
  have ss: "s * s \<le> 46340 * 46340" using s by (intro mult_mono) auto
  have "add32 (shr r z) 1 = s" using s by (simp add: s_def shr_def add32_def s32_idI)
  then have sq: "limit_square (limit_zeros g) r = s * s"
    using ss s32_idI [of "s * s"] zero_le_square [of s] by (simp add: limit_square_def Let_def mul32_def flip: z_def)
  have "AGC_MUL32 A (s * s) = s * s * A div 8192"
  proof (rule AGC_MUL32_eq)
    show "s * s div 8192 * A \<le> 2147221503 \<or> A \<le> 8192 \<and> s * s < 2147483648"
    proof (cases "e < 33554432")
      case True
      then show ?thesis using ss by (auto simp: A_def)
    next
      case False
      then have "g < 8387584" using small by simp
      then have "z = 10" using zr(4) by (simp add: z_def)
      then have "s \<le> 8191" using \<open>g < 8387584\<close> g(2) by (auto simp: s_def)
      then have "s * s \<le> 8191 * 8191" using s by (intro mult_mono) auto
      then have "s * s div 8192 \<le> 8190" by auto
      then have "s * s div 8192 * A \<le> 8190 * 262145" using A by (intro mult_mono) auto
      then show ?thesis by simp
    qed
  qed (use A s in auto)
  then have "s * s * A div 8192 \<le> limit_bound (limit_zeros g)" using test sq by (simp add: A_def)
  then have "s * s * A < (limit_bound (limit_zeros g) + 1) * 8192" by auto
  also have "\<dots> \<le> 2 ^ nat (50 - 2 * limit_zeros g)" using limit_bound_values(2) zr by simp
  finally have lt: "s * s * A < 2 ^ (50 - 2 * z)" using z by (simp add: z_def nat_diff_distrib' nat_mult_distrib)
  have "r mod 2 ^ z < 2 ^ z" by simp
  then have "r < s * 2 ^ z" using div_mult_mod_eq [of r "2 ^ z"] unfolding s_def distrib_right by linarith
  then have "r * r \<le> (s * 2 ^ z) * (s * 2 ^ z)" using g(1) by (intro mult_mono) auto
  then have "(r * r) * (x * x) \<le> ((s * 2 ^ z) * (s * 2 ^ z)) * (A * 4096)"
    by (rule mult_mono) (use x(1) A s in auto)
  also have "\<dots> = (s * s * A) * 2 ^ (2 * z + 12)" unfolding mult_2 power_add by simp
  also have "\<dots> < 2 ^ (50 - 2 * z) * 2 ^ (2 * z + 12)" using lt by (intro mult_strict_right_mono) auto
  also have "\<dots> = (2147483648 :: int) ^ 2" using z by (simp flip: power_add)
  finally have "(r * \<bar>x\<bar>) ^ 2 < 2147483648 ^ 2" by (simp add: power2_eq_square algebra_simps abs_mult_self_eq)
  then show ?thesis by (rule power2_less_imp_less) simp
qed

subsection \<open>The gains of a frame\<close>

lemma s16_square: "in_s16 x \<Longrightarrow> mul32 x x = x * x" "in_s16 x \<Longrightarrow> level_ok (x * x)"
proof -
  assume "in_s16 x"
  then have "\<bar>x * x\<bar> \<le> 1073741824" using s16_prod_bound [of x x 32768] by (auto simp: in_s16_def)
  then have b: "0 \<le> x * x" "x * x \<le> 1073741824" by auto
  then show "mul32 x x = x * x" unfolding mul32_def by (intro s32_idI) linarith+
  show "level_ok (x * x)" using b by (simp add: level_ok_def)
qed

lemma max_nrg_loop_ok:
  assumes "\<forall>x\<in>set xs. in_s16 x" "pos + n \<le> length xs" "level_ok m"
  shows "level_ok (max_nrg_loop n pos xs m) \<and> m \<le> max_nrg_loop n pos xs m
    \<and> (\<forall>i\<in>{pos..<pos + n}. xs ! i * xs ! i \<le> max_nrg_loop n pos xs m)"
  using assms(2,3)
proof (induction n arbitrary: pos m)
  case (Suc n)
  define m' where "m' = (if xs ! pos * xs ! pos > m then xs ! pos * xs ! pos else m)"
  define w where "w = max_nrg_loop n (pos + 1) xs m'"
  have x: "in_s16 (xs ! pos)" using Suc.prems assms(1) by simp
  have e: "max_nrg_loop (Suc n) pos xs m = w"
    using s16_square(1) [OF x] by (simp add: m'_def w_def Let_def)
  have m': "level_ok m'" "m \<le> m'" "xs ! pos * xs ! pos \<le> m'" using s16_square(2) [OF x] Suc.prems by (auto simp: m'_def)
  have IH: "level_ok w" "m' \<le> w" "\<forall>i\<in>{pos + 1..<pos + 1 + n}. xs ! i * xs ! i \<le> w"
    using Suc.IH [of "pos + 1" m'] Suc.prems m' by (auto simp: w_def)
  have "xs ! i * xs ! i \<le> w" if "i \<in> {pos..<pos + Suc n}" for i
    using that IH(2,3) m'(3) by (cases "i = pos") auto
  then show ?case using IH(1,2) m'(2) e by auto
qed simp

lemma agc_envelope_ok:
  assumes "\<forall>x\<in>set xs. in_s16 x" "length xs = 10 * L"
  shows "\<forall>e\<in>set (agc_envelope L xs). level_ok e"
    and "k < 10 \<Longrightarrow> n < L \<Longrightarrow> xs ! (k * L + n) * xs ! (k * L + n) \<le> agc_envelope L xs ! k"
proof -
  have r: "k * L + L \<le> length xs" if "k < 10" for k
    using assms(2) that mult_le_mono1 [of "Suc k" 10 L] by simp
  have z: "level_ok 0" by (simp add: level_ok_def)
  show "\<forall>e\<in>set (agc_envelope L xs). level_ok e"
    using max_nrg_loop_ok [OF assms(1) r z] by (auto simp: agc_envelope_def)
  show "k < 10 \<Longrightarrow> n < L \<Longrightarrow> xs ! (k * L + n) * xs ! (k * L + n) \<le> agc_envelope L xs ! k"
    using max_nrg_loop_ok [OF assms(1) r z, of k] by (simp add: agc_envelope_def)
qed

lemma limit_gains_ok:
  assumes "length env = length gs" "\<forall>e\<in>set env. level_ok e" "\<forall>g\<in>set gs. -8388608 \<le> g \<and> g < 1073741824"
  shows "\<exists>rs. limit_gains env gs = Some rs \<and> length rs = length gs \<and> (\<forall>k<length gs. limit_gain (env ! k) (gs ! k) = Some (rs ! k))
    \<and> (\<forall>g\<in>set rs. -8388608 \<le> g \<and> g < 1073741824)"
  using assms
proof (induction env gs rule: list_induct2)
  case (Cons e env g gs)
  obtain r where r: "limit_gain e g = Some r" "min 0 g \<le> r" "r \<le> max 0 g"
    using limit_gain_ends [of e g] Cons.prems by auto
  then have "-8388608 \<le> r \<and> r < 1073741824" using Cons.prems(2) by (auto simp: min_def max_def split: if_splits)
  moreover obtain rs where "limit_gains env gs = Some rs" "length rs = length gs"
      "\<forall>k<length gs. limit_gain (env ! k) (gs ! k) = Some (rs ! k)" "\<forall>g\<in>set rs. -8388608 \<le> g \<and> g < 1073741824"
    using Cons.IH Cons.prems by auto
  ultimately show ?case using r(1) by (auto simp: nth_Cons split: nat.splits)
qed simp

lemma early_reductions_ok:
  "length (early_reductions gs) = length gs" "set (early_reductions gs) \<subseteq> set gs"
  "i < length gs \<Longrightarrow> early_reductions gs ! i \<le> gs ! i"
proof -
  show "length (early_reductions gs) = length gs" by (induction gs rule: early_reductions.induct) auto
  show "set (early_reductions gs) \<subseteq> set gs" by (induction gs rule: early_reductions.induct) auto
  show "i < length gs \<Longrightarrow> early_reductions gs ! i \<le> gs ! i"
    by (induction gs arbitrary: i rule: early_reductions.induct) (auto simp: nth_Cons split: nat.splits)
qed

definition dig_ok :: "DigitalAgc \<Rightarrow> bool" where
  "dig_ok d \<longleftrightarrow> level_ok (capacitorFast d) \<and> level_ok (capacitorSlow d) \<and> gain_table_ok (gainTable d) \<and> in_s16 (gatePrevious d)
     \<and> vad_ok (vadNearend d) \<and> vad_ok (vadFarend d) \<and> -8388608 \<le> gain d \<and> gain d < 1073741824"

abbreviation agc_frame :: "int \<Rightarrow> int list \<Rightarrow> bool" where
  "agc_frame fs xs \<equiv> length xs = (if fs = 8000 then 80 else 160) \<and> (\<forall>x\<in>set xs. in_s16 x)"

lemma ComputeDigitalGains_ok:
  assumes "dig_ok d" "agc_frame FS xs" "agc_subframe FS = Some (L, L2)"
  shows "\<exists>d' gs raw. WebRtcAgc_ComputeDigitalGains d (xs # hs) FS low gains = Some (0, d', gain d # gs) \<and> dig_ok d'
    \<and> gainTable d' = gainTable d \<and> agcMode d' = agcMode d
    \<and> length gs = 10 \<and> (\<forall>g\<in>set gs. -8388608 \<le> g \<and> g < 1073741824) \<and> gain d' = gs ! 9
    \<and> length raw = 10 \<and> (\<forall>k<10. -8388608 \<le> raw ! k \<and> raw ! k < 1073741824
        \<and> (\<exists>r. limit_gain (agc_envelope L xs ! k) (raw ! k) = Some r \<and> gs ! k \<le> r))"
proof -
  have L: "length xs = 10 * L" "L * 10 = 80 \<or> L * 10 = 160" using assms(2,3) by (auto simp: agc_subframe_def split: if_splits)
  obtain v where v: "WebRtcAgc_ProcessVad (vadNearend d) xs (L * 10) = Some (logRatio v, v)" "vad_ok v"
    using ProcessVad_ok [of "vadNearend d" xs "L * 10"] assms(1) L by (auto simp: dig_ok_def)
  let ?d = "d\<lparr>vadNearend := v\<rparr>"
  define lr where "lr = far_log_ratio ?d (logRatio v)"
  have lr: "-2048 \<le> lr" "lr \<le> 2048"
    using v(2) assms(1) by (auto simp: lr_def far_log_ratio_def dig_ok_def vad_ok_def shr_def s16_idI)
  define env where "env = agc_envelope L xs"
  have env: "\<forall>e\<in>set env. level_ok e" "length env = 10"
    using agc_envelope_ok(1) [of xs L] assms(2) L by (auto simp: env_def agc_envelope_def)
  obtain gs a b z f where g: "agc_gain_loop env (agc_decay ?d lr low) ?d (0, 0) = Some (gs, ?d\<lparr>capacitorFast := a, capacitorSlow := b\<rparr>, (z, f))"
    "length gs = 10" "\<forall>g\<in>set gs. 0 \<le> g \<and> g < 536870912" "level_ok a" "level_ok b"
    using agc_gain_loop_ok [of ?d env "agc_decay ?d lr low" "(0, 0)"] agc_decay_range [OF lr] assms(1) env by (auto simp: dig_ok_def)
  let ?e = "?d\<lparr>capacitorFast := a, capacitorSlow := b\<rparr>"
  obtain gate gp where gate: "agc_gate ?e z f = (gate, ?e\<lparr>gatePrevious := gp\<rparr>)" "in_s16 gp" using agc_gate_ok by blast
  define raw where "raw = apply_gate (gainTable d ! 0) gate gs"
  have t: "0 \<le> gainTable d ! 0" "gainTable d ! 0 < 536870912" using assms(1) by (auto simp: dig_ok_def gain_table_ok_def)
  have raw: "length raw = 10" "\<forall>g\<in>set raw. -8388608 \<le> g \<and> g < 1073741824"
    using apply_gate_bounds [OF t g(3)] g(2) by (auto simp: raw_def apply_gate_def Let_def)
  obtain rs where rs: "limit_gains env raw = Some rs" "length rs = 10" "\<forall>k<10. limit_gain (env ! k) (raw ! k) = Some (rs ! k)"
    "\<forall>g\<in>set rs. -8388608 \<le> g \<and> g < 1073741824"
    using limit_gains_ok [of env raw] env raw by auto
  define es where "es = early_reductions rs"
  have es: "length es = 10" "\<forall>g\<in>set es. -8388608 \<le> g \<and> g < 1073741824" "\<forall>k<10. es ! k \<le> rs ! k"
    using early_reductions_ok [where gs = rs] rs by (auto simp: es_def)
  define d' where "d' = ?e\<lparr>gatePrevious := gp, gain := es ! 9\<rparr>"
  have "WebRtcAgc_ComputeDigitalGains d (xs # hs) FS low gains = Some (0, d', gain d # es)"
    unfolding WebRtcAgc_ComputeDigitalGains_def
    using assms(3) L v(1) g(1) gate(1) rs(1)
    by (simp add: Let_def d'_def es_def raw_def [symmetric] lr_def [symmetric] env_def [symmetric])
  moreover have "dig_ok d'" using assms(1) g(4,5) gate(2) v(2) es by (simp add: dig_ok_def d'_def)
  ultimately show ?thesis using es raw rs(3)
    by (intro exI [of _ d'] exI [of _ es] exI [of _ raw]) (auto simp: d'_def env_def)
qed

subsection \<open>Applying the gains\<close>

definition gain_product :: "int \<Rightarrow> int \<Rightarrow> int" where
  "gain_product G x = x * (G div 16) div 65536"

lemma apply_rest_correct:
  assumes "0 \<le> G" "G \<le> 2147483647" "in_s16 x"
  shows "apply_rest G x = clamp16 (gain_product G x)"
proof -
  have "\<bar>x * (G div 16)\<bar> \<le> 32768 * 134217728" unfolding abs_mult using assms by (intro mult_mono) (auto simp: in_s16_def)
  then have "s64 (x * (G div 16)) = x * (G div 16)" by (intro s64_idI) (auto simp: abs_le_iff)
  then show ?thesis by (simp add: apply_rest_def Let_def shr_def gain_product_def clamp16_def s16_idI)
qed

lemma apply_first_correct:
  assumes G: "0 \<le> G" "G \<le> 2147483520" and x: "in_s16 x"
  shows "apply_first G x = gain_product G x \<and> in_s16 (gain_product G x)
    \<or> 32763 \<le> gain_product G x \<and> apply_first G x = 32767 \<or> gain_product G x \<le> -32763 \<and> apply_first G x = -32768"
proof -
  define c h where "c = (G + 127) div 128" and "h = G div 16"
  have xb: "-32768 \<le> x" "x \<le> 32767" using x by (auto simp: in_s16_def)
  have c: "0 \<le> c" "c \<le> 16777216" "h \<le> 8 * c" "128 * c \<le> G + 127" "G \<le> 16 * h + 15" "0 \<le> h" "h \<le> 134217728"
    using G by (auto simp: c_def h_def)
  have cb: "\<bar>x * c\<bar> \<le> 32768 * 16777216" unfolding abs_mult using c xb by (intro mult_mono) auto
  have hb: "\<bar>x * h\<bar> \<le> 32768 * 134217728" unfolding abs_mult using c xb by (intro mult_mono) auto
  have e: "add32 G 127 = G + 127" using G by (simp add: add32_def s32_idI)
  have s: "s64 (x * c) = x * c" "s64 (x * h) = x * h" using cb hb by (auto intro!: s64_idI)
  have t: "s32 (x * c div 65536) = x * c div 65536" using cb by (intro s32_idI) auto
  define t where "t = x * c div 65536"
  have f: "apply_first G x = (if t > 4095 then 32767 else if t < -4096 then -32768 else s16 (s32 (x * h div 65536)))"
    using e s t by (simp add: apply_first_def Let_def shr_def t_def flip: c_def h_def)
  have y: "gain_product G x = x * h div 65536" by (simp add: gain_product_def h_def)
  consider "t > 4095" | "t < -4096" | "-4096 \<le> t" "t \<le> 4095" by linarith
  then show ?thesis
  proof cases
    case 1
    then have big: "268435456 \<le> x * c" by (auto simp: t_def)
    then have "0 < x" using c by (smt (verit) mult_nonpos_nonneg)
    then have "128 * (x * c) \<le> x * (16 * h + 142)" using mult_left_mono [of "128 * c" "16 * h + 142" x] c by (simp add: algebra_simps)
    then have "2147483648 - 290808 \<le> x * h" using big xb by (simp add: algebra_simps)
    then show ?thesis using f y 1 by auto
  next
    case 2
    then have big: "x * c < -268435456" by (auto simp: t_def)
    then have neg: "x < 0" using c by (smt (verit) mult_nonneg_nonneg)
    then have "x * (16 * h + 142) \<le> 128 * (x * c)" using mult_left_mono_neg [of "128 * c" "16 * h + 142" x] c by (simp add: algebra_simps)
    then have "x * h \<le> -2147483648 + 290817" using big xb by (simp add: algebra_simps)
    then show ?thesis using f y 2 by auto
  next
    case 3
    have "x * h div 65536 \<le> 32767 \<and> -32768 \<le> x * h div 65536"
    proof (cases "0 \<le> x")
      case True
      have "x * h \<le> x * (8 * c)" "0 \<le> x * h" using True c by (auto intro: mult_left_mono)
      moreover have "x * c < 268435456" using 3 by (auto simp: t_def)
      ultimately show ?thesis by auto
    next
      case False
      have "x * (8 * c) \<le> x * h" "x * h \<le> 0" using False c by (auto intro: mult_left_mono_neg simp: mult_nonpos_nonneg)
      moreover have "-268435456 \<le> x * c" using 3 by (auto simp: t_def)
      ultimately show ?thesis by auto
    qed
    then show ?thesis using f y 3 by (simp add: s16_idI s32_idI in_s16_def)
  qed
qed

lemma apply_loop_correct:
  assumes "0 \<le> g" "g \<le> 2147483647" "0 \<le> g + int m * d" "g + int m * d \<le> 2147483647" "i < length out"
    "pos + m \<le> length (out ! i)"
  shows "length (apply_loop m pos f g d out) = length out \<and> length (apply_loop m pos f g d out ! i) = length (out ! i)
    \<and> (\<forall>p. apply_loop m pos f g d out ! i ! p =
        (if p \<in> {pos..<pos + m} then f (g + int (p - pos) * d) (out ! i ! p) else out ! i ! p))"
  using assms
proof (induction m arbitrary: pos g out)
  case (Suc m)
  let ?out = "map (\<lambda>b. b[pos := f g (b ! pos)]) out"
  have r: "0 \<le> g + d" "g + d \<le> 2147483647"
  proof -
    have "g + d = g \<or> (g \<le> g + d \<and> g + d \<le> g + int (Suc m) * d) \<or> (g + d \<le> g \<and> g + int (Suc m) * d \<le> g + d)"
      by (cases "0 \<le> d") (auto simp: algebra_simps mult_nonneg_nonneg mult_nonpos_nonneg)
    then show "0 \<le> g + d" "g + d \<le> 2147483647" using Suc.prems by auto
  qed
  have a: "add32 g d = g + d" using r by (simp add: add32_def s32_idI)
  have IH: "length (apply_loop m (pos + 1) f (g + d) d ?out) = length ?out
    \<and> length (apply_loop m (pos + 1) f (g + d) d ?out ! i) = length (?out ! i)
    \<and> (\<forall>p. apply_loop m (pos + 1) f (g + d) d ?out ! i ! p =
        (if p \<in> {pos + 1..<pos + 1 + m} then f (g + d + int (p - (pos + 1)) * d) (?out ! i ! p) else ?out ! i ! p))"
    using Suc.prems r by (intro Suc.IH) (auto simp: algebra_simps)
  have "f (g + d + int (p - (pos + 1)) * d) (?out ! i ! p) = f (g + int (p - pos) * d) (out ! i ! p)" if "p \<in> {pos + 1..<pos + 1 + m}" for p
  proof -
    have "int (p - pos) = 1 + int (p - (pos + 1))" using that by auto
    then show ?thesis using that Suc.prems(5) by (simp add: algebra_simps)
  qed
  then show ?case using IH Suc.prems(5,6) by (auto simp: a nth_list_update)
qed simp

text \<open>Position \<open>k * L + n\<close> is written in sub frame \<open>k\<close> with the gain interpolated there.\<close>

definition ramp_gain :: "int list \<Rightarrow> nat \<Rightarrow> nat \<Rightarrow> nat \<Rightarrow> int" where
  "ramp_gain gains L2 k n = gains ! k * 16 + int n * ((gains ! (k + 1) - gains ! k) * 2 ^ (4 - L2))"

lemma apply_subframe_args:
  assumes "\<forall>g\<in>set gains. 0 \<le> g \<and> g \<le> 134217720" "k + 1 < length gains" "int L = 2 ^ L2" "L2 \<le> 4" "n \<le> L"
  shows "mul32 (sub32 (gains ! (k + 1)) (gains ! k)) (2 ^ (4 - L2)) = (gains ! (k + 1) - gains ! k) * 2 ^ (4 - L2)"
    "mul32 (gains ! k) (2 ^ 4) = gains ! k * 16"
    "0 \<le> ramp_gain gains L2 k n" "ramp_gain gains L2 k n \<le> 2147483520"
proof -
  let ?a = "gains ! k" and ?b = "gains ! (k + 1)"
  have ab: "0 \<le> ?a" "?a \<le> 134217720" "0 \<le> ?b" "?b \<le> 134217720" using assms(1,2) by simp_all
  define p where "p = (2 :: int) ^ (4 - L2)"
  have p: "1 \<le> p" "p * int L = 16" using assms(3,4) by (auto simp: p_def simp flip: power_add)
  then have p16: "p \<le> 16" using assms(3) mult_left_mono [of 1 "int L" p] by simp
  have "\<bar>(?b - ?a) * p\<bar> \<le> 134217720 * 16" unfolding abs_mult using ab p p16 by (intro mult_mono) auto
  then show "mul32 (sub32 ?b ?a) (2 ^ (4 - L2)) = (?b - ?a) * 2 ^ (4 - L2)"
    using ab by (auto simp: mul32_def sub32_def s32_idI abs_le_iff simp flip: p_def)
  show "mul32 ?a (2 ^ 4) = ?a * 16" using ab by (simp add: mul32_def s32_idI)
  have q: "0 \<le> int n * p" "int n * p \<le> 16" using p assms(5) mult_right_mono [of "int n" "int L" p] by (auto simp: mult.commute)
  have "ramp_gain gains L2 k n = (16 - int n * p) * ?a + (int n * p) * ?b" by (simp add: ramp_gain_def p_def algebra_simps)
  moreover have "0 \<le> (16 - int n * p) * ?a" "0 \<le> (int n * p) * ?b"
    using ab q by auto
  moreover have "(16 - int n * p) * ?a \<le> (16 - int n * p) * 134217720" "(int n * p) * ?b \<le> (int n * p) * 134217720"
    by (rule mult_left_mono; use ab q in simp)+
  ultimately show "0 \<le> ramp_gain gains L2 k n" "ramp_gain gains L2 k n \<le> 2147483520" by (auto simp: algebra_simps)
qed

lemma apply_subframes_correct:
  assumes gains: "\<forall>g\<in>set gains. 0 \<le> g \<and> g \<le> 134217720" and len: "k + m < length gains" "int L = 2 ^ L2" "L2 \<le> 4"
    and out: "i < length out" "(k + m) * L \<le> length (out ! i)"
  shows "length (apply_subframes m k L L2 gains out) = length out \<and> length (apply_subframes m k L L2 gains out ! i) = length (out ! i)
    \<and> (\<forall>p < k * L. apply_subframes m k L L2 gains out ! i ! p = out ! i ! p)
    \<and> (\<forall>j\<in>{k..<k + m}. \<forall>n<L. apply_subframes m k L L2 gains out ! i ! (j * L + n) =
        apply_rest (ramp_gain gains L2 j n) (out ! i ! (j * L + n)))"
  using len(1) out
proof (induction m arbitrary: k out)
  case (Suc m)
  define o1 where "o1 = apply_loop L (k * L) apply_rest (gains ! k * 16) ((gains ! (k + 1) - gains ! k) * 2 ^ (4 - L2)) out"
  have st: "apply_subframes (Suc m) k L L2 gains out = apply_subframes m (k + 1) L L2 gains o1"
    using apply_subframe_args(1,2) [OF gains _ len(2,3), of k 0] Suc.prems(1) by (simp add: o1_def)
  have r: "0 \<le> ramp_gain gains L2 k n" "ramp_gain gains L2 k n \<le> 2147483520" if "n \<le> L" for n
    using apply_subframe_args(3,4) [OF gains _ len(2,3) that, of k] Suc.prems(1) by auto
  have le: "k * L + L \<le> length (out ! i)" using Suc.prems(3) by (simp add: add_mult_distrib)
  have o1: "length o1 = length out" "length (o1 ! i) = length (out ! i)"
    "\<And>p. o1 ! i ! p = (if p \<in> {k * L..<k * L + L} then apply_rest (ramp_gain gains L2 k (p - k * L)) (out ! i ! p) else out ! i ! p)"
    using apply_loop_correct [of "gains ! k * 16" L "(gains ! (k + 1) - gains ! k) * 2 ^ (4 - L2)" i out "k * L" apply_rest]
      r [of 0] r [of L] Suc.prems(2) le by (auto simp: o1_def ramp_gain_def)
  have IH: "length (apply_subframes m (k + 1) L L2 gains o1) = length o1
    \<and> length (apply_subframes m (k + 1) L L2 gains o1 ! i) = length (o1 ! i)
    \<and> (\<forall>p < (k + 1) * L. apply_subframes m (k + 1) L L2 gains o1 ! i ! p = o1 ! i ! p)
    \<and> (\<forall>j\<in>{k + 1..<k + 1 + m}. \<forall>n<L. apply_subframes m (k + 1) L L2 gains o1 ! i ! (j * L + n) =
        apply_rest (ramp_gain gains L2 j n) (o1 ! i ! (j * L + n)))"
    using Suc.prems o1(1,2) by (intro Suc.IH) auto
  have later: "o1 ! i ! (j * L + n) = out ! i ! (j * L + n)" if "k < j" for j n
  proof -
    have "k * L + L \<le> j * L" using that mult_le_mono1 [of "Suc k" j L] by simp
    then show ?thesis using o1(3) by simp
  qed
  have "apply_subframes m (k + 1) L L2 gains o1 ! i ! (j * L + n) = apply_rest (ramp_gain gains L2 j n) (out ! i ! (j * L + n))"
    if "j \<in> {k..<k + Suc m}" "n < L" for j n
  proof (cases "j = k")
    case True
    then show ?thesis using IH o1(3) that by simp
  next
    case False
    then show ?thesis using IH later [of j n] that by auto
  qed
  moreover have "apply_subframes m (k + 1) L L2 gains o1 ! i ! p = out ! i ! p" if "p < k * L" for p
    using that IH o1(3) by simp
  ultimately show ?case using IH o1(1,2) st by simp
qed simp

subsection \<open>The digital part is correct\<close>

text \<open>C15: The loop of the overload protection ends for every level and every gain that the gates can give; the gain only
  moves towards zero, and for levels below \<open>2 ^ 25\<close> or gains below 128 no sample within the level clips
  (the product with the gain in Q16 stays below \<open>2 ^ 31\<close>).\<close>

theorem limiter_ends_and_fits:
  assumes "level_ok e" "-8388608 \<le> g" "g < 1073741824"
  shows "\<exists>r. limit_gain e g = Some r \<and> min 0 g \<le> r \<and> r \<le> max 0 g
    \<and> (\<forall>x. 0 \<le> g \<and> x * x \<le> e \<and> (e < 33554432 \<or> g < 8387584) \<longrightarrow> r * \<bar>x\<bar> < 2147483648)"
proof -
  obtain r where r: "limit_gain e g = Some r" "min 0 g \<le> r" "r \<le> max 0 g"
      "AGC_MUL32 (e div 4096 + 1) (limit_square (limit_zeros g) r) \<le> limit_bound (limit_zeros g)"
    using limit_gain_ends [OF assms] by blast
  have "r * \<bar>x\<bar> < 2147483648" if "0 \<le> g" "x * x \<le> e" "e < 33554432 \<or> g < 8387584" for x
    using limited_gain_fits [OF that(2) assms(1) _ _ assms(3) that(3) r(4)] r(2,3) that(1) by simp
  then show ?thesis using r by blast
qed

theorem limiter_ends_and_fits_witness:
  "level_ok 1000000 \<and> (\<exists>r. limit_gain 1000000 8000000 = Some r \<and> 0 \<le> r \<and> r \<le> 8000000 \<and> r * 1000 < 2147483648)"
proof -
  have l: "level_ok 1000000" by (simp add: level_ok_def)
  obtain r where r: "limit_gain 1000000 8000000 = Some r" "min 0 8000000 \<le> r" "r \<le> max 0 8000000"
      "\<forall>x. 0 \<le> (8000000 :: int) \<and> x * x \<le> 1000000 \<and> ((1000000 :: int) < 33554432 \<or> (8000000 :: int) < 8387584) \<longrightarrow> r * \<bar>x\<bar> < 2147483648"
    using limiter_ends_and_fits [OF l, of 8000000] by auto
  have "r * \<bar>1000\<bar> < 2147483648" using r(4) [THEN spec, of 1000] by simp
  then show ?thesis using l r by auto
qed

lemma length_apply_loop [simp]: "length (apply_loop m pos f g d out) = length out"
  by (induction m arbitrary: pos g out) auto

lemma length_apply_subframes [simp]: "length (apply_subframes m k L L2 gains out) = length out"
  by (induction m arbitrary: k out) (auto simp: Let_def)

text \<open>The sample at position \<open>n\<close> of sub frame \<open>k\<close> goes through the first or the later loop.\<close>

definition applied_sample :: "int list \<Rightarrow> nat \<Rightarrow> nat \<Rightarrow> nat \<Rightarrow> int \<Rightarrow> int" where
  "applied_sample gains L2 k n x = (if k = 0 then apply_first (ramp_gain gains L2 0 n) x else apply_rest (ramp_gain gains L2 k n) x)"

lemma applied_samples:
  assumes L: "int L = 2 ^ L2" "L2 \<le> 4" and g: "length gains = 11" "\<forall>g\<in>set gains. 0 \<le> g \<and> g \<le> 134217720"
    and b: "i < length bands" "length (bands ! i) = 10 * L" and kn: "k < 10" "n < L"
  shows "apply_subframes 9 1 L L2 gains (apply_loop L 0 apply_first (gains ! 0 * 16) ((gains ! 1 - gains ! 0) * 2 ^ (4 - L2)) bands) ! i ! (k * L + n)
    = applied_sample gains L2 k n (bands ! i ! (k * L + n))"
proof -
  define o1 where "o1 = apply_loop L 0 apply_first (gains ! 0 * 16) ((gains ! 1 - gains ! 0) * 2 ^ (4 - L2)) bands"
  define res where "res = apply_subframes 9 1 L L2 gains o1"
  have r0: "0 \<le> ramp_gain gains L2 0 n" "ramp_gain gains L2 0 n \<le> 2147483520" if "n \<le> L" for n
    using apply_subframe_args(3,4) [OF g(2) _ L that, of 0] g(1) by auto
  have o: "length (o1 ! i) = 10 * L" "\<And>p. o1 ! i ! p = (if p < L then apply_first (ramp_gain gains L2 0 p) (bands ! i ! p) else bands ! i ! p)"
    using apply_loop_correct [of "gains ! 0 * 16" L "(gains ! 1 - gains ! 0) * 2 ^ (4 - L2)" i bands 0 apply_first] r0 [of 0] r0 [of L] b
    by (auto simp: o1_def ramp_gain_def)
  have s: "\<forall>p < 1 * L. res ! i ! p = o1 ! i ! p"
      "\<forall>j\<in>{1..<1 + 9}. \<forall>n<L. res ! i ! (j * L + n) = apply_rest (ramp_gain gains L2 j n) (o1 ! i ! (j * L + n))"
    using apply_subframes_correct [OF g(2) _ L, of 1 9 i o1] g(1) b(1) o(1) unfolding res_def by (simp_all add: o1_def)
  have "res ! i ! (k * L + n) = applied_sample gains L2 k n (bands ! i ! (k * L + n))"
  proof (cases "k = 0")
    case True
    then show ?thesis using kn s(1) o(2) by (simp add: applied_sample_def)
  next
    case False
    then have "L \<le> k * L + n" by (cases k) auto
    then show ?thesis using kn s(2) o(2) [of "k * L + n"] False by (simp add: applied_sample_def)
  qed
  then show ?thesis by (simp add: res_def o1_def)
qed

lemma ApplyDigitalGains_run:
  assumes FS: "agc_subframe FS = Some (L, L2)" and g: "length gains = 11" "\<forall>g\<in>set gains. 0 \<le> g \<and> g \<le> 134217720"
    and b: "length in_near = nb" "length out = nb" "\<forall>b\<in>set in_near. length b = 10 * L" "\<forall>b\<in>set out. length b = 10 * L"
  shows "WebRtcAgc_ApplyDigitalGains gains nb FS in_near out =
    Some (0, apply_subframes 9 1 L L2 gains (apply_loop L 0 apply_first (gains ! 0 * 16) ((gains ! 1 - gains ! 0) * 2 ^ (4 - L2)) in_near))"
proof -
  have L: "int L = 2 ^ L2" "L2 \<le> 4" using FS by (auto simp: agc_subframe_def split: if_splits)
  have cp: "map2 (\<lambda>b c. take (10 * L) b @ drop (10 * L) c) in_near out = in_near"
    using b by (intro nth_equalityI) auto
  have len: "\<not> (length gains < 11 \<or> length in_near \<noteq> nb \<or> length out \<noteq> nb \<or> (\<exists>b\<in>set in_near. length b < 10 * L) \<or> (\<exists>b\<in>set out. length b < 10 * L))"
    using g(1) b by auto
  have e: "mul32 (sub32 (gains ! 1) (gains ! 0)) (2 ^ (4 - L2)) = (gains ! 1 - gains ! 0) * 2 ^ (4 - L2)" "mul32 (gains ! 0) (2 ^ 4) = gains ! 0 * 16"
    using apply_subframe_args(1,2) [OF g(2) _ L, of 0 0] g(1) by simp_all
  show ?thesis
    unfolding WebRtcAgc_ApplyDigitalGains_def FS option.case prod.case if_not_P [OF len] Let_def cp e by (rule refl)
qed

lemma applied_sample_correct:
  assumes "0 \<le> ramp_gain gains L2 k n" "ramp_gain gains L2 k n \<le> 2147483520" "in_s16 x"
  defines "y \<equiv> gain_product (ramp_gain gains L2 k n) x"
  shows "applied_sample gains L2 k n x = clamp16 y \<or> k = 0 \<and> (32763 \<le> y \<and> applied_sample gains L2 k n x = 32767 \<or> y \<le> -32763 \<and> applied_sample gains L2 k n x = -32768)"
  using assms(1,2) apply_first_correct [OF assms(1-3)] apply_rest_correct [OF assms(1) _ assms(3)]
  by (auto simp: applied_sample_def y_def clamp16_def in_s16_def)

text \<open>C16: Applying eleven gains of at most 66 dB to frames of 16 bit samples succeeds, and every sample of every band is
  the product with the gain interpolated linearly at its position, rounded down and saturated. In the first
  millisecond products within five of the limits may be saturated already.\<close>

theorem apply_gains_exact:
  assumes FS: "agc_subframe FS = Some (L, L2)"
    and g: "length gains = 11" "\<forall>g\<in>set gains. 0 \<le> g \<and> g \<le> 134217720"
    and b: "length in_near = nb" "length out = nb" "\<forall>b\<in>set in_near. length b = 10 * L \<and> (\<forall>x\<in>set b. in_s16 x)" "\<forall>b\<in>set out. length b = 10 * L"
  shows "\<exists>res. WebRtcAgc_ApplyDigitalGains gains nb FS in_near out = Some (0, res) \<and> length res = nb
    \<and> (\<forall>i<nb. \<forall>k<10. \<forall>n<L. let y = gain_product (ramp_gain gains L2 k n) (in_near ! i ! (k * L + n)); z = res ! i ! (k * L + n)
         in z = clamp16 y \<or> k = 0 \<and> (32763 \<le> y \<and> z = 32767 \<or> y \<le> -32763 \<and> z = -32768))"
proof -
  have L: "int L = 2 ^ L2" "L2 \<le> 4" using FS by (auto simp: agc_subframe_def split: if_splits)
  define res where "res = apply_subframes 9 1 L L2 gains (apply_loop L 0 apply_first (gains ! 0 * 16) ((gains ! 1 - gains ! 0) * 2 ^ (4 - L2)) in_near)"
  have "WebRtcAgc_ApplyDigitalGains gains nb FS in_near out = Some (0, res)"
    unfolding res_def using b by (intro ApplyDigitalGains_run [OF FS g]) auto
  moreover have "length res = nb" using b(1) by (simp add: res_def)
  moreover have "let y = gain_product (ramp_gain gains L2 k n) (in_near ! i ! (k * L + n)); z = res ! i ! (k * L + n)
      in z = clamp16 y \<or> k = 0 \<and> (32763 \<le> y \<and> z = 32767 \<or> y \<le> -32763 \<and> z = -32768)" if "i < nb" "k < 10" "n < L" for i k n
  proof -
    have "k * L + L \<le> 10 * L" using mult_le_mono1 [of "Suc k" 10 L] that(2) unfolding mult_Suc by linarith
    then have "k * L + n < 10 * L" using that(3) by linarith
    moreover have "length (in_near ! i) = 10 * L \<and> (\<forall>x\<in>set (in_near ! i). in_s16 x)" using b(1,3) that(1) nth_mem [of i in_near] by blast
    ultimately have x: "in_s16 (in_near ! i ! (k * L + n))" "length (in_near ! i) = 10 * L" by simp_all
    have "0 \<le> ramp_gain gains L2 k n" "ramp_gain gains L2 k n \<le> 2147483520" using apply_subframe_args(3,4) [OF g(2) _ L, of k n] that g(1) by auto
    note applied_sample_correct [OF this x(1)]
    moreover have "res ! i ! (k * L + n) = applied_sample gains L2 k n (in_near ! i ! (k * L + n))"
      unfolding res_def using that b(1) x(2) by (intro applied_samples [OF L g]) simp_all
    ultimately show ?thesis by (simp add: Let_def)
  qed
  ultimately show ?thesis by blast
qed

theorem apply_gains_exact_witness:
  "\<exists>res. WebRtcAgc_ApplyDigitalGains (replicate 11 131072) 1 8000 [replicate 80 1000] [replicate 80 0] = Some (0, res) \<and> res ! 0 ! 25 = 2000"
proof -
  have "agc_subframe 8000 = Some (8, 3)" by (simp add: agc_subframe_def)
  then obtain res where r: "WebRtcAgc_ApplyDigitalGains (replicate 11 131072) 1 8000 [replicate 80 1000] [replicate 80 0] = Some (0, res)"
    "\<forall>i<1. \<forall>k<10. \<forall>n<8. let y = gain_product (ramp_gain (replicate 11 131072) 3 k n) ([replicate 80 1000] ! i ! (k * 8 + n)); z = res ! i ! (k * 8 + n)
         in z = clamp16 y \<or> k = 0 \<and> (32763 \<le> y \<and> z = 32767 \<or> y \<le> -32763 \<and> z = -32768)"
    using apply_gains_exact [of 8000 8 3 "replicate 11 131072" "[replicate 80 1000]" 1 "[replicate 80 0]"] by (auto simp: in_s16_def)
  have "res ! 0 ! 25 = clamp16 (gain_product (ramp_gain (replicate 11 131072) 3 3 1) 1000)"
    using r(2) [rule_format, of 0 3 1] by (simp add: Let_def)
  then show ?thesis using r(1) by (simp add: ramp_gain_def gain_product_def clamp16_def numeral_eq_Suc)
qed

end
