(* ===== verification/Agc_Analog.thy ===== *)
theory Agc_Analog
  imports Agc_Digital
begin

section \<open>Gain control: the analog part (\<open>agc/legacy/analog_agc.cc\<close>)\<close>

text \<open>
  The model of the whole file, and the correctness of the microphone level control: the record \<open>LegacyAgc\<close> is
  the C struct, memory that \<open>WebRtcAgc_Create\<close> leaves uninitialised is an arbitrary record. Pointers to outputs are
  components of the result. \<open>None\<close> is an access outside an array or a division by zero. A null instance is
  not modelled; a null \<open>config\<close> pointer is.
\<close>

unbundle bit_operations_syntax

subsection \<open>Constants and tables\<close>

definition AGC_UNSPECIFIED_ERROR :: int where "AGC_UNSPECIFIED_ERROR = 18000"
definition AGC_UNINITIALIZED_ERROR :: int where "AGC_UNINITIALIZED_ERROR = 18002"
definition AGC_NULL_POINTER_ERROR :: int where "AGC_NULL_POINTER_ERROR = 18003"
definition AGC_BAD_PARAMETER_ERROR :: int where "AGC_BAD_PARAMETER_ERROR = 18004"

definition kMuteGuardTimeMs :: int where "kMuteGuardTimeMs = 8000"
definition kInitCheck_agc :: int where "kInitCheck_agc = 42"
definition kRxxBufferLen :: int where "kRxxBufferLen = 10"
definition kMsecSpeechInner :: int where "kMsecSpeechInner = 520"
definition kMsecSpeechOuter :: int where "kMsecSpeechOuter = 340"
definition kNormalVadThreshold :: int where "kNormalVadThreshold = 400"
definition kAlphaShortTerm :: nat where "kAlphaShortTerm = 6"
definition kAlphaLongTerm :: nat where "kAlphaLongTerm = 10"
definition GAIN_TBL_LEN :: int where "GAIN_TBL_LEN = 32"

definition kSlope1 :: "int list" where "kSlope1 = [21793, 12517, 7189, 4129, 2372, 1362, 472, 78]"
definition kOffset1 :: "int list" where "kOffset1 = [25395, 23911, 22206, 20737, 19612, 18805, 17951, 17367]"
definition kSlope2 :: "int list" where "kSlope2 = [2063, 1731, 1452, 1218, 1021, 857, 597, 337]"
definition kOffset2 :: "int list" where "kOffset2 = [18432, 18379, 18290, 18177, 18052, 17920, 17670, 17286]"

definition kGainTableAnalog :: "int list" where
  "kGainTableAnalog = [
    4096, 4251, 4412, 4579, 4752, 4932, 5118, 5312, 5513, 5722, 5938, 6163, 6396, 6638, 6889, 7150,
    7420, 7701, 7992, 8295, 8609, 8934, 9273, 9623, 9987, 10365, 10758, 11165, 11587, 12025, 12480, 12953]"

definition kGainTableVirtualMic :: "int list" where
  "kGainTableVirtualMic = [
    1052, 1081, 1110, 1141, 1172, 1204, 1237, 1271, 1305, 1341, 1378, 1416, 1454, 1494, 1535, 1577,
    1620, 1664, 1710, 1757, 1805, 1854, 1905, 1957, 2010, 2065, 2122, 2180, 2239, 2301, 2364, 2428,
    2495, 2563, 2633, 2705, 2779, 2855, 2933, 3013, 3096, 3180, 3267, 3357, 3449, 3543, 3640, 3739,
    3842, 3947, 4055, 4166, 4280, 4397, 4517, 4640, 4767, 4898, 5032, 5169, 5311, 5456, 5605, 5758,
    5916, 6078, 6244, 6415, 6590, 6770, 6956, 7146, 7341, 7542, 7748, 7960, 8178, 8402, 8631, 8867,
    9110, 9359, 9615, 9878, 10148, 10426, 10711, 11004, 11305, 11614, 11932, 12258, 12593, 12938, 13292, 13655,
    14029, 14412, 14807, 15212, 15628, 16055, 16494, 16945, 17409, 17885, 18374, 18877, 19393, 19923, 20468, 21028,
    21603, 22194, 22801, 23425, 24065, 24724, 25400, 26095, 26808, 27541, 28295, 29069, 29864, 30681, 31520, 32382]"

definition kSuppressionTableVirtualMic :: "int list" where
  "kSuppressionTableVirtualMic = [
    1024, 1006, 988, 970, 952, 935, 918, 902, 886, 870, 854, 839, 824, 809, 794, 780,
    766, 752, 739, 726, 713, 700, 687, 675, 663, 651, 639, 628, 616, 605, 594, 584,
    573, 563, 553, 543, 533, 524, 514, 505, 496, 487, 478, 470, 461, 453, 445, 437,
    429, 421, 414, 406, 399, 392, 385, 378, 371, 364, 358, 351, 345, 339, 333, 327,
    321, 315, 309, 304, 298, 293, 288, 283, 278, 273, 268, 263, 258, 254, 249, 244,
    240, 236, 232, 227, 223, 219, 215, 211, 208, 204, 200, 197, 193, 190, 186, 183,
    180, 176, 173, 170, 167, 164, 161, 158, 155, 153, 150, 147, 145, 142, 139, 137,
    134, 132, 130, 127, 125, 123, 121, 118, 116, 114, 112, 110, 108, 106, 104, 102]"

definition kTargetLevelTable :: "int list" where
  "kTargetLevelTable = [
    134209536, 106606424, 84680493, 67264106, 53429779, 42440782, 33711911, 26778323, 21270778, 16895980, 13420954, 10660642, 8468049, 6726411, 5342978, 4244078,
    3371191, 2677832, 2127078, 1689598, 1342095, 1066064, 846805, 672641, 534298, 424408, 337119, 267783, 212708, 168960, 134210, 106606,
    84680, 67264, 53430, 42441, 33712, 26778, 21271, 16896, 13421, 10661, 8468, 6726, 5343, 4244, 3371, 2678,
    2127, 1690, 1342, 1066, 847, 673, 534, 424, 337, 268, 213, 169, 134, 107, 85, 67]"

subsection \<open>State\<close>

record WebRtcAgcConfig =
  cfg_targetLevelDbfs :: int
  cfg_compressionGaindB :: int
  cfg_limiterEnable :: int

record LegacyAgc =
  fs :: int
  compressionGaindB :: int
  targetLevelDbfs :: int
  agc_mode :: int
  limiterEnable :: int
  defaultConfig :: WebRtcAgcConfig
  usedConfig :: WebRtcAgcConfig
  initFlag :: int
  lastError :: int
  analogTargetLevel :: int
  startUpperLimit :: int
  startLowerLimit :: int
  upperPrimaryLimit :: int
  lowerPrimaryLimit :: int
  upperSecondaryLimit :: int
  lowerSecondaryLimit :: int
  targetIdx :: int
  analogTarget :: int
  filterState :: "int list"
  upperLimit :: int
  lowerLimit :: int
  Rxx160w32 :: int
  Rxx16_LPw32 :: int
  Rxx160_LPw32 :: int
  Rxx16_LPw32Max :: int
  Rxx16_vectorw32 :: "int list"
  Rxx16w32_array :: "int list list"
  agc_env :: "int list list"
  Rxx16pos :: int
  envSum :: int
  vadThreshold :: int
  inActive :: int
  msTooLow :: int
  msTooHigh :: int
  changeToSlowMode :: int
  firstCall :: int
  msZero :: int
  msecSpeechOuterChange :: int
  msecSpeechInnerChange :: int
  activeSpeech :: int
  muteGuardMs :: int
  inQueue :: int
  micRef :: int
  gainTableIdx :: int
  micGainIdx :: int
  micVol :: int
  maxLevel :: int
  maxAnalog :: int
  maxInit :: int
  minLevel :: int
  minOutput :: int
  zeroCtrlMax :: int
  lastInMicLevel :: int
  agc_scale :: int
  vadMic :: AgcVad
  digitalAgc :: DigitalAgc
  lowLevelSignal :: int

subsection \<open>The microphone signal\<close>

definition WebRtcAgc_GetAddFarendError :: "LegacyAgc \<Rightarrow> nat \<Rightarrow> int" where
  "WebRtcAgc_GetAddFarendError stt samples =
     (if fs stt = 8000 then (if samples \<noteq> 80 then -1 else 0)
      else if fs stt = 16000 \<or> fs stt = 32000 \<or> fs stt = 48000 then (if samples \<noteq> 160 then -1 else 0)
      else -1)"

definition WebRtcAgc_AddFarend :: "LegacyAgc \<Rightarrow> int list \<Rightarrow> nat \<Rightarrow> (int \<times> LegacyAgc) option" where
  "WebRtcAgc_AddFarend stt in_far samples =
     (let err = WebRtcAgc_GetAddFarendError stt samples
      in if err \<noteq> 0 then Some (err, stt)
         else map_option (\<lambda>(r, d). (r, stt\<lparr>digitalAgc := d\<rparr>)) (WebRtcAgc_AddFarendToDigital (digitalAgc stt) in_far samples))"

text \<open>The slowly varying digital gain above the analog range.\<close>

definition mic_amplify :: "int \<Rightarrow> int \<Rightarrow> int" where
  "mic_amplify g x =
     (let sample = shr (mul32 x g) 12
      in if sample > 32767 then 32767 else if sample < -32768 then -32768 else s16 sample)"

definition mic_gain_index :: "LegacyAgc \<Rightarrow> int option" where
  "mic_gain_index stt =
     (let tmp16 = s16 (sub32 (micVol stt) (maxAnalog stt));
          tmp32 = mul32 (GAIN_TBL_LEN - 1) tmp16;
          tmp16 = s16 (sub32 (maxLevel stt) (maxAnalog stt))
      in if tmp16 = 0 then None
         else let
           targetGainIdx = u16 (cdiv tmp32 tmp16)
         in Some (if gainTableIdx stt < targetGainIdx then u16 (gainTableIdx stt + 1)
                  else if gainTableIdx stt > targetGainIdx then u16 (gainTableIdx stt - 1)
                  else gainTableIdx stt))"

definition mic_gain :: "LegacyAgc \<Rightarrow> int list list \<Rightarrow> nat \<Rightarrow> (LegacyAgc \<times> int list list) option" where
  "mic_gain stt in_mic samples =
     (if micVol stt > maxAnalog stt
      then case mic_gain_index stt of None \<Rightarrow> None
        | Some idx \<Rightarrow>
            (if idx \<ge> GAIN_TBL_LEN then None
             else Some (stt\<lparr>gainTableIdx := idx\<rparr>,
               map (\<lambda>b. map (mic_amplify (kGainTableAnalog ! nat idx)) (take samples b) @ drop samples b) in_mic))
      else Some (stt\<lparr>gainTableIdx := 0\<rparr>, in_mic))"

text \<open>Energies of \<open>n\<close> blocks of 16 samples, from block \<open>i\<close> on.\<close>

fun mic_energy :: "nat \<Rightarrow> nat \<Rightarrow> int \<Rightarrow> int list \<Rightarrow> int list \<Rightarrow> (int list \<times> int list) option" where
  "mic_energy 0 i rate xs flt = Some ([], flt)"
| "mic_energy (Suc n) i rate xs flt =
     (let (tmp_speech, flt) =
            (if rate = 16000 then WebRtcSpl_DownsampleBy2 (drop (i * 32) xs) 32 flt
             else (take 16 (drop (i * 16) xs), flt))
      in case WebRtcSpl_DotProductWithScale tmp_speech tmp_speech 16 4 of None \<Rightarrow> None
         | Some e \<Rightarrow> map_option (\<lambda>(es, flt). (e # es, flt)) (mic_energy n (i + 1) rate xs flt))"

text \<open>Envelope and energies go to the second place of the queue when the first one is taken.\<close>

definition mic_enqueue :: "LegacyAgc \<Rightarrow> int list \<Rightarrow> int list \<Rightarrow> int list \<Rightarrow> LegacyAgc" where
  "mic_enqueue stt env es flt =
     (let q = (if inQueue stt > 0 then 1 else 0)
      in stt\<lparr>agc_env := (agc_env stt)[q := env], Rxx16w32_array := (Rxx16w32_array stt)[q := es], filterState := flt,
           inQueue := (if inQueue stt = 0 then 1 else 2)\<rparr>)"

definition WebRtcAgc_AddMic :: "LegacyAgc \<Rightarrow> int list list \<Rightarrow> nat \<Rightarrow> (int \<times> LegacyAgc \<times> int list list) option" where
  "WebRtcAgc_AddMic stt in_mic samples =
     (if fs stt = 8000 \<and> samples \<noteq> 80 \<or> fs stt \<noteq> 8000 \<and> samples \<noteq> 160 then Some (-1, stt, in_mic)
      else if in_mic = [] \<or> (\<exists>b\<in>set in_mic. length b < samples) then None
      else let L = (if fs stt = 8000 then 8 else 16)
      in case mic_gain stt in_mic samples of None \<Rightarrow> None
         | Some (stt, in_mic) \<Rightarrow>
             (case mic_energy 5 0 (fs stt) (in_mic ! 0) (filterState stt) of None \<Rightarrow> None
              | Some (es, flt) \<Rightarrow>
                  (let stt = mic_enqueue stt (agc_envelope L (in_mic ! 0)) es flt
                   in map_option (\<lambda>(_, v). (0, stt\<lparr>vadMic := v\<rparr>, in_mic)) (WebRtcAgc_ProcessVad (vadMic stt) (in_mic ! 0) samples))))"

subsection \<open>The virtual microphone\<close>

text \<open>Frame energy up to the limit and the number of zero crossings.\<close>

fun low_level_scan :: "int \<Rightarrow> int \<Rightarrow> int list \<Rightarrow> int \<Rightarrow> int \<Rightarrow> int \<times> int" where
  "low_level_scan limit prev [] frameNrg crossings = (frameNrg, crossings)"
| "low_level_scan limit prev (x # xs) frameNrg crossings =
     (let frameNrg = (if frameNrg < limit then u32 (frameNrg + u32 (mul32 x x)) else frameNrg);
          crossings = s16 (crossings + (if x XOR prev < 0 then 1 else 0))
      in low_level_scan limit x xs frameNrg crossings)"

definition low_level :: "int \<Rightarrow> int list \<Rightarrow> int" where
  "low_level rate xs =
     (let frameNrgLimit = (if rate \<noteq> 8000 then u32 (5500 * 2) else 5500);
          (frameNrg, numZeroCrossing) = low_level_scan frameNrgLimit (xs ! 0) (drop 1 xs) (u32 (mul32 (xs ! 0) (xs ! 0))) 0
      in if frameNrg < 500 \<or> numZeroCrossing \<le> 5 then 1
         else if numZeroCrossing \<le> 15 then 0
         else if frameNrg \<le> frameNrgLimit then 1
         else if numZeroCrossing \<ge> 20 then 1
         else 0)"

definition table_at :: "int list \<Rightarrow> int \<Rightarrow> int option" where
  "table_at t i = (if i < 0 \<or> i \<ge> int (length t) then None else Some (t ! nat i))"

definition virtual_gain :: "int \<Rightarrow> int option" where
  "virtual_gain gainIdx =
     (if gainIdx > 127 then table_at kGainTableVirtualMic (gainIdx - 128)
      else table_at kSuppressionTableVirtualMic (127 - gainIdx))"

definition virtual_gain_lowered :: "int \<Rightarrow> int option" where
  "virtual_gain_lowered gainIdx =
     (if gainIdx \<ge> 127 then table_at kGainTableVirtualMic (gainIdx - 127)
      else table_at kSuppressionTableVirtualMic (127 - gainIdx))"

text \<open>One sample of the low band: output, gain index and gain.\<close>

definition virtual_sample :: "int \<Rightarrow> int \<Rightarrow> int \<Rightarrow> (int \<times> int \<times> int) option" where
  "virtual_sample x gainIdx g =
     (let tmpFlt = shr (mul32 x g) 10
      in if tmpFlt > 32767
         then map_option (\<lambda>g. (32767, gainIdx - 1, g)) (virtual_gain_lowered (gainIdx - 1))
         else if tmpFlt < -32768
         then map_option (\<lambda>g. (-32768, gainIdx - 1, g)) (virtual_gain_lowered (gainIdx - 1))
         else Some (s16 tmpFlt, gainIdx, g))"

definition virtual_high :: "int \<Rightarrow> int \<Rightarrow> int" where
  "virtual_high g x =
     (let tmpFlt = shr (mul32 x g) 10;
          tmpFlt = (if tmpFlt > 32767 then 32767 else tmpFlt);
          tmpFlt = (if tmpFlt < -32768 then -32768 else tmpFlt)
      in s16 tmpFlt)"

fun virtual_loop :: "nat \<Rightarrow> nat \<Rightarrow> int \<Rightarrow> int \<Rightarrow> int list list \<Rightarrow> (int \<times> int list list) option" where
  "virtual_loop 0 ii gainIdx g bands = Some (gainIdx, bands)"
| "virtual_loop (Suc n) ii gainIdx g bands =
     (case virtual_sample (bands ! 0 ! ii) gainIdx g of None \<Rightarrow> None
      | Some (out, gainIdx, g) \<Rightarrow>
          virtual_loop n (ii + 1) gainIdx g
            ((bands ! 0)[ii := out] # map (\<lambda>b. b[ii := virtual_high g (b ! ii)]) (drop 1 bands)))"

text \<open>The gain index to start from, after a change of the physical level.\<close>

definition virtual_restart :: "LegacyAgc \<Rightarrow> int \<Rightarrow> LegacyAgc \<times> int" where
  "virtual_restart stt micLevelIn =
     (let micLevelTmp = shl32 micLevelIn (nat (agc_scale stt));
          gainIdx = (if micVol stt > maxAnalog stt then maxAnalog stt else micVol stt)
      in if micLevelTmp \<noteq> micRef stt then (stt\<lparr>micRef := micLevelTmp, micVol := 127, micGainIdx := 127\<rparr>, 127)
         else (stt, gainIdx))"

definition WebRtcAgc_VirtualMic ::
    "LegacyAgc \<Rightarrow> int list list \<Rightarrow> nat \<Rightarrow> int \<Rightarrow> (int \<times> LegacyAgc \<times> int list list \<times> int) option" where
  "WebRtcAgc_VirtualMic stt in_near samples micLevelIn =
     (if in_near = [] \<or> samples = 0 \<or> (\<exists>b\<in>set in_near. length b < samples) then None
      else let
        stt = stt\<lparr>lowLevelSignal := low_level (fs stt) (take samples (in_near ! 0))\<rparr>;
        (stt, gainIdx) = virtual_restart stt micLevelIn
      in case virtual_gain gainIdx of None \<Rightarrow> None
         | Some g \<Rightarrow> (case virtual_loop samples 0 gainIdx g in_near of None \<Rightarrow> None
             | Some (gainIdx, in_near) \<Rightarrow>
                 (let stt = stt\<lparr>micGainIdx := gainIdx\<rparr>;
                      micLevelOut = shr (micGainIdx stt) (nat (agc_scale stt))
                  in case WebRtcAgc_AddMic stt in_near samples of None \<Rightarrow> None
                     | Some (r, stt, in_near) \<Rightarrow> Some (if r \<noteq> 0 then -1 else 0, stt, in_near, micLevelOut))))"

subsection \<open>Configuration\<close>

definition target_level :: "int \<Rightarrow> int" where
  "target_level i = mul32 kRxxBufferLen (kTargetLevelTable ! nat i)"

definition analog_target :: "LegacyAgc \<Rightarrow> int" where
  "analog_target stt =
     (let tmp16 = s16 (5 * compressionGaindB stt + 5);
          tmp16 = WebRtcSpl_DivW32W16ResW16 tmp16 11;
          target = s16 (4 + tmp16);
          target = (if target < 4 then 4 else target)
      in if agc_mode stt = kAgcModeFixedDigital then compressionGaindB stt else target)"

definition WebRtcAgc_UpdateAgcThresholds :: "LegacyAgc \<Rightarrow> LegacyAgc" where
  "WebRtcAgc_UpdateAgcThresholds stt =
     (let stt = stt\<lparr>analogTarget := analog_target stt\<rparr>;
          idx = 11 + 9
      in stt\<lparr>targetIdx := idx, analogTargetLevel := target_level idx, startUpperLimit := target_level (idx - 1),
           startLowerLimit := target_level (idx + 1), upperPrimaryLimit := target_level (idx - 2),
           lowerPrimaryLimit := target_level (idx + 2), upperSecondaryLimit := target_level (idx - 5),
           lowerSecondaryLimit := target_level (idx + 5), upperLimit := target_level (idx - 1),
           lowerLimit := target_level (idx + 1)\<rparr>)"

definition WebRtcAgc_set_config :: "LegacyAgc \<Rightarrow> WebRtcAgcConfig \<Rightarrow> (int \<times> LegacyAgc) option" where
  "WebRtcAgc_set_config stt cfg =
     (if initFlag stt \<noteq> kInitCheck_agc then Some (-1, stt\<lparr>lastError := AGC_UNINITIALIZED_ERROR\<rparr>)
      else if cfg_limiterEnable cfg \<noteq> 0 \<and> cfg_limiterEnable cfg \<noteq> 1 then Some (-1, stt\<lparr>lastError := AGC_BAD_PARAMETER_ERROR\<rparr>)
      else let
        stt = stt\<lparr>limiterEnable := cfg_limiterEnable cfg, compressionGaindB := cfg_compressionGaindB cfg\<rparr>
      in if cfg_targetLevelDbfs cfg < 0 \<or> cfg_targetLevelDbfs cfg > 31 then Some (-1, stt\<lparr>lastError := AGC_BAD_PARAMETER_ERROR\<rparr>)
         else let
           stt = stt\<lparr>targetLevelDbfs := cfg_targetLevelDbfs cfg\<rparr>;
           stt = (if agc_mode stt = kAgcModeFixedDigital
                  then stt\<lparr>compressionGaindB := s16 (compressionGaindB stt + cfg_targetLevelDbfs cfg)\<rparr> else stt);
           stt = WebRtcAgc_UpdateAgcThresholds stt
         in case WebRtcAgc_CalculateGainTable (gainTable (digitalAgc stt)) (compressionGaindB stt) (targetLevelDbfs stt)
                   (limiterEnable stt) (analogTarget stt) of None \<Rightarrow> None
            | Some (r, t) \<Rightarrow>
                (let stt = stt\<lparr>digitalAgc := (digitalAgc stt)\<lparr>gainTable := t\<rparr>\<rparr>
                 in if r = -1 then Some (-1, stt)
                    else Some (0, stt\<lparr>usedConfig := (usedConfig stt)\<lparr>cfg_compressionGaindB := cfg_compressionGaindB cfg,
                           cfg_limiterEnable := cfg_limiterEnable cfg, cfg_targetLevelDbfs := cfg_targetLevelDbfs cfg\<rparr>\<rparr>)))"

text \<open>\<open>None\<close> for the configuration is the null pointer.\<close>

definition WebRtcAgc_get_config :: "LegacyAgc \<Rightarrow> WebRtcAgcConfig option \<Rightarrow> int \<times> LegacyAgc \<times> WebRtcAgcConfig option" where
  "WebRtcAgc_get_config stt config =
     (case config of None \<Rightarrow> (-1, stt\<lparr>lastError := AGC_NULL_POINTER_ERROR\<rparr>, None)
      | Some c \<Rightarrow>
          (if initFlag stt \<noteq> kInitCheck_agc then (-1, stt\<lparr>lastError := AGC_UNINITIALIZED_ERROR\<rparr>, Some c)
           else (0, stt, Some (c\<lparr>cfg_limiterEnable := cfg_limiterEnable (usedConfig stt),
             cfg_targetLevelDbfs := cfg_targetLevelDbfs (usedConfig stt),
             cfg_compressionGaindB := cfg_compressionGaindB (usedConfig stt)\<rparr>))))"

text \<open>The argument is the content of the allocated memory.\<close>

definition WebRtcAgc_Create :: "LegacyAgc \<Rightarrow> LegacyAgc" where
  "WebRtcAgc_Create memory = memory\<lparr>initFlag := 0, lastError := 0\<rparr>"

subsection \<open>Initialisation\<close>

definition init_levels :: "int \<Rightarrow> int \<Rightarrow> LegacyAgc \<Rightarrow> LegacyAgc" where
  "init_levels min_level max_level stt =
     (let max_add = s32 (cdiv (sub32 max_level min_level) 4);
          stt = stt\<lparr>minLevel := min_level, maxAnalog := max_level, maxLevel := add32 max_level max_add\<rparr>;
          stt = stt\<lparr>maxInit := maxLevel stt, zeroCtrlMax := maxAnalog stt, lastInMicLevel := 0,
            micVol := (if agc_mode stt = kAgcModeAdaptiveDigital then 127 else maxAnalog stt)\<rparr>;
          stt = stt\<lparr>micRef := micVol stt, micGainIdx := 127\<rparr>;
          tmp32 = shr (mul32 (sub32 (maxLevel stt) (minLevel stt)) 10) 8
      in stt\<lparr>minOutput := add32 (minLevel stt) tmp32\<rparr>)"

definition init_measures :: "LegacyAgc \<Rightarrow> LegacyAgc" where
  "init_measures stt = stt\<lparr>msTooLow := 0, msTooHigh := 0, changeToSlowMode := 0, firstCall := 0, msZero := 0,
     muteGuardMs := 0, gainTableIdx := 0, msecSpeechInnerChange := kMsecSpeechInner,
     msecSpeechOuterChange := kMsecSpeechOuter, activeSpeech := 0, Rxx16_LPw32Max := 0,
     vadThreshold := kNormalVadThreshold, inActive := 0,
     Rxx16_vectorw32 := replicate (nat kRxxBufferLen) 1000, Rxx160w32 := 125 * kRxxBufferLen, Rxx16pos := 0,
     Rxx16_LPw32 := 16284, Rxx16w32_array := (Rxx16w32_array stt)[0 := replicate 5 0],
     agc_env := [replicate 10 0, replicate 10 0], inQueue := 0, filterState := replicate 8 0,
     initFlag := kInitCheck_agc,
     defaultConfig := (defaultConfig stt)\<lparr>cfg_limiterEnable := 1, cfg_targetLevelDbfs := 3, cfg_compressionGaindB := 9\<rparr>\<rparr>"

definition init_scale :: "int \<Rightarrow> LegacyAgc \<Rightarrow> LegacyAgc" where
  "init_scale max_level stt =
     (let tmpNorm = WebRtcSpl_NormU32 (u32 max_level);
          stt = stt\<lparr>agc_scale := s16 (tmpNorm - 23)\<rparr>;
          stt = (if agc_scale stt < 0 then stt\<lparr>agc_scale := 0\<rparr> else stt)
      in stt\<lparr>agc_scale := 0\<rparr>)"

definition init_mode :: "int \<Rightarrow> int \<Rightarrow> int \<Rightarrow> LegacyAgc \<Rightarrow> LegacyAgc" where
  "init_mode mode rate max_level stt =
     (let stt = stt\<lparr>agc_mode := mode, fs := rate\<rparr>;
          stt = stt\<lparr>vadMic := WebRtcAgc_InitVad (vadMic stt)\<rparr>
      in init_scale max_level stt)"

text \<open>The levels are static in the adaptive digital mode.\<close>

definition init_range :: "int \<Rightarrow> int \<Rightarrow> LegacyAgc \<Rightarrow> int \<times> int \<times> LegacyAgc" where
  "init_range min_level max_level stt =
     (let max_level = shl32 max_level (nat (agc_scale stt));
          min_level = shl32 min_level (nat (agc_scale stt))
      in if agc_mode stt = kAgcModeAdaptiveDigital then (0, 255, stt\<lparr>agc_scale := 0\<rparr>) else (min_level, max_level, stt))"

definition init_finish :: "LegacyAgc \<Rightarrow> LegacyAgc" where
  "init_finish stt = stt\<lparr>Rxx160_LPw32 := analogTargetLevel stt, lowLevelSignal := 0\<rparr>"

definition WebRtcAgc_Init :: "LegacyAgc \<Rightarrow> int \<Rightarrow> int \<Rightarrow> int \<Rightarrow> int \<Rightarrow> (int \<times> LegacyAgc) option" where
  "WebRtcAgc_Init stt min_level max_level mode rate =
     (let (r, d) = WebRtcAgc_InitDigital (digitalAgc stt) mode;
          stt = stt\<lparr>digitalAgc := d\<rparr>
      in if r \<noteq> 0 then Some (-1, stt\<lparr>lastError := AGC_UNINITIALIZED_ERROR\<rparr>)
         else let stt = stt\<lparr>envSum := 0\<rparr>
         in if mode < kAgcModeUnchanged \<or> mode > kAgcModeFixedDigital then Some (-1, stt)
            else let
              stt = init_mode mode rate max_level stt;
              (min_level, max_level, stt) = init_range min_level max_level stt;
              stt = init_measures (init_levels min_level max_level stt)
            in case WebRtcAgc_set_config stt (defaultConfig stt) of None \<Rightarrow> None
               | Some (r, stt) \<Rightarrow>
                   (if r = -1 then Some (-1, stt\<lparr>lastError := AGC_UNSPECIFIED_ERROR\<rparr>)
                    else Some (if min_level \<ge> max_level \<or> max_level AND 0xFC000000 \<noteq> 0 then -1 else 0, init_finish stt)))"

subsection \<open>The microphone level\<close>

fun envelope_sum :: "int list \<Rightarrow> int \<Rightarrow> int" where
  "envelope_sum [] s = s"
| "envelope_sum (e # es) s =
     (let tmpW16 = s16 (shr e 20) in envelope_sum es (if tmpW16 > 875 then s16 (s + tmpW16) else s))"

definition WebRtcAgc_SaturationCtrl :: "LegacyAgc \<Rightarrow> int list \<Rightarrow> LegacyAgc \<times> bool" where
  "WebRtcAgc_SaturationCtrl stt env =
     (let s = envelope_sum (take 10 env) (envSum stt);
          saturated = (s > 25000);
          s = (if saturated then 0 else s)
      in (stt\<lparr>envSum := s16 (shr (mul32 s 32440) 15)\<rparr>, saturated))"

definition WebRtcAgc_ZeroCtrl :: "LegacyAgc \<Rightarrow> int \<Rightarrow> int list \<Rightarrow> LegacyAgc \<times> int" where
  "WebRtcAgc_ZeroCtrl stt inMicLevel env =
     (let tmp = s64 (sum_list (take 10 env));
          stt = stt\<lparr>msZero := (if tmp < 500 then s16 (msZero stt + 10) else 0)\<rparr>;
          stt = (if muteGuardMs stt > 0 then stt\<lparr>muteGuardMs := s16 (muteGuardMs stt - 10)\<rparr> else stt)
      in if msZero stt > 500
         then let
           stt = stt\<lparr>msZero := 0\<rparr>;
           midVal = s32 (cdiv (add32 (add32 (maxAnalog stt) (minLevel stt)) 1) 2);
           raised = min (shr (mul32 1126 inMicLevel) 10) (zeroCtrlMax stt);
           (stt, inMicLevel) = (if inMicLevel < midVal then (stt\<lparr>micVol := raised\<rparr>, raised) else (stt, inMicLevel))
         in (stt\<lparr>activeSpeech := 0, Rxx16_LPw32Max := 0, muteGuardMs := kMuteGuardTimeMs\<rparr>, inMicLevel)
         else (stt, inMicLevel))"

definition WebRtcAgc_SpeakerInactiveCtrl :: "LegacyAgc \<Rightarrow> LegacyAgc" where
  "WebRtcAgc_SpeakerInactiveCtrl stt =
     (if stdLongTerm (vadMic stt) < 2500 then stt\<lparr>vadThreshold := 1500\<rparr>
      else let
        vadThresh = kNormalVadThreshold;
        vadThresh = (if stdLongTerm (vadMic stt) < 4500 then s16 (vadThresh + cdiv (4500 - stdLongTerm (vadMic stt)) 2) else vadThresh);
        tmp32 = vadThresh + 31 * vadThreshold stt
      in stt\<lparr>vadThreshold := s16 (shr tmp32 5)\<rparr>)"

definition WebRtcAgc_ExpCurve :: "int \<Rightarrow> int" where
  "WebRtcAgc_ExpCurve volume =
     (if volume > 5243
      then if volume > 7864 then (if volume > 12124 then 7 else 6) else (if volume > 6554 then 5 else 4)
      else if volume > 2621 then (if volume > 3932 then 3 else 2) else (if volume > 1311 then 1 else 0))"

text \<open>The level the frame starts from: first call, digital gain, manual changes.\<close>

definition low_start :: "LegacyAgc \<Rightarrow> int" where
  "low_start stt = add32 (minLevel stt) (shr (mul32 (sub32 (maxLevel stt) (minLevel stt)) 51) 9)"

definition start_first :: "LegacyAgc \<Rightarrow> int \<Rightarrow> LegacyAgc \<times> int" where
  "start_first stt lvl =
     (if firstCall stt = 0
      then let
        stt = stt\<lparr>firstCall := 1\<rparr>;
        lvl = (if lvl < low_start stt \<and> agc_mode stt = kAgcModeAdaptiveAnalog then low_start stt else lvl)
      in (stt\<lparr>micVol := lvl\<rparr>, lvl)
      else (stt, lvl))"

definition start_manual :: "LegacyAgc \<Rightarrow> int \<Rightarrow> LegacyAgc \<times> int" where
  "start_manual stt lvl =
     (if lvl \<noteq> micVol stt \<and> lvl < minOutput stt then (stt\<lparr>micVol := low_start stt\<rparr>, low_start stt) else (stt, lvl))"

definition start_sync :: "LegacyAgc \<Rightarrow> int \<Rightarrow> int \<Rightarrow> LegacyAgc \<times> int" where
  "start_sync stt inMicLevel lvl =
     (if lvl \<noteq> micVol stt
      then if inMicLevel = lastInMicLevel stt then (stt, micVol stt) else (stt\<lparr>micVol := lvl\<rparr>, lvl)
      else (stt, lvl))"

definition start_level :: "LegacyAgc \<Rightarrow> int \<Rightarrow> int \<Rightarrow> LegacyAgc \<times> int" where
  "start_level stt inMicLevel lvl =
     (let (stt, lvl) = start_first stt lvl;
          lvl = (if lvl = maxAnalog stt \<and> micVol stt > maxAnalog stt then micVol stt else lvl);
          (stt, lvl) = start_manual stt lvl;
          (stt, lvl) = start_sync stt inMicLevel lvl;
          stt = (if lvl > maxLevel stt then stt\<lparr>maxLevel := lvl\<rparr> else stt)
      in (stt\<lparr>lastInMicLevel := inMicLevel\<rparr>, lvl))"

text \<open>The level scaled down by \<open>factor\<close> in Q15, and at least \<open>dec\<close> below the last one.\<close>

definition lowered_level :: "LegacyAgc \<Rightarrow> int \<Rightarrow> int \<Rightarrow> int \<Rightarrow> int \<Rightarrow> int" where
  "lowered_level stt factor lvl lastMicVol dec =
     (let tmpU32 = u32 (factor * u32 (sub32 lvl (minLevel stt)));
          vol = s32 (shr tmpU32 15 + minLevel stt)
      in if vol > sub32 lastMicVol dec then sub32 lastMicVol dec else vol)"

definition saturation_step :: "LegacyAgc \<Rightarrow> int \<Rightarrow> int \<Rightarrow> LegacyAgc \<times> int \<times> bool" where
  "saturation_step stt lvl lastMicVol =
     (let stt = stt\<lparr>Rxx160_LPw32 := mul32 (cdiv (Rxx160_LPw32 stt) 8) 7, zeroCtrlMax := micVol stt\<rparr>;
          stt = stt\<lparr>micVol := lowered_level stt 29591 lvl lastMicVol 2\<rparr>;
          lvl = micVol stt;
          warning = (micVol stt < minOutput stt)
      in (stt\<lparr>msTooHigh := -100, activeSpeech := 0, Rxx16_LPw32Max := 0, msecSpeechInnerChange := kMsecSpeechInner,
            msecSpeechOuterChange := kMsecSpeechOuter, changeToSlowMode := 0, muteGuardMs := 0,
            upperLimit := startUpperLimit stt, lowerLimit := startLowerLimit stt\<rparr>, lvl, warning))"

definition measure_step :: "LegacyAgc \<Rightarrow> int \<Rightarrow> LegacyAgc option" where
  "measure_step stt Rxx16w32 =
     (if Rxx16pos stt < 0 \<or> Rxx16pos stt \<ge> kRxxBufferLen then None
      else let
        pos = nat (Rxx16pos stt);
        tmp32 = shr (sub32 Rxx16w32 (Rxx16_vectorw32 stt ! pos)) 3;
        stt = stt\<lparr>Rxx160w32 := add32 (Rxx160w32 stt) tmp32, Rxx16_vectorw32 := (Rxx16_vectorw32 stt)[pos := Rxx16w32]\<rparr>;
        next_pos = s16 (Rxx16pos stt + 1);
        stt = stt\<lparr>Rxx16pos := (if next_pos = kRxxBufferLen then 0 else next_pos)\<rparr>;
        tmp32 = shr (sub32 Rxx16w32 (Rxx16_LPw32 stt)) kAlphaShortTerm
      in Some (stt\<lparr>Rxx16_LPw32 := add32 (Rxx16_LPw32 stt) tmp32\<rparr>))"

definition speech_measure :: "LegacyAgc \<Rightarrow> LegacyAgc" where
  "speech_measure stt =
     (let stt = (if activeSpeech stt < 250
                 then let stt = stt\<lparr>activeSpeech := s16 (activeSpeech stt + 2)\<rparr>
                      in if Rxx16_LPw32 stt > Rxx16_LPw32Max stt then stt\<lparr>Rxx16_LPw32Max := Rxx16_LPw32 stt\<rparr> else stt
                 else if activeSpeech stt = 250
                 then stt\<lparr>activeSpeech := s16 (activeSpeech stt + 2), Rxx160_LPw32 := mul32 (shr (Rxx16_LPw32Max stt) 3) kRxxBufferLen\<rparr>
                 else stt);
          tmp32 = shr (sub32 (Rxx160w32 stt) (Rxx160_LPw32 stt)) kAlphaLongTerm
      in stt\<lparr>Rxx160_LPw32 := add32 (Rxx160_LPw32 stt) tmp32\<rparr>)"

definition lower_max :: "LegacyAgc \<Rightarrow> LegacyAgc" where
  "lower_max stt =
     (let stt = stt\<lparr>maxLevel := s32 (cdiv (add32 (mul32 15 (maxLevel stt)) (micVol stt)) 16)\<rparr>;
          stt = stt\<lparr>maxLevel := max (maxLevel stt) (maxAnalog stt)\<rparr>
      in stt\<lparr>zeroCtrlMax := micVol stt\<rparr>)"

definition too_high_outer :: "LegacyAgc \<Rightarrow> int \<Rightarrow> int \<Rightarrow> LegacyAgc \<times> int" where
  "too_high_outer stt lvl lastMicVol =
     (let stt = stt\<lparr>msTooHigh := s16 (msTooHigh stt + 2), msTooLow := 0, changeToSlowMode := 0\<rparr>
      in if msTooHigh stt > msecSpeechOuterChange stt
         then let
           stt = stt\<lparr>msTooHigh := 0, Rxx160_LPw32 := mul32 (shr (Rxx160_LPw32 stt) 6) 53\<rparr>;
           stt = lower_max stt;
           stt = stt\<lparr>micVol := lowered_level stt 31130 lvl lastMicVol 1\<rparr>
         in (stt\<lparr>activeSpeech := 0, Rxx16_LPw32Max := 0\<rparr>, micVol stt)
         else (stt, lvl))"

definition too_high_inner :: "LegacyAgc \<Rightarrow> int \<Rightarrow> int \<Rightarrow> LegacyAgc \<times> int" where
  "too_high_inner stt lvl lastMicVol =
     (let stt = stt\<lparr>msTooHigh := s16 (msTooHigh stt + 2), msTooLow := 0, changeToSlowMode := 0\<rparr>
      in if msTooHigh stt > msecSpeechInnerChange stt
         then let
           stt = stt\<lparr>msTooHigh := 0, Rxx160_LPw32 := mul32 (cdiv (Rxx160_LPw32 stt) 64) 53\<rparr>;
           stt = lower_max stt;
           stt = stt\<lparr>micVol := lowered_level stt 31621 lvl lastMicVol 1\<rparr>
         in (stt, micVol stt)
         else (stt, lvl))"

text \<open>The level scaled up by the weight of the curve, and at least \<open>inc\<close> above the last one.\<close>

definition volume_norm :: "LegacyAgc \<Rightarrow> int \<Rightarrow> int" where
  "volume_norm stt lvl =
     (let tmp32 = shl32 (sub32 lvl (minLevel stt)) 14
      in if maxInit stt \<noteq> minLevel stt then s16 (cdiv tmp32 (sub32 (maxInit stt) (minLevel stt))) else 16384)"

definition curve_weight :: "int list \<Rightarrow> int list \<Rightarrow> int \<Rightarrow> int" where
  "curve_weight offset slope volNormFIX =
     (let index = nat (WebRtcAgc_ExpCurve volNormFIX)
      in s16 (offset ! index - s16 (shr (mul32 (slope ! index) volNormFIX) 13)))"

definition raised_level :: "LegacyAgc \<Rightarrow> int list \<Rightarrow> int list \<Rightarrow> int \<Rightarrow> int \<Rightarrow> int \<Rightarrow> int" where
  "raised_level stt offset slope lvl lastMicVol inc =
     (let weightFIX = curve_weight offset slope (volume_norm stt lvl);
          tmpU32 = u32 (u32 weightFIX * u32 (sub32 lvl (minLevel stt)));
          vol = s32 (shr tmpU32 14 + minLevel stt)
      in if vol < add32 lastMicVol inc then add32 lastMicVol inc else vol)"

definition too_low :: "int \<Rightarrow> int list \<Rightarrow> int list \<Rightarrow> int \<Rightarrow> LegacyAgc \<Rightarrow> int \<Rightarrow> int \<Rightarrow> LegacyAgc \<times> int" where
  "too_low change offset slope inc stt lvl lastMicVol =
     (let stt = stt\<lparr>msTooHigh := 0, changeToSlowMode := 0, msTooLow := s16 (msTooLow stt + 2)\<rparr>
      in if msTooLow stt > change
         then let
           stt = stt\<lparr>msTooLow := 0\<rparr>;
           stt = stt\<lparr>Rxx160_LPw32 := mul32 (cdiv (Rxx160_LPw32 stt) 64) 67\<rparr>;
           stt = stt\<lparr>micVol := raised_level stt offset slope lvl lastMicVol inc\<rparr>
         in (stt, micVol stt)
         else (stt, lvl))"

definition in_desired_range :: "LegacyAgc \<Rightarrow> int \<Rightarrow> LegacyAgc \<times> int" where
  "in_desired_range stt lvl =
     (let stt = (if changeToSlowMode stt > 4000
                 then stt\<lparr>msecSpeechInnerChange := 1000, msecSpeechOuterChange := 500,
                        upperLimit := upperPrimaryLimit stt, lowerLimit := lowerPrimaryLimit stt\<rparr>
                 else stt\<lparr>changeToSlowMode := s16 (changeToSlowMode stt + 2)\<rparr>)
      in (stt\<lparr>msTooLow := 0, msTooHigh := 0, micVol := lvl\<rparr>, lvl))"

definition speech_step :: "LegacyAgc \<Rightarrow> int \<Rightarrow> int \<Rightarrow> LegacyAgc \<times> int" where
  "speech_step stt lvl lastMicVol =
     (let stt = speech_measure stt
      in if Rxx160_LPw32 stt > upperSecondaryLimit stt then too_high_outer stt lvl lastMicVol
         else if Rxx160_LPw32 stt > upperLimit stt then too_high_inner stt lvl lastMicVol
         else if Rxx160_LPw32 stt < lowerSecondaryLimit stt
         then too_low (msecSpeechOuterChange stt) kOffset1 kSlope1 2 stt lvl lastMicVol
         else if Rxx160_LPw32 stt < lowerLimit stt
         then too_low (msecSpeechInnerChange stt) kOffset2 kSlope2 1 stt lvl lastMicVol
         else in_desired_range stt lvl)"

fun analog_loop :: "int list \<Rightarrow> int \<Rightarrow> int \<Rightarrow> LegacyAgc \<Rightarrow> int \<Rightarrow> (LegacyAgc \<times> int) option" where
  "analog_loop [] vadLogRatio lastMicVol stt lvl = Some (stt, lvl)"
| "analog_loop (r # rs) vadLogRatio lastMicVol stt lvl =
     (case measure_step stt r of None \<Rightarrow> None
      | Some stt \<Rightarrow>
          (let (stt, lvl) = (if vadLogRatio > vadThreshold stt then speech_step stt lvl lastMicVol else (stt, lvl))
           in analog_loop rs vadLogRatio lastMicVol stt lvl))"

text \<open>No increase with an echo or after a mute event, and the range of the level.\<close>

definition final_level :: "LegacyAgc \<Rightarrow> int \<Rightarrow> int \<Rightarrow> LegacyAgc" where
  "final_level stt lastMicVol echo =
     (let stt = (if echo = 1 \<or> muteGuardMs stt > 0 \<and> muteGuardMs stt < kMuteGuardTimeMs
                 then if micVol stt > lastMicVol then stt\<lparr>micVol := lastMicVol\<rparr> else stt
                 else stt)
      in if micVol stt > maxLevel stt then stt\<lparr>micVol := maxLevel stt\<rparr>
         else if micVol stt < minOutput stt then stt\<lparr>micVol := minOutput stt\<rparr>
         else stt)"

text \<open>The result: return value, state, output level and saturation warning.\<close>

definition WebRtcAgc_ProcessAnalog ::
    "LegacyAgc \<Rightarrow> int \<Rightarrow> int \<Rightarrow> int \<Rightarrow> int \<Rightarrow> int \<Rightarrow> (int \<times> LegacyAgc \<times> int \<times> int) option" where
  "WebRtcAgc_ProcessAnalog stt inMicLevel outMicLevel vadLogRatio echo saturationWarning =
     (let lvl = shl32 inMicLevel (nat (agc_scale stt))
      in if lvl > maxAnalog stt \<or> lvl < minLevel stt then Some (-1, stt, outMicLevel, saturationWarning)
         else let
           (stt, lvl) = start_level stt inMicLevel lvl;
           lastMicVol = micVol stt;
           (stt, saturated) = WebRtcAgc_SaturationCtrl stt (agc_env stt ! 0);
           (stt, lvl, warning) = (if saturated then saturation_step stt lvl lastMicVol else (stt, lvl, False));
           (stt, lvl) = WebRtcAgc_ZeroCtrl stt lvl (agc_env stt ! 0);
           stt = WebRtcAgc_SpeakerInactiveCtrl stt
         in case analog_loop (take 5 (Rxx16w32_array stt ! 0)) vadLogRatio lastMicVol stt lvl of None \<Rightarrow> None
            | Some (stt, lvl) \<Rightarrow>
                (let stt = final_level stt lastMicVol echo
                 in Some (0, stt, shr (min (micVol stt) (maxAnalog stt)) (nat (agc_scale stt)),
                      if warning then 1 else saturationWarning)))"

subsection \<open>The interface\<close>

definition mic_dequeue :: "LegacyAgc \<Rightarrow> LegacyAgc" where
  "mic_dequeue stt =
     (let stt = (if inQueue stt > 1
                 then stt\<lparr>agc_env := (agc_env stt)[0 := agc_env stt ! 1], Rxx16w32_array := (Rxx16w32_array stt)[0 := Rxx16w32_array stt ! 1]\<rparr>
                 else stt)
      in if inQueue stt > 0 then stt\<lparr>inQueue := s16 (inQueue stt - 1)\<rparr> else stt)"

text \<open>The level control runs in the analog modes, and in the adaptive digital mode unless the signal is low.\<close>

definition level_controlled :: "LegacyAgc \<Rightarrow> bool" where
  "level_controlled stt \<longleftrightarrow> agc_mode stt < kAgcModeFixedDigital \<and> (lowLevelSignal stt = 0 \<or> agc_mode stt \<noteq> kAgcModeAdaptiveDigital)"

text \<open>The result: return value, state, output level, saturation warning and gains.\<close>

definition WebRtcAgc_Analyze ::
    "LegacyAgc \<Rightarrow> int list list \<Rightarrow> nat \<Rightarrow> int \<Rightarrow> int \<Rightarrow> int \<Rightarrow> int \<Rightarrow> int list \<Rightarrow>
     (int \<times> LegacyAgc \<times> int \<times> int \<times> int list) option" where
  "WebRtcAgc_Analyze stt in_near samples inMicLevel outMicLevel echo saturationWarning gains =
     (if (if fs stt = 8000 then samples \<noteq> 80
          else if fs stt = 16000 \<or> fs stt = 32000 \<or> fs stt = 48000 then samples \<noteq> 160 else True)
      then Some (-1, stt, outMicLevel, saturationWarning, gains)
      else case WebRtcAgc_ComputeDigitalGains (digitalAgc stt) in_near (fs stt) (lowLevelSignal stt) gains of None \<Rightarrow> None
      | Some (err, d, gains) \<Rightarrow>
          (let stt = stt\<lparr>digitalAgc := d\<rparr>
           in if err = -1 then Some (-1, stt, inMicLevel, 0, gains)
              else case (if level_controlled stt then WebRtcAgc_ProcessAnalog stt inMicLevel inMicLevel (logRatio (vadMic stt)) echo 0
                         else Some (0, stt, inMicLevel, 0)) of None \<Rightarrow> None
              | Some (r, stt, outMicLevel, warning) \<Rightarrow>
                  (if r = -1 then Some (-1, stt, outMicLevel, warning, gains)
                   else Some (0, mic_dequeue stt, outMicLevel, warning, gains))))"

definition WebRtcAgc_Process ::
    "LegacyAgc \<Rightarrow> int list \<Rightarrow> int list list \<Rightarrow> nat \<Rightarrow> int list list \<Rightarrow> (int \<times> int list list) option" where
  "WebRtcAgc_Process stt gains in_near num_bands out = WebRtcAgc_ApplyDigitalGains gains num_bands (fs stt) in_near out"

subsection \<open>The state between and within the frames\<close>

text \<open>
  \<open>levels_ok\<close> holds at every point of a frame, \<open>buffers_ok\<close> covers what no step of the level control touches
  except the ring of energies, and \<open>quiet k\<close> says that no change of the level can fall due before step \<open>k = 5\<close>.
\<close>

definition levels_ok :: "LegacyAgc \<Rightarrow> bool" where
  "levels_ok stt \<longleftrightarrow> agc_scale stt = 0 \<and> 0 \<le> minLevel stt \<and> minLevel stt < maxAnalog stt \<and> maxAnalog stt \<le> 65535
     \<and> maxInit stt = maxAnalog stt + (maxAnalog stt - minLevel stt) div 4
     \<and> minOutput stt = minLevel stt + (maxInit stt - minLevel stt) * 10 div 256
     \<and> maxAnalog stt \<le> maxLevel stt \<and> maxLevel stt \<le> maxInit stt
     \<and> -10 \<le> zeroCtrlMax stt \<and> zeroCtrlMax stt \<le> maxInit stt
     \<and> 340 \<le> msecSpeechInnerChange stt \<and> 340 \<le> msecSpeechOuterChange stt
     \<and> in_s16 (msTooLow stt) \<and> in_s16 (msTooHigh stt)"

definition buffers_ok :: "LegacyAgc \<Rightarrow> bool" where
  "buffers_ok stt \<longleftrightarrow> 0 \<le> agc_mode stt \<and> agc_mode stt \<le> 3 \<and> initFlag stt = kInitCheck_agc
     \<and> (agc_mode stt = kAgcModeAdaptiveDigital \<longrightarrow> minLevel stt = 0 \<and> maxAnalog stt = 255)
     \<and> 0 \<le> gainTableIdx stt \<and> gainTableIdx stt \<le> 31 \<and> length (filterState stt) = 8
     \<and> length (agc_env stt) = 2 \<and> (\<forall>e\<in>set (agc_env stt). length e = 10)
     \<and> length (Rxx16w32_array stt) = 2 \<and> (\<forall>r\<in>set (Rxx16w32_array stt). length r = 5)
     \<and> vad_ok (vadMic stt) \<and> dig_ok (digitalAgc stt)"

definition ring_ok :: "LegacyAgc \<Rightarrow> bool" where
  "ring_ok stt \<longleftrightarrow> length (Rxx16_vectorw32 stt) = 10 \<and> 0 \<le> Rxx16pos stt \<and> Rxx16pos stt < 10"

definition agc_ok :: "LegacyAgc \<Rightarrow> bool" where
  "agc_ok stt \<longleftrightarrow> levels_ok stt \<and> buffers_ok stt \<and> ring_ok stt \<and> minOutput stt \<le> micVol stt \<and> micVol stt \<le> maxLevel stt"

definition agc_static ::
    "LegacyAgc \<Rightarrow> (int \<times> int \<times> int \<times> int \<times> int) \<times> (int \<times> int \<times> int \<times> int \<times> int \<times> int) \<times> int list \<times> int list list \<times> int list list \<times> AgcVad \<times> DigitalAgc" where
  "agc_static stt = ((agc_scale stt, minLevel stt, maxAnalog stt, maxInit stt, minOutput stt),
     (fs stt, agc_mode stt, initFlag stt, gainTableIdx stt, inQueue stt, lowLevelSignal stt),
     filterState stt, agc_env stt, Rxx16w32_array stt, vadMic stt, digitalAgc stt)"

definition quiet :: "int \<Rightarrow> LegacyAgc \<Rightarrow> bool" where
  "quiet k stt \<longleftrightarrow> msTooLow stt \<le> 330 + 2 * k \<and> msTooHigh stt \<le> 330 + 2 * k"

definition volume_ok :: "LegacyAgc \<Rightarrow> int \<Rightarrow> bool" where
  "volume_ok stt v \<longleftrightarrow> -10 \<le> v \<and> v \<le> maxInit stt"

lemma static_buffers: "agc_static stt' = agc_static stt \<Longrightarrow> buffers_ok stt \<Longrightarrow> buffers_ok stt'"
  by (simp add: agc_static_def buffers_ok_def)

text \<open>Fields that the predicates do not look at.\<close>

lemma levels_frame [simp]:
  "levels_ok (s\<lparr>micVol := x\<rparr>) = levels_ok s" "levels_ok (s\<lparr>activeSpeech := x\<rparr>) = levels_ok s"
  "levels_ok (s\<lparr>Rxx16_LPw32Max := x\<rparr>) = levels_ok s" "levels_ok (s\<lparr>Rxx160_LPw32 := x\<rparr>) = levels_ok s"
  "levels_ok (s\<lparr>changeToSlowMode := x\<rparr>) = levels_ok s" "levels_ok (s\<lparr>vadThreshold := x\<rparr>) = levels_ok s"
  "levels_ok (s\<lparr>muteGuardMs := x\<rparr>) = levels_ok s" "levels_ok (s\<lparr>msZero := x\<rparr>) = levels_ok s"
  "levels_ok (s\<lparr>envSum := x\<rparr>) = levels_ok s" "levels_ok (s\<lparr>firstCall := x\<rparr>) = levels_ok s"
  "levels_ok (s\<lparr>lastInMicLevel := x\<rparr>) = levels_ok s" "levels_ok (s\<lparr>upperLimit := x\<rparr>) = levels_ok s"
  "levels_ok (s\<lparr>lowerLimit := x\<rparr>) = levels_ok s"
  by (simp_all add: levels_ok_def)

lemma static_frame [simp]:
  "agc_static (s\<lparr>msTooLow := x\<rparr>) = agc_static s" "agc_static (s\<lparr>msTooHigh := x\<rparr>) = agc_static s"
  "agc_static (s\<lparr>micVol := x\<rparr>) = agc_static s" "agc_static (s\<lparr>activeSpeech := x\<rparr>) = agc_static s"
  "agc_static (s\<lparr>Rxx16_LPw32Max := x\<rparr>) = agc_static s" "agc_static (s\<lparr>Rxx160_LPw32 := x\<rparr>) = agc_static s"
  "agc_static (s\<lparr>changeToSlowMode := x\<rparr>) = agc_static s" "agc_static (s\<lparr>vadThreshold := x\<rparr>) = agc_static s"
  "agc_static (s\<lparr>muteGuardMs := x\<rparr>) = agc_static s" "agc_static (s\<lparr>msZero := x\<rparr>) = agc_static s"
  "agc_static (s\<lparr>envSum := x\<rparr>) = agc_static s" "agc_static (s\<lparr>firstCall := x\<rparr>) = agc_static s"
  "agc_static (s\<lparr>lastInMicLevel := x\<rparr>) = agc_static s" "agc_static (s\<lparr>upperLimit := x\<rparr>) = agc_static s"
  "agc_static (s\<lparr>lowerLimit := x\<rparr>) = agc_static s"
  by (simp_all add: agc_static_def)

lemma ring_frame [simp]:
  "ring_ok (s\<lparr>msTooLow := x\<rparr>) = ring_ok s" "ring_ok (s\<lparr>msTooHigh := x\<rparr>) = ring_ok s"
  "ring_ok (s\<lparr>micVol := x\<rparr>) = ring_ok s" "ring_ok (s\<lparr>activeSpeech := x\<rparr>) = ring_ok s"
  "ring_ok (s\<lparr>Rxx16_LPw32Max := x\<rparr>) = ring_ok s" "ring_ok (s\<lparr>Rxx160_LPw32 := x\<rparr>) = ring_ok s"
  "ring_ok (s\<lparr>changeToSlowMode := x\<rparr>) = ring_ok s" "ring_ok (s\<lparr>vadThreshold := x\<rparr>) = ring_ok s"
  "ring_ok (s\<lparr>muteGuardMs := x\<rparr>) = ring_ok s" "ring_ok (s\<lparr>msZero := x\<rparr>) = ring_ok s"
  "ring_ok (s\<lparr>envSum := x\<rparr>) = ring_ok s" "ring_ok (s\<lparr>firstCall := x\<rparr>) = ring_ok s"
  "ring_ok (s\<lparr>lastInMicLevel := x\<rparr>) = ring_ok s" "ring_ok (s\<lparr>upperLimit := x\<rparr>) = ring_ok s"
  "ring_ok (s\<lparr>lowerLimit := x\<rparr>) = ring_ok s"
  by (simp_all add: ring_ok_def)

lemma quiet_frame [simp]:
  "quiet k (s\<lparr>micVol := x\<rparr>) = quiet k s" "quiet k (s\<lparr>activeSpeech := x\<rparr>) = quiet k s"
  "quiet k (s\<lparr>Rxx16_LPw32Max := x\<rparr>) = quiet k s" "quiet k (s\<lparr>Rxx160_LPw32 := x\<rparr>) = quiet k s"
  "quiet k (s\<lparr>changeToSlowMode := x\<rparr>) = quiet k s" "quiet k (s\<lparr>vadThreshold := x\<rparr>) = quiet k s"
  "quiet k (s\<lparr>muteGuardMs := x\<rparr>) = quiet k s" "quiet k (s\<lparr>msZero := x\<rparr>) = quiet k s"
  "quiet k (s\<lparr>envSum := x\<rparr>) = quiet k s" "quiet k (s\<lparr>firstCall := x\<rparr>) = quiet k s"
  "quiet k (s\<lparr>lastInMicLevel := x\<rparr>) = quiet k s" "quiet k (s\<lparr>upperLimit := x\<rparr>) = quiet k s"
  "quiet k (s\<lparr>lowerLimit := x\<rparr>) = quiet k s"
  by (simp_all add: quiet_def)

lemma quiet_next: "quiet k stt \<Longrightarrow> quiet (k + 1) stt"
  by (simp add: quiet_def)

lemma in_s16_zero: "in_s16 0"
  by (simp add: in_s16_def)

lemma s16_count:
  assumes "in_s16 x" "x \<le> 32000"
  shows "s16 (x + 2) = x + 2" "in_s16 (x + 2)"
  using assms by (auto simp: in_s16_def s16_idI)

lemma levels_bounds:
  assumes "levels_ok stt"
  shows "minLevel stt \<le> minOutput stt" "minOutput stt \<le> maxAnalog stt" "maxInit stt \<le> 81918" "maxLevel stt \<le> 81918"
  using assms by (auto simp: levels_ok_def)

subsection \<open>A step of the speech level\<close>

lemma speech_measure_frame:
  "agc_static (speech_measure stt) = agc_static stt" "levels_ok (speech_measure stt) = levels_ok stt" "ring_ok (speech_measure stt) = ring_ok stt"
  "quiet k (speech_measure stt) = quiet k stt" "micVol (speech_measure stt) = micVol stt" "maxInit (speech_measure stt) = maxInit stt"
  "maxLevel (speech_measure stt) = maxLevel stt" "minOutput (speech_measure stt) = minOutput stt" "muteGuardMs (speech_measure stt) = muteGuardMs stt"
  by (simp_all add: speech_measure_def Let_def agc_static_def levels_ok_def ring_ok_def quiet_def)

text \<open>As long as it is quiet the level stays.\<close>

definition keeps_level :: "int \<Rightarrow> LegacyAgc \<Rightarrow> int \<Rightarrow> LegacyAgc \<times> int \<Rightarrow> bool" where
  "keeps_level k stt lvl r \<longleftrightarrow> snd r = lvl \<and> (micVol (fst r) = micVol stt \<or> micVol (fst r) = lvl) \<and> quiet (k + 1) (fst r)"

lemma too_high_quiet:
  assumes "quiet k stt" "levels_ok stt" "0 \<le> k" "k \<le> 4"
  shows "keeps_level k stt lvl (too_high_outer stt lvl last_vol)" "keeps_level k stt lvl (too_high_inner stt lvl last_vol)"
  using assms s16_count [of "msTooHigh stt"]
  by (auto simp: too_high_outer_def too_high_inner_def keeps_level_def quiet_def levels_ok_def)

lemma too_low_quiet:
  assumes "quiet k stt" "levels_ok stt" "0 \<le> k" "k \<le> 4" "340 \<le> change"
  shows "keeps_level k stt lvl (too_low change offset slope inc stt lvl last_vol)"
  using assms s16_count [of "msTooLow stt"]
  by (auto simp: too_low_def keeps_level_def quiet_def levels_ok_def)

lemma in_range_quiet: "0 \<le> k \<Longrightarrow> keeps_level k stt lvl (in_desired_range stt lvl)"
  by (simp add: in_desired_range_def keeps_level_def quiet_def Let_def)

lemma speech_step_cases:
  assumes "P (too_high_outer (speech_measure stt) lvl last_vol)" "P (too_high_inner (speech_measure stt) lvl last_vol)"
    "P (too_low (msecSpeechOuterChange (speech_measure stt)) kOffset1 kSlope1 2 (speech_measure stt) lvl last_vol)"
    "P (too_low (msecSpeechInnerChange (speech_measure stt)) kOffset2 kSlope2 1 (speech_measure stt) lvl last_vol)"
    "P (in_desired_range (speech_measure stt) lvl)"
  shows "P (speech_step stt lvl last_vol)"
  using assms by (simp add: speech_step_def Let_def)

lemma speech_step_quiet:
  assumes "quiet k stt" "levels_ok stt" "0 \<le> k" "k \<le> 4"
  shows "keeps_level k stt lvl (speech_step stt lvl last_vol)"
proof -
  have m: "quiet k (speech_measure stt)" "levels_ok (speech_measure stt)" using assms by (simp_all add: speech_measure_frame)
  then have c: "340 \<le> msecSpeechOuterChange (speech_measure stt)" "340 \<le> msecSpeechInnerChange (speech_measure stt)"
    by (simp_all add: levels_ok_def)
  have "keeps_level k (speech_measure stt) lvl (speech_step stt lvl last_vol)"
    by (rule speech_step_cases; intro too_high_quiet too_low_quiet in_range_quiet m c assms)
  then show ?thesis by (simp add: keeps_level_def speech_measure_frame)
qed

text \<open>A change of the level makes it quiet; before, the level is in range.\<close>

definition in_flight :: "int \<Rightarrow> LegacyAgc \<Rightarrow> int \<Rightarrow> bool" where
  "in_flight k stt lvl \<longleftrightarrow> levels_ok stt \<and> (volume_ok stt lvl \<and> volume_ok stt (micVol stt) \<or> quiet k stt)"

definition step_ok :: "int \<Rightarrow> LegacyAgc \<Rightarrow> LegacyAgc \<times> int \<Rightarrow> bool" where
  "step_ok k stt r \<longleftrightarrow> agc_static (fst r) = agc_static stt \<and> in_flight (k + 1) (fst r) (snd r) \<and> ring_ok (fst r) = ring_ok stt
     \<and> muteGuardMs (fst r) = muteGuardMs stt"

lemma lower_max_ok:
  assumes "levels_ok stt" "volume_ok stt (micVol stt)"
  shows "levels_ok (lower_max stt)" "agc_static (lower_max stt) = agc_static stt"
proof -
  have b: "0 \<le> maxLevel stt" "maxLevel stt \<le> 81918" "-10 \<le> micVol stt" "micVol stt \<le> 81918"
    using assms levels_bounds [OF assms(1)] by (auto simp: levels_ok_def volume_ok_def)
  define v where "v = cdiv (15 * maxLevel stt + micVol stt) 16"
  have "v \<le> maxInit stt" "-10 \<le> v"
    using cdiv_bounds [of 16 10 "15 * maxLevel stt + micVol stt" "maxInit stt"] assms b by (auto simp: v_def levels_ok_def volume_ok_def)
  moreover have "s32 (cdiv (add32 (mul32 15 (maxLevel stt)) (micVol stt)) 16) = v"
    using b calculation levels_bounds [OF assms(1)] by (simp add: add32_def mul32_def s32_idI flip: v_def)
  ultimately show "levels_ok (lower_max stt)" using assms by (auto simp: lower_max_def levels_ok_def volume_ok_def Let_def)
  show "agc_static (lower_max stt) = agc_static stt" by (simp add: lower_max_def agc_static_def Let_def)
qed

lemma lower_max_frame [simp]:
  "msTooLow (lower_max stt) = msTooLow stt" "msTooHigh (lower_max stt) = msTooHigh stt" "muteGuardMs (lower_max stt) = muteGuardMs stt"
  "ring_ok (lower_max stt) = ring_ok stt"
  by (simp_all add: lower_max_def ring_ok_def Let_def)

text \<open>What a change of the recording level leaves behind.\<close>

lemma changed_ok:
  assumes "levels_ok s" "agc_static s = agc_static stt" "ring_ok s = ring_ok stt" "muteGuardMs s = muteGuardMs stt"
    "msTooLow s = 0" "msTooHigh s = 0" "0 \<le> k"
  shows "step_ok k stt (s\<lparr>micVol := v\<rparr>, v)" "step_ok k stt (s\<lparr>micVol := v, activeSpeech := a, Rxx16_LPw32Max := m\<rparr>, v)"
  using assms by (simp_all add: step_ok_def in_flight_def quiet_def)

text \<open>What the counting leaves behind when no change falls due.\<close>

lemma counted_ok:
  assumes "in_flight k stt lvl" "0 \<le> k" "in_s16 lo" "in_s16 hi"
    "quiet k stt \<Longrightarrow> lo \<le> 332 + 2 * k" "quiet k stt \<Longrightarrow> hi \<le> 332 + 2 * k"
  shows "step_ok k stt (stt\<lparr>msTooHigh := hi, msTooLow := lo, changeToSlowMode := c\<rparr>, lvl)"
    "step_ok k stt (stt\<lparr>msTooHigh := hi, changeToSlowMode := c, msTooLow := lo\<rparr>, lvl)"
  using assms by (auto simp: step_ok_def in_flight_def levels_ok_def agc_static_def ring_ok_def quiet_def volume_ok_def)

lemma due_volume:
  assumes "in_flight k stt lvl" "k \<le> 4" "s16 (msTooHigh stt + 2) > c \<or> s16 (msTooLow stt + 2) > c" "340 \<le> c"
  shows "volume_ok stt lvl" "volume_ok stt (micVol stt)"
proof -
  have "\<not> quiet k stt"
    using assms s16_count [of "msTooHigh stt"] s16_count [of "msTooLow stt"] by (auto simp: quiet_def in_flight_def levels_ok_def)
  then show "volume_ok stt lvl" "volume_ok stt (micVol stt)" using assms(1) by (auto simp: in_flight_def)
qed

lemma s16_next:
  assumes "levels_ok stt"
  shows "quiet k stt \<Longrightarrow> k \<le> 4 \<Longrightarrow> s16 (msTooHigh stt + 2) \<le> 332 + 2 * k" "quiet k stt \<Longrightarrow> k \<le> 4 \<Longrightarrow> s16 (msTooLow stt + 2) \<le> 332 + 2 * k"
  using assms s16_count [of "msTooHigh stt"] s16_count [of "msTooLow stt"] by (auto simp: quiet_def levels_ok_def)

lemma too_high_ok:
  assumes f: "in_flight k stt lvl" and k: "0 \<le> k" "k \<le> 4"
  shows "step_ok k stt (too_high_outer stt lvl last_vol)" "step_ok k stt (too_high_inner stt lvl last_vol)"
proof -
  have l: "levels_ok stt" using f by (simp add: in_flight_def)
  then have c: "340 \<le> msecSpeechOuterChange stt" "340 \<le> msecSpeechInnerChange stt" by (simp_all add: levels_ok_def)
  have due: "levels_ok (lower_max (stt\<lparr>msTooLow := 0, changeToSlowMode := 0, msTooHigh := 0, Rxx160_LPw32 := r\<rparr>))"
      "agc_static (lower_max (stt\<lparr>msTooLow := 0, changeToSlowMode := 0, msTooHigh := 0, Rxx160_LPw32 := r\<rparr>)) = agc_static stt"
    if "volume_ok stt (micVol stt)" for r
    using lower_max_ok [of "stt\<lparr>msTooLow := 0, changeToSlowMode := 0, msTooHigh := 0, Rxx160_LPw32 := r\<rparr>"] l that
    by (simp_all add: levels_ok_def agc_static_def volume_ok_def in_s16_def)
  have counted: "step_ok k stt (stt\<lparr>msTooHigh := s16 (msTooHigh stt + 2), msTooLow := 0, changeToSlowMode := 0\<rparr>, lvl)"
    using s16_next(1) [OF l] k by (intro counted_ok(1) [OF f k(1)]) (auto simp: in_s16_zero)
  show "step_ok k stt (too_high_outer stt lvl last_vol)"
    using counted k due due_volume(2) [OF f k(2) _ c(1)]
    by (auto simp: too_high_outer_def Let_def intro!: changed_ok)
  show "step_ok k stt (too_high_inner stt lvl last_vol)"
    using counted k due due_volume(2) [OF f k(2) _ c(2)]
    by (auto simp: too_high_inner_def Let_def intro!: changed_ok)
qed

lemma too_low_ok:
  assumes f: "in_flight k stt lvl" and k: "0 \<le> k" "k \<le> 4" and c: "340 \<le> change"
  shows "step_ok k stt (too_low change offset slope inc stt lvl last_vol)"
proof -
  have l: "levels_ok stt" using f by (simp add: in_flight_def)
  have due: "levels_ok (stt\<lparr>msTooHigh := 0, changeToSlowMode := 0, msTooLow := 0, Rxx160_LPw32 := r\<rparr>)" for r
    using l by (simp add: levels_ok_def in_s16_def)
  have counted: "step_ok k stt (stt\<lparr>msTooHigh := 0, changeToSlowMode := 0, msTooLow := s16 (msTooLow stt + 2)\<rparr>, lvl)"
    using s16_next(2) [OF l] k by (intro counted_ok(2) [OF f k(1)]) (auto simp: in_s16_zero)
  show ?thesis using counted due k
    by (auto simp: too_low_def Let_def intro!: changed_ok)
qed

lemma in_range_ok:
  assumes "in_flight k stt lvl" "0 \<le> k"
  shows "step_ok k stt (in_desired_range stt lvl)"
  using assms by (auto simp: in_desired_range_def step_ok_def in_flight_def levels_ok_def agc_static_def ring_ok_def quiet_def volume_ok_def in_s16_def Let_def)

lemma speech_step_ok:
  assumes "in_flight k stt lvl" "0 \<le> k" "k \<le> 4"
  shows "step_ok k stt (speech_step stt lvl last_vol)"
proof -
  have m: "in_flight k (speech_measure stt) lvl" using assms(1) by (simp add: in_flight_def volume_ok_def speech_measure_frame)
  then have c: "340 \<le> msecSpeechOuterChange (speech_measure stt)" "340 \<le> msecSpeechInnerChange (speech_measure stt)"
    by (simp_all add: in_flight_def levels_ok_def)
  have "step_ok k (speech_measure stt) (speech_step stt lvl last_vol)"
    by (rule speech_step_cases; intro too_high_ok too_low_ok in_range_ok m c assms)
  then show ?thesis by (simp add: step_ok_def speech_measure_frame)
qed

text \<open>The five blocks of a frame.\<close>

lemma measure_step_ok:
  assumes "ring_ok stt"
  shows "\<exists>s. measure_step stt e = Some s \<and> ring_ok s \<and> agc_static s = agc_static stt \<and> levels_ok s = levels_ok stt
    \<and> micVol s = micVol stt \<and> maxInit s = maxInit stt \<and> (\<forall>k. quiet k s = quiet k stt) \<and> muteGuardMs s = muteGuardMs stt"
  using assms by (auto simp: measure_step_def ring_ok_def kRxxBufferLen_def agc_static_def levels_ok_def quiet_def Let_def s16_idI)

lemma analog_loop_ok:
  assumes "in_flight k stt lvl" "ring_ok stt" "0 \<le> k" "k + int (length rs) \<le> 5"
  shows "\<exists>s v. analog_loop rs ratio last_vol stt lvl = Some (s, v) \<and> levels_ok s \<and> ring_ok s \<and> agc_static s = agc_static stt
    \<and> muteGuardMs s = muteGuardMs stt \<and> (quiet k stt \<longrightarrow> micVol stt = lvl \<longrightarrow> micVol s = lvl)"
  using assms
proof (induction rs arbitrary: k stt lvl)
  case Nil
  then show ?case by (simp add: in_flight_def)
next
  case (Cons e rs)
  obtain s where s: "measure_step stt e = Some s" "ring_ok s" "agc_static s = agc_static stt" "levels_ok s = levels_ok stt"
      "micVol s = micVol stt" "maxInit s = maxInit stt" "\<And>k. quiet k s = quiet k stt" "muteGuardMs s = muteGuardMs stt"
    using measure_step_ok [OF Cons.prems(2)] by blast
  have f: "in_flight k s lvl" using Cons.prems(1) s by (simp add: in_flight_def volume_ok_def)
  obtain s1 v1 where r: "(if ratio > vadThreshold s then speech_step s lvl last_vol else (s, lvl)) = (s1, v1)" by fastforce
  have "step_ok k s (s, lvl)" using f Cons.prems(3) by (auto simp: step_ok_def in_flight_def quiet_def)
  moreover have k4: "k \<le> 4" using Cons.prems(4) by simp
  ultimately have o: "step_ok k s (s1, v1)" using r speech_step_ok [OF f Cons.prems(3) k4, of last_vol] by (auto split: if_splits)
  then have s1: "in_flight (k + 1) s1 v1" "ring_ok s1" "agc_static s1 = agc_static stt" "muteGuardMs s1 = muteGuardMs stt"
    using s by (auto simp: step_ok_def)
  have "keeps_level k s lvl (s1, v1)" if "quiet k stt"
  proof -
    have "keeps_level k s lvl (s, lvl)" using that s(7) by (simp add: keeps_level_def quiet_next)
    moreover have "keeps_level k s lvl (speech_step s lvl last_vol)"
      using that s(7) f Cons.prems(3) k4 by (intro speech_step_quiet) (auto simp: in_flight_def)
    ultimately show ?thesis using r by (auto split: if_splits)
  qed
  then have q: "v1 = lvl \<and> quiet (k + 1) s1 \<and> micVol s1 = lvl" if "quiet k stt" "micVol stt = lvl"
    using that s(5) by (auto simp: keeps_level_def)
  obtain s2 v2 where s2: "analog_loop rs ratio last_vol s1 v1 = Some (s2, v2)" "levels_ok s2" "ring_ok s2" "agc_static s2 = agc_static s1"
      "muteGuardMs s2 = muteGuardMs s1" "quiet (k + 1) s1 \<longrightarrow> micVol s1 = v1 \<longrightarrow> micVol s2 = v1"
    using Cons.IH [OF s1(1,2)] Cons.prems(3,4) by auto
  have "analog_loop (e # rs) ratio last_vol stt lvl = Some (s2, v2)" using s(1) r s2(1) by simp
  then show ?case using s2 s1 q by auto
qed

subsection \<open>A frame of the level control\<close>

lemma low_start_ok:
  assumes "levels_ok stt"
  shows "minLevel stt \<le> low_start stt" "low_start stt \<le> maxLevel stt"
proof -
  define d where "d = maxLevel stt - minLevel stt"
  have d: "0 \<le> d" "d \<le> 81918" "maxLevel stt = minLevel stt + d" "0 \<le> minLevel stt" "minLevel stt + d \<le> 81918"
    using assms levels_bounds [OF assms] by (auto simp: d_def levels_ok_def)
  then have "low_start stt = minLevel stt + d * 51 div 512"
    by (simp add: low_start_def sub32_def mul32_def add32_def shr_def s32_idI)
  then show "minLevel stt \<le> low_start stt" "low_start stt \<le> maxLevel stt" using d by auto
qed

lemma low_start_frame [simp]: "low_start (s\<lparr>firstCall := x\<rparr>) = low_start s" "low_start (s\<lparr>micVol := x\<rparr>) = low_start s"
  by (simp_all add: low_start_def)

definition started :: "LegacyAgc \<Rightarrow> LegacyAgc \<times> int \<Rightarrow> bool" where
  "started stt r \<longleftrightarrow> levels_ok (fst r) \<and> ring_ok (fst r) \<and> agc_static (fst r) = agc_static stt \<and> micVol (fst r) = snd r
     \<and> minLevel stt \<le> snd r \<and> snd r \<le> maxLevel stt \<and> maxLevel (fst r) = maxLevel stt
     \<and> msTooLow (fst r) = msTooLow stt \<and> msTooHigh (fst r) = msTooHigh stt \<and> envSum (fst r) = envSum stt"

lemma levels_ranges:
  assumes "levels_ok stt"
  shows "0 \<le> minLevel stt" "minLevel stt < maxAnalog stt" "maxAnalog stt \<le> maxLevel stt" "maxLevel stt \<le> maxInit stt"
    "-10 \<le> zeroCtrlMax stt" "zeroCtrlMax stt \<le> maxInit stt" "agc_scale stt = 0"
  using assms by (simp_all add: levels_ok_def)

lemma static_fields:
  assumes "agc_static s = agc_static t"
  shows "minLevel s = minLevel t" "maxAnalog s = maxAnalog t" "maxInit s = maxInit t" "minOutput s = minOutput t" "agc_scale s = agc_scale t"
    "agc_env s = agc_env t" "Rxx16w32_array s = Rxx16w32_array t" "vadMic s = vadMic t" "agc_mode s = agc_mode t" "inQueue s = inQueue t"
  using assms by (simp_all add: agc_static_def)

text \<open>The steps before the measures keep the level and the stored one in the range.\<close>

definition starting :: "LegacyAgc \<Rightarrow> LegacyAgc \<times> int \<Rightarrow> bool" where
  "starting stt r \<longleftrightarrow> levels_ok (fst r) \<and> ring_ok (fst r) \<and> agc_static (fst r) = agc_static stt
     \<and> minLevel stt \<le> snd r \<and> snd r \<le> maxLevel stt \<and> minLevel stt \<le> micVol (fst r) \<and> micVol (fst r) \<le> maxLevel stt
     \<and> maxLevel (fst r) = maxLevel stt \<and> msTooLow (fst r) = msTooLow stt \<and> msTooHigh (fst r) = msTooHigh stt \<and> envSum (fst r) = envSum stt"

lemma start_first_ok:
  assumes "agc_ok stt" "minLevel stt \<le> lvl" "lvl \<le> maxAnalog stt"
  shows "starting stt (start_first stt lvl)"
proof -
  have l: "levels_ok stt" "ring_ok stt" "minOutput stt \<le> micVol stt" "micVol stt \<le> maxLevel stt" using assms(1) by (simp_all add: agc_ok_def)
  show ?thesis using l assms(2,3) levels_bounds [OF l(1)] levels_ranges [OF l(1)] low_start_ok [OF l(1)]
    by (simp add: start_first_def starting_def Let_def)
qed

lemma start_manual_ok:
  assumes "starting stt (s, v)"
  shows "starting stt (start_manual s v)"
proof -
  have l: "levels_ok s" "agc_static s = agc_static stt" "maxLevel s = maxLevel stt" using assms by (simp_all add: starting_def)
  show ?thesis using assms low_start_ok [OF l(1)] static_fields [OF l(2)] l(3) by (simp add: start_manual_def starting_def)
qed

lemma start_sync_ok:
  assumes "starting stt (s, v)"
  shows "started stt (start_sync s inl v)"
  using assms by (simp add: start_sync_def starting_def started_def)

lemma start_level_ok:
  assumes "agc_ok stt" "minLevel stt \<le> lvl" "lvl \<le> maxAnalog stt"
  shows "started stt (start_level stt inl lvl)"
proof -
  obtain s v where s: "start_first stt lvl = (s, v)" "starting stt (s, v)" using start_first_ok [OF assms] by (metis prod.collapse)
  define v1 where "v1 = (if v = maxAnalog s \<and> micVol s > maxAnalog s then micVol s else v)"
  have "starting stt (s, v1)" using s(2) by (simp add: v1_def starting_def)
  then obtain s2 v2 where s2: "start_manual s v1 = (s2, v2)" "starting stt (s2, v2)" using start_manual_ok by (metis prod.collapse)
  then obtain s3 v3 where s3: "start_sync s2 inl v2 = (s3, v3)" "started stt (s3, v3)" using start_sync_ok by (metis prod.collapse)
  have "start_level stt inl lvl = (s3\<lparr>lastInMicLevel := inl\<rparr>, v3)"
    unfolding start_level_def Let_def s(1) split_conv v1_def [symmetric] s2(1) s3(1) using s3(2) by (simp add: started_def)
  then show ?thesis using s3(2) by (simp add: started_def)
qed

lemma lowered_level_ok:
  assumes "levels_ok stt" "minLevel stt \<le> v" "v \<le> maxLevel stt" "0 \<le> c" "c \<le> 32768" "0 \<le> dec" "dec \<le> 2"
  shows "minLevel stt - 2 \<le> lowered_level stt c v v dec" "lowered_level stt c v v dec \<le> v - dec"
proof -
  define d where "d = v - minLevel stt"
  have d: "0 \<le> d" "d \<le> 81918" "v = minLevel stt + d" "0 \<le> minLevel stt" "minLevel stt + d \<le> 81918"
    using assms levels_bounds [OF assms(1)] by (auto simp: d_def levels_ok_def)
  have "0 \<le> c * d" "c * d \<le> 32768 * 81918" using d(1,2) assms(4,5) by (simp, intro mult_mono) auto
  moreover have "0 \<le> c * d div 32768" using calculation by (simp add: pos_imp_zdiv_nonneg_iff)
  moreover have "c * d div 32768 \<le> d" using mult_right_mono [of c 32768 d] assms d zdiv_mono1 [of "c * d" "32768 * d" 32768] by simp
  ultimately show "minLevel stt - 2 \<le> lowered_level stt c v v dec" "lowered_level stt c v v dec \<le> v - dec"
    using d assms by (auto simp: lowered_level_def Let_def sub32_def u32_idI shr_def s32_idI)
qed

lemma saturation_step_ok:
  assumes "started stt (s, v)" "levels_ok stt"
  shows "\<exists>s' v' w. saturation_step s v v = (s', v', w) \<and> levels_ok s' \<and> ring_ok s' \<and> agc_static s' = agc_static stt \<and> micVol s' = v'
    \<and> -2 \<le> v' \<and> v' \<le> v - 2 \<and> msTooHigh s' = -100 \<and> msTooLow s' = msTooLow stt \<and> (w \<longleftrightarrow> v' < minOutput stt)"
proof -
  have st: "levels_ok s" "ring_ok s" "agc_static s = agc_static stt" "micVol s = v" "minLevel stt \<le> v" "v \<le> maxLevel s" "msTooLow s = msTooLow stt"
    using assms(1) by (auto simp: started_def)
  note f = static_fields [OF st(3)]
  let ?s = "s\<lparr>Rxx160_LPw32 := mul32 (cdiv (Rxx160_LPw32 s) 8) 7, zeroCtrlMax := micVol s\<rparr>"
  have v: "0 \<le> v" "v \<le> maxInit stt" "0 \<le> minLevel stt" using st f by (auto simp: levels_ok_def)
  then have "levels_ok ?s" using st(1,4) f by (simp add: levels_ok_def)
  moreover define v' where "v' = lowered_level ?s 29591 v v 2"
  ultimately have v': "minLevel stt - 2 \<le> v'" "v' \<le> v - 2" using lowered_level_ok [of ?s v 29591 2] st f by auto
  define s' where "s' = ?s\<lparr>micVol := v', msTooHigh := -100, activeSpeech := 0, Rxx16_LPw32Max := 0, msecSpeechInnerChange := kMsecSpeechInner,
            msecSpeechOuterChange := kMsecSpeechOuter, changeToSlowMode := 0, muteGuardMs := 0, upperLimit := startUpperLimit s, lowerLimit := startLowerLimit s\<rparr>"
  have "saturation_step s v v = (s', v', v' < minOutput stt)"
    using f by (simp add: saturation_step_def s'_def v'_def Let_def)
  moreover have "levels_ok s'" using st(1,4) v f by (simp add: s'_def levels_ok_def kMsecSpeechInner_def kMsecSpeechOuter_def in_s16_def)
  moreover have "ring_ok s'" "agc_static s' = agc_static stt" "msTooLow s' = msTooLow stt" "msTooHigh s' = -100" "micVol s' = v'"
    using st by (simp_all add: s'_def ring_ok_def agc_static_def)
  ultimately show ?thesis using v v' by auto
qed

lemma zeroCtrl_level:
  assumes "levels_ok s" "-2 \<le> v" "v \<le> maxInit s"
  shows "-10 \<le> min (shr (mul32 1126 v) 10) (zeroCtrlMax s)" "min (shr (mul32 1126 v) 10) (zeroCtrlMax s) \<le> maxInit s"
proof -
  have "-3 \<le> shr (mul32 1126 v) 10" using assms levels_bounds [OF assms(1)] by (simp add: mul32_def shr_def s32_idI)
  then show "-10 \<le> min (shr (mul32 1126 v) 10) (zeroCtrlMax s)" "min (shr (mul32 1126 v) 10) (zeroCtrlMax s) \<le> maxInit s"
    using levels_ranges [OF assms(1)] by (auto simp: min_def)
qed

lemma ZeroCtrl_ok:
  assumes "levels_ok s" "ring_ok s" "micVol s = v" "-2 \<le> v" "v \<le> maxInit s"
  shows "\<exists>s' v'. WebRtcAgc_ZeroCtrl s v env = (s', v') \<and> levels_ok s' \<and> ring_ok s' \<and> agc_static s' = agc_static s \<and> micVol s' = v'
    \<and> volume_ok s v' \<and> (500 \<le> s64 (sum_list (take 10 env)) \<longrightarrow> v' = v) \<and> msTooLow s' = msTooLow s \<and> msTooHigh s' = msTooHigh s"
  using assms zeroCtrl_level [OF assms(1,4,5)] by (simp add: WebRtcAgc_ZeroCtrl_def Let_def volume_ok_def split_def)

lemma SaturationCtrl_frame: "\<exists>x b. WebRtcAgc_SaturationCtrl s env = (s\<lparr>envSum := x\<rparr>, b)"
  unfolding WebRtcAgc_SaturationCtrl_def Let_def by (intro exI, rule refl)

lemma SpeakerInactiveCtrl_frame: "\<exists>x. WebRtcAgc_SpeakerInactiveCtrl s = s\<lparr>vadThreshold := x\<rparr>"
  unfolding WebRtcAgc_SpeakerInactiveCtrl_def Let_def
  by (cases "stdLongTerm (vadMic s) < 2500"; simp only: if_True if_False; intro exI, rule refl)

lemma final_level_ok:
  fixes last_vol echo
  assumes "levels_ok s"
  defines "s' \<equiv> final_level s last_vol echo"
  shows "levels_ok s'" "agc_static s' = agc_static s" "ring_ok s' = ring_ok s" "maxLevel s' = maxLevel s"
    "minOutput s \<le> micVol s'" "micVol s' \<le> maxLevel s" "echo = 1 \<Longrightarrow> micVol s' \<le> max (minOutput s) last_vol"
    "micVol s' \<le> max (minOutput s) (micVol s)"
  using assms(1) levels_bounds(2) [OF assms(1)] levels_ranges(3) [OF assms(1)] by (simp_all add: s'_def final_level_def Let_def)

text \<open>A frame with a level in the range succeeds; its saturation is judged on the envelope of the frame.\<close>

definition frame_saturated :: "LegacyAgc \<Rightarrow> bool" where
  "frame_saturated stt \<longleftrightarrow> snd (WebRtcAgc_SaturationCtrl stt (agc_env stt ! 0))"

lemma saturation_phase:
  assumes "started stt (s, v)" "levels_ok stt"
  shows "\<exists>s' v' w. (case WebRtcAgc_SaturationCtrl s (agc_env s ! 0) of (t, b) \<Rightarrow> if b then saturation_step t v v else (t, v, False)) = (s', v', w)
    \<and> levels_ok s' \<and> ring_ok s' \<and> agc_static s' = agc_static stt \<and> micVol s' = v' \<and> -2 \<le> v' \<and> v' \<le> v \<and> msTooLow s' = msTooLow stt
    \<and> (frame_saturated stt \<longrightarrow> v' \<le> v - 2 \<and> msTooHigh s' = -100)"
proof -
  have st: "agc_static s = agc_static stt" "envSum s = envSum stt" "levels_ok s" "ring_ok s" "micVol s = v" "minLevel stt \<le> v"
    "msTooLow s = msTooLow stt" using assms(1) by (auto simp: started_def)
  have b: "snd (WebRtcAgc_SaturationCtrl s (agc_env s ! 0)) = frame_saturated stt"
    using st(2) static_fields(6) [OF st(1)] by (simp add: frame_saturated_def WebRtcAgc_SaturationCtrl_def Let_def)
  obtain x where x: "WebRtcAgc_SaturationCtrl s (agc_env s ! 0) = (s\<lparr>envSum := x\<rparr>, frame_saturated stt)"
    using SaturationCtrl_frame [of s "agc_env s ! 0"] b by auto
  show ?thesis
  proof (cases "frame_saturated stt")
    case True
    have "started (stt\<lparr>envSum := x\<rparr>) (s\<lparr>envSum := x\<rparr>, v)" using assms(1) by (simp add: started_def)
    from saturation_step_ok [OF this] obtain s' v' w where "saturation_step (s\<lparr>envSum := x\<rparr>) v v = (s', v', w)" "levels_ok s'" "ring_ok s'"
      "agc_static s' = agc_static stt" "micVol s' = v'" "-2 \<le> v'" "v' \<le> v - 2" "msTooHigh s' = -100" "msTooLow s' = msTooLow stt"
      using assms(2) by auto
    then show ?thesis using x True by simp
  next
    case False
    have "-2 \<le> v" using st(6) levels_ranges(1) [OF assms(2)] by simp
    then show ?thesis using x False st by (simp, blast)
  qed
qed

definition analog_result :: "LegacyAgc \<Rightarrow> int \<Rightarrow> int \<Rightarrow> LegacyAgc \<Rightarrow> int \<Rightarrow> bool" where
  "analog_result stt inl echo s out \<longleftrightarrow> agc_ok s \<and> agc_static s = agc_static stt \<and> out = min (micVol s) (maxAnalog stt)
     \<and> minOutput stt \<le> out
     \<and> (echo = 1 \<longrightarrow> micVol s \<le> max (minOutput stt) (snd (start_level stt inl inl)))
     \<and> (frame_saturated stt \<and> msTooLow stt \<le> 330 \<and> 500 \<le> s64 (sum_list (take 10 (agc_env stt ! 0)))
          \<longrightarrow> micVol s \<le> max (minOutput stt) (snd (start_level stt inl inl) - 2))"

lemma ProcessAnalog_ok:
  assumes ok: "agc_ok stt" and lvl: "in_s32 inl" "minLevel stt \<le> inl" "inl \<le> maxAnalog stt"
  shows "\<exists>s out w. WebRtcAgc_ProcessAnalog stt inl out0 ratio echo w0 = Some (0, s, out, w) \<and> analog_result stt inl echo s out"
proof -
  have l: "levels_ok stt" "buffers_ok stt" using ok by (simp_all add: agc_ok_def)
  have sc: "shl32 inl (nat (agc_scale stt)) = inl" using lvl(1) levels_ranges(7) [OF l(1)] by (simp add: shl32_def s32_id)
  obtain s1 v1 where s1: "start_level stt inl inl = (s1, v1)" "started stt (s1, v1)" using start_level_ok [OF ok lvl(2,3)] by (metis prod.collapse)
  have m1: "micVol s1 = v1" using s1(2) by (simp add: started_def)
  obtain s3 v3 w where s3: "(case WebRtcAgc_SaturationCtrl s1 (agc_env s1 ! 0) of (t, b) \<Rightarrow> if b then saturation_step t v1 v1 else (t, v1, False)) = (s3, v3, w)"
      "levels_ok s3" "ring_ok s3" "agc_static s3 = agc_static stt" "micVol s3 = v3" "-2 \<le> v3" "v3 \<le> v1" "msTooLow s3 = msTooLow stt"
      "frame_saturated stt \<longrightarrow> v3 \<le> v1 - 2 \<and> msTooHigh s3 = -100"
    using saturation_phase [OF s1(2) l(1)] by blast
  note f3 = static_fields [OF s3(4)]
  have "v3 \<le> maxInit s3" using s1(2) s3(7) f3 levels_ranges(4) [OF l(1)] by (simp add: started_def)
  then obtain s4 v4 where s4: "WebRtcAgc_ZeroCtrl s3 v3 (agc_env s3 ! 0) = (s4, v4)" "levels_ok s4" "ring_ok s4" "agc_static s4 = agc_static stt" "micVol s4 = v4"
      "volume_ok s3 v4" "500 \<le> s64 (sum_list (take 10 (agc_env stt ! 0))) \<longrightarrow> v4 = v3" "msTooLow s4 = msTooLow stt" "msTooHigh s4 = msTooHigh s3"
    using ZeroCtrl_ok [OF s3(2,3,5,6)] s3(4,8) f3(6) by (metis (no_types, lifting))
  obtain x where x: "WebRtcAgc_SpeakerInactiveCtrl s4 = s4\<lparr>vadThreshold := x\<rparr>" using SpeakerInactiveCtrl_frame by blast
  have "volume_ok s4 v4" using s4(4,6) f3(3) static_fields(3) [OF s4(4)] by (simp add: volume_ok_def)
  then have "in_flight 0 (s4\<lparr>vadThreshold := x\<rparr>) v4" using s4(2,5) by (simp add: in_flight_def volume_ok_def)
  then obtain s5 v5 where s5: "analog_loop (take 5 (Rxx16w32_array s4 ! 0)) ratio v1 (s4\<lparr>vadThreshold := x\<rparr>) v4 = Some (s5, v5)"
      "levels_ok s5" "ring_ok s5" "agc_static s5 = agc_static stt" "quiet 0 s4 \<longrightarrow> micVol s5 = v4"
    using analog_loop_ok [of 0 "s4\<lparr>vadThreshold := x\<rparr>" v4 "take 5 (Rxx16w32_array s4 ! 0)" ratio v1] s4(3,4,5) by auto
  note f5 = static_fields [OF s5(4)]
  define s6 where "s6 = final_level s5 v1 echo"
  note s6 = final_level_ok [OF s5(2), where last_vol = v1 and echo = echo, folded s6_def]
  define out where "out = min (micVol s6) (maxAnalog s6)"
  have fields: "maxAnalog s6 = maxAnalog stt" "agc_scale s6 = 0" "minOutput s6 = minOutput stt"
    using s6(2) s5(4) static_fields(2,4,5) [of s6 stt] levels_ranges(7) [OF l(1)] by auto
  have P: "WebRtcAgc_ProcessAnalog stt inl out0 ratio echo w0 = Some (0, s6, out, if w then 1 else w0)"
    unfolding WebRtcAgc_ProcessAnalog_def Let_def sc s1(1) split_conv m1
    using s3(1) s4(1) x s5(1) lvl(2,3) fields by (auto simp: split_def s6_def [symmetric] out_def shr_def split: if_splits)
  have "agc_ok s6" using s6 s5(3,4) l(2) static_buffers [of s6 stt] fields f5 by (simp add: agc_ok_def)
  moreover have "minOutput stt \<le> out" using s6(5) f5(4) levels_bounds(2) [OF l(1)] fields by (simp add: out_def)
  moreover have "micVol s6 \<le> max (minOutput stt) (v1 - 2)"
    if "frame_saturated stt" "msTooLow stt \<le> 330" "500 \<le> s64 (sum_list (take 10 (agc_env stt ! 0)))"
  proof -
    have "quiet 0 s4" using that s3(9) s4(8,9) by (simp add: quiet_def)
    then have "micVol s5 \<le> v1 - 2" using that s5(5) s4(7) s3(9) by simp
    then show ?thesis using s6(8) f5(4) by simp
  qed
  ultimately have "analog_result stt inl echo s6 out" using s6(2,7) s5(4) f5(4) fields s1(1) by (simp add: analog_result_def out_def)
  then show ?thesis using P by blast
qed

end
