(* ===== verification/Agc_Interface.thy ===== *)
theory Agc_Interface
  imports Agc_Analog
begin

section \<open>Gain control: the interface\<close>

text \<open>
  Every operation of the gain control keeps the state invariant \<open>agc_ok\<close> and is defined: the microphone and far-end
  signals, the virtual microphone, the configuration, the initialisation and the analysis of a frame. The
  reachable states are an inductive predicate; sessions of calls are an instance of the locale \<open>agc_operation\<close>.
\<close>

unbundle bit_operations_syntax

subsection \<open>The other operations\<close>

lemma levels_frame2 [simp]:
  "levels_ok (s\<lparr>gainTableIdx := x\<rparr>) = levels_ok s" "levels_ok (s\<lparr>agc_env := e\<rparr>) = levels_ok s"
  "levels_ok (s\<lparr>filterState := l\<rparr>) = levels_ok s" "levels_ok (s\<lparr>Rxx16w32_array := e\<rparr>) = levels_ok s"
  "levels_ok (s\<lparr>inQueue := x\<rparr>) = levels_ok s" "levels_ok (s\<lparr>vadMic := v\<rparr>) = levels_ok s"
  "levels_ok (s\<lparr>digitalAgc := d\<rparr>) = levels_ok s" "levels_ok (s\<lparr>micRef := x\<rparr>) = levels_ok s"
  "levels_ok (s\<lparr>micGainIdx := x\<rparr>) = levels_ok s" "levels_ok (s\<lparr>lowLevelSignal := x\<rparr>) = levels_ok s"
  "levels_ok (s\<lparr>lastError := x\<rparr>) = levels_ok s" "levels_ok (s\<lparr>limiterEnable := x\<rparr>) = levels_ok s"
  "levels_ok (s\<lparr>compressionGaindB := x\<rparr>) = levels_ok s" "levels_ok (s\<lparr>targetLevelDbfs := x\<rparr>) = levels_ok s"
  "levels_ok (s\<lparr>usedConfig := c\<rparr>) = levels_ok s"
  by (simp_all add: levels_ok_def)

lemma ring_frame2 [simp]:
  "ring_ok (s\<lparr>gainTableIdx := x\<rparr>) = ring_ok s" "ring_ok (s\<lparr>agc_env := e\<rparr>) = ring_ok s"
  "ring_ok (s\<lparr>filterState := l\<rparr>) = ring_ok s" "ring_ok (s\<lparr>Rxx16w32_array := e\<rparr>) = ring_ok s"
  "ring_ok (s\<lparr>inQueue := x\<rparr>) = ring_ok s" "ring_ok (s\<lparr>vadMic := v\<rparr>) = ring_ok s"
  "ring_ok (s\<lparr>digitalAgc := d\<rparr>) = ring_ok s" "ring_ok (s\<lparr>micRef := x\<rparr>) = ring_ok s"
  "ring_ok (s\<lparr>micGainIdx := x\<rparr>) = ring_ok s" "ring_ok (s\<lparr>lowLevelSignal := x\<rparr>) = ring_ok s"
  "ring_ok (s\<lparr>lastError := x\<rparr>) = ring_ok s" "ring_ok (s\<lparr>limiterEnable := x\<rparr>) = ring_ok s"
  "ring_ok (s\<lparr>compressionGaindB := x\<rparr>) = ring_ok s" "ring_ok (s\<lparr>targetLevelDbfs := x\<rparr>) = ring_ok s"
  "ring_ok (s\<lparr>usedConfig := c\<rparr>) = ring_ok s"
  by (simp_all add: ring_ok_def)

lemma buffers_frame [simp]:
  "buffers_ok (s\<lparr>limiterEnable := x\<rparr>) = buffers_ok s" "buffers_ok (s\<lparr>compressionGaindB := x\<rparr>) = buffers_ok s"
  "buffers_ok (s\<lparr>targetLevelDbfs := x\<rparr>) = buffers_ok s" "buffers_ok (s\<lparr>usedConfig := c\<rparr>) = buffers_ok s"
  "buffers_ok (s\<lparr>lastError := x\<rparr>) = buffers_ok s" "buffers_ok (s\<lparr>micVol := x\<rparr>) = buffers_ok s"
  "buffers_ok (s\<lparr>micRef := x\<rparr>) = buffers_ok s" "buffers_ok (s\<lparr>micGainIdx := x\<rparr>) = buffers_ok s"
  "buffers_ok (s\<lparr>lowLevelSignal := x\<rparr>) = buffers_ok s"
  by (simp_all add: buffers_ok_def)

definition bands_ok :: "nat \<Rightarrow> int list list \<Rightarrow> bool" where
  "bands_ok n bands \<longleftrightarrow> bands \<noteq> [] \<and> (\<forall>b\<in>set bands. length b = n \<and> (\<forall>x\<in>set b. in_s16 x))"

lemma bands_first: "bands_ok n bands \<Longrightarrow> length (bands ! 0) = n \<and> (\<forall>x\<in>set (bands ! 0). in_s16 x)"
  by (cases bands) (auto simp: bands_ok_def)

lemma mic_amplify_s16 [simp]: "in_s16 (mic_amplify g x)"
  by (auto simp: mic_amplify_def Let_def in_s16_def s16_idI)

lemma mic_gain_index_ok:
  assumes "agc_ok stt" "micVol stt > maxAnalog stt"
  shows "\<exists>idx. mic_gain_index stt = Some idx \<and> 0 \<le> idx \<and> idx \<le> 31"
proof -
  have l: "levels_ok stt" "buffers_ok stt" "micVol stt \<le> maxLevel stt" using assms(1) by (simp_all add: agc_ok_def)
  define a b where "a = micVol stt - maxAnalog stt" and "b = maxLevel stt - maxAnalog stt"
  have ab: "0 < a" "a \<le> b" "b \<le> 16383" "micVol stt = maxAnalog stt + a" "maxLevel stt = maxAnalog stt + b" "0 \<le> maxAnalog stt"
    using l assms(2) by (auto simp: a_def b_def levels_ok_def)
  have q: "0 \<le> 31 * a div b" "31 * a div b \<le> 31"
    using ab zdiv_mono1 [of "31 * a" "31 * b" b] by (simp_all add: pos_imp_zdiv_nonneg_iff)
  have g: "0 \<le> gainTableIdx stt" "gainTableIdx stt \<le> 31" using l(2) by (simp_all add: buffers_ok_def)
  have s: "s16 (sub32 (micVol stt) (maxAnalog stt)) = a" "s16 (sub32 (maxLevel stt) (maxAnalog stt)) = b"
    using ab by (simp_all add: sub32_def s32_idI s16_idI)
  have "u16 (cdiv (mul32 31 a) b) = 31 * a div b" using ab q by (simp add: mul32_def s32_idI cdiv_pos u16_def)
  then show ?thesis unfolding mic_gain_index_def s Let_def using ab(1,2) g q by (simp add: GAIN_TBL_LEN_def u16_def)
qed

lemma agc_envelope_length [simp]: "length (agc_envelope L xs) = 10"
  by (simp add: agc_envelope_def)

lemma set_update_length: "\<forall>e\<in>set xs. length e = n \<Longrightarrow> length y = n \<Longrightarrow> \<forall>e\<in>set (xs[i := y]). length e = n"
  using set_update_subset_insert [of xs i y] by blast

text \<open>The signal operations leave the levels and the interface settings alone.\<close>

definition signal_step :: "LegacyAgc \<Rightarrow> LegacyAgc \<Rightarrow> bool" where
  "signal_step stt s \<longleftrightarrow> agc_ok s \<and> fs s = fs stt \<and> agc_mode s = agc_mode stt"

lemma mic_gain_ok:
  assumes "agc_ok stt" "bands_ok n bands"
  shows "\<exists>s b. mic_gain stt bands n = Some (s, b) \<and> signal_step stt s \<and> bands_ok n b"
proof (cases "micVol stt > maxAnalog stt")
  case True
  obtain idx where i: "mic_gain_index stt = Some idx" "0 \<le> idx" "idx \<le> 31" using mic_gain_index_ok [OF assms(1) True] by blast
  then have "mic_gain stt bands n = Some (stt\<lparr>gainTableIdx := idx\<rparr>, map (\<lambda>b. map (mic_amplify (kGainTableAnalog ! nat idx)) (take n b) @ drop n b) bands)"
    using True by (simp add: mic_gain_def GAIN_TBL_LEN_def)
  moreover have "bands_ok n (map (\<lambda>b. map (mic_amplify (kGainTableAnalog ! nat idx)) (take n b) @ drop n b) bands)"
    using assms(2) by (auto simp: bands_ok_def)
  moreover have "signal_step stt (stt\<lparr>gainTableIdx := idx\<rparr>)" using assms(1) i by (simp add: signal_step_def agc_ok_def buffers_ok_def)
  ultimately show ?thesis by blast
next
  case False
  have "signal_step stt (stt\<lparr>gainTableIdx := 0\<rparr>)" using assms(1) by (simp add: signal_step_def agc_ok_def buffers_ok_def)
  then show ?thesis using False assms(2) by (simp add: mic_gain_def)
qed

lemma mic_enqueue_ok:
  assumes "agc_ok stt" "length env = 10" "length es = 5" "length flt = 8"
  shows "signal_step stt (mic_enqueue stt env es flt)"
proof -
  have e: "\<forall>e\<in>set (agc_env stt). length e = 10" "\<forall>e\<in>set (Rxx16w32_array stt). length e = 5"
    using assms(1) by (simp_all add: agc_ok_def buffers_ok_def)
  note u = set_update_length [OF e(1) assms(2)] set_update_length [OF e(2) assms(3)]
  show ?thesis using assms u by (simp add: signal_step_def agc_ok_def buffers_ok_def mic_enqueue_def Let_def)
qed

lemma length_down_by2_loop: "length (fst (down_by2_loop n xs lo up)) = n"
  by (induction n arbitrary: xs lo up) (auto simp: Let_def split_def)

lemma mic_energy_ok:
  assumes "length flt = 8" "i + n \<le> 5" "length xs \<ge> 80"
  shows "\<exists>es flt'. mic_energy n i rate xs flt = Some (es, flt') \<and> length es = n \<and> length flt' = 8"
  using assms(1,2)
proof (induction n arbitrary: i flt)
  case (Suc n)
  obtain sp f where r: "(if rate = 16000 then WebRtcSpl_DownsampleBy2 (drop (i * 32) xs) 32 flt else (take 16 (drop (i * 16) xs), flt)) = (sp, f)"
    by fastforce
  have "length sp = 16" "length f = 8"
    using r Suc.prems assms(3) length_DownsampleBy2 [of flt "drop (i * 32) xs" 32] length_down_by2_loop [of 16 "drop (i * 32) xs" "get4 0 flt" "get4 4 flt"]
    by (auto simp: WebRtcSpl_DownsampleBy2_def split_def Let_def split: if_splits)
  then obtain e es f2 where "WebRtcSpl_DotProductWithScale sp sp 16 4 = Some e" "mic_energy n (i + 1) rate xs f = Some (es, f2)" "length es = n" "length f2 = 8"
    using Suc.IH [of f "i + 1"] Suc.prems by (auto simp: WebRtcSpl_DotProductWithScale_def)
  then show ?case using r by simp
qed simp

lemma AddMic_ok:
  assumes ok: "agc_ok stt" and b: "bands_ok n bands"
  shows "\<exists>r s bs. WebRtcAgc_AddMic stt bands n = Some (r, s, bs) \<and> signal_step stt s \<and> bands_ok n bs"
proof (cases "fs stt = 8000 \<and> n \<noteq> 80 \<or> fs stt \<noteq> 8000 \<and> n \<noteq> 160")
  case True
  then show ?thesis using assms by (simp add: WebRtcAgc_AddMic_def signal_step_def)
next
  case False
  have n: "n = 80 \<or> n = 160" using False by auto
  have long: "\<not> (bands = [] \<or> (\<exists>b\<in>set bands. length b < n))" using b by (auto simp: bands_ok_def)
  obtain s1 bs where g: "mic_gain stt bands n = Some (s1, bs)" "signal_step stt s1" "bands_ok n bs" using mic_gain_ok [OF assms] by blast
  have len: "length (bs ! 0) = n" using bands_first [OF g(3)] by simp
  have s1: "agc_ok s1" "length (filterState s1) = 8" using g(2) by (simp_all add: signal_step_def agc_ok_def buffers_ok_def)
  obtain es flt where e: "mic_energy 5 0 (fs s1) (bs ! 0) (filterState s1) = Some (es, flt)" "length es = 5" "length flt = 8"
    using mic_energy_ok [of "filterState s1" 0 5 "bs ! 0" "fs s1"] s1(2) len n by auto
  define s2 where "s2 = mic_enqueue s1 (agc_envelope (if fs stt = 8000 then 8 else 16) (bs ! 0)) es flt"
  have s2: "signal_step s1 s2" unfolding s2_def using s1(1) e(2,3) by (intro mic_enqueue_ok) simp_all
  then have "vad_ok (vadMic s2)" by (simp add: signal_step_def agc_ok_def buffers_ok_def)
  then obtain v where v: "WebRtcAgc_ProcessVad (vadMic s2) (bs ! 0) n = Some (logRatio v, v)" "vad_ok v" using ProcessVad_ok [OF _ len n] by blast
  have "WebRtcAgc_AddMic stt bands n = Some (0, s2\<lparr>vadMic := v\<rparr>, bs)"
    unfolding WebRtcAgc_AddMic_def if_not_P [OF False] if_not_P [OF long] Let_def g(1) option.case prod.case e(1) s2_def [symmetric]
    using v(1) by simp
  moreover have "signal_step stt (s2\<lparr>vadMic := v\<rparr>)" using s2 g(2) v(2) by (simp add: signal_step_def agc_ok_def buffers_ok_def)
  ultimately show ?thesis using g(3) by blast
qed

lemma AddFarend_ok:
  assumes "agc_ok stt" "length xs = n"
  shows "\<exists>r s. WebRtcAgc_AddFarend stt xs n = Some (r, s) \<and> signal_step stt s"
proof (cases "WebRtcAgc_GetAddFarendError stt n = 0")
  case True
  then have n: "n = 80 \<or> n = 160" by (auto simp: WebRtcAgc_GetAddFarendError_def split: if_splits)
  have l: "levels_ok stt" "buffers_ok stt" "ring_ok stt" "minOutput stt \<le> micVol stt" "micVol stt \<le> maxLevel stt" using assms(1) by (simp_all add: agc_ok_def)
  then have d: "dig_ok (digitalAgc stt)" "vad_ok (vadFarend (digitalAgc stt))" by (simp_all add: buffers_ok_def dig_ok_def)
  obtain v where v: "WebRtcAgc_ProcessVad (vadFarend (digitalAgc stt)) xs n = Some (logRatio v, v)" "vad_ok v" using ProcessVad_ok [OF d(2) assms(2) n] by blast
  have "dig_ok ((digitalAgc stt)\<lparr>vadFarend := v\<rparr>)" using d(1) v(2) by (simp add: dig_ok_def)
  then have "agc_ok (stt\<lparr>digitalAgc := (digitalAgc stt)\<lparr>vadFarend := v\<rparr>\<rparr>)" using l by (simp add: agc_ok_def buffers_ok_def)
  then show ?thesis using True v(1) by (simp add: WebRtcAgc_AddFarend_def WebRtcAgc_AddFarendToDigital_def signal_step_def)
next
  case False
  then show ?thesis using assms(1) by (simp add: WebRtcAgc_AddFarend_def signal_step_def)
qed

text \<open>The virtual microphone: a gain above one comes with an index above the middle, so an index in the tables stays there.\<close>

definition virtual_ok :: "int \<Rightarrow> int \<Rightarrow> bool" where
  "virtual_ok idx g \<longleftrightarrow> 12 \<le> idx \<and> idx \<le> 255 \<and> 0 \<le> g \<and> g \<le> 32767 \<and> (g \<le> 1024 \<or> 127 \<le> idx)"

lemma virtual_tables:
  "length kGainTableVirtualMic = 128" "length kSuppressionTableVirtualMic = 128"
  "list_all (\<lambda>g. 0 \<le> g \<and> g \<le> 32767) kGainTableVirtualMic" "list_all (\<lambda>g. 0 \<le> g \<and> g \<le> 1024) kSuppressionTableVirtualMic"
  by (simp_all add: kGainTableVirtualMic_def kSuppressionTableVirtualMic_def)

lemma table_at_ok:
  assumes "0 \<le> i" "i < int (length t)" "list_all P t"
  shows "\<exists>g. table_at t i = Some g \<and> P g"
  using assms by (auto simp: table_at_def list_all_iff)

lemma virtual_gain_ok:
  assumes "12 \<le> idx" "idx \<le> 255"
  shows "\<exists>g. virtual_gain idx = Some g \<and> virtual_ok idx g"
  using assms table_at_ok [of "idx - 128", OF _ _ virtual_tables(3)] table_at_ok [of "127 - idx", OF _ _ virtual_tables(4)]
  by (auto simp: virtual_gain_def virtual_ok_def virtual_tables)

lemma virtual_gain_lowered_ok:
  assumes "126 \<le> idx" "idx \<le> 254"
  shows "\<exists>g. virtual_gain_lowered idx = Some g \<and> virtual_ok idx g"
  using assms table_at_ok [of "idx - 127", OF _ _ virtual_tables(3)] table_at_ok [of "127 - idx", OF _ _ virtual_tables(4)]
  by (auto simp: virtual_gain_lowered_def virtual_ok_def virtual_tables)

lemma virtual_product:
  assumes "in_s16 x" "0 \<le> g" "g \<le> 32767"
  shows "shr (mul32 x g) 10 = x * g div 1024"
proof -
  have "\<bar>x * g\<bar> \<le> 32768 * 32767" unfolding abs_mult using assms by (intro mult_mono) (auto simp: in_s16_def)
  then show ?thesis by (simp add: mul32_def shr_def s32_idI abs_le_iff)
qed

lemma virtual_sample_ok:
  assumes "virtual_ok idx g" "in_s16 x"
  shows "\<exists>out i h. virtual_sample x idx g = Some (out, i, h) \<and> in_s16 out \<and> virtual_ok i h"
proof (cases "in_s16 (x * g div 1024)")
  case True
  then show ?thesis using assms virtual_product [OF assms(2), of g] by (auto simp: virtual_sample_def virtual_ok_def in_s16_def s16_idI)
next
  case False
  have "\<not> g \<le> 1024"
  proof
    assume "g \<le> 1024"
    then have "- 32768 * 1024 \<le> x * g" "x * g \<le> 32767 * 1024"
      using assms mult_mono [of "- x" 32768 g 1024] mult_mono [of x 32767 g 1024] mult_nonneg_nonneg [of x g] mult_nonneg_nonneg [of "- x" g]
      by (auto simp: in_s16_def virtual_ok_def)
    then show False using False by (auto simp: in_s16_def)
  qed
  then have "126 \<le> idx - 1" "idx - 1 \<le> 254" using assms(1) by (auto simp: virtual_ok_def)
  then obtain h where "virtual_gain_lowered (idx - 1) = Some h" "virtual_ok (idx - 1) h" using virtual_gain_lowered_ok by blast
  then show ?thesis using False assms virtual_product [OF assms(2), of g] by (auto simp: virtual_sample_def virtual_ok_def in_s16_def)
qed

lemma virtual_high_s16 [simp]: "in_s16 (virtual_high g x)"
  by (simp add: virtual_high_def Let_def)

lemma virtual_loop_ok:
  assumes "bands_ok m bands" "ii + n \<le> m" "virtual_ok idx g"
  shows "\<exists>i bs. virtual_loop n ii idx g bands = Some (i, bs) \<and> bands_ok m bs"
  using assms
proof (induction n arbitrary: ii idx g bands)
  case (Suc n)
  obtain b bs where bs: "bands = b # bs" using Suc.prems(1) by (cases bands) (auto simp: bands_ok_def)
  have "in_s16 (b ! ii)" using Suc.prems(1,2) bs by (auto simp: bands_ok_def)
  then obtain out i h where o: "virtual_sample (b ! ii) idx g = Some (out, i, h)" "in_s16 out" "virtual_ok i h"
    using virtual_sample_ok [OF Suc.prems(3)] by blast
  have u: "\<forall>x\<in>set (c[ii := v]). in_s16 x" if "\<forall>x\<in>set c. in_s16 x" "in_s16 v" for c v
    using set_update_subset_insert [of c ii v] that by blast
  have B: "\<forall>c\<in>set bands. length c = m \<and> (\<forall>x\<in>set c. in_s16 x)" using Suc.prems(1) by (simp add: bands_ok_def)
  have "length c = m \<and> (\<forall>x\<in>set c. in_s16 x)" if "c \<in> set (b[ii := out] # map (\<lambda>b. b[ii := virtual_high h (b ! ii)]) bs)" for c
  proof -
    from that obtain d v where "c = d[ii := v]" "d \<in> set bands" "in_s16 v" using o(2) bs by (auto intro: virtual_high_s16)
    then show ?thesis using B u [of d v] by simp
  qed
  then have "bands_ok m (b[ii := out] # map (\<lambda>b. b[ii := virtual_high h (b ! ii)]) bs)" by (auto simp: bands_ok_def)
  then show ?case using Suc.IH [of _ "ii + 1" i h] Suc.prems(2) o bs by simp
qed simp

lemma virtual_restart_ok:
  assumes "agc_ok stt" "agc_mode stt = kAgcModeAdaptiveDigital"
  shows "\<exists>s idx. virtual_restart stt lvl = (s, idx) \<and> signal_step stt s \<and> 12 \<le> idx \<and> idx \<le> 255"
proof -
  have l: "levels_ok stt" "minLevel stt = 0" "maxAnalog stt = 255" "minOutput stt \<le> micVol stt" "micVol stt \<le> maxLevel stt"
    using assms by (auto simp: agc_ok_def buffers_ok_def)
  then have m: "minOutput stt = 12" "255 \<le> maxLevel stt" by (simp_all add: levels_ok_def)
  define s where "s = stt\<lparr>micRef := shl32 lvl (nat (agc_scale stt)), micVol := 127, micGainIdx := 127\<rparr>"
  have "signal_step stt s" using assms(1) m by (simp add: s_def signal_step_def agc_ok_def buffers_ok_def)
  moreover have "signal_step stt stt" using assms(1) by (simp add: signal_step_def)
  ultimately show ?thesis using l m by (simp add: virtual_restart_def Let_def flip: s_def)
qed

lemma VirtualMic_ok:
  assumes ok: "agc_ok stt" "agc_mode stt = kAgcModeAdaptiveDigital" and b: "bands_ok n bands" "0 < n"
  shows "\<exists>r s bs out. WebRtcAgc_VirtualMic stt bands n lvl = Some (r, s, bs, out) \<and> signal_step stt s \<and> bands_ok n bs"
proof -
  define s0 where "s0 = stt\<lparr>lowLevelSignal := low_level (fs stt) (take n (bands ! 0))\<rparr>"
  have s0: "signal_step stt s0" using ok(1) by (simp add: s0_def signal_step_def agc_ok_def buffers_ok_def)
  then obtain s1 idx where s1: "virtual_restart s0 lvl = (s1, idx)" "signal_step s0 s1" "12 \<le> idx" "idx \<le> 255"
    using virtual_restart_ok [of s0 lvl] ok(2) by (auto simp: signal_step_def)
  obtain g where g: "virtual_gain idx = Some g" "virtual_ok idx g" using virtual_gain_ok [OF s1(3,4)] by blast
  obtain i bs where bs: "virtual_loop n 0 idx g bands = Some (i, bs)" "bands_ok n bs" using virtual_loop_ok [OF b(1) _ g(2), of 0 n] by auto
  define s2 where "s2 = s1\<lparr>micGainIdx := i\<rparr>"
  have s2: "signal_step stt s2" using s0 s1(2) by (simp add: s2_def signal_step_def agc_ok_def buffers_ok_def)
  then obtain r s3 cs where a: "WebRtcAgc_AddMic s2 bs n = Some (r, s3, cs)" "signal_step s2 s3" "bands_ok n cs"
    using AddMic_ok [of s2 n bs] bs(2) by (auto simp: signal_step_def)
  have long: "\<not> (bands = [] \<or> n = 0 \<or> (\<exists>b\<in>set bands. length b < n))" using b by (auto simp: bands_ok_def)
  have "WebRtcAgc_VirtualMic stt bands n lvl = Some (if r \<noteq> 0 then -1 else 0, s3, cs, shr (micGainIdx s2) (nat (agc_scale s2)))"
    unfolding WebRtcAgc_VirtualMic_def if_not_P [OF long] Let_def s0_def [symmetric] s1(1) prod.case g(1) option.case bs(1) s2_def [symmetric] a(1) by simp
  moreover have "signal_step stt s3" using s2 a(2) by (simp add: signal_step_def)
  ultimately show ?thesis using a(3) by blast
qed

text \<open>Configuration and initialisation.\<close>

lemma UpdateAgcThresholds_frame [simp]:
  "levels_ok (WebRtcAgc_UpdateAgcThresholds s) = levels_ok s" "ring_ok (WebRtcAgc_UpdateAgcThresholds s) = ring_ok s"
  "buffers_ok (WebRtcAgc_UpdateAgcThresholds s) = buffers_ok s" "micVol (WebRtcAgc_UpdateAgcThresholds s) = micVol s"
  "maxLevel (WebRtcAgc_UpdateAgcThresholds s) = maxLevel s" "minOutput (WebRtcAgc_UpdateAgcThresholds s) = minOutput s"
  "digitalAgc (WebRtcAgc_UpdateAgcThresholds s) = digitalAgc s" "fs (WebRtcAgc_UpdateAgcThresholds s) = fs s"
  "agc_mode (WebRtcAgc_UpdateAgcThresholds s) = agc_mode s" "compressionGaindB (WebRtcAgc_UpdateAgcThresholds s) = compressionGaindB s"
  "targetLevelDbfs (WebRtcAgc_UpdateAgcThresholds s) = targetLevelDbfs s" "limiterEnable (WebRtcAgc_UpdateAgcThresholds s) = limiterEnable s"
  "analogTarget (WebRtcAgc_UpdateAgcThresholds s) = analog_target s"
  by (simp_all add: WebRtcAgc_UpdateAgcThresholds_def Let_def levels_ok_def ring_ok_def buffers_ok_def)

text \<open>The settings of both modes are in the range of the gain table.\<close>

lemma analog_settings:
  assumes "0 \<le> compressionGaindB s" "compressionGaindB s \<le> 70" "0 \<le> tL" "tL \<le> 31" "agc_mode s \<noteq> kAgcModeFixedDigital"
  shows "settings_ok (compressionGaindB s) tL (analog_target s)"
proof -
  define c where "c = compressionGaindB s"
  have c: "0 \<le> c" "c \<le> 70" using assms by (simp_all add: c_def)
  have "0 \<le> (5 * c + 5) div 11" "(5 * c + 5) div 11 \<le> 32" using c by auto
  then have "analog_target s = 4 + (5 * c + 5) div 11"
    using c assms(5) by (simp add: analog_target_def WebRtcSpl_DivW32W16ResW16_def s16_idI cdiv_pos Let_def flip: c_def)
  then show ?thesis using adaptive_settings [OF c assms(3,4)] by (simp add: c_def)
qed

definition config_settings :: "LegacyAgc \<Rightarrow> WebRtcAgcConfig \<Rightarrow> LegacyAgc" where
  "config_settings stt cfg =
     (let stt = stt\<lparr>limiterEnable := cfg_limiterEnable cfg, compressionGaindB := cfg_compressionGaindB cfg\<rparr>;
          stt = stt\<lparr>targetLevelDbfs := cfg_targetLevelDbfs cfg\<rparr>
      in WebRtcAgc_UpdateAgcThresholds
           (if agc_mode stt = kAgcModeFixedDigital
            then stt\<lparr>compressionGaindB := s16 (compressionGaindB stt + cfg_targetLevelDbfs cfg)\<rparr> else stt))"

lemma config_settings_table:
  assumes "0 \<le> cfg_compressionGaindB cfg" "cfg_compressionGaindB cfg \<le> 70" "0 \<le> cfg_targetLevelDbfs cfg" "cfg_targetLevelDbfs cfg \<le> 31"
  shows "settings_ok (compressionGaindB (config_settings stt cfg)) (targetLevelDbfs (config_settings stt cfg)) (analogTarget (config_settings stt cfg))"
proof (cases "agc_mode stt = kAgcModeFixedDigital")
  case True
  then show ?thesis using fixed_settings [OF assms] assms by (simp add: config_settings_def analog_target_def Let_def s16_idI)
next
  case False
  then show ?thesis using assms analog_settings [of "stt\<lparr>limiterEnable := cfg_limiterEnable cfg, compressionGaindB := cfg_compressionGaindB cfg, targetLevelDbfs := cfg_targetLevelDbfs cfg\<rparr>"]
    by (simp add: config_settings_def Let_def)
qed

lemma config_settings_frame [simp]:
  "levels_ok (config_settings s cfg) = levels_ok s" "ring_ok (config_settings s cfg) = ring_ok s"
  "buffers_ok (config_settings s cfg) = buffers_ok s" "micVol (config_settings s cfg) = micVol s"
  "maxLevel (config_settings s cfg) = maxLevel s" "minOutput (config_settings s cfg) = minOutput s"
  "digitalAgc (config_settings s cfg) = digitalAgc s" "fs (config_settings s cfg) = fs s" "agc_mode (config_settings s cfg) = agc_mode s"
  by (simp_all add: config_settings_def Let_def)

lemma set_config_accepts:
  assumes "initFlag stt = kInitCheck_agc" "length (gainTable (digitalAgc stt)) = 32"
    "cfg_limiterEnable cfg = 0 \<or> cfg_limiterEnable cfg = 1" "0 \<le> cfg_targetLevelDbfs cfg" "cfg_targetLevelDbfs cfg \<le> 31"
    "0 \<le> cfg_compressionGaindB cfg" "cfg_compressionGaindB cfg \<le> 70"
  shows "\<exists>t. WebRtcAgc_set_config stt cfg = Some (0, (config_settings stt cfg)\<lparr>digitalAgc := (digitalAgc stt)\<lparr>gainTable := t\<rparr>, usedConfig := cfg\<rparr>) \<and> gain_table_ok t"
proof -
  let ?s = "config_settings stt cfg"
  obtain t where t: "WebRtcAgc_CalculateGainTable (gainTable (digitalAgc stt)) (compressionGaindB ?s) (targetLevelDbfs ?s) (limiterEnable ?s) (analogTarget ?s) = Some (0, t)"
      "gain_table_ok t"
    using CalculateGainTable_ok [OF config_settings_table [OF assms(6,7,4,5)] assms(2)] by blast
  have g: "\<not> initFlag stt \<noteq> kInitCheck_agc" "\<not> (cfg_limiterEnable cfg \<noteq> 0 \<and> cfg_limiterEnable cfg \<noteq> 1)"
    "\<not> (cfg_targetLevelDbfs cfg < 0 \<or> cfg_targetLevelDbfs cfg > 31)" using assms by auto
  have "WebRtcAgc_set_config stt cfg = Some (0, ?s\<lparr>digitalAgc := (digitalAgc stt)\<lparr>gainTable := t\<rparr>, usedConfig := (usedConfig ?s)\<lparr>cfg_compressionGaindB := cfg_compressionGaindB cfg,
      cfg_limiterEnable := cfg_limiterEnable cfg, cfg_targetLevelDbfs := cfg_targetLevelDbfs cfg\<rparr>\<rparr>)"
    unfolding WebRtcAgc_set_config_def if_not_P [OF g(1)] if_not_P [OF g(2)] Let_def if_not_P [OF g(3)]
      config_settings_def [of stt cfg, unfolded Let_def, symmetric] config_settings_frame t(1) option.case prod.case by simp
  moreover have E: "c\<lparr>cfg_compressionGaindB := cfg_compressionGaindB cfg, cfg_limiterEnable := cfg_limiterEnable cfg, cfg_targetLevelDbfs := cfg_targetLevelDbfs cfg\<rparr> = cfg" for c :: WebRtcAgcConfig
    by (cases c; cases cfg) simp
  ultimately show ?thesis using t(2) unfolding E by blast
qed

lemma set_config_ok:
  assumes ok: "agc_ok stt" and c: "0 \<le> cfg_compressionGaindB cfg" "cfg_compressionGaindB cfg \<le> 70"
  shows "\<exists>r s. WebRtcAgc_set_config stt cfg = Some (r, s) \<and> signal_step stt s"
proof -
  have l: "levels_ok stt" "buffers_ok stt" "ring_ok stt" "minOutput stt \<le> micVol stt" "micVol stt \<le> maxLevel stt" using ok by (simp_all add: agc_ok_def)
  then have i: "initFlag stt = kInitCheck_agc" "length (gainTable (digitalAgc stt)) = 32" by (simp_all add: buffers_ok_def dig_ok_def gain_table_ok_def)
  consider "cfg_limiterEnable cfg \<noteq> 0 \<and> cfg_limiterEnable cfg \<noteq> 1"
    | "cfg_limiterEnable cfg = 0 \<or> cfg_limiterEnable cfg = 1" "cfg_targetLevelDbfs cfg < 0 \<or> cfg_targetLevelDbfs cfg > 31"
    | "cfg_limiterEnable cfg = 0 \<or> cfg_limiterEnable cfg = 1" "0 \<le> cfg_targetLevelDbfs cfg" "cfg_targetLevelDbfs cfg \<le> 31" by linarith
  then show ?thesis
  proof cases
    case 1
    have "signal_step stt (stt\<lparr>lastError := AGC_BAD_PARAMETER_ERROR\<rparr>)" using l by (simp add: signal_step_def agc_ok_def buffers_ok_def)
    then show ?thesis using 1 i by (simp add: WebRtcAgc_set_config_def)
  next
    case 2
    have "signal_step stt (stt\<lparr>limiterEnable := cfg_limiterEnable cfg, compressionGaindB := cfg_compressionGaindB cfg, lastError := AGC_BAD_PARAMETER_ERROR\<rparr>)"
      using l by (simp add: signal_step_def agc_ok_def buffers_ok_def)
    then show ?thesis using 2 i by (auto simp: WebRtcAgc_set_config_def Let_def)
  next
    case 3
    obtain t where t: "WebRtcAgc_set_config stt cfg = Some (0, (config_settings stt cfg)\<lparr>digitalAgc := (digitalAgc stt)\<lparr>gainTable := t\<rparr>, usedConfig := cfg\<rparr>)" "gain_table_ok t"
      using set_config_accepts [OF i 3 c] by blast
    have "dig_ok ((digitalAgc stt)\<lparr>gainTable := t\<rparr>)" using l(2) t(2) by (simp add: buffers_ok_def dig_ok_def)
    moreover have "buffers_ok (config_settings stt cfg)" using l(2) by simp
    ultimately have "buffers_ok ((config_settings stt cfg)\<lparr>digitalAgc := (digitalAgc stt)\<lparr>gainTable := t\<rparr>, usedConfig := cfg\<rparr>)"
      by (simp add: buffers_ok_def)
    then show ?thesis using t(1) l by (simp add: signal_step_def agc_ok_def)
  qed
qed

text \<open>The memory of a new instance: only the sizes of the arrays that are not written at once matter.\<close>

definition memory_ok :: "LegacyAgc \<Rightarrow> bool" where
  "memory_ok m \<longleftrightarrow> length (gainTable (digitalAgc m)) = 32 \<and> length (Rxx16w32_array m) = 2 \<and> (\<forall>r\<in>set (Rxx16w32_array m). length r = 5)"

lemma and_fc000000:
  assumes "0 \<le> x" "x < 67108864"
  shows "x AND 0xFC000000 = (0 :: int)"
proof -
  have "x = x AND 0x3FFFFFF" using assms take_bit_int_eq_self [of x 26] by (simp add: take_bit_eq_mask mask_eq_exp_minus_1)
  then have "x AND 0xFC000000 = x AND (0x3FFFFFF AND 0xFC000000)" by (metis and.assoc)
  then show ?thesis by simp
qed

lemma init_levels_ok:
  assumes "0 \<le> lo" "lo < hi" "hi \<le> 65535" "agc_scale s = 0" "agc_mode s = kAgcModeAdaptiveDigital \<longrightarrow> lo = 0 \<and> hi = 255"
  defines "t \<equiv> init_measures (init_levels lo hi s)"
  shows "levels_ok t" "minOutput t \<le> micVol t" "micVol t \<le> maxLevel t" "minLevel t = lo" "maxAnalog t = hi"
proof -
  define d where "d = hi - lo"
  have d: "0 < d" "d \<le> 65535" "hi = lo + d" "lo + d \<le> 65535" "0 \<le> d div 4" "d div 4 \<le> 16383" using assms by (auto simp: d_def)
  have m: "s32 (cdiv (sub32 hi lo) 4) = d div 4" using d assms(1) by (simp add: sub32_def s32_idI cdiv_pos)
  have "add32 hi (d div 4) = hi + d div 4" using d assms by (simp add: add32_def s32_idI)
  moreover have "sub32 (hi + d div 4) lo = d + d div 4" using d assms by (simp add: sub32_def s32_idI)
  moreover have "add32 lo (shr (mul32 (d + d div 4) 10) 8) = lo + (d + d div 4) * 10 div 256"
    using d assms(1) by (simp add: mul32_def add32_def shr_def s32_idI)
  ultimately have f: "maxLevel t = hi + d div 4" "maxInit t = hi + d div 4" "minOutput t = lo + (d + d div 4) * 10 div 256" "minLevel t = lo"
      "maxAnalog t = hi" "zeroCtrlMax t = hi" "micVol t = (if agc_mode s = kAgcModeAdaptiveDigital then 127 else hi)" "agc_scale t = 0"
      "msTooLow t = 0" "msTooHigh t = 0" "msecSpeechInnerChange t = 520" "msecSpeechOuterChange t = 340"
    using assms(4) m by (simp_all add: t_def init_levels_def init_measures_def Let_def kMsecSpeechInner_def kMsecSpeechOuter_def)
  have o: "0 \<le> (d + d div 4) * 10 div 256" "(d + d div 4) * 10 div 256 \<le> d" using d by auto
  have "minOutput t \<le> micVol t \<and> micVol t \<le> maxLevel t"
  proof (cases "agc_mode s = kAgcModeAdaptiveDigital")
    case True
    then have "lo = 0" "hi = 255" "d = 255" using assms(5) by (simp_all add: d_def)
    then show ?thesis using f(1,3,7) True by simp
  next
    case False
    then show ?thesis using f(1,3,7) o(2) d(3,5) by simp
  qed
  then show "minOutput t \<le> micVol t" "micVol t \<le> maxLevel t" by simp_all
  show "minLevel t = lo" "maxAnalog t = hi" using f by simp_all
  have "hi - lo = d" "hi + d div 4 - lo = d + d div 4" by (simp_all add: d_def)
  then show "levels_ok t" using f d(1,4,5) assms(1,2,3) by (simp add: levels_ok_def in_s16_zero)
qed

lemma InitDigital_ok:
  assumes "gain_table_ok t"
  shows "dig_ok ((snd (WebRtcAgc_InitDigital d mode))\<lparr>gainTable := t\<rparr>)" "fst (WebRtcAgc_InitDigital d mode) = 0"
  using assms by (simp_all add: WebRtcAgc_InitDigital_def Let_def dig_ok_def InitVad_ok level_ok_def in_s16_zero)

lemma config_settings_digital: "buffers_ok ((config_settings s cfg)\<lparr>digitalAgc := x\<rparr>) = buffers_ok (s\<lparr>digitalAgc := x\<rparr>)"
  by (simp add: buffers_ok_def config_settings_def WebRtcAgc_UpdateAgcThresholds_def Let_def)

lemma config_settings_levels [simp]:
  "minLevel (config_settings s cfg) = minLevel s" "maxAnalog (config_settings s cfg) = maxAnalog s"
  by (simp_all add: config_settings_def WebRtcAgc_UpdateAgcThresholds_def Let_def)

lemma buffers_frame2 [simp]: "buffers_ok (s\<lparr>Rxx160_LPw32 := x\<rparr>) = buffers_ok s"
  by (simp add: buffers_ok_def)

lemma Init_ok:
  assumes m: "memory_ok mem" and r: "0 \<le> lo" "lo < hi" "hi \<le> 65535" "0 \<le> mode" "mode \<le> 3"
  shows "\<exists>s. WebRtcAgc_Init mem lo hi mode rate = Some (0, s) \<and> agc_ok s \<and> fs s = rate \<and> agc_mode s = mode
    \<and> minLevel s = (if mode = kAgcModeAdaptiveDigital then 0 else lo) \<and> maxAnalog s = (if mode = kAgcModeAdaptiveDigital then 255 else hi)"
proof -
  define lo' hi' where "lo' = (if mode = kAgcModeAdaptiveDigital then 0 else lo)" and "hi' = (if mode = kAgcModeAdaptiveDigital then 255 else hi)"
  define d where "d = snd (WebRtcAgc_InitDigital (digitalAgc mem) mode)"
  have dd: "WebRtcAgc_InitDigital (digitalAgc mem) mode = (0, d)" "gainTable d = gainTable (digitalAgc mem)"
    by (simp_all add: d_def WebRtcAgc_InitDigital_def Let_def)
  define s0 where "s0 = init_mode mode rate hi (mem\<lparr>digitalAgc := d, envSum := 0\<rparr>)"
  have s0: "agc_mode s0 = mode" "agc_scale s0 = 0" "fs s0 = rate" "digitalAgc s0 = d" "vadMic s0 = WebRtcAgc_InitVad (vadMic mem)"
      "Rxx16w32_array s0 = Rxx16w32_array mem" "s0\<lparr>agc_scale := 0\<rparr> = s0"
    by (simp_all add: s0_def init_mode_def init_scale_def Let_def)
  define s1 where "s1 = init_measures (init_levels lo' hi' s0)"
  have lh: "0 \<le> lo'" "lo' < hi'" "hi' \<le> 65535" using r by (auto simp: lo'_def hi'_def)
  have s1: "levels_ok s1" "minOutput s1 \<le> micVol s1" "micVol s1 \<le> maxLevel s1" "minLevel s1 = lo'" "maxAnalog s1 = hi'"
    using init_levels_ok [OF lh s0(2)] s0(1) by (simp_all add: s1_def lo'_def hi'_def)
  have f: "digitalAgc s1 = d" "initFlag s1 = kInitCheck_agc" "agc_mode s1 = mode" "fs s1 = rate" "gainTableIdx s1 = 0" "length (filterState s1) = 8"
      "agc_env s1 = [replicate 10 0, replicate 10 0]" "Rxx16w32_array s1 = (Rxx16w32_array mem)[0 := replicate 5 0]"
      "vadMic s1 = WebRtcAgc_InitVad (vadMic mem)" "ring_ok s1"
      "cfg_limiterEnable (defaultConfig s1) = 1" "cfg_targetLevelDbfs (defaultConfig s1) = 3" "cfg_compressionGaindB (defaultConfig s1) = 9"
    using s0 by (simp_all add: s1_def init_measures_def init_levels_def Let_def ring_ok_def kRxxBufferLen_def)
  have "length (gainTable (digitalAgc s1)) = 32" using m f(1) dd(2) by (simp add: memory_ok_def)
  then obtain t where t: "WebRtcAgc_set_config s1 (defaultConfig s1) =
      Some (0, (config_settings s1 (defaultConfig s1))\<lparr>digitalAgc := (digitalAgc s1)\<lparr>gainTable := t\<rparr>, usedConfig := defaultConfig s1\<rparr>)" "gain_table_ok t"
    using set_config_accepts [of s1 "defaultConfig s1"] f by auto
  define s2 where "s2 = (config_settings s1 (defaultConfig s1))\<lparr>digitalAgc := (digitalAgc s1)\<lparr>gainTable := t\<rparr>, usedConfig := defaultConfig s1\<rparr>"
  have mask: "hi' AND 0xFC000000 = 0" using lh by (intro and_fc000000) auto
  have R: "init_range lo hi s0 = (lo', hi', s0)"
    using s0(1,2,7) r by (simp add: init_range_def lo'_def hi'_def shl32_def s32_idI)
  have g: "\<not> (0 :: int) \<noteq> 0" "\<not> (mode < kAgcModeUnchanged \<or> mode > kAgcModeFixedDigital)" "\<not> (0 :: int) = -1"
    using r(4,5) by (auto simp: agc_modes)
  have u: "mem\<lparr>digitalAgc := d, envSum := 0\<rparr> = (mem\<lparr>digitalAgc := d\<rparr>)\<lparr>envSum := 0\<rparr>" by simp
  have "WebRtcAgc_Init mem lo hi mode rate = Some (if lo' \<ge> hi' \<or> hi' AND 0xFC000000 \<noteq> 0 then -1 else 0, init_finish s2)"
    unfolding WebRtcAgc_Init_def dd(1) Let_def prod.case if_not_P [OF g(1)] if_not_P [OF g(2)] s0_def [symmetric] R s1_def [symmetric]
      t(1) [folded s2_def] option.case if_not_P [OF g(3)] by (rule refl)
  then have I: "WebRtcAgc_Init mem lo hi mode rate = Some (0, init_finish s2)" using lh(2) mask by simp
  have "\<forall>r\<in>set ((Rxx16w32_array mem)[0 := replicate 5 0]). length r = 5" using m by (intro set_update_length) (auto simp: memory_ok_def)
  moreover have "dig_ok (d\<lparr>gainTable := t\<rparr>)" using InitDigital_ok(1) [OF t(2)] by (simp add: d_def)
  ultimately have B: "buffers_ok (s1\<lparr>digitalAgc := d\<lparr>gainTable := t\<rparr>\<rparr>)"
    using f s1(4,5) r(4,5) m by (simp add: buffers_ok_def InitVad_ok lo'_def hi'_def memory_ok_def)
  then have "buffers_ok s2" using f(1) config_settings_digital by (simp add: s2_def)
  then have "agc_ok (init_finish s2)" using s1(1,2,3) f(10) by (simp add: agc_ok_def init_finish_def s2_def)
  moreover have "fs (init_finish s2) = rate" "agc_mode (init_finish s2) = mode" "minLevel (init_finish s2) = lo'" "maxAnalog (init_finish s2) = hi'"
    using f(3,4) s1(4,5) by (simp_all add: init_finish_def s2_def)
  ultimately show ?thesis using I by (auto simp: lo'_def hi'_def)
qed

subsection \<open>A frame of the interface\<close>

lemma mic_dequeue_ok:
  assumes "agc_ok s"
  shows "agc_ok (mic_dequeue s)" "fs (mic_dequeue s) = fs s" "agc_mode (mic_dequeue s) = agc_mode s"
proof -
  have e: "\<forall>e\<in>set (agc_env s). length e = 10" "\<forall>e\<in>set (Rxx16w32_array s). length e = 5"
    "length (agc_env s ! 1) = 10" "length (Rxx16w32_array s ! 1) = 5" using assms by (simp_all add: agc_ok_def buffers_ok_def)
  note u = set_update_length [OF e(1,3)] set_update_length [OF e(2,4)]
  show "agc_ok (mic_dequeue s)" using assms u by (simp add: mic_dequeue_def agc_ok_def buffers_ok_def Let_def)
  show "fs (mic_dequeue s) = fs s" "agc_mode (mic_dequeue s) = agc_mode s" by (simp_all add: mic_dequeue_def Let_def)
qed

lemma Analyze_ok:
  assumes ok: "agc_ok stt" and b: "bands_ok n bands" and lvl: "in_s32 inl"
  shows "\<exists>r s out w gs. WebRtcAgc_Analyze stt bands n inl out0 echo w0 gains = Some (r, s, out, w, gs) \<and> signal_step stt s
    \<and> (r = 0 \<or> r = -1) \<and> (r = 0 \<longleftrightarrow> WebRtcAgc_GetAddFarendError stt n = 0 \<and> (level_controlled stt \<longrightarrow> minLevel stt \<le> inl \<and> inl \<le> maxAnalog stt))
    \<and> (r = 0 \<longrightarrow> (if level_controlled stt then minOutput stt \<le> out \<and> out \<le> maxAnalog stt else out = inl))"
proof (cases "WebRtcAgc_GetAddFarendError stt n \<noteq> 0")
  case True
  then show ?thesis using ok by (simp add: WebRtcAgc_Analyze_def signal_step_def WebRtcAgc_GetAddFarendError_def split: if_splits)
next
  case False
  have l: "levels_ok stt" "buffers_ok stt" "ring_ok stt" "minOutput stt \<le> micVol stt" "micVol stt \<le> maxLevel stt" using ok by (simp_all add: agc_ok_def)
  obtain xs hs where bs: "bands = xs # hs" using b by (cases bands) (auto simp: bands_ok_def)
  obtain L L2 where L: "agc_subframe (fs stt) = Some (L, L2)" "agc_frame (fs stt) xs"
    using False b bs by (auto simp: WebRtcAgc_GetAddFarendError_def agc_subframe_def bands_ok_def split: if_splits)
  have "dig_ok (digitalAgc stt)" using l(2) by (simp add: buffers_ok_def)
  from ComputeDigitalGains_ok [OF this L(2,1), of hs "lowLevelSignal stt" gains]
  obtain d gs where d: "WebRtcAgc_ComputeDigitalGains (digitalAgc stt) bands (fs stt) (lowLevelSignal stt) gains = Some (0, d, gs)" "dig_ok d"
    unfolding bs by blast
  define s1 where "s1 = stt\<lparr>digitalAgc := d\<rparr>"
  have s1: "agc_ok s1" "fs s1 = fs stt" "agc_mode s1 = agc_mode stt" "minLevel s1 = minLevel stt" "maxAnalog s1 = maxAnalog stt" "minOutput s1 = minOutput stt"
      "agc_scale s1 = agc_scale stt" "level_controlled s1 = level_controlled stt" using l d(2) by (simp_all add: s1_def agc_ok_def buffers_ok_def level_controlled_def)
  have deq: "signal_step stt (mic_dequeue s)" if "agc_ok s" "fs s = fs stt" "agc_mode s = agc_mode stt" for s
    using mic_dequeue_ok [OF that(1)] that by (simp add: signal_step_def)
  have size: "\<not> (if fs stt = 8000 then n \<noteq> 80 else if fs stt = 16000 \<or> fs stt = 32000 \<or> fs stt = 48000 then n \<noteq> 160 else True)"
    using False by (auto simp: WebRtcAgc_GetAddFarendError_def split: if_splits)
  have A: "WebRtcAgc_Analyze stt bands n inl out0 echo w0 gains =
     (case (if level_controlled s1 then WebRtcAgc_ProcessAnalog s1 inl inl (logRatio (vadMic s1)) echo 0 else Some (0, s1, inl, 0)) of None \<Rightarrow> None
      | Some (r, s, out, w) \<Rightarrow> if r = -1 then Some (-1, s, out, w, gs) else Some (0, mic_dequeue s, out, w, gs))"
    unfolding WebRtcAgc_Analyze_def if_not_P [OF size] using d(1) by (simp add: s1_def [symmetric] Let_def)
  show ?thesis
  proof (cases "level_controlled s1")
    case True
    show ?thesis
    proof (cases "minLevel s1 \<le> inl \<and> inl \<le> maxAnalog s1")
      case range: True
      obtain s out w where p: "WebRtcAgc_ProcessAnalog s1 inl inl (logRatio (vadMic s1)) echo 0 = Some (0, s, out, w)" "analog_result s1 inl echo s out"
        using ProcessAnalog_ok [OF s1(1) lvl] range by blast
      have "fs s = fs stt" "agc_mode s = agc_mode stt" "agc_ok s" using p(2) s1(2,3) by (auto simp: analog_result_def agc_static_def)
      moreover have "minOutput stt \<le> out" "out \<le> maxAnalog stt" using p(2) s1(5,6) by (auto simp: analog_result_def)
      ultimately show ?thesis using A True p(1) s1(4,5,8) deq [of s] range False by simp
    next
      case outside: False
      then have "WebRtcAgc_ProcessAnalog s1 inl inl (logRatio (vadMic s1)) echo 0 = Some (-1, s1, inl, 0)"
        using lvl levels_ranges(7) [OF l(1)] s1(7) by (auto simp: WebRtcAgc_ProcessAnalog_def shl32_def s32_id Let_def)
      then show ?thesis using A True s1 outside by (auto simp: signal_step_def)
    qed
  next
    case uncontrolled: False
    then show ?thesis using A deq [OF s1(1,2,3)] s1(8) False by simp
  qed
qed

subsection \<open>Reachable states\<close>

text \<open>
  The states of an instance with a volume range within 0 to 65535, frames of 16 bit samples and compression
  gains of at most 70 dB. The virtual microphone belongs to the adaptive digital mode.
\<close>

inductive agc_reachable :: "LegacyAgc \<Rightarrow> bool" where
  init: "memory_ok mem \<Longrightarrow> 0 \<le> lo \<Longrightarrow> lo < hi \<Longrightarrow> hi \<le> 65535 \<Longrightarrow>
    WebRtcAgc_Init (WebRtcAgc_Create mem) lo hi mode rate = Some (0, s) \<Longrightarrow> agc_reachable s"
| config: "agc_reachable s \<Longrightarrow> 0 \<le> cfg_compressionGaindB cfg \<Longrightarrow> cfg_compressionGaindB cfg \<le> 70 \<Longrightarrow>
    WebRtcAgc_set_config s cfg = Some (r, s') \<Longrightarrow> agc_reachable s'"
| mic: "agc_reachable s \<Longrightarrow> bands_ok n bands \<Longrightarrow> WebRtcAgc_AddMic s bands n = Some (r, s', bands') \<Longrightarrow> agc_reachable s'"
| virtual: "agc_reachable s \<Longrightarrow> agc_mode s = kAgcModeAdaptiveDigital \<Longrightarrow> bands_ok n bands \<Longrightarrow> 0 < n \<Longrightarrow>
    WebRtcAgc_VirtualMic s bands n lvl = Some (r, s', bands', out) \<Longrightarrow> agc_reachable s'"
| farend: "agc_reachable s \<Longrightarrow> length xs = n \<Longrightarrow> WebRtcAgc_AddFarend s xs n = Some (r, s') \<Longrightarrow> agc_reachable s'"
| analyze: "agc_reachable s \<Longrightarrow> bands_ok n bands \<Longrightarrow> in_s32 inl \<Longrightarrow>
    WebRtcAgc_Analyze s bands n inl out0 echo w0 gains = Some (r, s', out, w, gs) \<Longrightarrow> agc_reachable s'"

inductive_cases agc_reachable_cases: "agc_reachable s"

lemma Create_memory: "memory_ok mem \<Longrightarrow> memory_ok (WebRtcAgc_Create mem)"
  by (simp add: memory_ok_def WebRtcAgc_Create_def)

lemma Init_mode:
  assumes "WebRtcAgc_Init mem lo hi mode rate = Some (0, s)"
  shows "0 \<le> mode" "mode \<le> 3"
  using assms by (auto simp: WebRtcAgc_Init_def WebRtcAgc_InitDigital_def Let_def agc_modes split: if_splits)

lemma agc_reachable_ok: "agc_reachable s \<Longrightarrow> agc_ok s"
proof (induction rule: agc_reachable.induct)
  case (init mem lo hi mode rate s)
  then show ?case using Init_ok [OF Create_memory [OF init(1)] init(2-4) Init_mode [OF init(5)], of rate] by auto
next
  case (config s cfg r s')
  then show ?case using set_config_ok [of s cfg] by (auto simp: signal_step_def)
next
  case (mic s n bands r s' bands')
  then show ?case using AddMic_ok [of s n bands] by (auto simp: signal_step_def)
next
  case (virtual s n bands lvl r s' bands' out)
  then show ?case using VirtualMic_ok [of s n bands lvl] by (auto simp: signal_step_def)
next
  case (farend s xs n r s')
  then show ?case using AddFarend_ok [of s xs n] by (auto simp: signal_step_def)
next
  case (analyze s n bands inl out0 echo w0 gains r s' out w gs)
  then show ?case using Analyze_ok [of s n bands inl out0 echo w0 gains] by (auto simp: signal_step_def)
qed

lemma Init_reachable:
  assumes "memory_ok mem" "0 \<le> lo" "lo < hi" "hi \<le> 65535" "0 \<le> mode" "mode \<le> 3"
  shows "\<exists>s. WebRtcAgc_Init (WebRtcAgc_Create mem) lo hi mode rate = Some (0, s) \<and> agc_reachable s \<and> agc_mode s = mode \<and> fs s = rate
    \<and> minLevel s = (if mode = kAgcModeAdaptiveDigital then 0 else lo) \<and> maxAnalog s = (if mode = kAgcModeAdaptiveDigital then 255 else hi)"
  using Init_ok [OF Create_memory [OF assms(1)] assms(2-6), of rate] agc_reachable.init [OF assms(1-4)] by blast

text \<open>A blank memory, for the examples.\<close>

definition blank_vad :: AgcVad where
  "blank_vad = \<lparr>downState = [], HPstate = 0, counter = 0, logRatio = 0, meanLongTerm = 0, varianceLongTerm = 0, stdLongTerm = 0,
     meanShortTerm = 0, varianceShortTerm = 0, stdShortTerm = 0\<rparr>"

definition blank_digital :: DigitalAgc where
  "blank_digital = \<lparr>capacitorSlow = 0, capacitorFast = 0, gain = 0, gainTable = replicate 32 0, gatePrevious = 0, agcMode = 0,
     vadNearend = blank_vad, vadFarend = blank_vad\<rparr>"

definition blank_config :: WebRtcAgcConfig where
  "blank_config = \<lparr>cfg_targetLevelDbfs = 0, cfg_compressionGaindB = 0, cfg_limiterEnable = 0\<rparr>"

definition blank_memory :: LegacyAgc where
  "blank_memory = \<lparr>fs = 0, compressionGaindB = 0, targetLevelDbfs = 0, agc_mode = 0, limiterEnable = 0, defaultConfig = blank_config,
     usedConfig = blank_config, initFlag = 0, lastError = 0, analogTargetLevel = 0, startUpperLimit = 0, startLowerLimit = 0,
     upperPrimaryLimit = 0, lowerPrimaryLimit = 0, upperSecondaryLimit = 0, lowerSecondaryLimit = 0, targetIdx = 0, analogTarget = 0,
     filterState = [], upperLimit = 0, lowerLimit = 0, Rxx160w32 = 0, Rxx16_LPw32 = 0, Rxx160_LPw32 = 0, Rxx16_LPw32Max = 0,
     Rxx16_vectorw32 = [], Rxx16w32_array = [replicate 5 0, replicate 5 0], agc_env = [], Rxx16pos = 0, envSum = 0, vadThreshold = 0,
     inActive = 0, msTooLow = 0, msTooHigh = 0, changeToSlowMode = 0, firstCall = 0, msZero = 0, msecSpeechOuterChange = 0,
     msecSpeechInnerChange = 0, activeSpeech = 0, muteGuardMs = 0, inQueue = 0, micRef = 0, gainTableIdx = 0, micGainIdx = 0, micVol = 0,
     maxLevel = 0, maxAnalog = 0, maxInit = 0, minLevel = 0, minOutput = 0, zeroCtrlMax = 0, lastInMicLevel = 0, agc_scale = 0,
     vadMic = blank_vad, digitalAgc = blank_digital, lowLevelSignal = 0\<rparr>"

lemma blank_memory_ok: "memory_ok blank_memory"
  by (simp add: memory_ok_def blank_memory_def blank_digital_def)

subsection \<open>Sessions\<close>

text \<open>
  What every call of the interface promises: in a good state it is defined for the arguments that the mode
  allows, and leaves a good state of the same mode. Sequences of such calls then run to their end.
\<close>

fun run_calls :: "('a \<Rightarrow> LegacyAgc \<Rightarrow> LegacyAgc option) \<Rightarrow> 'a list \<Rightarrow> LegacyAgc \<Rightarrow> LegacyAgc option" where
  "run_calls step [] s = Some s"
| "run_calls step (a # as) s = (case step a s of None \<Rightarrow> None | Some s \<Rightarrow> run_calls step as s)"

locale agc_operation =
  fixes step :: "'a \<Rightarrow> LegacyAgc \<Rightarrow> LegacyAgc option" and allowed :: "'a \<Rightarrow> int \<Rightarrow> bool"
  assumes total: "agc_ok s \<Longrightarrow> allowed a (agc_mode s) \<Longrightarrow> \<exists>s'. step a s = Some s' \<and> signal_step s s'"
begin

lemma run_total:
  "agc_ok s \<Longrightarrow> \<forall>a\<in>set as. allowed a (agc_mode s) \<Longrightarrow> \<exists>s'. run_calls step as s = Some s' \<and> signal_step s s'"
proof (induction as arbitrary: s)
  case (Cons a as)
  obtain s1 where s1: "step a s = Some s1" "signal_step s s1" using total [OF Cons.prems(1), of a] Cons.prems(2) by auto
  then obtain s2 where "run_calls step as s1 = Some s2" "signal_step s1 s2" using Cons.IH [of s1] Cons.prems by (auto simp: signal_step_def)
  then show ?case using s1 by (auto simp: signal_step_def)
qed (simp add: signal_step_def)

end

datatype agc_call =
    CallMic nat "int list list"
  | CallVirtual nat "int list list" int
  | CallFarend nat "int list"
  | CallAnalyze nat "int list list" int int
  | CallConfig WebRtcAgcConfig

fun agc_step :: "agc_call \<Rightarrow> LegacyAgc \<Rightarrow> LegacyAgc option" where
  "agc_step (CallMic n bands) s = map_option (\<lambda>(r, s, b). s) (WebRtcAgc_AddMic s bands n)"
| "agc_step (CallVirtual n bands lvl) s = map_option (\<lambda>(r, s, b, out). s) (WebRtcAgc_VirtualMic s bands n lvl)"
| "agc_step (CallFarend n xs) s = map_option (\<lambda>(r, s). s) (WebRtcAgc_AddFarend s xs n)"
| "agc_step (CallAnalyze n bands lvl echo) s = map_option (\<lambda>(r, s, out, w, gs). s) (WebRtcAgc_Analyze s bands n lvl 0 echo 0 (replicate 11 0))"
| "agc_step (CallConfig cfg) s = map_option (\<lambda>(r, s). s) (WebRtcAgc_set_config s cfg)"

fun agc_allowed :: "agc_call \<Rightarrow> int \<Rightarrow> bool" where
  "agc_allowed (CallMic n bands) mode = bands_ok n bands"
| "agc_allowed (CallVirtual n bands lvl) mode = (mode = kAgcModeAdaptiveDigital \<and> bands_ok n bands \<and> 0 < n)"
| "agc_allowed (CallFarend n xs) mode = (length xs = n)"
| "agc_allowed (CallAnalyze n bands lvl echo) mode = (bands_ok n bands \<and> in_s32 lvl)"
| "agc_allowed (CallConfig cfg) mode = (0 \<le> cfg_compressionGaindB cfg \<and> cfg_compressionGaindB cfg \<le> 70)"

interpretation calls: agc_operation agc_step agc_allowed
proof unfold_locales
  fix s a assume ok: "agc_ok s" and a: "agc_allowed a (agc_mode s)"
  show "\<exists>s'. agc_step a s = Some s' \<and> signal_step s s'"
  proof (cases a)
    case (CallMic n bands)
    then show ?thesis using AddMic_ok [OF ok, of n bands] a by auto
  next
    case (CallVirtual n bands lvl)
    then show ?thesis using VirtualMic_ok [OF ok, of n bands lvl] a by auto
  next
    case (CallFarend n xs)
    then show ?thesis using AddFarend_ok [OF ok, of xs n] a by auto
  next
    case (CallAnalyze n bands lvl echo)
    then show ?thesis using Analyze_ok [OF ok, of n bands lvl 0 echo 0 "replicate 11 0"] a by auto
  next
    case (CallConfig cfg)
    then show ?thesis using set_config_ok [OF ok, of cfg] a by auto
  qed
qed

text \<open>C11: A session never gets stuck: after an initialisation with a volume range within 0 to 65535, on whatever memory, every
  sequence of microphone frames, far-end frames, analyses and configurations, in any order and including
  the ones that are answered with an error, runs to its end, with the volume inside its limits. The calls
  are restricted in two ways (\<open>agc_allowed\<close>): a configuration asks for a compression gain of 0 to 70 dB, and the virtual
  microphone is used in adaptive digital mode only, as its caller does. The arrays have the announced lengths and hold
  16 bit samples. (Gains of 187 to 191 dB, which the check of the code lets through, do read past a table.)\<close>

theorem agc_session_completes:
  assumes "memory_ok mem" "0 \<le> lo" "lo < hi" "hi \<le> 65535" "0 \<le> mode" "mode \<le> 3" "\<forall>c\<in>set cs. agc_allowed c mode"
  shows "\<exists>s s'. WebRtcAgc_Init (WebRtcAgc_Create mem) lo hi mode rate = Some (0, s) \<and> run_calls agc_step cs s = Some s'
    \<and> minOutput s' \<le> micVol s' \<and> micVol s' \<le> maxLevel s' \<and> agc_mode s' = mode \<and> fs s' = rate"
proof -
  obtain s where s: "WebRtcAgc_Init (WebRtcAgc_Create mem) lo hi mode rate = Some (0, s)" "agc_reachable s" "agc_mode s = mode" "fs s = rate"
    using Init_reachable [OF assms(1-6), of rate] by blast
  obtain s' where "run_calls agc_step cs s = Some s'" "signal_step s s'"
    using calls.run_total [OF agc_reachable_ok [OF s(2)], of cs] assms(7) s(3) by auto
  then show ?thesis using s by (auto simp: signal_step_def agc_ok_def)
qed

theorem agc_session_completes_witness:
  "\<exists>s s'. WebRtcAgc_Init (WebRtcAgc_Create blank_memory) 0 255 1 16000 = Some (0, s)
    \<and> run_calls agc_step [CallMic 160 [replicate 160 500], CallAnalyze 160 [replicate 160 500] 40 0, CallConfig blank_config] s = Some s'"
  using agc_session_completes [OF blank_memory_ok, of 0 255 1 "[CallMic 160 [replicate 160 500], CallAnalyze 160 [replicate 160 500] 40 0, CallConfig blank_config]" 16000]
  by (auto simp: bands_ok_def in_s16_def in_s32_def blank_config_def)

subsection \<open>The gain control is correct\<close>

text \<open>C12: In every reachable state \<open>WebRtcAgc_Analyze\<close> returns 0 exactly for a frame of the right length whose level, where the level
  is controlled, is in the volume range; the recommended level is then between the lowest output level and
  the largest volume, and the level is handed through where it is not controlled.\<close>

theorem analyze_contract:
  assumes "agc_reachable s" "bands_ok n bands" "in_s32 lvl"
  shows "\<exists>r s' out w gs. WebRtcAgc_Analyze s bands n lvl out0 echo w0 gains = Some (r, s', out, w, gs)
    \<and> (r = 0 \<or> r = -1)
    \<and> (r = 0 \<longleftrightarrow> WebRtcAgc_GetAddFarendError s n = 0 \<and> (level_controlled s \<longrightarrow> minLevel s \<le> lvl \<and> lvl \<le> maxAnalog s))
    \<and> (r = 0 \<longrightarrow> (if level_controlled s then minLevel s \<le> minOutput s \<and> minOutput s \<le> out \<and> out \<le> maxAnalog s else out = lvl))"
proof -
  note ok = agc_reachable_ok [OF assms(1)]
  have "minLevel s \<le> minOutput s" using ok levels_bounds(1) [of s] by (simp add: agc_ok_def)
  moreover obtain r s' out w gs where "WebRtcAgc_Analyze s bands n lvl out0 echo w0 gains = Some (r, s', out, w, gs)" "r = 0 \<or> r = -1"
      "r = 0 \<longleftrightarrow> WebRtcAgc_GetAddFarendError s n = 0 \<and> (level_controlled s \<longrightarrow> minLevel s \<le> lvl \<and> lvl \<le> maxAnalog s)"
      "r = 0 \<longrightarrow> (if level_controlled s then minOutput s \<le> out \<and> out \<le> maxAnalog s else out = lvl)"
    using Analyze_ok [OF ok assms(2,3), of out0 echo w0 gains] by blast
  ultimately show ?thesis by (intro exI [of _ r] exI [of _ s'] exI [of _ out] exI [of _ w] exI [of _ gs]) simp
qed

theorem analyze_contract_witness:
  "\<exists>s s' out w gs. WebRtcAgc_Init (WebRtcAgc_Create blank_memory) 0 255 1 16000 = Some (0, s)
    \<and> WebRtcAgc_Analyze s [replicate 160 1000] 160 20 0 0 0 [] = Some (0, s', out, w, gs) \<and> out \<le> 255"
proof -
  obtain s where s: "WebRtcAgc_Init (WebRtcAgc_Create blank_memory) 0 255 1 16000 = Some (0, s)" "agc_reachable s" "fs s = 16000" "minLevel s = 0" "maxAnalog s = 255"
      "agc_mode s = 1"
    using Init_reachable [OF blank_memory_ok, of 0 255 1 16000] by (auto simp: kAgcModeAdaptiveDigital_def)
  have "bands_ok 160 [replicate 160 1000]" by (simp add: bands_ok_def in_s16_def)
  from analyze_contract [OF s(2) this, of 20 0 0 0 "[]"] s(3-6) have "\<exists>s' out w gs. WebRtcAgc_Analyze s [replicate 160 1000] 160 20 0 0 0 [] = Some (0, s', out, w, gs) \<and> out \<le> 255"
    by (auto simp: in_s32_def WebRtcAgc_GetAddFarendError_def level_controlled_def agc_modes)
  then show ?thesis using s(1) by blast
qed

text \<open>C13: A frame of the level control in a reachable state: the new volume stays between the lowest output level and the
  supplemental maximum, which never exceeds its initial value; with an echo it is not raised above the level
  the frame starts from; after a saturated frame it is lowered by at least two, unless a raise falls due
  in the same frame.\<close>

theorem level_control_frame:
  assumes "agc_reachable s" "in_s32 lvl" "minLevel s \<le> lvl" "lvl \<le> maxAnalog s"
  shows "\<exists>s' out w. WebRtcAgc_ProcessAnalog s lvl out0 ratio echo w0 = Some (0, s', out, w)
    \<and> out = min (micVol s') (maxAnalog s) \<and> minOutput s \<le> micVol s' \<and> micVol s' \<le> maxLevel s' \<and> maxLevel s' \<le> maxInit s
    \<and> (echo = 1 \<longrightarrow> micVol s' \<le> max (minOutput s) (snd (start_level s lvl lvl)))
    \<and> (frame_saturated s \<and> msTooLow s \<le> 330 \<and> 500 \<le> s64 (sum_list (take 10 (agc_env s ! 0)))
         \<longrightarrow> micVol s' \<le> max (minOutput s) (snd (start_level s lvl lvl) - 2))"
proof -
  obtain s' out w where p: "WebRtcAgc_ProcessAnalog s lvl out0 ratio echo w0 = Some (0, s', out, w)" "analog_result s lvl echo s' out"
    using ProcessAnalog_ok [OF agc_reachable_ok [OF assms(1)] assms(2-4)] by blast
  then have "agc_ok s'" "agc_static s' = agc_static s" by (simp_all add: analog_result_def)
  then have "minOutput s \<le> micVol s'" "micVol s' \<le> maxLevel s'" "maxLevel s' \<le> maxInit s"
    using static_fields(3,4) [of s' s] levels_ranges(4) [of s'] by (simp_all add: agc_ok_def)
  then show ?thesis using p by (auto simp: analog_result_def)
qed

theorem level_control_frame_witness:
  "\<exists>s s' out w. WebRtcAgc_Init (WebRtcAgc_Create blank_memory) 0 255 0 8000 = Some (0, s)
    \<and> WebRtcAgc_ProcessAnalog s 100 0 0 1 0 = Some (0, s', out, w) \<and> out \<le> 255"
proof -
  obtain s where s: "WebRtcAgc_Init (WebRtcAgc_Create blank_memory) 0 255 0 8000 = Some (0, s)" "agc_reachable s" "minLevel s = 0" "maxAnalog s = 255"
    using Init_reachable [OF blank_memory_ok, of 0 255 0 8000] by (auto simp: kAgcModeAdaptiveDigital_def)
  from level_control_frame [OF s(2), of 100 0 0 1 0] s(3,4) have "\<exists>s' out w. WebRtcAgc_ProcessAnalog s 100 0 0 1 0 = Some (0, s', out, w) \<and> out \<le> 255"
    by (auto simp: in_s32_def)
  then show ?thesis using s(1) by blast
qed

text \<open>C14: In every reachable state a configuration with a compression gain of 0 to 70 dB is accepted exactly when its limiter flag
  and its target level are valid, and \<open>WebRtcAgc_get_config\<close> then returns it; a rejected one sets the error code and
  leaves the reported configuration and the gain table. (Other gains are not covered: from 192 dB on the gain table refuses them.)\<close>

theorem config_contract:
  assumes "agc_reachable s" "0 \<le> cfg_compressionGaindB cfg" "cfg_compressionGaindB cfg \<le> 70"
  shows "\<exists>r s'. WebRtcAgc_set_config s cfg = Some (r, s')
    \<and> (if (cfg_limiterEnable cfg = 0 \<or> cfg_limiterEnable cfg = 1) \<and> 0 \<le> cfg_targetLevelDbfs cfg \<and> cfg_targetLevelDbfs cfg \<le> 31
       then r = 0 \<and> WebRtcAgc_get_config s' (Some c) = (0, s', Some cfg)
       else r = -1 \<and> lastError s' = AGC_BAD_PARAMETER_ERROR \<and> usedConfig s' = usedConfig s \<and> digitalAgc s' = digitalAgc s)"
proof -
  have ok: "agc_ok s" by (rule agc_reachable_ok [OF assms(1)])
  have i: "initFlag s = kInitCheck_agc" "length (gainTable (digitalAgc s)) = 32"
    using ok by (simp_all add: agc_ok_def buffers_ok_def dig_ok_def gain_table_ok_def)
  show ?thesis
  proof (cases "(cfg_limiterEnable cfg = 0 \<or> cfg_limiterEnable cfg = 1) \<and> 0 \<le> cfg_targetLevelDbfs cfg \<and> cfg_targetLevelDbfs cfg \<le> 31")
    case True
    then obtain t where t: "WebRtcAgc_set_config s cfg = Some (0, (config_settings s cfg)\<lparr>digitalAgc := (digitalAgc s)\<lparr>gainTable := t\<rparr>, usedConfig := cfg\<rparr>)"
      using set_config_accepts [OF i, of cfg] assms(2,3) by auto
    have "initFlag (config_settings s cfg) = kInitCheck_agc" using i(1) by (simp add: config_settings_def WebRtcAgc_UpdateAgcThresholds_def Let_def)
    then show ?thesis using True t by (cases cfg; cases c) (simp add: WebRtcAgc_get_config_def)
  next
    case False
    then show ?thesis using i(1) by (auto simp: WebRtcAgc_set_config_def Let_def)
  qed
qed

theorem config_contract_witness:
  "\<exists>s s'. WebRtcAgc_Init (WebRtcAgc_Create blank_memory) 0 255 1 16000 = Some (0, s)
    \<and> WebRtcAgc_set_config s (blank_config\<lparr>cfg_targetLevelDbfs := 32\<rparr>) = Some (-1, s') \<and> lastError s' = 18004"
proof -
  obtain s where s: "WebRtcAgc_Init (WebRtcAgc_Create blank_memory) 0 255 1 16000 = Some (0, s)" "agc_reachable s"
    using Init_reachable [OF blank_memory_ok, of 0 255 1 16000] by auto
  from config_contract [OF s(2), of "blank_config\<lparr>cfg_targetLevelDbfs := 32\<rparr>" blank_config]
  have "\<exists>s'. WebRtcAgc_set_config s (blank_config\<lparr>cfg_targetLevelDbfs := 32\<rparr>) = Some (-1, s') \<and> lastError s' = 18004"
    by (auto simp: blank_config_def AGC_BAD_PARAMETER_ERROR_def)
  then show ?thesis using s(1) by blast
qed

subsection \<open>The saturation detector\<close>

text \<open>The levels that count, scaled by \<open>2 ^ -20\<close>.\<close>

definition loud_sum :: "int list \<Rightarrow> int" where
  "loud_sum es = sum_list (filter (\<lambda>v. v > 875) (map (\<lambda>e. e div 1048576) es))"

lemma envelope_sum_exact:
  assumes "\<forall>e\<in>set es. level_ok e" "0 \<le> x" "x + 1024 * int (length es) \<le> 32767"
  shows "envelope_sum es x = x + loud_sum es" "0 \<le> loud_sum es" "loud_sum es \<le> 1024 * int (length es)"
proof -
  have "envelope_sum es x = x + loud_sum es \<and> 0 \<le> loud_sum es \<and> loud_sum es \<le> 1024 * int (length es)"
    using assms
  proof (induction es arbitrary: x)
    case (Cons e es)
    have e: "0 \<le> e div 1048576" "e div 1048576 \<le> 1024" using Cons.prems(1) by (auto simp: level_ok_def)
    then have v: "s16 (shr e 20) = e div 1048576" by (simp add: shr_def s16_idI)
    show ?case
    proof (cases "e div 1048576 > 875")
      case True
      then have "s16 (x + e div 1048576) = x + e div 1048576" using Cons.prems e by (simp add: s16_idI)
      moreover have "envelope_sum es (x + e div 1048576) = x + e div 1048576 + loud_sum es \<and> 0 \<le> loud_sum es \<and> loud_sum es \<le> 1024 * int (length es)"
        using Cons.prems e by (intro Cons.IH) auto
      ultimately show ?thesis using True v e by (simp add: loud_sum_def)
    next
      case False
      moreover have "envelope_sum es x = x + loud_sum es \<and> 0 \<le> loud_sum es \<and> loud_sum es \<le> 1024 * int (length es)"
        using Cons.prems by (intro Cons.IH) auto
      ultimately show ?thesis using v by (simp add: loud_sum_def)
    qed
  qed (simp add: loud_sum_def)
  then show "envelope_sum es x = x + loud_sum es" "0 \<le> loud_sum es" "loud_sum es \<le> 1024 * int (length es)" by auto
qed

fun sat_flags :: "LegacyAgc \<Rightarrow> int list list \<Rightarrow> bool list \<times> int" where
  "sat_flags s [] = ([], envSum s)"
| "sat_flags s (e # es) = (let (s, b) = WebRtcAgc_SaturationCtrl s e; (bs, x) = sat_flags s es in (b # bs, x))"

text \<open>C18: While the leaky sum of the loud levels is at most 22527 the detector reports saturation exactly when the sum with the
  ten levels of the frame exceeds 25000; it then restarts the sum, and decays it by one percent otherwise.\<close>

theorem saturation_detector_exact:
  assumes "0 \<le> envSum s" "envSum s \<le> 22527" "length env = 10" "\<forall>e\<in>set env. level_ok e"
  shows "snd (WebRtcAgc_SaturationCtrl s env) = (envSum s + loud_sum env > 25000)
    \<and> envSum (fst (WebRtcAgc_SaturationCtrl s env)) = (if envSum s + loud_sum env > 25000 then 0 else (envSum s + loud_sum env) * 32440 div 32768)"
proof -
  have "envelope_sum (take 10 env) (envSum s) = envSum s + loud_sum env" "0 \<le> loud_sum env" using envelope_sum_exact [OF assms(4,1)] assms by auto
  then show ?thesis using assms(1) by (auto simp: WebRtcAgc_SaturationCtrl_def Let_def mul32_def shr_def s32_idI s16_idI)
qed

theorem saturation_detector_exact_witness:
  "snd (WebRtcAgc_SaturationCtrl (blank_memory\<lparr>envSum := 20000\<rparr>) (replicate 10 1073676289))"
  using saturation_detector_exact [of "blank_memory\<lparr>envSum := 20000\<rparr>" "replicate 10 1073676289"]
  by (simp add: level_ok_def loud_sum_def numeral_eq_Suc)

text \<open>In general the sum is taken in 16 bits.\<close>

lemma envelope_sum_wraps:
  assumes "\<forall>e\<in>set es. level_ok e"
  shows "s16 (envelope_sum es x) = s16 (x + loud_sum es)" "in_s16 x \<Longrightarrow> in_s16 (envelope_sum es x)"
proof -
  have "s16 (envelope_sum es x) = s16 (x + loud_sum es) \<and> (in_s16 x \<longrightarrow> in_s16 (envelope_sum es x))"
    using assms
  proof (induction es arbitrary: x)
    case (Cons e es)
    have "0 \<le> e div 1048576" "e div 1048576 \<le> 1024" using Cons.prems by (auto simp: level_ok_def)
    then have v: "s16 (shr e 20) = e div 1048576" by (simp add: shr_def s16_idI)
    have "s16 (s16 y + z) = s16 (y + z)" for y z
      by (simp add: s16_def mod_simps algebra_simps)
    then show ?case using Cons v by (simp add: loud_sum_def add.assoc)
  qed (simp add: loud_sum_def)
  then show "s16 (envelope_sum es x) = s16 (x + loud_sum es)" "in_s16 x \<Longrightarrow> in_s16 (envelope_sum es x)" by auto
qed

lemma loud_sum_bounds: "\<forall>e\<in>set es. level_ok e \<Longrightarrow> 0 \<le> loud_sum es \<and> loud_sum es \<le> 1024 * int (length es)"
proof (induction es)
  case (Cons e es)
  have "0 \<le> e div 1048576" "e div 1048576 \<le> 1024" using Cons.prems by (auto simp: level_ok_def)
  then show ?case using Cons by (auto simp: loud_sum_def)
qed (simp add: loud_sum_def)

text \<open>A frame of ten levels; its sum with the state as 16 bit number, and what the detector makes of it.\<close>

definition level_frame :: "int list \<Rightarrow> bool" where
  "level_frame env \<longleftrightarrow> length env = 10 \<and> list_all level_ok env"

lemma SaturationCtrl_value:
  assumes "level_frame env" "in_s16 (envSum s)" "s16 (envSum s + loud_sum env) \<le> 25000"
  shows "WebRtcAgc_SaturationCtrl s env = (s\<lparr>envSum := s16 (envSum s + loud_sum env) * 32440 div 32768\<rparr>, False)"
proof -
  have env: "\<forall>e\<in>set env. level_ok e" "take 10 env = env" using assms(1) by (auto simp: level_frame_def list_all_iff)
  have e: "envelope_sum env (envSum s) = s16 (envSum s + loud_sum env)"
    using envelope_sum_wraps [OF env(1), of "envSum s"] assms(2) by (simp add: s16_id)
  have "-32768 \<le> s16 (envSum s + loud_sum env)" by (rule s16_range)
  then show ?thesis
    using assms(3) by (simp add: WebRtcAgc_SaturationCtrl_def e env(2) mul32_def shr_def s32_idI s16_idI)
qed

text \<open>How many frames the sum stays below the threshold, whatever they hold, when it is at most \<open>u\<close>.\<close>

fun quiet_for :: "nat \<Rightarrow> int \<Rightarrow> bool" where
  "quiet_for 0 u = True"
| "quiet_for (Suc n) u = (u + 10240 \<le> 25000 \<and> quiet_for n ((u + 10240) * 32440 div 32768))"

lemma quiet_for_le: "quiet_for n u \<Longrightarrow> m \<le> n \<Longrightarrow> quiet_for m u"
proof (induction n arbitrary: m u)
  case (Suc n)
  then show ?case by (cases m) auto
qed simp

lemma sat_flags_quiet:
  assumes "\<forall>f\<in>set frames. level_frame f" "-32768 \<le> envSum s" "envSum s \<le> u" "quiet_for (length frames) u"
  shows "list_all Not (fst (sat_flags s frames))"
  using assms
proof (induction frames arbitrary: s u)
  case (Cons f frames)
  define y where "y = envSum s + loud_sum f"
  have f: "level_frame f" using Cons.prems(1) by simp
  have "0 \<le> loud_sum f" "loud_sum f \<le> 10240"
    using loud_sum_bounds [of f] f by (auto simp: level_frame_def list_all_iff)
  then have y: "-32768 \<le> y" "y \<le> u + 10240" "u + 10240 \<le> 25000" using Cons.prems by (auto simp: y_def)
  have ctrl: "WebRtcAgc_SaturationCtrl s f = (s\<lparr>envSum := y * 32440 div 32768\<rparr>, False)"
    using SaturationCtrl_value [OF f, of s] y Cons.prems by (simp add: in_s16_def y_def s16_idI)
  have "y * 32440 div 32768 \<le> (u + 10240) * 32440 div 32768" using y by (intro zdiv_mono1) auto
  then have "list_all Not (fst (sat_flags (s\<lparr>envSum := y * 32440 div 32768\<rparr>) frames))"
    using Cons.prems y by (intro Cons.IH [of _ "(u + 10240) * 32440 div 32768"]) auto
  then show ?case by (simp add: ctrl split_def Let_def)
qed simp

text \<open>C19: The 16 bit sum wraps. Whenever the sum left by frames that were not reported (at most 25000) and the ten levels of
  the next frame add up to more than 32767, which is far above the threshold, the frame is not reported and
  the sum becomes negative; and whatever the next five frames hold, they are not reported either.\<close>

theorem saturation_missed:
  assumes "0 \<le> envSum s" "envSum s \<le> 25000" "level_frame env" "envSum s + loud_sum env > 32767"
    and "\<forall>f\<in>set frames. level_frame f" "length frames \<le> 5"
  shows "envSum (fst (WebRtcAgc_SaturationCtrl s env)) < 0 \<and> list_all Not (fst (sat_flags s (env # frames)))"
proof -
  define y where "y = envSum s + loud_sum env - 65536"
  have "loud_sum env \<le> 10240"
    using loud_sum_bounds [of env] assms(3) by (auto simp: level_frame_def list_all_iff)
  then have y: "-32768 \<le> y" "y \<le> -30296" using assms(2,4) by (auto simp: y_def)
  have "s16 (envSum s + loud_sum env) = s16 y"
    using mod_add_self2 [of "y + 32768" 65536] by (simp add: y_def s16_def algebra_simps)
  then have ctrl: "WebRtcAgc_SaturationCtrl s env = (s\<lparr>envSum := y * 32440 div 32768\<rparr>, False)"
    using SaturationCtrl_value [OF assms(3), of s] y assms(1,2) by (simp add: in_s16_def s16_idI)
  have "quiet_for 5 (-29993)" by (simp add: numeral_eq_Suc)
  then have "quiet_for (length frames) (-29993)" using assms(6) by (rule quiet_for_le)
  moreover have "-32768 \<le> y * 32440 div 32768" "y * 32440 div 32768 \<le> -29993" using y by auto
  ultimately show ?thesis
    using sat_flags_quiet [OF assms(5), of "s\<lparr>envSum := y * 32440 div 32768\<rparr>" "-29993"] by (simp add: ctrl split_def Let_def)
qed

text \<open>Two frames at full scale and one with three loud levels lead there from the initial state.\<close>

abbreviation loud_frame :: "int list" where "loud_frame \<equiv> replicate 10 1073676289"
abbreviation half_frame :: "int list" where "half_frame \<equiv> replicate 3 1073676289 @ replicate 7 0"

theorem saturation_missed_witness:
  "\<exists>s. sat_flags (blank_memory\<lparr>envSum := 0\<rparr>) [loud_frame, loud_frame, half_frame] = ([False, False, False], envSum s) \<and>
    list_all Not (fst (sat_flags s (loud_frame # replicate 5 loud_frame)))"
proof -
  have f: "level_frame loud_frame" "level_frame half_frame" by (simp_all add: level_frame_def level_ok_def list_all_iff)
  have l: "loud_sum loud_frame = 10230" "loud_sum half_frame = 3069" by (simp_all add: loud_sum_def numeral_eq_Suc)
  note ctrl = SaturationCtrl_value [OF f(1)] SaturationCtrl_value [OF f(2)]
  have "sat_flags (blank_memory\<lparr>envSum := 0\<rparr>) [loud_frame, loud_frame, half_frame] = ([False, False, False], 22989)"
    by (simp add: ctrl l in_s16_def s16_idI)
  moreover have "list_all Not (fst (sat_flags (blank_memory\<lparr>envSum := 22989\<rparr>) (loud_frame # replicate 5 loud_frame)))"
    using saturation_missed [of "blank_memory\<lparr>envSum := 22989\<rparr>" loud_frame "replicate 5 loud_frame"] f(1) l by simp
  ultimately show ?thesis by (intro exI [of _ "blank_memory\<lparr>envSum := 22989\<rparr>"]) simp
qed

end
