(* ===== verification/Spec2Isabelle.thy ===== *)
theory Spec2Isabelle
  imports Ring_Buffer Spl_Basic Spl_Resample22 Spl_Vector Spl_Bit_Reverse Spl_Random Spl_Filters Spl_Sqrt Vad_Core Isac_Fix_Logist Isac_Crc
    Ilbc_Bits Agc_Interface
begin

text \<open>
  \<^bold>\<open>What this development verifies\<close>

  The repository is the audio-processing and audio-coding part of WebRTC. Its C code is
  fixed-point signal processing: a library of integer kernels (\<open>webrtc/common_audio\<close>), a voice
  activity detector and a gain control built on it, and codecs whose bit streams are produced by
  integer arithmetic coders. This development models that code and proves what makes it correct. The
  C++ layers above it (echo cancellation, jitter buffer) compute mostly in floating point.

  \<^bold>\<open>The parts and the theories\<close>

  \<^item> \<open>Prelude\<close>: the C semantics the theories share. An \<open>int16_t\<close> or \<open>int32_t\<close> variable is a
    mathematical integer; \<open>s16\<close>, \<open>s32\<close>, \<open>u8\<close>, \<open>u16\<close>, \<open>u32\<close>, \<open>u64\<close> are the stores into a
    variable of that width; \<open>add32\<close>, \<open>sub32\<close>, \<open>mul32\<close>, \<open>shl32\<close> wrap as the compiled code does;
    \<open>shr\<close> is the arithmetic shift and \<open>cdiv\<close> the truncating division. Sizes are naturals with
    the 64-bit wrap-around written out. Memory outside an array is undefined in C and the value
    \<open>None\<close> here.
  \<^item> \<open>Ring_Buffer\<close> (\<open>common_audio/ring_buffer.c\<close>): the record \<open>RingBuffer\<close> has the fields of the
    C struct over a byte array. The invariant \<open>rb_inv\<close> relates the positions and the wrap flag;
    the contents in order are an abstraction to lists. The operations refine the bounded queue
    \<open>fifo_spec\<close>, proved in the locale \<open>bounded_fifo\<close> and interpreted on the C operations.
  \<^item> \<open>Spl_Basic\<close> (\<open>spl_inl.h\<close>, \<open>division_operations.c\<close>, \<open>spl_sqrt_floor.c\<close>,
    \<open>get_scaling_square.c\<close>, \<open>energy.c\<close>): leading zeros by the multiplicative hash, normalisation,
    saturation, divisions, the bit-serial square root, scaling and energy.
  \<^item> \<open>Spl_Vector\<close> (\<open>min_max_operations.c\<close>, \<open>copy_set_operations.c\<close>,
    \<open>vector_scaling_operations.c\<close>, \<open>auto_correlation.c\<close>, \<open>cross_correlation.c\<close>,
    \<open>downsample_fast.c\<close>): the vector kernels on top of it. The extremum searches are proved once
    in the locale \<open>extremum\<close>.
  \<^item> \<open>Spl_Bit_Reverse\<close> (\<open>complex_bit_reverse.c\<close>): the reordering of the FFT buffer.
  \<^item> \<open>Spl_Resample\<close> (\<open>resample_by_2_internal.c\<close>, \<open>resample_fractional.c\<close>,
    \<open>resample_48khz.c\<close>): the allpass polyphase filters, whose streaming law is the locale
    \<open>frame_filter\<close> interpreted on each filter, the fractional resamplers and the in-place
    pipelines with their state records.
  \<^item> \<open>Spl_Resample22\<close> (\<open>resample.c\<close>): the 22 kHz pipelines, which cut a frame into sub blocks. The
    locales \<open>block_resampler\<close>, \<open>in_place_resampler\<close>, \<open>filter_pair\<close> and \<open>sub_block_loop\<close> build them
    from filters of the interface \<open>frame_filter\<close>.
  \<^item> \<open>Spl_Filters\<close> (\<open>filter_ar.c\<close>, \<open>filter_ar_fast_q12.c\<close>, \<open>filter_ma_fast_q12.c\<close>,
    \<open>splitting_filter_imp.c\<close>, \<open>resample_by_2.c\<close>): the recursive and transversal filters, the two-band
    filter bank and the resamplers by two, again instances of \<open>frame_filter\<close>.
  \<^item> \<open>Spl_Sqrt\<close> (\<open>spl_sqrt.c\<close>, \<open>dot_product_with_scale.cc\<close>): the square root by a Taylor series and the
    scaled dot product.
  \<^item> \<open>Agc_Table\<close>, \<open>Agc_Digital\<close> (\<open>audio_processing/agc/legacy/digital_agc.cc\<close>): the compressor gain table, and
    the digital gain control with its level detector, gate and overload protection. The records
    \<open>AgcVad\<close> and \<open>DigitalAgc\<close> are the C structs.
  \<^item> \<open>Agc_Analog\<close>, \<open>Agc_Interface\<close> (\<open>audio_processing/agc/legacy/analog_agc.cc\<close>): the microphone level control
    on the record \<open>LegacyAgc\<close>, the virtual microphone, configuration and initialisation. The long body of
    \<open>WebRtcAgc_ProcessAnalog\<close> is one definition per phase (\<open>start_level\<close>, \<open>saturation_step\<close>, \<open>analog_loop\<close>,
    \<open>final_level\<close>). \<open>agc_ok\<close> is the state invariant, \<open>agc_reachable\<close> the inductive predicate of the reachable
    states, and the locale \<open>agc_operation\<close> what every call of the interface promises.
  \<^item> \<open>Vad_Sp\<close>, \<open>Vad_Filterbank\<close>, \<open>Vad_Core\<close> (\<open>common_audio/vad\<close>): the voice activity detector.
    The record \<open>VadInstT\<close> is the C struct; the feature extraction, the Gaussian mixture decision
    and model update, the hysteresis, the modes and the handle interface are one definition per C
    function, with the loops as recursive functions. The states an application can reach are the
    inductive relation \<open>vad_reachable\<close>, and \<open>vad_inv\<close> is its invariant.
  \<^item> \<open>Arith_Coder\<close> (\<open>isac/main/source/arith_routines.c\<close>, \<open>arith_routines_hist.c\<close>): the arithmetic
    coder of iSAC. The record \<open>Bitstr\<close> is the C struct of the stream. Encoding refines exact
    interval arithmetic on the number the stream stands for; the decoders' symbol searches share
    the locale \<open>symbol_search\<close>.
  \<^item> \<open>Arith_Logist\<close> (\<open>isac/main/source/arith_routines_logist.c\<close>): the coder of the spectral
    coefficients, which replaces the tables by a piecewise linear distribution function. It
    interprets \<open>symbol_search\<close> for its own search and shares the encoder's refinement.
  \<^item> \<open>Isac_Fix_Coder\<close>, \<open>Isac_Fix_Logist\<close> (\<open>isac/fix/source/arith_routines.c\<close>,
    \<open>arith_routines_hist.c\<close>, \<open>arith_routines_logist.c\<close>): the coders of the fixed-point codec, which
    keep their stream in 16-bit words, one byte at a time. The records \<open>Bitstr_enc\<close> and \<open>Bitstr_dec\<close>
    are the C structs. The theories relate them to the byte coders above: \<open>fix_rel\<close> is the simulation
    relation of the encoder, \<open>byte_dec\<close> the abstraction of a decoder. The logistic decoder computes
    the roots of its envelope itself.
  \<^item> \<open>Spl_Random\<close> (\<open>randomization_functions.c\<close>): the congruential generator of the comfort noise.
  \<^item> \<open>Ilbc_Bits\<close> (\<open>ilbc/pack_bits.c\<close>, \<open>ilbc/unpack_bits.c\<close>, \<open>ilbc/swap_bytes.c\<close>): the payload format
    of iLBC, its parameters the record \<open>iLBC_bits\<close>.
  \<^item> \<open>Isac_Crc\<close> (\<open>isac/main/source/crc.c\<close>): the checksum of the upper-band payload.

  The detector calls the resamplers and the scalar kernels; the vector kernels call the scalar
  ones; the gain control calls the resampler by two, the square root, the dot product and the scalar
  kernels, its analog part calls the digital one; the codecs call their own entropy coder and checksum.
  The ring buffer stands alone.

  \<^bold>\<open>What the lemmas show\<close>

  \<^item> Round trips: every message with valid tables that is encoded and terminated is decoded again
    by both decoders, with the number of bytes the encoder wrote; the logistic coder does the
    same for coefficients its decoder can reach, and rejects the stream at the first one it cannot reach; the fixed-point codec does both on words; packing and unpacking an iLBC frame are inverse to
    each other; an accepted configuration of the gain control is the one it reports; a vector
    normalised by its largest magnitude is restored by the opposite shift.
  \<^item> Refinement: the ring buffer implements a bounded FIFO with the same counts and bytes call by call, one encoder step implements exact
    interval arithmetic, the coders on 16-bit words implement the coders on bytes with identical
    streams, the in-place resamplers implement the composition of their stages.
  \<^item> Invariants and error contracts: every reachable detector state is well formed, processing
    accepts exactly the documented rates and lengths and returns -1 otherwise; in every reachable
    state of the gain control the volume is inside its limits, every call with a compression gain up
    to 70 dB (the virtual microphone in its own mode) is defined, and sessions of such calls run to their end.
  \<^item> Functional correctness of the kernels: largest shifts, clamped sums, quotients, integer
    square roots, extrema with the first index, correlations and energies without overflow,
    bit-reversal, FIR decimation, recursive filters without overflow, the application of the
    interpolated gains, the detection of saturation.
  \<^item> Equivalence with a reference: frame-wise filtering equals filtering the whole signal, the
    table-driven checksum equals the bit-serial register, the tables of the bit-reversed
    reordering equal the generic loop.
  \<^item> Defects of the code, stated as theorems of what it does: the energy of full-scale negative
    samples wraps around, the detector at 48 kHz ignores everything after the first 10 ms, an
    expired minimum makes the next one skip its ageing, the logistic decoder rejects
    coefficients the encoder accepts, the fixed-point encoder's termination can write one word past
    its buffer, the decoder's square root divides by zero on a zero envelope, and the random
    generators use half of their range and table, the saturation sum of the gain control wraps, and
    its gain table reads past the generator table for five settings that pass the check.

  \<^bold>\<open>Termination, fuel and bounds\<close>

  Loops of the C code are structural recursion or \<open>function\<close>s with a measure, so every model is
  total; no fuel is used. The loops that can run forever in C (\<open>WebRtcSpl_DownsampleFastC\<close> with
  factor 0, the clipping loop of the logistic encoders with a zero envelope, the candidate search of
  their decoders, the renormalisation of the fixed-point one with a zero width, and the overload
  loop of the gain control) are partial functions into \<open>option\<close>, and the theorems prove that the first
  two end for every positive factor and envelope (and for no zero envelope), the last one for every
  level and gain, and the others on what the encoder produces. The gain control is treated for volume
  ranges within 0 to 65535 and compression gains up to 70 dB: beyond, its 16-bit differences and 32-bit
  gains can overflow. Sizes in the theorems are bounded only where the C type bounds them (for
  instance fewer than \<open>2 ^ 31\<close> samples where a length is converted to 32 bits).

  \<^bold>\<open>Not modelled, and why\<close>

  \<^item> Assembler, NEON and MIPS variants of the kernels: their semantics is that of the instruction
    set; the generic C versions are modelled.
  \<^item> Floating-point code (the iSAC signal path, AEC3, AGC2, noise suppression, sinc resampling):
    the properties of interest there are numerical and depend on rounding.
  \<^item> The accuracy of \<open>WebRtcSpl_Sqrt\<close> (only its range is shown), null instances of the gain control, and
    \<open>WebRtcAgc_Free\<close>, which only releases the memory.
  \<^item> C++ layers (NetEq, audio processing module, audio coding module, \<open>rtc_base\<close>, API types) and
    third-party code: object graphs over threads, clocks and callbacks.
  \<^item> Integer C code left for later: the FFT and LPC kernels, the echo control for mobile that rests on
    them, the parameter coding and signal path of the fixed-point iSAC, and the rest of iLBC.
\<close>

end
